(* ===== verification/Tine_Prelude.thy ===== *)
theory Tine_Prelude
  imports
    Main
    "HOL-Library.Word"
    "HOL-Library.List_Lexorder"
    "HOL-Library.Numeral_Type"
begin

text \<open>
  Shared vocabulary of the development: bytes, fixed-size byte arrays (Rust's \<open>[u8; N]\<close>),
  big-endian integer fields, checked arithmetic at the widths the code uses, and the generic
  list lemmas of the component theories.  Errors are values: a Rust \<open>Result<T, E>\<close> is the sum
  \<open>E + T\<close> with \<open>Inl\<close> for the error.

  The target is the repository's pinned 64-bit one, so \<open>usize\<close> and \<open>u64\<close> have the same range.
  Lengths and offsets are natural numbers; every \<open>checked_add\<close> of the code is written out with
  the bound \<open>2 ^ 64\<close>.
\<close>

named_theorems codec_simps \<open>widths and round trips of byte fields\<close>
named_theorems list_cut \<open>cutting a concatenation at a known width\<close>

type_synonym byte = "8 word"
type_synonym bytes = "byte list"
type_synonym u64 = "64 word"
type_synonym u32 = "32 word"

lemma unat_less_2p: "unat (w :: 'a::len word) < 2 ^ LENGTH('a)"
  by (rule unsigned_less)

section \<open>Results\<close>

fun bind_res :: "'e + 'a \<Rightarrow> ('a \<Rightarrow> 'e + 'b) \<Rightarrow> 'e + 'b" where
  "bind_res (Inl e) f = Inl e"
| "bind_res (Inr x) f = f x"

fun map_err :: "('e \<Rightarrow> 'f) \<Rightarrow> 'e + 'a \<Rightarrow> 'f + 'a" where
  "map_err g (Inl e) = Inl (g e)"
| "map_err g (Inr x) = Inr x"

definition ok_or :: "'e \<Rightarrow> 'a option \<Rightarrow> 'e + 'a" where
  "ok_or e r = (case r of None \<Rightarrow> Inl e | Some x \<Rightarrow> Inr x)"

lemma bind_res_Inr: "bind_res r f = Inr y \<longleftrightarrow> (\<exists>x. r = Inr x \<and> f x = Inr y)"
  by (cases r) auto

lemma bind_res_cong [fundef_cong]:
  "r = r' \<Longrightarrow> (\<And>x. r' = Inr x \<Longrightarrow> f x = f' x) \<Longrightarrow> bind_res r f = bind_res r' f'"
  by (cases r') auto

lemma map_err_Inr [simp]: "map_err g r = Inr y \<longleftrightarrow> r = Inr y"
  by (cases r) auto

lemma map_err_Inl: "map_err g r = Inl e \<longleftrightarrow> (\<exists>e0. r = Inl e0 \<and> e = g e0)"
  by (cases r) auto

lemma ok_or_simps [simp]: "ok_or e None = Inl e" "ok_or e (Some x) = Inr x"
  by (simp_all add: ok_or_def)

lemma ok_or_Inr: "ok_or e r = Inr x \<longleftrightarrow> r = Some x"
  by (cases r) auto

section \<open>Fixed-size byte arrays\<close>

typedef (overloaded) ('n::len) byte_array = "{bs :: bytes. length bs = LENGTH('n)}"
  morphisms array_bytes Abs_byte_array
  by (rule exI [of _ "replicate LENGTH('n) 0"]) simp

type_synonym digest = "32 byte_array"
type_synonym uuid = "16 byte_array"

text \<open>
  \<open>mk_array\<close> reads an array off a slice.  The code slices exactly \<open>N\<close> bytes and calls
  \<open>try_into().expect(..)\<close>; the padding below is never reached on such a slice
  (\<open>array_bytes_mk_array\<close>).
\<close>

definition mk_array :: "bytes \<Rightarrow> ('n::len) byte_array" where
  "mk_array bs = Abs_byte_array (take LENGTH('n) (bs @ replicate LENGTH('n) 0))"

lemma length_array_bytes [simp, codec_simps]: "length (array_bytes (a :: ('n::len) byte_array)) = LENGTH('n)"
  using array_bytes [of a] by simp

lemma Abs_array_bytes [code abstype]: "Abs_byte_array (array_bytes a) = a"
  by (rule array_bytes_inverse)

lemma array_bytes_mk_pad [code]:
  "array_bytes (mk_array bs :: ('n::len) byte_array) = take LENGTH('n) (bs @ replicate LENGTH('n) 0)"
  by (simp add: mk_array_def Abs_byte_array_inverse)

lemma array_bytes_mk_array [codec_simps]:
  "length bs = LENGTH('n::len) \<Longrightarrow> array_bytes (mk_array bs :: 'n byte_array) = bs"
  by (simp add: array_bytes_mk_pad)

lemma mk_array_array_bytes [simp, codec_simps]: "mk_array (array_bytes a) = a"
  by (simp add: mk_array_def array_bytes_inverse)

lemma array_bytes_eq_iff: "a = b \<longleftrightarrow> array_bytes a = array_bytes b"
  by (simp add: array_bytes_inject)

instantiation byte_array :: (len) equal
begin
definition equal_byte_array :: "'a byte_array \<Rightarrow> 'a byte_array \<Rightarrow> bool" where
  "equal_byte_array a b \<longleftrightarrow> array_bytes a = array_bytes b"
instance
  by standard (simp add: equal_byte_array_def array_bytes_inject)
end

text \<open>The derived \<open>Ord\<close> of the digest and identifier types is lexicographic on the bytes.\<close>

instantiation byte_array :: (len) linorder
begin
definition less_eq_byte_array :: "'a byte_array \<Rightarrow> 'a byte_array \<Rightarrow> bool" where
  "less_eq_byte_array a b \<longleftrightarrow> array_bytes a \<le> array_bytes b"
definition less_byte_array :: "'a byte_array \<Rightarrow> 'a byte_array \<Rightarrow> bool" where
  "less_byte_array a b \<longleftrightarrow> array_bytes a < array_bytes b"
instance
  by standard (auto simp: less_eq_byte_array_def less_byte_array_def array_bytes_inject less_le_not_le)
end

section \<open>Big-endian integer fields\<close>

text \<open>\<open>to_be_bytes\<close> and \<open>from_be_bytes\<close> at any width, on natural numbers and then on words.\<close>

fun nat_to_be :: "nat \<Rightarrow> nat \<Rightarrow> bytes" where
  "nat_to_be 0 v = []"
| "nat_to_be (Suc n) v = nat_to_be n (v div 256) @ [word_of_nat (v mod 256)]"

definition be_to_nat :: "bytes \<Rightarrow> nat" where
  "be_to_nat bs = foldl (\<lambda>acc b. acc * 256 + unat b) 0 bs"

lemma length_nat_to_be [simp, codec_simps]: "length (nat_to_be n v) = n"
  by (induction n arbitrary: v) auto

lemma be_to_nat_Nil [simp]: "be_to_nat [] = 0"
  by (simp add: be_to_nat_def)

lemma be_to_nat_snoc [simp]: "be_to_nat (bs @ [b]) = be_to_nat bs * 256 + unat b"
  by (simp add: be_to_nat_def)

lemma unat_byte_less [simp]: "unat (b :: byte) < 256"
  using unat_less_2p [of b] by simp

lemma unat_of_nat_byte [simp]: "unat (word_of_nat (v mod 256) :: byte) = v mod 256"
  by (simp add: unat_of_nat)

lemma be_to_nat_less: "be_to_nat bs < 256 ^ length bs"
proof (induction bs rule: rev_induct)
  case Nil
  then show ?case by simp
next
  case (snoc b bs)
  have "be_to_nat bs * 256 + unat b < (be_to_nat bs + 1) * 256"
    using unat_byte_less [of b] by (simp add: algebra_simps)
  also have "\<dots> \<le> 256 ^ length bs * 256"
    using snoc by (intro mult_right_mono) auto
  finally show ?case by simp
qed

lemma be_to_nat_nat_to_be: "be_to_nat (nat_to_be n v) = v mod 256 ^ n"
proof (induction n arbitrary: v)
  case 0
  then show ?case by simp
next
  case (Suc n)
  have "v mod (256 * 256 ^ n) = 256 * (v div 256 mod 256 ^ n) + v mod 256"
    by (rule mod_mult2_eq)
  with Suc show ?case by simp
qed

lemma nat_to_be_be_to_nat: "nat_to_be (length bs) (be_to_nat bs) = bs"
proof (induction bs rule: rev_induct)
  case Nil
  then show ?case by simp
next
  case (snoc b bs)
  then show ?case by (simp add: unat_word_ariths)
qed

definition be64 :: "u64 \<Rightarrow> bytes" where
  "be64 w = nat_to_be 8 (unat w)"

definition be32 :: "u32 \<Rightarrow> bytes" where
  "be32 w = nat_to_be 4 (unat w)"

definition of_be64 :: "bytes \<Rightarrow> u64" where
  "of_be64 bs = word_of_nat (be_to_nat bs)"

definition of_be32 :: "bytes \<Rightarrow> u32" where
  "of_be32 bs = word_of_nat (be_to_nat bs)"

lemma length_be [simp, codec_simps]: "length (be64 w) = 8" "length (be32 v) = 4"
  by (simp_all add: be64_def be32_def)

lemma of_be64_be64 [simp, codec_simps]: "of_be64 (be64 w) = w"
  using unat_less_2p [of w] by (simp add: of_be64_def be64_def be_to_nat_nat_to_be)

lemma of_be32_be32 [simp, codec_simps]: "of_be32 (be32 w) = w"
  using unat_less_2p [of w] by (simp add: of_be32_def be32_def be_to_nat_nat_to_be)

lemma be64_of_be64 [codec_simps]: "length bs = 8 \<Longrightarrow> be64 (of_be64 bs) = bs"
  using be_to_nat_less [of bs] nat_to_be_be_to_nat [of bs]
  by (simp add: be64_def of_be64_def unat_of_nat)

lemma be32_of_be32 [codec_simps]: "length bs = 4 \<Longrightarrow> be32 (of_be32 bs) = bs"
  using be_to_nat_less [of bs] nat_to_be_be_to_nat [of bs]
  by (simp add: be32_def of_be32_def unat_of_nat)

lemma unat_of_be32: "length bs = 4 \<Longrightarrow> unat (of_be32 bs) = be_to_nat bs"
  using be_to_nat_less [of bs] by (simp add: of_be32_def unat_of_nat)

lemma unat_of_be64: "length bs = 8 \<Longrightarrow> unat (of_be64 bs) = be_to_nat bs"
  using be_to_nat_less [of bs] by (simp add: of_be64_def unat_of_nat)

section \<open>Checked arithmetic\<close>

definition checked_add :: "nat \<Rightarrow> nat \<Rightarrow> nat option" where
  "checked_add a b = (if a + b < 2 ^ 64 then Some (a + b) else None)"

definition checked_mul :: "nat \<Rightarrow> nat \<Rightarrow> nat option" where
  "checked_mul a b = (if a * b < 2 ^ 64 then Some (a * b) else None)"

definition checked_sub :: "nat \<Rightarrow> nat \<Rightarrow> nat option" where
  "checked_sub a b = (if b \<le> a then Some (a - b) else None)"

definition checked_add64 :: "u64 \<Rightarrow> u64 \<Rightarrow> u64 option" where
  "checked_add64 a b = (if unat a + unat b < 2 ^ 64 then Some (a + b) else None)"

definition saturating_add64 :: "u64 \<Rightarrow> u64 \<Rightarrow> u64" where
  "saturating_add64 a b = (if unat a + unat b < 2 ^ 64 then a + b else - 1)"

lemma checked_add64_Some:
  "checked_add64 a b = Some c \<Longrightarrow> unat c = unat a + unat b"
  by (auto simp: checked_add64_def unat_word_ariths split: if_splits)

lemma checked_add64_exact:
  "unat a + unat b < 2 ^ 64 \<Longrightarrow> checked_add64 a b = Some (a + b)"
  by (simp add: checked_add64_def)

lemma checked_add_Some: "checked_add a b = Some c \<longleftrightarrow> c = a + b \<and> a + b < 2 ^ 64"
  by (auto simp: checked_add_def)

lemma checked_add64_one: "checked_add64 a 1 = (if a = - 1 then None else Some (a + 1))"
proof -
  have "unat (- 1 :: u64) = 2 ^ 64 - 1"
    by (simp add: unsigned_minus_1_eq_mask mask_eq_exp_minus_1)
  then have "unat a + 1 < 2 ^ 64 \<longleftrightarrow> a \<noteq> - 1"
    using unat_less_2p [of a] word_unat_eq_iff [of a "- 1"] by auto
  then show ?thesis by (auto simp: checked_add64_def)
qed

section \<open>Lists\<close>

text \<open>The bytes \<open>[lo .. hi)\<close> of a slice.\<close>

definition range_of :: "nat \<Rightarrow> nat \<Rightarrow> 'a list \<Rightarrow> 'a list" where
  "range_of lo hi xs = take (hi - lo) (drop lo xs)"

lemma length_range_of [simp]: "hi \<le> length xs \<Longrightarrow> length (range_of lo hi xs) = hi - lo"
  by (auto simp: range_of_def min_def)

lemma range_of_append [list_cut]:
  "range_of lo hi (xs @ ys) =
     (if hi \<le> length xs then range_of lo hi xs
      else if length xs \<le> lo then range_of (lo - length xs) (hi - length xs) ys
      else drop lo xs @ range_of 0 (hi - length xs) ys)"
  by (auto simp: range_of_def drop_take min_def le_diff_conv)

lemma range_of_full [simp]: "length xs \<le> hi \<Longrightarrow> range_of 0 hi xs = xs"
  by (simp add: range_of_def)

lemma range_of_0 [simp]: "range_of lo lo xs = []"
  by (simp add: range_of_def)

lemma range_of_to_end: "length xs \<le> hi \<Longrightarrow> range_of lo hi xs = drop lo xs"
  by (simp add: range_of_def)

lemma range_of_join: "lo \<le> mid \<Longrightarrow> mid \<le> hi \<Longrightarrow> range_of lo mid xs @ range_of mid hi xs = range_of lo hi xs"
proof -
  assume a: "lo \<le> mid" "mid \<le> hi"
  then have "take (mid - lo) (drop lo xs) @ take (hi - mid) (drop (mid - lo) (drop lo xs))
      = take ((mid - lo) + (hi - mid)) (drop lo xs)"
    by (simp only: take_add)
  with a show ?thesis by (simp add: range_of_def)
qed

text \<open>\<open>windows(2).all(..)\<close>: each element before the next.\<close>

fun strictly_sorted :: "('a::linorder) list \<Rightarrow> bool" where
  "strictly_sorted (x # y # zs) = (x < y \<and> strictly_sorted (y # zs))"
| "strictly_sorted _ = True"

lemma strictly_sorted_iff: "strictly_sorted xs \<longleftrightarrow> sorted_wrt (<) xs"
  by (induction xs rule: strictly_sorted.induct) (auto dest: less_trans)

lemma strictly_sorted_unique:
  "strictly_sorted xs \<Longrightarrow> strictly_sorted ys \<Longrightarrow> set xs = set ys \<Longrightarrow> xs = ys"
  by (simp add: strictly_sorted_iff strict_sorted_equal)


section \<open>Text\<close>

text \<open>Decimal text of an integer (\<open>{}\<close> in \<open>format!\<close>) and \<open>str::contains\<close>.\<close>

fun show_nat :: "nat \<Rightarrow> string" where
  "show_nat n = (if n < 10 then [char_of (48 + n)] else show_nat (n div 10) @ [char_of (48 + n mod 10)])"

declare show_nat.simps [simp del]

definition text_of_bytes :: "bytes \<Rightarrow> string" where
  "text_of_bytes bs = map (\<lambda>b. char_of (unat b)) bs"

fun starts_with :: "'a list \<Rightarrow> 'a list \<Rightarrow> bool" where
  "starts_with xs [] = True"
| "starts_with [] (y # ys) = False"
| "starts_with (x # xs) (y # ys) = (x = y \<and> starts_with xs ys)"

fun contains :: "'a list \<Rightarrow> 'a list \<Rightarrow> bool" where
  "contains [] pat = (pat = [])"
| "contains (x # xs) pat = (starts_with (x # xs) pat \<or> contains xs pat)"

lemma starts_with_iff: "starts_with xs ys \<longleftrightarrow> (\<exists>zs. xs = ys @ zs)"
  by (induction xs ys rule: starts_with.induct) auto

section \<open>Binary search of the standard library\<close>

text \<open>
  The loop of \<open>slice::binary_search_by\<close>: \<open>gt\<close> is "the probe compares \<open>Greater\<close>".
  \<open>partition_point\<close> and \<open>binary_search(..).is_ok()\<close> are its two uses.
\<close>

function bisect :: "('a \<Rightarrow> bool) \<Rightarrow> 'a list \<Rightarrow> nat \<Rightarrow> nat \<Rightarrow> nat" where
  "bisect gt xs base n =
     (if 1 < n
      then bisect gt xs (if gt (xs ! (base + n div 2)) then base else base + n div 2)
             (n - n div 2)
      else base)"
  by pat_completeness auto
termination
  by (relation "measure (\<lambda>(gt, xs, base, n). n)") auto

declare bisect.simps [simp del]

definition partition_point :: "('a \<Rightarrow> bool) \<Rightarrow> 'a list \<Rightarrow> nat" where
  "partition_point pred xs =
     (if xs = [] then 0
      else let base = bisect (\<lambda>x. \<not> pred x) xs 0 (length xs)
           in if pred (xs ! base) then base + 1 else base)"

definition binary_search_ok :: "('a::linorder) \<Rightarrow> 'a list \<Rightarrow> bool" where
  "binary_search_ok x xs \<longleftrightarrow> xs \<noteq> [] \<and> xs ! bisect (\<lambda>y. x < y) xs 0 (length xs) = x"

lemma bisect_partition:
  "(\<And>i. i < length xs \<Longrightarrow> gt (xs ! i) \<longleftrightarrow> p \<le> i) \<Longrightarrow>
   base \<le> p - 1 \<Longrightarrow> p - 1 < base + n \<Longrightarrow> base + n \<le> length xs \<Longrightarrow> bisect gt xs base n = p - 1"
proof (induction gt xs base n rule: bisect.induct)
  case (1 gt xs base n)
  show ?case
  proof (cases "1 < n")
    case True
    let ?half = "n div 2" and ?mid = "base + n div 2"
    have half: "0 < ?half" "?half \<le> n - ?half" "?half < n" using True by auto
    have gt: "gt (xs ! ?mid) \<longleftrightarrow> p \<le> ?mid"
      using "1.prems"(4) half by (intro "1.prems"(1)) auto
    have left: "p - 1 < base + (n - ?half)" if "p \<le> ?mid"
      using that half by linarith
    have right: "?mid \<le> p - 1" "p - 1 < ?mid + (n - ?half)" if "\<not> p \<le> ?mid"
      using that half "1.prems"(3) by linarith+
    have "bisect gt xs (if gt (xs ! ?mid) then base else ?mid) (n - ?half) = p - 1"
      using True "1.prems" half gt left right le_trans [OF _ "1.prems"(4), of "base + (n - ?half)"]
      by (intro "1.IH") (auto simp del: One_nat_def)
    with True show ?thesis by (subst bisect.simps) simp
  next
    case False
    with "1.prems" show ?thesis by (subst bisect.simps) auto
  qed
qed

lemma partition_point_eq:
  assumes "\<And>i. i < length xs \<Longrightarrow> pred (xs ! i) \<longleftrightarrow> i < p" and "p \<le> length xs"
  shows "partition_point pred xs = p"
proof (cases "xs = []")
  case True
  with assms show ?thesis by (simp add: partition_point_def)
next
  case False
  then have "0 < length xs" by simp
  with assms(2) have "p - 1 < length xs" by linarith
  then have "bisect (\<lambda>x. \<not> pred x) xs 0 (length xs) = p - 1"
    using assms by (intro bisect_partition) (auto simp: not_less)
  moreover have "pred (xs ! (p - 1)) \<longleftrightarrow> 0 < p"
    using assms(1) [OF \<open>p - 1 < length xs\<close>] by (cases p) auto
  ultimately show ?thesis using False
    by (cases p) (auto simp: partition_point_def Let_def)
qed

lemma binary_search_ok_iff:
  assumes "sorted_wrt (<) (xs :: ('a::linorder) list)"
  shows "binary_search_ok x xs \<longleftrightarrow> x \<in> set xs"
proof (cases "xs = []")
  case True
  then show ?thesis by (simp add: binary_search_ok_def)
next
  case False
  define p where "p = length (takeWhile (\<lambda>y. y \<le> x) xs)"
  have sorted: "sorted xs" using assms strict_sorted_iff by blast
  have part: "x < xs ! i \<longleftrightarrow> p \<le> i" if "i < length xs" for i
  proof (cases "p \<le> i")
    case True
    then have "p < length xs" using that by simp
    then have "x < xs ! p"
      unfolding p_def using nth_length_takeWhile [of "\<lambda>y. y \<le> x" xs] by simp
    also have "\<dots> \<le> xs ! i" using sorted True that by (simp add: sorted_nth_mono)
    finally show ?thesis using True by simp
  next
    case False
    then have "i < length (takeWhile (\<lambda>y. y \<le> x) xs)" by (simp add: p_def)
    then have "xs ! i \<in> set (takeWhile (\<lambda>y. y \<le> x) xs)"
      using nth_mem takeWhile_nth by metis
    then have "xs ! i \<le> x" by (auto dest: set_takeWhileD)
    then show ?thesis using False by simp
  qed
  have p_le: "p \<le> length xs" unfolding p_def by (rule length_takeWhile_le)
  have b: "bisect (\<lambda>y. x < y) xs 0 (length xs) = p - 1"
    using part p_le False by (intro bisect_partition) (auto simp: neq_Nil_conv)
  have "x \<in> set xs \<longleftrightarrow> xs ! (p - 1) = x"
  proof
    assume "x \<in> set xs"
    then obtain i where i: "i < length xs" "xs ! i = x" by (auto simp: in_set_conv_nth)
    with part [of i] have "i < p" by auto
    then have "i \<le> p - 1" "p - 1 < length xs" using p_le by auto
    then have "x \<le> xs ! (p - 1)" using sorted i by (metis sorted_nth_mono)
    moreover have "xs ! (p - 1) \<le> x" using part [of "p - 1"] \<open>i < p\<close> p_le by (simp add: not_less [symmetric])
    ultimately show "xs ! (p - 1) = x" by simp
  next
    assume "xs ! (p - 1) = x"
    moreover have "p - 1 < length xs" using p_le False by (cases xs) auto
    ultimately show "x \<in> set xs" using nth_mem by blast
  qed
  with False b show ?thesis by (simp add: binary_search_ok_def)
qed

section \<open>Length-prefixed envelopes\<close>

text \<open>
  The layout the object envelope and the journal frame share: an 8-byte magic, the header length
  as a big-endian \<open>u32\<close>, the payload length as a big-endian \<open>u64\<close>, the header, the payload (and
  then a checksum).
\<close>

definition envelope :: "bytes \<Rightarrow> bytes \<Rightarrow> bytes \<Rightarrow> bytes" where
  "envelope magic header payload =
     magic @ be32 (word_of_nat (length header)) @ be64 (word_of_nat (length payload))
       @ header @ payload"

lemma length_envelope:
  "length magic = 8 \<Longrightarrow> length (envelope magic header payload) = 20 + length header + length payload"
  by (simp add: envelope_def)

lemma envelope_fields:
  assumes "length magic = 8" and "bs = envelope magic header payload @ rest"
  shows "range_of 0 8 bs = magic"
    and "range_of 8 12 bs = be32 (word_of_nat (length header))"
    and "range_of 12 20 bs = be64 (word_of_nat (length payload))"
    and "range_of 20 (20 + length header) bs = header"
    and "range_of (20 + length header) (20 + length header + length payload) bs = payload"
    and "take (20 + length header + length payload) bs = envelope magic header payload"
    and "drop (20 + length header + length payload) bs = rest"
  using assms by (simp_all add: envelope_def range_of_def)

lemma envelope_header_len:
  "length header < 2 ^ 32 \<Longrightarrow> unat (of_be32 (be32 (word_of_nat (length header)))) = length header"
  by (simp add: unat_of_nat)

lemma envelope_payload_len:
  "length payload < 2 ^ 64 \<Longrightarrow> unat (of_be64 (be64 (word_of_nat (length payload)))) = length payload"
  by (simp add: unat_of_nat)

lemma envelope_of_fields:
  assumes len: "length bs = 20 + hl + pl + k"
    and hl: "unat (of_be32 (range_of 8 12 bs)) = hl"
    and pl: "unat (of_be64 (range_of 12 20 bs)) = pl"
  shows "take (20 + hl + pl) bs
    = envelope (range_of 0 8 bs) (range_of 20 (20 + hl) bs) (range_of (20 + hl) (20 + hl + pl) bs)"
proof -
  have lens: "length (range_of 20 (20 + hl) bs) = hl"
    "length (range_of (20 + hl) (20 + hl + pl) bs) = pl"
    "length (range_of 8 12 bs) = 4" "length (range_of 12 20 bs) = 8"
    using len by simp_all
  have "be32 (word_of_nat hl) = range_of 8 12 bs"
    using be32_of_be32 [OF lens(3)] by (simp add: hl [symmetric])
  moreover have "be64 (word_of_nat pl) = range_of 12 20 bs"
    using be64_of_be64 [OF lens(4)] by (simp add: pl [symmetric])
  moreover have "take (20 + hl + pl) bs = range_of 0 8 bs @ range_of 8 12 bs @ range_of 12 20 bs
      @ range_of 20 (20 + hl) bs @ range_of (20 + hl) (20 + hl + pl) bs"
    by (simp add: range_of_join) (simp add: range_of_def)
  ultimately show ?thesis by (simp add: envelope_def lens)
qed

section \<open>Serializers and canonical decoders\<close>

text \<open>
  The serializers the code calls (\<open>postcard\<close>, \<open>serde_json\<close>) are third-party crates, hence
  parameters: an encoder and a decoder that may fail with the library's error text.
  \<open>roundtrips\<close> is the behaviour their documentation promises and the code relies on.
\<close>

record 'a serializer =
  to_vec :: "'a \<Rightarrow> string + bytes"
  from_slice :: "bytes \<Rightarrow> string + 'a"

definition roundtrips :: "'a serializer \<Rightarrow> bool" where
  "roundtrips S \<longleftrightarrow> (\<forall>x b. to_vec S x = Inr b \<longrightarrow> from_slice S b = Inr x)"

lemma roundtripsD: "roundtrips S \<Longrightarrow> to_vec S x = Inr b \<Longrightarrow> from_slice S b = Inr x"
  by (auto simp: roundtrips_def)

text \<open>
  The contract of a persistent decoder: whatever it accepts is the encoding of what it returns.
  No value then has two accepted byte forms.
\<close>

locale canonical_decoder =
  fixes encode :: "'a \<Rightarrow> 'e + bytes" and decode :: "bytes \<Rightarrow> 'f + 'a"
  assumes decode_canonical: "decode b = Inr x \<Longrightarrow> encode x = Inr b"
begin

lemma decode_unique: "decode b = Inr x \<Longrightarrow> decode c = Inr x \<Longrightarrow> b = c"
  using decode_canonical by (metis sum.inject(2))

lemma decode_rejects: "encode x = Inr b \<Longrightarrow> c \<noteq> b \<Longrightarrow> decode c \<noteq> Inr x"
  using decode_canonical by (metis sum.inject(2))

end

text \<open>A total fixed codec: every value has an encoding and it reads back.\<close>

locale byte_codec = canonical_decoder encode decode
  for encode :: "'a \<Rightarrow> 'e + bytes" and decode :: "bytes \<Rightarrow> 'f + 'a" +
  assumes decode_encode: "encode x = Inr b \<Longrightarrow> decode b = Inr x"
begin

lemma decode_iff: "decode b = Inr x \<longleftrightarrow> encode x = Inr b"
  using decode_encode decode_canonical by blast

lemma encode_inject: "encode x = Inr b \<Longrightarrow> encode y = Inr b \<Longrightarrow> x = y"
  using decode_encode by (metis sum.inject(2))

end

end
