(* ===== verification/Content_Digest.thy ===== *)
theory Content_Digest
  imports Tine_Prelude
begin

text \<open>
  \<open>src/content_digest.rs\<close>: the 32-byte content identity and its textual form.  A
  \<open>ContentDigest\<close> is a \<^typ>\<open>digest\<close>; \<open>ContentDigest::of\<close> is SHA-256 from the crate
  \<open>sha2\<close>, which the theories that hash take as a parameter \<open>H\<close>.  A Rust string is the list of
  its UTF-8 bytes.  A panic (the \<open>unreachable!\<close> of \<open>hex_nibble\<close>) is \<^const>\<open>None\<close>.
\<close>

unbundle bit_operations_syntax

type_synonym hash = "bytes \<Rightarrow> digest"

datatype digest_parse_error = DigestParseError

section \<open>Operations\<close>

definition HEX :: bytes where
  "HEX = [0x30, 0x31, 0x32, 0x33, 0x34, 0x35, 0x36, 0x37, 0x38, 0x39,
          0x61, 0x62, 0x63, 0x64, 0x65, 0x66]"

definition is_lower_hex :: "byte \<Rightarrow> bool" where
  "is_lower_hex b \<longleftrightarrow> (0x30 \<le> b \<and> b \<le> 0x39) \<or> (0x61 \<le> b \<and> b \<le> 0x66)"

definition hex_nibble :: "byte \<Rightarrow> byte option" where
  "hex_nibble v =
     (if 0x30 \<le> v \<and> v \<le> 0x39 then Some (v - 0x30)
      else if 0x61 \<le> v \<and> v \<le> 0x66 then Some (v - 0x61 + 10)
      else None)"

text \<open>The loop over \<open>chunks_exact(2)\<close>: a trailing odd byte is not a chunk.\<close>

fun hex_pairs :: "bytes \<Rightarrow> bytes option" where
  "hex_pairs (p0 # p1 # rest) =
     (case (hex_nibble p0, hex_nibble p1) of
        (Some hi, Some lo) \<Rightarrow> map_option (\<lambda>bs. (push_bit 4 hi OR lo) # bs) (hex_pairs rest)
      | _ \<Rightarrow> None)"
| "hex_pairs _ = Some []"

definition parse_digest :: "bytes \<Rightarrow> (digest_parse_error + digest) option" where
  "parse_digest value =
     (if length value \<noteq> 64 \<or> (\<exists>b \<in> set value. \<not> is_lower_hex b)
      then Some (Inl DigestParseError)
      else map_option (\<lambda>bs. Inr (mk_array bs)) (hex_pairs value))"

definition hex_byte :: "byte \<Rightarrow> bytes" where
  "hex_byte b = [HEX ! unat (drop_bit 4 b), HEX ! unat (b AND 0x0f)]"

definition write_hex :: "bytes \<Rightarrow> bytes" where
  "write_hex bs = concat (map hex_byte bs)"

definition display_digest :: "digest \<Rightarrow> bytes" where
  "display_digest d = write_hex (array_bytes d)"

section \<open>Nibbles\<close>

lemma and_low_nibble: "(b :: byte) AND 0x0f = take_bit 4 b"
  by (simp add: take_bit_eq_mask mask_numeral)

lemma nibble_less: "unat (drop_bit 4 (b :: byte)) < 16" "unat ((b :: byte) AND 0x0f) < 16"
proof -
  have "unat (drop_bit 4 b) = unat b div 16"
    by (simp only: unat_drop_bit_eq) (simp add: drop_bit_eq_div)
  moreover have "unat b < 256" by simp
  ultimately show "unat (drop_bit 4 b) < 16" by linarith
  show "unat (b AND 0x0f) < 16"
    by (simp only: and_low_nibble unsigned_take_bit_eq) (simp add: take_bit_eq_mod)
qed

lemma below_16: "n < 16 \<Longrightarrow> n \<in> set [0, 1, 2, 3, 4, 5, 6, 7, 8, 9, 10, 11, 12, 13, 14, 15::nat]"
proof -
  have "[0, 1, 2, 3, 4, 5, 6, 7, 8, 9, 10, 11, 12, 13, 14, 15::nat] = [0..<16]"
    by code_simp
  then show "n < 16 \<Longrightarrow> ?thesis" by simp
qed

lemma hex_nibble_HEX: "n < 16 \<Longrightarrow> hex_nibble (HEX ! n) = Some (word_of_nat n)"
  by (drule below_16) (auto simp: HEX_def hex_nibble_def)

lemma is_lower_hex_HEX: "n < 16 \<Longrightarrow> is_lower_hex (HEX ! n)"
  by (drule below_16) (auto simp: HEX_def is_lower_hex_def)

lemma is_lower_hex_unat:
  "is_lower_hex v \<longleftrightarrow> (48 \<le> unat v \<and> unat v \<le> 57) \<or> (97 \<le> unat v \<and> unat v \<le> 102)"
  by (simp add: is_lower_hex_def word_le_nat_alt)

lemma HEX_nth: "n < 16 \<Longrightarrow> HEX ! n = word_of_nat (if n < 10 then 48 + n else 87 + n)"
  by (drule below_16) (auto simp: HEX_def)

lemma is_lower_hex_nth: "is_lower_hex v \<Longrightarrow> \<exists>n < 16. v = HEX ! n"
proof -
  assume "is_lower_hex v"
  then consider "48 \<le> unat v" "unat v \<le> 57" | "97 \<le> unat v" "unat v \<le> 102"
    by (auto simp: is_lower_hex_unat)
  then show ?thesis
  proof cases
    case 1
    then show ?thesis
      by (intro exI [of _ "unat v - 48"] conjI) (auto simp: HEX_nth)
  next
    case 2
    then show ?thesis
      by (intro exI [of _ "unat v - 87"] conjI) (auto simp: HEX_nth)
  qed
qed

lemma join_nibbles: "push_bit 4 (drop_bit 4 b) OR (b AND 0x0f) = (b :: byte)"
  unfolding and_low_nibble
  by (rule bit_word_eqI) (auto simp: bit_simps)

lemma split_nibbles:
  assumes "hi < 16" and "lo < 16"
  defines "b \<equiv> push_bit 4 (word_of_nat hi :: byte) OR word_of_nat lo"
  shows "unat (drop_bit 4 b) = hi" and "unat (b AND 0x0f) = lo"
proof -
  have "take_bit 4 (word_of_nat lo :: byte) = word_of_nat lo"
    using assms(2)
    by (simp only: word_unat_eq_iff unsigned_take_bit_eq) (simp add: take_bit_eq_mod unat_of_nat)
  then have "b = push_bit 4 (word_of_nat hi) OR take_bit 4 (word_of_nat lo)"
    by (simp add: b_def)
  also have "\<dots> = push_bit 4 (word_of_nat hi) + take_bit 4 (word_of_nat lo)"
    by (rule disjunctive_add_eq_or [symmetric]) (auto simp: bit_eq_iff bit_simps)
  finally have eq: "b = word_of_nat (16 * hi + lo)"
    using \<open>take_bit 4 (word_of_nat lo :: byte) = word_of_nat lo\<close> by (simp add: push_bit_eq_mult)
  have u: "unat b = 16 * hi + lo"
    using assms(1,2) by (simp only: eq unat_of_nat) simp
  show "unat (drop_bit 4 b) = hi"
    using assms(2) by (simp only: unat_drop_bit_eq) (simp add: drop_bit_eq_div u)
  show "unat (b AND 0x0f) = lo"
    using assms(2)
    by (simp only: and_low_nibble unsigned_take_bit_eq) (simp add: take_bit_eq_mod u)
qed

section \<open>Round trips and strictness\<close>

lemma hex_pairs_write_hex: "hex_pairs (write_hex bs) = Some bs"
proof (induction bs)
  case Nil
  then show ?case by (simp add: write_hex_def)
next
  case (Cons b bs)
  then show ?case
    using nibble_less [of b]
    by (simp add: write_hex_def hex_byte_def hex_nibble_HEX join_nibbles)
qed

lemma length_write_hex: "length (write_hex bs) = 2 * length bs"
  by (induction bs) (auto simp: write_hex_def hex_byte_def)

lemma write_hex_lower: "b \<in> set (write_hex bs) \<Longrightarrow> is_lower_hex b"
  using nibble_less by (auto simp: write_hex_def hex_byte_def is_lower_hex_HEX)

lemma hex_pairs_lower:
  "\<forall>b \<in> set v. is_lower_hex b \<Longrightarrow> even (length v) \<Longrightarrow>
   \<exists>bs. hex_pairs v = Some bs \<and> write_hex bs = v"
proof (induction v rule: hex_pairs.induct)
  case (1 p0 p1 rest)
  then obtain hi lo where n: "hi < 16" "p0 = HEX ! hi" "lo < 16" "p1 = HEX ! lo"
    using is_lower_hex_nth by (metis list.set_intros(1,2))
  have "\<exists>bs. hex_pairs rest = Some bs \<and> write_hex bs = rest"
    by (rule "1.IH" [OF refl]) (use "1.prems" n in \<open>auto simp: hex_nibble_HEX\<close>)
  then obtain bs where "hex_pairs rest = Some bs" "write_hex bs = rest" by blast
  with n split_nibbles [OF n(1,3)] show ?case
    by (simp add: hex_nibble_HEX write_hex_def hex_byte_def)
qed (auto simp: write_hex_def)

text \<open>
  The interface of a strict textual identity: what is displayed parses back, and nothing else
  parses.
\<close>

locale strict_text =
  fixes display :: "'a \<Rightarrow> bytes" and parse :: "bytes \<Rightarrow> 'a option"
  assumes parse_display: "parse (display x) = Some x"
    and display_parse: "parse v = Some x \<Longrightarrow> display x = v"
begin

lemma display_inject: "display x = display y \<longleftrightarrow> x = y"
  using parse_display by (metis option.inject)

lemma parse_inject: "parse v = Some x \<Longrightarrow> parse w = Some x \<Longrightarrow> v = w"
  using display_parse by metis

lemma parse_accepts_iff: "(\<exists>x. parse v = Some x) \<longleftrightarrow> v \<in> range display"
  using parse_display display_parse by (metis rangeE rangeI)

end

definition parse_digest_ok :: "bytes \<Rightarrow> digest option" where
  "parse_digest_ok v = (case parse_digest v of Some (Inr d) \<Rightarrow> Some d | _ \<Rightarrow> None)"

lemma parse_digest_display: "parse_digest (display_digest d) = Some (Inr d)"
  by (auto simp: parse_digest_def display_digest_def length_write_hex hex_pairs_write_hex
      write_hex_lower)

lemma parse_digest_OK:
  assumes "parse_digest v = Some (Inr d)"
  shows "display_digest d = v"
proof -
  from assms have v: "length v = 64" "\<forall>b \<in> set v. is_lower_hex b"
    by (auto simp: parse_digest_def split: if_splits)
  then obtain bs where bs: "hex_pairs v = Some bs" "write_hex bs = v"
    using hex_pairs_lower [of v] by auto
  then have "length bs = 32" using v(1) length_write_hex [of bs] by simp
  with assms v bs show ?thesis
    by (auto simp: parse_digest_def display_digest_def array_bytes_mk_array)
qed

interpretation digest_text: strict_text display_digest parse_digest_ok
  by unfold_locales
    (auto simp: parse_digest_ok_def parse_digest_display parse_digest_OK
      split: option.splits sum.splits)

section \<open>Properties\<close>

text \<open>The lower-case hexadecimal text of a content digest is a strict identity:
  \<open>parse_digest\<close> never reaches its \<open>unreachable!\<close> arm, it reads back what is displayed, and any
  text it accepts is exactly the displayed form of the digest it returns, so upper-case, short,
  long or padded spellings are all refused.
\<close>

theorem digest_text_strict:
  "parse_digest v \<noteq> None
   \<and> parse_digest (display_digest d) = Some (Inr d)
   \<and> (parse_digest v = Some (Inr d) \<longleftrightarrow> v = display_digest d)"
proof (intro conjI)
  show "parse_digest v \<noteq> None"
    using hex_pairs_lower [of v] by (auto simp: parse_digest_def)
qed (use parse_digest_display parse_digest_OK in \<open>auto simp: parse_digest_display\<close>)

end
