(* ===== verification/Digest_Sealed.thy ===== *)
theory Digest_Sealed
  imports Content_Digest
begin

text \<open>
  \<open>src/digest_sealed.rs\<close>: an envelope that binds opaque payload bytes to a schema version and
  their digest.  \<open>P\<close> is the \<open>postcard\<close> serializer of the envelope and \<open>H\<close> is SHA-256.  Decoding
  checks only the canonical outer form; \<open>verify_digest\<close> is a separate step.
\<close>

record sealed_payload =
  sp_schema_version :: u32
  sp_payload :: bytes
  sp_payload_digest :: digest

datatype digest_sealed_error = SealEncode | SealDecode | SealNonCanonical | SealDigestMismatch

definition sealed_new :: "hash \<Rightarrow> u32 \<Rightarrow> bytes \<Rightarrow> sealed_payload" where
  "sealed_new H version payload =
     \<lparr>sp_schema_version = version, sp_payload = payload, sp_payload_digest = H payload\<rparr>"

definition encode_canonical ::
  "sealed_payload serializer \<Rightarrow> sealed_payload \<Rightarrow> digest_sealed_error + bytes" where
  "encode_canonical P v = map_err (\<lambda>_. SealEncode) (to_vec P v)"

definition decode_canonical ::
  "sealed_payload serializer \<Rightarrow> bytes \<Rightarrow> digest_sealed_error + sealed_payload" where
  "decode_canonical P bs =
     bind_res (map_err (\<lambda>_. SealDecode) (from_slice P bs)) (\<lambda>value.
     bind_res (encode_canonical P value) (\<lambda>encoded.
       if encoded \<noteq> bs then Inl SealNonCanonical else Inr value))"

definition verify_digest :: "hash \<Rightarrow> sealed_payload \<Rightarrow> digest_sealed_error + unit" where
  "verify_digest H v =
     (if H (sp_payload v) \<noteq> sp_payload_digest v then Inl SealDigestMismatch else Inr ())"

interpretation sealed: canonical_decoder "encode_canonical P" "decode_canonical P"
  for P :: "sealed_payload serializer"
  by unfold_locales (auto simp: decode_canonical_def bind_res_Inr split: if_splits)

lemma decode_canonical_encode:
  "roundtrips P \<Longrightarrow> encode_canonical P v = Inr bs \<Longrightarrow> decode_canonical P bs = Inr v"
  by (auto simp: decode_canonical_def encode_canonical_def roundtripsD)

lemma verify_sealed_new: "verify_digest H (sealed_new H version payload) = Inr ()"
  by (simp add: verify_digest_def sealed_new_def)

text \<open>A payload that was swapped under an unchanged digest passes only on a hash collision.\<close>

lemma verify_swapped:
  "verify_digest H (v\<lparr>sp_payload := p\<rparr>) = Inr () \<Longrightarrow> verify_digest H v = Inr () \<Longrightarrow>
   H p = H (sp_payload v)"
  by (auto simp: verify_digest_def split: if_splits)

section \<open>Properties\<close>

text \<open>Sealing a payload, encoding it, decoding the bytes and verifying the digest gives the same
  envelope back and passes verification.
\<close>

theorem sealed_roundtrip:
  assumes "roundtrips P"
    and "encode_canonical P (sealed_new H version payload) = Inr bs"
  shows "\<exists>v. decode_canonical P bs = Inr v \<and> verify_digest H v = Inr ()
           \<and> sp_schema_version v = version \<and> sp_payload v = payload"
  using decode_canonical_encode [OF assms] verify_sealed_new
  by (fastforce simp: sealed_new_def)

definition sample_seal_codec :: "sealed_payload serializer" where
  "sample_seal_codec = \<lparr>
     to_vec = (\<lambda>v. Inr (be32 (sp_schema_version v) @ array_bytes (sp_payload_digest v) @ sp_payload v)),
     from_slice = (\<lambda>b. Inr \<lparr>sp_schema_version = of_be32 (take 4 b),
        sp_payload = drop 36 b, sp_payload_digest = mk_array (take 32 (drop 4 b))\<rparr>)\<rparr>"

lemma sample_seal_codec_roundtrips: "roundtrips sample_seal_codec"
  by (auto simp: roundtrips_def sample_seal_codec_def)

theorem sealed_roundtrip_witness:
  "\<exists>v. decode_canonical sample_seal_codec
         (be32 7 @ array_bytes (mk_array [1] :: digest) @ [0x10, 0x20]) = Inr v
     \<and> verify_digest (\<lambda>_. mk_array [1]) v = Inr ()
     \<and> sp_schema_version v = 7 \<and> sp_payload v = [0x10, 0x20]"
  by (rule sealed_roundtrip [OF sample_seal_codec_roundtrips])
    (simp add: encode_canonical_def sealed_new_def sample_seal_codec_def)

text \<open>Canonical decoding is strict: accepted bytes are exactly the encoding of the envelope they
  decode to, so no envelope has a second accepted byte form (no trailing bytes, no overlong
  integers).
\<close>

theorem sealed_decode_strict:
  assumes "decode_canonical P bs = Inr v"
  shows "encode_canonical P v = Inr bs \<and> (decode_canonical P cs = Inr v \<longrightarrow> cs = bs)"
  using sealed.decode_canonical [OF assms] sealed.decode_unique [OF assms] by auto

theorem sealed_decode_strict_witness:
  "encode_canonical sample_seal_codec (sealed_new (\<lambda>_. mk_array [1]) 7 [9])
     = Inr (be32 7 @ array_bytes (mk_array [1] :: digest) @ [9])
   \<and> decode_canonical sample_seal_codec [0] \<noteq> Inr (sealed_new (\<lambda>_. mk_array [1]) 7 [9])"
proof -
  let ?bs = "be32 7 @ array_bytes (mk_array [1] :: digest) @ [9]"
  have dec: "decode_canonical sample_seal_codec ?bs = Inr (sealed_new (\<lambda>_. mk_array [1]) 7 [9])"
    by (simp add: decode_canonical_def encode_canonical_def sealed_new_def sample_seal_codec_def)
  have "length ?bs \<noteq> length [0 :: byte]" by simp
  then have "[0] \<noteq> ?bs" by metis
  with sealed_decode_strict [OF dec, of "[0]"] show ?thesis by blast
qed

end
