(* ===== verification/Durable_Batch.thy ===== *)
theory Durable_Batch
  imports Content_Digest "HOL-Library.Product_Lexorder" "HOL-Library.Multiset"
begin

text \<open>
  \<open>src/durable_batch.rs\<close>: the manifest of an operation batch (validation, canonical encoding and
  decoding, range queries on its sorted descriptors) and the checksummed object envelope.

  The product's identifier types are type variables: workspace \<open>'w\<close>, document \<open>'d\<close>, batch \<open>'b\<close>,
  device \<open>'v\<close>, session \<open>'s\<close>, origin \<open>'o\<close>, dependency frontier \<open>'f\<close>.  The product's policy
  (\<open>DurableBatchContract\<close>) is the record \<open>contract\<close>; \<open>serde_json\<close> is a \<^typ>\<open>'a serializer\<close> and
  SHA-256 a hash \<open>H\<close>.
\<close>

section \<open>Constants and data\<close>

definition OPLOG_PROTOCOL_VERSION :: u32 where "OPLOG_PROTOCOL_VERSION = 2"
definition OBJECT_ENVELOPE_SCHEMA_VERSION :: u32 where "OBJECT_ENVELOPE_SCHEMA_VERSION = 2"
definition MANIFEST_ENCODING_VERSION :: u32 where "MANIFEST_ENCODING_VERSION = 4"
definition MAX_MANIFEST_BYTES :: nat where "MAX_MANIFEST_BYTES = 1024 * 1024"
definition MAX_OBJECT_BYTES :: nat where "MAX_OBJECT_BYTES = 256 * 1024 * 1024"
definition OBJECT_MAGIC :: bytes where
  "OBJECT_MAGIC = [0x54, 0x49, 0x4e, 0x45, 0x4f, 0x42, 0x4a, 0x32]"
definition CHECKSUM_LEN :: nat where "CHECKSUM_LEN = 32"
definition OBJECT_PREFIX_LEN :: nat where "OBJECT_PREFIX_LEN = 8 + 4 + 8"
definition MAX_OBJECT_HEADER_BYTES :: nat where "MAX_OBJECT_HEADER_BYTES = 64 * 1024"

datatype object_kind =
    SemanticEffect | CrdtUpdate | ProjectionIntent | AnnotatedBaseBlob | ExternalImportObservation

fun kind_rank :: "object_kind \<Rightarrow> nat" where
  "kind_rank SemanticEffect = 0"
| "kind_rank CrdtUpdate = 1"
| "kind_rank ProjectionIntent = 2"
| "kind_rank AnnotatedBaseBlob = 3"
| "kind_rank ExternalImportObservation = 4"

lemma kind_rank_inject: "kind_rank a = kind_rank b \<longleftrightarrow> a = b"
  by (cases a; cases b) auto

instantiation object_kind :: linorder
begin
definition less_eq_object_kind :: "object_kind \<Rightarrow> object_kind \<Rightarrow> bool" where
  "less_eq_object_kind a b \<longleftrightarrow> kind_rank a \<le> kind_rank b"
definition less_object_kind :: "object_kind \<Rightarrow> object_kind \<Rightarrow> bool" where
  "less_object_kind a b \<longleftrightarrow> kind_rank a < kind_rank b"
instance
  by standard (auto simp: less_eq_object_kind_def less_object_kind_def kind_rank_inject)
end

datatype 'd object_descriptor = ObjectDescriptor
  (od_document_id: 'd)
  (od_kind: object_kind)
  (od_content_digest: digest)
  (od_encoded_byte_length: u64)

text \<open>The derived \<open>Ord\<close> compares the fields in declaration order.\<close>

definition descriptor_key :: "'d object_descriptor \<Rightarrow> 'd \<times> object_kind \<times> digest \<times> u64" where
  "descriptor_key d =
     (od_document_id d, od_kind d, od_content_digest d, od_encoded_byte_length d)"

lemma descriptor_key_inject: "descriptor_key a = descriptor_key b \<longleftrightarrow> a = b"
  by (cases a; cases b) (auto simp: descriptor_key_def)

instantiation object_descriptor :: (linorder) linorder
begin
definition less_eq_object_descriptor :: "'a object_descriptor \<Rightarrow> 'a object_descriptor \<Rightarrow> bool" where
  "less_eq_object_descriptor a b \<longleftrightarrow> descriptor_key a \<le> descriptor_key b"
definition less_object_descriptor :: "'a object_descriptor \<Rightarrow> 'a object_descriptor \<Rightarrow> bool" where
  "less_object_descriptor a b \<longleftrightarrow> descriptor_key a < descriptor_key b"
instance
  by standard
    (auto simp: less_eq_object_descriptor_def less_object_descriptor_def
      descriptor_key_inject less_le_not_le)
end

datatype 'v causal_dot = CausalDot (dot_peer_id: 'v) (dot_counter: u64)

record ('w, 'd, 'b, 'v, 's, 'o, 'f) operation_batch =
  manifest_encoding_version :: u32
  protocol_version :: u32
  operation_schema_version :: u32
  object_envelope_schema_version :: u32
  managed_entity_set_version :: u32
  workspace_id :: 'w
  lineage_digest :: digest
  batch_id :: 'b
  author_device_id :: 'v
  author_session_id :: 's
  origin :: 'o
  ob_causal_dot :: "'v causal_dot"
  causal_dependency_heads :: "'b list"
  dependency_frontier :: 'f
  semantic_effect_digest :: digest
  required_objects :: "'d object_descriptor list"

datatype ('w, 'd, 'b) batch_error =
    BatchEncode string
  | BatchDecode string
  | ManifestTooLarge nat
  | ObjectTooLarge nat
  | ObjectHeaderTooLarge nat
  | UnknownVersion string u32 u32
  | UnsupportedEncryption
  | InvalidCausalDot
  | NonCanonicalCausalDependencies
  | CausalSelfDependency 'b
  | NonCanonicalManifest
  | NonCanonicalDescriptors
  | NonCanonicalObjectHeader
  | DuplicateDescriptor "'d object_descriptor"
  | DuplicateObjectDigest digest
  | DuplicateCrdtDocument 'd
  | SemanticEffectCardinality nat
  | SemanticEffectDigestMismatch digest digest
  | ProjectionObject string
  | ExternalImportObject string
  | InvalidObjectLength u64
  | TruncatedObject
  | InvalidObjectMagic
  | BatchLengthOverflow
  | ObjectLengthMismatch nat nat
  | ObjectChecksumMismatch
  | WorkspaceMismatch 'w 'w
  | MissingObject "'d object_descriptor"
  | UnexpectedObject "'d object_descriptor"
  | DescriptorMismatch "'d object_descriptor" "'d object_descriptor"

text \<open>The product-owned policy: two version constants and a stateful descriptor check.\<close>

record ('w, 'd, 'b, 'st) contract =
  C_OPERATION_SCHEMA_VERSION :: u32
  C_MANAGED_ENTITY_SET_VERSION :: u32
  begin_manifest_validation :: 'st
  validate_descriptor_policy ::
    "'st \<Rightarrow> 'd object_descriptor \<Rightarrow> ('w, 'd, 'b) batch_error + 'st"
  finish_manifest_validation :: "'st \<Rightarrow> ('w, 'd, 'b) batch_error + unit"

section \<open>Constructors and validation\<close>

definition causal_dot_new :: "'v \<Rightarrow> u64 \<Rightarrow> ('w, 'd, 'b) batch_error + 'v causal_dot" where
  "causal_dot_new peer counter =
     (if counter = 0 then Inl InvalidCausalDot else Inr (CausalDot peer counter))"

definition object_length_ok :: "u64 \<Rightarrow> bool" where
  "object_length_ok n \<longleftrightarrow> \<not> (n = 0 \<or> n > word_of_nat MAX_OBJECT_BYTES)"

definition descriptor_new ::
  "'d \<Rightarrow> object_kind \<Rightarrow> digest \<Rightarrow> u64 \<Rightarrow> ('w, 'd, 'b) batch_error + 'd object_descriptor" where
  "descriptor_new document kind digest n =
     (if n = 0 \<or> n > word_of_nat MAX_OBJECT_BYTES then Inl (InvalidObjectLength n)
      else Inr (ObjectDescriptor document kind digest n))"

fun check_versions :: "(string \<times> u32 \<times> u32) list \<Rightarrow> ('w, 'd, 'b) batch_error + unit" where
  "check_versions [] = Inr ()"
| "check_versions ((field, found, expected) # rest) =
     (if found \<noteq> expected then Inl (UnknownVersion field expected found) else check_versions rest)"

fun adjacent_duplicate :: "'a list \<Rightarrow> 'a option" where
  "adjacent_duplicate (x # y # zs) = (if x = y then Some x else adjacent_duplicate (y # zs))"
| "adjacent_duplicate _ = None"

text \<open>
  The loop over the descriptors; \<open>seen\<close> is the \<open>HashSet\<close> of content digests and \<open>st\<close> the
  policy state.
\<close>

fun validate_objects ::
  "('w, 'd, 'b, 'st) contract \<Rightarrow> 'st \<Rightarrow> digest list \<Rightarrow> 'd object_descriptor list
     \<Rightarrow> ('w, 'd, 'b) batch_error + 'st" where
  "validate_objects C st seen [] = Inr st"
| "validate_objects C st seen (d # ds) =
     (if od_encoded_byte_length d = 0
         \<or> od_encoded_byte_length d > word_of_nat MAX_OBJECT_BYTES
      then Inl (InvalidObjectLength (od_encoded_byte_length d))
      else if od_content_digest d \<in> set seen
      then Inl (DuplicateObjectDigest (od_content_digest d))
      else bind_res (validate_descriptor_policy C st d)
             (\<lambda>st'. validate_objects C st' (od_content_digest d # seen) ds))"

definition version_fields ::
  "('w, 'd, 'b, 'st) contract \<Rightarrow> ('w, 'd, 'b, 'v, 's, 'o, 'f) operation_batch
     \<Rightarrow> (string \<times> u32 \<times> u32) list" where
  "version_fields C b =
     [(''manifest_encoding_version'', manifest_encoding_version b, MANIFEST_ENCODING_VERSION),
      (''protocol_version'', protocol_version b, OPLOG_PROTOCOL_VERSION),
      (''operation_schema_version'', operation_schema_version b, C_OPERATION_SCHEMA_VERSION C),
      (''object_envelope_schema_version'', object_envelope_schema_version b,
        OBJECT_ENVELOPE_SCHEMA_VERSION),
      (''managed_entity_set_version'', managed_entity_set_version b,
        C_MANAGED_ENTITY_SET_VERSION C)]"

definition batch_validate ::
  "('w, 'd::linorder, 'b::linorder, 'st) contract \<Rightarrow> ('w, 'd, 'b, 'v, 's, 'o, 'f) operation_batch
     \<Rightarrow> ('w, 'd, 'b) batch_error + unit" where
  "batch_validate C b =
     bind_res (check_versions (version_fields C b)) (\<lambda>_.
       if dot_counter (ob_causal_dot b) = 0 then Inl InvalidCausalDot
       else if \<not> strictly_sorted (causal_dependency_heads b) \<and> causal_dependency_heads b \<noteq> []
       then Inl NonCanonicalCausalDependencies
       else if binary_search_ok (batch_id b) (causal_dependency_heads b)
       then Inl (CausalSelfDependency (batch_id b))
       else if \<not> strictly_sorted (required_objects b)
       then (case adjacent_duplicate (required_objects b) of
               Some d \<Rightarrow> Inl (DuplicateDescriptor d)
             | None \<Rightarrow> Inl NonCanonicalDescriptors)
       else bind_res (validate_objects C (begin_manifest_validation C) [] (required_objects b))
              (finish_manifest_validation C))"

definition new_with_causality ::
  "('w, 'd::linorder, 'b::linorder, 'st) contract \<Rightarrow> 'w \<Rightarrow> digest \<Rightarrow> 'b \<Rightarrow> 'v \<Rightarrow> 's \<Rightarrow> 'o
     \<Rightarrow> 'v causal_dot \<Rightarrow> 'b list \<Rightarrow> 'f \<Rightarrow> digest \<Rightarrow> 'd object_descriptor list
     \<Rightarrow> ('w, 'd, 'b) batch_error + ('w, 'd, 'b, 'v, 's, 'o, 'f) operation_batch" where
  "new_with_causality C workspace lineage batch author_device author_session orig dot heads
       frontier effect objects =
     (let b = \<lparr>manifest_encoding_version = MANIFEST_ENCODING_VERSION,
               protocol_version = OPLOG_PROTOCOL_VERSION,
               operation_schema_version = C_OPERATION_SCHEMA_VERSION C,
               object_envelope_schema_version = OBJECT_ENVELOPE_SCHEMA_VERSION,
               managed_entity_set_version = C_MANAGED_ENTITY_SET_VERSION C,
               workspace_id = workspace, lineage_digest = lineage, batch_id = batch,
               author_device_id = author_device, author_session_id = author_session,
               origin = orig, ob_causal_dot = dot,
               causal_dependency_heads = remdups_adj (sort heads),
               dependency_frontier = frontier, semantic_effect_digest = effect,
               required_objects = sort objects\<rparr>
      in bind_res (batch_validate C b) (\<lambda>_. Inr b))"

definition batch_encode ::
  "('w, 'd, 'b, 'v, 's, 'o, 'f) operation_batch serializer
     \<Rightarrow> ('w, 'd, 'b, 'v, 's, 'o, 'f) operation_batch \<Rightarrow> ('w, 'd, 'b) batch_error + bytes" where
  "batch_encode J b =
     bind_res (map_err BatchEncode (to_vec J b)) (\<lambda>bs.
       if length bs > MAX_MANIFEST_BYTES then Inl (ManifestTooLarge (length bs)) else Inr bs)"

text \<open>
  \<open>from_slice J\<close> stands for \<open>serde_json::from_slice\<close> into the wire struct, with the
  \<open>Deserialize\<close> of the descriptors inside; \<open>from_wire\<close> copies the fields one to one.
\<close>

definition batch_decode ::
  "('w, 'd::linorder, 'b::linorder, 'st) contract
     \<Rightarrow> ('w, 'd, 'b, 'v, 's, 'o, 'f) operation_batch serializer \<Rightarrow> bytes
     \<Rightarrow> ('w, 'd, 'b) batch_error + ('w, 'd, 'b, 'v, 's, 'o, 'f) operation_batch" where
  "batch_decode C J bs =
     (if length bs > MAX_MANIFEST_BYTES then Inl (ManifestTooLarge (length bs))
      else bind_res (map_err BatchDecode (from_slice J bs)) (\<lambda>b.
           bind_res (batch_validate C b) (\<lambda>_.
           bind_res (batch_encode J b) (\<lambda>encoded.
             if encoded \<noteq> bs then Inl NonCanonicalManifest else Inr b))))"

definition objects_for_document_kind ::
  "('w, 'd::linorder, 'b, 'v, 's, 'o, 'f) operation_batch \<Rightarrow> 'd \<Rightarrow> object_kind
     \<Rightarrow> 'd object_descriptor list" where
  "objects_for_document_kind b document kind =
     (let key = (document, kind);
          start = partition_point (\<lambda>d. (od_document_id d, od_kind d) < key) (required_objects b);
          stop = start + partition_point (\<lambda>d. (od_document_id d, od_kind d) = key)
                           (drop start (required_objects b))
      in range_of start stop (required_objects b))"

section \<open>The object envelope\<close>

datatype encryption_mode = EncryptionNone

record ('w, 'd) object_header =
  oh_envelope_schema_version :: u32
  oh_workspace_id :: 'w
  oh_document_id :: 'd
  oh_kind :: object_kind
  oh_encryption :: encryption_mode

record ('w, 'd) operation_object =
  oo_workspace_id :: 'w
  oo_document_id :: 'd
  oo_kind :: object_kind
  oo_payload :: bytes

definition header_of_object :: "('w, 'd) operation_object \<Rightarrow> ('w, 'd) object_header" where
  "header_of_object o1 = \<lparr>oh_envelope_schema_version = OBJECT_ENVELOPE_SCHEMA_VERSION,
     oh_workspace_id = oo_workspace_id o1, oh_document_id = oo_document_id o1,
     oh_kind = oo_kind o1, oh_encryption = EncryptionNone\<rparr>"

definition add3 :: "nat \<Rightarrow> nat \<Rightarrow> nat \<Rightarrow> nat option" where
  "add3 a b c = Option.bind (checked_add a b) (\<lambda>n. checked_add n c)"

definition object_encode ::
  "hash \<Rightarrow> ('w, 'd) object_header serializer \<Rightarrow> ('w, 'd) operation_object
     \<Rightarrow> ('w, 'd, 'b) batch_error + bytes" where
  "object_encode H J o1 =
     bind_res (map_err BatchEncode (to_vec J (header_of_object o1))) (\<lambda>header.
       if length header > MAX_OBJECT_HEADER_BYTES
       then Inl (ObjectHeaderTooLarge (length header))
       else bind_res (ok_or BatchLengthOverflow
              (Option.bind (add3 OBJECT_PREFIX_LEN (length header) (length (oo_payload o1)))
                 (\<lambda>n. checked_add n CHECKSUM_LEN))) (\<lambda>total.
         if total > MAX_OBJECT_BYTES then Inl (ObjectTooLarge total)
         else let body = OBJECT_MAGIC @ be32 (word_of_nat (length header))
                    @ be64 (word_of_nat (length (oo_payload o1))) @ header @ oo_payload o1
              in Inr (body @ array_bytes (H body))))"

definition encoded_len ::
  "hash \<Rightarrow> ('w, 'd) object_header serializer \<Rightarrow> ('w, 'd) operation_object
     \<Rightarrow> ('w, 'd, 'b) batch_error + nat" where
  "encoded_len H J o1 = bind_res (object_encode H J o1) (\<lambda>bs. Inr (length bs))"

definition object_new ::
  "hash \<Rightarrow> ('w, 'd) object_header serializer \<Rightarrow> 'w \<Rightarrow> 'd \<Rightarrow> object_kind \<Rightarrow> bytes
     \<Rightarrow> ('w, 'd, 'b) batch_error + ('w, 'd) operation_object" where
  "object_new H J workspace document kind payload =
     (let o1 = \<lparr>oo_workspace_id = workspace, oo_document_id = document, oo_kind = kind,
                oo_payload = payload\<rparr>
      in bind_res (encoded_len H J o1) (\<lambda>n.
           if n > MAX_OBJECT_BYTES then Inl (ObjectTooLarge n) else Inr o1))"

definition object_decode ::
  "hash \<Rightarrow> ('w, 'd) object_header serializer \<Rightarrow> bytes
     \<Rightarrow> ('w, 'd, 'b) batch_error + ('w, 'd) operation_object" where
  "object_decode H J bs =
     (if length bs > MAX_OBJECT_BYTES then Inl (ObjectTooLarge (length bs))
      else if length bs < OBJECT_PREFIX_LEN + CHECKSUM_LEN then Inl TruncatedObject
      else if range_of 0 8 bs \<noteq> OBJECT_MAGIC then Inl InvalidObjectMagic
      else let header_len = unat (of_be32 (range_of 8 12 bs)) in
        if header_len > MAX_OBJECT_HEADER_BYTES then Inl (ObjectHeaderTooLarge header_len)
        else let payload_len = unat (of_be64 (range_of 12 OBJECT_PREFIX_LEN bs)) in
          bind_res (ok_or BatchLengthOverflow (add3 OBJECT_PREFIX_LEN header_len payload_len))
            (\<lambda>body_len.
          bind_res (ok_or BatchLengthOverflow (checked_add body_len CHECKSUM_LEN)) (\<lambda>expected.
            if expected \<noteq> length bs then Inl (ObjectLengthMismatch expected (length bs))
            else if drop body_len bs \<noteq> array_bytes (H (take body_len bs))
            then Inl ObjectChecksumMismatch
            else let header_bytes = range_of OBJECT_PREFIX_LEN (OBJECT_PREFIX_LEN + header_len) bs in
              bind_res (map_err BatchDecode (from_slice J header_bytes)) (\<lambda>header.
                if oh_envelope_schema_version header \<noteq> OBJECT_ENVELOPE_SCHEMA_VERSION
                then Inl (UnknownVersion ''object_envelope_schema_version''
                       OBJECT_ENVELOPE_SCHEMA_VERSION (oh_envelope_schema_version header))
                else if oh_encryption header \<noteq> EncryptionNone then Inl UnsupportedEncryption
                else bind_res (map_err BatchEncode (to_vec J header)) (\<lambda>canonical.
                  if canonical \<noteq> header_bytes then Inl NonCanonicalObjectHeader
                  else Inr \<lparr>oo_workspace_id = oh_workspace_id header,
                            oo_document_id = oh_document_id header,
                            oo_kind = oh_kind header,
                            oo_payload = range_of (OBJECT_PREFIX_LEN + header_len) body_len bs\<rparr>)))))"

definition object_descriptor_of ::
  "hash \<Rightarrow> ('w, 'd) object_header serializer \<Rightarrow> ('w, 'd) operation_object
     \<Rightarrow> ('w, 'd, 'b) batch_error + 'd object_descriptor" where
  "object_descriptor_of H J o1 =
     bind_res (object_encode H J o1) (\<lambda>bs.
       descriptor_new (oo_document_id o1) (oo_kind o1) (H bs) (word_of_nat (length bs)))"

section \<open>What validation promises\<close>

fun policy_run ::
  "('w, 'd, 'b, 'st) contract \<Rightarrow> 'st \<Rightarrow> 'd object_descriptor list \<Rightarrow> ('w, 'd, 'b) batch_error + 'st"
where
  "policy_run C st [] = Inr st"
| "policy_run C st (d # ds) = bind_res (validate_descriptor_policy C st d) (\<lambda>st'. policy_run C st' ds)"

definition policy_accepts :: "('w, 'd, 'b, 'st) contract \<Rightarrow> 'd object_descriptor list \<Rightarrow> bool" where
  "policy_accepts C ds \<longleftrightarrow>
     bind_res (policy_run C (begin_manifest_validation C) ds) (finish_manifest_validation C) = Inr ()"

definition batch_wf ::
  "('w, 'd::linorder, 'b::linorder, 'st) contract \<Rightarrow> ('w, 'd, 'b, 'v, 's, 'o, 'f) operation_batch \<Rightarrow> bool"
where
  "batch_wf C b \<longleftrightarrow>
     (\<forall>(field, found, expected) \<in> set (version_fields C b). found = expected)
     \<and> dot_counter (ob_causal_dot b) \<noteq> 0
     \<and> sorted_wrt (<) (causal_dependency_heads b)
     \<and> batch_id b \<notin> set (causal_dependency_heads b)
     \<and> sorted_wrt (<) (required_objects b)
     \<and> distinct (map od_content_digest (required_objects b))
     \<and> (\<forall>d \<in> set (required_objects b). object_length_ok (od_encoded_byte_length d))"

lemma check_versions_ok:
  "check_versions vs = Inr () \<longleftrightarrow> (\<forall>(field, found, expected) \<in> set vs. found = expected)"
  by (induction vs rule: check_versions.induct) auto

lemma validate_objects_ok:
  "validate_objects C st seen ds = Inr st' \<longleftrightarrow>
     (\<forall>d \<in> set ds. object_length_ok (od_encoded_byte_length d))
     \<and> distinct (map od_content_digest ds)
     \<and> set (map od_content_digest ds) \<inter> set seen = {}
     \<and> policy_run C st ds = Inr st'"
  by (induction ds arbitrary: st seen) (auto simp: object_length_ok_def bind_res_Inr)

lemma batch_validate_ok:
  "batch_validate C b = Inr () \<longleftrightarrow> batch_wf C b \<and> policy_accepts C (required_objects b)"
  by (auto simp: batch_validate_def batch_wf_def policy_accepts_def bind_res_Inr check_versions_ok
      validate_objects_ok strictly_sorted_iff binary_search_ok_iff split: option.splits)

lemma sorted_distinct_adj: "sorted xs \<Longrightarrow> distinct_adj xs \<Longrightarrow> strictly_sorted xs"
  by (induction xs rule: strictly_sorted.induct) (auto simp: order.strict_iff_order)

lemma sort_dedup_eq: "remdups_adj (sort xs) = sorted_list_of_set (set xs)"
  using sorted_distinct_adj [of "remdups_adj (sort xs)"]
  by (intro strict_sorted_equal) (simp_all add: strictly_sorted_iff)

lemma sort_mset_eq: "mset xs = mset ys \<Longrightarrow> sort xs = sort ys"
  by (rule properties_for_sort) simp_all

lemma new_with_causality_ok:
  "new_with_causality C w l bid dev ses orig dot heads fr eff objs = Inr b \<Longrightarrow>
   batch_validate C b = Inr () \<and> causal_dependency_heads b = sorted_list_of_set (set heads)
   \<and> required_objects b = sort objs"
  by (auto simp: new_with_causality_def bind_res_Inr Let_def sort_dedup_eq)

lemma adjacent_duplicate_sorted:
  "sorted xs \<Longrightarrow> \<not> strictly_sorted xs \<Longrightarrow> \<exists>d. adjacent_duplicate xs = Some d"
proof (induction xs rule: adjacent_duplicate.induct)
  case (1 x y zs)
  then show ?case by (cases "x = y") (auto simp: order.strict_iff_order)
qed simp_all

lemma adjacent_duplicate_twice:
  "adjacent_duplicate xs = Some d \<Longrightarrow> 1 < count_list xs d"
proof (induction xs rule: adjacent_duplicate.induct)
  case (1 x y zs)
  then show ?case by (cases "x = y") (auto split: if_splits)
qed simp_all

text \<open>The accepted manifests and the canonical-decoder interface.\<close>

interpretation manifest: canonical_decoder "batch_encode J" "batch_decode C J"
  for J :: "('w, 'd::linorder, 'b::linorder, 'v, 's, 'o, 'f) operation_batch serializer"
    and C :: "('w, 'd, 'b, 'st) contract"
  by unfold_locales (auto simp: batch_decode_def bind_res_Inr split: if_splits)

lemma batch_decode_encode:
  "roundtrips J \<Longrightarrow> batch_validate C b = Inr () \<Longrightarrow> batch_encode J b = Inr bs \<Longrightarrow>
   batch_decode C J bs = Inr b"
  by (auto simp: batch_decode_def batch_encode_def bind_res_Inr roundtripsD split: if_splits)

lemma batch_decode_validated: "batch_decode C J bs = Inr b \<Longrightarrow> batch_validate C b = Inr ()"
  by (auto simp: batch_decode_def bind_res_Inr split: if_splits)

section \<open>Range query on the sorted descriptors\<close>

lemma filter_sorted_key:
  fixes f :: "'a \<Rightarrow> 'k::linorder"
  shows "sorted (map f xs) \<Longrightarrow>
    filter (\<lambda>x. f x = k) xs = takeWhile (\<lambda>x. f x = k) (dropWhile (\<lambda>x. f x < k) xs)"
proof (induction xs)
  case (Cons x xs)
  consider "f x < k" | "f x = k" | "k < f x" by (rule linorder_less_linear [THEN disjE]) auto
  then show ?case
  proof cases
    case 2
    then have "dropWhile (\<lambda>y. f y < k) xs = xs"
      using Cons.prems by (cases xs) auto
    with 2 Cons show ?thesis by simp
  next
    case 3
    then have "\<forall>y \<in> set xs. k < f y" using Cons.prems by auto
    then have "filter (\<lambda>y. f y = k) xs = []" by (auto simp: filter_empty_conv)
    with 3 show ?thesis by (auto dest: less_asym)
  qed (use Cons in simp)
qed simp

lemma sorted_key_partition:
  fixes f :: "'a \<Rightarrow> 'k::linorder"
  assumes "sorted (map f xs)"
    and mono: "\<And>a b. a \<in> set xs \<Longrightarrow> b \<in> set xs \<Longrightarrow> f a \<le> f b \<Longrightarrow> P b \<Longrightarrow> P a"
  shows "partition_point P xs = length (takeWhile P xs)"
proof (rule partition_point_eq)
  fix i
  assume i: "i < length xs"
  show "P (xs ! i) \<longleftrightarrow> i < length (takeWhile P xs)"
  proof (cases "i < length (takeWhile P xs)")
    case True
    then show ?thesis using nth_mem takeWhile_nth set_takeWhileD by metis
  next
    case False
    then have lt: "length (takeWhile P xs) < length xs" using i by simp
    then have "\<not> P (xs ! length (takeWhile P xs))" by (rule nth_length_takeWhile)
    moreover have "f (xs ! length (takeWhile P xs)) \<le> f (xs ! i)"
      using assms(1) False i lt
        sorted_nth_mono [of "map f xs" "length (takeWhile P xs)" i] by simp
    ultimately show ?thesis using mono [of "xs ! length (takeWhile P xs)" "xs ! i"] lt i False
      by auto
  qed
qed (rule length_takeWhile_le)

lemma range_query_filter:
  fixes f :: "'a \<Rightarrow> 'k::linorder" and k :: 'k and xs :: "'a list"
  defines "start \<equiv> partition_point (\<lambda>x. f x < k) xs"
  assumes srt: "sorted (map f xs)"
  shows "range_of start (start + partition_point (\<lambda>x. f x = k) (drop start xs)) xs
    = filter (\<lambda>x. f x = k) xs"
proof -
  have start: "start = length (takeWhile (\<lambda>x. f x < k) xs)"
    unfolding start_def by (rule sorted_key_partition [OF srt]) auto
  have rest: "drop start xs = dropWhile (\<lambda>x. f x < k) xs"
    by (simp add: start dropWhile_eq_drop)
  have srt': "sorted (map f (dropWhile (\<lambda>x. f x < k) xs))"
    using srt unfolding dropWhile_eq_drop drop_map [symmetric] by (rule sorted_wrt_drop)
  have ge: "k \<le> f x" if "x \<in> set (dropWhile (\<lambda>x. f x < k) xs)" for x
  proof -
    have "dropWhile (\<lambda>x. f x < k) xs \<noteq> []" using that by (metis empty_iff list.set(1))
    then obtain y ys where ys: "dropWhile (\<lambda>x. f x < k) xs = y # ys" by (metis neq_Nil_conv)
    then have "\<not> f y < k" using hd_dropWhile [of "\<lambda>x. f x < k" xs] by (metis list.discI list.sel(1))
    with srt' that show ?thesis unfolding ys by (auto simp: not_less)
  qed
  have "partition_point (\<lambda>x. f x = k) (dropWhile (\<lambda>x. f x < k) xs)
      = length (takeWhile (\<lambda>x. f x = k) (dropWhile (\<lambda>x. f x < k) xs))"
    by (rule sorted_key_partition [OF srt']) (use ge in force)
  then show ?thesis
    by (simp add: range_of_def rest filter_sorted_key [OF srt] takeWhile_eq_take [symmetric])
qed

lemma sorted_descriptor_keys:
  "strictly_sorted ds \<Longrightarrow> sorted (map (\<lambda>d. (od_document_id d, od_kind d)) ds)"
proof -
  assume "strictly_sorted ds"
  then have "sorted_wrt (\<lambda>x y. (od_document_id x, od_kind x) \<le> (od_document_id y, od_kind y)) ds"
    unfolding strictly_sorted_iff
    by (rule sorted_wrt_mono_rel [rotated])
      (auto simp: less_object_descriptor_def descriptor_key_def)
  then show ?thesis by (simp add: sorted_wrt_map)
qed

lemma objects_for_document_kind_filter:
  "strictly_sorted (required_objects b) \<Longrightarrow>
   objects_for_document_kind b document kind =
     filter (\<lambda>d. od_document_id d = document \<and> od_kind d = kind) (required_objects b)"
  using range_query_filter [OF sorted_descriptor_keys, of "required_objects b" "(document, kind)"]
  by (simp add: objects_for_document_kind_def Let_def)

section \<open>The object envelope round-trips and is canonical\<close>

lemmas object_limits = OBJECT_PREFIX_LEN_def CHECKSUM_LEN_def MAX_OBJECT_BYTES_def
  MAX_OBJECT_HEADER_BYTES_def

lemma length_OBJECT_MAGIC [simp]: "length OBJECT_MAGIC = 8"
  by (simp add: OBJECT_MAGIC_def)

lemma object_encode_Inr:
  "object_encode H J o1 = Inr bs \<longleftrightarrow>
     (\<exists>header. to_vec J (header_of_object o1) = Inr header
        \<and> length header \<le> MAX_OBJECT_HEADER_BYTES
        \<and> 20 + length header + length (oo_payload o1) + 32 \<le> MAX_OBJECT_BYTES
        \<and> bs = envelope OBJECT_MAGIC header (oo_payload o1)
               @ array_bytes (H (envelope OBJECT_MAGIC header (oo_payload o1))))"
  by (cases "to_vec J (header_of_object o1)")
    (auto simp: object_encode_def bind_res_Inr ok_or_Inr add3_def checked_add_Some envelope_def
      Let_def object_limits bind_eq_Some_conv)

lemma object_decode_encode:
  assumes "roundtrips J" and enc: "object_encode H J o1 = Inr bs"
  shows "object_decode H J bs = Inr o1"
proof -
  from enc obtain header where h: "to_vec J (header_of_object o1) = Inr header"
    "length header \<le> MAX_OBJECT_HEADER_BYTES"
    "20 + length header + length (oo_payload o1) + 32 \<le> MAX_OBJECT_BYTES"
    "bs = envelope OBJECT_MAGIC header (oo_payload o1)
          @ array_bytes (H (envelope OBJECT_MAGIC header (oo_payload o1)))"
    by (auto simp: object_encode_Inr)
  note f = envelope_fields [OF length_OBJECT_MAGIC h(4)]
  have l: "unat (of_be32 (be32 (word_of_nat (length header)))) = length header"
    "unat (of_be64 (be64 (word_of_nat (length (oo_payload o1))))) = length (oo_payload o1)"
    by (rule envelope_header_len envelope_payload_len; use h(2,3) in \<open>simp add: object_limits\<close>)+
  have len: "length bs = 20 + length header + length (oo_payload o1) + 32"
    by (simp add: h(4) length_envelope)
  have a: "add3 20 (length header) (length (oo_payload o1)) = Some (20 + length header + length (oo_payload o1))"
    "checked_add (20 + length header + length (oo_payload o1)) 32
      = Some (20 + length header + length (oo_payload o1) + 32)"
    using h(3) by (simp_all add: add3_def checked_add_def object_limits)
  have d: "from_slice J header = Inr (header_of_object o1)"
    using roundtripsD [OF assms(1) h(1)] .
  show ?thesis
    using h(1,2,3) a d
    by (simp add: object_decode_def object_limits f l len header_of_object_def Let_def
        del: of_be32_be32 of_be64_be64)
qed

lemma object_decode_Inr:
  assumes "object_decode H J bs = Inr o1"
  obtains header where
    "to_vec J (header_of_object o1) = Inr header"
    "length header \<le> MAX_OBJECT_HEADER_BYTES" "length bs \<le> MAX_OBJECT_BYTES"
    "bs = envelope OBJECT_MAGIC header (oo_payload o1)
          @ array_bytes (H (envelope OBJECT_MAGIC header (oo_payload o1)))"
proof -
  define hl where "hl = unat (of_be32 (range_of 8 12 bs))"
  define pl where "pl = unat (of_be64 (range_of 12 20 bs))"
  let ?header = "range_of 20 (20 + hl) bs"
  from assms have g: "length bs \<le> MAX_OBJECT_BYTES" "range_of 0 8 bs = OBJECT_MAGIC"
    "hl \<le> MAX_OBJECT_HEADER_BYTES" "length bs = 20 + hl + pl + 32"
    "drop (20 + hl + pl) bs = array_bytes (H (take (20 + hl + pl) bs))"
    and dec: "to_vec J (header_of_object o1) = Inr ?header"
    "oo_payload o1 = range_of (20 + hl) (20 + hl + pl) bs"
    by (auto simp: object_decode_def object_limits bind_res_Inr ok_or_Inr add3_def
        checked_add_Some bind_eq_Some_conv Let_def hl_def pl_def header_of_object_def
        split: if_splits) (metis (full_types) encryption_mode.exhaust object_header.surjective old.unit.exhaust)+
  have "take (20 + hl + pl) bs = envelope OBJECT_MAGIC ?header (oo_payload o1)"
    using envelope_of_fields [OF g(4)] g(2) dec(2) by (simp add: hl_def pl_def)
  then have "bs = envelope OBJECT_MAGIC ?header (oo_payload o1)
      @ array_bytes (H (envelope OBJECT_MAGIC ?header (oo_payload o1)))"
    using g(5) by (metis append_take_drop_id)
  moreover have "length ?header \<le> MAX_OBJECT_HEADER_BYTES" using g(3,4) by simp
  ultimately show ?thesis using that dec(1) g(1) by blast
qed

lemma object_decode_canonical:
  "object_decode H J bs = Inr o1 \<Longrightarrow> object_encode H J o1 = Inr bs"
  by (erule object_decode_Inr) (auto simp: object_encode_Inr length_envelope)

interpretation object: canonical_decoder "object_encode H J" "object_decode H J"
  for H :: hash and J :: "('w, 'd) object_header serializer"
  by unfold_locales (rule object_decode_canonical)

section \<open>Properties\<close>

text \<open>Manifest validation accepts exactly the well-formed manifests whose descriptors the product
  policy accepts: the five versions, a nonzero causal counter, strictly sorted dependency heads
  without the batch itself, strictly sorted descriptors with pairwise distinct digests and legal
  lengths, in whatever order the code checks them.
\<close>

theorem batch_validate_iff:
  "batch_validate C b = Inr () \<longleftrightarrow> batch_wf C b \<and> policy_accepts C (required_objects b)"
  by (rule batch_validate_ok)

text \<open>The constructor canonicalizes: the outcome does not depend on the order of the objects or
  on the order and repetition of the dependency heads, and it never fails for lack of canonical
  order (a repeated descriptor is reported as such).
\<close>

theorem new_with_causality_canonical:
  assumes "set heads' = set heads" and "mset objs' = mset objs"
  shows "new_with_causality C w l bid dev ses orig dot heads' fr eff objs'
         = new_with_causality C w l bid dev ses orig dot heads fr eff objs
       \<and> (dot_counter dot = 0 \<longrightarrow>
            new_with_causality C w l bid dev ses orig dot heads fr eff objs = Inl InvalidCausalDot)
       \<and> (dot_counter dot \<noteq> 0 \<and> bid \<in> set heads \<longrightarrow>
            new_with_causality C w l bid dev ses orig dot heads fr eff objs
              = Inl (CausalSelfDependency bid))
       \<and> (dot_counter dot \<noteq> 0 \<and> bid \<notin> set heads \<and> \<not> distinct objs \<longrightarrow>
            (\<exists>d. new_with_causality C w l bid dev ses orig dot heads fr eff objs
                   = Inl (DuplicateDescriptor d) \<and> 1 < count_list (sort objs) d))"
proof -
  have same: "remdups_adj (sort heads') = remdups_adj (sort heads)" "sort objs' = sort objs"
    using sort_mset_eq [OF assms(2)] by (simp_all add: sort_dedup_eq assms(1))
  have dup: "\<exists>d. adjacent_duplicate (sort objs) = Some d \<and> 1 < count_list (sort objs) d
      \<and> \<not> strictly_sorted (sort objs)" if "\<not> distinct objs"
  proof -
    have ns: "\<not> strictly_sorted (sort objs)"
      using that by (simp add: strictly_sorted_iff strict_sorted_iff)
    then obtain d where "adjacent_duplicate (sort objs) = Some d"
      using adjacent_duplicate_sorted [OF sorted_sort] by blast
    with ns adjacent_duplicate_twice [OF this] show ?thesis by blast
  qed
  have heads: "strictly_sorted (remdups_adj (sort heads))"
    "binary_search_ok bid (remdups_adj (sort heads)) \<longleftrightarrow> bid \<in> set heads"
    by (simp_all add: sorted_distinct_adj binary_search_ok_iff strictly_sorted_iff [symmetric])
  let ?new = "new_with_causality C w l bid dev ses orig dot heads fr eff objs"
  have new: "?new = (if dot_counter dot = 0 then Inl InvalidCausalDot
      else if bid \<in> set heads then Inl (CausalSelfDependency bid)
      else if \<not> strictly_sorted (sort objs)
      then (case adjacent_duplicate (sort objs) of Some d \<Rightarrow> Inl (DuplicateDescriptor d)
            | None \<Rightarrow> Inl NonCanonicalDescriptors) else ?new)"
    by (simp add: new_with_causality_def batch_validate_def version_fields_def heads Let_def
        split: option.split)
  have "new_with_causality C w l bid dev ses orig dot heads' fr eff objs' = ?new"
    by (simp add: new_with_causality_def same)
  moreover have "dot_counter dot = 0 \<longrightarrow> ?new = Inl InvalidCausalDot"
    by (subst new) simp
  moreover have "dot_counter dot \<noteq> 0 \<and> bid \<in> set heads \<longrightarrow> ?new = Inl (CausalSelfDependency bid)"
    by (subst new) simp
  moreover have "?new = Inl (DuplicateDescriptor d)"
    if "dot_counter dot \<noteq> 0" "bid \<notin> set heads" "adjacent_duplicate (sort objs) = Some d"
      "\<not> strictly_sorted (sort objs)" for d
    using that by (subst new) simp
  ultimately show ?thesis using dup by blast
qed

definition sample_contract :: "(nat, nat, nat, nat) contract" where
  "sample_contract = \<lparr>C_OPERATION_SCHEMA_VERSION = 1, C_MANAGED_ENTITY_SET_VERSION = 1,
     begin_manifest_validation = 0, validate_descriptor_policy = (\<lambda>n _. Inr (Suc n)),
     finish_manifest_validation =
       (\<lambda>n. if n = 0 then Inl (SemanticEffectCardinality n) else Inr ())\<rparr>"

theorem new_with_causality_canonical_witness:
  "new_with_causality sample_contract 1 (mk_array []) (9::nat) 2 3 4 (CausalDot 2 1) [5, 4, 5] () (mk_array [])
       [ObjectDescriptor 1 CrdtUpdate (mk_array [2]) 60, ObjectDescriptor 1 SemanticEffect (mk_array [1]) 60]
   = new_with_causality sample_contract 1 (mk_array []) 9 2 3 4 (CausalDot 2 1) [4, 5] () (mk_array [])
       [ObjectDescriptor 1 SemanticEffect (mk_array [1]) 60, ObjectDescriptor 1 CrdtUpdate (mk_array [2]) 60]"
  by (rule new_with_causality_canonical [THEN conjunct1]) auto

text \<open>Encoding a constructed manifest and decoding the bytes gives the manifest back.
\<close>

theorem manifest_roundtrip:
  assumes "roundtrips J"
    and "new_with_causality C w l bid dev ses orig dot heads fr eff objs = Inr b"
    and "batch_encode J b = Inr bs"
  shows "batch_decode C J bs = Inr b"
  by (rule batch_decode_encode [OF assms(1) _ assms(3)])
    (rule new_with_causality_ok [OF assms(2), THEN conjunct1])

definition sample_descriptor :: "nat object_descriptor" where
  "sample_descriptor = ObjectDescriptor 1 SemanticEffect (mk_array [1]) 60"

definition sample_batch :: "(nat, nat, nat, nat, nat, nat, unit) operation_batch" where
  "sample_batch = \<lparr>manifest_encoding_version = 4, protocol_version = 2,
     operation_schema_version = 1, object_envelope_schema_version = 2,
     managed_entity_set_version = 1, workspace_id = 1, lineage_digest = mk_array [],
     batch_id = 9, author_device_id = 2, author_session_id = 3, origin = 4,
     ob_causal_dot = CausalDot 2 1, causal_dependency_heads = [4, 5], dependency_frontier = (),
     semantic_effect_digest = mk_array [], required_objects = [sample_descriptor]\<rparr>"

definition single_value_serializer :: "'a \<Rightarrow> bytes \<Rightarrow> 'a serializer" where
  "single_value_serializer x0 b0 = \<lparr>to_vec = (\<lambda>x. if x = x0 then Inr b0 else Inl ''unsupported''),
     from_slice = (\<lambda>b. if b = b0 then Inr x0 else Inl ''syntax'')\<rparr>"

lemma single_value_roundtrips: "roundtrips (single_value_serializer x0 b0)"
  by (auto simp: roundtrips_def single_value_serializer_def)

lemma sample_new:
  "new_with_causality sample_contract 1 (mk_array []) 9 2 3 4 (CausalDot 2 1) [5, 4, 5] () (mk_array [])
     [sample_descriptor] = Inr sample_batch"
  by (simp add: new_with_causality_def sample_batch_def batch_validate_def version_fields_def
      sample_contract_def sample_descriptor_def MANIFEST_ENCODING_VERSION_def OPLOG_PROTOCOL_VERSION_def
      OBJECT_ENVELOPE_SCHEMA_VERSION_def binary_search_ok_def bisect.simps MAX_OBJECT_BYTES_def)

lemma sample_encode:
  "batch_encode (single_value_serializer sample_batch [1, 2, 3]) sample_batch = Inr [1, 2, 3]"
  by (simp add: batch_encode_def single_value_serializer_def MAX_MANIFEST_BYTES_def)

theorem manifest_roundtrip_witness:
  "batch_decode sample_contract (single_value_serializer sample_batch [1, 2, 3]) [1, 2, 3] = Inr sample_batch"
  by (rule manifest_roundtrip [OF single_value_roundtrips sample_new sample_encode])

text \<open>
  C27. Decoding refuses everything but the canonical form: accepted bytes are within the bound,
  are exactly the encoding of the returned manifest, and that manifest is well-formed and
  accepted by the policy.
\<close>

theorem manifest_decode_strict:
  assumes "batch_decode C J bs = Inr b"
  shows "batch_encode J b = Inr bs \<and> length bs \<le> MAX_MANIFEST_BYTES \<and> batch_wf C b
         \<and> policy_accepts C (required_objects b)"
proof -
  have "length bs \<le> MAX_MANIFEST_BYTES"
    using assms by (auto simp: batch_decode_def split: if_splits)
  then show ?thesis
    using manifest.decode_canonical [OF assms] batch_decode_validated [OF assms]
    by (simp add: batch_validate_ok)
qed

theorem manifest_decode_strict_witness:
  "batch_encode (single_value_serializer sample_batch [1, 2, 3]) sample_batch = Inr [1, 2, 3]
   \<and> length [1, 2, 3 :: byte] \<le> MAX_MANIFEST_BYTES \<and> batch_wf sample_contract sample_batch
   \<and> policy_accepts sample_contract (required_objects sample_batch)"
  by (rule manifest_decode_strict)
    (rule batch_decode_encode [OF single_value_roundtrips
        new_with_causality_ok [OF sample_new, THEN conjunct1] sample_encode])

text \<open>The two binary searches of \<open>required_objects_for_document_kind\<close> return exactly the
  descriptors of that document and kind, in order.
\<close>

theorem objects_for_document_kind_correct:
  assumes "batch_wf C b"
  shows "objects_for_document_kind b document kind
       = filter (\<lambda>d. od_document_id d = document \<and> od_kind d = kind) (required_objects b)"
  using assms objects_for_document_kind_filter [of b]
  by (simp add: batch_wf_def strictly_sorted_iff)

theorem objects_for_document_kind_correct_witness:
  "objects_for_document_kind sample_batch 1 SemanticEffect
   = filter (\<lambda>d. od_document_id d = 1 \<and> od_kind d = SemanticEffect) (required_objects sample_batch)"
  by (rule objects_for_document_kind_correct [of sample_contract])
    (use sample_new [THEN new_with_causality_ok] batch_validate_ok in blast)

text \<open>An object that \<open>OperationObject::new\<close> accepts can be encoded, its bytes decode to the same
  object, and its descriptor names the digest and the exact length of those bytes.
\<close>

theorem object_roundtrip:
  fixes H :: hash and J :: "('w, 'd) object_header serializer"
  assumes "roundtrips J"
    and "(object_new H J w doc k payload :: ('w, 'd, 'b) batch_error + _) = Inr o1"
  shows "\<exists>bs. (object_encode H J o1 :: ('w, 'd, 'b) batch_error + _) = Inr bs
           \<and> (object_decode H J bs :: ('w, 'd, 'b) batch_error + _) = Inr o1
           \<and> oo_payload o1 = payload
           \<and> (\<exists>d. (object_descriptor_of H J o1 :: ('w, 'd, 'b) batch_error + _) = Inr d
                \<and> od_document_id d = doc \<and> od_kind d = k
                \<and> od_content_digest d = H bs \<and> unat (od_encoded_byte_length d) = length bs)"
proof -
  from assms(2) obtain bs where enc: "(object_encode H J o1 :: ('w, 'd, 'b) batch_error + _) = Inr bs"
    and o1: "o1 = \<lparr>oo_workspace_id = w, oo_document_id = doc, oo_kind = k, oo_payload = payload\<rparr>"
    and len: "length bs \<le> MAX_OBJECT_BYTES"
    unfolding object_new_def encoded_len_def Let_def bind_res_Inr
    by (elim exE conjE) (simp add: not_less split: if_splits)
  from enc have "52 \<le> length bs" by (auto simp: object_encode_Inr length_envelope)
  then have pos: "0 < length bs" by linarith
  have u: "unat (word_of_nat (length bs) :: u64) = length bs"
    "unat (word_of_nat MAX_OBJECT_BYTES :: u64) = MAX_OBJECT_BYTES"
    using len by (simp_all only: MAX_OBJECT_BYTES_def unat_of_nat) simp_all
  have "descriptor_new doc k (H bs) (word_of_nat (length bs))
      = (Inr (ObjectDescriptor doc k (H bs) (word_of_nat (length bs))) :: ('w, 'd, 'b) batch_error + _)"
  proof -
    have n: "word_of_nat (length bs) \<noteq> (0 :: u64)"
      using u(1) pos by (metis less_irrefl unsigned_0)
    have m: "\<not> word_of_nat MAX_OBJECT_BYTES < (word_of_nat (length bs) :: u64)"
      unfolding word_less_nat_alt u using len by simp
    show ?thesis by (simp only: descriptor_new_def n m if_False simp_thms)
  qed
  with enc o1 u show ?thesis
    using object_decode_encode [OF assms(1) enc]
    by (simp add: object_descriptor_of_def)
qed

definition sample_object :: "(nat, nat) operation_object" where
  "sample_object = \<lparr>oo_workspace_id = 1, oo_document_id = 2, oo_kind = CrdtUpdate, oo_payload = [7, 8]\<rparr>"

abbreviation "sample_object_codec \<equiv> single_value_serializer (header_of_object sample_object) [1]"
abbreviation "sample_hash \<equiv> (\<lambda>_. mk_array [5]) :: hash"

lemma sample_object_new:
  "object_new sample_hash sample_object_codec 1 2 CrdtUpdate [7, 8]
     = (Inr sample_object :: (nat, nat, nat) batch_error + _)"
  by (simp add: object_new_def encoded_len_def object_encode_def single_value_serializer_def
      sample_object_def header_of_object_def object_limits add3_def checked_add_def ok_or_def Let_def
      length_envelope [OF length_OBJECT_MAGIC])

theorem object_roundtrip_witness:
  "\<exists>bs. (object_encode sample_hash sample_object_codec sample_object :: (nat, nat, nat) batch_error + _) = Inr bs
      \<and> (object_decode sample_hash sample_object_codec bs :: (nat, nat, nat) batch_error + _) = Inr sample_object
      \<and> oo_payload sample_object = [7, 8]
      \<and> (\<exists>d. (object_descriptor_of sample_hash sample_object_codec sample_object
               :: (nat, nat, nat) batch_error + _) = Inr d
           \<and> od_document_id d = 2 \<and> od_kind d = CrdtUpdate
           \<and> od_content_digest d = mk_array [5] \<and> unat (od_encoded_byte_length d) = length bs)"
  by (rule object_roundtrip [OF single_value_roundtrips sample_object_new])

text \<open>Decoding an object is strict: accepted bytes are exactly the encoding of the object, so
  the magic, both lengths, the header spelling and the checksum are all determined by it.
\<close>

theorem object_decode_strict:
  fixes H :: hash and J :: "('w, 'd) object_header serializer"
  assumes "(object_decode H J bs :: ('w, 'd, 'b) batch_error + _) = Inr o1"
  shows "(object_encode H J o1 :: ('w, 'd, 'b) batch_error + _) = Inr bs
    \<and> ((object_decode H J cs :: ('w, 'd, 'b) batch_error + _) = Inr o1 \<longrightarrow> cs = bs)"
  using object.decode_canonical [OF assms] object.decode_unique [OF assms] by metis

definition sample_object_bytes :: bytes where
  "sample_object_bytes = envelope OBJECT_MAGIC [1] [7, 8] @ array_bytes (mk_array [5] :: digest)"

lemma sample_object_encode:
  "object_encode sample_hash sample_object_codec sample_object
     = (Inr sample_object_bytes :: (nat, nat, nat) batch_error + _)"
  by (simp add: object_encode_Inr single_value_serializer_def sample_object_bytes_def)
    (simp add: sample_object_def object_limits)

theorem object_decode_strict_witness:
  "(object_encode sample_hash sample_object_codec sample_object :: (nat, nat, nat) batch_error + _)
     = Inr sample_object_bytes
   \<and> (object_decode sample_hash sample_object_codec [0] :: (nat, nat, nat) batch_error + _)
     \<noteq> Inr sample_object"
proof -
  have "length sample_object_bytes \<noteq> length [0 :: byte]"
    by (simp add: sample_object_bytes_def length_envelope)
  then have "[0] \<noteq> sample_object_bytes" by metis
  with object_decode_strict
      [OF object_decode_encode [OF single_value_roundtrips sample_object_encode], of "[0]"]
  show ?thesis by blast
qed

end
