(* ===== verification/Filesystem.thy ===== *)
theory Filesystem
  imports Tine_Prelude
begin

text \<open>
  \<open>src/filesystem.rs\<close> (its Linux build): bounded no-follow reads, exact immutable publication,
  replaceable authorities and publication batches over one directory.

  The directory and its files are an explicit state.  Every system call takes the next outcome from
  \<open>fs_outcomes\<close>: it succeeds, fails without or with its effect, writes a part, or the power fails,
  after which no later call has any effect.  Beside the live directory, \<open>fs_maybe\<close> lists for each
  name the entries a power loss may reveal (all since the last directory barrier), and an inode keeps
  the bytes of its last barrier beside its current ones.  What a name may hold after a power loss is
  \<open>may_find\<close>, the notion the theorems are about.  A random temporary name is an argument.
\<close>

section \<open>Errors\<close>

datatype io_kind = NotFound | AlreadyExists | WouldBlock | PermissionDenied | Unsupported
  | InvalidInput | OtherKind

datatype io_error = IoError (error_kind: io_kind) (error_text: string)

datatype filesystem_error =
    FsIo io_error
  | DurableNameOperationUnavailable string
  | UnsafeEntry string
  | StoredLengthMismatch bytes nat nat
  | StoredFileTooLarge bytes nat nat
  | ByteCollision

fun filesystem_error_text :: "filesystem_error \<Rightarrow> string" where
  "filesystem_error_text (FsIo e) = error_text e"
| "filesystem_error_text (DurableNameOperationUnavailable m) =
     ''durable write-through name operation unavailable: '' @ m"
| "filesystem_error_text (UnsafeEntry m) = m"
| "filesystem_error_text (StoredLengthMismatch p expected actual) =
     ''stored file length mismatch for '' @ text_of_bytes p @ '': expected '' @ show_nat expected
       @ '', got '' @ show_nat actual"
| "filesystem_error_text (StoredFileTooLarge p len limit) =
     ''stored file is too large for '' @ text_of_bytes p @ '': '' @ show_nat len
       @ '' bytes exceeds '' @ show_nat limit"
| "filesystem_error_text ByteCollision = ''immutable byte collision''"

definition WINDOWS_ERROR_LOCK_VIOLATION :: int where "WINDOWS_ERROR_LOCK_VIOLATION = 33"

definition nonblocking_lock_is_contended_for_platform :: "io_kind \<Rightarrow> int option \<Rightarrow> bool \<Rightarrow> bool" where
  "nonblocking_lock_is_contended_for_platform kind raw windows =
     (kind = WouldBlock \<or> windows \<and> raw = Some WINDOWS_ERROR_LOCK_VIOLATION)"

section \<open>The directory and its files\<close>

record inode =
  in_bytes :: bytes
  in_durable :: bytes

datatype dir_entry = RegularFile nat | Symlink | Directory

datatype outcome =
    Done
  | Fails io_error
  | FailsAfter io_error
  | WritesPart nat io_error
  | PowerLoss

record fsys =
  fs_inodes :: "nat \<Rightarrow> inode"
  fs_next :: nat
  fs_dir :: "bytes \<Rightarrow> dir_entry option"
  fs_maybe :: "bytes \<Rightarrow> dir_entry option list"
  fs_outcomes :: "outcome list"
  fs_crashed :: bool

definition set_entry :: "bytes \<Rightarrow> dir_entry option \<Rightarrow> fsys \<Rightarrow> fsys" where
  "set_entry name e s = s\<lparr>fs_dir := (fs_dir s)(name := e),
     fs_maybe := (fs_maybe s)(name := e # fs_maybe s name)\<rparr>"

definition put_bytes :: "nat \<Rightarrow> bytes \<Rightarrow> fsys \<Rightarrow> fsys" where
  "put_bytes i bs s = s\<lparr>fs_inodes := (fs_inodes s)(i := (fs_inodes s i)\<lparr>in_bytes := bs\<rparr>)\<rparr>"

definition file_bytes :: "fsys \<Rightarrow> nat \<Rightarrow> bytes" where
  "file_bytes s i = in_bytes (fs_inodes s i)"

text \<open>
  After a power loss a file has its bytes if they were flushed; otherwise everything from the first
  difference between the flushed and the current bytes on is unknown, up to the longer of the two.
\<close>

fun common_prefix :: "'a list \<Rightarrow> 'a list \<Rightarrow> 'a list" where
  "common_prefix (x # xs) (y # ys) = (if x = y then x # common_prefix xs ys else [])"
| "common_prefix _ _ = []"

definition survives :: "inode \<Rightarrow> bytes \<Rightarrow> bool" where
  "survives ino c \<longleftrightarrow>
     (if in_durable ino = in_bytes ino then c = in_bytes ino
      else starts_with c (common_prefix (in_durable ino) (in_bytes ino))
           \<and> length c \<le> max (length (in_durable ino)) (length (in_bytes ino)))"

definition may_find :: "fsys \<Rightarrow> bytes \<Rightarrow> bytes option \<Rightarrow> bool" where
  "may_find s name x \<longleftrightarrow>
     (case x of None \<Rightarrow> None \<in> set (fs_maybe s name)
      | Some c \<Rightarrow> (\<exists>i. Some (RegularFile i) \<in> set (fs_maybe s name) \<and> survives (fs_inodes s i) c))"

section \<open>System calls\<close>

type_synonym 'a io = "fsys \<Rightarrow> (io_error + 'a) \<times> fsys"
type_synonym 'a fs = "fsys \<Rightarrow> (filesystem_error + 'a) \<times> fsys"

definition power_loss :: io_error where "power_loss = IoError OtherKind ''power loss''"

definition syscall_part :: "(nat \<Rightarrow> fsys \<Rightarrow> fsys) \<Rightarrow> 'a io \<Rightarrow> 'a io" where
  "syscall_part part act s =
     (if fs_crashed s then (Inl power_loss, s)
      else case fs_outcomes s of
        [] \<Rightarrow> act s
      | Done # os \<Rightarrow> act (s\<lparr>fs_outcomes := os\<rparr>)
      | Fails e # os \<Rightarrow> (Inl e, s\<lparr>fs_outcomes := os\<rparr>)
      | FailsAfter e # os \<Rightarrow> (Inl e, snd (act (s\<lparr>fs_outcomes := os\<rparr>)))
      | WritesPart n e # os \<Rightarrow> (Inl e, part n (s\<lparr>fs_outcomes := os\<rparr>))
      | PowerLoss # os \<Rightarrow> (Inl power_loss, s\<lparr>fs_outcomes := os, fs_crashed := True\<rparr>))"

abbreviation syscall :: "'a io \<Rightarrow> 'a io" where
  "syscall \<equiv> syscall_part (\<lambda>n s. s)"

definition sys_create :: "bytes \<Rightarrow> nat io" where
  "sys_create name = syscall (\<lambda>s.
     if fs_dir s name \<noteq> None then (Inl (IoError AlreadyExists ''file exists''), s)
     else (Inr (fs_next s),
       set_entry name (Some (RegularFile (fs_next s)))
         (s\<lparr>fs_inodes := (fs_inodes s)(fs_next s := \<lparr>in_bytes = [], in_durable = []\<rparr>),
            fs_next := fs_next s + 1\<rparr>)))"

text \<open>\<open>write_all\<close> on a handle opened at the end of the file.\<close>

definition sys_append :: "nat \<Rightarrow> bytes \<Rightarrow> unit io" where
  "sys_append i bs = syscall_part (\<lambda>n s. put_bytes i (file_bytes s i @ take n bs) s)
     (\<lambda>s. (Inr (), put_bytes i (file_bytes s i @ bs) s))"

definition sys_sync_file :: "nat \<Rightarrow> unit io" where
  "sys_sync_file i = syscall (\<lambda>s. (Inr (),
     s\<lparr>fs_inodes := (fs_inodes s)(i := (fs_inodes s i)\<lparr>in_durable := file_bytes s i\<rparr>)\<rparr>))"

definition sys_rename :: "bytes \<Rightarrow> bytes \<Rightarrow> unit io" where
  "sys_rename old new = syscall (\<lambda>s.
     case fs_dir s old of
       None \<Rightarrow> (Inl (IoError NotFound ''no such file''), s)
     | Some e \<Rightarrow>
         if fs_dir s new = Some Directory then (Inl (IoError OtherKind ''is a directory''), s)
         else if old = new then (Inr (), s)
         else (Inr (), set_entry old None (set_entry new (Some e) s)))"

definition rename_noreplace :: "bytes \<Rightarrow> bytes \<Rightarrow> unit io" where
  "rename_noreplace old new = syscall (\<lambda>s.
     case fs_dir s old of
       None \<Rightarrow> (Inl (IoError NotFound ''no such file''), s)
     | Some e \<Rightarrow>
         if fs_dir s new \<noteq> None then (Inl (IoError AlreadyExists ''file exists''), s)
         else (Inr (), set_entry old None (set_entry new (Some e) s)))"

definition sys_remove :: "bytes \<Rightarrow> unit io" where
  "sys_remove name = syscall (\<lambda>s.
     case fs_dir s name of
       None \<Rightarrow> (Inl (IoError NotFound ''no such file''), s)
     | Some Directory \<Rightarrow> (Inl (IoError OtherKind ''is a directory''), s)
     | Some _ \<Rightarrow> (Inr (), set_entry name None s))"

definition sys_open_dot :: "unit io" where "sys_open_dot = syscall (\<lambda>s. (Inr (), s))"

definition sys_sync_dir :: "unit io" where
  "sys_sync_dir = syscall (\<lambda>s. (Inr (), s\<lparr>fs_maybe := (\<lambda>name. [fs_dir s name])\<rparr>))"

definition sys_symlink_metadata :: "bytes \<Rightarrow> dir_entry io" where
  "sys_symlink_metadata name = syscall (\<lambda>s.
     case fs_dir s name of
       None \<Rightarrow> (Inl (IoError NotFound ''no such file''), s)
     | Some e \<Rightarrow> (Inr e, s))"

definition open_file_nofollow :: "bytes \<Rightarrow> dir_entry io" where
  "open_file_nofollow name = syscall (\<lambda>s.
     case fs_dir s name of
       None \<Rightarrow> (Inl (IoError NotFound ''no such file''), s)
     | Some Symlink \<Rightarrow> (Inl (IoError OtherKind ''too many levels of symbolic links''), s)
     | Some e \<Rightarrow> (Inr e, s))"

text \<open>Type and length of an opened entry; the length of a directory handle is not used.\<close>

definition sys_metadata :: "dir_entry \<Rightarrow> (bool \<times> nat) io" where
  "sys_metadata e = syscall (\<lambda>s.
     (Inr (case e of RegularFile i \<Rightarrow> (True, length (file_bytes s i)) | _ \<Rightarrow> (False, 0)), s))"

definition sys_read_to_end :: "dir_entry \<Rightarrow> nat \<Rightarrow> bytes io" where
  "sys_read_to_end e limit = syscall (\<lambda>s.
     (case e of RegularFile i \<Rightarrow> Inr (take limit (file_bytes s i))
      | _ \<Rightarrow> Inl (IoError OtherKind ''is a directory''), s))"

section \<open>Composition\<close>

definition fs_return :: "'a \<Rightarrow> fsys \<Rightarrow> ('e + 'a) \<times> fsys" where "fs_return x s = (Inr x, s)"
definition fs_throw :: "'e \<Rightarrow> fsys \<Rightarrow> ('e + 'a) \<times> fsys" where "fs_throw e s = (Inl e, s)"

definition fs_bind ::
  "(fsys \<Rightarrow> ('e + 'a) \<times> fsys) \<Rightarrow> ('a \<Rightarrow> fsys \<Rightarrow> ('e + 'b) \<times> fsys) \<Rightarrow> fsys \<Rightarrow> ('e + 'b) \<times> fsys" where
  "fs_bind m f s = (case m s of (Inl e, s') \<Rightarrow> (Inl e, s') | (Inr x, s') \<Rightarrow> f x s')"

text \<open>\<open>?\<close> on an \<open>io::Result\<close>, and matching on it.\<close>

definition lift_io :: "'a io \<Rightarrow> 'a fs" where
  "lift_io m s = (case m s of (Inl e, s') \<Rightarrow> (Inl (FsIo e), s') | (Inr x, s') \<Rightarrow> (Inr x, s'))"

definition catch_fs ::
  "(fsys \<Rightarrow> ('e + 'a) \<times> fsys) \<Rightarrow> ('e \<Rightarrow> fsys \<Rightarrow> ('f + 'b) \<times> fsys)
     \<Rightarrow> ('a \<Rightarrow> fsys \<Rightarrow> ('f + 'b) \<times> fsys) \<Rightarrow> fsys \<Rightarrow> ('f + 'b) \<times> fsys" where
  "catch_fs m h f s = (case m s of (Inl e, s') \<Rightarrow> h e s' | (Inr x, s') \<Rightarrow> f x s')"

section \<open>Bounded no-follow reads\<close>

definition sync_dir_required :: "unit io" where
  "sync_dir_required = fs_bind sys_open_dot (\<lambda>_. sys_sync_dir)"

definition require_regular_entry :: "dir_entry \<Rightarrow> bytes \<Rightarrow> filesystem_error + unit" where
  "require_regular_entry e name =
     (case e of RegularFile _ \<Rightarrow> Inr ()
      | _ \<Rightarrow> Inl (UnsafeEntry (''namespace entry is not a regular no-follow file: '' @ text_of_bytes name)))"

definition not_regular :: "bytes \<Rightarrow> filesystem_error" where
  "not_regular path =
     UnsafeEntry (''stored path is not a regular no-follow file: '' @ text_of_bytes path)"

definition saturating_succ :: "nat \<Rightarrow> nat" where
  "saturating_succ n = min (n + 1) (2 ^ 64 - 1)"

definition read_opened ::
  "bytes \<Rightarrow> nat \<Rightarrow> nat option \<Rightarrow> dir_entry \<Rightarrow> bytes option fs" where
  "read_opened path limit expected e =
     fs_bind (lift_io (sys_metadata e)) (\<lambda>(is_file, len).
       if \<not> is_file then fs_throw (not_regular path)
       else if expected \<noteq> None \<and> expected \<noteq> Some len
       then fs_throw (StoredLengthMismatch path (the expected) len)
       else if len > limit then fs_throw (StoredFileTooLarge path len limit)
       else fs_bind (lift_io (sys_read_to_end e (saturating_succ limit))) (\<lambda>bs.
         if length bs > limit then fs_throw (StoredFileTooLarge path (length bs) limit)
         else if length bs \<noteq> len then fs_throw (StoredLengthMismatch path len (length bs))
         else fs_return (Some bs)))"

definition read_optional_regular :: "bytes \<Rightarrow> nat \<Rightarrow> nat option \<Rightarrow> bytes option fs" where
  "read_optional_regular path limit expected =
     catch_fs (sys_symlink_metadata path)
       (\<lambda>e. if error_kind e = NotFound then fs_return None else fs_throw (FsIo e))
       (\<lambda>entry. case entry of
          RegularFile _ \<Rightarrow>
            catch_fs (open_file_nofollow path)
              (\<lambda>e. if error_kind e = NotFound then fs_return None else fs_throw (FsIo e))
              (read_opened path limit expected)
        | _ \<Rightarrow> fs_throw (not_regular path))"

definition read_required_regular :: "bytes \<Rightarrow> nat \<Rightarrow> nat option \<Rightarrow> bytes fs" where
  "read_required_regular path limit expected =
     fs_bind (read_optional_regular path limit expected) (\<lambda>r.
       case r of
         Some bs \<Rightarrow> fs_return bs
       | None \<Rightarrow> fs_throw (FsIo (IoError NotFound (''missing stored file '' @ text_of_bytes path))))"

definition verify_existing :: "bytes \<Rightarrow> bytes \<Rightarrow> unit fs" where
  "verify_existing filename expected =
     catch_fs (read_required_regular filename (length expected) (Some (length expected)))
       (\<lambda>e. case e of
          StoredLengthMismatch _ _ _ \<Rightarrow> fs_throw ByteCollision
        | StoredFileTooLarge _ _ _ \<Rightarrow> fs_throw ByteCollision
        | e \<Rightarrow> fs_throw e)
       (\<lambda>existing. if existing = expected then fs_return () else fs_throw ByteCollision)"

section \<open>Publication\<close>

definition temp_name :: "bytes \<Rightarrow> bytes" where
  "temp_name uuid = [0x2e, 0x74, 0x6d, 0x70, 0x2d] @ uuid"

text \<open>
  The shared tail of every publication: the temporary name is removed whatever the body returned;
  the body's error wins, and a failed removal counts unless the name is gone already.
\<close>

definition with_cleanup :: "bytes \<Rightarrow> 'a fs \<Rightarrow> 'a fs" where
  "with_cleanup temp body s =
     (case body s of (result, s1) \<Rightarrow>
      case sys_remove temp s1 of (cleanup, s2) \<Rightarrow>
        (case result of
           Inl e \<Rightarrow> (Inl e, s2)
         | Inr x \<Rightarrow>
             (case cleanup of
                Inl e \<Rightarrow> if error_kind e \<noteq> NotFound then (Inl (FsIo e), s2) else (Inr x, s2)
              | Inr _ \<Rightarrow> (Inr x, s2))))"

definition publish_immutable_exact :: "bytes \<Rightarrow> bytes \<Rightarrow> bytes \<Rightarrow> unit fs" where
  "publish_immutable_exact uuid filename bs =
     fs_bind (lift_io (sys_create (temp_name uuid))) (\<lambda>temp.
       with_cleanup (temp_name uuid)
         (fs_bind (lift_io (sys_append temp bs)) (\<lambda>_.
          fs_bind (lift_io (sys_sync_file temp)) (\<lambda>_.
          catch_fs (rename_noreplace (temp_name uuid) filename)
            (\<lambda>e. if error_kind e = AlreadyExists
                 then fs_bind (verify_existing filename bs) (\<lambda>_. lift_io sync_dir_required)
                 else fs_throw (FsIo e))
            (\<lambda>_. lift_io sync_dir_required)))))"

definition stage_immutable_unflushed :: "bytes \<Rightarrow> bytes \<Rightarrow> bytes \<Rightarrow> bool fs" where
  "stage_immutable_unflushed uuid filename bs =
     fs_bind (lift_io (sys_create (temp_name uuid))) (\<lambda>temp.
     fs_bind (lift_io (sys_append temp bs)) (\<lambda>_.
       with_cleanup (temp_name uuid)
         (catch_fs (rename_noreplace (temp_name uuid) filename)
            (\<lambda>e. if error_kind e = AlreadyExists
                 then fs_bind (verify_existing filename bs) (\<lambda>_. fs_return True)
                 else fs_throw (FsIo e))
            (\<lambda>_. fs_return False))))"

definition transition_regular_exact :: "bytes \<Rightarrow> bytes \<Rightarrow> bytes option \<Rightarrow> bytes \<Rightarrow> unit fs" where
  "transition_regular_exact uuid filename expected replacement =
     fs_bind (read_optional_regular filename (length replacement) (Some (length replacement))) (\<lambda>current.
       if current = Some replacement then lift_io sync_dir_required
       else if current \<noteq> expected then fs_throw ByteCollision
       else fs_bind (lift_io (sys_create (temp_name uuid))) (\<lambda>temp.
         with_cleanup (temp_name uuid)
           (fs_bind (lift_io (sys_append temp replacement)) (\<lambda>_.
            fs_bind (lift_io (sys_sync_file temp)) (\<lambda>_.
            fs_bind (lift_io (if expected \<noteq> None then sys_rename (temp_name uuid) filename
                              else rename_noreplace (temp_name uuid) filename)) (\<lambda>_.
              lift_io sync_dir_required))))))"

definition read_regular_for_transition :: "bytes \<Rightarrow> nat \<Rightarrow> bytes option fs" where
  "read_regular_for_transition name limit = read_optional_regular name (saturating_succ limit) None"

definition replace_regular_exact_unix :: "bytes \<Rightarrow> bytes \<Rightarrow> bytes \<Rightarrow> bytes \<Rightarrow> unit fs" where
  "replace_regular_exact_unix uuid name expected replacement =
     fs_bind (read_regular_for_transition name (max (length expected) (length replacement))) (\<lambda>current.
       if current = Some replacement then lift_io sync_dir_required
       else if current \<noteq> Some expected then fs_throw ByteCollision
       else fs_bind (lift_io (sys_create (temp_name uuid))) (\<lambda>temp.
         with_cleanup (temp_name uuid)
           (fs_bind (lift_io (sys_append temp replacement)) (\<lambda>_.
            fs_bind (lift_io (sys_sync_file temp)) (\<lambda>_.
            fs_bind (lift_io (sys_rename (temp_name uuid) name)) (\<lambda>_.
            fs_bind (lift_io sync_dir_required) (\<lambda>_.
              verify_existing name replacement)))))))"

definition retire_regular_exact_unix :: "bytes \<Rightarrow> bytes \<Rightarrow> bytes \<Rightarrow> unit fs" where
  "retire_regular_exact_unix active retired expected =
     fs_bind (read_regular_for_transition active (length expected)) (\<lambda>current.
       case current of
         Some bs \<Rightarrow>
           if bs \<noteq> expected then fs_throw ByteCollision
           else fs_bind (lift_io (rename_noreplace active retired)) (\<lambda>_.
             fs_bind (lift_io sync_dir_required) (\<lambda>_.
             fs_bind (verify_existing retired expected) (\<lambda>_.
             fs_bind (read_regular_for_transition active (length expected)) (\<lambda>again.
               if again \<noteq> None then fs_throw ByteCollision else fs_return ()))))
       | None \<Rightarrow>
           fs_bind (verify_existing retired expected) (\<lambda>_. lift_io sync_dir_required))"

section \<open>Durable directory publication and batches\<close>

text \<open>
  The \<open>Debug\<close> rendering of the refused name (\<open>{name:?}\<close>) is the standard library's and stays a
  parameter of the error text.
\<close>

definition validate_single_entry_name :: "(bytes \<Rightarrow> string) \<Rightarrow> bytes \<Rightarrow> filesystem_error + unit" where
  "validate_single_entry_name debug name =
     (if name = [] \<or> name = [0x2e] \<or> name = [0x2e, 0x2e]
         \<or> 0x2f \<in> set name \<or> 0x5c \<in> set name \<or> 0x00 \<in> set name
      then Inl (UnsafeEntry (''durable publication name is not one safe directory entry: '' @ debug name))
      else Inr ())"

definition fs_check :: "('e + 'a) \<Rightarrow> fsys \<Rightarrow> ('e + 'a) \<times> fsys" where "fs_check r s = (r, s)"

definition publish_new_exact :: "(bytes \<Rightarrow> string) \<Rightarrow> bytes \<Rightarrow> bytes \<Rightarrow> bytes \<Rightarrow> unit fs" where
  "publish_new_exact debug uuid name bs =
     fs_bind (fs_check (validate_single_entry_name debug name)) (\<lambda>_. publish_immutable_exact uuid name bs)"

definition replace_exact :: "(bytes \<Rightarrow> string) \<Rightarrow> bytes \<Rightarrow> bytes \<Rightarrow> bytes \<Rightarrow> bytes \<Rightarrow> unit fs" where
  "replace_exact debug uuid name expected replacement =
     fs_bind (fs_check (validate_single_entry_name debug name))
       (\<lambda>_. replace_regular_exact_unix uuid name expected replacement)"

definition retire_exact :: "(bytes \<Rightarrow> string) \<Rightarrow> bytes \<Rightarrow> bytes \<Rightarrow> bytes \<Rightarrow> unit fs" where
  "retire_exact debug active retired expected =
     fs_bind (fs_check (validate_single_entry_name debug active)) (\<lambda>_.
     fs_bind (fs_check (validate_single_entry_name debug retired)) (\<lambda>_.
       if active = retired
       then fs_throw (UnsafeEntry ''active and retired authority names must differ'')
       else retire_regular_exact_unix active retired expected))"

record publication_batch =
  publications :: nat
  existing_publications :: nat

definition batch_new :: publication_batch where
  "batch_new = \<lparr>publications = 0, existing_publications = 0\<rparr>"

definition batch_publish ::
  "bytes \<Rightarrow> bytes \<Rightarrow> bytes \<Rightarrow> publication_batch \<Rightarrow> publication_batch fs" where
  "batch_publish uuid filename bs b =
     fs_bind (stage_immutable_unflushed uuid filename bs) (\<lambda>existing.
       fs_return \<lparr>publications = saturating_succ (publications b),
                  existing_publications = (if existing then saturating_succ (existing_publications b)
                                           else existing_publications b)\<rparr>)"

text \<open>\<open>syncfs\<close>: every file and directory entry of the filesystem.\<close>

definition sys_syncfs :: "unit io" where
  "sys_syncfs = syscall (\<lambda>s. (Inr (),
     s\<lparr>fs_inodes := (\<lambda>i. (fs_inodes s i)\<lparr>in_durable := file_bytes s i\<rparr>),
       fs_maybe := (\<lambda>name. [fs_dir s name])\<rparr>))"

definition flush_exact_batch :: "unit io" where
  "flush_exact_batch = fs_bind sys_open_dot (\<lambda>_. sys_syncfs)"

definition batch_finish :: "publication_batch \<Rightarrow> publication_batch fs" where
  "batch_finish b = fs_bind (lift_io flush_exact_batch) (\<lambda>_. fs_return b)"

section \<open>Reasoning about every outcome\<close>

text \<open>
  \<open>triple P m Q R\<close>: from a state with \<open>P\<close>, whatever the system calls do, \<open>m\<close> ends with \<open>Q\<close> when it
  returns a value and with \<open>R\<close> when it returns an error, a power loss included.
\<close>

definition triple ::
  "(fsys \<Rightarrow> bool) \<Rightarrow> (fsys \<Rightarrow> ('e + 'a) \<times> fsys) \<Rightarrow> ('a \<Rightarrow> fsys \<Rightarrow> bool) \<Rightarrow> (fsys \<Rightarrow> bool) \<Rightarrow> bool" where
  "triple P m Q R \<longleftrightarrow>
     (\<forall>s. P s \<longrightarrow> (case m s of (Inr x, s') \<Rightarrow> Q x s' | (Inl e, s') \<Rightarrow> R s'))"

text \<open>A predicate of the files alone.\<close>

definition of_files :: "(fsys \<Rightarrow> bool) \<Rightarrow> bool" where
  "of_files P \<longleftrightarrow> (\<forall>s os c. P (s\<lparr>fs_outcomes := os, fs_crashed := c\<rparr>) = P s)"

named_theorems files \<open>predicates of the files alone\<close>

lemma of_filesD: "of_files P \<Longrightarrow> P (s\<lparr>fs_outcomes := os\<rparr>) = P s"
  and of_filesD2: "of_files P \<Longrightarrow> P (s\<lparr>fs_outcomes := os, fs_crashed := c\<rparr>) = P s"
proof -
  show "of_files P \<Longrightarrow> P (s\<lparr>fs_outcomes := os, fs_crashed := c\<rparr>) = P s" by (simp add: of_files_def)
  have "s\<lparr>fs_outcomes := os\<rparr> = s\<lparr>fs_outcomes := os, fs_crashed := fs_crashed s\<rparr>" by simp
  then show "of_files P \<Longrightarrow> P (s\<lparr>fs_outcomes := os\<rparr>) = P s" unfolding of_files_def by metis
qed

lemma triple_syscall:
  assumes files: "of_files P" "of_files R" and err: "\<And>s. P s \<Longrightarrow> R s"
    and part: "\<And>s n. P s \<Longrightarrow> R (part n s)"
    and act: "\<And>s. P s \<Longrightarrow> (case act s of (Inr x, s') \<Rightarrow> Q x s' \<and> R s' | (Inl e, s') \<Rightarrow> R s')"
  shows "triple P (syscall_part part act) Q R"
  unfolding triple_def
proof (intro allI impI)
  fix s assume P: "P s"
  then have os: "P (s\<lparr>fs_outcomes := os\<rparr>)" for os using files(1) by (simp add: of_filesD)
  have R: "R s" "R (s\<lparr>fs_outcomes := os\<rparr>)" "R (s\<lparr>fs_outcomes := os, fs_crashed := c\<rparr>)" for os c
    using err P files(2) by (simp_all add: of_filesD of_filesD2)
  have eff: "R (snd (act (s\<lparr>fs_outcomes := os\<rparr>)))" for os
    using act [OF os [of os]] by (auto split: prod.splits sum.splits)
  have ok: "case act (s\<lparr>fs_outcomes := os\<rparr>) of (Inr x, s') \<Rightarrow> Q x s' | (Inl e, s') \<Rightarrow> R s'" for os
    using act [OF os [of os]] by (auto split: prod.splits sum.splits)
  have ok': "case act s of (Inr x, s') \<Rightarrow> Q x s' | (Inl e, s') \<Rightarrow> R s'"
    using act [OF P] by (auto split: prod.splits sum.splits)
  show "case syscall_part part act s of (Inr x, s') \<Rightarrow> Q x s' | (Inl e, s') \<Rightarrow> R s'"
    using R eff ok ok' part [OF os] unfolding syscall_part_def
    by (simp split: list.split outcome.split)
qed

lemma triple_bind:
  "triple P m Q R \<Longrightarrow> (\<And>x. triple (Q x) (f x) Q' R) \<Longrightarrow> triple P (fs_bind m f) Q' R"
  by (fastforce simp: triple_def fs_bind_def split: prod.splits sum.splits)

lemma triple_catch:
  "triple P m Q R1 \<Longrightarrow> (\<And>e. triple R1 (h e) Q' R) \<Longrightarrow> (\<And>x. triple (Q x) (f x) Q' R)
   \<Longrightarrow> triple P (catch_fs m h f) Q' R"
  by (fastforce simp: triple_def catch_fs_def split: prod.splits sum.splits)

lemma triple_lift: "triple P m Q R \<Longrightarrow> triple P (lift_io m) Q R"
  by (fastforce simp: triple_def lift_io_def split: prod.splits sum.splits)

lemma triple_throw: "(\<And>s. P s \<Longrightarrow> R s) \<Longrightarrow> triple P (fs_throw e) Q R"
  by (simp add: triple_def fs_throw_def)

lemma triple_return: "(\<And>s. P s \<Longrightarrow> Q x s) \<Longrightarrow> triple P (fs_return x) Q R"
  by (simp add: triple_def fs_return_def)

lemma triple_weaken:
  "triple P m Q R \<Longrightarrow> (\<And>s. P' s \<Longrightarrow> P s) \<Longrightarrow> (\<And>x s. Q x s \<Longrightarrow> Q' x s) \<Longrightarrow> (\<And>s. R s \<Longrightarrow> R' s)
   \<Longrightarrow> triple P' m Q' R'"
  by (fastforce simp: triple_def split: prod.splits sum.splits)

lemma triple_disj:
  "triple P m Q R \<Longrightarrow> triple P' m Q R \<Longrightarrow> triple (\<lambda>s. P s \<or> P' s) m Q R"
  by (fastforce simp: triple_def split: prod.splits sum.splits)

lemma triple_ex: "(\<And>x. triple (P x) m Q R) \<Longrightarrow> triple (\<lambda>s. \<exists>x. P x s) m Q R"
  by (fastforce simp: triple_def split: prod.splits sum.splits)

lemma triple_if:
  "(c \<Longrightarrow> triple P m Q R) \<Longrightarrow> (\<not> c \<Longrightarrow> triple P m' Q R) \<Longrightarrow> triple P (if c then m else m') Q R"
  by simp

lemma triple_prod:
  "(\<And>a b. x = (a, b) \<Longrightarrow> triple P (f a b) Q R) \<Longrightarrow> triple P (case x of (a, b) \<Rightarrow> f a b) Q R"
  by (cases x) simp

lemma tripleD: "triple P m Q R \<Longrightarrow> P s \<Longrightarrow> m s = (Inr x, s') \<Longrightarrow> Q x s'"
  and tripleE: "triple P m Q R \<Longrightarrow> P s \<Longrightarrow> m s = (Inl e, s') \<Longrightarrow> R s'"
  by (force simp: triple_def)+

text \<open>Calls that only read keep every predicate of the files.\<close>

definition reads_only :: "(fsys \<Rightarrow> ('e + 'a) \<times> fsys) \<Rightarrow> bool" where
  "reads_only m \<longleftrightarrow> (\<forall>P. of_files P \<longrightarrow> triple P m (\<lambda>_. P) P)"

lemma reads_only_syscall:
  "(\<And>s. snd (act s) = s) \<Longrightarrow> reads_only (syscall act)"
  unfolding reads_only_def by (intro allI impI triple_syscall) (auto split: prod.splits sum.splits, (metis snd_conv)+)

lemma reads_only_bind: "reads_only m \<Longrightarrow> (\<And>x. reads_only (f x)) \<Longrightarrow> reads_only (fs_bind m f)"
  unfolding reads_only_def by (blast intro: triple_bind)

lemma reads_only_catch:
  "reads_only m \<Longrightarrow> (\<And>e. reads_only (h e)) \<Longrightarrow> (\<And>x. reads_only (f x)) \<Longrightarrow> reads_only (catch_fs m h f)"
  unfolding reads_only_def by (blast intro: triple_catch)

lemma reads_only_lift: "reads_only m \<Longrightarrow> reads_only (lift_io m)"
  unfolding reads_only_def by (blast intro: triple_lift)

lemma reads_only_throw [simp]: "reads_only (fs_throw e)" and reads_only_return [simp]: "reads_only (fs_return x)"
  by (simp_all add: reads_only_def triple_throw triple_return)

lemmas reads_only_rules = reads_only_bind reads_only_catch reads_only_lift reads_only_syscall

lemma read_optional_reads_only: "reads_only (read_optional_regular path limit expected)"
  unfolding read_optional_regular_def read_opened_def sys_symlink_metadata_def open_file_nofollow_def
    sys_metadata_def sys_read_to_end_def
  by (auto intro!: reads_only_rules split: option.split dir_entry.split prod.split)

lemma read_required_reads_only: "reads_only (read_required_regular path limit expected)"
  unfolding read_required_regular_def
  by (auto intro!: reads_only_rules read_optional_reads_only split: option.split)

lemma verify_existing_reads_only: "reads_only (verify_existing path expected)"
  unfolding verify_existing_def
  by (auto intro!: reads_only_rules read_required_reads_only split: filesystem_error.split)

lemma of_files_conj [files]: "of_files P \<Longrightarrow> of_files Q \<Longrightarrow> of_files (\<lambda>s. P s \<and> Q s)"
  by (simp add: of_files_def)

lemma of_files_entry [files]: "of_files (\<lambda>s. fs_dir s name = e)"
  by (simp add: of_files_def)

lemma of_files_bytes [files]: "of_files (\<lambda>s. file_bytes s i = bs)"
  by (simp add: of_files_def file_bytes_def)

lemma read_opened_triple:
  assumes P: "of_files P"
  shows "triple (\<lambda>s. P s \<and> fs_dir s path = Some e) (read_opened path limit expected e)
    (\<lambda>r s. P s \<and> (\<exists>i bs. r = Some bs \<and> fs_dir s path = Some (RegularFile i) \<and> file_bytes s i = bs
        \<and> length bs \<le> limit \<and> (expected = None \<or> expected = Some (length bs)))) P"
proof -
  define A where "A = (\<lambda>s. P s \<and> fs_dir s path = Some e)"
  have A: "of_files A" unfolding A_def by (intro files P)
  have meta: "triple A (sys_metadata e)
      (\<lambda>(is_file, len) s. A s \<and> (is_file = (\<exists>i. e = RegularFile i))
         \<and> (\<forall>i. e = RegularFile i \<longrightarrow> len = length (file_bytes s i))) P"
    unfolding sys_metadata_def
    by (intro triple_syscall A P) (auto simp: A_def split: dir_entry.split)
  have read: "triple (\<lambda>s. A s \<and> (\<forall>i. e = RegularFile i \<longrightarrow> len = length (file_bytes s i)))
      (sys_read_to_end e n) (\<lambda>bs s. A s \<and> (\<exists>i. e = RegularFile i \<and> bs = take n (file_bytes s i)
          \<and> len = length (file_bytes s i))) P" for n len
    unfolding sys_read_to_end_def
    by (intro triple_syscall P)
      (auto simp: of_files_def of_filesD2 [OF P] file_bytes_def A_def split: dir_entry.split)
  have A_P: "\<And>s. A s \<Longrightarrow> P s" by (simp add: A_def)
  have body: "triple (\<lambda>s. A s \<and> (\<forall>i. e = RegularFile i \<longrightarrow> len = length (file_bytes s i)))
      (fs_bind (lift_io (sys_read_to_end e n)) (\<lambda>bs.
         if length bs > limit then fs_throw (StoredFileTooLarge path (length bs) limit)
         else if length bs \<noteq> len then fs_throw (StoredLengthMismatch path len (length bs))
         else fs_return (Some bs)))
      (\<lambda>r s. P s \<and> (\<exists>i bs. r = Some bs \<and> fs_dir s path = Some (RegularFile i) \<and> file_bytes s i = bs
        \<and> length bs \<le> limit \<and> len = length bs)) P" for n len
    by (rule triple_bind [OF triple_lift [OF read]], intro triple_if triple_throw triple_return)
      (auto simp: A_def min_def split: if_splits)
  show ?thesis
    unfolding read_opened_def A_def [symmetric]
    by (intro triple_bind [OF triple_lift [OF meta]] triple_prod triple_if triple_throw
        triple_weaken [OF body]) (auto simp: A_P)
qed

lemma read_optional_triple:
  assumes P: "of_files P"
  shows "triple P (read_optional_regular path limit expected)
    (\<lambda>r s. P s \<and> (\<forall>bs. r = Some bs \<longrightarrow> (\<exists>i. fs_dir s path = Some (RegularFile i) \<and> file_bytes s i = bs))) P"
proof -
  have meta: "triple P (sys_symlink_metadata path) (\<lambda>_. P) P"
    unfolding sys_symlink_metadata_def by (intro triple_syscall P) (auto split: option.split)
  have op: "triple P (open_file_nofollow path) (\<lambda>e s. P s \<and> fs_dir s path = Some e) P"
    unfolding open_file_nofollow_def by (intro triple_syscall P) (auto split: option.split dir_entry.split)
  show ?thesis
    unfolding read_optional_regular_def
    apply (rule triple_catch [OF meta])
     apply (auto intro: triple_return triple_throw)[1]
    apply (auto split: dir_entry.split intro!: triple_throw triple_catch [OF op])
     apply (auto intro: triple_return triple_throw)[1]
    apply (rule triple_weaken [OF read_opened_triple [OF P]])
    apply auto
    done
qed

lemma verify_existing_triple:
  assumes P: "of_files P"
  shows "triple P (verify_existing path expected)
    (\<lambda>_ s. P s \<and> (\<exists>i. fs_dir s path = Some (RegularFile i) \<and> file_bytes s i = expected)) P"
proof -
  have rq: "triple P (read_required_regular path limit e)
    (\<lambda>bs s. P s \<and> (\<exists>i. fs_dir s path = Some (RegularFile i) \<and> file_bytes s i = bs)) P" for limit e
    unfolding read_required_regular_def
    by (rule triple_bind [OF read_optional_triple [OF P]])
      (auto split: option.split intro!: triple_throw triple_return)
  show ?thesis
    unfolding verify_existing_def
    by (rule triple_catch [OF rq])
      (auto split: filesystem_error.split intro!: triple_throw triple_return)
qed

section \<open>Publishing one name\<close>

text \<open>
  A well-formed state: each live entry is among those a power loss may reveal, and every inode in
  use has been allocated.
\<close>

definition fs_wf :: "fsys \<Rightarrow> bool" where
  "fs_wf s \<longleftrightarrow> (\<forall>name. fs_dir s name \<in> set (fs_maybe s name))
     \<and> (\<forall>name i. Some (RegularFile i) \<in> set (fs_maybe s name) \<longrightarrow> i < fs_next s)"

text \<open>
  Relative to the state \<open>s0\<close> before: \<open>others\<close> says only \<open>name\<close> and the temporary may have changed,
  \<open>old_name\<close> that \<open>name\<close> did not, \<open>new_name\<close> that it names the fresh file, written and flushed; \<open>ok\<close> is the
  condition on \<open>s0\<close> under which the operation may install it (the name is free, or replacing is meant).
\<close>

definition others :: "fsys \<Rightarrow> bytes \<Rightarrow> bytes \<Rightarrow> fsys \<Rightarrow> bool" where
  "others s0 temp name s \<longleftrightarrow> fs_wf s \<and> fs_next s0 \<le> fs_next s
     \<and> (\<forall>i. i < fs_next s0 \<longrightarrow> fs_inodes s i = fs_inodes s0 i)
     \<and> (\<forall>n. n \<noteq> name \<and> n \<noteq> temp \<longrightarrow>
          fs_dir s n = fs_dir s0 n \<and> set (fs_maybe s n) \<subseteq> set (fs_maybe s0 n))"

definition old_name :: "fsys \<Rightarrow> bytes \<Rightarrow> fsys \<Rightarrow> bool" where
  "old_name s0 name s \<longleftrightarrow>
     fs_dir s name = fs_dir s0 name \<and> set (fs_maybe s name) \<subseteq> set (fs_maybe s0 name)"

definition fresh_file :: "fsys \<Rightarrow> inode \<Rightarrow> fsys \<Rightarrow> bool" where
  "fresh_file s0 ino s \<longleftrightarrow> fs_next s = fs_next s0 + 1 \<and> fs_inodes s (fs_next s0) = ino"

definition new_name :: "bool \<Rightarrow> fsys \<Rightarrow> bytes \<Rightarrow> bytes \<Rightarrow> fsys \<Rightarrow> bool" where
  "new_name ok s0 name bs s \<longleftrightarrow> ok \<and> fs_dir s name = Some (RegularFile (fs_next s0))
     \<and> fresh_file s0 \<lparr>in_bytes = bs, in_durable = bs\<rparr> s
     \<and> set (fs_maybe s name) \<subseteq> insert (Some (RegularFile (fs_next s0))) (set (fs_maybe s0 name))"

definition settled :: "bytes \<Rightarrow> fsys \<Rightarrow> bool" where
  "settled name s \<longleftrightarrow> set (fs_maybe s name) = {fs_dir s name}"

lemma of_files_publication [files]:
  "of_files (others s0 temp name)" "of_files (old_name s0 name)" "of_files (new_name ok s0 name bs)"
  "of_files (settled name)" "of_files (fresh_file s0 ino)"
  by (simp_all add: of_files_def others_def old_name_def new_name_def settled_def fs_wf_def fresh_file_def)

lemma of_files_disj [files]: "of_files P \<Longrightarrow> of_files Q \<Longrightarrow> of_files (\<lambda>s. P s \<or> Q s)"
  and of_files_const [files]: "of_files (\<lambda>s. b)"
  by (simp_all add: of_files_def)

text \<open>The publication's steps, from the creation of the temporary to the rename.\<close>

definition safe_publish :: "bool \<Rightarrow> fsys \<Rightarrow> bytes \<Rightarrow> bytes \<Rightarrow> bytes \<Rightarrow> fsys \<Rightarrow> bool" where
  "safe_publish ok s0 temp name bs s \<longleftrightarrow> others s0 temp name s \<and> (old_name s0 name s \<or> new_name ok s0 name bs s)"

definition staged :: "fsys \<Rightarrow> bytes \<Rightarrow> bytes \<Rightarrow> inode \<Rightarrow> fsys \<Rightarrow> bool" where
  "staged s0 temp name ino s \<longleftrightarrow> others s0 temp name s \<and> old_name s0 name s
     \<and> fs_dir s temp = Some (RegularFile (fs_next s0)) \<and> fresh_file s0 ino s"

lemma of_files_safe [files]: "of_files (safe_publish ok s0 temp name bs)"
  "of_files (staged s0 temp name ino)"
  unfolding safe_publish_def staged_def by (intro files)+

lemma staged_safe: "staged s0 temp name ino s \<Longrightarrow> safe_publish ok s0 temp name bs s"
  by (simp add: staged_def safe_publish_def)

lemma create_triple:
  assumes "temp \<noteq> name" "fs_wf s0" 
  shows "triple (\<lambda>s. others s0 temp name s \<and> old_name s0 name s \<and> fs_next s = fs_next s0)
    (sys_create temp)
    (\<lambda>i s. i = fs_next s0 \<and> staged s0 temp name \<lparr>in_bytes = [], in_durable = []\<rparr> s)
    (safe_publish ok s0 temp name bs)"
  unfolding sys_create_def
proof (rule triple_syscall)
  show "of_files (\<lambda>s. others s0 temp name s \<and> old_name s0 name s \<and> fs_next s = fs_next s0)"
    by (intro files) (simp add: of_files_def)
qed (use assms in \<open>auto simp: files safe_publish_def staged_def others_def old_name_def fresh_file_def
       set_entry_def fs_wf_def less_Suc_eq dest: less_SucI\<close>)

lemma append_triple:
  assumes "i = fs_next s0"
  shows "triple (staged s0 temp name \<lparr>in_bytes = [], in_durable = []\<rparr>) (sys_append i bs)
    (\<lambda>_. staged s0 temp name \<lparr>in_bytes = bs, in_durable = []\<rparr>) (safe_publish ok s0 temp name bs')"
  unfolding sys_append_def
  by (rule triple_syscall)
    (use assms in \<open>auto simp: files safe_publish_def staged_def others_def old_name_def fresh_file_def
       put_bytes_def file_bytes_def fs_wf_def\<close>)

lemma sync_file_triple:
  assumes "i = fs_next s0"
  shows "triple (staged s0 temp name \<lparr>in_bytes = bs, in_durable = d\<rparr>) (sys_sync_file i)
    (\<lambda>_. staged s0 temp name \<lparr>in_bytes = bs, in_durable = bs\<rparr>) (safe_publish ok s0 temp name bs')"
  unfolding sys_sync_file_def
  by (rule triple_syscall)
    (use assms in \<open>auto simp: files safe_publish_def staged_def others_def old_name_def fresh_file_def
       put_bytes_def file_bytes_def fs_wf_def\<close>)

lemma set_entry_simps [simp]:
  "fs_dir (set_entry n e s) = (fs_dir s)(n := e)" "fs_inodes (set_entry n e s) = fs_inodes s"
  "fs_next (set_entry n e s) = fs_next s"
  "fs_maybe (set_entry n e s) = (fs_maybe s)(n := e # fs_maybe s n)"
  by (simp_all add: set_entry_def)

lemma wf_set_entry:
  "fs_wf s \<Longrightarrow> (\<And>i. e = Some (RegularFile i) \<Longrightarrow> i < fs_next s) \<Longrightarrow> fs_wf (set_entry n e s)"
  unfolding fs_wf_def by simp

lemma others_set_entry:
  "others s0 temp name s \<Longrightarrow> n = temp \<or> n = name \<Longrightarrow> (\<And>i. e = Some (RegularFile i) \<Longrightarrow> i < fs_next s)
   \<Longrightarrow> others s0 temp name (set_entry n e s)"
  unfolding others_def by (auto simp: wf_set_entry)

lemma move_entry:
  assumes "staged s0 temp name \<lparr>in_bytes = bs, in_durable = bs\<rparr> s" "temp \<noteq> name" ok
  shows "others s0 temp name (set_entry temp None (set_entry name (Some (RegularFile (fs_next s0))) s))"
    "new_name ok s0 name bs (set_entry temp None (set_entry name (Some (RegularFile (fs_next s0))) s))"
  using assms
  by (auto simp: staged_def old_name_def new_name_def fresh_file_def intro!: others_set_entry)

definition published :: "bool \<Rightarrow> fsys \<Rightarrow> bytes \<Rightarrow> bytes \<Rightarrow> bytes \<Rightarrow> fsys \<Rightarrow> bool" where
  "published ok s0 temp name bs s \<longleftrightarrow> others s0 temp name s \<and> new_name ok s0 name bs s"

lemma of_files_published [files]: "of_files (published ok s0 temp name bs)"
  unfolding published_def by (intro files)

lemma published_safe: "published ok s0 temp name bs s \<Longrightarrow> safe_publish ok s0 temp name bs s"
  by (simp add: published_def safe_publish_def)

lemma rename_noreplace_triple:
  assumes "temp \<noteq> name" "fs_dir s0 name = None \<Longrightarrow> ok"
  shows "triple (staged s0 temp name \<lparr>in_bytes = bs, in_durable = bs\<rparr>) (rename_noreplace temp name)
    (\<lambda>_. published ok s0 temp name bs) (safe_publish ok s0 temp name bs)"
  unfolding rename_noreplace_def
  by (rule triple_syscall)
    (use assms move_entry in \<open>auto simp: files staged_safe published_def safe_publish_def staged_def old_name_def\<close>)

lemma rename_triple:
  assumes "temp \<noteq> name" ok
  shows "triple (staged s0 temp name \<lparr>in_bytes = bs, in_durable = bs\<rparr>) (sys_rename temp name)
    (\<lambda>_. published ok s0 temp name bs) (safe_publish ok s0 temp name bs)"
  unfolding sys_rename_def
  by (rule triple_syscall)
    (use assms move_entry in \<open>auto simp: files staged_safe published_def safe_publish_def staged_def old_name_def\<close>)

definition settle :: "fsys \<Rightarrow> fsys" where
  "settle s = s\<lparr>fs_maybe := (\<lambda>name. [fs_dir s name])\<rparr>"

lemma settle_simps [simp]:
  "fs_dir (settle s) = fs_dir s" "fs_inodes (settle s) = fs_inodes s" "fs_next (settle s) = fs_next s"
  "fs_maybe (settle s) n = [fs_dir s n]"
  by (simp_all add: settle_def)

lemma wf_live: "fs_wf s \<Longrightarrow> fs_dir s n \<in> set (fs_maybe s n)"
  and wf_inode: "fs_wf s \<Longrightarrow> Some (RegularFile i) \<in> set (fs_maybe s n) \<Longrightarrow> i < fs_next s"
  by (auto simp: fs_wf_def)

lemma wf_settle: "fs_wf s \<Longrightarrow> fs_wf (settle s)"
  unfolding fs_wf_def by (simp, metis)

lemma settle_others: "others s0 temp name s \<Longrightarrow> others s0 temp name (settle s)"
  unfolding others_def by (simp add: wf_settle) (metis subsetD wf_live)

lemma settle_old: "fs_wf s \<Longrightarrow> old_name s0 name s \<Longrightarrow> old_name s0 name (settle s)"
  and settle_new: "fs_wf s \<Longrightarrow> new_name ok s0 name bs s \<Longrightarrow> new_name ok s0 name bs (settle s)"
  using wf_live [of s name] by (auto simp: old_name_def new_name_def fresh_file_def)

lemma others_wf: "others s0 temp name s \<Longrightarrow> fs_wf s"
  by (simp add: others_def)

lemma settle_safe: "safe_publish ok s0 temp name bs s \<Longrightarrow> safe_publish ok s0 temp name bs (settle s)"
  unfolding safe_publish_def using settle_others settle_old settle_new others_wf by blast

lemma sync_dir_triple:
  assumes P: "of_files P" "of_files R" "\<And>s. P s \<Longrightarrow> R s" "\<And>s. R s \<Longrightarrow> R (settle s)"
    and ok: "\<And>s. P s \<Longrightarrow> Q (settle s)"
  shows "triple P sync_dir_required (\<lambda>_. Q) R"
proof -
  have dot: "triple P sys_open_dot (\<lambda>_. P) R"
    unfolding sys_open_dot_def by (rule triple_syscall) (use P in auto)
  have sync: "triple P sys_sync_dir (\<lambda>_. Q) R"
    unfolding sys_sync_dir_def settle_def [symmetric]
    by (rule triple_syscall) (use P ok in auto)
  show ?thesis unfolding sync_dir_required_def by (rule triple_bind [OF dot sync])
qed

lemma remove_triple:
  assumes "of_files P" "\<And>s. P s \<Longrightarrow> P (set_entry name None s)"
  shows "triple P (sys_remove name) (\<lambda>_. P) P"
  unfolding sys_remove_def
  by (rule triple_syscall) (use assms in \<open>auto split: option.split dir_entry.split\<close>)

lemma cleanup_triple:
  assumes body: "triple P body Q R"
    and Q: "\<And>x. of_files (Q x)" "\<And>x s. Q x s \<Longrightarrow> Q x (set_entry temp None s)"
    and R: "of_files R" "\<And>s. R s \<Longrightarrow> R (set_entry temp None s)" "\<And>x s. Q x s \<Longrightarrow> R s"
  shows "triple P (with_cleanup temp body) Q R"
  unfolding triple_def
proof (intro allI impI)
  fix s assume P: "P s"
  obtain r s1 where b: "body s = (r, s1)" by force
  obtain c s2 where c: "sys_remove temp s1 = (c, s2)" by force
  have R2: "R s2" if "R s1"
    using remove_triple [OF R(1,2)] that c by (cases c) (auto simp: triple_def)
  have Q2: "Q x s2" if "Q x s1" for x
    using remove_triple [OF Q(1) [of x] Q(2) [of x]] that c by (cases c) (auto simp: triple_def)
  show "case with_cleanup temp body s of (Inr x, s') \<Rightarrow> Q x s' | (Inl e, s') \<Rightarrow> R s'"
    using body P b c R2 Q2 R(3)
    by (auto simp: triple_def with_cleanup_def split: sum.split)
qed

lemma safe_remove:
  "temp \<noteq> name \<Longrightarrow> safe_publish ok s0 temp name bs s \<Longrightarrow> safe_publish ok s0 temp name bs (set_entry temp None s)"
  by (auto simp: safe_publish_def old_name_def new_name_def fresh_file_def intro!: others_set_entry)

text \<open>What a completed publication has established: \<open>name\<close> holds \<open>bs\<close> and its entry is durable.\<close>

definition holds_exactly :: "bool \<Rightarrow> fsys \<Rightarrow> bytes \<Rightarrow> bytes \<Rightarrow> bytes \<Rightarrow> fsys \<Rightarrow> bool" where
  "holds_exactly ok s0 temp name bs s \<longleftrightarrow> safe_publish ok s0 temp name bs s \<and> settled name s
     \<and> (\<exists>i. fs_dir s name = Some (RegularFile i) \<and> file_bytes s i = bs)"

lemma of_files_ex [files]: "(\<And>x. of_files (P x)) \<Longrightarrow> of_files (\<lambda>s. \<exists>x. P x s)"
  by (simp add: of_files_def)

lemma of_files_holds [files]: "of_files (holds_exactly ok s0 temp name bs)"
  unfolding holds_exactly_def by (intro files)

lemma holds_remove:
  "temp \<noteq> name \<Longrightarrow> holds_exactly ok s0 temp name bs s \<Longrightarrow> holds_exactly ok s0 temp name bs (set_entry temp None s)"
  unfolding holds_exactly_def by (auto simp: safe_remove settled_def file_bytes_def)

lemma holds_safe: "holds_exactly ok s0 temp name bs s \<Longrightarrow> safe_publish ok s0 temp name bs s"
  by (simp add: holds_exactly_def)

lemma settle_settled [simp]: "settled name (settle s)"
  by (simp add: settled_def)

lemma file_bytes_settle [simp]: "file_bytes (settle s) i = file_bytes s i"
  by (simp add: file_bytes_def)

lemma published_settle:
  "published ok s0 temp name bs s \<Longrightarrow> holds_exactly ok s0 temp name bs (settle s)"
  by (auto simp: holds_exactly_def settle_safe published_safe)
    (auto simp: published_def new_name_def fresh_file_def file_bytes_def)

lemma sync_published: "triple (published ok s0 temp name bs) (lift_io sync_dir_required)
    (\<lambda>_. holds_exactly ok s0 temp name bs) (safe_publish ok s0 temp name bs)"
  by (rule triple_lift, rule sync_dir_triple)
    (auto simp: files published_safe settle_safe published_settle)

text \<open>The existing-name path: verify the bytes, then repeat the directory barrier.\<close>

lemma verify_and_sync:
  "triple (safe_publish ok s0 temp name bs) (fs_bind (verify_existing name bs) (\<lambda>_. lift_io sync_dir_required))
     (\<lambda>_. holds_exactly ok s0 temp name bs) (safe_publish ok s0 temp name bs)"
  by (rule triple_bind [OF verify_existing_triple], intro files,
      intro triple_lift sync_dir_triple files)
    (auto simp: settle_safe holds_exactly_def)

lemma publish_cleanup:
  assumes "temp \<noteq> name"
    "triple P body (\<lambda>_. holds_exactly ok s0 temp name bs) (safe_publish ok s0 temp name bs)"
  shows "triple P (with_cleanup temp body) (\<lambda>_. holds_exactly ok s0 temp name bs) (safe_publish ok s0 temp name bs)"
  by (rule cleanup_triple [OF assms(2)]) (auto simp: files safe_remove holds_remove holds_safe assms(1))

lemma publish_immutable_triple:
  assumes "temp_name uuid \<noteq> name" "fs_wf s0" "fs_dir s0 name = None \<Longrightarrow> ok"
  shows "triple (\<lambda>s. others s0 (temp_name uuid) name s \<and> old_name s0 name s \<and> fs_next s = fs_next s0)
    (publish_immutable_exact uuid name bs)
    (\<lambda>_. holds_exactly ok s0 (temp_name uuid) name bs) (safe_publish ok s0 (temp_name uuid) name bs)"
proof -
  define temp where "temp = temp_name uuid"
  note step = triple_bind [OF triple_lift]
  have body: "triple (\<lambda>s. i = fs_next s0 \<and> staged s0 temp name \<lparr>in_bytes = [], in_durable = []\<rparr> s)
      (fs_bind (lift_io (sys_append i bs)) (\<lambda>_.
          fs_bind (lift_io (sys_sync_file i)) (\<lambda>_.
          catch_fs (rename_noreplace temp name)
            (\<lambda>e. if error_kind e = AlreadyExists
                 then fs_bind (verify_existing name bs) (\<lambda>_. lift_io sync_dir_required)
                 else fs_throw (FsIo e))
            (\<lambda>_. lift_io sync_dir_required))))
      (\<lambda>_. holds_exactly ok s0 temp name bs) (safe_publish ok s0 temp name bs)" for i
  proof (cases "i = fs_next s0")
    case True
    show ?thesis
      unfolding True simp_thms
      by (intro step [OF append_triple] step [OF sync_file_triple] refl
          triple_catch [OF rename_noreplace_triple] triple_if verify_and_sync triple_throw)
        (use assms in \<open>auto simp: temp_def intro: triple_weaken [OF sync_published] verify_and_sync\<close>)
  qed (simp add: triple_def)
  show ?thesis
    unfolding publish_immutable_exact_def temp_def [symmetric]
    by (rule step [OF create_triple], use assms in \<open>simp_all add: temp_def\<close>)
      (rule publish_cleanup [OF assms(1) body [unfolded temp_def]])
qed

text \<open>From the file-level predicates to what a power loss may reveal.\<close>

lemma survives_flushed [simp]: "survives \<lparr>in_bytes = bs, in_durable = bs\<rparr> c \<longleftrightarrow> c = bs"
  by (simp add: survives_def)

lemma may_find_old:
  assumes "fs_wf s0" "fs_next s0 \<le> fs_next s" "\<forall>i. i < fs_next s0 \<longrightarrow> fs_inodes s i = fs_inodes s0 i"
    "set (fs_maybe s n) \<subseteq> set (fs_maybe s0 n)" "may_find s n x"
  shows "may_find s0 n x"
  using assms wf_inode [OF assms(1), of _ n]
  unfolding may_find_def by (cases x) (auto, metis subsetD)

lemma may_find_safe:
  assumes "fs_wf s0" "safe_publish ok s0 temp name bs s" "may_find s name x"
  shows "may_find s0 name x \<or> x = Some bs \<and> ok"
proof -
  from assms(2) consider "others s0 temp name s" "old_name s0 name s" | "others s0 temp name s" "new_name ok s0 name bs s"
    by (auto simp: safe_publish_def)
  then show ?thesis
  proof cases
    case 1
    then show ?thesis using may_find_old [OF assms(1) _ _ _ assms(3)] by (auto simp: others_def old_name_def)
  next
    case 2
    show ?thesis
    proof (cases x)
      case None
      with 2 assms(3) show ?thesis by (auto simp: may_find_def new_name_def)
    next
      case (Some c)
      with assms(3) obtain i where i: "Some (RegularFile i) \<in> set (fs_maybe s name)" "survives (fs_inodes s i) c"
        by (auto simp: may_find_def)
      show ?thesis
      proof (cases "i = fs_next s0")
        case True
        with i 2 Some show ?thesis by (auto simp: new_name_def fresh_file_def)
      next
        case False
        with i 2 have "Some (RegularFile i) \<in> set (fs_maybe s0 name)" by (auto simp: new_name_def)
        moreover from this have "i < fs_next s0" using assms(1) by (simp add: wf_inode)
        ultimately show ?thesis using i 2 Some by (auto simp: may_find_def others_def)
      qed
    qed
  qed
qed

lemma may_find_other:
  assumes "fs_wf s0" "safe_publish ok s0 temp name bs s" "n \<noteq> name" "n \<noteq> temp" "may_find s n x"
  shows "may_find s0 n x"
  using assms(2) may_find_old [OF assms(1) _ _ _ assms(5)] assms(3,4)
  by (auto simp: safe_publish_def others_def)

text \<open>A name whose file was flushed, or no name.\<close>

definition flushed :: "fsys \<Rightarrow> bytes \<Rightarrow> bool" where
  "flushed s name \<longleftrightarrow> (\<forall>i. fs_dir s name = Some (RegularFile i) \<longrightarrow>
     in_durable (fs_inodes s i) = in_bytes (fs_inodes s i))"

definition contents :: "fsys \<Rightarrow> bytes \<Rightarrow> bytes option" where
  "contents s name =
     (case fs_dir s name of Some (RegularFile i) \<Rightarrow> Some (file_bytes s i) | _ \<Rightarrow> None)"

lemma holds_contents:
  assumes "holds_exactly ok s0 temp name bs s"
  shows "contents s name = Some bs"
  using assms by (auto simp: holds_exactly_def contents_def)

lemma holds_inode:
  assumes "fs_wf s0" "holds_exactly ok s0 temp name bs s" "flushed s0 name" "fs_dir s name = Some (RegularFile i)"
  shows "fs_inodes s i = \<lparr>in_bytes = bs, in_durable = bs\<rparr>"
proof (cases "new_name ok s0 name bs s")
  case True
  then show ?thesis using assms(4) by (auto simp: new_name_def fresh_file_def)
next
  case False
  from assms(2,4) have i: "file_bytes s i = bs" "safe_publish ok s0 temp name bs s"
    by (auto simp: holds_exactly_def)
  with False have o: "others s0 temp name s" "fs_dir s0 name = Some (RegularFile i)"
    using assms(4) by (auto simp: safe_publish_def old_name_def)
  then have "i < fs_next s0" using assms(1) by (metis wf_inode wf_live)
  then show ?thesis
    using o assms(3) i(1) by (cases "fs_inodes s i") (auto simp: others_def flushed_def file_bytes_def)
qed

lemma holds_durable:
  assumes "fs_wf s0" "holds_exactly ok s0 temp name bs s" "flushed s0 name"
  shows "may_find s name x \<longleftrightarrow> x = Some bs"
proof -
  from assms(2) obtain i where i: "fs_dir s name = Some (RegularFile i)" "settled name s"
    by (auto simp: holds_exactly_def)
  then show ?thesis
    using holds_inode [OF assms i(1)] by (cases x) (auto simp: may_find_def settled_def)
qed

text \<open>
  C11. Exact immutable publication is safe under every outcome of every system call, a power loss at
  any point included: afterwards the name holds what it could hold before or exactly the new bytes, an
  existing entry is never replaced, no other name is affected, and success means the bytes are there;
  they are durable whenever the entry found there had been flushed.
\<close>

theorem publish_immutable_exact_safe:
  assumes wf: "fs_wf s" and temp: "temp_name uuid \<noteq> name"
    and run: "publish_immutable_exact uuid name bs s = (r, s')"
  shows "(\<forall>x. may_find s' name x \<longrightarrow> may_find s name x \<or> x = Some bs)
    \<and> (fs_dir s name \<noteq> None \<longrightarrow> fs_dir s' name = fs_dir s name)
    \<and> (\<forall>n x. n \<noteq> name \<and> n \<noteq> temp_name uuid \<and> may_find s' n x \<longrightarrow> may_find s n x)
    \<and> (r = Inr () \<longrightarrow> contents s' name = Some bs)
    \<and> (r = Inr () \<and> flushed s name \<longrightarrow> (\<forall>x. may_find s' name x \<longleftrightarrow> x = Some bs))"
proof -
  define ok where "ok \<longleftrightarrow> fs_dir s name = None"
  have start: "others s (temp_name uuid) name s \<and> old_name s name s \<and> fs_next s = fs_next s"
    using wf by (simp add: others_def old_name_def)
  have t: "triple (\<lambda>s'. others s (temp_name uuid) name s' \<and> old_name s name s' \<and> fs_next s' = fs_next s)
    (publish_immutable_exact uuid name bs)
    (\<lambda>_. holds_exactly ok s (temp_name uuid) name bs) (safe_publish ok s (temp_name uuid) name bs)"
    by (rule publish_immutable_triple [OF temp wf]) (simp add: ok_def)
  have res: "r = Inr () \<Longrightarrow> holds_exactly ok s (temp_name uuid) name bs s'"
    using tripleD [OF t, of s] start run by auto
  have safe: "safe_publish ok s (temp_name uuid) name bs s'"
    using tripleD [OF t, of s] tripleE [OF t, of s] start run holds_safe by (cases r) auto
  have keep: "fs_dir s' name = fs_dir s name" if "fs_dir s name \<noteq> None"
    using safe that by (auto simp: safe_publish_def old_name_def new_name_def ok_def)
  show ?thesis
    using may_find_safe [OF wf safe] may_find_other [OF wf safe] keep res holds_contents holds_durable [OF wf]
    by blast
qed

section \<open>Replacing one name\<close>

definition untouched :: "fsys \<Rightarrow> bytes \<Rightarrow> bytes \<Rightarrow> fsys \<Rightarrow> bool" where
  "untouched s0 temp name s \<longleftrightarrow> others s0 temp name s \<and> old_name s0 name s \<and> fs_next s = fs_next s0"

lemma of_files_untouched [files]: "of_files (untouched s0 temp name)"
  unfolding untouched_def by (intro files) (simp add: of_files_def)

lemma untouched_start: "fs_wf s \<Longrightarrow> untouched s temp name s"
  by (simp add: untouched_def others_def old_name_def)

lemma untouched_safe: "untouched s0 temp name s \<Longrightarrow> safe_publish ok s0 temp name bs s"
  by (simp add: untouched_def safe_publish_def)

lemma untouched_contents:
  assumes "fs_wf s0" "untouched s0 temp name s" "fs_dir s name = Some (RegularFile i)" "file_bytes s i = bs"
  shows "contents s0 name = Some bs"
proof -
  have "fs_dir s0 name = Some (RegularFile i)" using assms(2,3) by (simp add: untouched_def old_name_def)
  moreover from this have "i < fs_next s0" using assms(1) by (metis wf_inode wf_live)
  ultimately show ?thesis
    using assms(2,4) by (simp add: contents_def file_bytes_def untouched_def others_def)
qed

lemma untouched_settle:
  assumes "fs_wf s0" "untouched s0 temp name s" "fs_dir s name = Some (RegularFile i)" "file_bytes s i = bs"
  shows "holds_exactly ok s0 temp name bs (settle s)"
  using assms by (auto simp: holds_exactly_def intro!: settle_safe [OF untouched_safe])

text \<open>Writing, flushing and installing the replacement; \<open>fin\<close> follows the rename.\<close>

lemma install_triple:
  assumes "temp \<noteq> name" "fs_wf s0"
    and ren: "triple (staged s0 temp name \<lparr>in_bytes = bs, in_durable = bs\<rparr>) ren
        (\<lambda>_. published ok s0 temp name bs) (safe_publish ok s0 temp name bs)"
    and fin: "triple (published ok s0 temp name bs) fin
        (\<lambda>_. holds_exactly ok s0 temp name bs) (safe_publish ok s0 temp name bs)"
  shows "triple (untouched s0 temp name)
    (fs_bind (lift_io (sys_create temp)) (\<lambda>i.
       with_cleanup temp
         (fs_bind (lift_io (sys_append i bs)) (\<lambda>_.
          fs_bind (lift_io (sys_sync_file i)) (\<lambda>_.
          fs_bind (lift_io ren) (\<lambda>_. fin))))))
    (\<lambda>_. holds_exactly ok s0 temp name bs) (safe_publish ok s0 temp name bs)"
proof -
  note step = triple_bind [OF triple_lift]
  have body: "triple (\<lambda>s. i = fs_next s0 \<and> staged s0 temp name \<lparr>in_bytes = [], in_durable = []\<rparr> s)
      (fs_bind (lift_io (sys_append i bs)) (\<lambda>_.
          fs_bind (lift_io (sys_sync_file i)) (\<lambda>_.
          fs_bind (lift_io ren) (\<lambda>_. fin))))
      (\<lambda>_. holds_exactly ok s0 temp name bs) (safe_publish ok s0 temp name bs)" for i
  proof (cases "i = fs_next s0")
    case True
    show ?thesis
      unfolding True simp_thms
      by (rule step [OF append_triple [OF refl]], rule step [OF sync_file_triple [OF refl]],
          rule step [OF ren], rule fin)
  qed (simp add: triple_def)
  show ?thesis
    unfolding untouched_def
    by (rule step [OF create_triple [OF assms(1,2)]]) (rule publish_cleanup [OF assms(1) body])
qed

lemma sync_existing:
  assumes wf: "fs_wf s0"
  shows "triple (\<lambda>s. untouched s0 temp name s \<and> (\<exists>i. fs_dir s name = Some (RegularFile i) \<and> file_bytes s i = bs))
    (lift_io sync_dir_required) (\<lambda>_. holds_exactly ok s0 temp name bs) (safe_publish ok s0 temp name bs)"
  by (rule triple_lift, rule sync_dir_triple)
    (auto simp: files untouched_safe settle_safe intro: untouched_settle [OF wf])

definition observed :: "fsys \<Rightarrow> bytes \<Rightarrow> bytes \<Rightarrow> bytes option \<Rightarrow> fsys \<Rightarrow> bool" where
  "observed s0 temp name r s \<longleftrightarrow> untouched s0 temp name s
     \<and> (\<forall>bs. r = Some bs \<longrightarrow> (\<exists>i. fs_dir s name = Some (RegularFile i) \<and> file_bytes s i = bs))"

lemma read_observed:
  "triple (untouched s0 temp name) (read_optional_regular name limit expected)
     (observed s0 temp name) (safe_publish ok s0 temp name bs)"
  by (rule triple_weaken [OF read_optional_triple [OF of_files_untouched]])
    (auto simp: observed_def untouched_safe)

lemma observed_safe: "observed s0 temp name r s \<Longrightarrow> safe_publish ok s0 temp name bs s"
  by (simp add: observed_def untouched_safe)

lemma observed_contents: "fs_wf s0 \<Longrightarrow> observed s0 temp name (Some bs) s \<Longrightarrow> contents s0 name = Some bs"
  using untouched_contents by (auto simp: observed_def)

lemma observed_sync:
  "fs_wf s0 \<Longrightarrow> triple (observed s0 temp name (Some bs)) (lift_io sync_dir_required)
     (\<lambda>_. holds_exactly ok s0 temp name bs) (safe_publish ok s0 temp name bs)"
  by (rule triple_weaken [OF sync_existing]) (auto simp: observed_def)

lemma triple_vacuous: "(\<And>s. \<not> P s) \<Longrightarrow> triple P m Q R"
  by (simp add: triple_def)

lemma transition_triple:
  assumes temp: "temp_name uuid \<noteq> name" and wf: "fs_wf s0"
    and ok: "ok = (case expected of Some e \<Rightarrow> contents s0 name = Some e | None \<Rightarrow> fs_dir s0 name = None)"
  shows "triple (untouched s0 (temp_name uuid) name) (transition_regular_exact uuid name expected replacement)
    (\<lambda>_. holds_exactly ok s0 (temp_name uuid) name replacement)
    (safe_publish ok s0 (temp_name uuid) name replacement)"
proof -
  define t where "t = temp_name uuid"
  let ?post = "\<lambda>_. holds_exactly ok s0 t name replacement" and ?safe = "safe_publish ok s0 t name replacement"
  have inst: "triple (observed s0 t name expected)
    (fs_bind (lift_io (sys_create t)) (\<lambda>i. with_cleanup t
         (fs_bind (lift_io (sys_append i replacement)) (\<lambda>_.
          fs_bind (lift_io (sys_sync_file i)) (\<lambda>_.
          fs_bind (lift_io (if expected \<noteq> None then sys_rename t name else rename_noreplace t name)) (\<lambda>_.
            lift_io sync_dir_required)))))) ?post ?safe"
  proof (cases "expected \<noteq> None \<and> \<not> ok")
    case True
    then show ?thesis
      using observed_contents [OF wf] by (intro triple_vacuous) (auto simp: ok)
  next
    case False
    have "triple (staged s0 t name \<lparr>in_bytes = replacement, in_durable = replacement\<rparr>)
        (if expected \<noteq> None then sys_rename t name else rename_noreplace t name)
        (\<lambda>_. published ok s0 t name replacement) ?safe"
      using temp False by (intro triple_if rename_triple rename_noreplace_triple) (auto simp: t_def ok)
    from install_triple [OF temp [folded t_def] wf this sync_published] show ?thesis
      by (rule triple_weaken) (auto simp: observed_def)
  qed
  show ?thesis
    unfolding transition_regular_exact_def t_def [symmetric]
    by (rule triple_bind [OF read_observed], intro triple_if triple_throw)
      (use inst observed_sync [OF wf] observed_safe in auto)
qed

lemma replace_triple:
  assumes temp: "temp_name uuid \<noteq> name" and wf: "fs_wf s0"
    and ok: "ok = (contents s0 name = Some expected)"
  shows "triple (untouched s0 (temp_name uuid) name) (replace_regular_exact_unix uuid name expected replacement)
    (\<lambda>_. holds_exactly ok s0 (temp_name uuid) name replacement)
    (safe_publish ok s0 (temp_name uuid) name replacement)"
proof -
  define t where "t = temp_name uuid"
  let ?post = "\<lambda>_. holds_exactly ok s0 t name replacement" and ?safe = "safe_publish ok s0 t name replacement"
  have fin: "triple (published ok s0 t name replacement)
      (fs_bind (lift_io sync_dir_required) (\<lambda>_. verify_existing name replacement)) ?post ?safe"
    by (rule triple_bind [OF sync_published], rule triple_weaken [OF verify_existing_triple [OF of_files_holds]])
      (auto intro: holds_safe)
  have inst: "triple (observed s0 t name (Some expected))
    (fs_bind (lift_io (sys_create t)) (\<lambda>i. with_cleanup t
         (fs_bind (lift_io (sys_append i replacement)) (\<lambda>_.
          fs_bind (lift_io (sys_sync_file i)) (\<lambda>_.
          fs_bind (lift_io (sys_rename t name)) (\<lambda>_.
          fs_bind (lift_io sync_dir_required) (\<lambda>_. verify_existing name replacement)))))))
    ?post ?safe"
  proof (cases ok)
    case False
    then show ?thesis using observed_contents [OF wf] by (intro triple_vacuous) (auto simp: ok)
  next
    case True
    from install_triple [OF temp [folded t_def] wf rename_triple [OF temp [folded t_def] True] fin] show ?thesis
      by (rule triple_weaken) (auto simp: observed_def)
  qed
  show ?thesis
    unfolding replace_regular_exact_unix_def read_regular_for_transition_def t_def [symmetric]
    by (rule triple_bind [OF read_observed], intro triple_if triple_throw)
      (use inst observed_sync [OF wf] observed_safe in auto)
qed

text \<open>What both replacement protocols guarantee, from their triples.\<close>

lemma replacement_guarantee:
  assumes wf: "fs_wf s" and t: "triple (untouched s temp name) m
      (\<lambda>_. holds_exactly ok s temp name bs) (safe_publish ok s temp name bs)"
    and run: "m s = (r, s')"
  shows "(\<forall>x. may_find s' name x \<longrightarrow> may_find s name x \<or> x = Some bs \<and> ok)
    \<and> (fs_dir s' name = fs_dir s name \<or> ok \<and> contents s' name = Some bs)
    \<and> (r = Inr () \<longrightarrow> contents s' name = Some bs)
    \<and> (r = Inr () \<and> flushed s name \<longrightarrow> (\<forall>x. may_find s' name x \<longleftrightarrow> x = Some bs))"
proof -
  have res: "r = Inr () \<Longrightarrow> holds_exactly ok s temp name bs s'"
    using tripleD [OF t untouched_start [OF wf]] run by auto
  have safe: "safe_publish ok s temp name bs s'"
    using tripleD [OF t untouched_start [OF wf]] tripleE [OF t untouched_start [OF wf]] run holds_safe
    by (cases r) auto
  have "fs_dir s' name = fs_dir s name \<or> ok \<and> contents s' name = Some bs"
    using safe by (auto simp: safe_publish_def old_name_def new_name_def fresh_file_def contents_def file_bytes_def)
  then show ?thesis
    using may_find_safe [OF wf safe] res holds_contents holds_durable [OF wf] by blast
qed

text \<open>
  C32. Replacing an authority is atomic under every outcome, a power loss included: the name reveals
  what it could reveal before or exactly the replacement, the replacement only if the name held the
  expected bytes; success means the name holds it, durably if the entry found there had been flushed.
\<close>

theorem replace_regular_exact_safe:
  assumes wf: "fs_wf s" and temp: "temp_name uuid \<noteq> name"
    and run: "replace_regular_exact_unix uuid name expected replacement s = (r, s')"
  shows "(\<forall>x. may_find s' name x \<longrightarrow> may_find s name x \<or> x = Some replacement \<and> contents s name = Some expected)
    \<and> (fs_dir s' name = fs_dir s name \<or> contents s name = Some expected \<and> contents s' name = Some replacement)
    \<and> (r = Inr () \<longrightarrow> contents s' name = Some replacement)
    \<and> (r = Inr () \<and> flushed s name \<longrightarrow> (\<forall>x. may_find s' name x \<longleftrightarrow> x = Some replacement))"
  by (rule replacement_guarantee [OF wf replace_triple [OF temp wf refl] run])

text \<open>The same for the transition of a fixed file from the observed bytes (or from absence, which
  never replaces an entry that appeared meanwhile).
\<close>

theorem transition_regular_exact_safe:
  assumes wf: "fs_wf s" and temp: "temp_name uuid \<noteq> name"
    and run: "transition_regular_exact uuid name expected replacement s = (r, s')"
    and ok: "ok = (case expected of Some e \<Rightarrow> contents s name = Some e | None \<Rightarrow> fs_dir s name = None)"
  shows "(\<forall>x. may_find s' name x \<longrightarrow> may_find s name x \<or> x = Some replacement \<and> ok)
    \<and> (fs_dir s' name = fs_dir s name \<or> ok \<and> contents s' name = Some replacement)
    \<and> (r = Inr () \<longrightarrow> contents s' name = Some replacement)
    \<and> (r = Inr () \<and> flushed s name \<longrightarrow> (\<forall>x. may_find s' name x \<longleftrightarrow> x = Some replacement))"
  by (rule replacement_guarantee [OF wf transition_triple [OF temp wf ok] run])

section \<open>Batches\<close>

text \<open>What one staged publication leaves: the name holds the bytes, other names are as before.\<close>

definition staged_name :: "fsys \<Rightarrow> bytes \<Rightarrow> bytes \<Rightarrow> bytes \<Rightarrow> fsys \<Rightarrow> bool" where
  "staged_name s0 temp name bs s \<longleftrightarrow> others s0 temp name s
     \<and> (fs_dir s0 name \<noteq> None \<longrightarrow> fs_dir s name = fs_dir s0 name)
     \<and> (\<exists>i. fs_dir s name = Some (RegularFile i) \<and> file_bytes s i = bs)"

definition keeps_others :: "fsys \<Rightarrow> bytes \<Rightarrow> bytes \<Rightarrow> fsys \<Rightarrow> bool" where
  "keeps_others s0 temp name s \<longleftrightarrow> others s0 temp name s
     \<and> (fs_dir s0 name \<noteq> None \<longrightarrow> fs_dir s name = fs_dir s0 name)"

lemma of_files_staged_name [files]: "of_files (staged_name s0 temp name bs)" "of_files (keeps_others s0 temp name)"
  by (simp_all add: of_files_def staged_name_def keeps_others_def others_def fs_wf_def file_bytes_def)

lemma rename_staged:
  assumes "temp \<noteq> name"
  shows "triple (staged s0 temp name \<lparr>in_bytes = bs, in_durable = d\<rparr>) (rename_noreplace temp name)
    (\<lambda>_. staged_name s0 temp name bs) (keeps_others s0 temp name)"
  unfolding rename_noreplace_def
  by (rule triple_syscall)
    (use assms in \<open>auto simp: files staged_name_def keeps_others_def staged_def old_name_def fresh_file_def file_bytes_def
       intro!: others_set_entry\<close>)

lemma stage_triple:
  assumes temp: "temp_name uuid \<noteq> name" and wf: "fs_wf s0"
  shows "triple (untouched s0 (temp_name uuid) name) (stage_immutable_unflushed uuid name bs)
    (\<lambda>_. staged_name s0 (temp_name uuid) name bs) (keeps_others s0 (temp_name uuid) name)"
proof -
  define t where "t = temp_name uuid"
  note step = triple_bind [OF triple_lift]
  have safe: "safe_publish False s0 t name bs s \<Longrightarrow> keeps_others s0 t name s" for s
    by (simp add: safe_publish_def new_name_def keeps_others_def old_name_def)
  have st: "staged s0 t name ino s \<Longrightarrow> keeps_others s0 t name s" for ino s
    by (simp add: staged_def keeps_others_def old_name_def)
  have verify: "triple (keeps_others s0 t name) (fs_bind (verify_existing name bs) (\<lambda>_. fs_return True))
      (\<lambda>_. staged_name s0 t name bs) (keeps_others s0 t name)"
    by (rule triple_bind [OF verify_existing_triple], intro files, intro triple_return)
      (auto simp: keeps_others_def staged_name_def)
  have body: "triple (staged s0 t name \<lparr>in_bytes = bs, in_durable = []\<rparr>)
      (with_cleanup t (catch_fs (rename_noreplace t name)
            (\<lambda>e. if error_kind e = AlreadyExists
                 then fs_bind (verify_existing name bs) (\<lambda>_. fs_return True)
                 else fs_throw (FsIo e))
            (\<lambda>_. fs_return False)))
      (\<lambda>_. staged_name s0 t name bs) (keeps_others s0 t name)"
  proof (rule cleanup_triple)
    show "triple (staged s0 t name \<lparr>in_bytes = bs, in_durable = []\<rparr>)
      (catch_fs (rename_noreplace t name)
            (\<lambda>e. if error_kind e = AlreadyExists
                 then fs_bind (verify_existing name bs) (\<lambda>_. fs_return True)
                 else fs_throw (FsIo e))
            (\<lambda>_. fs_return False))
      (\<lambda>_. staged_name s0 t name bs) (keeps_others s0 t name)"
      by (rule triple_catch [OF rename_staged])
        (use temp in \<open>auto simp: t_def intro!: triple_return triple_throw verify [unfolded t_def]\<close>)
  qed (use temp in \<open>auto simp: files t_def staged_name_def keeps_others_def file_bytes_def intro!: others_set_entry\<close>)
  have rest: "triple (\<lambda>s. i = fs_next s0 \<and> staged s0 t name \<lparr>in_bytes = [], in_durable = []\<rparr> s)
      (fs_bind (lift_io (sys_append i bs)) (\<lambda>_. with_cleanup t (catch_fs (rename_noreplace t name)
            (\<lambda>e. if error_kind e = AlreadyExists
                 then fs_bind (verify_existing name bs) (\<lambda>_. fs_return True)
                 else fs_throw (FsIo e))
            (\<lambda>_. fs_return False))))
      (\<lambda>_. staged_name s0 t name bs) (keeps_others s0 t name)" for i
  proof (cases "i = fs_next s0")
    case True
    have app: "triple (staged s0 t name \<lparr>in_bytes = [], in_durable = []\<rparr>) (sys_append (fs_next s0) bs)
        (\<lambda>_. staged s0 t name \<lparr>in_bytes = bs, in_durable = []\<rparr>) (keeps_others s0 t name)"
      by (rule triple_weaken [OF append_triple [OF refl, where ok = False and bs' = bs]]) (auto intro: safe)
    show ?thesis
      unfolding True simp_thms by (rule step [OF app body])
  qed (simp add: triple_def)
  have create: "triple (untouched s0 t name) (sys_create t)
      (\<lambda>i s. i = fs_next s0 \<and> staged s0 t name \<lparr>in_bytes = [], in_durable = []\<rparr> s) (keeps_others s0 t name)"
    unfolding untouched_def
    by (rule triple_weaken [OF create_triple [OF temp [folded t_def] wf, where ok = False and bs = bs]])
      (auto intro: safe)
  show ?thesis
    unfolding stage_immutable_unflushed_def t_def [symmetric] by (rule step [OF create rest])
qed

text \<open>Publishing the items of a batch in order.\<close>

fun publish_all ::
  "(bytes \<times> bytes \<times> bytes) list \<Rightarrow> publication_batch \<Rightarrow> publication_batch fs" where
  "publish_all [] b = fs_return b"
| "publish_all ((uuid, name, bs) # items) b = fs_bind (batch_publish uuid name bs b) (publish_all items)"

lemma staged_keeps:
  assumes "fs_wf s0" "staged_name s0 temp name bs s" "contents s0 n = Some c" "n \<noteq> temp"
  shows "contents s n = Some c"
proof -
  from assms(3) obtain i where i: "fs_dir s0 n = Some (RegularFile i)" "file_bytes s0 i = c"
    by (auto simp: contents_def split: option.splits dir_entry.splits)
  then have "i < fs_next s0" using assms(1) by (metis wf_inode wf_live)
  moreover have "fs_dir s n = Some (RegularFile i)"
    using assms(2,4) i(1) by (cases "n = name") (auto simp: staged_name_def others_def)
  ultimately show ?thesis
    using assms(2) i(2) by (simp add: contents_def file_bytes_def staged_name_def others_def)
qed

lemma batch_publish_ok:
  assumes wf: "fs_wf s" and temp: "temp_name uuid \<noteq> name" and run: "batch_publish uuid name bs b s = (Inr b', s')"
  shows "staged_name s (temp_name uuid) name bs s' \<and> publications b' = saturating_succ (publications b)"
proof -
  from run obtain x where "stage_immutable_unflushed uuid name bs s = (Inr x, s')"
    "publications b' = saturating_succ (publications b)"
    by (auto simp: batch_publish_def fs_bind_def fs_return_def split: prod.splits sum.splits)
  then show ?thesis using tripleD [OF stage_triple [OF temp wf] untouched_start [OF wf]] by simp
qed

text \<open>No temporary name of the batch is \<open>n\<close>.\<close>

definition avoids :: "(bytes \<times> bytes \<times> bytes) list \<Rightarrow> bytes \<Rightarrow> bool" where
  "avoids items n \<longleftrightarrow> (\<forall>item \<in> set items. temp_name (fst item) \<noteq> n)"

lemma publish_all_contents:
  "fs_wf s \<Longrightarrow> publish_all items b s = (Inr b', s')
   \<Longrightarrow> \<forall>item \<in> set items. avoids items (fst (snd item))
   \<Longrightarrow> fs_wf s'
     \<and> (\<forall>item \<in> set items. contents s' (fst (snd item)) = Some (snd (snd item)))
     \<and> (\<forall>n c. contents s n = Some c \<and> avoids items n \<longrightarrow> contents s' n = Some c)"
proof (induction items arbitrary: s b)
  case Nil
  then show ?case by (simp add: fs_return_def)
next
  case (Cons item items)
  obtain uuid name bs where item: "item = (uuid, name, bs)" using prod_cases3 by blast
  from Cons.prems(2) obtain b1 s1 where step: "batch_publish uuid name bs b s = (Inr b1, s1)"
    and rest: "publish_all items b1 s1 = (Inr b', s')"
    by (auto simp: item fs_bind_def split: prod.splits sum.splits)
  have temp: "temp_name uuid \<noteq> name" "avoids items name" "\<forall>item \<in> set items. avoids items (fst (snd item))"
    using Cons.prems(3) item by (auto simp: avoids_def)
  have st: "staged_name s (temp_name uuid) name bs s1"
    using batch_publish_ok [OF Cons.prems(1) temp(1) step] by simp
  have wf1: "fs_wf s1" using st by (simp add: staged_name_def others_def)
  have here: "contents s1 name = Some bs" using st by (auto simp: staged_name_def contents_def)
  note ih = Cons.IH [OF wf1 rest temp(3)]
  have "contents s' n = Some c" if "contents s n = Some c" "avoids (item # items) n" for n c
    using ih staged_keeps [OF Cons.prems(1) st that(1)] that(2) item by (auto simp: avoids_def)
  then show ?case using ih here temp(2) item by auto
qed

text \<open>
  C33. A finished batch is durable: when every publication of the batch and its final barrier
  succeeded, each published name holds exactly its bytes, and nothing else after a power loss.
\<close>

theorem batch_finish_durable:
  assumes "fs_wf s" and "publish_all items batch_new s = (Inr b, s1)" and "batch_finish b s1 = (Inr b', s')"
    and "\<forall>item \<in> set items. avoids items (fst (snd item))" and "(uuid, name, bs) \<in> set items"
  shows "contents s' name = Some bs \<and> (\<forall>x. may_find s' name x \<longleftrightarrow> x = Some bs)"
proof -
  have c: "contents s1 name = Some bs"
    using publish_all_contents [OF assms(1,2,4)] assms(5) by force
  have s': "fs_dir s' = fs_dir s1 \<and> fs_maybe s' = (\<lambda>n. [fs_dir s1 n])
      \<and> fs_inodes s' = (\<lambda>i. (fs_inodes s1 i)\<lparr>in_durable := file_bytes s1 i\<rparr>)"
    using assms(3)
    by (auto simp: batch_finish_def fs_bind_def fs_return_def lift_io_def flush_exact_batch_def sys_open_dot_def
        sys_syncfs_def syscall_part_def file_bytes_def split: prod.splits sum.splits if_splits list.splits outcome.splits)
  from c obtain i where "fs_dir s1 name = Some (RegularFile i)" "file_bytes s1 i = bs"
    by (auto simp: contents_def split: option.splits dir_entry.splits)
  then show ?thesis
    using s' by (auto simp: contents_def may_find_def survives_def file_bytes_def split: option.splits)
qed

section \<open>Publishing over an unflushed file\<close>

lemma syscall_ok: "fs_outcomes s = [] \<Longrightarrow> \<not> fs_crashed s \<Longrightarrow> syscall_part part act s = act s"
  by (simp add: syscall_part_def)

lemma read_back:
  assumes "fs_outcomes s = []" "\<not> fs_crashed s" "fs_dir s name = Some (RegularFile i)" "file_bytes s i = bs"
    "length bs < 2 ^ 64 - 1"
  shows "verify_existing name bs s = (Inr (), s)"
  using assms
  by (simp add: verify_existing_def read_required_regular_def read_optional_regular_def read_opened_def
      sys_symlink_metadata_def open_file_nofollow_def sys_metadata_def sys_read_to_end_def catch_fs_def fs_bind_def
      lift_io_def fs_return_def fs_throw_def syscall_ok saturating_succ_def min_def)

text \<open>
  C38. An immutable publication that finds its exact bytes under the name returns success without
  flushing them: after a staged but never finished batch publication, the file behind the acknowledged
  name may still be empty after a power loss.
\<close>

theorem publish_over_unflushed:
  assumes "fs_outcomes s = []" "\<not> fs_crashed s" "fs_dir s name = None"
    "fs_dir s (temp_name u1) = None" "fs_dir s (temp_name u2) = None"
    "temp_name u1 \<noteq> name" "temp_name u2 \<noteq> name" "u1 \<noteq> u2" "bs \<noteq> []" "length bs < 2 ^ 64 - 1"
    and stage: "stage_immutable_unflushed u1 name bs s = (r1, s1)"
    and publish: "publish_immutable_exact u2 name bs s1 = (r2, s2)"
  shows "r1 = Inr False \<and> r2 = Inr () \<and> contents s2 name = Some bs \<and> may_find s2 name (Some [])"
proof -
  have u: "temp_name u1 \<noteq> temp_name u2" using assms(8) by (simp add: temp_name_def)
  have s1: "r1 = Inr False" "fs_outcomes s1 = []" "\<not> fs_crashed s1"
    "fs_dir s1 = (fs_dir s)(temp_name u1 := None, name := Some (RegularFile (fs_next s)))"
    "fs_next s1 = fs_next s + 1" "fs_inodes s1 (fs_next s) = \<lparr>in_bytes = bs, in_durable = []\<rparr>"
    using stage assms(1-7)
    by (auto simp: stage_immutable_unflushed_def sys_create_def sys_append_def rename_noreplace_def sys_remove_def
        with_cleanup_def catch_fs_def fs_bind_def lift_io_def fs_return_def syscall_ok set_entry_def put_bytes_def
        file_bytes_def fun_upd_twist)
  have d2: "fs_dir s1 (temp_name u2) = None" "fs_dir s1 name = Some (RegularFile (fs_next s))"
    using s1(4) assms(5-7) u by auto
  have pub: "r2 = Inr () \<and> fs_dir s2 = fs_dir s1 \<and> fs_maybe s2 name = [fs_dir s1 name]
      \<and> fs_inodes s2 (fs_next s) = fs_inodes s1 (fs_next s)"
    using publish s1(2,3,5,6) d2 assms(6,7,10)
    by (auto simp: publish_immutable_exact_def sys_create_def sys_append_def sys_sync_file_def rename_noreplace_def sys_remove_def
        with_cleanup_def catch_fs_def fs_bind_def lift_io_def fs_return_def syscall_ok set_entry_def put_bytes_def
        file_bytes_def sync_dir_required_def sys_open_dot_def sys_sync_dir_def
        read_back [of _ name "fs_next s"] fun_upd_idem_iff split: if_splits)
  then show ?thesis
    using s1 d2 assms(9) by (auto simp: contents_def may_find_def survives_def file_bytes_def)
qed

section \<open>Concrete instances\<close>

definition demo_file :: bytes where "demo_file = [0x61]"

definition empty_dir :: "outcome list \<Rightarrow> fsys" where
  "empty_dir os = \<lparr>fs_inodes = (\<lambda>_. \<lparr>in_bytes = [], in_durable = []\<rparr>), fs_next = 0, fs_dir = Map.empty,
     fs_maybe = (\<lambda>_. [None]), fs_outcomes = os, fs_crashed = False\<rparr>"

definition one_file :: "bytes \<Rightarrow> outcome list \<Rightarrow> fsys" where
  "one_file bs os = \<lparr>fs_inodes = (\<lambda>_. \<lparr>in_bytes = bs, in_durable = bs\<rparr>), fs_next = 1,
     fs_dir = [demo_file \<mapsto> RegularFile 0], fs_maybe = (\<lambda>n. if n = demo_file then [Some (RegularFile 0)] else [None]),
     fs_outcomes = os, fs_crashed = False\<rparr>"

lemma empty_dir_wf: "fs_wf (empty_dir os)" and one_file_wf: "fs_wf (one_file bs os)"
  by (auto simp: fs_wf_def empty_dir_def one_file_def)

lemma demo_temp: "temp_name u \<noteq> demo_file"
  by (simp add: temp_name_def demo_file_def)

lemmas fs_run = publish_immutable_exact_def replace_regular_exact_unix_def transition_regular_exact_def
  read_regular_for_transition_def stage_immutable_unflushed_def
  sys_create_def sys_append_def sys_sync_file_def rename_noreplace_def sys_rename_def sys_remove_def
  sync_dir_required_def sys_open_dot_def sys_sync_dir_def verify_existing_def read_required_regular_def
  read_optional_regular_def read_opened_def sys_symlink_metadata_def open_file_nofollow_def sys_metadata_def
  sys_read_to_end_def with_cleanup_def catch_fs_def fs_bind_def lift_io_def fs_return_def fs_throw_def
  syscall_part_def set_entry_def put_bytes_def file_bytes_def saturating_succ_def

lemma demo_publish:
  "fst (publish_immutable_exact [1] demo_file [7, 8] (empty_dir [])) = Inr ()"
  using demo_temp [of "[1]"] by (simp add: fs_run empty_dir_def)

theorem publish_immutable_exact_safe_witness:
  "contents (snd (publish_immutable_exact [1] demo_file [7, 8] (empty_dir []))) demo_file = Some [7, 8]
   \<and> \<not> may_find (snd (publish_immutable_exact [1] demo_file [7, 8] (empty_dir []))) demo_file None"
proof -
  have "publish_immutable_exact [1] demo_file [7, 8] (empty_dir [])
      = (Inr (), snd (publish_immutable_exact [1] demo_file [7, 8] (empty_dir [])))"
    using demo_publish by (metis prod.collapse)
  from publish_immutable_exact_safe [OF empty_dir_wf demo_temp this] show ?thesis
    by (simp add: flushed_def empty_dir_def)
qed

lemma demo_replace:
  "fst (replace_regular_exact_unix [1] demo_file [5] [7, 8] (one_file [5] [])) = Inr ()"
  "fst (transition_regular_exact [1] demo_file (Some [5, 6]) [7, 8] (one_file [5, 6] [])) = Inr ()"
  using demo_temp [of "[1]"] by (simp_all add: fs_run one_file_def)

theorem replace_regular_exact_safe_witness:
  "contents (snd (replace_regular_exact_unix [1] demo_file [5] [7, 8] (one_file [5] []))) demo_file = Some [7, 8]
   \<and> \<not> may_find (snd (replace_regular_exact_unix [1] demo_file [5] [7, 8] (one_file [5] []))) demo_file (Some [5])"
proof -
  have "replace_regular_exact_unix [1] demo_file [5] [7, 8] (one_file [5] [])
      = (Inr (), snd (replace_regular_exact_unix [1] demo_file [5] [7, 8] (one_file [5] [])))"
    using demo_replace(1) by (metis prod.collapse)
  from replace_regular_exact_safe [OF one_file_wf demo_temp this] show ?thesis
    by (simp add: flushed_def one_file_def)
qed

theorem transition_regular_exact_safe_witness:
  "contents (snd (transition_regular_exact [1] demo_file (Some [5, 6]) [7, 8] (one_file [5, 6] []))) demo_file = Some [7, 8]
   \<and> \<not> may_find (snd (transition_regular_exact [1] demo_file (Some [5, 6]) [7, 8] (one_file [5, 6] []))) demo_file (Some [5, 6])"
proof -
  have "transition_regular_exact [1] demo_file (Some [5, 6]) [7, 8] (one_file [5, 6] [])
      = (Inr (), snd (transition_regular_exact [1] demo_file (Some [5, 6]) [7, 8] (one_file [5, 6] [])))"
    using demo_replace(2) by (metis prod.collapse)
  from transition_regular_exact_safe [OF one_file_wf demo_temp this refl] show ?thesis
    by (simp add: flushed_def one_file_def)
qed

lemma demo_batch:
  "\<exists>b s1 b' s'. publish_all [([1], demo_file, [7, 8])] batch_new (empty_dir []) = (Inr b, s1)
     \<and> batch_finish b s1 = (Inr b', s')"
  using demo_temp [of "[1]"]
  by (simp add: fs_run empty_dir_def batch_publish_def batch_finish_def flush_exact_batch_def sys_syncfs_def)

theorem batch_finish_durable_witness:
  "\<exists>b s1 b' s'. publish_all [([1], demo_file, [7, 8])] batch_new (empty_dir []) = (Inr b, s1)
     \<and> batch_finish b s1 = (Inr b', s') \<and> contents s' demo_file = Some [7, 8] \<and> \<not> may_find s' demo_file (Some [])"
proof -
  obtain b s1 b' s' where r: "publish_all [([1], demo_file, [7, 8])] batch_new (empty_dir []) = (Inr b, s1)"
    "batch_finish b s1 = (Inr b', s')"
    using demo_batch by blast
  from batch_finish_durable [OF empty_dir_wf r, of "[1]" demo_file "[7, 8]"] r show ?thesis
    by (auto simp: avoids_def demo_temp)
qed

theorem publish_over_unflushed_witness:
  "may_find (snd (publish_immutable_exact [2] demo_file [7, 8]
     (snd (stage_immutable_unflushed [1] demo_file [7, 8] (empty_dir []))))) demo_file (Some [])"
  using publish_over_unflushed [of "empty_dir []" demo_file "[1]" "[2]" "[7, 8]", OF _ _ _ _ _ _ _ _ _ _
      prod.collapse [symmetric] prod.collapse [symmetric]]
  by (simp add: demo_temp empty_dir_def)

end
