(* ===== verification/Local_Journal.thy ===== *)
theory Local_Journal
  imports Content_Digest
begin

text \<open>
  \<open>src/local_journal.rs\<close>: the checksummed journal frame and the append-only per-device segment
  that stores frames (protocol v1): frame codec, recovery scan, open, append and replay.

  The environment \<open>journal_env\<close> carries what is not in the repository: SHA-256, the \<open>postcard\<close>
  serializer of the frame header (with the product's payload kind \<open>'k\<close>) and the text of a UUID.
  Every operating-system call the code makes can fail; its outcome is an argument
  (\<open>open_os\<close>, \<open>append_io\<close>, the read-fault map \<open>rd\<close>), so each early return is a branch.

  The segment's file handle is modelled with its cursor, because \<open>try_clone\<close> duplicates the
  descriptor and the clone shares the offset \<open>append\<close> writes at.
\<close>

section \<open>Constants and data\<close>

definition LOCAL_JOURNAL_FRAME_SCHEMA_VERSION :: u32 where "LOCAL_JOURNAL_FRAME_SCHEMA_VERSION = 1"
definition MAX_LOCAL_JOURNAL_FRAME_BYTES :: nat where "MAX_LOCAL_JOURNAL_FRAME_BYTES = 64 * 1024 * 1024"
definition MAX_LOCAL_JOURNAL_FRAME_HEADER_BYTES :: nat where "MAX_LOCAL_JOURNAL_FRAME_HEADER_BYTES = 4 * 1024"
definition MAX_LOCAL_JOURNAL_SEGMENT_BYTES :: nat where "MAX_LOCAL_JOURNAL_SEGMENT_BYTES = 4 * 1024 * 1024 * 1024"
definition FRAME_MAGIC :: bytes where "FRAME_MAGIC = [0x54, 0x49, 0x4e, 0x45, 0x4a, 0x52, 0x4e, 0x31]"
definition FRAME_CHECKSUM_BYTES :: nat where "FRAME_CHECKSUM_BYTES = 32"
definition FRAME_PREFIX_BYTES :: nat where "FRAME_PREFIX_BYTES = 8 + 4 + 8"
definition MIN_FRAME_BYTES :: nat where "MIN_FRAME_BYTES = FRAME_PREFIX_BYTES + FRAME_CHECKSUM_BYTES"
definition SEGMENT_SCAN_BUFFER_BYTES :: nat where "SEGMENT_SCAN_BUFFER_BYTES = 64 * 1024"
definition SEGMENT_OPEN_ATTEMPTS :: nat where "SEGMENT_OPEN_ATTEMPTS = 8"

lemmas journal_limits = MAX_LOCAL_JOURNAL_FRAME_BYTES_def MAX_LOCAL_JOURNAL_FRAME_HEADER_BYTES_def
  FRAME_CHECKSUM_BYTES_def FRAME_PREFIX_BYTES_def MIN_FRAME_BYTES_def

datatype local_journal_error =
    JournalIo string
  | JournalEncode string
  | JournalDecode string
  | InvalidFrameMagic
  | JournalLengthOverflow
  | FrameTooLarge nat
  | FrameHeaderTooLarge nat
  | TruncatedFrame
  | FrameLengthMismatch nat nat
  | FrameChecksumMismatch
  | NonCanonicalFrameHeader
  | PayloadDigestMismatch
  | UnknownFrameSchemaVersion u32 u32
  | UnsafeSegmentName bytes
  | AmbiguousLegacySuffix nat nat
  | UnsupportedDurableReplacement
  | PreparedArtifactExists bytes
  | SegmentAlreadyOpen bytes
  | SegmentTooLarge nat
  | CorruptSegment nat string
  | SegmentDeviceMismatch nat uuid uuid
  | SegmentSequenceGap nat u64 u64
  | SequenceExhausted
  | SegmentPoisoned

text \<open>The \<open>Display\<close> of the error; names are printed byte by byte.\<close>

fun journal_error_text :: "(uuid \<Rightarrow> string) \<Rightarrow> local_journal_error \<Rightarrow> string" where
  "journal_error_text U (JournalIo e) = ''local journal I/O failure: '' @ e"
| "journal_error_text U (JournalEncode e) = ''local journal encode failure: '' @ e"
| "journal_error_text U (JournalDecode e) = ''local journal decode failure: '' @ e"
| "journal_error_text U InvalidFrameMagic = ''local journal frame magic is invalid''"
| "journal_error_text U JournalLengthOverflow = ''local journal frame length overflows''"
| "journal_error_text U (FrameTooLarge n) =
     ''local journal frame is too large: '' @ show_nat n @ '' bytes''"
| "journal_error_text U (FrameHeaderTooLarge n) =
     ''local journal frame header is too large: '' @ show_nat n @ '' bytes''"
| "journal_error_text U TruncatedFrame = ''local journal frame is truncated''"
| "journal_error_text U (FrameLengthMismatch e a) =
     ''local journal frame length mismatch: expected '' @ show_nat e @ '', got '' @ show_nat a"
| "journal_error_text U FrameChecksumMismatch = ''local journal frame checksum mismatch''"
| "journal_error_text U NonCanonicalFrameHeader = ''local journal frame header is not canonical''"
| "journal_error_text U PayloadDigestMismatch = ''local journal frame payload digest mismatch''"
| "journal_error_text U (UnknownFrameSchemaVersion e f) =
     ''unknown local journal frame schema '' @ show_nat (unat f) @ ''; expected '' @ show_nat (unat e)"
| "journal_error_text U (UnsafeSegmentName n) =
     ''unsafe local journal segment name: '' @ text_of_bytes n"
| "journal_error_text U (AmbiguousLegacySuffix off n) =
     ''legacy local journal has an ambiguous '' @ show_nat n @ ''-byte suffix at offset '' @ show_nat off"
| "journal_error_text U UnsupportedDurableReplacement =
     ''durable local-journal frontier replacement is unsupported on this target''"
| "journal_error_text U (PreparedArtifactExists n) =
     ''local-journal preparation artifact already exists: '' @ text_of_bytes n"
| "journal_error_text U (SegmentAlreadyOpen n) =
     ''local journal segment '' @ text_of_bytes n @ '' is already open elsewhere''"
| "journal_error_text U (SegmentTooLarge n) =
     ''local journal segment is too large: '' @ show_nat n @ '' bytes''"
| "journal_error_text U (CorruptSegment off c) =
     ''local journal segment is corrupt at offset '' @ show_nat off @ '': '' @ c"
| "journal_error_text U (SegmentDeviceMismatch off e f) =
     ''local journal frame at offset '' @ show_nat off @ '' belongs to device '' @ U f @ '', not '' @ U e"
| "journal_error_text U (SegmentSequenceGap off e f) =
     ''local journal sequence gap at offset '' @ show_nat off @ '': expected '' @ show_nat (unat e)
       @ '', found '' @ show_nat (unat f)"
| "journal_error_text U SequenceExhausted = ''local journal device sequence is exhausted''"
| "journal_error_text U SegmentPoisoned =
     ''local journal segment must be reopened after a failed append''"

record 'k frame_header =
  fh_schema_version :: u32
  fh_device_id :: uuid
  fh_sequence :: u64
  fh_payload_kind :: 'k
  fh_payload_digest :: digest

record 'k journal_frame =
  fr_device_id :: uuid
  fr_sequence :: u64
  fr_payload_kind :: 'k
  fr_payload :: bytes

record 'k journal_env =
  env_sha256 :: hash
  env_header :: "'k frame_header serializer"
  env_uuid_text :: "uuid \<Rightarrow> string"

record frame_extent =
  ex_header_len :: nat
  ex_total :: nat

section \<open>Frame codec\<close>

definition frame_total :: "nat \<Rightarrow> nat \<Rightarrow> local_journal_error + nat" where
  "frame_total header_len payload_len =
     ok_or JournalLengthOverflow
       (Option.bind (checked_add FRAME_PREFIX_BYTES header_len) (\<lambda>n.
        Option.bind (checked_add n payload_len) (\<lambda>n. checked_add n FRAME_CHECKSUM_BYTES)))"

definition extent_parse :: "bytes \<Rightarrow> local_journal_error + frame_extent" where
  "extent_parse prefix =
     (if range_of 0 8 prefix \<noteq> FRAME_MAGIC then Inl InvalidFrameMagic
      else let header_len = unat (of_be32 (range_of 8 12 prefix)) in
        if header_len > MAX_LOCAL_JOURNAL_FRAME_HEADER_BYTES
        then Inl (FrameHeaderTooLarge header_len)
        else let payload_len = unat (of_be64 (range_of 12 FRAME_PREFIX_BYTES prefix)) in
          bind_res (frame_total header_len payload_len) (\<lambda>total.
            if total > MAX_LOCAL_JOURNAL_FRAME_BYTES then Inl (FrameTooLarge total)
            else Inr \<lparr>ex_header_len = header_len, ex_total = total\<rparr>))"

definition header_for :: "'k journal_env \<Rightarrow> uuid \<Rightarrow> u64 \<Rightarrow> 'k \<Rightarrow> bytes \<Rightarrow> 'k frame_header" where
  "header_for E device seq kind payload =
     \<lparr>fh_schema_version = LOCAL_JOURNAL_FRAME_SCHEMA_VERSION, fh_device_id = device,
      fh_sequence = seq, fh_payload_kind = kind, fh_payload_digest = env_sha256 E payload\<rparr>"

definition encode_frame ::
  "'k journal_env \<Rightarrow> uuid \<Rightarrow> u64 \<Rightarrow> 'k \<Rightarrow> bytes \<Rightarrow> local_journal_error + bytes" where
  "encode_frame E device seq kind payload =
     bind_res (map_err JournalEncode (to_vec (env_header E) (header_for E device seq kind payload)))
       (\<lambda>header.
         if length header > MAX_LOCAL_JOURNAL_FRAME_HEADER_BYTES
         then Inl (FrameHeaderTooLarge (length header))
         else bind_res (frame_total (length header) (length payload)) (\<lambda>total.
           if total > MAX_LOCAL_JOURNAL_FRAME_BYTES then Inl (FrameTooLarge total)
           else let body = FRAME_MAGIC @ be32 (word_of_nat (length header))
                      @ be64 (word_of_nat (length payload)) @ header @ payload
                in Inr (body @ array_bytes (env_sha256 E body))))"

definition frame_encode :: "'k journal_env \<Rightarrow> 'k journal_frame \<Rightarrow> local_journal_error + bytes" where
  "frame_encode E f =
     encode_frame E (fr_device_id f) (fr_sequence f) (fr_payload_kind f) (fr_payload f)"

definition frame_decode :: "'k journal_env \<Rightarrow> bytes \<Rightarrow> local_journal_error + 'k journal_frame" where
  "frame_decode E bs =
     (if length bs > MAX_LOCAL_JOURNAL_FRAME_BYTES then Inl (FrameTooLarge (length bs))
      else if length bs < MIN_FRAME_BYTES then Inl TruncatedFrame
      else bind_res (extent_parse (take FRAME_PREFIX_BYTES bs)) (\<lambda>extent.
        if ex_total extent \<noteq> length bs
        then Inl (FrameLengthMismatch (ex_total extent) (length bs))
        else let body = ex_total extent - FRAME_CHECKSUM_BYTES in
          if drop body bs \<noteq> array_bytes (env_sha256 E (take body bs)) then Inl FrameChecksumMismatch
          else let header_bytes =
                 range_of FRAME_PREFIX_BYTES (FRAME_PREFIX_BYTES + ex_header_len extent) bs in
            bind_res (map_err JournalDecode (from_slice (env_header E) header_bytes)) (\<lambda>header.
              if fh_schema_version header \<noteq> LOCAL_JOURNAL_FRAME_SCHEMA_VERSION
              then Inl (UnknownFrameSchemaVersion LOCAL_JOURNAL_FRAME_SCHEMA_VERSION
                     (fh_schema_version header))
              else bind_res (map_err JournalEncode (to_vec (env_header E) header)) (\<lambda>canonical.
                if canonical \<noteq> header_bytes then Inl NonCanonicalFrameHeader
                else let payload =
                       range_of (FRAME_PREFIX_BYTES + ex_header_len extent) body bs in
                  if env_sha256 E payload \<noteq> fh_payload_digest header then Inl PayloadDigestMismatch
                  else Inr \<lparr>fr_device_id = fh_device_id header, fr_sequence = fh_sequence header,
                            fr_payload_kind = fh_payload_kind header, fr_payload = payload\<rparr>))))"

section \<open>The frame codec round-trips and is canonical\<close>

lemma length_FRAME_MAGIC [simp]: "length FRAME_MAGIC = 8"
  by (simp add: FRAME_MAGIC_def)

lemma frame_total_Inr:
  "frame_total h p = Inr n \<longleftrightarrow> n = 20 + h + p + 32 \<and> n < 2 ^ 64"
  by (auto simp: frame_total_def ok_or_Inr bind_eq_Some_conv checked_add_Some journal_limits)

text \<open>A frame without its checksum, and the whole frame.\<close>

abbreviation frame_body :: "bytes \<Rightarrow> bytes \<Rightarrow> bytes" where
  "frame_body \<equiv> envelope FRAME_MAGIC"

lemma encode_frame_Inr:
  "encode_frame E device seq kind payload = Inr bs \<longleftrightarrow>
     (\<exists>header. to_vec (env_header E) (header_for E device seq kind payload) = Inr header
        \<and> length header \<le> MAX_LOCAL_JOURNAL_FRAME_HEADER_BYTES
        \<and> 52 + length header + length payload \<le> MAX_LOCAL_JOURNAL_FRAME_BYTES
        \<and> bs = frame_body header payload @ array_bytes (env_sha256 E (frame_body header payload)))"
proof (cases "to_vec (env_header E) (header_for E device seq kind payload)")
  case (Inr header)
  show ?thesis
    unfolding encode_frame_def Inr map_err.simps bind_res.simps
    by (auto simp: bind_res_Inr frame_total_Inr envelope_def Let_def journal_limits)
qed (auto simp: encode_frame_def)

lemma encode_frame_length:
  "encode_frame E device seq kind payload = Inr bs \<Longrightarrow>
   52 \<le> length bs \<and> length bs \<le> MAX_LOCAL_JOURNAL_FRAME_BYTES"
  by (auto simp: encode_frame_Inr length_envelope)

lemma extent_parse_Inr:
  "extent_parse p = Inr x \<longleftrightarrow>
     range_of 0 8 p = FRAME_MAGIC
     \<and> unat (of_be32 (range_of 8 12 p)) = ex_header_len x
     \<and> ex_header_len x \<le> MAX_LOCAL_JOURNAL_FRAME_HEADER_BYTES
     \<and> ex_total x = 52 + ex_header_len x + unat (of_be64 (range_of 12 20 p))
     \<and> ex_total x \<le> MAX_LOCAL_JOURNAL_FRAME_BYTES"
  by (cases x)
    (auto simp: extent_parse_def bind_res_Inr frame_total_Inr Let_def journal_limits split: if_splits)

lemma extent_parse_total: "extent_parse p = Inr x \<Longrightarrow> 52 \<le> ex_total x"
  by (simp add: extent_parse_Inr)

lemma range_of_take [simp]: "hi \<le> n \<Longrightarrow> range_of lo hi (take n xs) = range_of lo hi xs"
  by (simp add: range_of_def drop_take min_def)

lemma extent_parse_frame:
  assumes "encode_frame E device seq kind payload = Inr bs"
  shows "\<exists>h. extent_parse (take 20 (bs @ rest)) = Inr \<lparr>ex_header_len = h, ex_total = length bs\<rparr>
    \<and> to_vec (env_header E) (header_for E device seq kind payload) = Inr (range_of 20 (20 + h) bs)
    \<and> range_of (20 + h) (length bs - 32) bs = payload
    \<and> drop (length bs - 32) bs = array_bytes (env_sha256 E (take (length bs - 32) bs))"
proof -
  from assms obtain header where h: "to_vec (env_header E) (header_for E device seq kind payload) = Inr header"
    "length header \<le> MAX_LOCAL_JOURNAL_FRAME_HEADER_BYTES"
    "52 + length header + length payload \<le> MAX_LOCAL_JOURNAL_FRAME_BYTES"
    "bs = frame_body header payload @ array_bytes (env_sha256 E (frame_body header payload))"
    by (auto simp: encode_frame_Inr)
  note f = envelope_fields [OF length_FRAME_MAGIC h(4)]
  have g: "range_of 0 8 (bs @ rest) = FRAME_MAGIC"
    "range_of 8 12 (bs @ rest) = be32 (word_of_nat (length header))"
    "range_of 12 20 (bs @ rest) = be64 (word_of_nat (length payload))"
    unfolding h(4) append_assoc
    by (rule envelope_fields(1-3) [OF length_FRAME_MAGIC refl])+
  have l: "unat (of_be32 (be32 (word_of_nat (length header)))) = length header"
    "unat (of_be64 (be64 (word_of_nat (length payload)))) = length payload"
    by (rule envelope_header_len envelope_payload_len; use h(2,3) in \<open>simp add: journal_limits\<close>)+
  have len: "length bs = 52 + length header + length payload"
    by (simp add: h(4) length_envelope)
  have g': "range_of lo hi (take 20 (bs @ rest)) = range_of lo hi (bs @ rest)" if "hi \<le> 20" for lo hi
    using that by (rule range_of_take)
  have "extent_parse (take 20 (bs @ rest)) = Inr \<lparr>ex_header_len = length header, ex_total = length bs\<rparr>"
    unfolding extent_parse_Inr
    using h(2,3) l g by (simp add: g' len del: of_be32_be32 of_be64_be64 take_append)
  moreover have "length bs - 32 = 20 + length header + length payload" using len by simp
  ultimately show ?thesis using h(1) f by (intro exI [of _ "length header"]) simp
qed

lemma frame_decode_encode:
  assumes "roundtrips (env_header E)" and "frame_encode E f = Inr bs"
  shows "frame_decode E bs = Inr f"
proof -
  have enc: "encode_frame E (fr_device_id f) (fr_sequence f) (fr_payload_kind f) (fr_payload f) = Inr bs"
    using assms(2) by (simp add: frame_encode_def)
  from extent_parse_frame [OF enc, of "[]"] obtain h where
    x: "extent_parse (take 20 bs) = Inr \<lparr>ex_header_len = h, ex_total = length bs\<rparr>"
    and hdr: "to_vec (env_header E) (header_for E (fr_device_id f) (fr_sequence f) (fr_payload_kind f) (fr_payload f))
        = Inr (range_of 20 (20 + h) bs)"
    and rest: "range_of (20 + h) (length bs - 32) bs = fr_payload f"
      "drop (length bs - 32) bs = array_bytes (env_sha256 E (take (length bs - 32) bs))"
    by auto
  from roundtripsD [OF assms(1) hdr] have dec: "from_slice (env_header E) (range_of 20 (20 + h) bs)
      = Inr (header_for E (fr_device_id f) (fr_sequence f) (fr_payload_kind f) (fr_payload f))" .
  have c: "FRAME_PREFIX_BYTES = 20" "FRAME_CHECKSUM_BYTES = 32" "MIN_FRAME_BYTES = 52"
    by (simp_all add: journal_limits)
  show ?thesis
    using encode_frame_length [OF enc] dec hdr
    by (simp add: frame_decode_def c x rest Let_def) (simp add: header_for_def)
qed

lemma frame_header_eta:
  "fh_schema_version x = v \<Longrightarrow>
   \<lparr>fh_schema_version = v, fh_device_id = fh_device_id x, fh_sequence = fh_sequence x,
    fh_payload_kind = fh_payload_kind x, fh_payload_digest = fh_payload_digest x\<rparr> = x"
  by (cases x) simp

lemma frame_decode_canonical:
  assumes "frame_decode E bs = Inr f"
  shows "frame_encode E f = Inr bs"
proof -
  have c: "FRAME_PREFIX_BYTES = 20" "FRAME_CHECKSUM_BYTES = 32" "MIN_FRAME_BYTES = 52"
    by (simp_all add: journal_limits)
  from assms obtain x where x: "extent_parse (take 20 bs) = Inr x" "ex_total x = length bs"
    by (auto simp: frame_decode_def c bind_res_Inr split: if_splits)
  define h where "h = ex_header_len x"
  from assms x have len: "length bs \<le> MAX_LOCAL_JOURNAL_FRAME_BYTES"
    and sum: "drop (length bs - 32) bs = array_bytes (env_sha256 E (take (length bs - 32) bs))"
    and hdr: "to_vec (env_header E) (header_for E (fr_device_id f) (fr_sequence f) (fr_payload_kind f) (fr_payload f))
      = Inr (range_of 20 (20 + h) bs)"
    and pay: "fr_payload f = range_of (20 + h) (length bs - 32) bs"
    by (auto simp: frame_decode_def c bind_res_Inr Let_def h_def header_for_def frame_header_eta
        split: if_splits)
  from x have fields: "range_of 0 8 bs = FRAME_MAGIC" "unat (of_be32 (range_of 8 12 bs)) = h"
    "h \<le> MAX_LOCAL_JOURNAL_FRAME_HEADER_BYTES"
    "length bs = 20 + h + unat (of_be64 (range_of 12 20 bs)) + 32"
    by (simp_all add: extent_parse_Inr h_def)
  have body: "take (length bs - 32) bs = frame_body (range_of 20 (20 + h) bs) (fr_payload f)"
  proof -
    have "length bs - 32 = 20 + h + unat (of_be64 (range_of 12 20 bs))" using fields(4) by linarith
    then show ?thesis
      using envelope_of_fields [OF fields(4) fields(2) refl] fields(1) pay by simp
  qed
  have "bs = take (length bs - 32) bs @ drop (length bs - 32) bs" by simp
  also have "\<dots> = frame_body (range_of 20 (20 + h) bs) (fr_payload f)
      @ array_bytes (env_sha256 E (frame_body (range_of 20 (20 + h) bs) (fr_payload f)))"
    unfolding sum body ..
  finally have bs: "bs = \<dots>" .
  moreover have "length (range_of 20 (20 + h) bs) = h" "length (fr_payload f) = unat (of_be64 (range_of 12 20 bs))"
    using fields(4) by (simp_all add: pay)
  ultimately show ?thesis
    using hdr fields(3,4) len unfolding frame_encode_def encode_frame_Inr
    by (intro exI [of _ "range_of 20 (20 + h) bs"]) auto
qed

interpretation frame: canonical_decoder "frame_encode E" "frame_decode E" for E :: "'k journal_env"
  by unfold_locales (rule frame_decode_canonical)

section \<open>The segment file\<close>

record local_journal_stats =
  frames_appended :: nat
  bytes_appended :: nat
  data_durability_syncs :: nat
  directory_durability_syncs :: nat
  recovery_truncations :: nat

definition stats_default :: local_journal_stats where
  "stats_default = \<lparr>frames_appended = 0, bytes_appended = 0, data_durability_syncs = 0,
     directory_durability_syncs = 0, recovery_truncations = 0\<rparr>"

record 'k local_journal_recovery =
  frames_recovered :: nat
  discarded_tail_bytes :: nat
  last_frame :: "'k journal_frame option"

text \<open>
  \<open>seg_content\<close> and \<open>seg_cursor\<close> are the file behind \<open>file\<close>: its bytes and the offset of the
  handle (shared with every \<open>try_clone\<close>).
\<close>

record local_journal_segment =
  seg_content :: bytes
  seg_cursor :: nat
  seg_name :: bytes
  seg_device_id :: uuid
  seg_base_sequence :: u64
  seg_next_sequence :: u64
  seg_committed_bytes :: nat
  seg_poisoned :: bool
  seg_stats :: local_journal_stats

record local_journal_append =
  ap_device_id :: uuid
  ap_sequence :: u64
  ap_frame_bytes :: nat
  ap_payload_digest :: digest
  ap_data_durability_syncs :: nat

record 'k segment_scan =
  scan_committed_bytes :: nat
  scan_frames_recovered :: nat
  scan_next_sequence :: u64
  scan_discarded_tail_bytes :: nat
  scan_last_frame :: "'k journal_frame option"

datatype 'k frame_read = FrameComplete "'k journal_frame" nat | IncompleteByteTail

definition into_complete ::
  "nat \<Rightarrow> 'k frame_read \<Rightarrow> local_journal_error + ('k journal_frame \<times> nat)" where
  "into_complete offset r =
     (case r of FrameComplete f n \<Rightarrow> Inr (f, n)
      | IncompleteByteTail \<Rightarrow> Inl (CorruptSegment offset ''a committed frame is incomplete''))"

text \<open>
  The buffered reader over a clone of the segment's handle: \<open>br_pos\<close> is the handle's cursor and
  \<open>br_avail\<close> the bytes read but not yet consumed, so the reader's own position is their
  difference.  A read of at least the buffer's capacity bypasses an empty buffer.  \<open>rd o = Some e\<close>
  when the \<open>read\<close> system call at file offset \<open>o\<close> fails with \<open>e\<close>.
\<close>

type_synonym read_faults = "nat \<Rightarrow> string option"

record buf_reader =
  br_pos :: nat
  br_avail :: nat

definition prepend :: "bytes \<Rightarrow> (string + bytes) \<times> buf_reader \<Rightarrow> (string + bytes) \<times> buf_reader" where
  "prepend bs r = (bind_res (fst r) (\<lambda>more. Inr (bs @ more)), snd r)"

function read_exact ::
  "read_faults \<Rightarrow> bytes \<Rightarrow> nat \<Rightarrow> buf_reader \<Rightarrow> (string + bytes) \<times> buf_reader" where
  "read_exact rd content n r =
     (if n = 0 then (Inr [], r)
      else if br_avail r = 0 then
        (case rd (br_pos r) of
           Some e \<Rightarrow> (Inl e, r)
         | None \<Rightarrow>
             let k = min (max n SEGMENT_SCAN_BUFFER_BYTES) (length content - br_pos r) in
             if k = 0 then (Inl ''failed to fill whole buffer'', r)
             else if SEGMENT_SCAN_BUFFER_BYTES \<le> n
             then prepend (range_of (br_pos r) (br_pos r + k) content)
                    (read_exact rd content (n - k) \<lparr>br_pos = br_pos r + k, br_avail = 0\<rparr>)
             else read_exact rd content n \<lparr>br_pos = br_pos r + k, br_avail = k\<rparr>)
      else let k = min n (br_avail r); start = br_pos r - br_avail r in
        prepend (range_of start (start + k) content)
          (read_exact rd content (n - k) (r\<lparr>br_avail := br_avail r - k\<rparr>)))"
  by pat_completeness auto
termination
  by (relation "measure (\<lambda>(rd, content, n, r). 2 * n + (if br_avail r = 0 then 1 else 0))") auto

declare read_exact.simps [simp del]

definition excess_text :: "nat \<Rightarrow> nat \<Rightarrow> string" where
  "excess_text declared remaining =
     ''declared frame length '' @ show_nat declared @ '' exceeds the '' @ show_nat remaining
       @ '' remaining segment bytes''"

definition read_frame_at ::
  "'k journal_env \<Rightarrow> read_faults \<Rightarrow> bytes \<Rightarrow> nat \<Rightarrow> nat \<Rightarrow> buf_reader
     \<Rightarrow> (local_journal_error + 'k frame_read) \<times> buf_reader" where
  "read_frame_at E rd content offset file_len r =
     (let remaining = file_len - offset in
      if remaining < MIN_FRAME_BYTES then (Inr IncompleteByteTail, r)
      else case read_exact rd content FRAME_PREFIX_BYTES r of
        (Inl e, r) \<Rightarrow> (Inl (JournalIo e), r)
      | (Inr prefix, r) \<Rightarrow>
          (case extent_parse prefix of
             Inl cause \<Rightarrow> (Inl (CorruptSegment offset (journal_error_text (env_uuid_text E) cause)), r)
           | Inr extent \<Rightarrow>
               if ex_total extent > remaining
               then (Inl (CorruptSegment offset
                      (excess_text (ex_total extent) remaining)), r)
               else (case read_exact rd content (ex_total extent - FRAME_PREFIX_BYTES) r of
                  (Inl e, r) \<Rightarrow> (Inl (JournalIo e), r)
                | (Inr rest, r) \<Rightarrow>
                    (case frame_decode E (prefix @ rest) of
                       Inl cause \<Rightarrow>
                         (Inl (CorruptSegment offset (journal_error_text (env_uuid_text E) cause)), r)
                     | Inr f \<Rightarrow> (Inr (FrameComplete f (ex_total extent)), r)))))"

lemma read_frame_at_progress:
  "fst (read_frame_at E rd content offset file_len r) = Inr (FrameComplete f n) \<Longrightarrow>
   52 \<le> n \<and> offset + n \<le> file_len"
  by (auto simp: read_frame_at_def Let_def journal_limits dest!: extent_parse_total
      split: if_splits option.splits prod.splits sum.splits)

function scan_loop ::
  "'k journal_env \<Rightarrow> read_faults \<Rightarrow> bytes \<Rightarrow> uuid \<Rightarrow> nat \<Rightarrow> nat \<Rightarrow> u64 \<Rightarrow> 'k journal_frame option
     \<Rightarrow> buf_reader \<Rightarrow> local_journal_error + 'k segment_scan" where
  "scan_loop E rd content device offset frames next lastf r =
     (if offset < length content
      then let p = read_frame_at E rd content offset (length content) r in
        case fst p of
             Inl e \<Rightarrow> Inl e
           | Inr IncompleteByteTail \<Rightarrow>
               Inr \<lparr>scan_committed_bytes = offset, scan_frames_recovered = frames,
                    scan_next_sequence = next,
                    scan_discarded_tail_bytes = length content - offset, scan_last_frame = lastf\<rparr>
           | Inr (FrameComplete f n) \<Rightarrow>
               if fr_device_id f \<noteq> device
               then Inl (SegmentDeviceMismatch offset device (fr_device_id f))
               else if fr_sequence f \<noteq> next
               then Inl (SegmentSequenceGap offset next (fr_sequence f))
               else (case checked_add64 (fr_sequence f) 1 of
                       None \<Rightarrow> Inl SequenceExhausted
                     | Some next' \<Rightarrow>
                         scan_loop E rd content device (offset + n) (frames + 1) next' (Some f) (snd p))
      else Inr \<lparr>scan_committed_bytes = offset, scan_frames_recovered = frames,
                scan_next_sequence = next,
                scan_discarded_tail_bytes = length content - offset, scan_last_frame = lastf\<rparr>)"
  by pat_completeness auto
termination
  by (relation "measure (\<lambda>(E, rd, content, device, offset, frames, next, lastf, r). length content - offset)")
    (auto dest: read_frame_at_progress)

declare scan_loop.simps [simp del]

definition scan_segment ::
  "'k journal_env \<Rightarrow> read_faults \<Rightarrow> bytes \<Rightarrow> uuid \<Rightarrow> u64 \<Rightarrow> local_journal_error + 'k segment_scan" where
  "scan_segment E rd content device base =
     (if length content > MAX_LOCAL_JOURNAL_SEGMENT_BYTES then Inl (SegmentTooLarge (length content))
      else scan_loop E rd content device 0 0 base None \<lparr>br_pos = 0, br_avail = 0\<rparr>)"

definition require_safe_segment_name :: "bytes \<Rightarrow> local_journal_error + unit" where
  "require_safe_segment_name name =
     (if name = [] \<or> name = [0x2e] \<or> name = [0x2e, 0x2e]
         \<or> 0x2f \<in> set name \<or> 0x5c \<in> set name \<or> 0x00 \<in> set name
      then Inl (UnsafeSegmentName name) else Inr ())"

text \<open>
  Opening or creating the file: attempt \<open>i\<close> sees the outcomes \<open>attempts i\<close> of the no-follow open
  and of the exclusive create.  The result says whether this call created the file.
\<close>

datatype os_result = OsOk | OsNotFound | OsAlreadyExists | OsError string

fun os_text :: "os_result \<Rightarrow> string" where
  "os_text OsOk = ''''"
| "os_text OsNotFound = ''entity not found''"
| "os_text OsAlreadyExists = ''entity already exists''"
| "os_text (OsError e) = e"

fun open_or_create_loop ::
  "(nat \<Rightarrow> os_result \<times> os_result) \<Rightarrow> bytes \<Rightarrow> nat \<Rightarrow> nat \<Rightarrow> local_journal_error + bool" where
  "open_or_create_loop attempts name i 0 =
     Inl (JournalIo (''local journal segment '' @ text_of_bytes name
            @ '' could not be opened or created''))"
| "open_or_create_loop attempts name i (Suc left) =
     (case fst (attempts i) of
        OsOk \<Rightarrow> Inr False
      | OsNotFound \<Rightarrow>
          (case snd (attempts i) of
             OsOk \<Rightarrow> Inr True
           | OsAlreadyExists \<Rightarrow> open_or_create_loop attempts name (i + 1) left
           | r \<Rightarrow> Inl (JournalIo (os_text r)))
      | r \<Rightarrow> Inl (JournalIo (os_text r)))"

definition open_or_create_segment_file ::
  "(nat \<Rightarrow> os_result \<times> os_result) \<Rightarrow> bytes \<Rightarrow> local_journal_error + bool" where
  "open_or_create_segment_file attempts name =
     open_or_create_loop attempts name 0 SEGMENT_OPEN_ATTEMPTS"

text \<open>The outcomes of the system calls of one open, and the file as it is found (or created).\<close>

record open_os =
  os_attempts :: "nat \<Rightarrow> os_result \<times> os_result"
  os_lock :: "string + bool"
  os_is_file :: "string + bool"
  os_dir_sync :: "string option"
  os_content :: bytes
  os_prepare_read :: "string option"
  os_reads :: read_faults
  os_set_len :: "string option"
  os_truncate_sync :: "string option"
  os_seek_end :: "string option"

definition io_step :: "string option \<Rightarrow> local_journal_error + unit" where
  "io_step r = (case r of None \<Rightarrow> Inr () | Some e \<Rightarrow> Inl (JournalIo e))"

text \<open>
  The open returns the file's bytes as it leaves them beside its result: a failure after
  \<open>set_len\<close> leaves the tail cut off.  \<open>os_prepare_read\<close> is the scan's own length query, handle
  duplication and rewind.
\<close>

definition open_from_sequence ::
  "'k journal_env \<Rightarrow> open_os \<Rightarrow> bytes \<Rightarrow> uuid \<Rightarrow> u64
     \<Rightarrow> bytes \<times> (local_journal_error + (local_journal_segment \<times> 'k local_journal_recovery))" where
  "open_from_sequence E os name device base =
     (case bind_res (require_safe_segment_name name) (\<lambda>_.
           bind_res (open_or_create_segment_file (os_attempts os) name) (\<lambda>created.
           bind_res (map_err JournalIo (os_lock os)) (\<lambda>locked.
             if \<not> locked then Inl (SegmentAlreadyOpen name)
             else bind_res (map_err JournalIo (os_is_file os)) (\<lambda>regular.
               if \<not> regular then Inl (UnsafeSegmentName name)
               else bind_res (if created then io_step (os_dir_sync os) else Inr ()) (\<lambda>_.
                 bind_res (io_step (os_prepare_read os)) (\<lambda>_.
                 bind_res (scan_segment E (os_reads os) (os_content os) device base) (\<lambda>scan.
                   Inr (created, scan)))))))) of
        Inl e \<Rightarrow> (os_content os, Inl e)
      | Inr (created, scan) \<Rightarrow>
          let torn = scan_discarded_tail_bytes scan > 0;
              truncated = torn \<and> os_set_len os = None;
              content = if truncated then take (scan_committed_bytes scan) (os_content os)
                        else os_content os;
              stats = stats_default \<lparr>directory_durability_syncs := if created then 1 else 0,
                        data_durability_syncs := if torn then 1 else 0,
                        recovery_truncations := if torn then 1 else 0\<rparr>
          in (content,
              bind_res (if torn then bind_res (io_step (os_set_len os)) (\<lambda>_. io_step (os_truncate_sync os))
                        else Inr ()) (\<lambda>_.
              bind_res (io_step (os_seek_end os)) (\<lambda>_.
                Inr (\<lparr>seg_content = content, seg_cursor = scan_committed_bytes scan, seg_name = name,
                      seg_device_id = device, seg_base_sequence = base,
                      seg_next_sequence = scan_next_sequence scan,
                      seg_committed_bytes = scan_committed_bytes scan, seg_poisoned = False,
                      seg_stats = stats\<rparr>,
                     \<lparr>frames_recovered = scan_frames_recovered scan,
                      discarded_tail_bytes = scan_discarded_tail_bytes scan,
                      last_frame = scan_last_frame scan\<rparr>)))))"

definition journal_open ::
  "'k journal_env \<Rightarrow> open_os \<Rightarrow> bytes \<Rightarrow> uuid
     \<Rightarrow> bytes \<times> (local_journal_error + (local_journal_segment \<times> 'k local_journal_recovery))" where
  "journal_open E os name device = open_from_sequence E os name device 0"

section \<open>Append and replay\<close>

text \<open>
  Outcome of the append's two calls: a complete write and barrier, a write that stops after
  \<open>n\<close> bytes, or a failed barrier.  Bytes go to the handle's cursor.
\<close>

datatype append_io = AppendOk | WriteFails nat string | SyncFails string

definition write_at :: "bytes \<Rightarrow> nat \<Rightarrow> bytes \<Rightarrow> bytes" where
  "write_at content at bs =
     take at content @ replicate (at - length content) 0 @ bs @ drop (at + length bs) content"

definition file_write :: "bytes \<Rightarrow> local_journal_segment \<Rightarrow> local_journal_segment" where
  "file_write bs seg =
     (if bs = [] then seg
      else seg\<lparr>seg_content := write_at (seg_content seg) (seg_cursor seg) bs,
               seg_cursor := seg_cursor seg + length bs\<rparr>)"

definition journal_append ::
  "'k journal_env \<Rightarrow> append_io \<Rightarrow> local_journal_segment \<Rightarrow> 'k \<Rightarrow> bytes
     \<Rightarrow> local_journal_segment \<times> (local_journal_error + local_journal_append)" where
  "journal_append E io seg kind payload =
     (if seg_poisoned seg then (seg, Inl SegmentPoisoned)
      else let seqn = seg_next_sequence seg in
        case bind_res (encode_frame E (seg_device_id seg) seqn kind payload) (\<lambda>bs.
             let grown = seg_committed_bytes seg + length bs in
             bind_res (if grown < 2 ^ 64 \<and> grown \<le> MAX_LOCAL_JOURNAL_SEGMENT_BYTES then Inr grown
                       else Inl (SegmentTooLarge (min grown (2 ^ 64 - 1)))) (\<lambda>grown.
             bind_res (ok_or SequenceExhausted (checked_add64 seqn 1)) (\<lambda>next. Inr (bs, grown, next)))) of
          Inl e \<Rightarrow> (seg, Inl e)
        | Inr (bs, grown, next) \<Rightarrow>
            (case io of
               WriteFails n e \<Rightarrow>
                 (file_write (take n bs) seg \<lparr>seg_poisoned := True\<rparr>, Inl (JournalIo e))
             | SyncFails e \<Rightarrow> (file_write bs seg \<lparr>seg_poisoned := True\<rparr>, Inl (JournalIo e))
             | AppendOk \<Rightarrow>
                 (let seg = file_write bs seg; stats = seg_stats seg in
                  (seg\<lparr>seg_next_sequence := next, seg_committed_bytes := grown,
                       seg_stats := stats\<lparr>frames_appended := frames_appended stats + 1,
                                          bytes_appended := bytes_appended stats + length bs,
                                          data_durability_syncs := data_durability_syncs stats + 1\<rparr>\<rparr>,
                   Inr \<lparr>ap_device_id = seg_device_id seg, ap_sequence = seqn,
                        ap_frame_bytes = length bs, ap_payload_digest = env_sha256 E payload,
                        ap_data_durability_syncs = 1\<rparr>))))"

text \<open>
  Replay returns the frames in the order \<open>visit\<close> sees them (also those seen before a failure),
  the count or the error, and the segment with its cursor where the reader left it; \<open>prepare\<close> is
  the outcome of duplicating and rewinding the handle.
\<close>

lemma into_complete_Inr: "into_complete offset x = Inr (f, n) \<longleftrightarrow> x = FrameComplete f n"
  by (cases x) (auto simp: into_complete_def)

function replay_loop ::
  "'k journal_env \<Rightarrow> read_faults \<Rightarrow> bytes \<Rightarrow> nat \<Rightarrow> nat \<Rightarrow> buf_reader \<Rightarrow> 'k journal_frame list
     \<Rightarrow> buf_reader \<times> 'k journal_frame list \<times> (local_journal_error + nat)" where
  "replay_loop E rd content committed offset r seen =
     (if offset < committed
      then let p = read_frame_at E rd content offset committed r in
        case bind_res (fst p) (into_complete offset) of
          Inl e \<Rightarrow> (snd p, seen, Inl e)
        | Inr (f, n) \<Rightarrow> replay_loop E rd content committed (offset + n) (snd p) (seen @ [f])
      else (r, seen, Inr (length seen)))"
  by pat_completeness auto
termination
  by (relation "measure (\<lambda>(E, rd, content, committed, offset, r, seen). committed - offset)")
    (auto simp: bind_res_Inr into_complete_Inr dest!: read_frame_at_progress)

declare replay_loop.simps [simp del]

definition journal_replay ::
  "'k journal_env \<Rightarrow> string option \<Rightarrow> read_faults \<Rightarrow> local_journal_segment
     \<Rightarrow> local_journal_segment \<times> 'k journal_frame list \<times> (local_journal_error + nat)" where
  "journal_replay E prepare rd seg =
     (case prepare of
        Some e \<Rightarrow> (seg, [], Inl (JournalIo e))
      | None \<Rightarrow>
          let (r, seen, res) = replay_loop E rd (seg_content seg) (seg_committed_bytes seg) 0
                \<lparr>br_pos = 0, br_avail = 0\<rparr> []
          in (seg\<lparr>seg_cursor := br_pos r\<rparr>, seen, res))"

section \<open>What a fault-free read returns\<close>

definition reader_at :: "buf_reader \<Rightarrow> nat \<Rightarrow> nat \<Rightarrow> bool" where
  "reader_at r at len \<longleftrightarrow> br_avail r \<le> br_pos r \<and> br_pos r - br_avail r = at \<and> br_pos r \<le> len"

lemma read_exact_ok:
  assumes "reader_at r at (length content)" "at + n \<le> length content"
  shows "\<exists>r'. read_exact Map.empty content n r = (Inr (range_of at (at + n) content), r')
    \<and> reader_at r' (at + n) (length content)"
  using assms
proof (induction "Map.empty :: read_faults" content n r arbitrary: at rule: read_exact.induct)
  case (1 content n r)
  consider (none) "n = 0" | (direct) "n \<noteq> 0" "br_avail r = 0" "SEGMENT_SCAN_BUFFER_BYTES \<le> n"
    | (fill) "n \<noteq> 0" "br_avail r = 0" "n < SEGMENT_SCAN_BUFFER_BYTES"
    | (buffered) "n \<noteq> 0" "br_avail r \<noteq> 0" by linarith
  then show ?case
  proof cases
    case none
    then show ?thesis using "1.prems" by (simp add: read_exact.simps [of _ _ 0])
  next
    case direct
    then have "min (max n SEGMENT_SCAN_BUFFER_BYTES) (length content - br_pos r) = n"
      "br_pos r = at" using "1.prems" by (auto simp: reader_at_def)
    with direct "1.prems" show ?thesis
      by (simp add: read_exact.simps [of _ _ n] read_exact.simps [of _ _ 0] prepend_def reader_at_def)
  next
    case fill
    define k where "k = min SEGMENT_SCAN_BUFFER_BYTES (length content - br_pos r)"
    from fill "1.prems" have k: "k \<noteq> 0" "n \<le> k" "br_pos r = at" "at + k \<le> length content"
      by (auto simp: reader_at_def k_def)
    have m: "min (max n SEGMENT_SCAN_BUFFER_BYTES) (length content - br_pos r) = k"
      using fill by (simp add: k_def)
    have "reader_at \<lparr>br_pos = br_pos r + k, br_avail = k\<rparr> at (length content)"
      using k by (simp add: reader_at_def)
    from "1.hyps"(2) [OF fill(1,2) refl m [symmetric] _ _ this] show ?thesis
      using fill k m "1.prems" by (subst read_exact.simps) (simp add: Let_def)
  next
    case buffered
    define k where "k = min n (br_avail r)"
    have k: "k \<noteq> 0" "k \<le> n" "at + k + (n - k) = at + n" using buffered by (auto simp: k_def)
    have "reader_at (r\<lparr>br_avail := br_avail r - k\<rparr>) (at + k) (length content)"
      using "1.prems" by (auto simp: reader_at_def k_def)
    then obtain r' where "read_exact Map.empty content (n - k) (r\<lparr>br_avail := br_avail r - k\<rparr>)
        = (Inr (range_of (at + k) (at + n) content), r')" "reader_at r' (at + n) (length content)"
      using "1.hyps"(3) [OF buffered k_def refl, of "at + k"] "1.prems"(2) k by (auto simp: k(3))
    then show ?thesis
      using buffered k "1.prems"
      by (subst read_exact.simps)
        (simp add: Let_def k_def [symmetric] prepend_def reader_at_def range_of_join)
  qed
qed

lemma frame_constants:
  "FRAME_PREFIX_BYTES = 20" "FRAME_CHECKSUM_BYTES = 32" "MIN_FRAME_BYTES = 52"
  by (simp_all add: journal_limits)

lemma read_frame_at_short [simp]:
  "file_len - offset < 52 \<Longrightarrow> read_frame_at E rd content offset file_len r = (Inr IncompleteByteTail, r)"
  by (simp add: read_frame_at_def frame_constants)

text \<open>The fault-free read as a function of the bytes from \<open>offset\<close> on.\<close>

lemma read_frame_at_prefix:
  assumes "reader_at r offset (length content)" "offset + 52 \<le> file_len" "file_len \<le> length content"
  obtains r' where "read_exact Map.empty content 20 r = (Inr (range_of offset (offset + 20) content), r')"
    "reader_at r' (offset + 20) (length content)"
  using read_exact_ok [OF assms(1), of 20] assms(2,3) by auto

lemma read_frame_at_parsed:
  assumes "reader_at r offset (length content)" "offset + 52 \<le> file_len" "file_len \<le> length content"
    and x: "extent_parse (range_of offset (offset + 20) content) = Inr x"
  shows "offset + ex_total x > file_len \<Longrightarrow>
      fst (read_frame_at E Map.empty content offset file_len r)
        = Inl (CorruptSegment offset (excess_text (ex_total x) (file_len - offset)))"
    and "offset + ex_total x \<le> file_len \<Longrightarrow>
      \<exists>r'. read_frame_at E Map.empty content offset file_len r =
        (case frame_decode E (range_of offset (offset + ex_total x) content) of
           Inl c \<Rightarrow> (Inl (CorruptSegment offset (journal_error_text (env_uuid_text E) c)), r')
         | Inr f \<Rightarrow> (Inr (FrameComplete f (ex_total x)), r'))
        \<and> reader_at r' (offset + ex_total x) (length content)"
proof -
  from read_frame_at_prefix [OF assms(1-3)] obtain r1 where
    r1: "read_exact Map.empty content 20 r = (Inr (range_of offset (offset + 20) content), r1)"
      "reader_at r1 (offset + 20) (length content)" .
  have rem: "\<not> file_len - offset < MIN_FRAME_BYTES" using assms(2) by (simp add: frame_constants)
  show "fst (read_frame_at E Map.empty content offset file_len r)
        = Inl (CorruptSegment offset (excess_text (ex_total x) (file_len - offset)))"
    if big: "offset + ex_total x > file_len"
  proof -
    have "file_len - offset < ex_total x" using big assms(2) by linarith
    then show ?thesis using rem r1(1) x by (simp add: read_frame_at_def frame_constants Let_def)
  qed
  assume le: "offset + ex_total x \<le> file_len"
  have x52: "52 \<le> ex_total x" by (rule extent_parse_total [OF x])
  then have sum: "offset + 20 + (ex_total x - 20) = offset + ex_total x" by simp
  obtain r2 where r2: "read_exact Map.empty content (ex_total x - 20) r1
      = (Inr (range_of (offset + 20) (offset + ex_total x) content), r2)"
    "reader_at r2 (offset + ex_total x) (length content)"
    using read_exact_ok [OF r1(2), of "ex_total x - 20"] le assms(3) unfolding sum by auto
  have join: "range_of offset (offset + 20) content @ range_of (offset + 20) (offset + ex_total x) content
      = range_of offset (offset + ex_total x) content"
    using x52 by (intro range_of_join) auto
  have "\<not> ex_total x > file_len - offset" using le by simp
  then show "\<exists>r'. read_frame_at E Map.empty content offset file_len r =
        (case frame_decode E (range_of offset (offset + ex_total x) content) of
           Inl c \<Rightarrow> (Inl (CorruptSegment offset (journal_error_text (env_uuid_text E) c)), r')
         | Inr f \<Rightarrow> (Inr (FrameComplete f (ex_total x)), r'))
        \<and> reader_at r' (offset + ex_total x) (length content)"
    using rem r1(1) r2 x by (intro exI [of _ r2]) (simp add: read_frame_at_def frame_constants join split: sum.split)
qed

lemma read_frame_at_complete:
  assumes "reader_at r offset (length content)" "file_len \<le> length content"
    and "fst (read_frame_at E Map.empty content offset file_len r) = Inr (FrameComplete f n)"
  shows "52 \<le> n" "offset + n \<le> file_len" "frame_decode E (range_of offset (offset + n) content) = Inr f"
    "reader_at (snd (read_frame_at E Map.empty content offset file_len r)) (offset + n) (length content)"
proof -
  have long: "offset + 52 \<le> file_len"
    using read_frame_at_progress [OF assms(3)] by linarith
  from read_frame_at_prefix [OF assms(1) long assms(2)] obtain r1
    where r1: "read_exact Map.empty content 20 r = (Inr (range_of offset (offset + 20) content), r1)" .
  have rem: "\<not> file_len - offset < MIN_FRAME_BYTES" using long by (simp add: frame_constants)
  obtain x where x: "extent_parse (range_of offset (offset + 20) content) = Inr x"
    using assms(3) rem r1
    by (cases "extent_parse (range_of offset (offset + 20) content)")
      (simp_all add: read_frame_at_def frame_constants)
  note p = read_frame_at_parsed [OF assms(1) long assms(2) x, of E]
  have le: "offset + ex_total x \<le> file_len"
  proof (rule ccontr)
    assume "\<not> ?thesis"
    with p(1) assms(3) show False by simp
  qed
  from p(2) [OF le] obtain r' where r':
    "read_frame_at E Map.empty content offset file_len r =
        (case frame_decode E (range_of offset (offset + ex_total x) content) of
           Inl c \<Rightarrow> (Inl (CorruptSegment offset (journal_error_text (env_uuid_text E) c)), r')
         | Inr f \<Rightarrow> (Inr (FrameComplete f (ex_total x)), r'))"
    "reader_at r' (offset + ex_total x) (length content)" by blast
  have d: "frame_decode E (range_of offset (offset + ex_total x) content) = Inr f \<and> n = ex_total x"
    using assms(3) unfolding r'(1)
    by (cases "frame_decode E (range_of offset (offset + ex_total x) content)") simp_all
  then show "52 \<le> n" "offset + n \<le> file_len"
      "frame_decode E (range_of offset (offset + n) content) = Inr f"
    using extent_parse_total [OF x] le by simp_all
  show "reader_at (snd (read_frame_at E Map.empty content offset file_len r)) (offset + n) (length content)"
    using d r'(2) unfolding r'(1) by simp
qed

section \<open>The log a segment holds\<close>

text \<open>
  The abstract content of a segment: the (kind, payload) entries committed in order.  Entry \<open>i\<close> is
  the frame with sequence \<open>base + i\<close>; \<open>encode_log\<close> is the file that holds exactly these entries.
\<close>

fun log_frames :: "uuid \<Rightarrow> u64 \<Rightarrow> ('k \<times> bytes) list \<Rightarrow> 'k journal_frame list" where
  "log_frames device base [] = []"
| "log_frames device base ((kind, payload) # es) =
     \<lparr>fr_device_id = device, fr_sequence = base, fr_payload_kind = kind, fr_payload = payload\<rparr>
       # log_frames device (base + 1) es"

fun encode_log :: "'k journal_env \<Rightarrow> uuid \<Rightarrow> u64 \<Rightarrow> ('k \<times> bytes) list \<Rightarrow> local_journal_error + bytes" where
  "encode_log E device base [] = Inr []"
| "encode_log E device base ((kind, payload) # es) =
     bind_res (encode_frame E device base kind payload) (\<lambda>bs.
       if base = - 1 then Inl SequenceExhausted
       else bind_res (encode_log E device (base + 1) es) (\<lambda>rest. Inr (bs @ rest)))"

definition last_or :: "'k journal_frame option \<Rightarrow> 'k journal_frame list \<Rightarrow> 'k journal_frame option" where
  "last_or d fs = (if fs = [] then d else Some (last fs))"

lemma length_log_frames [simp]: "length (log_frames device base es) = length es"
  by (induction es arbitrary: base) auto

lemma last_or_Nil [simp]: "last_or d [] = d"
  and last_or_Cons [simp]: "last_or d (f # fs) = last_or (Some f) fs"
  by (auto simp: last_or_def)

lemma encode_log_Cons:
  "encode_log E device base ((kind, payload) # es) = Inr bs \<longleftrightarrow>
     (\<exists>b rest. encode_frame E device base kind payload = Inr b \<and> base \<noteq> - 1
        \<and> encode_log E device (base + 1) es = Inr rest \<and> bs = b @ rest)"
  by (auto simp: bind_res_Inr)

lemma encode_log_snoc:
  "encode_log E device base (es @ [(kind, payload)]) = Inr bs \<longleftrightarrow>
     (\<exists>old b. encode_log E device base es = Inr old
        \<and> encode_frame E device (base + of_nat (length es)) kind payload = Inr b
        \<and> base + of_nat (length es) \<noteq> - 1 \<and> bs = old @ b)"
proof (induction es arbitrary: base bs)
  case (Cons e es)
  obtain k p where e: "e = (k, p)" by force
  show ?case
    unfolding e append_Cons encode_log_Cons Cons.IH
    by (auto simp: algebra_simps)
qed (auto simp: bind_res_Inr)

lemma frame_of_encode:
  assumes "roundtrips (env_header E)" "encode_frame E device base kind payload = Inr b"
    "reader_at r offset (length content)" "offset + length b \<le> length content"
    "range_of offset (offset + length b) content = b" "offset + length b \<le> file_len" "file_len \<le> length content"
  shows "\<exists>r'. read_frame_at E Map.empty content offset file_len r = (Inr (FrameComplete
      \<lparr>fr_device_id = device, fr_sequence = base, fr_payload_kind = kind, fr_payload = payload\<rparr> (length b)), r')
    \<and> reader_at r' (offset + length b) (length content)"
proof -
  have len: "52 \<le> length b" using encode_frame_length [OF assms(2)] by simp
  have "frame_encode E \<lparr>fr_device_id = device, fr_sequence = base, fr_payload_kind = kind, fr_payload = payload\<rparr> = Inr b"
    using assms(2) by (simp add: frame_encode_def)
  from frame_decode_encode [OF assms(1) this]
  have dec: "frame_decode E b = Inr \<lparr>fr_device_id = device, fr_sequence = base, fr_payload_kind = kind, fr_payload = payload\<rparr>" .
  have pre: "range_of offset (offset + 20) content = take 20 b"
    using arg_cong [OF assms(5), of "take 20"] len by (simp add: range_of_def min_def)
  from extent_parse_frame [OF assms(2), of "[]"] obtain h where
    "extent_parse (range_of offset (offset + 20) content) = Inr \<lparr>ex_header_len = h, ex_total = length b\<rparr>"
    unfolding pre by auto
  from read_frame_at_parsed(2) [OF assms(3) _ assms(7) this, of E]
  show ?thesis using len assms(5,6) dec by auto
qed

text \<open>Scanning over the frames of a log, whatever follows them.\<close>

lemma scan_loop_log:
  assumes rt: "roundtrips (env_header E)"
  shows "encode_log E device base es = Inr bs \<Longrightarrow> drop offset content = bs @ rest \<Longrightarrow> offset \<le> length content
    \<Longrightarrow> reader_at r offset (length content)
    \<Longrightarrow> \<exists>r'. scan_loop E Map.empty content device offset n base lastf r
        = scan_loop E Map.empty content device (offset + length bs) (n + length es)
            (base + of_nat (length es)) (last_or lastf (log_frames device base es)) r'
      \<and> reader_at r' (offset + length bs) (length content)"
proof (induction es arbitrary: base bs offset n lastf r)
  case Nil
  then show ?case by (auto intro: exI [of _ r])
next
  case (Cons e es)
  obtain kind payload where e: "e = (kind, payload)" by force
  from Cons.prems(1) obtain b rest' where b: "encode_frame E device base kind payload = Inr b"
    "base \<noteq> - 1" "encode_log E device (base + 1) es = Inr rest'" "bs = b @ rest'"
    by (auto simp: e bind_res_Inr split: if_splits)
  have len: "52 \<le> length b" using encode_frame_length [OF b(1)] by simp
  have tot: "length content = offset + length b + length rest' + length rest"
    using arg_cong [OF Cons.prems(2), of length] Cons.prems(3) by (simp add: b(4))
  have "range_of offset (offset + length b) content = b"
    using Cons.prems(2) by (simp add: range_of_def drop_take b(4))
  from frame_of_encode [OF rt b(1) Cons.prems(4) _ this, of "length content"] tot obtain r1 where
    r1: "read_frame_at E Map.empty content offset (length content) r = (Inr (FrameComplete
      \<lparr>fr_device_id = device, fr_sequence = base, fr_payload_kind = kind, fr_payload = payload\<rparr> (length b)), r1)"
    "reader_at r1 (offset + length b) (length content)" by auto
  have "drop (length b) (drop offset content) = rest' @ rest"
    using Cons.prems(2) by (simp add: b(4) del: drop_drop)
  then have "drop (offset + length b) content = rest' @ rest" by (simp add: add.commute)
  from Cons.IH [OF b(3) this _ r1(2), of "n + 1"] tot
  obtain r' where r': "scan_loop E Map.empty content device (offset + length b) (n + 1) (base + 1)
      (Some \<lparr>fr_device_id = device, fr_sequence = base, fr_payload_kind = kind, fr_payload = payload\<rparr>) r1
     = scan_loop E Map.empty content device (offset + length b + length rest') (n + 1 + length es)
         (base + 1 + of_nat (length es)) (last_or (Some \<lparr>fr_device_id = device, fr_sequence = base,
            fr_payload_kind = kind, fr_payload = payload\<rparr>) (log_frames device (base + 1) es)) r'"
    "reader_at r' (offset + length b + length rest') (length content)" by force
  have "b \<noteq> []" using len by auto
  then show ?case
    using r' r1(1) b(2) tot len
    by (intro exI [of _ r'], subst scan_loop.simps)
      (simp add: e b(4) checked_add64_one algebra_simps)
qed

lemma scan_loop_tail [simp]:
  "length content - offset < 52 \<Longrightarrow> scan_loop E rd content device offset n next lastf r
     = Inr \<lparr>scan_committed_bytes = offset, scan_frames_recovered = n, scan_next_sequence = next,
            scan_discarded_tail_bytes = length content - offset, scan_last_frame = lastf\<rparr>"
  by (simp add: scan_loop.simps)

lemma scan_loop_sound:
  assumes "scan_loop E Map.empty content device offset n base lastf r = Inr s"
    "offset \<le> length content" "reader_at r offset (length content)"
  shows "\<exists>es bs rest. encode_log E device base es = Inr bs \<and> drop offset content = bs @ rest
    \<and> length rest < 52
    \<and> s = \<lparr>scan_committed_bytes = offset + length bs, scan_frames_recovered = n + length es,
           scan_next_sequence = base + of_nat (length es), scan_discarded_tail_bytes = length rest,
           scan_last_frame = last_or lastf (log_frames device base es)\<rparr>"
  using assms
proof (induction "length content - offset" arbitrary: offset n base lastf r rule: less_induct)
  case less
  show ?case
  proof (cases "length content - offset < 52")
    case True
    with less.prems show ?thesis
      by (intro exI [of _ "[]"] exI [of _ "drop offset content"]) auto
  next
    case False
    then have off: "offset < length content" by simp
    from less.prems(1) False obtain f k where
      c: "fst (read_frame_at E Map.empty content offset (length content) r) = Inr (FrameComplete f k)"
      by (subst (asm) scan_loop.simps)
        (auto simp: Let_def read_frame_at_def frame_constants split: sum.splits frame_read.splits if_splits prod.splits)
    define r1 where "r1 = snd (read_frame_at E Map.empty content offset (length content) r)"
    note rc = read_frame_at_complete [OF less.prems(3) _ c, simplified, folded r1_def]
    have "fr_device_id f = device \<and> fr_sequence f = base \<and> base \<noteq> - 1
      \<and> scan_loop E Map.empty content device (offset + k) (n + 1) (base + 1) (Some f) r1 = Inr s"
      using less.prems(1) c off unfolding scan_loop.simps [of _ _ _ _ offset n base lastf r]
      by (auto simp: Let_def checked_add64_one r1_def split: if_splits)
    then have f: "fr_device_id f = device" "fr_sequence f = base" "base \<noteq> - 1"
      and rec: "scan_loop E Map.empty content device (offset + k) (n + 1) (base + 1) (Some f) r1 = Inr s"
      by auto
    from less.hyps [OF _ rec] rc obtain es bs rest where
      ih: "encode_log E device (base + 1) es = Inr bs" "drop (offset + k) content = bs @ rest"
        "length rest < 52" "s = \<lparr>scan_committed_bytes = offset + k + length bs,
           scan_frames_recovered = n + 1 + length es,
           scan_next_sequence = base + 1 + of_nat (length es), scan_discarded_tail_bytes = length rest,
           scan_last_frame = last_or (Some f) (log_frames device (base + 1) es)\<rparr>"
      by force
    define b where "b = range_of offset (offset + k) content"
    have enc: "encode_frame E device base (fr_payload_kind f) (fr_payload f) = Inr b"
      using frame_decode_canonical [OF rc(3)] f by (simp add: frame_encode_def b_def)
    have lb: "length b = k" using rc(2) by (simp add: b_def)
    have "drop offset content = b @ bs @ rest"
      using range_of_join [of offset "offset + k" "length content" content] ih(2)
      by (simp add: b_def range_of_to_end rc(2))
    then show ?thesis
      using ih enc f lb
      by (intro exI [of _ "(fr_payload_kind f, fr_payload f) # es"] exI [of _ "b @ bs"] exI [of _ rest])
        (cases f; simp add: algebra_simps)
  qed
qed

section \<open>Opening a segment\<close>

definition safe_name :: "bytes \<Rightarrow> bool" where
  "safe_name name \<longleftrightarrow> require_safe_segment_name name = Inr ()"

text \<open>An open in which no system call fails; the file exists or this open creates it empty.\<close>

definition os_quiet :: "open_os \<Rightarrow> bool" where
  "os_quiet os \<longleftrightarrow>
     (fst (os_attempts os 0) = OsOk
        \<or> fst (os_attempts os 0) = OsNotFound \<and> snd (os_attempts os 0) = OsOk \<and> os_content os = [])
     \<and> os_lock os = Inr True \<and> os_is_file os = Inr True \<and> os_dir_sync os = None
     \<and> os_prepare_read os = None \<and> os_reads os = Map.empty \<and> os_set_len os = None
     \<and> os_truncate_sync os = None \<and> os_seek_end os = None"

definition os_creates :: "open_os \<Rightarrow> bool" where
  "os_creates os \<longleftrightarrow> fst (os_attempts os 0) \<noteq> OsOk"

text \<open>The segment and the recovery report of a file that holds log \<open>es\<close> followed by \<open>rest\<close>.\<close>

definition adopted ::
  "'k journal_env \<Rightarrow> open_os \<Rightarrow> bytes \<Rightarrow> uuid \<Rightarrow> u64 \<Rightarrow> ('k \<times> bytes) list \<Rightarrow> bytes \<Rightarrow> bytes
     \<Rightarrow> local_journal_segment \<times> 'k local_journal_recovery" where
  "adopted E os name device base es bs rest =
     (\<lparr>seg_content = bs, seg_cursor = length bs, seg_name = name, seg_device_id = device,
       seg_base_sequence = base, seg_next_sequence = base + of_nat (length es),
       seg_committed_bytes = length bs, seg_poisoned = False,
       seg_stats = stats_default \<lparr>directory_durability_syncs := if os_creates os then 1 else 0,
                     data_durability_syncs := if rest = [] then 0 else 1,
                     recovery_truncations := if rest = [] then 0 else 1\<rparr>\<rparr>,
      \<lparr>frames_recovered = length es, discarded_tail_bytes = length rest,
       last_frame = last_or None (log_frames device base es)\<rparr>)"

lemma open_loop_quiet:
  "os_quiet os \<Longrightarrow> open_or_create_segment_file (os_attempts os) name = Inr (os_creates os)"
  by (auto simp: open_or_create_segment_file_def SEGMENT_OPEN_ATTEMPTS_def eval_nat_numeral os_quiet_def
      os_creates_def)

lemma open_quiet:
  assumes "os_quiet os" "safe_name name"
  shows "open_from_sequence E os name device base =
    (case scan_segment E Map.empty (os_content os) device base of
       Inl e \<Rightarrow> (os_content os, Inl e)
     | Inr scan \<Rightarrow>
         let bs = if scan_discarded_tail_bytes scan > 0 then take (scan_committed_bytes scan) (os_content os)
                  else os_content os;
             d = if scan_discarded_tail_bytes scan > 0 then 1 else 0 in
         (bs, Inr (\<lparr>seg_content = bs, seg_cursor = scan_committed_bytes scan, seg_name = name,
                 seg_device_id = device, seg_base_sequence = base,
                 seg_next_sequence = scan_next_sequence scan,
                 seg_committed_bytes = scan_committed_bytes scan, seg_poisoned = False,
                 seg_stats = stats_default \<lparr>directory_durability_syncs := if os_creates os then 1 else 0,
                     data_durability_syncs := d, recovery_truncations := d\<rparr>\<rparr>,
              \<lparr>frames_recovered = scan_frames_recovered scan,
               discarded_tail_bytes = scan_discarded_tail_bytes scan,
               last_frame = scan_last_frame scan\<rparr>)))"
  using assms open_loop_quiet [OF assms(1), of name]
  by (cases "scan_segment E Map.empty (os_content os) device base")
    (auto simp: open_from_sequence_def os_quiet_def safe_name_def io_step_def Let_def)

lemma reader_at_start [simp]: "reader_at \<lparr>br_pos = 0, br_avail = 0\<rparr> 0 len"
  by (simp add: reader_at_def)

definition scan_of ::
  "uuid \<Rightarrow> u64 \<Rightarrow> ('k \<times> bytes) list \<Rightarrow> bytes \<Rightarrow> bytes \<Rightarrow> 'k segment_scan" where
  "scan_of device base es bs rest =
     \<lparr>scan_committed_bytes = length bs, scan_frames_recovered = length es,
      scan_next_sequence = base + of_nat (length es), scan_discarded_tail_bytes = length rest,
      scan_last_frame = last_or None (log_frames device base es)\<rparr>"

lemma scan_segment_complete:
  assumes "roundtrips (env_header E)" "encode_log E device base es = Inr bs" "length rest < 52"
    "length (bs @ rest) \<le> MAX_LOCAL_JOURNAL_SEGMENT_BYTES"
  shows "scan_segment E Map.empty (bs @ rest) device base = Inr (scan_of device base es bs rest)"
  using scan_loop_log [OF assms(1,2), of 0 "bs @ rest" rest "\<lparr>br_pos = 0, br_avail = 0\<rparr>" 0 None] assms(3,4)
  by (auto simp: scan_segment_def scan_of_def)

lemma scan_segment_sound:
  assumes "scan_segment E Map.empty content device base = Inr s"
  shows "\<exists>es bs rest. encode_log E device base es = Inr bs \<and> content = bs @ rest \<and> length rest < 52
    \<and> s = scan_of device base es bs rest"
  using scan_loop_sound [of E content device 0 0 base None _ s] assms
  by (auto simp: scan_segment_def scan_of_def split: if_splits)

lemma open_scanned:
  assumes "os_quiet os" "safe_name name" "os_content os = bs @ rest"
    "scan_segment E Map.empty (os_content os) device base = Inr (scan_of device base es bs rest)"
  shows "open_from_sequence E os name device base = (bs, Inr (adopted E os name device base es bs rest))"
  unfolding open_quiet [OF assms(1,2)] assms(4)
  by (simp add: scan_of_def adopted_def assms(3) Let_def)

text \<open>
  C25. Recovery is exact.  With no system call failing, an open succeeds exactly when the file is the
  encoding of some log of this device from \<open>base\<close>, followed by fewer than 52 bytes; it then adopts
  that log, leaves exactly its encoding on disk, and reports the frames and discarded bytes.
\<close>

theorem open_adopts_exactly_the_log:
  assumes "roundtrips (env_header E)" "os_quiet os" "safe_name name"
    "length (os_content os) \<le> MAX_LOCAL_JOURNAL_SEGMENT_BYTES"
  shows "open_from_sequence E os name device base = (bs, Inr res) \<longleftrightarrow>
    (\<exists>es rest. encode_log E device base es = Inr bs \<and> os_content os = bs @ rest \<and> length rest < 52
       \<and> res = adopted E os name device base es bs rest)"
proof (intro iffI)
  assume "open_from_sequence E os name device base = (bs, Inr res)"
  moreover from this obtain s where s: "scan_segment E Map.empty (os_content os) device base = Inr s"
    unfolding open_quiet [OF assms(2,3)] by (auto split: sum.splits)
  moreover obtain es bs' rest where r: "encode_log E device base es = Inr bs'" "os_content os = bs' @ rest"
    "length rest < 52" "s = scan_of device base es bs' rest"
    using scan_segment_sound [OF s] by blast
  ultimately show "\<exists>es rest. encode_log E device base es = Inr bs \<and> os_content os = bs @ rest \<and> length rest < 52
       \<and> res = adopted E os name device base es bs rest"
    using open_scanned [OF assms(2,3) r(2)] by force
next
  assume "\<exists>es rest. encode_log E device base es = Inr bs \<and> os_content os = bs @ rest \<and> length rest < 52
       \<and> res = adopted E os name device base es bs rest"
  then obtain es rest where r: "encode_log E device base es = Inr bs" "os_content os = bs @ rest"
    "length rest < 52" "res = adopted E os name device base es bs rest" by blast
  have "scan_segment E Map.empty (os_content os) device base = Inr (scan_of device base es bs rest)"
    using scan_segment_complete [OF assms(1) r(1,3)] assms(4) r(2) by simp
  from open_scanned [OF assms(2,3) r(2) this] r(4)
  show "open_from_sequence E os name device base = (bs, Inr res)" by simp
qed

lemma scan_segment_torn:
  assumes rt: "roundtrips (env_header E)" and log: "encode_log E device base es = Inr bs"
    and b: "encode_frame E device (base + of_nat (length es)) kind payload = Inr b"
    and k: "52 \<le> k" "k < length b" and max: "length bs + k \<le> MAX_LOCAL_JOURNAL_SEGMENT_BYTES"
  shows "scan_segment E Map.empty (bs @ take k b) device base
    = Inl (CorruptSegment (length bs) (excess_text (length b) k))"
proof -
  define content where "content = bs @ take k b"
  have len: "length content = length bs + k" using k by (simp add: content_def)
  obtain r' where r': "scan_loop E Map.empty content device 0 0 base None \<lparr>br_pos = 0, br_avail = 0\<rparr>
      = scan_loop E Map.empty content device (length bs) (length es) (base + of_nat (length es))
          (last_or None (log_frames device base es)) r'" "reader_at r' (length bs) (length content)"
    using scan_loop_log [OF rt log, of 0 content "take k b" "\<lparr>br_pos = 0, br_avail = 0\<rparr>" 0 None]
    by (auto simp: content_def)
  have "range_of (length bs) (length bs + 20) content = take 20 b"
    using k by (simp add: range_of_def content_def)
  with extent_parse_frame [OF b, of "[]"] obtain h where
    "extent_parse (range_of (length bs) (length bs + 20) content) = Inr \<lparr>ex_header_len = h, ex_total = length b\<rparr>"
    by auto
  from read_frame_at_parsed(1) [OF r'(2) _ _ this, of "length content" E] k len
  have "fst (read_frame_at E Map.empty content (length bs) (length content) r')
      = Inl (CorruptSegment (length bs) (excess_text (length b) k))" by simp
  then have "scan_loop E Map.empty content device 0 0 base None \<lparr>br_pos = 0, br_avail = 0\<rparr>
      = Inl (CorruptSegment (length bs) (excess_text (length b) k))"
    using k len unfolding r'(1) by (subst scan_loop.simps) (simp add: Let_def)
  then show ?thesis using max len by (simp add: scan_segment_def content_def)
qed

text \<open>What a torn append leaves.  If the file is a log followed by the first \<open>k\<close> bytes of its next
  frame, an open drops them when \<open>k < 52\<close>, refuses the segment and keeps every byte when
  \<open>52 \<le> k\<close> is short of the frame, and adopts the frame when all of it is there.
\<close>

theorem open_after_torn_append:
  assumes rt: "roundtrips (env_header E)" and os: "os_quiet os" "safe_name name"
    and log: "encode_log E device base es = Inr bs"
    and b: "encode_frame E device (base + of_nat (length es)) kind payload = Inr b"
    and seqn: "base + of_nat (length es) \<noteq> - 1" and k: "k \<le> length b"
    and content: "os_content os = bs @ take k b"
    and max: "length bs + length b \<le> MAX_LOCAL_JOURNAL_SEGMENT_BYTES"
  shows "open_from_sequence E os name device base =
    (if k < 52 then (bs, Inr (adopted E os name device base es bs (take k b)))
     else if k < length b
     then (bs @ take k b, Inl (CorruptSegment (length bs) (excess_text (length b) k)))
     else (bs @ b, Inr (adopted E os name device base (es @ [(kind, payload)]) (bs @ b) [])))"
proof -
  consider "k < 52" | "52 \<le> k" "k < length b" | "52 \<le> k" "k = length b" using k by linarith
  then show ?thesis
  proof cases
    case 1
    with scan_segment_complete [OF rt log, of "take k b"] max k
    have "scan_segment E Map.empty (os_content os) device base = Inr (scan_of device base es bs (take k b))"
      by (simp add: content)
    from open_scanned [OF os content this] 1 show ?thesis by simp
  next
    case 2
    with scan_segment_torn [OF rt log b] max show ?thesis
      by (simp add: open_quiet [OF os] content)
  next
    case 3
    have log': "encode_log E device base (es @ [(kind, payload)]) = Inr (bs @ b)"
      using log b seqn by (simp add: encode_log_snoc)
    have c: "os_content os = (bs @ b) @ []" using content 3 by simp
    from scan_segment_complete [OF rt log', of "[]"] max
    have "scan_segment E Map.empty (os_content os) device base
        = Inr (scan_of device base (es @ [(kind, payload)]) (bs @ b) [])" by (simp add: c)
    from open_scanned [OF os c this] 3 show ?thesis by simp
  qed
qed

section \<open>The live segment\<close>

text \<open>\<open>seg_holds E es seg\<close>: the open segment is a healthy cursor at the end of log \<open>es\<close>.\<close>

definition seg_holds :: "'k journal_env \<Rightarrow> ('k \<times> bytes) list \<Rightarrow> local_journal_segment \<Rightarrow> bool" where
  "seg_holds E es seg \<longleftrightarrow>
     encode_log E (seg_device_id seg) (seg_base_sequence seg) es = Inr (seg_content seg)
     \<and> seg_cursor seg = length (seg_content seg) \<and> seg_committed_bytes seg = length (seg_content seg)
     \<and> seg_next_sequence seg = seg_base_sequence seg + of_nat (length es) \<and> \<not> seg_poisoned seg
     \<and> length (seg_content seg) \<le> MAX_LOCAL_JOURNAL_SEGMENT_BYTES"

lemma adopted_holds:
  assumes "encode_log E device base es = Inr bs" "length bs \<le> MAX_LOCAL_JOURNAL_SEGMENT_BYTES"
  shows "seg_holds E es (fst (adopted E os name device base es bs rest))"
  using assms by (simp add: seg_holds_def adopted_def)

lemma write_at_end [simp]: "write_at content (length content) bs = content @ bs"
  by (simp add: write_at_def)

lemma file_write_end:
  "seg_cursor seg = length (seg_content seg) \<Longrightarrow>
   file_write bs seg = seg\<lparr>seg_content := seg_content seg @ bs, seg_cursor := length (seg_content seg @ bs)\<rparr>"
  by (cases seg) (simp add: file_write_def)

lemma encode_frame_total:
  "encode_frame E device seqn kind payload = Inr b \<Longrightarrow> length b \<le> 64 * 1024 * 1024"
  using encode_frame_length [of E device seqn kind payload b] by (simp add: journal_limits)

text \<open>The three outcomes of an append to a healthy segment.\<close>

lemma append_cases:
  assumes "seg_holds E es seg"
  obtains (refused) e where "journal_append E io seg kind payload = (seg, Inl e)"
    | (started) b where
      "encode_frame E (seg_device_id seg) (seg_next_sequence seg) kind payload = Inr b"
      "seg_next_sequence seg \<noteq> - 1"
      "length (seg_content seg) + length b \<le> MAX_LOCAL_JOURNAL_SEGMENT_BYTES"
      "journal_append E io seg kind payload =
        (case io of
           WriteFails n e \<Rightarrow> (file_write (take n b) seg \<lparr>seg_poisoned := True\<rparr>, Inl (JournalIo e))
         | SyncFails e \<Rightarrow> (file_write b seg \<lparr>seg_poisoned := True\<rparr>, Inl (JournalIo e))
         | AppendOk \<Rightarrow>
            (file_write b seg \<lparr>seg_next_sequence := seg_next_sequence seg + 1,
               seg_committed_bytes := seg_committed_bytes seg + length b,
               seg_stats := seg_stats seg \<lparr>frames_appended := frames_appended (seg_stats seg) + 1,
                  bytes_appended := bytes_appended (seg_stats seg) + length b,
                  data_durability_syncs := data_durability_syncs (seg_stats seg) + 1\<rparr>\<rparr>,
             Inr \<lparr>ap_device_id = seg_device_id seg, ap_sequence = seg_next_sequence seg,
                  ap_frame_bytes = length b, ap_payload_digest = env_sha256 E payload,
                  ap_data_durability_syncs = 1\<rparr>))"
proof (cases "encode_frame E (seg_device_id seg) (seg_next_sequence seg) kind payload")
  case (Inl e)
  then show ?thesis using assms by (intro refused [of e]) (simp add: journal_append_def seg_holds_def)
next
  case (Inr b)
  have ok: "\<not> seg_poisoned seg" "seg_committed_bytes seg = length (seg_content seg)"
    "seg_cursor seg = length (seg_content seg)"
    using assms by (auto simp: seg_holds_def)
  show ?thesis
  proof (cases "length (seg_content seg) + length b \<le> MAX_LOCAL_JOURNAL_SEGMENT_BYTES")
    case False
    then show ?thesis using Inr ok by (intro refused) (simp add: journal_append_def Let_def)
  next
    case fits: True
    then have small: "length (seg_content seg) + length b < 2 ^ 64"
      by (simp add: MAX_LOCAL_JOURNAL_SEGMENT_BYTES_def)
    show ?thesis
    proof (cases "seg_next_sequence seg = - 1")
      case True
      then show ?thesis using Inr ok fits small
        by (intro refused) (simp add: journal_append_def Let_def checked_add64_one)
    next
      case False
      then show ?thesis using Inr ok fits small
        by (intro started [of b], simp_all add: journal_append_def checked_add64_one file_write_end)
          (cases io; simp add: Let_def file_write_def)
    qed
  qed
qed

lemma append_refuses_poisoned: "seg_poisoned seg \<Longrightarrow> journal_append E io seg kind payload = (seg, Inl SegmentPoisoned)"
  by (simp add: journal_append_def)


text \<open>Replay from the start of a healthy segment.\<close>

lemma replay_loop_log:
  assumes rt: "roundtrips (env_header E)"
  shows "encode_log E device base es = Inr bs \<Longrightarrow> drop offset content = bs \<Longrightarrow> offset \<le> length content
    \<Longrightarrow> reader_at r offset (length content)
    \<Longrightarrow> \<exists>r'. replay_loop E Map.empty content (length content) offset r seen
        = (r', seen @ log_frames device base es, Inr (length seen + length es))
      \<and> reader_at r' (length content) (length content)"
proof (induction es arbitrary: base bs offset r seen)
  case Nil
  then have "offset = length content" by simp
  with Nil show ?case by (simp add: replay_loop.simps)
next
  case (Cons e es)
  obtain kind payload where e: "e = (kind, payload)" by force
  from Cons.prems(1) obtain b rest where b: "encode_frame E device base kind payload = Inr b"
    "encode_log E device (base + 1) es = Inr rest" "bs = b @ rest"
    by (auto simp: e bind_res_Inr split: if_splits)
  have len: "52 \<le> length b" using encode_frame_length [OF b(1)] by simp
  have tot: "length content = offset + length b + length rest"
    using arg_cong [OF Cons.prems(2), of length] Cons.prems(3) by (simp add: b(3))
  have "range_of offset (offset + length b) content = b"
    using Cons.prems(2) by (simp add: range_of_def drop_take b(3))
  from frame_of_encode [OF rt b(1) Cons.prems(4) _ this, of "length content"] tot obtain r1 where
    r1: "read_frame_at E Map.empty content offset (length content) r = (Inr (FrameComplete
      \<lparr>fr_device_id = device, fr_sequence = base, fr_payload_kind = kind, fr_payload = payload\<rparr> (length b)), r1)"
    "reader_at r1 (offset + length b) (length content)" by auto
  have "drop (length b) (drop offset content) = rest"
    using Cons.prems(2) by (simp add: b(3) del: drop_drop)
  then have "drop (offset + length b) content = rest" by (simp add: add.commute)
  from Cons.IH [OF b(2) this _ r1(2), of "seen @ [\<lparr>fr_device_id = device, fr_sequence = base,
      fr_payload_kind = kind, fr_payload = payload\<rparr>]"] tot
  obtain r' where r': "replay_loop E Map.empty content (length content) (offset + length b) r1
      (seen @ [\<lparr>fr_device_id = device, fr_sequence = base, fr_payload_kind = kind, fr_payload = payload\<rparr>])
     = (r', seen @ log_frames device base (e # es), Inr (length seen + length (e # es)))"
    "reader_at r' (length content) (length content)" by (force simp: e)
  moreover have "offset < length content" using tot len by linarith
  ultimately show ?case
    using r1(1) by (intro exI [of _ r'], subst replay_loop.simps) (simp add: Let_def into_complete_def)
qed

text \<open>A replay without read failures visits exactly the committed frames in append order, returns
  their number, and leaves the segment, its shared append cursor included, as it was.
\<close>

theorem replay_visits_the_log:
  assumes "roundtrips (env_header E)" "seg_holds E es seg"
  shows "journal_replay E None Map.empty seg
    = (seg, log_frames (seg_device_id seg) (seg_base_sequence seg) es, Inr (length es))"
proof -
  have log: "encode_log E (seg_device_id seg) (seg_base_sequence seg) es = Inr (seg_content seg)"
    and c: "seg_committed_bytes seg = length (seg_content seg)" "seg_cursor seg = length (seg_content seg)"
    using assms(2) by (auto simp: seg_holds_def)
  obtain r' where r': "replay_loop E Map.empty (seg_content seg) (length (seg_content seg)) 0
      \<lparr>br_pos = 0, br_avail = 0\<rparr> [] = (r', log_frames (seg_device_id seg) (seg_base_sequence seg) es, Inr (length es))"
    "reader_at r' (length (seg_content seg)) (length (seg_content seg))"
    using replay_loop_log [OF assms(1) log, of 0 "seg_content seg" "\<lparr>br_pos = 0, br_avail = 0\<rparr>" "[]"] by auto
  have "br_pos r' = seg_cursor seg" using r'(2) c by (auto simp: reader_at_def)
  then show ?thesis using r'(1) c by (cases seg) (simp add: journal_replay_def)
qed

text \<open>
  C37. A replay whose first read fails leaves the shared handle at offset 0, so the next append, which
  is acknowledged as durable, overwrites the beginning of the committed log: the file then begins with
  the new frame, and every reopen with the segment's base sequence is refused as a sequence gap.
\<close>

theorem append_after_failed_replay_overwrites:
  assumes rt: "roundtrips (env_header E)" and holds: "seg_holds E es seg" and ne: "es \<noteq> []"
    and fault: "rd 0 = Some e" and len: "length es < 2 ^ 63"
    and fits: "length (seg_content seg) + length b \<le> MAX_LOCAL_JOURNAL_SEGMENT_BYTES"
    and b: "encode_frame E (seg_device_id seg) (seg_next_sequence seg) kind payload = Inr b"
    and seqn: "seg_next_sequence seg \<noteq> - 1"
    and os: "os_quiet os" "safe_name name"
    and seg2: "seg2 = fst (journal_append E AppendOk (fst (journal_replay E None rd seg)) kind payload)"
    and content: "os_content os = seg_content seg2"
  shows "snd (snd (journal_replay E None rd seg)) = Inl (JournalIo e)
    \<and> (\<exists>ap. snd (journal_append E AppendOk (fst (journal_replay E None rd seg)) kind payload) = Inr ap)
    \<and> take (length b) (seg_content seg2) = b
    \<and> snd (open_from_sequence E os name (seg_device_id seg) (seg_base_sequence seg))
        = Inl (SegmentSequenceGap 0 (seg_base_sequence seg) (seg_next_sequence seg))"
proof -
  obtain k0 p0 es' where es: "es = (k0, p0) # es'" using ne by (cases es) auto
  have h: "encode_log E (seg_device_id seg) (seg_base_sequence seg) es = Inr (seg_content seg)"
    "seg_committed_bytes seg = length (seg_content seg)" "\<not> seg_poisoned seg"
    "seg_next_sequence seg = seg_base_sequence seg + of_nat (length es)"
    using holds by (auto simp: seg_holds_def)
  obtain x xs where "encode_frame E (seg_device_id seg) (seg_base_sequence seg) k0 p0 = Inr x"
    "x @ xs = seg_content seg"
    using h(1) by (auto simp: es bind_res_Inr split: if_splits)
  then have long: "52 \<le> length (seg_content seg)"
    using encode_frame_length by (metis length_append trans_le_add1)
  have rf: "read_frame_at E rd (seg_content seg) 0 (length (seg_content seg)) \<lparr>br_pos = 0, br_avail = 0\<rparr>
      = (Inl (JournalIo e), \<lparr>br_pos = 0, br_avail = 0\<rparr>)"
    using long fault by (simp add: read_frame_at_def frame_constants read_exact.simps [of _ _ 20])
  have rep: "journal_replay E None rd seg = (seg\<lparr>seg_cursor := 0\<rparr>, [], Inl (JournalIo e))"
    using long h(2) by (auto simp: journal_replay_def replay_loop.simps rf)
  have seg2: "journal_append E AppendOk (seg\<lparr>seg_cursor := 0\<rparr>) kind payload = (seg2, snd (journal_append E AppendOk (seg\<lparr>seg_cursor := 0\<rparr>) kind payload))"
    by (simp add: seg2 rep)
  have small: "length (seg_content seg) + length b < 2 ^ 64"
    using fits by (simp add: MAX_LOCAL_JOURNAL_SEGMENT_BYTES_def)
  have "b \<noteq> []" using encode_frame_length [OF b] by auto
  then have seg2c: "seg_content seg2 = b @ drop (length b) (seg_content seg)"
    and ack: "\<exists>ap. snd (journal_append E AppendOk (seg\<lparr>seg_cursor := 0\<rparr>) kind payload) = Inr ap"
    using small fits b h seqn seg2
    by (auto simp: journal_append_def Let_def checked_add64_one file_write_def write_at_def)
  have gap: "seg_next_sequence seg \<noteq> seg_base_sequence seg"
  proof -
    have "unat (of_nat (length es) :: u64) = length es" using len by (simp add: unsigned_of_nat take_bit_nat_eq_self)
    then have "(of_nat (length es) :: u64) \<noteq> 0" using ne by (metis length_0_conv unat_0)
    then show ?thesis using h(4) by simp
  qed
  have "range_of 0 (0 + length b) (seg_content seg2) = b" by (simp add: seg2c range_of_def)
  from frame_of_encode [OF rt b reader_at_start _ this, of "length (seg_content seg2)"]
  obtain r' where "read_frame_at E Map.empty (seg_content seg2) 0 (length (seg_content seg2)) \<lparr>br_pos = 0, br_avail = 0\<rparr>
      = (Inr (FrameComplete \<lparr>fr_device_id = seg_device_id seg, fr_sequence = seg_next_sequence seg,
           fr_payload_kind = kind, fr_payload = payload\<rparr> (length b)), r')"
    by (auto simp: seg2c)
  then have "scan_segment E Map.empty (seg_content seg2) (seg_device_id seg) (seg_base_sequence seg)
      = Inl (SegmentSequenceGap 0 (seg_base_sequence seg) (seg_next_sequence seg))"
    using gap fits \<open>b \<noteq> []\<close> holds
    by (simp add: scan_segment_def scan_loop.simps Let_def seg2c seg_holds_def)
  then show ?thesis
    using rep ack by (simp add: open_quiet [OF os] content seg2c)
qed

section \<open>Concrete instances\<close>

text \<open>
  A concrete fixed-width header codec (payload kind \<open>unit\<close>), a constant digest, and a device: the
  environment the instances below are evaluated in.
\<close>

definition fixed_header :: "unit frame_header serializer" where
  "fixed_header =
     \<lparr>to_vec = (\<lambda>h. Inr (be32 (fh_schema_version h) @ array_bytes (fh_device_id h)
                    @ be64 (fh_sequence h) @ array_bytes (fh_payload_digest h))),
      from_slice = (\<lambda>bs. if length bs = 60
        then Inr \<lparr>fh_schema_version = of_be32 (range_of 0 4 bs), fh_device_id = mk_array (range_of 4 20 bs),
                  fh_sequence = of_be64 (range_of 20 28 bs), fh_payload_kind = (),
                  fh_payload_digest = mk_array (range_of 28 60 bs)\<rparr>
        else Inl ''length'')\<rparr>"

lemma fixed_header_roundtrips: "roundtrips fixed_header"
  by (auto simp: roundtrips_def fixed_header_def range_of_append length_be length_array_bytes)

definition demo_env :: "unit journal_env" where
  "demo_env = \<lparr>env_sha256 = (\<lambda>_. mk_array (replicate 32 7)), env_header = fixed_header,
               env_uuid_text = (\<lambda>_. ''device'')\<rparr>"

definition demo_device :: uuid where "demo_device = mk_array (replicate 16 1)"

definition demo_frame :: "u64 \<Rightarrow> bytes \<Rightarrow> bytes" where
  "demo_frame seqn payload =
     frame_body (be32 1 @ array_bytes demo_device @ be64 seqn @ replicate 32 7) payload @ replicate 32 7"

definition demo_os :: "bytes \<Rightarrow> open_os" where
  "demo_os content =
     \<lparr>os_attempts = (\<lambda>_. (OsOk, OsOk)), os_lock = Inr True, os_is_file = Inr True, os_dir_sync = None,
      os_content = content, os_prepare_read = None, os_reads = Map.empty, os_set_len = None,
      os_truncate_sync = None, os_seek_end = None\<rparr>"

definition demo_name :: bytes where "demo_name = [0x73, 0x65, 0x67]"

lemma demo_roundtrips: "roundtrips (env_header demo_env)"
  by (simp add: demo_env_def fixed_header_roundtrips)

lemma demo_encode:
  "length payload \<le> 1000 \<Longrightarrow> encode_frame demo_env demo_device seqn () payload = Inr (demo_frame seqn payload)"
  by (simp add: encode_frame_Inr demo_env_def fixed_header_def header_for_def demo_frame_def
      LOCAL_JOURNAL_FRAME_SCHEMA_VERSION_def length_be length_array_bytes journal_limits array_bytes_mk_array)

lemma length_demo_frame [simp]: "length (demo_frame seqn payload) = 112 + length payload"
  by (simp add: demo_frame_def length_envelope length_be length_array_bytes)

lemma demo_os_quiet: "os_quiet (demo_os content)" "os_content (demo_os content) = content"
  by (simp_all add: os_quiet_def demo_os_def)

lemma demo_name_safe: "safe_name demo_name"
  by (simp add: safe_name_def require_safe_segment_name_def demo_name_def)

lemma demo_log:
  "encode_log demo_env demo_device 0 [((), [1, 2])] = Inr (demo_frame 0 [1, 2])"
  by (simp add: demo_encode)

text \<open>The frame codec is exact in both directions: bytes decode to a frame exactly when they are the
  encoding of that frame, so a frame has one representation and no damaged or padded bytes are accepted.
\<close>

theorem frame_decode_iff_encode:
  assumes "roundtrips (env_header E)"
  shows "frame_decode E bs = Inr f \<longleftrightarrow> frame_encode E f = Inr bs"
  using frame_decode_encode [OF assms] frame_decode_canonical by blast

theorem frame_decode_iff_encode_witness:
  "frame_decode demo_env (demo_frame 5 [1, 2]) = Inr \<lparr>fr_device_id = demo_device, fr_sequence = 5,
     fr_payload_kind = (), fr_payload = [1, 2]\<rparr>"
  by (rule frame_decode_iff_encode [OF demo_roundtrips, THEN iffD2])
    (simp add: frame_encode_def demo_encode)

theorem open_adopts_exactly_the_log_witness:
  "open_from_sequence demo_env (demo_os (demo_frame 0 [1, 2] @ [9, 9, 9])) demo_name demo_device 0
     = (demo_frame 0 [1, 2], Inr (adopted demo_env (demo_os (demo_frame 0 [1, 2] @ [9, 9, 9])) demo_name
          demo_device 0 [((), [1, 2])] (demo_frame 0 [1, 2]) [9, 9, 9]))"
  by (rule open_adopts_exactly_the_log [OF demo_roundtrips demo_os_quiet(1) demo_name_safe, THEN iffD2])
    (auto simp: demo_os_quiet demo_log MAX_LOCAL_JOURNAL_SEGMENT_BYTES_def intro!: exI [of _ "[((), [1, 2])]"]
      simp del: encode_log.simps)

theorem open_after_torn_append_witness:
  "open_from_sequence demo_env (demo_os (demo_frame 0 [1, 2] @ take 100 (demo_frame 1 [3]))) demo_name demo_device 0
     = (demo_frame 0 [1, 2] @ take 100 (demo_frame 1 [3]), Inl (CorruptSegment 114 (excess_text 113 100)))"
proof -
  have "encode_frame demo_env demo_device (0 + of_nat (length [((), [1, 2 :: byte])])) () [3]
      = Inr (demo_frame 1 [3])" by (simp add: demo_encode)
  from open_after_torn_append [OF demo_roundtrips demo_os_quiet(1) demo_name_safe demo_log this, of 100
      "demo_frame 0 [1, 2] @ take 100 (demo_frame 1 [3])"]
  show ?thesis by (simp add: demo_os_quiet MAX_LOCAL_JOURNAL_SEGMENT_BYTES_def)
qed

definition demo_segment :: local_journal_segment where
  "demo_segment = fst (adopted demo_env (demo_os []) demo_name demo_device 0 [((), [1, 2])] (demo_frame 0 [1, 2]) [])"

lemma demo_segment_holds: "seg_holds demo_env [((), [1, 2])] demo_segment"
  unfolding demo_segment_def
  by (rule adopted_holds [OF demo_log]) (simp add: MAX_LOCAL_JOURNAL_SEGMENT_BYTES_def)

lemma demo_segment_fields:
  "seg_content demo_segment = demo_frame 0 [1, 2]" "seg_device_id demo_segment = demo_device"
  "seg_next_sequence demo_segment = 1" "seg_base_sequence demo_segment = 0"
  "seg_committed_bytes demo_segment = 114" "\<not> seg_poisoned demo_segment"
  by (simp_all add: demo_segment_def adopted_def)

lemma demo_append_ok:
  "\<exists>ap. snd (journal_append demo_env AppendOk demo_segment () [3]) = Inr ap"
  by (simp add: journal_append_def demo_segment_fields demo_encode checked_add64_one
      MAX_LOCAL_JOURNAL_SEGMENT_BYTES_def Let_def)


theorem replay_visits_the_log_witness:
  "journal_replay demo_env None Map.empty demo_segment
     = (demo_segment, [\<lparr>fr_device_id = demo_device, fr_sequence = 0, fr_payload_kind = (), fr_payload = [1, 2]\<rparr>], Inr 1)"
  using replay_visits_the_log [OF demo_roundtrips demo_segment_holds] by (simp add: demo_segment_fields)

theorem append_after_failed_replay_overwrites_witness:
  "snd (open_from_sequence demo_env
       (demo_os (seg_content (fst (journal_append demo_env AppendOk
          (fst (journal_replay demo_env None (\<lambda>_. Some ''EIO'') demo_segment)) () [3]))))
       demo_name demo_device 0)
     = Inl (SegmentSequenceGap 0 0 1)"
proof -
  have b: "encode_frame demo_env (seg_device_id demo_segment) (seg_next_sequence demo_segment) () [3]
      = Inr (demo_frame 1 [3])"
    by (simp add: demo_segment_fields demo_encode)
  show ?thesis
    using append_after_failed_replay_overwrites [OF demo_roundtrips demo_segment_holds, of "\<lambda>_. Some ''EIO''" "''EIO''",
        OF _ _ _ _ b _ demo_os_quiet(1) demo_name_safe refl demo_os_quiet(2)]
    by (simp add: demo_segment_fields MAX_LOCAL_JOURNAL_SEGMENT_BYTES_def)
qed

end
