(* ===== verification/Local_Journal_V2.thy ===== *)
theory Local_Journal_V2
  imports Local_Journal Filesystem
begin

text \<open>
  \<open>src/local_journal_v2.rs\<close>: the durable-publication journal.  A fixed 136-byte segment header gives
  a generation its identity; a 240-byte frontier, replaced atomically, is the sole authority for the
  committed prefix.  This theory has the two codecs, preparation, the selected open, append with its
  certainty-typed errors, replay, and the inspection of a legacy segment, over the filesystem state of
  \<open>Filesystem\<close> (Unix publication).
\<close>

section \<open>Constants and data\<close>

definition LOCAL_JOURNAL_SEGMENT_PROTOCOL_VERSION :: u32 where "LOCAL_JOURNAL_SEGMENT_PROTOCOL_VERSION = 2"
definition LOCAL_JOURNAL_SEGMENT_HEADER_BYTES :: nat where "LOCAL_JOURNAL_SEGMENT_HEADER_BYTES = 136"
definition LOCAL_JOURNAL_FRONTIER_BYTES :: nat where "LOCAL_JOURNAL_FRONTIER_BYTES = 240"
definition LOCAL_JOURNAL_FRONTIER_SUFFIX :: bytes where
  "LOCAL_JOURNAL_FRONTIER_SUFFIX = [0x2e, 0x66, 0x72, 0x6f, 0x6e, 0x74, 0x69, 0x65, 0x72, 0x2d, 0x76, 0x32]"
definition SEGMENT_MAGIC :: bytes where "SEGMENT_MAGIC = [0x54, 0x49, 0x4e, 0x45, 0x4a, 0x4e, 0x4c, 0x32]"
definition FRONTIER_MAGIC :: bytes where "FRONTIER_MAGIC = [0x54, 0x49, 0x4e, 0x45, 0x46, 0x52, 0x54, 0x32]"
definition CHECKSUM_BYTES :: nat where "CHECKSUM_BYTES = 32"
definition HEADER_CHECKSUM_OFFSET :: nat where
  "HEADER_CHECKSUM_OFFSET = LOCAL_JOURNAL_SEGMENT_HEADER_BYTES - CHECKSUM_BYTES"
definition FRONTIER_CHECKSUM_OFFSET :: nat where
  "FRONTIER_CHECKSUM_OFFSET = LOCAL_JOURNAL_FRONTIER_BYTES - CHECKSUM_BYTES"

lemmas v2_sizes = LOCAL_JOURNAL_SEGMENT_HEADER_BYTES_def LOCAL_JOURNAL_FRONTIER_BYTES_def CHECKSUM_BYTES_def
  HEADER_CHECKSUM_OFFSET_def FRONTIER_CHECKSUM_OFFSET_def LOCAL_JOURNAL_SEGMENT_PROTOCOL_VERSION_def

record v2_selection =
  sel_segment_name :: bytes
  sel_frontier_name :: bytes
  sel_segment_id :: uuid
  sel_name_digest :: digest
  sel_device_id :: uuid
  sel_base_sequence :: u64

definition selection_new ::
  "hash \<Rightarrow> bytes \<Rightarrow> uuid \<Rightarrow> uuid \<Rightarrow> u64 \<Rightarrow> local_journal_error + v2_selection" where
  "selection_new H segment_name segment_id device base =
     bind_res (require_safe_segment_name segment_name) (\<lambda>_.
       let frontier_name = segment_name @ LOCAL_JOURNAL_FRONTIER_SUFFIX in
       bind_res (require_safe_segment_name frontier_name) (\<lambda>_.
         Inr \<lparr>sel_segment_name = segment_name, sel_frontier_name = frontier_name,
              sel_segment_id = segment_id, sel_name_digest = H segment_name,
              sel_device_id = device, sel_base_sequence = base\<rparr>))"

datatype append_error_v2 =
    DefinitelyNotAppended local_journal_error
  | AppendOutcomeUnknown local_journal_error

definition outcome_is_unknown :: "append_error_v2 \<Rightarrow> bool" where
  "outcome_is_unknown e = (case e of AppendOutcomeUnknown _ \<Rightarrow> True | _ \<Rightarrow> False)"

fun append_error_cause :: "append_error_v2 \<Rightarrow> local_journal_error" where
  "append_error_cause (DefinitelyNotAppended e) = e"
| "append_error_cause (AppendOutcomeUnknown e) = e"

fun append_error_text :: "(uuid \<Rightarrow> string) \<Rightarrow> append_error_v2 \<Rightarrow> string" where
  "append_error_text U (DefinitelyNotAppended e) =
     ''append definitely did not start: '' @ journal_error_text U e"
| "append_error_text U (AppendOutcomeUnknown e) =
     ''append outcome is unknown until reopen: '' @ journal_error_text U e"

record segment_header_v2 =
  sh_segment_id :: uuid
  sh_name_digest :: digest
  sh_device_id :: uuid
  sh_base_sequence :: u64

record terminal_frame =
  tf_sequence :: u64
  tf_encoded_len :: u64
  tf_frame_digest :: digest

record frontier_v2 =
  fv_header :: segment_header_v2
  fv_next_sequence :: u64
  fv_committed_extent :: u64
  fv_terminal :: "terminal_frame option"
  fv_predecessor :: digest

definition corrupt :: "nat \<Rightarrow> string \<Rightarrow> local_journal_error + 'a" where
  "corrupt offset cause = Inl (CorruptSegment offset cause)"

definition zeros :: "nat \<Rightarrow> bytes" where "zeros n = replicate n 0"

definition all_zero :: "bytes \<Rightarrow> bool" where "all_zero bs \<longleftrightarrow> list_all (\<lambda>b. b = 0) bs"

section \<open>The segment header\<close>

definition header_for_selection :: "v2_selection \<Rightarrow> segment_header_v2" where
  "header_for_selection sel =
     \<lparr>sh_segment_id = sel_segment_id sel, sh_name_digest = sel_name_digest sel,
      sh_device_id = sel_device_id sel, sh_base_sequence = sel_base_sequence sel\<rparr>"

definition sealed :: "hash \<Rightarrow> bytes \<Rightarrow> bytes" where
  "sealed H bs = bs @ array_bytes (H bs)"

definition header_encode :: "hash \<Rightarrow> segment_header_v2 \<Rightarrow> bytes" where
  "header_encode H h = sealed H
     (SEGMENT_MAGIC @ be32 LOCAL_JOURNAL_SEGMENT_PROTOCOL_VERSION @ zeros 4
      @ array_bytes (sh_segment_id h) @ array_bytes (sh_name_digest h) @ array_bytes (sh_device_id h)
      @ be64 (sh_base_sequence h) @ zeros 16)"

definition header_fields :: "bytes \<Rightarrow> segment_header_v2" where
  "header_fields bs =
     \<lparr>sh_segment_id = mk_array (range_of 16 32 bs), sh_name_digest = mk_array (range_of 32 64 bs),
      sh_device_id = mk_array (range_of 64 80 bs), sh_base_sequence = of_be64 (range_of 80 88 bs)\<rparr>"

definition header_decode :: "hash \<Rightarrow> bytes \<Rightarrow> local_journal_error + segment_header_v2" where
  "header_decode H bs =
     (if length bs \<noteq> LOCAL_JOURNAL_SEGMENT_HEADER_BYTES
      then corrupt 0 ''segment header has a noncanonical length''
      else if range_of 0 8 bs \<noteq> SEGMENT_MAGIC then corrupt 0 ''segment header magic is invalid''
      else if of_be32 (range_of 8 12 bs) \<noteq> LOCAL_JOURNAL_SEGMENT_PROTOCOL_VERSION
      then corrupt 0 ''segment protocol version is unsupported''
      else if \<not> all_zero (range_of 12 16 bs) \<or> \<not> all_zero (range_of 88 HEADER_CHECKSUM_OFFSET bs)
      then corrupt 0 ''segment header reserved bytes are nonzero''
      else if drop HEADER_CHECKSUM_OFFSET bs \<noteq> array_bytes (H (take HEADER_CHECKSUM_OFFSET bs))
      then corrupt 0 ''segment header checksum mismatch''
      else Inr (header_fields bs))"

section \<open>The frontier\<close>

definition zero_digest :: digest where "zero_digest = mk_array (zeros 32)"

definition frontier_initial :: "segment_header_v2 \<Rightarrow> frontier_v2" where
  "frontier_initial h =
     \<lparr>fv_header = h, fv_next_sequence = sh_base_sequence h,
      fv_committed_extent = word_of_nat LOCAL_JOURNAL_SEGMENT_HEADER_BYTES, fv_terminal = None,
      fv_predecessor = zero_digest\<rparr>"

definition terminal_bytes :: "terminal_frame option \<Rightarrow> bytes" where
  "terminal_bytes t =
     (case t of
        None \<Rightarrow> [0] @ zeros 7 @ zeros 48
      | Some t \<Rightarrow> [1] @ zeros 7 @ be64 (tf_sequence t) @ be64 (tf_encoded_len t)
                 @ array_bytes (tf_frame_digest t))"

definition frontier_encode :: "hash \<Rightarrow> frontier_v2 \<Rightarrow> bytes" where
  "frontier_encode H f = sealed H
     (FRONTIER_MAGIC @ be32 LOCAL_JOURNAL_SEGMENT_PROTOCOL_VERSION @ zeros 4
      @ array_bytes (sh_segment_id (fv_header f)) @ array_bytes (sh_name_digest (fv_header f))
      @ array_bytes (sh_device_id (fv_header f)) @ be64 (sh_base_sequence (fv_header f))
      @ be64 (fv_next_sequence f) @ be64 (fv_committed_extent f) @ terminal_bytes (fv_terminal f)
      @ array_bytes (fv_predecessor f) @ zeros 16)"

definition terminal_decode :: "bytes \<Rightarrow> local_journal_error + terminal_frame option" where
  "terminal_decode bs =
     (if bs ! 104 = 0
      then if \<not> all_zero (range_of 112 160 bs)
           then corrupt 0 ''empty frontier has terminal frame fields'' else Inr None
      else if bs ! 104 = 1
      then Inr (Some \<lparr>tf_sequence = of_be64 (range_of 112 120 bs),
                      tf_encoded_len = of_be64 (range_of 120 128 bs),
                      tf_frame_digest = mk_array (range_of 128 160 bs)\<rparr>)
      else corrupt 0 ''frontier terminal tag is invalid'')"

definition frontier_decode :: "hash \<Rightarrow> bytes \<Rightarrow> local_journal_error + frontier_v2" where
  "frontier_decode H bs =
     (if length bs \<noteq> LOCAL_JOURNAL_FRONTIER_BYTES then corrupt 0 ''frontier has a noncanonical length''
      else if range_of 0 8 bs \<noteq> FRONTIER_MAGIC then corrupt 0 ''frontier magic is invalid''
      else if of_be32 (range_of 8 12 bs) \<noteq> LOCAL_JOURNAL_SEGMENT_PROTOCOL_VERSION
      then corrupt 0 ''frontier protocol version is unsupported''
      else if \<not> all_zero (range_of 12 16 bs) \<or> \<not> all_zero (range_of 105 112 bs)
              \<or> \<not> all_zero (range_of 192 FRONTIER_CHECKSUM_OFFSET bs)
      then corrupt 0 ''frontier reserved bytes are nonzero''
      else if drop FRONTIER_CHECKSUM_OFFSET bs \<noteq> array_bytes (H (take FRONTIER_CHECKSUM_OFFSET bs))
      then corrupt 0 ''frontier checksum mismatch''
      else bind_res (terminal_decode bs) (\<lambda>terminal.
        Inr \<lparr>fv_header = header_fields bs, fv_next_sequence = of_be64 (range_of 88 96 bs),
             fv_committed_extent = of_be64 (range_of 96 104 bs), fv_terminal = terminal,
             fv_predecessor = mk_array (range_of 160 192 bs)\<rparr>))"

definition frontier_successor :: "hash \<Rightarrow> frontier_v2 \<Rightarrow> bytes \<Rightarrow> local_journal_error + frontier_v2" where
  "frontier_successor H f frame =
     bind_res (ok_or SequenceExhausted (checked_add64 (fv_next_sequence f) 1)) (\<lambda>next.
     let encoded_len = word_of_nat (length frame) in
     bind_res (case checked_add64 (fv_committed_extent f) encoded_len of
                 Some extent \<Rightarrow>
                   if unat extent \<le> MAX_LOCAL_JOURNAL_SEGMENT_BYTES then Inr extent
                   else Inl (SegmentTooLarge (unat (saturating_add64 (fv_committed_extent f) encoded_len)))
               | None \<Rightarrow> Inl (SegmentTooLarge (unat (saturating_add64 (fv_committed_extent f) encoded_len))))
       (\<lambda>extent.
         Inr \<lparr>fv_header = fv_header f, fv_next_sequence = next, fv_committed_extent = extent,
              fv_terminal = Some \<lparr>tf_sequence = fv_next_sequence f, tf_encoded_len = encoded_len,
                                   tf_frame_digest = H frame\<rparr>,
              fv_predecessor = H (frontier_encode H f)\<rparr>))"

section \<open>Both codecs are exact\<close>

lemma length_zeros [simp]: "length (zeros n) = n"
  by (simp add: zeros_def)

lemma zeros_0 [simp]: "zeros 0 = []"
  by (simp add: zeros_def)

lemma inode_update [simp]: "x\<lparr>in_bytes := a, in_durable := d\<rparr> = \<lparr>in_bytes = a, in_durable = d\<rparr>"
  by (cases x) simp

lemma all_zero_zeros [simp]: "all_zero (zeros n)"
  by (simp add: all_zero_def zeros_def list_all_iff)

lemma all_zero_eq: "all_zero bs \<Longrightarrow> bs = zeros (length bs)"
  by (simp add: all_zero_def zeros_def list_all_iff replicate_eqI)

lemma length_magics [simp]: "length SEGMENT_MAGIC = 8" "length FRONTIER_MAGIC = 8"
  by (simp_all add: SEGMENT_MAGIC_def FRONTIER_MAGIC_def)

lemma range_of_cons_join:
  "lo \<le> mid \<Longrightarrow> mid \<le> hi \<Longrightarrow> range_of lo mid xs @ range_of mid hi xs @ ys = range_of lo hi xs @ ys"
  by (metis append_assoc range_of_join)

lemma mk_range: "hi - lo = LENGTH('n::len) \<Longrightarrow> hi \<le> length bs
  \<Longrightarrow> array_bytes (mk_array (range_of lo hi bs) :: 'n byte_array) = range_of lo hi bs"
  by (rule array_bytes_mk_array) simp

lemma header_decode_encode: "header_decode H (header_encode H h) = Inr h"
  by (simp add: header_decode_def header_encode_def sealed_def header_fields_def v2_sizes
      list_cut codec_simps length_be length_array_bytes)

lemma header_decode_canonical:
  assumes "header_decode H bs = Inr h"
  shows "header_encode H h = bs"
proof -
  from assms have c: "length bs = 136" "range_of 0 8 bs = SEGMENT_MAGIC" "of_be32 (range_of 8 12 bs) = 2"
    "all_zero (range_of 12 16 bs)" "all_zero (range_of 88 104 bs)"
    "drop 104 bs = array_bytes (H (take 104 bs))" "h = header_fields bs"
    by (auto simp: header_decode_def corrupt_def v2_sizes split: if_splits)
  have v: "be32 2 = range_of 8 12 bs" using be32_of_be32 [of "range_of 8 12 bs"] c(1,3) by simp
  have z: "zeros 4 = range_of 12 16 bs" "zeros 16 = range_of 88 104 bs"
    using all_zero_eq [OF c(4)] all_zero_eq [OF c(5)] c(1) by simp_all
  have "SEGMENT_MAGIC @ be32 2 @ zeros 4 @ array_bytes (sh_segment_id h) @ array_bytes (sh_name_digest h)
      @ array_bytes (sh_device_id h) @ be64 (sh_base_sequence h) @ zeros 16 = take 104 bs"
    unfolding v z c(2) [symmetric] c(7) header_fields_def
    using c(1) by (simp add: mk_range be64_of_be64 range_of_cons_join range_of_join) (simp add: range_of_def)
  then have "header_encode H h = take 104 bs @ drop 104 bs"
    by (simp add: header_encode_def sealed_def v2_sizes c(6))
  then show ?thesis by simp
qed

interpretation segment_header: byte_codec "\<lambda>h. Inr (header_encode H h)" "header_decode H" for H :: hash
  by unfold_locales (auto simp: header_decode_encode dest: header_decode_canonical)

lemma length_terminal_bytes [simp]: "length (terminal_bytes t) = 56"
  by (simp add: terminal_bytes_def length_be length_array_bytes split: option.split)

lemma length_header_encode [simp]: "length (header_encode H h) = 136"
  by (simp add: header_encode_def sealed_def length_be length_array_bytes)

lemma length_frontier_encode [simp]: "length (frontier_encode H f) = 240"
  by (simp add: frontier_encode_def sealed_def length_be length_array_bytes)

lemma terminal_cut:
  assumes "length pre = 104" "bs = pre @ terminal_bytes t @ post"
  shows "terminal_decode bs = Inr t" "all_zero (range_of 105 112 bs)"
  using assms
  by (auto simp: terminal_decode_def terminal_bytes_def nth_append list_cut codec_simps length_be length_array_bytes
      range_of_def split: option.split)

lemma frontier_decode_encode: "frontier_decode H (frontier_encode H f) = Inr f"
proof -
  define pre where "pre = FRONTIER_MAGIC @ be32 LOCAL_JOURNAL_SEGMENT_PROTOCOL_VERSION @ zeros 4
      @ array_bytes (sh_segment_id (fv_header f)) @ array_bytes (sh_name_digest (fv_header f))
      @ array_bytes (sh_device_id (fv_header f)) @ be64 (sh_base_sequence (fv_header f))
      @ be64 (fv_next_sequence f) @ be64 (fv_committed_extent f)"
  define body where "body = pre @ terminal_bytes (fv_terminal f) @ array_bytes (fv_predecessor f) @ zeros 16"
  have len: "length pre = 104" "length body = 208"
    by (simp_all add: pre_def body_def length_be length_array_bytes)
  have enc: "frontier_encode H f = body @ array_bytes (H body)"
    by (simp add: frontier_encode_def sealed_def body_def pre_def)
  note t = terminal_cut [OF len(1), of "frontier_encode H f" "fv_terminal f"
      "array_bytes (fv_predecessor f) @ zeros 16 @ array_bytes (H body)"]
  have t': "terminal_decode (frontier_encode H f) = Inr (fv_terminal f)"
    "all_zero (range_of 105 112 (frontier_encode H f))"
    by (rule t; simp add: enc body_def)+
  have p: "range_of lo hi (frontier_encode H f) = range_of lo hi pre" if "hi \<le> 104" for lo hi
    using that len by (simp add: enc body_def range_of_append)
  have q: "range_of 160 192 (frontier_encode H f) = array_bytes (fv_predecessor f)"
    "range_of 192 208 (frontier_encode H f) = zeros 16"
    using len by (simp_all add: enc body_def range_of_append length_array_bytes)
  have d: "take 208 (frontier_encode H f) = body" "drop 208 (frontier_encode H f) = array_bytes (H body)"
    using len by (simp_all add: enc)
  have fields: "range_of 0 8 pre = FRONTIER_MAGIC" "range_of 8 12 pre = be32 LOCAL_JOURNAL_SEGMENT_PROTOCOL_VERSION"
    "range_of 12 16 pre = zeros 4" "range_of 88 96 pre = be64 (fv_next_sequence f)"
    "range_of 96 104 pre = be64 (fv_committed_extent f)" "header_fields pre = fv_header f"
    by (simp_all add: pre_def header_fields_def list_cut codec_simps length_be length_array_bytes)
  have "header_fields (frontier_encode H f) = fv_header f"
    using fields(6) by (simp add: header_fields_def p)
  then show ?thesis
    using t' q d fields by (simp add: frontier_decode_def v2_sizes p)
qed

lemma terminal_canonical:
  assumes "terminal_decode bs = Inr t" "all_zero (range_of 105 112 bs)" "length bs = 240"
  shows "terminal_bytes t = range_of 104 160 bs"
proof -
  have z: "range_of 105 112 bs = zeros 7" using all_zero_eq [OF assms(2)] assms(3) by simp
  have n: "range_of 104 105 bs = [bs ! 104]"
    using assms(3) by (simp add: range_of_def take_Suc_conv_app_nth hd_drop_conv_nth take_Suc)
  have cut: "range_of 104 160 bs = [bs ! 104] @ zeros 7 @ range_of 112 160 bs"
    unfolding n [symmetric] z [symmetric] by (simp add: range_of_cons_join range_of_join)
  show ?thesis
  proof (cases t)
    case None
    with assms(1) have "bs ! 104 = 0" "all_zero (range_of 112 160 bs)"
      by (auto simp: terminal_decode_def corrupt_def split: if_splits)
    with all_zero_eq [OF this(2)] assms(3) show ?thesis unfolding cut by (simp add: None terminal_bytes_def)
  next
    case (Some x)
    with assms(1) have "bs ! 104 = 1" "x = \<lparr>tf_sequence = of_be64 (range_of 112 120 bs),
        tf_encoded_len = of_be64 (range_of 120 128 bs), tf_frame_digest = mk_array (range_of 128 160 bs)\<rparr>"
      by (auto simp: terminal_decode_def corrupt_def split: if_splits)
    with assms(3) show ?thesis
      unfolding cut by (simp add: Some terminal_bytes_def be64_of_be64 mk_range range_of_cons_join range_of_join)
  qed
qed

lemma frontier_decode_canonical:
  assumes "frontier_decode H bs = Inr f"
  shows "frontier_encode H f = bs"
proof -
  from assms obtain t where c: "length bs = 240" "range_of 0 8 bs = FRONTIER_MAGIC" "of_be32 (range_of 8 12 bs) = 2"
    "all_zero (range_of 12 16 bs)" "all_zero (range_of 105 112 bs)" "all_zero (range_of 192 208 bs)"
    "drop 208 bs = array_bytes (H (take 208 bs))" "terminal_decode bs = Inr t"
    "f = \<lparr>fv_header = header_fields bs, fv_next_sequence = of_be64 (range_of 88 96 bs),
             fv_committed_extent = of_be64 (range_of 96 104 bs), fv_terminal = t,
             fv_predecessor = mk_array (range_of 160 192 bs)\<rparr>"
    by (auto simp: frontier_decode_def corrupt_def v2_sizes bind_res_Inr split: if_splits)
  have v: "be32 2 = range_of 8 12 bs" using be32_of_be32 [of "range_of 8 12 bs"] c(1,3) by simp
  have z: "zeros 4 = range_of 12 16 bs" "zeros 16 = range_of 192 208 bs"
    using all_zero_eq [OF c(4)] all_zero_eq [OF c(6)] c(1) by simp_all
  note t = terminal_canonical [OF c(8,5,1)]
  have "FRONTIER_MAGIC @ be32 2 @ zeros 4
      @ array_bytes (sh_segment_id (fv_header f)) @ array_bytes (sh_name_digest (fv_header f))
      @ array_bytes (sh_device_id (fv_header f)) @ be64 (sh_base_sequence (fv_header f))
      @ be64 (fv_next_sequence f) @ be64 (fv_committed_extent f) @ terminal_bytes (fv_terminal f)
      @ array_bytes (fv_predecessor f) @ zeros 16 = take 208 bs"
    unfolding v z c(2) [symmetric] c(9) header_fields_def
    using c(1) by (simp add: t mk_range be64_of_be64 range_of_cons_join range_of_join) (simp add: range_of_def)
  then have "frontier_encode H f = take 208 bs @ drop 208 bs"
    by (simp add: frontier_encode_def sealed_def v2_sizes c(7))
  then show ?thesis by simp
qed

interpretation frontier: byte_codec "\<lambda>f. Inr (frontier_encode H f)" "frontier_decode H" for H :: hash
  by unfold_locales (auto simp: frontier_decode_encode dest: frontier_decode_canonical)

section \<open>Reading committed frames\<close>

definition read_complete_frame ::
  "'k journal_env \<Rightarrow> read_faults \<Rightarrow> bytes \<Rightarrow> nat \<Rightarrow> nat \<Rightarrow> buf_reader
     \<Rightarrow> (local_journal_error + ('k journal_frame \<times> bytes)) \<times> buf_reader" where
  "read_complete_frame E rd content offset limit r =
     (if limit < offset then (corrupt offset ''frame offset exceeds committed extent'', r)
      else let remaining = limit - offset in
        if remaining < MIN_FRAME_BYTES then (corrupt offset ''committed frame is truncated'', r)
        else case read_exact rd content 20 \<lparr>br_pos = offset, br_avail = 0\<rparr> of
          (Inl e, r) \<Rightarrow> (Inl (JournalIo e), r)
        | (Inr prefix, r) \<Rightarrow>
            (if range_of 0 8 prefix \<noteq> FRAME_MAGIC then (corrupt offset ''frame magic is invalid'', r)
             else case frame_total (unat (of_be32 (range_of 8 12 prefix)))
                         (unat (of_be64 (range_of 12 20 prefix))) of
               Inl e \<Rightarrow> (Inl e, r)
             | Inr len \<Rightarrow>
                 if len > MAX_LOCAL_JOURNAL_FRAME_BYTES then (Inl (FrameTooLarge len), r)
                 else if len > remaining
                 then (corrupt offset (''declared frame length '' @ show_nat len @ '' exceeds the ''
                         @ show_nat remaining @ '' remaining bytes''), r)
                 else (case read_exact rd content (len - 20) r of
                    (Inl e, r) \<Rightarrow> (Inl (JournalIo e), r)
                  | (Inr rest, r) \<Rightarrow>
                      (case frame_decode E (prefix @ rest) of
                         Inl cause \<Rightarrow>
                           (Inl (CorruptSegment offset (journal_error_text (env_uuid_text E) cause)), r)
                       | Inr f \<Rightarrow> (Inr (f, prefix @ rest), r)))))"

lemma decoded_length: "frame_decode E bs = Inr f \<Longrightarrow> 52 \<le> length bs"
  by (auto simp: frame_decode_def journal_limits split: if_splits)

lemma read_complete_progress:
  "fst (read_complete_frame E rd content offset limit r) = Inr (f, bs) \<Longrightarrow> 52 \<le> length bs \<and> offset + 52 \<le> limit"
  by (auto simp: read_complete_frame_def corrupt_def Let_def journal_limits dest!: decoded_length
      split: if_splits prod.splits sum.splits)

record 'k prefix_scan =
  ps_committed_extent :: nat
  ps_frames_recovered :: nat
  ps_next_sequence :: u64
  ps_last_frame :: "'k journal_frame option"

text \<open>The loop of \<open>scan_v2_prefix\<close>; it also returns the bytes of the terminal frame.\<close>

function scan_v2_loop ::
  "'k journal_env \<Rightarrow> read_faults \<Rightarrow> bytes \<Rightarrow> uuid \<Rightarrow> nat \<Rightarrow> nat \<Rightarrow> u64 \<Rightarrow> nat
     \<Rightarrow> ('k journal_frame \<times> bytes) option \<Rightarrow> buf_reader
     \<Rightarrow> local_journal_error + (nat \<times> u64 \<times> nat \<times> ('k journal_frame \<times> bytes) option)" where
  "scan_v2_loop E rd content device extent offset next frames lastf r =
     (if offset < extent
      then let p = read_complete_frame E rd content offset extent r in
        case fst p of
          Inl e \<Rightarrow> Inl e
        | Inr (f, bs) \<Rightarrow>
            if fr_device_id f \<noteq> device then Inl (SegmentDeviceMismatch offset device (fr_device_id f))
            else if fr_sequence f \<noteq> next then Inl (SegmentSequenceGap offset next (fr_sequence f))
            else (case checked_add64 next 1 of
                    None \<Rightarrow> Inl SequenceExhausted
                  | Some next' \<Rightarrow>
                      if offset + length bs > extent
                      then corrupt offset ''frame crosses the committed frontier''
                      else scan_v2_loop E rd content device extent (offset + length bs) next'
                             (frames + 1) (Some (f, bs)) (snd p))
      else Inr (offset, next, frames, lastf))"
  by pat_completeness auto
termination
  by (relation "measure (\<lambda>(E, rd, content, device, extent, offset, next, frames, lastf, r). extent - offset)")
    (auto dest!: read_complete_progress)

declare scan_v2_loop.simps [simp del]

definition terminal_matches ::
  "hash \<Rightarrow> frontier_v2 \<Rightarrow> ('k journal_frame \<times> bytes) option \<Rightarrow> bool" where
  "terminal_matches H f lastf =
     (case (fv_terminal f, lastf) of
        (None, None) \<Rightarrow>
          unat (fv_committed_extent f) = LOCAL_JOURNAL_SEGMENT_HEADER_BYTES
          \<and> fv_next_sequence f = sh_base_sequence (fv_header f) \<and> fv_predecessor f = zero_digest
      | (Some t, Some (frame, bs)) \<Rightarrow>
          tf_sequence t = fr_sequence frame \<and> unat (tf_encoded_len t) = length bs
          \<and> tf_frame_digest t = H bs \<and> fv_predecessor f \<noteq> zero_digest
      | _ \<Rightarrow> False)"

definition scan_v2_prefix ::
  "'k journal_env \<Rightarrow> read_faults \<Rightarrow> bytes \<Rightarrow> frontier_v2 \<Rightarrow> local_journal_error + 'k prefix_scan" where
  "scan_v2_prefix E rd content f =
     (if length content > MAX_LOCAL_JOURNAL_SEGMENT_BYTES then Inl (SegmentTooLarge (length content))
      else if unat (fv_committed_extent f) < LOCAL_JOURNAL_SEGMENT_HEADER_BYTES
              \<or> unat (fv_committed_extent f) > MAX_LOCAL_JOURNAL_SEGMENT_BYTES
              \<or> length content < unat (fv_committed_extent f)
      then corrupt 0 ''frontier committed extent is outside the segment''
      else bind_res (scan_v2_loop E rd content (sh_device_id (fv_header f)) (unat (fv_committed_extent f))
                       LOCAL_JOURNAL_SEGMENT_HEADER_BYTES (sh_base_sequence (fv_header f)) 0 None
                       \<lparr>br_pos = 0, br_avail = 0\<rparr>) (\<lambda>(offset, next, frames, lastf).
        if offset \<noteq> unat (fv_committed_extent f) \<or> next \<noteq> fv_next_sequence f
        then corrupt offset ''frontier extent or next sequence does not match its frames''
        else if \<not> terminal_matches (env_sha256 E) f lastf
        then corrupt offset ''frontier terminal metadata does not match the segment''
        else Inr \<lparr>ps_committed_extent = offset, ps_frames_recovered = frames, ps_next_sequence = next,
                  ps_last_frame = map_option fst lastf\<rparr>))"

section \<open>Legacy inspection\<close>

text \<open>
  The error the code reclassifies is recognised by its text: a \<open>CorruptSegment\<close> whose cause contains
  \<open>declared frame length\<close> becomes an ambiguous legacy suffix.
\<close>

function inspect_v1_loop ::
  "'k journal_env \<Rightarrow> read_faults \<Rightarrow> bytes \<Rightarrow> uuid \<Rightarrow> nat \<Rightarrow> u64 \<Rightarrow> nat \<Rightarrow> 'k journal_frame option
     \<Rightarrow> buf_reader \<Rightarrow> local_journal_error + 'k prefix_scan" where
  "inspect_v1_loop E rd content device offset next frames lastf r =
     (if offset < length content
      then let remaining = length content - offset in
        if remaining < MIN_FRAME_BYTES then Inl (AmbiguousLegacySuffix offset remaining)
        else let p = read_complete_frame E rd content offset (length content) r in
          case fst p of
            Inl (CorruptSegment at cause) \<Rightarrow>
              if contains cause ''declared frame length''
              then Inl (AmbiguousLegacySuffix offset remaining) else Inl (CorruptSegment at cause)
          | Inl e \<Rightarrow> Inl e
          | Inr (f, bs) \<Rightarrow>
              if fr_device_id f \<noteq> device then Inl (SegmentDeviceMismatch offset device (fr_device_id f))
              else if fr_sequence f \<noteq> next then Inl (SegmentSequenceGap offset next (fr_sequence f))
              else (case checked_add64 next 1 of
                      None \<Rightarrow> Inl SequenceExhausted
                    | Some next' \<Rightarrow>
                        inspect_v1_loop E rd content device (offset + length bs) next' (frames + 1)
                          (Some f) (snd p))
      else Inr \<lparr>ps_committed_extent = offset, ps_frames_recovered = frames, ps_next_sequence = next,
                ps_last_frame = lastf\<rparr>)"
  by pat_completeness auto
termination
  by (relation "measure (\<lambda>(E, rd, content, device, offset, next, frames, lastf, r). length content - offset)")
    (auto dest!: read_complete_progress)

declare inspect_v1_loop.simps [simp del]

definition inspect_v1 ::
  "'k journal_env \<Rightarrow> read_faults \<Rightarrow> bytes \<Rightarrow> uuid \<Rightarrow> u64 \<Rightarrow> local_journal_error + 'k prefix_scan" where
  "inspect_v1 E rd content device base =
     (if length content > MAX_LOCAL_JOURNAL_SEGMENT_BYTES then Inl (SegmentTooLarge (length content))
      else inspect_v1_loop E rd content device 0 base 0 None \<lparr>br_pos = 0, br_avail = 0\<rparr>)"

section \<open>Files of a generation\<close>

type_synonym 'a journal_io = "fsys \<Rightarrow> (local_journal_error + 'a) \<times> fsys"

definition lift_journal :: "'a io \<Rightarrow> 'a journal_io" where
  "lift_journal m s = (case m s of (Inl e, s') \<Rightarrow> (Inl (JournalIo (error_text e)), s') | (Inr x, s') \<Rightarrow> (Inr x, s'))"

definition open_regular_read_write_nofollow :: "bytes \<Rightarrow> dir_entry io" where
  "open_regular_read_write_nofollow name = syscall (\<lambda>s.
     case fs_dir s name of
       None \<Rightarrow> (Inl (IoError NotFound ''no such file''), s)
     | Some Symlink \<Rightarrow> (Inl (IoError OtherKind ''too many levels of symbolic links''), s)
     | Some Directory \<Rightarrow> (Inl (IoError OtherKind ''is a directory''), s)
     | Some e \<Rightarrow> (Inr e, s))"

text \<open>
  \<open>flock\<close>: that another process holds the lock is an outcome of the call (\<open>WouldBlock\<close>).
\<close>

definition lock_exclusive_nonblocking :: "bool journal_io" where
  "lock_exclusive_nonblocking =
     catch_fs (syscall (\<lambda>s. (Inr (), s)))
       (\<lambda>e. if error_kind e = WouldBlock then fs_return False else fs_throw (JournalIo (error_text e)))
       (\<lambda>_. fs_return True)"

text \<open>Calls without an effect on the files: duplicating a handle, seeking.\<close>

definition sys_plain :: "unit io" where "sys_plain = syscall (\<lambda>s. (Inr (), s))"

definition entry_bytes :: "dir_entry \<Rightarrow> fsys \<Rightarrow> bytes" where
  "entry_bytes e s = (case e of RegularFile i \<Rightarrow> file_bytes s i | _ \<Rightarrow> [])"

definition read_header :: "hash \<Rightarrow> read_faults \<Rightarrow> dir_entry \<Rightarrow> segment_header_v2 journal_io" where
  "read_header H rd e =
     fs_bind (lift_journal (sys_metadata e)) (\<lambda>(_, len).
       if len < LOCAL_JOURNAL_SEGMENT_HEADER_BYTES then fs_check (corrupt 0 ''segment header is truncated'')
       else fs_bind (lift_journal sys_plain) (\<lambda>_.
         case rd 0 of Some err \<Rightarrow> fs_throw (JournalIo err)
         | None \<Rightarrow> (\<lambda>s. fs_check (header_decode H (take LOCAL_JOURNAL_SEGMENT_HEADER_BYTES (entry_bytes e s))) s)))"

definition read_regular_exact_length :: "bytes \<Rightarrow> nat \<Rightarrow> bytes journal_io" where
  "read_regular_exact_length name expected =
     catch_fs (read_required_regular name (saturating_succ expected) (Some expected))
       (\<lambda>e. case e of
          StoredLengthMismatch _ _ _ \<Rightarrow> fs_check (corrupt 0 (''frontier is not canonical: '' @ filesystem_error_text e))
        | StoredFileTooLarge _ _ _ \<Rightarrow> fs_check (corrupt 0 (''frontier is not canonical: '' @ filesystem_error_text e))
        | ByteCollision \<Rightarrow> fs_check (corrupt 0 (''frontier is not canonical: '' @ filesystem_error_text e))
        | _ \<Rightarrow> fs_throw (JournalIo (filesystem_error_text e)))
       fs_return"

definition read_frontier_exact :: "bytes \<Rightarrow> bytes journal_io" where
  "read_frontier_exact name = read_regular_exact_length name LOCAL_JOURNAL_FRONTIER_BYTES"

definition verify_regular_exact :: "bytes \<Rightarrow> bytes \<Rightarrow> unit journal_io" where
  "verify_regular_exact name expected =
     fs_bind (read_regular_exact_length name (length expected)) (\<lambda>actual.
       if actual \<noteq> expected
       then fs_check (corrupt 0 ''reopened frontier bytes differ from the published successor'')
       else fs_return ())"

section \<open>Preparation\<close>

definition create_exact_durable :: "bytes \<Rightarrow> bytes \<Rightarrow> bytes \<Rightarrow> unit journal_io" where
  "create_exact_durable uuid name bs =
     catch_fs (publish_immutable_exact uuid name bs)
       (\<lambda>e. case e of
          ByteCollision \<Rightarrow> fs_throw (PreparedArtifactExists name)
        | StoredLengthMismatch _ _ _ \<Rightarrow> fs_throw (PreparedArtifactExists name)
        | _ \<Rightarrow> fs_throw (JournalIo (''durable preparation of '' @ text_of_bytes name @ '' failed: ''
                                 @ filesystem_error_text e)))
       (\<lambda>_. verify_regular_exact name bs)"

definition prepare :: "hash \<Rightarrow> bytes \<Rightarrow> bytes \<Rightarrow> v2_selection \<Rightarrow> unit journal_io" where
  "prepare H uuid1 uuid2 sel =
     (let header = header_for_selection sel in
      fs_bind (create_exact_durable uuid1 (sel_segment_name sel) (header_encode H header)) (\<lambda>_.
        create_exact_durable uuid2 (sel_frontier_name sel) (frontier_encode H (frontier_initial header))))"

section \<open>The selected segment\<close>

text \<open>
  \<open>v2_file\<close> is the inode behind the locked handle and \<open>v2_cursor\<close> its offset.  After a failed append
  the cursor is not tracked: the segment is poisoned and never writes again.
\<close>

record v2_segment =
  v2_file :: nat
  v2_cursor :: nat
  v2_selection :: v2_selection
  v2_frontier :: frontier_v2
  v2_poisoned :: bool
  v2_stats :: local_journal_stats

definition sys_set_len :: "nat \<Rightarrow> nat \<Rightarrow> unit io" where
  "sys_set_len i n = syscall (\<lambda>s. (Inr (), put_bytes i (take n (file_bytes s i @ zeros (n - length (file_bytes s i)))) s))"

text \<open>The open from the header check on, with the segment's entry behind the handle.\<close>

definition adopt_frontier ::
  "'k journal_env \<Rightarrow> read_faults \<Rightarrow> v2_selection \<Rightarrow> dir_entry \<Rightarrow> segment_header_v2
     \<Rightarrow> (v2_segment \<times> 'k local_journal_recovery) journal_io" where
  "adopt_frontier E rd sel entry header =
     (if header \<noteq> header_for_selection sel
      then fs_check (corrupt 0 ''segment header does not match the selected generation'')
      else fs_bind (read_frontier_exact (sel_frontier_name sel)) (\<lambda>frontier_bytes.
        fs_bind (fs_check (frontier_decode (env_sha256 E) frontier_bytes)) (\<lambda>f.
          if fv_header f \<noteq> header
          then fs_check (corrupt 0 ''frontier does not bind the selected segment header'')
          else fs_bind (lift_journal sys_plain) (\<lambda>_.
            fs_bind (\<lambda>s. fs_check (scan_v2_prefix E rd (entry_bytes entry s) f) s) (\<lambda>scan.
            fs_bind (lift_journal (sys_metadata entry)) (\<lambda>(_, file_len).
              let extent = unat (fv_committed_extent f); torn = file_len > extent;
                  file = (case entry of RegularFile i \<Rightarrow> i | _ \<Rightarrow> 0) in
              fs_bind (if torn
                       then fs_bind (lift_journal (sys_set_len file extent))
                              (\<lambda>_. lift_journal (sys_sync_file file))
                       else fs_return ()) (\<lambda>_.
              fs_bind (lift_journal sys_plain) (\<lambda>_.
                fs_return
                  (\<lparr>v2_file = file, v2_cursor = extent, v2_selection = sel, v2_frontier = f,
                    v2_poisoned = False,
                    v2_stats = stats_default \<lparr>data_durability_syncs := if torn then 1 else 0,
                                 recovery_truncations := if torn then 1 else 0\<rparr>\<rparr>,
                   \<lparr>frames_recovered = ps_frames_recovered scan,
                    discarded_tail_bytes = file_len - ps_committed_extent scan,
                    last_frame = ps_last_frame scan\<rparr>)))))))))"

definition open_selected ::
  "'k journal_env \<Rightarrow> read_faults \<Rightarrow> v2_selection \<Rightarrow> (v2_segment \<times> 'k local_journal_recovery) journal_io" where
  "open_selected E rd sel =
     fs_bind (fs_check (require_safe_segment_name (sel_segment_name sel))) (\<lambda>_.
     fs_bind (lift_journal (open_regular_read_write_nofollow (sel_segment_name sel))) (\<lambda>entry.
     fs_bind lock_exclusive_nonblocking (\<lambda>locked.
       if \<not> locked then fs_throw (SegmentAlreadyOpen (sel_segment_name sel))
       else fs_bind (lift_journal (sys_metadata entry)) (\<lambda>(is_file, _).
         if \<not> is_file then fs_throw (UnsafeSegmentName (sel_segment_name sel))
         else fs_bind (read_header (env_sha256 E) rd entry) (adopt_frontier E rd sel entry)))))"

section \<open>Append\<close>

definition sys_write_at :: "nat \<Rightarrow> nat \<Rightarrow> bytes \<Rightarrow> unit io" where
  "sys_write_at i at bs =
     syscall_part (\<lambda>n s. put_bytes i (write_at (file_bytes s i) at (take n bs)) s)
       (\<lambda>s. (Inr (), put_bytes i (write_at (file_bytes s i) at bs) s))"

definition frontier_temp :: "bytes \<Rightarrow> bytes \<Rightarrow> bytes" where
  "frontier_temp name uuid = [0x2e] @ name @ [0x2e] @ uuid @ [0x2e, 0x74, 0x6d, 0x70]"

definition publish_frontier_durable :: "bytes \<Rightarrow> bytes \<Rightarrow> bytes \<Rightarrow> unit io" where
  "publish_frontier_durable uuid name bs =
     fs_bind (sys_create (frontier_temp name uuid)) (\<lambda>temp.
     fs_bind (sys_append temp bs) (\<lambda>_.
     fs_bind (sys_sync_file temp) (\<lambda>_.
     fs_bind (sys_rename (frontier_temp name uuid) name) (\<lambda>_.
       sync_dir_required))))"

text \<open>The part of an append that runs with the segment poisoned.\<close>

definition append_commit :: "hash \<Rightarrow> bytes \<Rightarrow> v2_segment \<Rightarrow> bytes \<Rightarrow> frontier_v2 \<Rightarrow> unit journal_io" where
  "append_commit H uuid seg bs successor =
     fs_bind (lift_journal (sys_write_at (v2_file seg) (v2_cursor seg) bs)) (\<lambda>_.
     fs_bind (lift_journal (sys_sync_file (v2_file seg))) (\<lambda>_.
     fs_bind (lift_journal (publish_frontier_durable uuid (sel_frontier_name (v2_selection seg))
                (frontier_encode H successor))) (\<lambda>_.
       verify_regular_exact (sel_frontier_name (v2_selection seg)) (frontier_encode H successor))))"

definition v2_append ::
  "'k journal_env \<Rightarrow> bytes \<Rightarrow> v2_segment \<Rightarrow> 'k \<Rightarrow> bytes \<Rightarrow> fsys
     \<Rightarrow> (append_error_v2 + local_journal_append) \<times> v2_segment \<times> fsys" where
  "v2_append E uuid seg kind payload s =
     (if v2_poisoned seg then (Inl (DefinitelyNotAppended SegmentPoisoned), seg, s)
      else let seqn = fv_next_sequence (v2_frontier seg) in
        case bind_res (encode_frame E (sel_device_id (v2_selection seg)) seqn kind payload) (\<lambda>bs.
             bind_res (frontier_successor (env_sha256 E) (v2_frontier seg) bs) (\<lambda>successor.
               Inr (bs, successor))) of
          Inl e \<Rightarrow> (Inl (DefinitelyNotAppended e), seg, s)
        | Inr (bs, successor) \<Rightarrow>
            (case append_commit (env_sha256 E) uuid seg bs successor s of
               (Inl e, s') \<Rightarrow> (Inl (AppendOutcomeUnknown e), seg\<lparr>v2_poisoned := True\<rparr>, s')
             | (Inr _, s') \<Rightarrow>
                 (let stats = v2_stats seg in
                  (Inr \<lparr>ap_device_id = sel_device_id (v2_selection seg), ap_sequence = seqn,
                        ap_frame_bytes = length bs, ap_payload_digest = env_sha256 E payload,
                        ap_data_durability_syncs = 2\<rparr>,
                   seg\<lparr>v2_cursor := v2_cursor seg + length bs, v2_frontier := successor,
                       v2_stats := stats\<lparr>frames_appended := frames_appended stats + 1,
                                         bytes_appended := bytes_appended stats + length bs,
                                         data_durability_syncs := data_durability_syncs stats + 2,
                                         directory_durability_syncs := directory_durability_syncs stats + 1\<rparr>\<rparr>,
                   s'))))"

section \<open>Replay\<close>

text \<open>The loop the replays of a selected segment and of an inspected legacy segment share.\<close>

function replay_frames ::
  "'k journal_env \<Rightarrow> read_faults \<Rightarrow> bytes \<Rightarrow> nat \<Rightarrow> nat \<Rightarrow> buf_reader \<Rightarrow> 'k journal_frame list
     \<Rightarrow> buf_reader \<times> 'k journal_frame list \<times> (local_journal_error + nat)" where
  "replay_frames E rd content limit offset r seen =
     (if offset < limit
      then let p = read_complete_frame E rd content offset limit r in
        case fst p of
          Inl e \<Rightarrow> (snd p, seen, Inl e)
        | Inr (f, bs) \<Rightarrow> replay_frames E rd content limit (offset + length bs) (snd p) (seen @ [f])
      else (r, seen, Inr (length seen)))"
  by pat_completeness auto
termination
  by (relation "measure (\<lambda>(E, rd, content, limit, offset, r, seen). limit - offset)")
    (auto dest!: read_complete_progress)

declare replay_frames.simps [simp del]

definition v2_replay ::
  "'k journal_env \<Rightarrow> string option \<Rightarrow> read_faults \<Rightarrow> v2_segment \<Rightarrow> fsys
     \<Rightarrow> v2_segment \<times> 'k journal_frame list \<times> (local_journal_error + nat)" where
  "v2_replay E dup rd seg s =
     (case dup of
        Some e \<Rightarrow> (seg, [], Inl (JournalIo e))
      | None \<Rightarrow>
          let (r, seen, res) = replay_frames E rd (file_bytes s (v2_file seg))
                (unat (fv_committed_extent (v2_frontier seg))) LOCAL_JOURNAL_SEGMENT_HEADER_BYTES
                \<lparr>br_pos = v2_cursor seg, br_avail = 0\<rparr> []
          in (seg\<lparr>v2_cursor := br_pos r\<rparr>, seen, res))"

section \<open>The locked legacy segment\<close>

record 'k legacy_segment =
  lg_file :: nat
  lg_name :: bytes
  lg_device_id :: uuid
  lg_base_sequence :: u64
  lg_next_sequence :: u64
  lg_committed_bytes :: nat
  lg_frames :: nat
  lg_last_frame :: "'k journal_frame option"

definition legacy_inspect ::
  "'k journal_env \<Rightarrow> read_faults \<Rightarrow> bytes \<Rightarrow> uuid \<Rightarrow> u64 \<Rightarrow> 'k legacy_segment journal_io" where
  "legacy_inspect E rd name device base =
     fs_bind (fs_check (require_safe_segment_name name)) (\<lambda>_.
     fs_bind (lift_journal (open_regular_read_write_nofollow name)) (\<lambda>entry.
     fs_bind lock_exclusive_nonblocking (\<lambda>locked.
       if \<not> locked then fs_throw (SegmentAlreadyOpen name)
       else fs_bind (lift_journal (sys_metadata entry)) (\<lambda>(is_file, _).
         if \<not> is_file then fs_throw (UnsafeSegmentName name)
         else fs_bind (lift_journal sys_plain) (\<lambda>_.
           fs_bind (\<lambda>s. fs_check (inspect_v1 E rd (entry_bytes entry s) device base) s) (\<lambda>scan.
             fs_return \<lparr>lg_file = (case entry of RegularFile i \<Rightarrow> i | _ \<Rightarrow> 0), lg_name = name,
                        lg_device_id = device, lg_base_sequence = base,
                        lg_next_sequence = ps_next_sequence scan,
                        lg_committed_bytes = ps_committed_extent scan,
                        lg_frames = ps_frames_recovered scan, lg_last_frame = ps_last_frame scan\<rparr>))))))"

definition legacy_replay ::
  "'k journal_env \<Rightarrow> string option \<Rightarrow> read_faults \<Rightarrow> 'k legacy_segment \<Rightarrow> fsys
     \<Rightarrow> 'k journal_frame list \<times> (local_journal_error + nat)" where
  "legacy_replay E dup rd lg s =
     (case dup of
        Some e \<Rightarrow> ([], Inl (JournalIo e))
      | None \<Rightarrow> snd (replay_frames E rd (file_bytes s (lg_file lg)) (lg_committed_bytes lg) 0
                  \<lparr>br_pos = 0, br_avail = 0\<rparr> []))"

section \<open>Fault-free reading\<close>

lemma read_complete_frame_ok:
  assumes "roundtrips (env_header E)" "encode_frame E device seqn kind payload = Inr b"
    "range_of offset (offset + length b) content = b" "offset + length b \<le> limit" "limit \<le> length content"
  shows "\<exists>r'. read_complete_frame E Map.empty content offset limit r = (Inr
      (\<lparr>fr_device_id = device, fr_sequence = seqn, fr_payload_kind = kind, fr_payload = payload\<rparr>, b), r')
    \<and> reader_at r' (offset + length b) (length content)"
proof -
  have len: "52 \<le> length b" "length b \<le> MAX_LOCAL_JOURNAL_FRAME_BYTES"
    using encode_frame_length [OF assms(2)] by simp_all
  have pre: "range_of offset (offset + 20) content = take 20 b"
    using arg_cong [OF assms(3), of "take 20"] len(1) by (simp add: range_of_def min_def)
  have suf: "range_of (offset + 20) (offset + length b) content = drop 20 b"
    using arg_cong [OF assms(3), of "drop 20"] by (simp add: range_of_def drop_take add.commute)
  from extent_parse_frame [OF assms(2), of "[]"] obtain h where
    "extent_parse (take 20 b) = Inr \<lparr>ex_header_len = h, ex_total = length b\<rparr>" by auto
  then have x: "range_of 0 8 (take 20 b) = FRAME_MAGIC"
    "frame_total (unat (of_be32 (range_of 8 12 (take 20 b)))) (unat (of_be64 (range_of 12 20 (take 20 b)))) = Inr (length b)"
    using len by (simp_all add: extent_parse_Inr frame_total_Inr journal_limits)
  have "reader_at \<lparr>br_pos = offset, br_avail = 0\<rparr> offset (length content)"
    using assms(4,5) by (simp add: reader_at_def)
  from read_exact_ok [OF this, of 20] len(1) assms(4,5) obtain r1 where
    r1: "read_exact Map.empty content 20 \<lparr>br_pos = offset, br_avail = 0\<rparr> = (Inr (take 20 b), r1)"
    "reader_at r1 (offset + 20) (length content)"
    unfolding pre by auto
  have sum: "offset + 20 + (length b - 20) = offset + length b" using len(1) by simp
  from read_exact_ok [OF r1(2), of "length b - 20"] assms(4,5) obtain r2 where
    r2: "read_exact Map.empty content (length b - 20) r1 = (Inr (drop 20 b), r2)"
    "reader_at r2 (offset + length b) (length content)"
    unfolding sum suf by auto
  have "frame_encode E \<lparr>fr_device_id = device, fr_sequence = seqn, fr_payload_kind = kind, fr_payload = payload\<rparr> = Inr b"
    using assms(2) by (simp add: frame_encode_def)
  from frame_decode_encode [OF assms(1) this]
  have dec: "frame_decode E b = Inr \<lparr>fr_device_id = device, fr_sequence = seqn, fr_payload_kind = kind, fr_payload = payload\<rparr>" .
  have c: "\<not> limit < offset" "\<not> limit - offset < MIN_FRAME_BYTES" "\<not> length b > limit - offset"
    using assms(4) len(1) by (simp_all add: frame_constants)
  show ?thesis
    using r1(1) r2 c x dec len(2)
    by (intro exI [of _ r2]) (simp add: read_complete_frame_def Let_def del: range_of_take)
qed

lemma read_complete_frame_sound:
  assumes "fst (read_complete_frame E Map.empty content offset limit r) = Inr (f, bs)" "limit \<le> length content"
  shows "frame_decode E bs = Inr f" "bs = range_of offset (offset + length bs) content" "offset + length bs \<le> limit"
    "52 \<le> length bs"
proof -
  have long: "offset + 52 \<le> limit" using read_complete_progress [OF assms(1)] by simp
  have c: "\<not> limit < offset" "\<not> limit - offset < MIN_FRAME_BYTES"
    using long by (simp_all add: frame_constants)
  have start: "reader_at \<lparr>br_pos = offset, br_avail = 0\<rparr> offset (length content)"
    using long assms(2) by (simp add: reader_at_def)
  from read_exact_ok [OF start, of 20] long assms(2) obtain r1 where
    r1: "read_exact Map.empty content 20 \<lparr>br_pos = offset, br_avail = 0\<rparr> = (Inr (range_of offset (offset + 20) content), r1)"
    "reader_at r1 (offset + 20) (length content)" by auto
  define p where "p = range_of offset (offset + 20) content"
  obtain n where n: "frame_total (unat (of_be32 (range_of 8 12 p))) (unat (of_be64 (range_of 12 20 p))) = Inr n"
    "\<not> n > limit - offset"
    using assms(1) c r1(1) unfolding p_def [symmetric]
    by (cases "frame_total (unat (of_be32 (range_of 8 12 p))) (unat (of_be64 (range_of 12 20 p)))")
      (auto simp: read_complete_frame_def corrupt_def Let_def split: if_splits)
  have n52: "52 \<le> n" using n(1) by (simp add: frame_total_Inr)
  then have sum: "offset + 20 + (n - 20) = offset + n" by simp
  obtain r2 where r2: "read_exact Map.empty content (n - 20) r1 = (Inr (range_of (offset + 20) (offset + n) content), r2)"
  proof -
    have "offset + n \<le> length content" using n(2) long assms(2) by linarith
    then show ?thesis using that read_exact_ok [OF r1(2), of "n - 20"] unfolding sum by blast
  qed
  have j: "p @ range_of (offset + 20) (offset + n) content = range_of offset (offset + n) content"
    unfolding p_def using n52 by (intro range_of_join) auto
  have d: "frame_decode E (range_of offset (offset + n) content) = Inr f \<and> bs = range_of offset (offset + n) content"
    using assms(1) c r1(1) n r2 unfolding p_def [symmetric]
    by (cases "frame_decode E (range_of offset (offset + n) content)")
      (auto simp: read_complete_frame_def corrupt_def Let_def j split: if_splits)
  have l: "length bs = n" using d n(2) long assms(2) by simp
  show "frame_decode E bs = Inr f" "bs = range_of offset (offset + length bs) content"
    "offset + length bs \<le> limit" "52 \<le> length bs"
    using d l n(2) n52 long by auto
qed

definition frame_bytes :: "'k journal_env \<Rightarrow> 'k journal_frame \<Rightarrow> bytes" where
  "frame_bytes E f = (case frame_encode E f of Inr b \<Rightarrow> b | Inl _ \<Rightarrow> [])"

definition last_pair ::
  "'k journal_env \<Rightarrow> ('k journal_frame \<times> bytes) option \<Rightarrow> 'k journal_frame list \<Rightarrow> ('k journal_frame \<times> bytes) option" where
  "last_pair E d fs = (if fs = [] then d else Some (last fs, frame_bytes E (last fs)))"

lemma last_pair_simps [simp]:
  "last_pair E d [] = d" "last_pair E d (f # fs) = last_pair E (Some (f, frame_bytes E f)) fs"
  by (auto simp: last_pair_def)

lemma frame_bytes_encode:
  "encode_frame E device seqn kind payload = Inr b \<Longrightarrow>
   frame_bytes E \<lparr>fr_device_id = device, fr_sequence = seqn, fr_payload_kind = kind, fr_payload = payload\<rparr> = b"
  by (simp add: frame_bytes_def frame_encode_def)

lemma scan_v2_loop_log:
  assumes rt: "roundtrips (env_header E)" and ext: "extent \<le> length content"
  shows "encode_log E device base es = Inr bs \<Longrightarrow> range_of offset extent content = bs \<Longrightarrow> offset + length bs = extent
    \<Longrightarrow> scan_v2_loop E Map.empty content device extent offset base n lastf r
        = Inr (extent, base + of_nat (length es), n + length es, last_pair E lastf (log_frames device base es))"
proof (induction es arbitrary: base bs offset n lastf r)
  case Nil
  then show ?case by (simp add: scan_v2_loop.simps)
next
  case (Cons e es)
  obtain kind payload where e: "e = (kind, payload)" by force
  from Cons.prems(1) obtain b rest where b: "encode_frame E device base kind payload = Inr b"
    "base \<noteq> - 1" "encode_log E device (base + 1) es = Inr rest" "bs = b @ rest"
    by (auto simp: e bind_res_Inr split: if_splits)
  have len: "52 \<le> length b" using encode_frame_length [OF b(1)] by simp
  have tot: "offset + length b + length rest = extent" using Cons.prems(3) by (simp add: b(4))
  have "range_of offset (offset + length b) content = take (length b) (range_of offset extent content)"
    using tot by (simp add: range_of_def)
  then have here: "range_of offset (offset + length b) content = b" using Cons.prems(2) by (simp add: b(4))
  have "range_of (offset + length b) extent content = drop (length b) (range_of offset extent content)"
    using tot by (simp add: range_of_def drop_take add.commute)
  then have there: "range_of (offset + length b) extent content = rest" using Cons.prems(2) by (simp add: b(4))
  from read_complete_frame_ok [OF rt b(1) here _ ext, of r] tot obtain r1 where
    r1: "read_complete_frame E Map.empty content offset extent r = (Inr
      (\<lparr>fr_device_id = device, fr_sequence = base, fr_payload_kind = kind, fr_payload = payload\<rparr>, b), r1)"
    by auto
  have lt: "offset < extent" "\<not> offset + length b > extent" using tot len by simp_all
  show ?case
    using Cons.IH [OF b(3) there tot, of "n + 1"] r1 b(2) lt
    by (subst scan_v2_loop.simps) (simp add: e checked_add64_one frame_bytes_encode [OF b(1)] algebra_simps)
qed

lemma frame_eta [simp]:
  "\<lparr>fr_device_id = fr_device_id f, fr_sequence = fr_sequence f, fr_payload_kind = fr_payload_kind f,
    fr_payload = fr_payload f\<rparr> = f"
  by (cases f) simp

lemma scan_v2_loop_sound:
  assumes "scan_v2_loop E Map.empty content device extent offset base n lastf r = Inr (at, nx, k, lf)"
    "offset \<le> extent" "extent \<le> length content"
  shows "at = extent \<and> (\<exists>es bs. encode_log E device base es = Inr bs \<and> range_of offset extent content = bs
    \<and> nx = base + of_nat (length es) \<and> k = n + length es \<and> lf = last_pair E lastf (log_frames device base es))"
  using assms
proof (induction "extent - offset" arbitrary: offset base n lastf r rule: less_induct)
  case less
  show ?case
  proof (cases "offset < extent")
    case False
    with less.prems show ?thesis by (auto simp: scan_v2_loop.simps intro!: exI [of _ "[]"])
  next
    case True
    from less.prems(1) True obtain f b where
      c: "fst (read_complete_frame E Map.empty content offset extent r) = Inr (f, b)"
      by (subst (asm) scan_v2_loop.simps) (auto simp: Let_def split: sum.splits)
    define r1 where "r1 = snd (read_complete_frame E Map.empty content offset extent r)"
    note rc = read_complete_frame_sound [OF c less.prems(3)]
    have "fr_device_id f = device \<and> fr_sequence f = base \<and> base \<noteq> - 1
      \<and> scan_v2_loop E Map.empty content device extent (offset + length b) (base + 1) (n + 1) (Some (f, b)) r1
          = Inr (at, nx, k, lf)"
      using less.prems(1) c True unfolding scan_v2_loop.simps [of _ _ _ _ _ offset base n lastf r]
      by (auto simp: Let_def corrupt_def checked_add64_one r1_def split: if_splits)
    then have f: "fr_device_id f = device" "fr_sequence f = base" "base \<noteq> - 1"
      and rec: "scan_v2_loop E Map.empty content device extent (offset + length b) (base + 1) (n + 1) (Some (f, b)) r1
          = Inr (at, nx, k, lf)" by auto
    from less.hyps [OF _ rec rc(3) less.prems(3)] rc(3,4) True obtain es bs where
      ih: "at = extent" "encode_log E device (base + 1) es = Inr bs" "range_of (offset + length b) extent content = bs"
        "nx = base + 1 + of_nat (length es)" "k = n + 1 + length es"
        "lf = last_pair E (Some (f, b)) (log_frames device (base + 1) es)" by force
    have enc: "encode_frame E device base (fr_payload_kind f) (fr_payload f) = Inr b"
      using frame_decode_canonical [OF rc(1)] f by (simp add: frame_encode_def)
    have "range_of offset extent content = b @ bs"
      using range_of_join [of offset "offset + length b" extent content] ih(3) rc(2,3) by simp
    moreover have "frame_bytes E f = b"
      using frame_decode_canonical [OF rc(1)] by (simp add: frame_bytes_def)
    ultimately show ?thesis
      using ih enc f
      by (auto simp: algebra_simps intro!: exI [of _ "(fr_payload_kind f, fr_payload f) # es"])
  qed
qed

section \<open>What a frontier selects\<close>

definition frontier_selects ::
  "'k journal_env \<Rightarrow> frontier_v2 \<Rightarrow> ('k \<times> bytes) list \<Rightarrow> bytes \<Rightarrow> bool" where
  "frontier_selects E f es bs \<longleftrightarrow>
     encode_log E (sh_device_id (fv_header f)) (sh_base_sequence (fv_header f)) es = Inr bs
     \<and> unat (fv_committed_extent f) = 136 + length bs
     \<and> fv_next_sequence f = sh_base_sequence (fv_header f) + of_nat (length es)
     \<and> terminal_matches (env_sha256 E) f
         (last_pair E None (log_frames (sh_device_id (fv_header f)) (sh_base_sequence (fv_header f)) es))"

definition prefix_scan_of :: "frontier_v2 \<Rightarrow> ('k \<times> bytes) list \<Rightarrow> bytes \<Rightarrow> 'k prefix_scan" where
  "prefix_scan_of f es bs =
     \<lparr>ps_committed_extent = 136 + length bs, ps_frames_recovered = length es,
      ps_next_sequence = fv_next_sequence f,
      ps_last_frame = last_or None (log_frames (sh_device_id (fv_header f)) (sh_base_sequence (fv_header f)) es)\<rparr>"

lemma last_pair_fst: "map_option fst (last_pair E None fs) = last_or None fs"
  by (simp add: last_pair_def last_or_def)

lemma scan_v2_prefix_iff:
  assumes rt: "roundtrips (env_header E)" and len: "length content \<le> MAX_LOCAL_JOURNAL_SEGMENT_BYTES"
  shows "scan_v2_prefix E Map.empty content f = Inr scan \<longleftrightarrow>
    (\<exists>es bs. frontier_selects E f es bs \<and> 136 + length bs \<le> length content
       \<and> range_of 136 (136 + length bs) content = bs \<and> scan = prefix_scan_of f es bs)"
proof
  let ?loop = "scan_v2_loop E Map.empty content (sh_device_id (fv_header f)) (unat (fv_committed_extent f))
      136 (sh_base_sequence (fv_header f)) 0 None \<lparr>br_pos = 0, br_avail = 0\<rparr>"
  assume scan: "scan_v2_prefix E Map.empty content f = Inr scan"
  then obtain at nx k lf where loop: "?loop = Inr (at, nx, k, lf)"
    and ext: "136 \<le> unat (fv_committed_extent f)" "unat (fv_committed_extent f) \<le> length content"
    and ok: "at = unat (fv_committed_extent f)" "nx = fv_next_sequence f" "terminal_matches (env_sha256 E) f lf"
      "scan = \<lparr>ps_committed_extent = at, ps_frames_recovered = k, ps_next_sequence = nx,
                  ps_last_frame = map_option fst lf\<rparr>"
    by (auto simp: scan_v2_prefix_def corrupt_def bind_res_Inr v2_sizes split: if_splits)
  from scan_v2_loop_sound [OF loop ext] obtain es bs where
    "encode_log E (sh_device_id (fv_header f)) (sh_base_sequence (fv_header f)) es = Inr bs"
    "range_of 136 (unat (fv_committed_extent f)) content = bs"
    "nx = sh_base_sequence (fv_header f) + of_nat (length es)" "k = length es"
    "lf = last_pair E None (log_frames (sh_device_id (fv_header f)) (sh_base_sequence (fv_header f)) es)"
    by auto
  moreover from this(2) ext have "length bs = unat (fv_committed_extent f) - 136" by auto
  then have "unat (fv_committed_extent f) = 136 + length bs" using ext(1) by simp
  ultimately show "\<exists>es bs. frontier_selects E f es bs \<and> 136 + length bs \<le> length content
       \<and> range_of 136 (136 + length bs) content = bs \<and> scan = prefix_scan_of f es bs"
    using ok ext by (intro exI [of _ es] exI [of _ bs]) (simp add: frontier_selects_def prefix_scan_of_def last_pair_fst)
next
  assume "\<exists>es bs. frontier_selects E f es bs \<and> 136 + length bs \<le> length content
       \<and> range_of 136 (136 + length bs) content = bs \<and> scan = prefix_scan_of f es bs"
  then obtain es bs where s: "frontier_selects E f es bs" "136 + length bs \<le> length content"
    "range_of 136 (136 + length bs) content = bs" "scan = prefix_scan_of f es bs" by blast
  from s(1) have "scan_v2_loop E Map.empty content (sh_device_id (fv_header f)) (136 + length bs)
      136 (sh_base_sequence (fv_header f)) 0 None \<lparr>br_pos = 0, br_avail = 0\<rparr>
    = Inr (136 + length bs, sh_base_sequence (fv_header f) + of_nat (length es), 0 + length es,
        last_pair E None (log_frames (sh_device_id (fv_header f)) (sh_base_sequence (fv_header f)) es))"
    by (intro scan_v2_loop_log rt) (simp_all add: frontier_selects_def s)
  then show "scan_v2_prefix E Map.empty content f = Inr scan"
    using s len
    by (simp add: scan_v2_prefix_def frontier_selects_def v2_sizes prefix_scan_of_def last_pair_fst)
qed

section \<open>Opening a selected generation\<close>

text \<open>The two files of a generation, with contents, in a state where no call fails.\<close>

definition generation_files :: "v2_selection \<Rightarrow> fsys \<Rightarrow> nat \<Rightarrow> bytes \<Rightarrow> bytes \<Rightarrow> bool" where
  "generation_files sel s i content fb \<longleftrightarrow>
     fs_outcomes s = [] \<and> \<not> fs_crashed s
     \<and> fs_dir s (sel_segment_name sel) = Some (RegularFile i) \<and> file_bytes s i = content
     \<and> (\<exists>j. fs_dir s (sel_frontier_name sel) = Some (RegularFile j) \<and> file_bytes s j = fb \<and> i \<noteq> j)"

lemmas fs_simps = catch_fs_def fs_bind_def fs_return_def fs_throw_def fs_check_def lift_io_def lift_journal_def

lemma read_required_ok:
  assumes "fs_outcomes s = []" "\<not> fs_crashed s" "fs_dir s name = Some (RegularFile i)"
    "length (file_bytes s i) < 2 ^ 64 - 2"
  shows "read_required_regular name (saturating_succ n) (Some n) s =
    (if length (file_bytes s i) = n then Inr (file_bytes s i)
     else Inl (StoredLengthMismatch name n (length (file_bytes s i))), s)"
  using assms
  by (simp add: read_required_regular_def read_optional_regular_def read_opened_def
      sys_symlink_metadata_def open_file_nofollow_def sys_metadata_def sys_read_to_end_def fs_simps
      syscall_ok saturating_succ_def min_def)

lemma read_frontier_ok:
  assumes "generation_files sel s i content fb" "length fb = 240"
  shows "read_frontier_exact (sel_frontier_name sel) s = (Inr fb, s)"
  using assms
  by (auto simp: generation_files_def read_frontier_exact_def read_regular_exact_length_def catch_fs_def
      read_required_ok fs_return_def v2_sizes)

text \<open>The segment and the report of a generation whose frontier selects log \<open>es\<close>.\<close>

definition adopted_v2 ::
  "v2_selection \<Rightarrow> nat \<Rightarrow> frontier_v2 \<Rightarrow> ('k \<times> bytes) list \<Rightarrow> nat \<Rightarrow> v2_segment \<times> 'k local_journal_recovery" where
  "adopted_v2 sel i f es extra =
     (\<lparr>v2_file = i, v2_cursor = unat (fv_committed_extent f), v2_selection = sel, v2_frontier = f,
       v2_poisoned = False,
       v2_stats = stats_default \<lparr>data_durability_syncs := if extra = 0 then 0 else 1,
                    recovery_truncations := if extra = 0 then 0 else 1\<rparr>\<rparr>,
      \<lparr>frames_recovered = length es, discarded_tail_bytes = extra,
       last_frame = last_or None (log_frames (sh_device_id (fv_header f)) (sh_base_sequence (fv_header f)) es)\<rparr>)"

text \<open>The files after the open: a suffix beyond the frontier has been cut off and flushed.\<close>

definition trimmed :: "fsys \<Rightarrow> nat \<Rightarrow> bytes \<Rightarrow> bytes \<Rightarrow> fsys" where
  "trimmed s i bs rest =
     (if rest = [] then s
      else s\<lparr>fs_inodes := (fs_inodes s)(i := \<lparr>in_bytes = bs, in_durable = bs\<rparr>)\<rparr>)"

lemma open_selected_ok:
  assumes rt: "roundtrips (env_header E)" and name: "safe_name (sel_segment_name sel)"
    and files: "generation_files sel s i (header_encode (env_sha256 E) (header_for_selection sel) @ bs @ rest)
        (frontier_encode (env_sha256 E) f)"
    and f: "fv_header f = header_for_selection sel" "frontier_selects E f es bs"
    and len: "136 + length bs + length rest \<le> MAX_LOCAL_JOURNAL_SEGMENT_BYTES"
  shows "open_selected E Map.empty sel s = (Inr (adopted_v2 sel i f es (length rest)),
    trimmed s i (header_encode (env_sha256 E) (header_for_selection sel) @ bs) rest)"
proof -
  define content where "content = header_encode (env_sha256 E) (header_for_selection sel) @ bs @ rest"
  have c: "length content = 136 + length bs + length rest" "take 136 content = header_encode (env_sha256 E) (header_for_selection sel)"
    "range_of 136 (136 + length bs) content = bs" "take (136 + length bs) content = header_encode (env_sha256 E) (header_for_selection sel) @ bs"
    by (simp_all add: content_def range_of_def)
  have scan: "scan_v2_prefix E Map.empty content f = Inr (prefix_scan_of f es bs)"
    using scan_v2_prefix_iff [OF rt, of content f] c(1,3) len f(2) by fastforce
  have ext: "unat (fv_committed_extent f) = 136 + length bs" using f(2) by (simp add: frontier_selects_def)
  note files' = files [folded content_def]
  have g: "fs_outcomes s = []" "\<not> fs_crashed s" "fs_dir s (sel_segment_name sel) = Some (RegularFile i)"
    "file_bytes s i = content"
    using files' by (auto simp: generation_files_def)
  have rf: "read_frontier_exact (sel_frontier_name sel) s = (Inr (frontier_encode (env_sha256 E) f), s)"
    by (rule read_frontier_ok [OF files']) simp
  have hdr: "read_header (env_sha256 E) Map.empty (RegularFile i) s = (Inr (header_for_selection sel), s)"
    using g c(1,2)
    by (simp add: read_header_def sys_metadata_def sys_plain_def fs_simps syscall_ok v2_sizes entry_bytes_def
        header_decode_encode)
  show ?thesis
    using name g hdr rf scan f(1) c(1,4) ext
    by (simp add: open_selected_def adopt_frontier_def safe_name_def open_regular_read_write_nofollow_def
        lock_exclusive_nonblocking_def sys_metadata_def sys_plain_def fs_simps syscall_ok
        frontier_decode_encode entry_bytes_def sys_set_len_def sys_sync_file_def put_bytes_def file_bytes_def
        adopted_v2_def trimmed_def prefix_scan_of_def Let_def)
qed

lemma fs_bind_Inr:
  "fs_bind m f s = (Inr y, s') \<longleftrightarrow> (\<exists>x s1. m s = (Inr x, s1) \<and> f x s1 = (Inr y, s'))"
  by (auto simp: fs_bind_def split: prod.splits sum.splits)

lemma read_frontier_len:
  assumes "generation_files sel s i content fb" "length fb < 2 ^ 64 - 2"
    "read_frontier_exact (sel_frontier_name sel) s = (Inr bs, s')"
  shows "bs = fb" "s' = s"
  using assms
  by (auto simp: generation_files_def read_frontier_exact_def read_regular_exact_length_def catch_fs_def
      read_required_ok fs_return_def fs_check_def corrupt_def v2_sizes split: if_splits)

lemma open_selected_header:
  assumes "generation_files sel s i content fb" "open_selected E rd sel s = (Inr res, s')"
  shows "fs_bind (read_header (env_sha256 E) rd (RegularFile i)) (adopt_frontier E rd sel (RegularFile i)) s = (Inr res, s')"
  using assms
  by (cases "require_safe_segment_name (sel_segment_name sel)")
    (simp_all add: generation_files_def open_selected_def open_regular_read_write_nofollow_def
        lock_exclusive_nonblocking_def sys_metadata_def fs_bind_def fs_check_def lift_journal_def catch_fs_def
        fs_return_def syscall_ok)

lemma adopt_frontier_inv:
  assumes files: "generation_files sel s i content fb" and len: "length fb < 2 ^ 64 - 2"
    and run: "adopt_frontier E rd sel (RegularFile i) header s = (Inr res, s')"
  shows "header = header_for_selection sel \<and> (\<exists>f scan. frontier_decode (env_sha256 E) fb = Inr f
    \<and> fv_header f = header \<and> scan_v2_prefix E rd content f = Inr scan)"
proof -
  from run obtain fb' s1 where r: "header = header_for_selection sel"
    "read_frontier_exact (sel_frontier_name sel) s = (Inr fb', s1)"
    by (auto simp: adopt_frontier_def fs_check_def corrupt_def fs_bind_Inr split: if_splits)
  note fb = read_frontier_len [OF files len r(2)]
  have g: "fs_outcomes s = []" "\<not> fs_crashed s" "file_bytes s i = content"
    using files by (auto simp: generation_files_def)
  from run r fb g show ?thesis
    by (cases "frontier_decode (env_sha256 E) fb")
      (auto simp: adopt_frontier_def fs_check_def corrupt_def fs_bind_Inr lift_journal_def sys_plain_def
        syscall_ok entry_bytes_def split: if_splits)
qed

lemma open_selected_inv:
  assumes rt: "roundtrips (env_header E)"
    and files: "generation_files sel s i content fb"
    and len: "length content \<le> MAX_LOCAL_JOURNAL_SEGMENT_BYTES" "length fb < 2 ^ 64 - 2"
    and run: "open_selected E Map.empty sel s = (Inr res, s')"
  shows "\<exists>es bs rest f. content = header_encode (env_sha256 E) (header_for_selection sel) @ bs @ rest
    \<and> fb = frontier_encode (env_sha256 E) f \<and> fv_header f = header_for_selection sel \<and> frontier_selects E f es bs"
proof -
  have g: "fs_outcomes s = []" "\<not> fs_crashed s" "file_bytes s i = content"
    using files by (auto simp: generation_files_def)
  have "read_header (env_sha256 E) Map.empty (RegularFile i) s
      = (if length content < 136 then corrupt 0 ''segment header is truncated''
         else header_decode (env_sha256 E) (take 136 content), s)"
    using g by (simp add: read_header_def sys_metadata_def sys_plain_def fs_simps syscall_ok v2_sizes entry_bytes_def)
  with open_selected_header [OF files run] obtain header where
    h: "136 \<le> length content" "header_decode (env_sha256 E) (take 136 content) = Inr header"
    "adopt_frontier E Map.empty sel (RegularFile i) header s = (Inr res, s')"
    by (auto simp: fs_bind_Inr corrupt_def split: if_splits)
  from adopt_frontier_inv [OF files len(2) h(3)] obtain f where
    f: "header = header_for_selection sel" "frontier_decode (env_sha256 E) fb = Inr f" "fv_header f = header"
    "\<exists>scan. scan_v2_prefix E Map.empty content f = Inr scan" by blast
  from f(4) scan_v2_prefix_iff [OF rt len(1)] obtain es bs where s: "frontier_selects E f es bs"
    "136 + length bs \<le> length content" "range_of 136 (136 + length bs) content = bs" by blast
  have "drop 136 content = bs @ drop (136 + length bs) content"
  proof -
    have "range_of 136 (136 + length bs) content = take (length bs) (drop 136 content)"
      by (simp add: range_of_def)
    then have "bs = take (length bs) (drop 136 content)" using s(3) by simp
    then have "drop 136 content = bs @ drop (length bs) (drop 136 content)"
      by (metis append_take_drop_id)
    then show ?thesis by (simp add: add.commute)
  qed
  then have "content = header_encode (env_sha256 E) (header_for_selection sel) @ bs @ drop (136 + length bs) content"
    using header_decode_canonical [OF h(2)] f(1) by (metis append_take_drop_id)
  then show ?thesis using s(1) f(1,3) frontier_decode_canonical [OF f(2)] by blast
qed


end
