(* ===== verification/Journal_Crash.thy ===== *)
theory Journal_Crash
  imports Local_Journal_V2 "HOL-Library.Sublist"
begin

text \<open>
  Crash consistency of the durable-publication journal: whatever the system calls of an append do,
  and wherever the power fails, reopening the generation finds the log before the append or the log
  with its entry, and after an acknowledged append always the latter.
\<close>

section \<open>Images of a crash\<close>

text \<open>
  A state the next process may start from: each name has one of its possible entries and each file one
  of its possible contents.  A mere process death is the special case of the current files.
\<close>

definition crash_image :: "fsys \<Rightarrow> fsys \<Rightarrow> bool" where
  "crash_image s s' \<longleftrightarrow> fs_outcomes s' = [] \<and> \<not> fs_crashed s'
     \<and> (\<forall>n. fs_dir s' n \<in> set (fs_maybe s n)) \<and> (\<forall>i. survives (fs_inodes s i) (file_bytes s' i))"

definition only_regular :: "fsys \<Rightarrow> bytes \<Rightarrow> bool" where
  "only_regular s name \<longleftrightarrow> (\<forall>e \<in> set (fs_maybe s name). \<exists>i. e = Some (RegularFile i))"

lemma starts_with_append: "starts_with xs ys \<longleftrightarrow> (\<exists>zs. xs = ys @ zs)"
  by (induction xs ys rule: starts_with.induct) auto

lemma common_prefix_self: "common_prefix xs (xs @ ys) = xs"
  by (induction xs) auto

lemma common_prefix_same [simp]: "common_prefix xs xs = xs"
  using common_prefix_self [of xs "[]"] by simp

lemma starts_with_common: "starts_with ys (common_prefix xs ys)"
  by (induction xs ys rule: common_prefix.induct) auto

lemma process_death_image:
  assumes "fs_wf s"
  shows "crash_image s (s\<lparr>fs_outcomes := [], fs_crashed := False\<rparr>)"
  using assms starts_with_common by (auto simp: crash_image_def wf_live survives_def file_bytes_def)

lemma crash_image_found:
  assumes "crash_image s s'" "only_regular s name"
  shows "\<exists>i. fs_dir s' name = Some (RegularFile i) \<and> may_find s name (Some (file_bytes s' i))"
proof -
  from assms obtain i where "fs_dir s' name = Some (RegularFile i)" "Some (RegularFile i) \<in> set (fs_maybe s name)"
    by (metis crash_image_def only_regular_def)
  with assms(1) show ?thesis by (auto simp: may_find_def crash_image_def)
qed

section \<open>The log a successor frontier selects\<close>

lemma log_frames_snoc:
  "log_frames device base (es @ [(kind, payload)]) = log_frames device base es
     @ [\<lparr>fr_device_id = device, fr_sequence = base + of_nat (length es), fr_payload_kind = kind, fr_payload = payload\<rparr>]"
proof (induction es arbitrary: base)
  case (Cons e es)
  obtain k p where "e = (k, p)" by force
  with Cons show ?case by (simp add: algebra_simps)
qed simp

text \<open>No frontier hashes to the digest that marks the first one.\<close>

definition nonzero_hash :: "hash \<Rightarrow> bool" where
  "nonzero_hash H \<longleftrightarrow> (\<forall>bs. H bs \<noteq> zero_digest)"

lemma successor_selects:
  assumes sel: "frontier_selects E f es bs" and nz: "nonzero_hash (env_sha256 E)"
    and b: "encode_frame E (sh_device_id (fv_header f)) (fv_next_sequence f) kind payload = Inr b"
    and f': "frontier_successor (env_sha256 E) f b = Inr f'"
  shows "frontier_selects E f' (es @ [(kind, payload)]) (bs @ b)" "fv_header f' = fv_header f"
    "unat (fv_committed_extent f') = unat (fv_committed_extent f) + length b"
    "unat (fv_committed_extent f') \<le> MAX_LOCAL_JOURNAL_SEGMENT_BYTES"
proof -
  define frame where "frame = \<lparr>fr_device_id = sh_device_id (fv_header f), fr_sequence = fv_next_sequence f,
      fr_payload_kind = kind, fr_payload = payload\<rparr>"
  have len: "unat (word_of_nat (length b) :: u64) = length b"
    using encode_frame_total [OF b] by (simp add: unsigned_of_nat take_bit_nat_eq_self)
  from f' have s: "fv_next_sequence f \<noteq> - 1" "fv_header f' = fv_header f" "fv_next_sequence f' = fv_next_sequence f + 1"
    "checked_add64 (fv_committed_extent f) (word_of_nat (length b)) = Some (fv_committed_extent f')"
    "unat (fv_committed_extent f') \<le> MAX_LOCAL_JOURNAL_SEGMENT_BYTES"
    "fv_terminal f' = Some \<lparr>tf_sequence = fv_next_sequence f, tf_encoded_len = word_of_nat (length b),
        tf_frame_digest = env_sha256 E b\<rparr>"
    "fv_predecessor f' = env_sha256 E (frontier_encode (env_sha256 E) f)"
    by (auto simp: frontier_successor_def bind_res_Inr ok_or_Inr checked_add64_one Let_def split: if_splits option.splits)
  show "fv_header f' = fv_header f" by (fact s)
  show ext: "unat (fv_committed_extent f') = unat (fv_committed_extent f) + length b"
    using checked_add64_Some [OF s(4)] len by simp
  show "unat (fv_committed_extent f') \<le> MAX_LOCAL_JOURNAL_SEGMENT_BYTES" by (fact s)
  note d = sel [unfolded frontier_selects_def]
  have "encode_log E (sh_device_id (fv_header f)) (sh_base_sequence (fv_header f)) (es @ [(kind, payload)]) = Inr (bs @ b)"
    using d b s(1) by (simp add: encode_log_snoc)
  moreover have "last_pair E None (log_frames (sh_device_id (fv_header f)) (sh_base_sequence (fv_header f)) (es @ [(kind, payload)]))
      = Some (frame, b)"
    using d frame_bytes_encode [OF b] by (simp add: log_frames_snoc last_pair_def frame_def)
  then have "terminal_matches (env_sha256 E) f'
      (last_pair E None (log_frames (sh_device_id (fv_header f)) (sh_base_sequence (fv_header f)) (es @ [(kind, payload)])))"
    using s(6,7) nz len by (simp add: terminal_matches_def frame_def nonzero_hash_def)
  ultimately show "frontier_selects E f' (es @ [(kind, payload)]) (bs @ b)"
    using d s(2,3) ext by (simp add: frontier_selects_def algebra_simps)
qed

definition generation_bytes :: "'k journal_env \<Rightarrow> v2_selection \<Rightarrow> bytes \<Rightarrow> bytes" where
  "generation_bytes E sel bs = header_encode (env_sha256 E) (header_for_selection sel) @ bs"

section \<open>The live generation\<close>

text \<open>
  \<open>v2_live E sel es seg s\<close>: \<open>seg\<close> is a healthy open segment at the end of log \<open>es\<close>, and both files and
  their names are durable.
\<close>

definition v2_live ::
  "'k journal_env \<Rightarrow> v2_selection \<Rightarrow> ('k \<times> bytes) list \<Rightarrow> v2_segment \<Rightarrow> fsys \<Rightarrow> bool" where
  "v2_live E sel es seg s \<longleftrightarrow>
     (let f = v2_frontier seg; i = v2_file seg in
      v2_selection seg = sel \<and> \<not> v2_poisoned seg \<and> fv_header f = header_for_selection sel \<and> fs_wf s
      \<and> v2_cursor seg = unat (fv_committed_extent f)
      \<and> unat (fv_committed_extent f) \<le> MAX_LOCAL_JOURNAL_SEGMENT_BYTES
      \<and> fs_dir s (sel_segment_name sel) = Some (RegularFile i) \<and> settled (sel_segment_name sel) s
      \<and> (\<exists>bs. frontier_selects E f es bs
           \<and> fs_inodes s i = \<lparr>in_bytes = generation_bytes E sel bs, in_durable = generation_bytes E sel bs\<rparr>)
      \<and> (\<exists>j. j \<noteq> i \<and> fs_dir s (sel_frontier_name sel) = Some (RegularFile j) \<and> settled (sel_frontier_name sel) s
           \<and> fs_inodes s j = \<lparr>in_bytes = frontier_encode (env_sha256 E) f,
                              in_durable = frontier_encode (env_sha256 E) f\<rparr>))"

text \<open>After a power loss and restart everything found is on the disk.\<close>

definition power_cycled :: "fsys \<Rightarrow> fsys \<Rightarrow> bool" where
  "power_cycled s s' \<longleftrightarrow> crash_image s s' \<and> fs_wf s' \<and> (\<forall>n. settled n s')
     \<and> (\<forall>i. in_durable (fs_inodes s' i) = in_bytes (fs_inodes s' i))"

lemma live_after_open:
  assumes "power_cycled s0 s"
    and files: "generation_files sel s i (header_encode (env_sha256 E) (header_for_selection sel) @ bs @ rest)
        (frontier_encode (env_sha256 E) f)"
    and f: "fv_header f = header_for_selection sel" "frontier_selects E f es bs"
    and len: "136 + length bs + length rest \<le> MAX_LOCAL_JOURNAL_SEGMENT_BYTES"
  shows "v2_live E sel es (fst (adopted_v2 sel i f es (length rest)))
    (trimmed s i (header_encode (env_sha256 E) (header_for_selection sel) @ bs) rest)"
proof -
  from assms(1) have d: "fs_wf s" "\<And>n. settled n s" "\<And>i. fs_inodes s i = \<lparr>in_bytes = file_bytes s i, in_durable = file_bytes s i\<rparr>"
    by (auto simp: power_cycled_def file_bytes_def)
  obtain j where j: "fs_dir s (sel_frontier_name sel) = Some (RegularFile j)"
    "file_bytes s j = frontier_encode (env_sha256 E) f" "i \<noteq> j"
    and i: "fs_dir s (sel_segment_name sel) = Some (RegularFile i)"
      "file_bytes s i = header_encode (env_sha256 E) (header_for_selection sel) @ bs @ rest"
    using files by (auto simp: generation_files_def)
  let ?s = "trimmed s i (header_encode (env_sha256 E) (header_for_selection sel) @ bs) rest"
  have t: "fs_wf ?s" "settled n ?s" "fs_dir ?s = fs_dir s" for n
    using d(1,2) by (simp_all add: trimmed_def fs_wf_def settled_def)
  have "fs_inodes ?s i = \<lparr>in_bytes = generation_bytes E sel bs, in_durable = generation_bytes E sel bs\<rparr>"
    using d(3) [of i] i(2) by (simp add: trimmed_def generation_bytes_def)
  moreover have "fs_inodes ?s j = \<lparr>in_bytes = frontier_encode (env_sha256 E) f, in_durable = frontier_encode (env_sha256 E) f\<rparr>"
    using d(3) [of j] j(2,3) by (simp add: trimmed_def)
  moreover have "unat (fv_committed_extent f) = 136 + length bs" using f(2) by (simp add: frontier_selects_def)
  ultimately show ?thesis
    using t f i(1) j(1,3) len unfolding v2_live_def Let_def by (auto simp: adopted_v2_def)
qed

section \<open>Reopening after a crash\<close>

text \<open>
  \<open>recovers E sel s es\<close>: every possible content of the two names lets the generation open with log \<open>es\<close>.
\<close>

definition selectable ::
  "'k journal_env \<Rightarrow> v2_selection \<Rightarrow> ('k \<times> bytes) list \<Rightarrow> bytes option \<Rightarrow> bytes option \<Rightarrow> bool" where
  "selectable E sel es x y \<longleftrightarrow>
     (\<exists>bs rest f. x = Some (generation_bytes E sel bs @ rest) \<and> y = Some (frontier_encode (env_sha256 E) f)
        \<and> fv_header f = header_for_selection sel \<and> frontier_selects E f es bs
        \<and> 136 + length bs + length rest \<le> MAX_LOCAL_JOURNAL_SEGMENT_BYTES)"

lemma selectableI:
  "frontier_selects E f es bs \<Longrightarrow> fv_header f = header_for_selection sel
   \<Longrightarrow> 136 + length bs + length rest \<le> MAX_LOCAL_JOURNAL_SEGMENT_BYTES
   \<Longrightarrow> selectable E sel es (Some (generation_bytes E sel bs @ rest)) (Some (frontier_encode (env_sha256 E) f))"
  unfolding selectable_def by blast

lemma reopen_files:
  assumes image: "crash_image s s'" and reg: "only_regular s (sel_segment_name sel)" "only_regular s (sel_frontier_name sel)"
    and found: "\<And>x y. may_find s (sel_segment_name sel) x \<Longrightarrow> may_find s (sel_frontier_name sel) y
      \<Longrightarrow> \<exists>es. P es \<and> selectable E sel es x y"
  obtains es bs rest i f where "P es"
    "generation_files sel s' i (header_encode (env_sha256 E) (header_for_selection sel) @ bs @ rest)
       (frontier_encode (env_sha256 E) f)"
    "fv_header f = header_for_selection sel" "frontier_selects E f es bs"
    "136 + length bs + length rest \<le> MAX_LOCAL_JOURNAL_SEGMENT_BYTES"
proof -
  obtain i where i: "fs_dir s' (sel_segment_name sel) = Some (RegularFile i)"
    "may_find s (sel_segment_name sel) (Some (file_bytes s' i))"
    using crash_image_found [OF image reg(1)] by blast
  obtain j where j: "fs_dir s' (sel_frontier_name sel) = Some (RegularFile j)"
    "may_find s (sel_frontier_name sel) (Some (file_bytes s' j))"
    using crash_image_found [OF image reg(2)] by blast
  from found [OF i(2) j(2)] obtain es bs rest f where p: "P es"
    "file_bytes s' i = header_encode (env_sha256 E) (header_for_selection sel) @ bs @ rest"
    "file_bytes s' j = frontier_encode (env_sha256 E) f" "fv_header f = header_for_selection sel"
    "frontier_selects E f es bs" "136 + length bs + length rest \<le> MAX_LOCAL_JOURNAL_SEGMENT_BYTES"
    by (auto simp: selectable_def generation_bytes_def)
  have "take 8 (file_bytes s' i) = SEGMENT_MAGIC" "take 8 (file_bytes s' j) = FRONTIER_MAGIC"
    by (simp_all add: p(2,3) header_encode_def frontier_encode_def sealed_def)
  then have "i \<noteq> j" by (auto simp: SEGMENT_MAGIC_def FRONTIER_MAGIC_def)
  then have "generation_files sel s' i (header_encode (env_sha256 E) (header_for_selection sel) @ bs @ rest)
      (frontier_encode (env_sha256 E) f)"
    using image i(1) j(1) p(2,3) by (auto simp: generation_files_def crash_image_def)
  from that [OF p(1) this p(4,5,6)] show thesis .
qed

lemma reopen_selectable:
  assumes rt: "roundtrips (env_header E)" and name: "safe_name (sel_segment_name sel)"
    and image: "crash_image s s'" and reg: "only_regular s (sel_segment_name sel)" "only_regular s (sel_frontier_name sel)"
    and found: "\<And>x y. may_find s (sel_segment_name sel) x \<Longrightarrow> may_find s (sel_frontier_name sel) y
      \<Longrightarrow> \<exists>es. P es \<and> selectable E sel es x y"
  shows "\<exists>es i f extra s2. P es \<and> open_selected E Map.empty sel s' = (Inr (adopted_v2 sel i f es extra), s2)
    \<and> (power_cycled s s' \<longrightarrow> v2_live E sel es (fst (adopted_v2 sel i f es extra)) s2)"
proof -
  obtain es bs rest i f where p: "P es"
    "generation_files sel s' i (header_encode (env_sha256 E) (header_for_selection sel) @ bs @ rest)
       (frontier_encode (env_sha256 E) f)"
    "fv_header f = header_for_selection sel" "frontier_selects E f es bs"
    "136 + length bs + length rest \<le> MAX_LOCAL_JOURNAL_SEGMENT_BYTES"
    by (rule reopen_files [OF image reg, where P = P and E = E]) (rule found)
  have "power_cycled s s' \<longrightarrow> v2_live E sel es (fst (adopted_v2 sel i f es (length rest)))
      (trimmed s' i (header_encode (env_sha256 E) (header_for_selection sel) @ bs) rest)"
    using live_after_open [OF _ p(2-5)] by blast
  then show ?thesis
    using open_selected_ok [OF rt name p(2-5)] p(1)
    by (intro exI [of _ es] exI [of _ i] exI [of _ f] exI [of _ "length rest"]) simp
qed

section \<open>Names and states of an append\<close>

text \<open>The names of one generation: the frontier's extends the segment's, so no temporary equals either.\<close>

definition paired_names :: "v2_selection \<Rightarrow> bool" where
  "paired_names sel \<longleftrightarrow> sel_frontier_name sel = sel_segment_name sel @ LOCAL_JOURNAL_FRONTIER_SUFFIX"

lemma selection_new_paired: "selection_new H name i d base = Inr sel \<Longrightarrow> paired_names sel \<and> safe_name (sel_segment_name sel)"
  by (auto simp: selection_new_def bind_res_Inr paired_names_def safe_name_def Let_def)

lemma temp_fresh:
  assumes "paired_names sel"
  shows "frontier_temp (sel_frontier_name sel) u \<noteq> sel_frontier_name sel"
    "frontier_temp (sel_frontier_name sel) u \<noteq> sel_segment_name sel" "sel_segment_name sel \<noteq> sel_frontier_name sel"
proof -
  have l: "length (sel_segment_name sel) < length (sel_frontier_name sel)"
    "length (sel_frontier_name sel) < length (frontier_temp (sel_frontier_name sel) u)"
    using assms by (simp_all add: paired_names_def LOCAL_JOURNAL_FRONTIER_SUFFIX_def frontier_temp_def)
  show "frontier_temp (sel_frontier_name sel) u \<noteq> sel_frontier_name sel"
    "frontier_temp (sel_frontier_name sel) u \<noteq> sel_segment_name sel" "sel_segment_name sel \<noteq> sel_frontier_name sel"
    using l by (metis less_irrefl less_trans)+
qed

text \<open>The frontier's replacement as a publication from the state in which it starts.\<close>

lemma publish_frontier_triple:
  assumes "frontier_temp name uuid \<noteq> name" "fs_wf s0"
  shows "triple (untouched s0 (frontier_temp name uuid) name) (publish_frontier_durable uuid name bs)
    (\<lambda>_. holds_exactly True s0 (frontier_temp name uuid) name bs) (safe_publish True s0 (frontier_temp name uuid) name bs)"
proof -
  define t where "t = frontier_temp name uuid"
  have sync: "triple (published True s0 t name bs) sync_dir_required
    (\<lambda>_. holds_exactly True s0 t name bs) (safe_publish True s0 t name bs)"
    by (rule sync_dir_triple) (auto simp: files published_safe settle_safe published_settle)
  have tail: "triple (\<lambda>s. i = fs_next s0 \<and> staged s0 t name \<lparr>in_bytes = [], in_durable = []\<rparr> s)
      (fs_bind (sys_append i bs) (\<lambda>_. fs_bind (sys_sync_file i) (\<lambda>_. fs_bind (sys_rename t name) (\<lambda>_. sync_dir_required))))
      (\<lambda>_. holds_exactly True s0 t name bs) (safe_publish True s0 t name bs)" for i
  proof (cases "i = fs_next s0")
    case True
    show ?thesis
      unfolding True simp_thms
      by (rule triple_bind [OF append_triple [OF refl]], rule triple_bind [OF sync_file_triple [OF refl]],
          rule triple_bind [OF rename_triple sync]) (use assms(1) in \<open>simp_all add: t_def\<close>)
  qed (simp add: triple_def)
  show ?thesis
    unfolding publish_frontier_durable_def t_def [symmetric] untouched_def
    by (rule triple_bind [OF create_triple tail]) (use assms in \<open>simp_all add: t_def\<close>)
qed

lemma lift_journal_triple: "triple P m Q R \<Longrightarrow> triple P (lift_journal m) Q R"
  by (fastforce simp: triple_def lift_journal_def split: prod.splits sum.splits)

lemma reads_only_check: "reads_only (fs_check r)"
  by (auto simp: reads_only_def triple_def fs_check_def split: sum.split)

lemma verify_regular_reads_only: "reads_only (verify_regular_exact name expected)"
  unfolding verify_regular_exact_def read_regular_exact_length_def
  by (auto intro!: reads_only_rules read_required_reads_only reads_only_check split: filesystem_error.split)

lemma triple_pointwise: "(\<And>s0. P s0 \<Longrightarrow> triple (\<lambda>s. s = s0) m Q R) \<Longrightarrow> triple P m Q R"
  by (simp add: triple_def)

text \<open>The states an append may pass through, from a live generation \<open>(sel, C, fb)\<close> with new frame \<open>b\<close>.\<close>

definition segment_at :: "v2_selection \<Rightarrow> nat \<Rightarrow> nat \<Rightarrow> bytes \<Rightarrow> inode \<Rightarrow> fsys \<Rightarrow> bool" where
  "segment_at sel i j fb ino s \<longleftrightarrow> fs_wf s \<and> i \<noteq> j
     \<and> fs_dir s (sel_segment_name sel) = Some (RegularFile i) \<and> settled (sel_segment_name sel) s
     \<and> fs_inodes s i = ino
     \<and> fs_dir s (sel_frontier_name sel) = Some (RegularFile j) \<and> settled (sel_frontier_name sel) s
     \<and> fs_inodes s j = \<lparr>in_bytes = fb, in_durable = fb\<rparr>"

definition before_frontier :: "v2_selection \<Rightarrow> nat \<Rightarrow> nat \<Rightarrow> bytes \<Rightarrow> bytes \<Rightarrow> bytes \<Rightarrow> fsys \<Rightarrow> bool" where
  "before_frontier sel i j fb C b s \<longleftrightarrow>
     (\<exists>n. segment_at sel i j fb \<lparr>in_bytes = C @ take n b, in_durable = C\<rparr> s)
     \<or> segment_at sel i j fb \<lparr>in_bytes = C @ b, in_durable = C @ b\<rparr> s"

definition after_flush ::
  "v2_selection \<Rightarrow> bytes \<Rightarrow> nat \<Rightarrow> nat \<Rightarrow> bytes \<Rightarrow> bytes \<Rightarrow> bytes \<Rightarrow> fsys \<Rightarrow> bool" where
  "after_flush sel uuid i j fb C' fb' s \<longleftrightarrow>
     (\<exists>s0. segment_at sel i j fb \<lparr>in_bytes = C', in_durable = C'\<rparr> s0
        \<and> safe_publish True s0 (frontier_temp (sel_frontier_name sel) uuid) (sel_frontier_name sel) fb' s)"

definition after_publish ::
  "v2_selection \<Rightarrow> bytes \<Rightarrow> nat \<Rightarrow> nat \<Rightarrow> bytes \<Rightarrow> bytes \<Rightarrow> bytes \<Rightarrow> fsys \<Rightarrow> bool" where
  "after_publish sel uuid i j fb C' fb' s \<longleftrightarrow>
     (\<exists>s0. segment_at sel i j fb \<lparr>in_bytes = C', in_durable = C'\<rparr> s0
        \<and> holds_exactly True s0 (frontier_temp (sel_frontier_name sel) uuid) (sel_frontier_name sel) fb' s)"

lemma of_files_append [files]: "of_files (segment_at sel i j fb ino)" "of_files (before_frontier sel i j fb C b)"
  "of_files (after_flush sel uuid i j fb C' fb')" "of_files (after_publish sel uuid i j fb C' fb')"
proof -
  show a: "of_files (segment_at sel i j fb ino)" for ino
    by (simp add: of_files_def segment_at_def fs_wf_def settled_def)
  show "of_files (before_frontier sel i j fb C b)"
    unfolding before_frontier_def by (intro files a)
  show "of_files (after_flush sel uuid i j fb C' fb')" "of_files (after_publish sel uuid i j fb C' fb')"
    unfolding after_flush_def after_publish_def by (intro files)+
qed

lemma put_segment:
  assumes "segment_at sel i j fb ino s"
  shows "segment_at sel i j fb (ino\<lparr>in_bytes := bs\<rparr>) (put_bytes i bs s)"
  using assms by (auto simp: segment_at_def put_bytes_def fs_wf_def settled_def)

lemma before_frontier_full:
  "segment_at sel i j fb \<lparr>in_bytes = C @ b, in_durable = C\<rparr> s \<Longrightarrow> before_frontier sel i j fb C b s"
  unfolding before_frontier_def by (rule disjI1, rule exI [of _ "length b"]) simp

lemma write_triple:
  "triple (segment_at sel i j fb \<lparr>in_bytes = C, in_durable = C\<rparr>) (sys_write_at i (length C) b)
     (\<lambda>_. segment_at sel i j fb \<lparr>in_bytes = C @ b, in_durable = C\<rparr>) (before_frontier sel i j fb C b)"
  unfolding sys_write_at_def
proof (rule triple_syscall)
  fix s assume s: "segment_at sel i j fb \<lparr>in_bytes = C, in_durable = C\<rparr> s"
  then have fb: "file_bytes s i = C" by (simp add: segment_at_def file_bytes_def)
  have put: "segment_at sel i j fb \<lparr>in_bytes = C @ x, in_durable = C\<rparr> (put_bytes i (C @ x) s)" for x
    using put_segment [OF s, of "C @ x"] by simp
  show "before_frontier sel i j fb C b s"
    unfolding before_frontier_def by (rule disjI1, rule exI [of _ 0]) (use s in simp)
  show "before_frontier sel i j fb C b (put_bytes i (write_at (file_bytes s i) (length C) (take n b)) s)" for n
    using put [of "take n b"] by (auto simp: before_frontier_def fb)
  show "case (Inr (), put_bytes i (write_at (file_bytes s i) (length C) b) s) of
      (Inr x, s') \<Rightarrow> segment_at sel i j fb \<lparr>in_bytes = C @ b, in_durable = C\<rparr> s' \<and> before_frontier sel i j fb C b s'
    | (Inl e, s') \<Rightarrow> before_frontier sel i j fb C b s'"
    using put [of b] by (simp add: before_frontier_full fb)
qed (intro files)+

lemma flush_triple:
  "triple (segment_at sel i j fb \<lparr>in_bytes = C @ b, in_durable = C\<rparr>) (sys_sync_file i)
     (\<lambda>_. segment_at sel i j fb \<lparr>in_bytes = C @ b, in_durable = C @ b\<rparr>) (before_frontier sel i j fb C b)"
  unfolding sys_sync_file_def
proof (rule triple_syscall)
  fix s assume s: "segment_at sel i j fb \<lparr>in_bytes = C @ b, in_durable = C\<rparr> s"
  then show "before_frontier sel i j fb C b s" "before_frontier sel i j fb C b ((\<lambda>n s. s) n s)" for n
    unfolding before_frontier_def by (auto intro!: exI [of _ "length b"])
  have "segment_at sel i j fb \<lparr>in_bytes = C @ b, in_durable = C @ b\<rparr>
      (s\<lparr>fs_inodes := (fs_inodes s)(i := (fs_inodes s i)\<lparr>in_durable := file_bytes s i\<rparr>)\<rparr>)"
    using s by (auto simp: segment_at_def fs_wf_def settled_def file_bytes_def)
  then show "case (Inr (), s\<lparr>fs_inodes := (fs_inodes s)(i := (fs_inodes s i)\<lparr>in_durable := file_bytes s i\<rparr>)\<rparr>) of
      (Inr x, s') \<Rightarrow> segment_at sel i j fb \<lparr>in_bytes = C @ b, in_durable = C @ b\<rparr> s' \<and> before_frontier sel i j fb C b s'
    | (Inl e, s') \<Rightarrow> before_frontier sel i j fb C b s'"
    by (simp add: before_frontier_def)
qed (intro files)+

lemma append_commit_triple:
  assumes names: "paired_names sel" and seg: "v2_file seg = i" "v2_cursor seg = length C" "v2_selection seg = sel"
  shows "triple (segment_at sel i j fb \<lparr>in_bytes = C, in_durable = C\<rparr>) (append_commit H uuid seg b f')
    (\<lambda>_. after_publish sel uuid i j fb (C @ b) (frontier_encode H f'))
    (\<lambda>s. before_frontier sel i j fb C b s \<or> after_flush sel uuid i j fb (C @ b) (frontier_encode H f') s)"
    (is "triple ?P _ ?Q ?R")
proof -
  let ?name = "sel_frontier_name sel" and ?t = "frontier_temp (sel_frontier_name sel) uuid"
  let ?fb' = "frontier_encode H f'"
  have pub: "triple (segment_at sel i j fb \<lparr>in_bytes = C @ b, in_durable = C @ b\<rparr>)
      (publish_frontier_durable uuid ?name ?fb') (\<lambda>_. after_publish sel uuid i j fb (C @ b) ?fb') ?R"
  proof (rule triple_pointwise)
    fix s0 assume s0: "segment_at sel i j fb \<lparr>in_bytes = C @ b, in_durable = C @ b\<rparr> s0"
    then have wf: "fs_wf s0" by (simp add: segment_at_def)
    show "triple (\<lambda>s. s = s0) (publish_frontier_durable uuid ?name ?fb') (\<lambda>_. after_publish sel uuid i j fb (C @ b) ?fb') ?R"
      by (rule triple_weaken [OF publish_frontier_triple [OF temp_fresh(1) [OF names] wf]])
        (use s0 untouched_start [OF wf] in \<open>auto simp: after_publish_def after_flush_def\<close>)
  qed
  have verify: "triple (after_publish sel uuid i j fb (C @ b) ?fb') (verify_regular_exact ?name ?fb')
      (\<lambda>_. after_publish sel uuid i j fb (C @ b) ?fb') ?R"
    using verify_regular_reads_only [of ?name ?fb'] of_files_append(4) unfolding reads_only_def
    by (fastforce intro: triple_weaken holds_safe simp: after_publish_def after_flush_def)
  show ?thesis
    unfolding append_commit_def seg
    by (rule triple_bind [OF lift_journal_triple [OF triple_weaken [OF write_triple]]], assumption, assumption, simp,
        rule triple_bind [OF lift_journal_triple [OF triple_weaken [OF flush_triple]]], assumption, assumption, simp,
        rule triple_bind [OF lift_journal_triple [OF pub] verify])
qed

lemma found_settled:
  assumes "fs_dir s n = Some (RegularFile i)" "settled n s"
  shows "may_find s n x \<longleftrightarrow> (\<exists>c. x = Some c \<and> survives (fs_inodes s i) c)" "only_regular s n"
  using assms by (auto simp: may_find_def settled_def only_regular_def split: option.splits)

lemma common_prefix_append [simp]: "common_prefix xs (xs @ ys) = xs"
  by (rule common_prefix_self)

lemma before_frontier_found:
  assumes "before_frontier sel i j fb C b s"
  shows "only_regular s (sel_segment_name sel)" "only_regular s (sel_frontier_name sel)"
    and "may_find s (sel_segment_name sel) x \<Longrightarrow> \<exists>rest. x = Some (C @ rest) \<and> length rest \<le> length b"
    and "may_find s (sel_frontier_name sel) y \<Longrightarrow> y = Some fb"
proof -
  from assms obtain ino where ino: "segment_at sel i j fb ino s"
    "in_durable ino = C \<and> (\<exists>n. in_bytes ino = C @ take n b) \<or> in_durable ino = C @ b \<and> in_bytes ino = C @ b"
    unfolding before_frontier_def
  proof (elim disjE exE)
    fix n assume "segment_at sel i j fb \<lparr>in_bytes = C @ take n b, in_durable = C\<rparr> s"
    then show thesis by (rule that) auto
  next
    assume "segment_at sel i j fb \<lparr>in_bytes = C @ b, in_durable = C @ b\<rparr> s"
    then show thesis by (rule that) auto
  qed
  have d: "fs_dir s (sel_segment_name sel) = Some (RegularFile i)" "settled (sel_segment_name sel) s" "fs_inodes s i = ino"
    "fs_dir s (sel_frontier_name sel) = Some (RegularFile j)" "settled (sel_frontier_name sel) s"
    "fs_inodes s j = \<lparr>in_bytes = fb, in_durable = fb\<rparr>"
    using ino(1) by (auto simp: segment_at_def)
  show "only_regular s (sel_segment_name sel)" "only_regular s (sel_frontier_name sel)"
    using found_settled(2) d by blast+
  show "may_find s (sel_frontier_name sel) y \<Longrightarrow> y = Some fb"
    using found_settled(1) [OF d(4,5)] d(6) by auto
  have "survives ino c \<Longrightarrow> \<exists>rest. c = C @ rest \<and> length rest \<le> length b" for c
    using ino(2) by (auto simp: survives_def starts_with_append split: if_splits)
  then show "may_find s (sel_segment_name sel) x \<Longrightarrow> \<exists>rest. x = Some (C @ rest) \<and> length rest \<le> length b"
    using found_settled(1) [OF d(1,2)] d(3) by auto
qed

lemma segment_found:
  assumes "segment_at sel i j fb \<lparr>in_bytes = C, in_durable = C\<rparr> s"
  shows "may_find s (sel_segment_name sel) x \<longleftrightarrow> x = Some C" "may_find s (sel_frontier_name sel) y \<longleftrightarrow> y = Some fb"
    "fs_wf s" "only_regular s (sel_segment_name sel)" "only_regular s (sel_frontier_name sel)"
  using assms found_settled [of s "sel_segment_name sel" i] found_settled [of s "sel_frontier_name sel" j]
  by (auto simp: segment_at_def)

lemma only_regular_safe:
  assumes "safe_publish ok s0 temp name bs s"
  shows "only_regular s0 name \<Longrightarrow> only_regular s name"
    and "n \<noteq> name \<Longrightarrow> n \<noteq> temp \<Longrightarrow> only_regular s0 n \<Longrightarrow> only_regular s n"
proof -
  show "only_regular s0 name \<Longrightarrow> only_regular s name"
    using assms unfolding safe_publish_def old_name_def new_name_def only_regular_def by auto
  assume "n \<noteq> name" "n \<noteq> temp"
  then have "set (fs_maybe s n) \<subseteq> set (fs_maybe s0 n)"
    using assms unfolding safe_publish_def others_def by auto
  then show "only_regular s0 n \<Longrightarrow> only_regular s n" unfolding only_regular_def by auto
qed

lemma after_flush_found:
  assumes names: "paired_names sel" and "after_flush sel uuid i j fb C' fb' s"
  shows "only_regular s (sel_segment_name sel)" "only_regular s (sel_frontier_name sel)"
    and "may_find s (sel_segment_name sel) x \<Longrightarrow> x = Some C'"
    and "may_find s (sel_frontier_name sel) y \<Longrightarrow> y = Some fb \<or> y = Some fb'"
proof -
  from assms(2) obtain s0 where s0: "segment_at sel i j fb \<lparr>in_bytes = C', in_durable = C'\<rparr> s0"
    "safe_publish True s0 (frontier_temp (sel_frontier_name sel) uuid) (sel_frontier_name sel) fb' s"
    by (auto simp: after_flush_def)
  note t = temp_fresh(1) [OF names, of uuid] temp_fresh(2) [OF names, of uuid] temp_fresh(3) [OF names]
  note f = segment_found [OF s0(1)]
  show "only_regular s (sel_segment_name sel)" "only_regular s (sel_frontier_name sel)"
    using only_regular_safe [OF s0(2)] f t by auto
  show "may_find s (sel_segment_name sel) x \<Longrightarrow> x = Some C'"
    using may_find_other [OF f(3) s0(2) t(3) t(2) [symmetric]] f(1) by auto
  show "may_find s (sel_frontier_name sel) y \<Longrightarrow> y = Some fb \<or> y = Some fb'"
    using may_find_safe [OF f(3) s0(2)] f(2) by auto
qed

lemma after_publish_found:
  assumes names: "paired_names sel" and "after_publish sel uuid i j fb C' fb' s"
  shows "after_flush sel uuid i j fb C' fb' s"
    and "may_find s (sel_frontier_name sel) y \<longleftrightarrow> y = Some fb'"
proof -
  from assms(2) obtain s0 where s0: "segment_at sel i j fb \<lparr>in_bytes = C', in_durable = C'\<rparr> s0"
    "holds_exactly True s0 (frontier_temp (sel_frontier_name sel) uuid) (sel_frontier_name sel) fb' s"
    by (auto simp: after_publish_def)
  then show "after_flush sel uuid i j fb C' fb' s" using holds_safe by (auto simp: after_flush_def)
  have "flushed s0 (sel_frontier_name sel)" "fs_wf s0"
    using s0(1) by (auto simp: segment_at_def flushed_def)
  with holds_durable [OF this(2) s0(2) this(1)]
  show "may_find s (sel_frontier_name sel) y \<longleftrightarrow> y = Some fb'" by simp
qed

section \<open>Appending\<close>

text \<open>How an append to a live generation runs.\<close>

lemma v2_append_cases:
  assumes live: "v2_live E sel es seg s" and names: "paired_names sel" and nz: "nonzero_hash (env_sha256 E)"
    and run: "v2_append E uuid seg kind payload s = (r, seg', s')"
  obtains (refused) e where "r = Inl (DefinitelyNotAppended e)" "seg' = seg" "s' = s"
    | (started) bs b f' j where
      "frontier_selects E (v2_frontier seg) es bs" "frontier_selects E f' (es @ [(kind, payload)]) (bs @ b)"
      "fv_header f' = header_for_selection sel"
      "unat (fv_committed_extent f') = unat (fv_committed_extent (v2_frontier seg)) + length b"
      "unat (fv_committed_extent f') \<le> MAX_LOCAL_JOURNAL_SEGMENT_BYTES"
      "segment_at sel (v2_file seg) j (frontier_encode (env_sha256 E) (v2_frontier seg))
         \<lparr>in_bytes = generation_bytes E sel bs, in_durable = generation_bytes E sel bs\<rparr> s"
      "(\<exists>e. r = Inl (AppendOutcomeUnknown e) \<and> seg' = seg\<lparr>v2_poisoned := True\<rparr>
          \<and> (before_frontier sel (v2_file seg) j (frontier_encode (env_sha256 E) (v2_frontier seg))
               (generation_bytes E sel bs) b s'
             \<or> after_flush sel uuid (v2_file seg) j (frontier_encode (env_sha256 E) (v2_frontier seg))
                 (generation_bytes E sel (bs @ b)) (frontier_encode (env_sha256 E) f') s'))
       \<or> (\<exists>ap. r = Inr ap \<and> ap_sequence ap = fv_next_sequence (v2_frontier seg) \<and> v2_file seg' = v2_file seg
          \<and> v2_cursor seg' = v2_cursor seg + length b \<and> v2_selection seg' = v2_selection seg
          \<and> v2_frontier seg' = f' \<and> v2_poisoned seg' = v2_poisoned seg
          \<and> after_publish sel uuid (v2_file seg) j (frontier_encode (env_sha256 E) (v2_frontier seg))
              (generation_bytes E sel (bs @ b)) (frontier_encode (env_sha256 E) f') s')"
proof -
  define f where "f = v2_frontier seg"
  from live obtain bs j where l: "v2_selection seg = sel" "\<not> v2_poisoned seg" "fv_header f = header_for_selection sel"
    "v2_cursor seg = unat (fv_committed_extent f)" "frontier_selects E f es bs"
    "segment_at sel (v2_file seg) j (frontier_encode (env_sha256 E) f)
         \<lparr>in_bytes = generation_bytes E sel bs, in_durable = generation_bytes E sel bs\<rparr> s"
    by (auto simp: v2_live_def f_def segment_at_def Let_def)
  have cur: "v2_cursor seg = length (generation_bytes E sel bs)"
    using l(4,5) by (simp add: generation_bytes_def frontier_selects_def)
  have dev: "sel_device_id sel = sh_device_id (fv_header f)" by (simp add: l(3) header_for_selection_def)
  show thesis
  proof (cases "bind_res (encode_frame E (sel_device_id sel) (fv_next_sequence f) kind payload) (\<lambda>bs.
             bind_res (frontier_successor (env_sha256 E) f bs) (\<lambda>successor. Inr (bs, successor)))")
    case (Inl e)
    then show thesis using run l(1,2) by (intro refused) (auto simp: v2_append_def f_def Let_def)
  next
    case (Inr p)
    then obtain b f' where b: "encode_frame E (sh_device_id (fv_header f)) (fv_next_sequence f) kind payload = Inr b"
      "frontier_successor (env_sha256 E) f b = Inr f'" "p = (b, f')"
      by (auto simp: bind_res_Inr dev)
    note succ = successor_selects [OF l(5) nz b(1,2)]
    note t = append_commit_triple [OF names refl cur l(1), of j "frontier_encode (env_sha256 E) f" "env_sha256 E" uuid b f']
    obtain c s1 where c: "append_commit (env_sha256 E) uuid seg b f' s = (c, s1)" by force
    have gb: "generation_bytes E sel bs @ b = generation_bytes E sel (bs @ b)" by (simp add: generation_bytes_def)
    show thesis
    proof (rule started [OF l(5) [unfolded f_def] succ(1)])
      show "fv_header f' = header_for_selection sel" using succ(2) l(3) by simp
    qed (use succ(3,4) l(6) run Inr b(3) l(1,2) c tripleD [OF t l(6)] tripleE [OF t l(6)] in
        \<open>auto simp: v2_append_def f_def gb Let_def split: sum.splits\<close>)
  qed
qed

definition append_outcome_ok ::
  "append_error_v2 + local_journal_append \<Rightarrow> 'e list \<Rightarrow> 'e \<Rightarrow> 'e list \<Rightarrow> bool" where
  "append_outcome_ok r es e es' \<longleftrightarrow> (es' = es \<or> es' = es @ [e])
     \<and> (\<forall>ap. r = Inr ap \<longrightarrow> es' = es @ [e]) \<and> (\<forall>err. r = Inl (DefinitelyNotAppended err) \<longrightarrow> es' = es)"

lemma v2_append_reopens:
  assumes rt: "roundtrips (env_header E)" and nz: "nonzero_hash (env_sha256 E)"
    and name: "safe_name (sel_segment_name sel)" and names: "paired_names sel"
    and live: "v2_live E sel es seg s"
    and run: "v2_append E uuid seg kind payload s = (r, seg', s')" and image: "crash_image s' s''"
  shows "\<exists>es' i f extra s3. append_outcome_ok r es (kind, payload) es'
    \<and> open_selected E Map.empty sel s'' = (Inr (adopted_v2 sel i f es' extra), s3)
    \<and> (power_cycled s' s'' \<longrightarrow> v2_live E sel es' (fst (adopted_v2 sel i f es' extra)) s3)"
proof -
  have lim: "unat (fv_committed_extent (v2_frontier seg)) \<le> MAX_LOCAL_JOURNAL_SEGMENT_BYTES"
    "fv_header (v2_frontier seg) = header_for_selection sel"
    using live by (simp_all add: v2_live_def Let_def)
  let ?P = "append_outcome_ok r es (kind, payload)"
  show ?thesis
    using live names nz run
  proof (cases rule: v2_append_cases)
    case (refused e)
    from live obtain bs j where l: "frontier_selects E (v2_frontier seg) es bs"
      "segment_at sel (v2_file seg) j (frontier_encode (env_sha256 E) (v2_frontier seg))
         \<lparr>in_bytes = generation_bytes E sel bs, in_durable = generation_bytes E sel bs\<rparr> s"
      by (auto simp: v2_live_def segment_at_def Let_def)
    have "selectable E sel es (Some (generation_bytes E sel bs)) (Some (frontier_encode (env_sha256 E) (v2_frontier seg)))"
      using selectableI [OF l(1) lim(2), of "[]"] l(1) lim(1) by (simp add: frontier_selects_def)
    with segment_found [OF l(2)] refused show ?thesis
      by (intro reopen_selectable [OF rt name image]) (auto simp: append_outcome_ok_def)
  next
    case (started bs b f' j)
    let ?C = "generation_bytes E sel bs" and ?C' = "generation_bytes E sel (bs @ b)"
    let ?fb = "frontier_encode (env_sha256 E) (v2_frontier seg)" and ?fb' = "frontier_encode (env_sha256 E) f'"
    have old: "selectable E sel es (Some (?C @ rest)) (Some ?fb)" if "length rest \<le> length b" for rest
      using selectableI [OF started(1) lim(2), of rest] started(1,4,5) that by (simp add: frontier_selects_def)
    have old': "selectable E sel es (Some ?C') (Some ?fb)"
      using old [of b] by (simp add: generation_bytes_def)
    have new: "selectable E sel (es @ [(kind, payload)]) (Some ?C') (Some ?fb')"
      using selectableI [OF started(2,3), of "[]"] started(2,5) by (simp add: frontier_selects_def)
    from started(7) consider
      (before) e where "r = Inl (AppendOutcomeUnknown e)" "before_frontier sel (v2_file seg) j ?fb ?C b s'"
      | (flushed) e where "r = Inl (AppendOutcomeUnknown e)" "after_flush sel uuid (v2_file seg) j ?fb ?C' ?fb' s'"
      | (acked) ap where "r = Inr ap" "after_publish sel uuid (v2_file seg) j ?fb ?C' ?fb' s'"
      by blast
    then show ?thesis
    proof cases
      case before
      note f = before_frontier_found [OF before(2)]
      show ?thesis
      proof (rule reopen_selectable [OF rt name image f(1,2)])
        fix x y assume "may_find s' (sel_segment_name sel) x" "may_find s' (sel_frontier_name sel) y"
        then have "\<exists>rest. x = Some (?C @ rest) \<and> length rest \<le> length b" "y = Some ?fb" using f(3,4) by blast+
        then show "\<exists>es'. ?P es' \<and> selectable E sel es' x y" using old before(1) by (auto simp: append_outcome_ok_def)
      qed
    next
      case flushed
      note f = after_flush_found [OF names flushed(2)]
      show ?thesis
      proof (rule reopen_selectable [OF rt name image f(1,2)])
        fix x y assume "may_find s' (sel_segment_name sel) x" "may_find s' (sel_frontier_name sel) y"
        then have "x = Some ?C'" "y = Some ?fb \<or> y = Some ?fb'" using f(3,4) by blast+
        then show "\<exists>es'. ?P es' \<and> selectable E sel es' x y" using old' new flushed(1) by (auto simp: append_outcome_ok_def)
      qed
    next
      case acked
      note p = after_publish_found [OF names acked(2)]
      note f = after_flush_found [OF names p(1)]
      show ?thesis
      proof (rule reopen_selectable [OF rt name image f(1,2)])
        fix x y assume "may_find s' (sel_segment_name sel) x" "may_find s' (sel_frontier_name sel) y"
        then have "x = Some ?C'" "y = Some ?fb'" using f(3) p(2) by blast+
        then show "\<exists>es'. ?P es' \<and> selectable E sel es' x y" using new acked(1) by (auto simp: append_outcome_ok_def)
      qed
    qed
  qed
qed

text \<open>
  C1. Crash consistency of the journal append.  Let every system call of the append fail, half-write
  or lose power as it may.  From any state the next process may then find, the generation reopens, with
  the log before the append or that log with the entry; with the entry if the append was acknowledged,
  without it if the append reported that it definitely did not start.
\<close>

theorem v2_append_crash_safe:
  assumes rt: "roundtrips (env_header E)" and nz: "nonzero_hash (env_sha256 E)"
    and name: "safe_name (sel_segment_name sel)" and names: "paired_names sel"
    and live: "v2_live E sel es seg s"
    and run: "v2_append E uuid seg kind payload s = (r, seg', s')" and image: "crash_image s' s''"
  shows "\<exists>es' i f extra s3. (es' = es \<or> es' = es @ [(kind, payload)])
    \<and> open_selected E Map.empty sel s'' = (Inr (adopted_v2 sel i f es' extra), s3)
    \<and> (\<forall>ap. r = Inr ap \<longrightarrow> es' = es @ [(kind, payload)])
    \<and> (\<forall>e. r = Inl (DefinitelyNotAppended e) \<longrightarrow> es' = es)"
  using v2_append_reopens [OF assms] unfolding append_outcome_ok_def by blast

section \<open>Histories of a generation\<close>

lemma holds_settled: "holds_exactly ok s0 temp name bs s \<Longrightarrow> settled name s"
  by (simp add: holds_exactly_def)

lemma v2_append_live:
  assumes nz: "nonzero_hash (env_sha256 E)" and names: "paired_names sel"
    and live: "v2_live E sel es seg s"
    and run: "v2_append E uuid seg kind payload s = (Inr ap, seg', s')"
  shows "v2_live E sel (es @ [(kind, payload)]) seg' s'"
    and "ap_sequence ap = sel_base_sequence sel + of_nat (length es)"
proof -
  have l: "v2_selection seg = sel" "\<not> v2_poisoned seg" "fv_header (v2_frontier seg) = header_for_selection sel"
    "v2_cursor seg = unat (fv_committed_extent (v2_frontier seg))"
    using live by (simp_all add: v2_live_def Let_def)
  have "v2_live E sel (es @ [(kind, payload)]) seg' s' \<and> ap_sequence ap = sel_base_sequence sel + of_nat (length es)"
    using live names nz run
  proof (cases rule: v2_append_cases)
    case (started bs b f' j)
    then have a: "ap_sequence ap = fv_next_sequence (v2_frontier seg)" "v2_file seg' = v2_file seg"
      "v2_cursor seg' = v2_cursor seg + length b" "v2_selection seg' = sel" "v2_frontier seg' = f'" "\<not> v2_poisoned seg'"
      "after_publish sel uuid (v2_file seg) j (frontier_encode (env_sha256 E) (v2_frontier seg))
         (generation_bytes E sel (bs @ b)) (frontier_encode (env_sha256 E) f') s'"
      using l by auto
    from a(7) obtain s0 where s0: "segment_at sel (v2_file seg) j (frontier_encode (env_sha256 E) (v2_frontier seg))
        \<lparr>in_bytes = generation_bytes E sel (bs @ b), in_durable = generation_bytes E sel (bs @ b)\<rparr> s0"
      "holds_exactly True s0 (frontier_temp (sel_frontier_name sel) uuid) (sel_frontier_name sel)
         (frontier_encode (env_sha256 E) f') s'"
      by (auto simp: after_publish_def)
    note t = temp_fresh(2) [OF names, of uuid] temp_fresh(3) [OF names]
    have o: "others s0 (frontier_temp (sel_frontier_name sel) uuid) (sel_frontier_name sel) s'"
      using holds_safe [OF s0(2)] by (auto simp: safe_publish_def)
    have lt: "v2_file seg < fs_next s0" using s0(1) by (metis segment_at_def wf_inode wf_live)
    have segd: "fs_dir s' (sel_segment_name sel) = Some (RegularFile (v2_file seg))"
      "fs_inodes s' (v2_file seg) = \<lparr>in_bytes = generation_bytes E sel (bs @ b), in_durable = generation_bytes E sel (bs @ b)\<rparr>"
      "set (fs_maybe s' (sel_segment_name sel)) \<subseteq> {Some (RegularFile (v2_file seg))}"
      using o s0(1) t lt by (simp_all add: others_def segment_at_def settled_def) metis
    moreover have wf: "fs_wf s'" using o by (simp add: others_def)
    ultimately have seg_settled: "settled (sel_segment_name sel) s'"
      using wf_live [OF wf, of "sel_segment_name sel"] by (auto simp: settled_def)
    obtain k where k: "fs_dir s' (sel_frontier_name sel) = Some (RegularFile k)"
      "file_bytes s' k = frontier_encode (env_sha256 E) f'" "settled (sel_frontier_name sel) s'"
      using s0(2) by (auto simp: holds_exactly_def)
    have fl: "fs_wf s0" "flushed s0 (sel_frontier_name sel)" using s0(1) by (auto simp: segment_at_def flushed_def)
    have kd: "fs_inodes s' k = \<lparr>in_bytes = frontier_encode (env_sha256 E) f', in_durable = frontier_encode (env_sha256 E) f'\<rparr>"
      using holds_inode [OF fl(1) s0(2) fl(2) k(1)] .
    have "k \<noteq> v2_file seg"
    proof
      assume "k = v2_file seg"
      then have "generation_bytes E sel (bs @ b) = frontier_encode (env_sha256 E) f'" using segd(2) kd by simp
      then have "take 8 (generation_bytes E sel (bs @ b)) = take 8 (frontier_encode (env_sha256 E) f')" by simp
      then show False
        by (simp add: generation_bytes_def header_encode_def frontier_encode_def sealed_def SEGMENT_MAGIC_def FRONTIER_MAGIC_def)
    qed
    moreover have "fv_next_sequence (v2_frontier seg) = sel_base_sequence sel + of_nat (length es)"
      using started(1) l(3) by (simp add: frontier_selects_def header_for_selection_def)
    ultimately show ?thesis
      using a started l k kd segd seg_settled wf unfolding v2_live_def Let_def by auto
  qed simp_all
  then show "v2_live E sel (es @ [(kind, payload)]) seg' s'"
    "ap_sequence ap = sel_base_sequence sel + of_nat (length es)" by auto
qed

text \<open>
  The runs of a generation: appends, power losses at any point followed by a restart and a reopen, and
  restarts between appends.  \<open>acked\<close> is the list of entries whose append was acknowledged, in order.
\<close>

inductive v2_history ::
  "'k journal_env \<Rightarrow> v2_selection \<Rightarrow> v2_segment \<Rightarrow> fsys \<Rightarrow> ('k \<times> bytes) list \<Rightarrow> bool"
  for E :: "'k journal_env" and sel :: v2_selection where
  opened: "v2_live E sel [] seg s \<Longrightarrow> v2_history E sel seg s []"
| acknowledged: "v2_history E sel seg s acked \<Longrightarrow> v2_append E uuid seg kind payload s = (Inr ap, seg', s')
    \<Longrightarrow> v2_history E sel seg' s' (acked @ [(kind, payload)])"
| lost_power: "v2_history E sel seg s acked \<Longrightarrow> v2_append E uuid seg kind payload s = (Inl err, seg', s')
    \<Longrightarrow> power_cycled s' s'' \<Longrightarrow> open_selected E Map.empty sel s'' = (Inr (seg2, recovery), s2)
    \<Longrightarrow> v2_history E sel seg2 s2 acked"
| restarted: "v2_history E sel seg s acked \<Longrightarrow> power_cycled s s''
    \<Longrightarrow> open_selected E Map.empty sel s'' = (Inr (seg2, recovery), s2) \<Longrightarrow> v2_history E sel seg2 s2 acked"

inductive_cases v2_history_emptyE: "v2_history E sel seg s []"

text \<open>A live generation is reopened after a restart with exactly its log.\<close>

lemma live_reopens:
  assumes rt: "roundtrips (env_header E)" and name: "safe_name (sel_segment_name sel)"
    and live: "v2_live E sel es seg s" and cycle: "power_cycled s s''"
    and run: "open_selected E Map.empty sel s'' = (Inr (seg2, recovery), s2)"
  shows "v2_live E sel es seg2 s2"
proof -
  have lim: "unat (fv_committed_extent (v2_frontier seg)) \<le> MAX_LOCAL_JOURNAL_SEGMENT_BYTES"
    "fv_header (v2_frontier seg) = header_for_selection sel"
    using live by (simp_all add: v2_live_def Let_def)
  from live obtain bs j where l: "frontier_selects E (v2_frontier seg) es bs"
      "segment_at sel (v2_file seg) j (frontier_encode (env_sha256 E) (v2_frontier seg))
         \<lparr>in_bytes = generation_bytes E sel bs, in_durable = generation_bytes E sel bs\<rparr> s"
    by (auto simp: v2_live_def segment_at_def Let_def)
  have sel: "selectable E sel es (Some (generation_bytes E sel bs)) (Some (frontier_encode (env_sha256 E) (v2_frontier seg)))"
    using selectableI [OF l(1) lim(2), of "[]"] l(1) lim(1) by (simp add: frontier_selects_def)
  note f = segment_found [OF l(2)]
  have image: "crash_image s s''" using cycle by (simp add: power_cycled_def)
  have "\<exists>es' i f extra s3. es' = es \<and> open_selected E Map.empty sel s'' = (Inr (adopted_v2 sel i f es' extra), s3)
    \<and> (power_cycled s s'' \<longrightarrow> v2_live E sel es' (fst (adopted_v2 sel i f es' extra)) s3)"
    by (rule reopen_selectable [OF rt name image f(4,5)]) (use f(1,2) sel in auto)
  then obtain i f' extra where "open_selected E Map.empty sel s'' = (Inr (adopted_v2 sel i f' es extra), s2)"
    "v2_live E sel es (fst (adopted_v2 sel i f' es extra)) s2"
    using run cycle by auto
  then show ?thesis using run by (metis fst_conv prod.inject sum.inject(2))
qed

lemma lost_power_reopens:
  assumes rt: "roundtrips (env_header E)" and nz: "nonzero_hash (env_sha256 E)"
    and name: "safe_name (sel_segment_name sel)" and names: "paired_names sel"
    and live: "v2_live E sel es seg s" and app: "v2_append E uuid seg kind payload s = (r, seg', s')"
    and cycle: "power_cycled s' s''" and run: "open_selected E Map.empty sel s'' = (Inr (seg2, recovery), s2)"
  shows "\<exists>es'. append_outcome_ok r es (kind, payload) es' \<and> v2_live E sel es' seg2 s2"
proof -
  have image: "crash_image s' s''" using cycle by (simp add: power_cycled_def)
  from v2_append_reopens [OF rt nz name names live app image] run cycle
  obtain es' i f extra where "append_outcome_ok r es (kind, payload) es'"
    "open_selected E Map.empty sel s'' = (Inr (adopted_v2 sel i f es' extra), s2)"
    "v2_live E sel es' (fst (adopted_v2 sel i f es' extra)) s2" by auto
  then show ?thesis using run by (metis fst_conv prod.inject sum.inject(2))
qed

text \<open>
  C2. No acknowledged entry is ever lost.  In every run of appends, power losses and restarts of a
  generation, the acknowledged entries are all in the log it holds, in the order of acknowledgement,
  and the next sequence number counts the entries held.
\<close>

theorem acknowledged_entries_survive:
  assumes rt: "roundtrips (env_header E)" and nz: "nonzero_hash (env_sha256 E)"
    and name: "safe_name (sel_segment_name sel)" and names: "paired_names sel"
    and history: "v2_history E sel seg s acked"
  shows "\<exists>es. v2_live E sel es seg s \<and> subseq acked es
    \<and> fv_next_sequence (v2_frontier seg) = sel_base_sequence sel + of_nat (length es)"
proof -
  from history have "\<exists>es. v2_live E sel es seg s \<and> subseq acked es"
  proof induction
    case (opened seg s)
    then show ?case by auto
  next
    case (acknowledged seg s acked uuid kind payload ap seg' s')
    then obtain es where es: "v2_live E sel es seg s" "subseq acked es" by blast
    have "subseq (acked @ [(kind, payload)]) (es @ [(kind, payload)])"
      by (rule list_emb_append_mono [OF es(2)]) simp
    with v2_append_live(1) [OF nz names es(1) acknowledged.hyps(2)] show ?case by blast
  next
    case (lost_power seg s acked uuid kind payload err seg' s' s'' seg2 recovery s2)
    then obtain es where es: "v2_live E sel es seg s" "subseq acked es" by blast
    from lost_power_reopens [OF rt nz name names es(1) lost_power.hyps(2-4)]
    obtain es' where "append_outcome_ok (Inl err) es (kind, payload) es'" "v2_live E sel es' seg2 s2" by blast
    moreover from this(1) es(2) have "subseq acked es'"
      using list_emb_prefix [OF es(2)] by (auto simp: append_outcome_ok_def)
    ultimately show ?case by blast
  next
    case (restarted seg s acked s'' seg2 recovery s2)
    then show ?case using live_reopens [OF rt name] by blast
  qed
  moreover have "fv_next_sequence (v2_frontier seg) = sel_base_sequence sel + of_nat (length es)"
    if "v2_live E sel es seg s" for es
    using that by (auto simp: v2_live_def Let_def frontier_selects_def header_for_selection_def)
  ultimately show ?thesis by blast
qed

section \<open>Preparing a generation\<close>

lemma catch_Inr:
  assumes "catch_fs m h f s = (Inr y, s')"
  obtains (ok) x s1 where "m s = (Inr x, s1)" "f x s1 = (Inr y, s')"
  | (failed) e s1 where "m s = (Inl e, s1)" "h e s1 = (Inr y, s')"
proof -
  obtain r t where r: "m s = (r, t)" by force
  show thesis
  proof (cases r)
    case (Inl e)
    with assms r have "h e t = (Inr y, s')" by (simp add: catch_fs_def)
    with r Inl show thesis by (intro failed) simp_all
  next
    case (Inr x)
    with assms r have "f x t = (Inr y, s')" by (simp add: catch_fs_def)
    with r Inr show thesis by (intro ok) simp_all
  qed
qed

lemma throw_not_Inr [simp]: "fs_throw e s \<noteq> (Inr y, s')"
  by (simp add: fs_throw_def)

lemma reads_only_keeps: "reads_only m \<Longrightarrow> of_files P \<Longrightarrow> m s = (Inr x, s') \<Longrightarrow> P s \<Longrightarrow> P s'"
  by (rule tripleD [where m = m and P = P and Q = "\<lambda>_. P" and R = P]) (simp_all add: reads_only_def)

lemma create_exact_durable_ok:
  assumes wf: "fs_wf s" and temp: "temp_name uuid \<noteq> name"
    and run: "create_exact_durable uuid name bs s = (Inr (), s')"
  shows "holds_exactly (fs_dir s name = None) s (temp_name uuid) name bs s'"
proof -
  from run obtain s1 where
    s1: "publish_immutable_exact uuid name bs s = (Inr (), s1)" "verify_regular_exact name bs s1 = (Inr (), s')"
    unfolding create_exact_durable_def
  proof (rule catch_Inr)
    fix x s1 assume "publish_immutable_exact uuid name bs s = (Inr x, s1)" "verify_regular_exact name bs s1 = (Inr (), s')"
    then show ?thesis using that by simp
  next
    fix e s1
    assume "(case e of ByteCollision \<Rightarrow> fs_throw (PreparedArtifactExists name)
        | StoredLengthMismatch _ _ _ \<Rightarrow> fs_throw (PreparedArtifactExists name)
        | _ \<Rightarrow> fs_throw (JournalIo (''durable preparation of '' @ text_of_bytes name @ '' failed: ''
                                 @ filesystem_error_text e))) s1 = (Inr (), s')"
    then show ?thesis by (cases e) simp_all
  qed
  have "holds_exactly (fs_dir s name = None) s (temp_name uuid) name bs s1"
    using tripleD [OF publish_immutable_triple [OF temp wf, of "fs_dir s name = None"] _ s1(1)] untouched_start [OF wf]
    by (simp add: untouched_def)
  then show ?thesis
    using reads_only_keeps [OF verify_regular_reads_only of_files_holds s1(2)] by blast
qed

lemma initial_selects: "frontier_selects E (frontier_initial h) [] []"
  by (simp add: frontier_selects_def frontier_initial_def terminal_matches_def v2_sizes)

lemma holds_only_regular: "holds_exactly ok s0 temp name bs s \<Longrightarrow> only_regular s name"
  by (auto simp: holds_exactly_def settled_def only_regular_def)

text \<open>
  C31. A prepared generation is durable and opens empty: when preparation returned success (over names
  that were free, or held flushed files), every state a restart may find opens with the empty log and
  is a live generation.
\<close>

theorem prepared_generation_opens:
  assumes rt: "roundtrips (env_header E)" and name: "safe_name (sel_segment_name sel)" and names: "paired_names sel"
    and wf: "fs_wf s" and flushed: "flushed s (sel_segment_name sel)" "flushed s (sel_frontier_name sel)"
    and temps: "temp_name u1 \<noteq> sel_segment_name sel" "temp_name u1 \<noteq> sel_frontier_name sel"
      "temp_name u2 \<noteq> sel_segment_name sel" "temp_name u2 \<noteq> sel_frontier_name sel"
    and run: "prepare (env_sha256 E) u1 u2 sel s = (Inr (), s')" and cycle: "power_cycled s' s''"
  shows "\<exists>seg recovery s2. open_selected E Map.empty sel s'' = (Inr (seg, recovery), s2)
    \<and> frames_recovered recovery = 0 \<and> v2_live E sel [] seg s2"
proof -
  let ?H = "env_sha256 E" and ?h = "header_for_selection sel"
  let ?seg = "sel_segment_name sel" and ?fr = "sel_frontier_name sel"
  from run obtain s1 where s1: "create_exact_durable u1 ?seg (header_encode ?H ?h) s = (Inr (), s1)"
    "create_exact_durable u2 ?fr (frontier_encode ?H (frontier_initial ?h)) s1 = (Inr (), s')"
    by (auto simp: prepare_def Let_def fs_bind_Inr)
  note h1 = create_exact_durable_ok [OF wf temps(1) s1(1)]
  note safe1 = holds_safe [OF h1]
  have o1: "others s (temp_name u1) ?seg s1" using safe1 by (auto simp: safe_publish_def)
  have wf1: "fs_wf s1" using o1 by (simp add: others_def)
  have fl1: "flushed s1 ?fr"
  proof (unfold flushed_def, intro allI impI)
    fix i assume "fs_dir s1 ?fr = Some (RegularFile i)"
    then have d: "fs_dir s ?fr = Some (RegularFile i)"
      using o1 temps(2) temp_fresh(3) [OF names] by (auto simp: others_def)
    then have "i < fs_next s" using wf by (metis wf_inode wf_live)
    then show "in_durable (fs_inodes s1 i) = in_bytes (fs_inodes s1 i)"
      using o1 d flushed(2) by (simp add: others_def flushed_def)
  qed
  note h2 = create_exact_durable_ok [OF wf1 temps(4) s1(2)]
  note safe2 = holds_safe [OF h2]
  have "selectable E sel [] (Some (generation_bytes E sel [])) (Some (frontier_encode ?H (frontier_initial ?h)))"
    using selectableI [OF initial_selects [of E ?h], of sel "[]"]
    by (simp add: frontier_initial_def MAX_LOCAL_JOURNAL_SEGMENT_BYTES_def)
  moreover have "may_find s' ?seg x \<Longrightarrow> x = Some (generation_bytes E sel [])" for x
    using may_find_other [OF wf1 safe2 temp_fresh(3) [OF names] temps(3) [symmetric]]
      holds_durable [OF wf h1 flushed(1)] by (auto simp: generation_bytes_def)
  moreover have "may_find s' ?fr y \<Longrightarrow> y = Some (frontier_encode ?H (frontier_initial ?h))" for y
    using holds_durable [OF wf1 h2 fl1] by simp
  moreover have "crash_image s' s''" using cycle by (simp add: power_cycled_def)
  moreover have "only_regular s' ?seg"
    using only_regular_safe(2) [OF safe2 temp_fresh(3) [OF names] temps(3) [symmetric]] holds_only_regular [OF h1] by simp
  ultimately have "\<exists>es i f extra s2. es = [] \<and> open_selected E Map.empty sel s'' = (Inr (adopted_v2 sel i f es extra), s2)
    \<and> (power_cycled s' s'' \<longrightarrow> v2_live E sel es (fst (adopted_v2 sel i f es extra)) s2)"
    using holds_only_regular [OF h2] by (intro reopen_selectable [OF rt name]) auto
  then show ?thesis using cycle by (auto simp: adopted_v2_def)
qed

end
