(* ===== verification/Journal_Instances.thy ===== *)
theory Journal_Instances
  imports Journal_Crash
begin

text \<open>
  A concrete generation, in the environment of \<open>Local_Journal\<close>, and the journal properties applied to it.
\<close>

definition demo_sel :: v2_selection where
  "demo_sel = \<lparr>sel_segment_name = demo_name, sel_frontier_name = demo_name @ LOCAL_JOURNAL_FRONTIER_SUFFIX,
     sel_segment_id = demo_device, sel_name_digest = env_sha256 demo_env demo_name,
     sel_device_id = demo_device, sel_base_sequence = 0\<rparr>"

definition demo_frontier :: frontier_v2 where
  "demo_frontier = frontier_initial (header_for_selection demo_sel)"

definition demo_generation :: "bytes \<Rightarrow> fsys" where
  "demo_generation extra = \<lparr>
     fs_inodes = (\<lambda>i. let bs = (if i = 0 then generation_bytes demo_env demo_sel extra
                                else frontier_encode (env_sha256 demo_env) demo_frontier)
                      in \<lparr>in_bytes = bs, in_durable = bs\<rparr>),
     fs_next = 2,
     fs_dir = [sel_segment_name demo_sel \<mapsto> RegularFile 0, sel_frontier_name demo_sel \<mapsto> RegularFile 1],
     fs_maybe = (\<lambda>n. [[sel_segment_name demo_sel \<mapsto> RegularFile 0, sel_frontier_name demo_sel \<mapsto> RegularFile 1] n]),
     fs_outcomes = [], fs_crashed = False\<rparr>"

definition demo_open_segment :: v2_segment where
  "demo_open_segment = fst (adopted_v2 demo_sel 0 demo_frontier ([] :: (unit \<times> bytes) list) 0)"

lemma demo_sel_new: "selection_new (env_sha256 demo_env) demo_name demo_device demo_device 0 = Inr demo_sel"
  by (simp add: selection_new_def demo_sel_def require_safe_segment_name_def demo_name_def
      LOCAL_JOURNAL_FRONTIER_SUFFIX_def)

lemmas demo_names = selection_new_paired [OF demo_sel_new]

lemma demo_names_differ: "sel_segment_name demo_sel \<noteq> sel_frontier_name demo_sel"
  using demo_names temp_fresh(3) by blast

lemma demo_nonzero: "nonzero_hash (env_sha256 demo_env)"
proof -
  have "array_bytes (env_sha256 demo_env bs) \<noteq> array_bytes zero_digest" for bs
    by (simp add: demo_env_def zero_digest_def zeros_def array_bytes_mk_array)
  then show ?thesis by (metis nonzero_hash_def)
qed

lemma demo_frontier_facts:
  "fv_header demo_frontier = header_for_selection demo_sel" "frontier_selects demo_env demo_frontier [] []"
  "unat (fv_committed_extent demo_frontier) = 136" "fv_next_sequence demo_frontier = 0"
  using initial_selects [of demo_env "header_for_selection demo_sel"]
  by (simp_all add: demo_frontier_def frontier_initial_def v2_sizes header_for_selection_def demo_sel_def)

lemma demo_generation_files:
  "generation_files demo_sel (demo_generation extra) 0 (generation_bytes demo_env demo_sel extra)
     (frontier_encode (env_sha256 demo_env) demo_frontier)"
  using demo_names_differ by (auto simp: generation_files_def demo_generation_def file_bytes_def Let_def)

lemma demo_live: "v2_live demo_env demo_sel [] demo_open_segment (demo_generation [])"
  using demo_names_differ demo_frontier_facts
  by (auto simp: v2_live_def demo_open_segment_def adopted_v2_def demo_generation_def fs_wf_def settled_def
      Let_def MAX_LOCAL_JOURNAL_SEGMENT_BYTES_def split: if_splits)


text \<open>An append on the open generation, with no call failing, and a restart after it.\<close>

definition demo_appended :: "(append_error_v2 + local_journal_append) \<times> v2_segment \<times> fsys" where
  "demo_appended = v2_append demo_env [1] demo_open_segment () [3] (demo_generation [])"

lemma demo_append_acknowledged: "\<exists>ap. fst demo_appended = Inr ap"
proof -
  have e: "encode_frame demo_env (sel_device_id demo_sel) 0 () [3] = Inr (demo_frame 0 [3])"
    using demo_encode [of "[3]" 0] by (simp add: demo_sel_def)
  have x: "fv_committed_extent demo_frontier = 136"
    by (simp add: demo_frontier_def frontier_initial_def v2_sizes)
  obtain f' where s: "frontier_successor (env_sha256 demo_env) demo_frontier (demo_frame 0 [3]) = Inr f'"
    using demo_frontier_facts(4) x
    by (auto simp: frontier_successor_def checked_add64_def bind_res_Inr MAX_LOCAL_JOURNAL_SEGMENT_BYTES_def Let_def)
  define fb where "fb = frontier_encode (env_sha256 demo_env) f'"
  have l: "length fb = 240" by (simp add: fb_def)
  have seg: "v2_frontier demo_open_segment = demo_frontier" "v2_selection demo_open_segment = demo_sel"
    "\<not> v2_poisoned demo_open_segment" "v2_file demo_open_segment = 0"
    by (simp_all add: demo_open_segment_def adopted_v2_def)
  have t: "frontier_temp (sel_frontier_name demo_sel) [1] \<noteq> sel_frontier_name demo_sel"
    "frontier_temp (sel_frontier_name demo_sel) [1] \<noteq> sel_segment_name demo_sel"
    using demo_names temp_fresh by blast+
  have "\<exists>s'. append_commit (env_sha256 demo_env) [1] demo_open_segment (demo_frame 0 [3]) f' (demo_generation []) = (Inr (), s')"
    using t l unfolding append_commit_def seg fb_def [symmetric] demo_generation_def
    by (simp add: sys_write_at_def publish_frontier_durable_def verify_regular_exact_def
        read_regular_exact_length_def fs_run lift_journal_def fs_check_def)
  then show ?thesis
    using e s seg demo_frontier_facts(4) by (auto simp: demo_appended_def v2_append_def Let_def)
qed

definition demo_restart :: "fsys \<Rightarrow> fsys" where
  "demo_restart s = s\<lparr>fs_outcomes := [], fs_crashed := False\<rparr>"

lemma demo_appended_parts:
  obtains ap seg s where "v2_append demo_env [1] demo_open_segment () [3] (demo_generation []) = (Inr ap, seg, s)"
    "snd (snd demo_appended) = s" "fst (snd demo_appended) = seg" "v2_live demo_env demo_sel [((), [3])] seg s"
proof -
  obtain ap where "fst demo_appended = Inr ap" using demo_append_acknowledged by blast
  then have run: "v2_append demo_env [1] demo_open_segment () [3] (demo_generation [])
      = (Inr ap, fst (snd demo_appended), snd (snd demo_appended))"
    unfolding demo_appended_def by (metis prod.collapse)
  from v2_append_live(1) [OF demo_nonzero conjunct1 [OF demo_names] demo_live run] that [OF run]
  show thesis by simp
qed

theorem v2_append_crash_safe_witness:
  "\<exists>i f extra s3. open_selected demo_env Map.empty demo_sel (demo_restart (snd (snd demo_appended)))
     = (Inr (adopted_v2 demo_sel i f [((), [3])] extra), s3)"
proof -
  obtain ap seg s where a: "v2_append demo_env [1] demo_open_segment () [3] (demo_generation []) = (Inr ap, seg, s)"
    "snd (snd demo_appended) = s" "v2_live demo_env demo_sel [((), [3])] seg s"
    by (rule demo_appended_parts)
  have "crash_image s (demo_restart s)"
    using a(3) by (auto simp: v2_live_def Let_def demo_restart_def intro: process_death_image)
  from v2_append_crash_safe [OF demo_roundtrips demo_nonzero conjunct2 [OF demo_names] conjunct1 [OF demo_names]
      demo_live a(1) this]
  show ?thesis unfolding a(2) by auto
qed

theorem acknowledged_entries_survive_witness:
  "\<exists>es. v2_live demo_env demo_sel es (fst (snd demo_appended)) (snd (snd demo_appended)) \<and> subseq [((), [3])] es"
proof -
  obtain ap seg s where a: "v2_append demo_env [1] demo_open_segment () [3] (demo_generation []) = (Inr ap, seg, s)"
    "snd (snd demo_appended) = s" "fst (snd demo_appended) = seg"
    by (rule demo_appended_parts)
  have "v2_history demo_env demo_sel seg s ([] @ [((), [3])])"
    by (rule v2_history.acknowledged [OF v2_history.opened [OF demo_live] a(1)])
  from acknowledged_entries_survive [OF demo_roundtrips demo_nonzero conjunct2 [OF demo_names]
      conjunct1 [OF demo_names] this]
  show ?thesis by (auto simp: a(2,3))
qed

lemma demo_temps: "temp_name [u] \<noteq> sel_segment_name demo_sel" "temp_name [u] \<noteq> sel_frontier_name demo_sel"
  by (simp_all add: temp_name_def demo_sel_def demo_name_def LOCAL_JOURNAL_FRONTIER_SUFFIX_def)

definition demo_prepared :: "(local_journal_error + unit) \<times> fsys" where
  "demo_prepared = prepare (env_sha256 demo_env) [1] [2] demo_sel (empty_dir [])"

lemma demo_prepare_runs: "fst demo_prepared = Inr ()"
  "fs_outcomes (snd demo_prepared) = []" "\<not> fs_crashed (snd demo_prepared)"
  "fs_maybe (snd demo_prepared) n = [fs_dir (snd demo_prepared) n]"
  "in_durable (fs_inodes (snd demo_prepared) i) = in_bytes (fs_inodes (snd demo_prepared) i)"
proof -
  define a where "a = header_encode (env_sha256 demo_env) (header_for_selection demo_sel)"
  define b where "b = frontier_encode (env_sha256 demo_env) (frontier_initial (header_for_selection demo_sel))"
  have l: "length a = 136" "length b = 240" by (simp_all add: a_def b_def)
  have run: "fst demo_prepared = Inr () \<and> fs_outcomes (snd demo_prepared) = [] \<and> \<not> fs_crashed (snd demo_prepared)
    \<and> fs_maybe (snd demo_prepared) n = [fs_dir (snd demo_prepared) n]
    \<and> in_durable (fs_inodes (snd demo_prepared) i) = in_bytes (fs_inodes (snd demo_prepared) i)"
    using demo_temps [of 1] demo_temps [of 2] demo_names_differ l
    unfolding demo_prepared_def prepare_def a_def [symmetric] b_def [symmetric] Let_def
    by (simp add: create_exact_durable_def verify_regular_exact_def read_regular_exact_length_def
        fs_run fs_check_def empty_dir_def)
  then show "fst demo_prepared = Inr ()"
    "fs_outcomes (snd demo_prepared) = []" "\<not> fs_crashed (snd demo_prepared)"
    "fs_maybe (snd demo_prepared) n = [fs_dir (snd demo_prepared) n]"
    "in_durable (fs_inodes (snd demo_prepared) i) = in_bytes (fs_inodes (snd demo_prepared) i)" by simp_all
qed

lemma demo_prepared_wf: "fs_wf (snd demo_prepared)"
proof -
  have p: "prepare (env_sha256 demo_env) [1] [2] demo_sel (empty_dir []) = (Inr (), snd demo_prepared)"
    using demo_prepare_runs(1) unfolding demo_prepared_def by (metis prod.collapse)
  then obtain s1 where s1:
    "create_exact_durable [1] (sel_segment_name demo_sel) (header_encode (env_sha256 demo_env) (header_for_selection demo_sel)) (empty_dir []) = (Inr (), s1)"
    "create_exact_durable [2] (sel_frontier_name demo_sel)
       (frontier_encode (env_sha256 demo_env) (frontier_initial (header_for_selection demo_sel))) s1 = (Inr (), snd demo_prepared)"
    by (auto simp: prepare_def Let_def fs_bind_Inr)
  have "fs_wf s1"
    using holds_safe [OF create_exact_durable_ok [OF empty_dir_wf demo_temps(1) s1(1)]] by (auto simp: safe_publish_def others_def)
  then show ?thesis
    using holds_safe [OF create_exact_durable_ok [OF _ demo_temps(2) s1(2)]] by (auto simp: safe_publish_def others_def)
qed

theorem prepared_generation_opens_witness:
  "\<exists>seg recovery s2. open_selected demo_env Map.empty demo_sel (snd demo_prepared) = (Inr (seg, recovery), s2)
     \<and> frames_recovered recovery = 0 \<and> v2_live demo_env demo_sel [] seg s2"
proof -
  have p: "prepare (env_sha256 demo_env) [1] [2] demo_sel (empty_dir []) = (Inr (), snd demo_prepared)"
    using demo_prepare_runs(1) unfolding demo_prepared_def by (metis prod.collapse)
  have "power_cycled (snd demo_prepared) (snd demo_prepared)"
    using demo_prepared_wf demo_prepare_runs
    by (simp add: power_cycled_def crash_image_def settled_def survives_def file_bytes_def)
  from prepared_generation_opens [OF demo_roundtrips conjunct2 [OF demo_names] conjunct1 [OF demo_names]
      empty_dir_wf _ _ demo_temps demo_temps p this]
  show ?thesis by (simp add: flushed_def empty_dir_def)
qed

end
