(* ===== verification/Patricia_Bits.thy ===== *)
theory Patricia_Bits
  imports Filesystem
begin

text \<open>
  The bit strings of \<open>src/authenticated_patricia.rs\<close>: keys read as big-endian bit lists, their common
  prefixes and masked prefixes.  \<open>bits_of\<close> is the abstraction the tree theories work with; each
  operation of the code is characterised on it.
\<close>

unbundle bit_operations_syntax

datatype 'p patricia_error =
    PatriciaFilesystem filesystem_error
  | PatriciaPublication 'p
  | MissingNode digest
  | PathMismatch digest
  | PatriciaMalformed

definition MAX_KEY_BYTES :: nat where "MAX_KEY_BYTES = 96"
definition MAX_KEY_BITS :: nat where "MAX_KEY_BITS = MAX_KEY_BYTES * 8"
definition MAX_VALUE_BYTES :: nat where "MAX_VALUE_BYTES = 4 * 1024"

section \<open>Operations\<close>

definition key_bit_len :: "bytes \<Rightarrow> 'p patricia_error + nat" where
  "key_bit_len key = ok_or PatriciaMalformed (checked_mul (length key) 8)"

definition key_bit_unchecked :: "bytes \<Rightarrow> nat \<Rightarrow> bool" where
  "key_bit_unchecked key i \<longleftrightarrow> key ! (i div 8) AND drop_bit (i mod 8) 0x80 \<noteq> 0"

definition key_bit :: "bytes \<Rightarrow> nat \<Rightarrow> 'p patricia_error + bool" where
  "key_bit key i =
     bind_res (key_bit_len key) (\<lambda>len.
       if i \<ge> len then Inl PatriciaMalformed else Inr (key_bit_unchecked key i))"

definition common_prefix_bits :: "bytes \<Rightarrow> bytes \<Rightarrow> nat \<Rightarrow> 'p patricia_error + nat" where
  "common_prefix_bits left right limit =
     bind_res (key_bit_len left) (\<lambda>left_len. bind_res (key_bit_len right) (\<lambda>right_len.
       let limit = min (min limit left_len) right_len in
       Inr (case find (\<lambda>i. key_bit_unchecked left i \<noteq> key_bit_unchecked right i) [0..<limit] of
              Some i \<Rightarrow> i | None \<Rightarrow> limit)))"

definition prefix_matches :: "bytes \<Rightarrow> bytes \<Rightarrow> nat \<Rightarrow> 'p patricia_error + bool" where
  "prefix_matches key prefix bits =
     bind_res (key_bit_len key) (\<lambda>key_len.
       if \<not> key_len \<ge> bits then Inr False
       else bind_res (key_bit_len prefix) (\<lambda>prefix_len.
         if \<not> prefix_len \<ge> bits then Inr False
         else bind_res (common_prefix_bits key prefix bits) (\<lambda>shared. Inr (shared = bits))))"

definition div_ceil :: "nat \<Rightarrow> nat \<Rightarrow> nat" where
  "div_ceil n d = (n + d - 1) div d"

definition masked_prefix :: "bytes \<Rightarrow> nat \<Rightarrow> bytes" where
  "masked_prefix key bits =
     (let prefix = take (min (div_ceil bits 8) (length key)) key in
      if bits mod 8 \<noteq> 0 \<and> prefix \<noteq> []
      then butlast prefix @ [last prefix AND push_bit (8 - bits mod 8) 0xff]
      else prefix)"

definition validate_key :: "bytes \<Rightarrow> 'p patricia_error + unit" where
  "validate_key key =
     (if key = [] \<or> length key > MAX_KEY_BYTES then Inl PatriciaMalformed
      else bind_res (key_bit_len key) (\<lambda>_. Inr ()))"

definition validate_record :: "bytes \<Rightarrow> bytes \<Rightarrow> 'p patricia_error + unit" where
  "validate_record key value =
     bind_res (validate_key key) (\<lambda>_.
       if value = [] \<or> length value > MAX_VALUE_BYTES then Inl PatriciaMalformed else Inr ())"

definition traversal_node_budget :: "nat \<Rightarrow> 'p patricia_error + nat" where
  "traversal_node_budget key_bytes =
     ok_or PatriciaMalformed (case checked_mul key_bytes 8 of None \<Rightarrow> None | Some bits \<Rightarrow> checked_add bits 1)"

definition consume_node_budget :: "nat \<Rightarrow> 'p patricia_error + nat" where
  "consume_node_budget remaining = ok_or PatriciaMalformed (checked_sub remaining 1)"

section \<open>The bits of a key\<close>

definition bits_of :: "bytes \<Rightarrow> bool list" where
  "bits_of key = map (key_bit_unchecked key) [0..<8 * length key]"

lemma length_bits_of [simp]: "length (bits_of key) = 8 * length key"
  by (simp add: bits_of_def)

lemma bits_of_nth: "i < 8 * length key \<Longrightarrow> bits_of key ! i = key_bit_unchecked key i"
  by (simp add: bits_of_def)

lemma key_bit_unchecked_bit: "key_bit_unchecked key i \<longleftrightarrow> bit (key ! (i div 8)) (7 - i mod 8)"
proof -
  have "drop_bit (i mod 8) (0x80 :: byte) = push_bit (7 - i mod 8) 1"
  proof -
    have "i mod 8 \<in> {0, 1, 2, 3, 4, 5, 6, 7}" by auto
    then show ?thesis by (elim insertE emptyE) simp_all
  qed
  then show ?thesis by (simp add: key_bit_unchecked_def bit_iff_and_push_bit_not_eq_0)
qed

lemma bits_of_inject: "bits_of a = bits_of b \<longleftrightarrow> a = b"
proof
  assume eq: "bits_of a = bits_of b"
  then have len: "length a = length b" by (metis length_bits_of nat_mult_eq_cancel1 zero_less_numeral)
  show "a = b"
  proof (rule nth_equalityI [OF len])
    fix i assume i: "i < length a"
    show "a ! i = b ! i"
    proof (rule bit_word_eqI)
      fix n assume n: "n < LENGTH(8)"
      let ?k = "8 * i + (7 - n)"
      have k: "?k < 8 * length a" "?k div 8 = i" "7 - ?k mod 8 = n"
      proof -
        have m: "?k mod 8 = 7 - n" by (simp add: mod_mult_self4)
        show "?k < 8 * length a" "?k div 8 = i" using i by auto
        show "7 - ?k mod 8 = n" unfolding m using n by simp
      qed
      have "key_bit_unchecked a ?k = key_bit_unchecked b ?k"
        using arg_cong [OF eq, of "\<lambda>xs. xs ! ?k"] k(1) len by (simp add: bits_of_nth)
      then show "bit (a ! i) n = bit (b ! i) n" by (simp only: key_bit_unchecked_bit k)
    qed
  qed
qed simp

section \<open>Common prefixes\<close>

fun lcp :: "'a list \<Rightarrow> 'a list \<Rightarrow> nat" where
  "lcp (x # xs) (y # ys) = (if x = y then Suc (lcp xs ys) else 0)"
| "lcp _ _ = 0"

lemma lcp_le: "lcp xs ys \<le> length xs" "lcp xs ys \<le> length ys"
  by (induction xs ys rule: lcp.induct) auto

lemma lcp_commute: "lcp xs ys = lcp ys xs"
  by (induction xs ys rule: lcp.induct) auto

lemma lcp_same [simp]: "lcp xs xs = length xs"
  by (induction xs) auto

lemma lcp_ge_iff: "n \<le> lcp xs ys \<longleftrightarrow> n \<le> length xs \<and> n \<le> length ys \<and> take n xs = take n ys"
proof (induction xs ys arbitrary: n rule: lcp.induct)
  case (1 x xs y ys)
  then show ?case by (cases n) auto
qed auto

lemma lcp_take: "n \<le> lcp xs ys \<Longrightarrow> take n xs = take n ys"
  by (simp add: lcp_ge_iff)

lemma lcp_nth: "i < lcp xs ys \<Longrightarrow> xs ! i = ys ! i"
  by (induction xs ys arbitrary: i rule: lcp.induct) (auto split: if_splits simp: nth_Cons split: nat.splits)

lemma lcp_differ: "lcp xs ys < length xs \<Longrightarrow> lcp xs ys < length ys \<Longrightarrow> xs ! lcp xs ys \<noteq> ys ! lcp xs ys"
  by (induction xs ys rule: lcp.induct) auto

lemma lcp_eqI:
  "n \<le> length xs \<Longrightarrow> n \<le> length ys \<Longrightarrow> (\<And>i. i < n \<Longrightarrow> xs ! i = ys ! i)
    \<Longrightarrow> n = length xs \<or> n = length ys \<or> xs ! n \<noteq> ys ! n \<Longrightarrow> lcp xs ys = n"
proof (rule antisym)
  assume a: "n \<le> length xs" "n \<le> length ys" "\<And>i. i < n \<Longrightarrow> xs ! i = ys ! i"
    "n = length xs \<or> n = length ys \<or> xs ! n \<noteq> ys ! n"
  have "take n xs = take n ys" using a(1-3) by (intro nth_take_lemma) blast+
  then show "n \<le> lcp xs ys" using a(1,2) unfolding lcp_ge_iff by blast
  show "lcp xs ys \<le> n"
  proof (rule ccontr)
    assume c: "\<not> lcp xs ys \<le> n"
    then have "xs ! n = ys ! n" by (intro lcp_nth) simp
    moreover have "n \<noteq> length xs" "n \<noteq> length ys" using c lcp_le [of xs ys] by auto
    ultimately show False using a(4) by simp
  qed
qed

text \<open>Two strings that both share at least \<open>n\<close> elements with a third share \<open>n\<close> with each other.\<close>

lemma lcp_trans: "n \<le> lcp xs ys \<Longrightarrow> n \<le> lcp ys zs \<Longrightarrow> n \<le> lcp xs zs"
  by (auto simp: lcp_ge_iff)

lemma lcp_eq_left: "n < lcp xs ys \<Longrightarrow> lcp ys zs = n \<Longrightarrow> lcp xs zs = n"
proof (rule antisym)
  assume a: "n < lcp xs ys" "lcp ys zs = n"
  show "n \<le> lcp xs zs" using lcp_trans [of n xs ys zs] a by simp
  show "lcp xs zs \<le> n"
  proof (rule ccontr)
    assume "\<not> lcp xs zs \<le> n"
    then have "Suc n \<le> lcp ys zs" using lcp_trans [of "Suc n" ys xs zs] a by (simp add: lcp_commute)
    with a show False by simp
  qed
qed

section \<open>The operations on bits\<close>

named_theorems bit_simps \<open>the bit operations of the code on admitted keys\<close>

lemma key_bit_len_ok [bit_simps]: "length key \<le> MAX_KEY_BYTES \<Longrightarrow> key_bit_len key = Inr (8 * length key)"
  by (simp add: key_bit_len_def checked_mul_def MAX_KEY_BYTES_def mult.commute)

lemma key_bit_ok [bit_simps]:
  "length key \<le> MAX_KEY_BYTES \<Longrightarrow>
     key_bit key i = (if i < 8 * length key then Inr (bits_of key ! i) else Inl PatriciaMalformed)"
  by (simp add: key_bit_def key_bit_len_ok bits_of_nth)

lemma find_upt: "find P [0..<n] = Some i \<longleftrightarrow> i < n \<and> P i \<and> (\<forall>j<i. \<not> P j)"
  by (auto simp: find_Some_iff)

lemma common_prefix_bits_ok [bit_simps]:
  assumes "length a \<le> MAX_KEY_BYTES" "length b \<le> MAX_KEY_BYTES"
  shows "common_prefix_bits a b limit = Inr (min limit (lcp (bits_of a) (bits_of b)))"
proof -
  define l where "l = min (min limit (8 * length a)) (8 * length b)"
  let ?P = "\<lambda>i. key_bit_unchecked a i \<noteq> key_bit_unchecked b i"
  have l: "l \<le> length (bits_of a)" "l \<le> length (bits_of b)" "l \<le> limit" by (simp_all add: l_def)
  have "(case find ?P [0..<l] of Some i \<Rightarrow> i | None \<Rightarrow> l) = min limit (lcp (bits_of a) (bits_of b))"
  proof (cases "find ?P [0..<l]")
    case None
    then have "\<And>i. i < l \<Longrightarrow> bits_of a ! i = bits_of b ! i" using l by (auto simp: find_None_iff bits_of_nth)
    then have "l \<le> lcp (bits_of a) (bits_of b)" using l by (simp add: lcp_ge_iff nth_take_lemma)
    then show ?thesis using None lcp_le [of "bits_of a" "bits_of b"] by (simp add: l_def)
  next
    case (Some i)
    then have i: "i < l" "?P i" "\<And>j. j < i \<Longrightarrow> \<not> ?P j" by (auto simp: find_upt)
    then have "lcp (bits_of a) (bits_of b) = i" using l by (intro lcp_eqI) (auto simp: bits_of_nth)
    then show ?thesis using Some i(1) l(3) by simp
  qed
  then show ?thesis using assms unfolding l_def by (simp add: common_prefix_bits_def key_bit_len_ok Let_def)
qed

lemma prefix_matches_ok [bit_simps]:
  assumes "length key \<le> MAX_KEY_BYTES" "length prefix \<le> MAX_KEY_BYTES"
  shows "prefix_matches key prefix n = Inr (n \<le> lcp (bits_of key) (bits_of prefix))"
  using assms lcp_le [of "bits_of key" "bits_of prefix"]
  by (auto simp: prefix_matches_def key_bit_len_ok common_prefix_bits_ok)

lemma validate_key_Inr: "validate_key key = Inr () \<longleftrightarrow> key \<noteq> [] \<and> length key \<le> MAX_KEY_BYTES"
  by (auto simp: validate_key_def key_bit_len_ok)

lemma validate_record_Inr:
  "validate_record key value = Inr () \<longleftrightarrow>
     key \<noteq> [] \<and> length key \<le> MAX_KEY_BYTES \<and> value \<noteq> [] \<and> length value \<le> MAX_VALUE_BYTES"
  by (auto simp: validate_record_def validate_key_def key_bit_len_ok bind_res_Inr)

lemma traversal_node_budget_ok [bit_simps]:
  "n \<le> MAX_KEY_BYTES \<Longrightarrow> traversal_node_budget n = Inr (8 * n + 1)"
  by (simp add: traversal_node_budget_def checked_mul_def checked_add_def MAX_KEY_BYTES_def mult.commute)

lemma consume_node_budget_Suc [bit_simps]:
  "consume_node_budget 0 = Inl PatriciaMalformed" "consume_node_budget (Suc n) = Inr n"
  by (simp_all add: consume_node_budget_def checked_sub_def)

section \<open>Masked prefixes\<close>

lemma div_ceil_8: "div_ceil n 8 = (if n mod 8 = 0 then n div 8 else Suc (n div 8))"
  unfolding div_ceil_def by presburger

lemma div_ceil_le: "n \<le> 8 * m \<Longrightarrow> div_ceil n 8 \<le> m"
  unfolding div_ceil_def by presburger

lemma le_div_ceil: "n \<le> 8 * div_ceil n 8"
  unfolding div_ceil_def by presburger

lemma length_masked_prefix [simp]: "n \<le> 8 * length key \<Longrightarrow> length (masked_prefix key n) = div_ceil n 8"
  using div_ceil_le [of n "length key"] by (auto simp: masked_prefix_def Let_def)

lemma bit_mask_byte: "j < 8 \<Longrightarrow> m \<le> 8 \<Longrightarrow> bit (push_bit (8 - m) (0xff :: byte)) (7 - j) \<longleftrightarrow> j < m"
proof -
  assume a: "j < 8" "m \<le> 8"
  have "(0xff :: byte) = mask 8" by (simp add: mask_eq_exp_minus_1)
  then have "bit (push_bit (8 - m) (0xff :: byte)) (7 - j) \<longleftrightarrow> bit (push_bit (8 - m) (mask 8 :: byte)) (7 - j)"
    by (rule arg_cong)
  also have "\<dots> \<longleftrightarrow> j < m" using a unfolding bit_push_bit_iff bit_mask_iff by auto
  finally show ?thesis .
qed

lemma masked_prefix_bit:
  assumes n: "n \<le> 8 * length key" and i: "i < 8 * div_ceil n 8"
  shows "key_bit_unchecked (masked_prefix key n) i \<longleftrightarrow> i < n \<and> key_bit_unchecked key i"
proof -
  have c: "i div 8 < div_ceil n 8" "div_ceil n 8 \<le> length key" using i div_ceil_le [OF n] by auto
  define p where "p = take (div_ceil n 8) key"
  have p: "p \<noteq> []" "length p = div_ceil n 8" "\<And>j. j < div_ceil n 8 \<Longrightarrow> p ! j = key ! j"
    using c by (auto simp: p_def)
  have m: "masked_prefix key n = (if n mod 8 \<noteq> 0 then butlast p @ [last p AND push_bit (8 - n mod 8) 0xff] else p)"
    using p(1) c(2) by (simp add: masked_prefix_def p_def Let_def min_def)
  show ?thesis
  proof (cases "n mod 8 = 0")
    case True
    then have "i < n" using i by (auto simp: div_ceil_8)
    then show ?thesis using m True c p(3) by (simp add: key_bit_unchecked_def)
  next
    case False
    then have k: "div_ceil n 8 = Suc (n div 8)" by (simp add: div_ceil_8)
    show ?thesis
    proof (cases "i div 8 < n div 8")
      case True
      then have "i < n" by (metis div_le_mono not_le)
      then show ?thesis using m False True p k
        by (simp add: key_bit_unchecked_def nth_append nth_butlast)
    next
      case False': False
      then have d: "i div 8 = n div 8" using c k by simp
      have n: "i < n \<longleftrightarrow> i mod 8 < n mod 8"
        using d div_mult_mod_eq [of i 8] div_mult_mod_eq [of n 8] by linarith
      have "last p = key ! (n div 8)" using p k by (simp add: last_conv_nth)
      then have "masked_prefix key n ! (i div 8) = key ! (i div 8) AND push_bit (8 - n mod 8) 0xff"
        using m False p(2) k d by (simp add: nth_append)
      then show ?thesis
        using n bit_mask_byte [of "i mod 8" "n mod 8"] by (simp only: key_bit_unchecked_bit bit_and_iff) auto
    qed
  qed
qed

lemma bits_of_masked:
  "n \<le> 8 * length key \<Longrightarrow> bits_of (masked_prefix key n)
     = take n (bits_of key) @ replicate (8 * div_ceil n 8 - n) False"
  using le_div_ceil [of n]
  by (intro nth_equalityI) (auto simp: bits_of_nth masked_prefix_bit nth_append min_def)

lemma lcp_masked_prefix:
  assumes "n \<le> 8 * length key"
  shows "n \<le> lcp (bits_of (masked_prefix key n)) (bits_of key)"
  using assms le_div_ceil [of n] by (auto simp: lcp_ge_iff bits_of_masked)

lemma masked_prefix_cong:
  assumes "n \<le> lcp (bits_of a) (bits_of b)"
  shows "masked_prefix a n = masked_prefix b n"
proof -
  have "n \<le> 8 * length a" "n \<le> 8 * length b" "take n (bits_of a) = take n (bits_of b)"
    using assms by (auto simp: lcp_ge_iff)
  then show ?thesis by (simp flip: bits_of_inject add: bits_of_masked)
qed

lemma masked_prefix_idem [simp]: "n \<le> 8 * length key \<Longrightarrow> masked_prefix (masked_prefix key n) n = masked_prefix key n"
  using masked_prefix_cong lcp_masked_prefix by blast

lemma min_lcp_masked:
  assumes "n \<le> 8 * length key"
  shows "min n (lcp (bits_of a) (bits_of (masked_prefix key n))) = min n (lcp (bits_of a) (bits_of key))"
proof -
  have "m \<le> lcp (bits_of a) (bits_of (masked_prefix key n)) \<longleftrightarrow> m \<le> lcp (bits_of a) (bits_of key)" if "m \<le> n" for m
    using that lcp_masked_prefix [OF assms] lcp_trans [of m "bits_of a" "bits_of (masked_prefix key n)" "bits_of key"]
      lcp_trans [of m "bits_of a" "bits_of key" "bits_of (masked_prefix key n)"]
    by (auto simp: lcp_commute)
  then show ?thesis by (intro antisym) (metis min.cobounded1 min.cobounded2 min.bounded_iff)+
qed

section \<open>The order of keys\<close>

text \<open>The byte order of keys (the order of a \<open>BTreeMap<Vec<u8>, _>\<close>) is the order of their bit strings.\<close>

definition byte_bits :: "byte \<Rightarrow> bool list" where
  "byte_bits b = map (\<lambda>j. bit b (7 - j)) [0..<8]"

lemma bits_of_Cons: "bits_of (b # bs) = byte_bits b @ bits_of bs"
proof (rule nth_equalityI)
  fix i assume i: "i < length (bits_of (b # bs))"
  show "bits_of (b # bs) ! i = (byte_bits b @ bits_of bs) ! i"
  proof (cases "i < 8")
    case True
    then show ?thesis using i by (simp add: bits_of_nth key_bit_unchecked_bit byte_bits_def nth_append)
  next
    case False
    then obtain j where j: "i = 8 + j" by (metis le_iff_add not_less)
    have "(8 + j) div 8 = Suc (j div 8)" "(8 + j) mod 8 = j mod 8" by simp_all
    then show ?thesis using i j by (simp add: bits_of_nth key_bit_unchecked_bit byte_bits_def nth_append)
  qed
qed (simp add: byte_bits_def)

lemma bits_of_Nil [simp]: "bits_of [] = []"
  by (simp add: bits_of_def)

fun bits_value :: "bool list \<Rightarrow> nat" where
  "bits_value [] = 0"
| "bits_value (b # bs) = of_bool b * 2 ^ length bs + bits_value bs"

lemma bits_value_less: "bits_value bs < 2 ^ length bs"
  by (induction bs) auto

lemma less_Cons [simp]: "x # xs < y # ys \<longleftrightarrow> x < y \<or> x = y \<and> xs < ys" for x :: "'a::linorder"
  by (auto simp: list_less_def)

lemma bits_value_order: "length xs = length ys \<Longrightarrow> bits_value xs < bits_value ys \<longleftrightarrow> xs < ys"
proof (induction xs ys rule: list_induct2)
  case (Cons x xs y ys)
  then show ?case using bits_value_less [of xs] bits_value_less [of ys] by (cases x; cases y) auto
qed simp

lemma bits_value_byte: "bits_value (byte_bits b) = unat b"
proof -
  have "map (bit (unat b)) [0..<8] = map (bit b) [0..<8]"
    by (rule map_cong) (simp_all add: bit_unsigned_iff)
  moreover have "horner_sum of_bool 2 (map (bit (unat b)) [0..<8]) = unat b"
    using horner_sum_bit_eq_take_bit [of "unat b" 8] unat_less_2p [of b] by (simp add: take_bit_nat_eq_self)
  ultimately have u: "unat b = horner_sum of_bool 2 (map (bit b) [0..<8])" by metis
  have upt: "[0..<8] = [0, 1, 2, 3, 4, 5, 6, 7 :: nat]" by code_simp
  show ?thesis unfolding u byte_bits_def upt by simp
qed

lemma length_byte_bits [simp]: "length (byte_bits b) = 8"
  by (simp add: byte_bits_def)

lemma less_append: "length u = length v \<Longrightarrow> u @ xs < v @ ys \<longleftrightarrow> u < v \<or> u = v \<and> xs < (ys :: 'a::linorder list)"
  by (induction u v rule: list_induct2) auto

lemma byte_bits_order: "byte_bits a < byte_bits b \<longleftrightarrow> a < b"
  using bits_value_order [of "byte_bits a" "byte_bits b"]
  by (simp add: bits_value_byte word_less_nat_alt)

lemma byte_bits_inject: "byte_bits a = byte_bits b \<longleftrightarrow> a = b"
  by (metis bits_value_byte word_unat_eq_iff)

lemma bits_of_order: "bits_of xs < bits_of ys \<longleftrightarrow> xs < ys"
proof (induction xs arbitrary: ys)
  case Nil
  have "[] < (u :: bool list) \<longleftrightarrow> u \<noteq> []" for u by (cases u) simp_all
  moreover have "byte_bits y \<noteq> []" for y using length_byte_bits [of y] by force
  ultimately show ?case by (cases ys) (simp_all add: bits_of_Cons)
next
  case (Cons x xs)
  show ?case
  proof (cases ys)
    case Nil
    then show ?thesis using length_byte_bits [of x] by (simp add: bits_of_Cons)
  next
    case (Cons y zs)
    then show ?thesis using Cons.IH by (simp add: bits_of_Cons less_append byte_bits_order byte_bits_inject)
  qed
qed

end
