(* ===== verification/Patricia_Tree.thy ===== *)
theory Patricia_Tree
  imports Patricia_Bits
begin

text \<open>
  The abstract Patricia tree: what a root of \<open>src/authenticated_patricia.rs\<close> stands for.  A tree is
  well formed when each branch splits its keys at their first differing bit; such a tree is determined
  by its records alone, which is why a root digest is independent of the history of updates.
\<close>

datatype ptree =
    PLeaf bytes bytes
  | PBranch nat ptree ptree

fun first_key :: "ptree \<Rightarrow> bytes" where
  "first_key (PLeaf k v) = k"
| "first_key (PBranch b l r) = first_key l"

fun entries :: "ptree \<Rightarrow> (bytes \<times> bytes) list" where
  "entries (PLeaf k v) = [(k, v)]"
| "entries (PBranch b l r) = entries l @ entries r"

definition keys :: "ptree \<Rightarrow> bytes set" where
  "keys t = fst ` set (entries t)"

lemma keys_simps [simp]:
  "keys (PLeaf k v) = {k}" "keys (PBranch b l r) = keys l \<union> keys r"
  by (auto simp: keys_def)

lemma first_key_in [simp]: "first_key t \<in> keys t"
  by (induction t) auto

lemma keys_nonempty [simp]: "keys t \<noteq> {}"
  using first_key_in by blast

text \<open>The number of leading bits two keys share.\<close>

definition shared :: "bytes \<Rightarrow> bytes \<Rightarrow> nat" where
  "shared a b = lcp (bits_of a) (bits_of b)"

lemma shared_commute: "shared a b = shared b a"
  by (simp add: shared_def lcp_commute)

lemma shared_self [simp]: "shared a a = 8 * length a"
  by (simp add: shared_def)

lemma shared_le: "shared a b \<le> 8 * length a" "shared a b \<le> 8 * length b"
  using lcp_le [of "bits_of a" "bits_of b"] by (simp_all add: shared_def)

lemma shared_trans: "n \<le> shared a b \<Longrightarrow> n \<le> shared b c \<Longrightarrow> n \<le> shared a c"
  by (simp add: shared_def lcp_trans)

lemma shared_nth: "i < shared a b \<Longrightarrow> bits_of a ! i = bits_of b ! i"
  by (simp add: shared_def lcp_nth)

lemma shared_differ: "shared a b < 8 * length a \<Longrightarrow> shared a b < 8 * length b \<Longrightarrow> bits_of a ! shared a b \<noteq> bits_of b ! shared a b"
  using lcp_differ [of "bits_of a" "bits_of b"] by (simp add: shared_def)

lemma shared_eqI:
  "n \<le> shared a c \<Longrightarrow> n \<le> shared c b \<Longrightarrow> n < 8 * length a \<Longrightarrow> n < 8 * length b
    \<Longrightarrow> bits_of a ! n \<noteq> bits_of b ! n \<Longrightarrow> shared a b = n"
  using shared_trans [of n a c b] shared_nth [of n a b] by (metis le_less)

lemma shared_Suc:
  "n \<le> shared a b \<Longrightarrow> n < 8 * length a \<Longrightarrow> n < 8 * length b \<Longrightarrow> bits_of a ! n = bits_of b ! n \<Longrightarrow> Suc n \<le> shared a b"
  using shared_differ [of a b] by (metis Suc_leI le_less)

lemma shared_left: "n < shared a b \<Longrightarrow> shared b c = n \<Longrightarrow> shared a c = n"
  by (simp add: shared_def lcp_eq_left)

text \<open>Two keys can be in one tree when they are equal or neither is a prefix of the other.\<close>

definition apart :: "bytes \<Rightarrow> bytes \<Rightarrow> bool" where
  "apart a b \<longleftrightarrow> a = b \<or> shared a b < 8 * length a \<and> shared a b < 8 * length b"

lemma apart_commute: "apart a b \<longleftrightarrow> apart b a"
  by (auto simp: apart_def shared_commute)

fun wf_tree :: "ptree \<Rightarrow> bool" where
  "wf_tree (PLeaf k v) \<longleftrightarrow> validate_record k v = (Inr () :: unit patricia_error + unit)"
| "wf_tree (PBranch b l r) \<longleftrightarrow> wf_tree l \<and> wf_tree r
     \<and> (\<forall>k \<in> keys l. b < 8 * length k \<and> \<not> bits_of k ! b)
     \<and> (\<forall>k \<in> keys r. b < 8 * length k \<and> bits_of k ! b)
     \<and> (\<forall>k \<in> keys l \<union> keys r. b \<le> shared (first_key l) k)"

lemma wf_left: "wf_tree (PBranch b l r) \<Longrightarrow> k \<in> keys l \<Longrightarrow> b < 8 * length k \<and> \<not> bits_of k ! b \<and> b \<le> shared (first_key l) k"
  and wf_right: "wf_tree (PBranch b l r) \<Longrightarrow> k \<in> keys r \<Longrightarrow> b < 8 * length k \<and> bits_of k ! b \<and> b \<le> shared (first_key l) k"
  by simp_all

lemma wf_branchI:
  assumes "wf_tree l" "wf_tree r" "\<And>k. k \<in> keys l \<Longrightarrow> b < 8 * length k \<and> \<not> bits_of k ! b \<and> b \<le> shared c k"
    "\<And>k. k \<in> keys r \<Longrightarrow> b < 8 * length k \<and> bits_of k ! b \<and> b \<le> shared c k"
  shows "wf_tree (PBranch b l r)"
proof -
  have "b \<le> shared (first_key l) c" using assms(3) [OF first_key_in] by (simp add: shared_commute)
  then have "b \<le> shared (first_key l) k" if "k \<in> keys l \<union> keys r" for k
    using that assms(3,4) [of k] shared_trans by blast
  with assms show ?thesis by simp
qed

lemma wf_shared:
  assumes "wf_tree (PBranch b l r)" "k \<in> keys (PBranch b l r)" "k' \<in> keys (PBranch b l r)"
  shows "b \<le> shared k k'"
  using assms shared_trans [of b k "first_key l" k'] by (simp add: shared_commute)

lemma wf_split:
  assumes "wf_tree (PBranch b l r)" "k \<in> keys l" "k' \<in> keys r"
  shows "shared k k' = b"
proof (rule antisym)
  show "b \<le> shared k k'" using assms by (intro wf_shared) auto
  show "shared k k' \<le> b"
  proof (rule ccontr)
    assume "\<not> shared k k' \<le> b"
    then have "bits_of k ! b = bits_of k' ! b" by (intro shared_nth) simp
    with assms show False by auto
  qed
qed

lemma wf_side:
  assumes "wf_tree (PBranch b l r)" "k \<in> keys l \<and> k' \<in> keys l \<or> k \<in> keys r \<and> k' \<in> keys r"
  shows "b < shared k k'"
proof -
  have "b \<le> shared k k'" using assms by (intro wf_shared [OF assms(1)]) auto
  moreover have "b < 8 * length k" "b < 8 * length k'" "bits_of k ! b = bits_of k' ! b" using assms by auto
  ultimately show ?thesis using shared_Suc [of b k k'] by simp
qed

text \<open>A branch below splits at a later bit.\<close>

lemma wf_deeper: "wf_tree (PBranch b l r) \<Longrightarrow> l = PBranch b' l' r' \<or> r = PBranch b' l' r' \<Longrightarrow> b < b'"
proof -
  assume w: "wf_tree (PBranch b l r)" and c: "l = PBranch b' l' r' \<or> r = PBranch b' l' r'"
  then have "wf_tree (PBranch b' l' r')" by auto
  then have "shared (first_key l') (first_key r') = b'" by (rule wf_split) simp_all
  moreover have "b < shared (first_key l') (first_key r')" using w c by (intro wf_side [OF w]) auto
  ultimately show ?thesis by simp
qed

lemma wf_valid: "wf_tree t \<Longrightarrow> (k, v) \<in> set (entries t) \<Longrightarrow> validate_record k v = (Inr () :: unit patricia_error + unit)"
  by (induction t) auto

lemma wf_key_length: "wf_tree t \<Longrightarrow> k \<in> keys t \<Longrightarrow> k \<noteq> [] \<and> length k \<le> MAX_KEY_BYTES"
  using wf_valid by (fastforce simp: keys_def validate_record_Inr)

lemma wf_branch_bits: "wf_tree (PBranch b l r) \<Longrightarrow> b < MAX_KEY_BITS"
  using wf_key_length [of l "first_key l"] by (auto simp: MAX_KEY_BITS_def dest!: bspec [of _ _ "first_key l"])

lemma wf_apart: "wf_tree t \<Longrightarrow> k \<in> keys t \<Longrightarrow> k' \<in> keys t \<Longrightarrow> apart k k'"
proof (induction t)
  case (PBranch b l r)
  then show ?case
    using wf_split [OF PBranch.prems(1), of k k'] wf_split [OF PBranch.prems(1), of k' k]
    by (auto simp: apart_def shared_commute)
qed (simp add: apart_def)

lemma entries_distinct: "wf_tree t \<Longrightarrow> distinct (map fst (entries t))"
proof (induction t)
  case (PBranch b l r)
  then have "keys l \<inter> keys r = {}" by auto
  with PBranch show ?case by (simp add: keys_def)
qed simp

text \<open>The records come out in ascending key order.\<close>

lemma shared_order:
  assumes "shared a b < 8 * length a" "shared a b < 8 * length b" "\<not> bits_of a ! shared a b"
  shows "a < b"
proof -
  let ?n = "shared a b"
  have t: "take ?n (bits_of a) = take ?n (bits_of b)" by (simp add: shared_def lcp_take)
  have "bits_of b ! ?n" using shared_differ [OF assms(1,2)] assms(3) by simp
  then have "bits_of a ! ?n < bits_of b ! ?n" using assms(3) by simp
  moreover have "bits_of a = take ?n (bits_of a) @ bits_of a ! ?n # drop (Suc ?n) (bits_of a)"
    "bits_of b = take ?n (bits_of b) @ bits_of b ! ?n # drop (Suc ?n) (bits_of b)"
    by (rule id_take_nth_drop, simp add: assms)+
  ultimately have "bits_of a < bits_of b"
    using less_append [of "take ?n (bits_of a)" "take ?n (bits_of b)"] assms(1,2) t by (metis less_Cons)
  then show ?thesis by (simp add: bits_of_order)
qed

lemma entries_sorted: "wf_tree t \<Longrightarrow> strictly_sorted (map fst (entries t))"
proof (induction t)
  case (PBranch b l r)
  have "k < k'" if "k \<in> keys l" "k' \<in> keys r" for k k'
    using wf_split [OF PBranch.prems that] that PBranch.prems by (intro shared_order) auto
  then have "\<forall>x \<in> set (map fst (entries l)). \<forall>y \<in> set (map fst (entries r)). x < y"
    by (auto simp: keys_def)
  with PBranch show ?case by (simp add: strictly_sorted_iff sorted_wrt_append)
qed simp

section \<open>Uniqueness\<close>

lemma set_entries_branch:
  assumes "wf_tree (PBranch b l r)"
  shows "set (entries l) = {e \<in> set (entries (PBranch b l r)). \<not> bits_of (fst e) ! b}"
    "set (entries r) = {e \<in> set (entries (PBranch b l r)). bits_of (fst e) ! b}"
  using assms by (auto simp: keys_def)

lemma branch_first_in: "first_key l \<in> keys (PBranch b l r)" "first_key r \<in> keys (PBranch b l r)"
  by simp_all

lemma branch_two_keys: "wf_tree (PBranch b l r) \<Longrightarrow> set (entries (PBranch b l r)) \<noteq> {(k, v)}"
proof
  assume w: "wf_tree (PBranch b l r)" and "set (entries (PBranch b l r)) = {(k, v)}"
  then have K: "keys (PBranch b l r) = {k}" by (simp add: keys_def del: entries.simps)
  have "first_key l \<in> {k}" "first_key r \<in> {k}" by (subst K [symmetric], rule branch_first_in)+
  then have "first_key l = k" "first_key r = k" by simp_all
  with wf_left [OF w first_key_in] wf_right [OF w first_key_in] show False by metis
qed

lemma entries_nonempty [simp]: "entries t \<noteq> []"
  by (induction t) auto

theorem tree_determined:
  "wf_tree t \<Longrightarrow> wf_tree t' \<Longrightarrow> set (entries t) = set (entries t') \<Longrightarrow> t = t'"
proof (induction t arbitrary: t')
  case (PLeaf k v)
  show ?case
  proof (cases t')
    case (PLeaf k' v')
    then show ?thesis using PLeaf.prems by simp
  next
    case (PBranch b l r)
    then show ?thesis using PLeaf.prems branch_two_keys [of b l r k v] by simp
  qed
next
  case (PBranch b l r)
  show ?case
  proof (cases t')
    case (PLeaf k' v')
    then show ?thesis using PBranch.prems branch_two_keys [of b l r k' v'] by simp
  next
    case t': (PBranch b' l' r')
    have keys: "keys (PBranch b l r) = keys (PBranch b' l' r')"
      by (simp only: keys_def PBranch.prems(3) [unfolded t'])
    note w = PBranch.prems(1) PBranch.prems(2) [unfolded t']
    have "b' \<le> shared (first_key l) (first_key r)"
      by (intro wf_shared [OF w(2)]; subst keys [symmetric], rule branch_first_in)
    moreover have "b \<le> shared (first_key l') (first_key r')"
      by (intro wf_shared [OF w(1)]; subst keys, rule branch_first_in)
    ultimately have b: "b' = b"
      using wf_split [OF w(1) first_key_in first_key_in] wf_split [OF w(2) first_key_in first_key_in] by simp
    have "set (entries l) = set (entries l')" "set (entries r) = set (entries r')"
      using set_entries_branch [OF w(1)] set_entries_branch [OF w(2) [unfolded b]] PBranch.prems(3) [unfolded t' b] by (simp_all only:)
    then show ?thesis using PBranch.IH(1) [of l'] PBranch.IH(2) [of r'] w b t' by simp
  qed
qed

section \<open>Lookup\<close>

lemma map_of_branch:
  assumes w: "wf_tree (PBranch b l r)" and k: "b < 8 * length k"
  shows "map_of (entries (PBranch b l r)) k =
    (if b \<le> shared k (first_key l) then map_of (entries (if bits_of k ! b then r else l)) k else None)"
proof -
  have n: "map_of (entries x) k = None \<longleftrightarrow> k \<notin> keys x" for x by (simp add: map_of_eq_None_iff keys_def)
  show ?thesis
  proof (cases "k \<in> keys l \<or> k \<in> keys r")
    case True
    then have "b \<le> shared k (first_key l)" using w by (auto simp: shared_commute)
    moreover have "bits_of k ! b \<longleftrightarrow> k \<in> keys r" "bits_of k ! b \<longleftrightarrow> k \<notin> keys l" using w True by auto
    ultimately show ?thesis using n [of l] n [of r] by (auto simp: map_add_def split: option.split)
  next
    case False
    then show ?thesis using n [of l] n [of r] n [of "PBranch b l r"] by simp
  qed
qed

lemma lookup_past_end:
  assumes "wf_tree (PBranch b l r)" "8 * length k \<le> b"
  shows "map_of (entries (PBranch b l r)) k = None"
  using assms by (force simp: map_of_eq_None_iff keys_def)

section \<open>Insertion\<close>

definition join_leaf :: "bytes \<Rightarrow> bytes \<Rightarrow> nat \<Rightarrow> ptree \<Rightarrow> ptree" where
  "join_leaf k v s t = (if bits_of k ! s then PBranch s t (PLeaf k v) else PBranch s (PLeaf k v) t)"

fun tinsert :: "bytes \<Rightarrow> bytes \<Rightarrow> ptree \<Rightarrow> ptree" where
  "tinsert k v (PLeaf k' v') = (if k' = k then PLeaf k v else join_leaf k v (shared k k') (PLeaf k' v'))"
| "tinsert k v (PBranch b l r) =
     (let s = shared k (first_key l) in
      if s < b then join_leaf k v s (PBranch b l r)
      else if bits_of k ! b then PBranch b l (tinsert k v r) else PBranch b (tinsert k v l) r)"

lemma set_entries_join [simp]: "set (entries (join_leaf k v s t)) = insert (k, v) (set (entries t))"
  by (auto simp: join_leaf_def)

lemma wf_join_leaf:
  assumes t: "wf_tree t" and rec: "validate_record k v = (Inr () :: unit patricia_error + unit)" and s: "s < 8 * length k"
    and keys: "\<And>k'. k' \<in> keys t \<Longrightarrow> shared k k' = s \<and> s < 8 * length k'"
  shows "wf_tree (join_leaf k v s t)"
proof -
  have bits: "bits_of k' ! s \<longleftrightarrow> \<not> bits_of k ! s" if "k' \<in> keys t" for k'
    using keys [OF that] s shared_differ [of k k'] by auto
  have "s \<le> shared k' k''" if "k' \<in> keys t" "k'' \<in> keys t" for k' k''
    using keys [OF that(1)] keys [OF that(2)] shared_trans [of s k' k k''] shared_commute [of k' k] by simp
  have t_keys: "s < 8 * length k' \<and> s \<le> shared k k'" if "k' \<in> keys t" for k' using keys [OF that] by simp
  have self: "s < 8 * length k \<and> s \<le> shared k k" using s by simp
  have leaf: "wf_tree (PLeaf k v)" using rec by simp
  show ?thesis
  proof (cases "bits_of k ! s")
    case True
    have "wf_tree (PBranch s t (PLeaf k v))"
      by (rule wf_branchI [of _ _ _ k]) (use t leaf t_keys self bits True in auto)
    then show ?thesis using True by (simp add: join_leaf_def)
  next
    case False
    have "wf_tree (PBranch s (PLeaf k v) t)"
      by (rule wf_branchI [of _ _ _ k]) (use t leaf t_keys self bits False in auto)
    then show ?thesis using False by (simp add: join_leaf_def)
  qed
qed

lemma branch_reached:
  assumes w: "wf_tree (PBranch b l r)" and ap: "\<And>k'. k' \<in> keys (PBranch b l r) \<Longrightarrow> apart k k'"
    and s: "b \<le> shared k (first_key l)"
  shows "b < 8 * length k"
  using ap [of "first_key l"] s w by (auto simp: apart_def)

lemma wf_tinsert:
  assumes "wf_tree t" "validate_record k v = (Inr () :: unit patricia_error + unit)"
    "\<And>k'. k' \<in> keys t \<Longrightarrow> apart k k'"
  shows "wf_tree (tinsert k v t) \<and> set (entries (tinsert k v t)) = insert (k, v) {e \<in> set (entries t). fst e \<noteq> k}"
  using assms
proof (induction t)
  case (PLeaf k' v')
  have "wf_tree (join_leaf k v (shared k k') (PLeaf k' v'))" if "k' \<noteq> k"
    using PLeaf.prems that by (intro wf_join_leaf) (auto simp: apart_def)
  then show ?case using PLeaf.prems by auto
next
  case (PBranch b l r)
  note w = PBranch.prems(1)
  let ?s = "shared k (first_key l)"
  show ?case
  proof (cases "?s < b")
    case True
    have eq: "shared k k' = ?s \<and> ?s < 8 * length k'" if "k' \<in> keys (PBranch b l r)" for k'
    proof -
      have "b \<le> shared (first_key l) k'" using that wf_left [OF w] wf_right [OF w] unfolding keys_simps by blast
      then have "?s < shared k' (first_key l)" using True shared_commute [of k' "first_key l"] by simp
      then show ?thesis using shared_left [of ?s k' "first_key l" k] shared_le(1) [of k' "first_key l"]
          shared_commute [of "first_key l" k] shared_commute [of k' k] by simp
    qed
    have new: "k \<notin> keys (PBranch b l r)" using eq [of k] by auto
    have "?s < 8 * length k"
      using PBranch.prems(3) [of "first_key l"] new by (auto simp: apart_def)
    then have "wf_tree (join_leaf k v ?s (PBranch b l r))"
      by (intro wf_join_leaf [OF w PBranch.prems(2)] eq)
    moreover have "{e \<in> set (entries (PBranch b l r)). fst e \<noteq> k} = set (entries (PBranch b l r))"
      using new by (auto simp: keys_def)
    ultimately show ?thesis using True by (simp add: Let_def del: entries.simps)
  next
    case False
    then have s: "b \<le> shared (first_key l) k" by (simp add: shared_commute)
    have b: "b < 8 * length k"
      using PBranch.prems s by (intro branch_reached [OF w]) (auto simp: shared_commute)
    have ih: "wf_tree (tinsert k v l) \<and> set (entries (tinsert k v l)) = insert (k, v) {e \<in> set (entries l). fst e \<noteq> k}"
      "wf_tree (tinsert k v r) \<and> set (entries (tinsert k v r)) = insert (k, v) {e \<in> set (entries r). fst e \<noteq> k}"
      using PBranch.prems by (intro PBranch.IH; simp)+
    then have kl: "keys (tinsert k v l) = insert k (keys l)" and kr: "keys (tinsert k v r) = insert k (keys r)"
      by (auto simp: keys_def)
    show ?thesis
    proof (cases "bits_of k ! b")
      case True
      then have "k \<notin> keys l" using w by auto
      then have e: "{e \<in> set (entries l). fst e \<noteq> k} = set (entries l)" by (auto simp: keys_def)
      have "wf_tree (PBranch b l (tinsert k v r))"
        by (rule wf_branchI [of _ _ _ "first_key l"])
          (use wf_left [OF w] wf_right [OF w] ih kr True b s w in auto)
      moreover have "set (entries (PBranch b l (tinsert k v r))) = insert (k, v) {e \<in> set (entries (PBranch b l r)). fst e \<noteq> k}"
        using ih(2) e by auto
      ultimately show ?thesis using True False by (simp add: Let_def)
    next
      case bit: False
      then have "k \<notin> keys r" using w by auto
      then have e: "{e \<in> set (entries r). fst e \<noteq> k} = set (entries r)" by (auto simp: keys_def)
      have "wf_tree (PBranch b (tinsert k v l) r)"
        by (rule wf_branchI [of _ _ _ "first_key l"])
          (use wf_left [OF w] wf_right [OF w] ih kl bit b s w in auto)
      moreover have "set (entries (PBranch b (tinsert k v l) r)) = insert (k, v) {e \<in> set (entries (PBranch b l r)). fst e \<noteq> k}"
        using ih(1) e by auto
      ultimately show ?thesis using bit False by (simp add: Let_def)
    qed
  qed
qed

section \<open>Removal\<close>

fun tremove :: "bytes \<Rightarrow> ptree \<Rightarrow> ptree option" where
  "tremove k (PLeaf k' v') = (if k' = k then None else Some (PLeaf k' v'))"
| "tremove k (PBranch b l r) =
     (if b \<le> shared k (first_key l)
      then if bits_of k ! b
        then (case tremove k r of None \<Rightarrow> Some l | Some r' \<Rightarrow> Some (PBranch b l r'))
        else (case tremove k l of None \<Rightarrow> Some r | Some l' \<Rightarrow> Some (PBranch b l' r))
      else Some (PBranch b l r))"

definition entries_opt :: "ptree option \<Rightarrow> (bytes \<times> bytes) list" where
  "entries_opt t = (case t of None \<Rightarrow> [] | Some t \<Rightarrow> entries t)"

definition wf_opt :: "ptree option \<Rightarrow> bool" where
  "wf_opt t = (case t of None \<Rightarrow> True | Some t \<Rightarrow> wf_tree t)"

lemma opt_simps [simp]:
  "entries_opt None = []" "entries_opt (Some t) = entries t" "wf_opt None" "wf_opt (Some t) = wf_tree t"
  by (simp_all add: entries_opt_def wf_opt_def)

lemma tremove_absent: "k \<notin> keys t \<Longrightarrow> tremove k t = Some t"
  by (induction t) auto

lemma filter_absent: "k \<notin> keys t \<Longrightarrow> {e \<in> set (entries t). fst e \<noteq> k} = set (entries t)"
  by (auto simp: keys_def)

lemma wf_tremove:
  "wf_tree t \<Longrightarrow> wf_opt (tremove k t) \<and> set (entries_opt (tremove k t)) = {e \<in> set (entries t). fst e \<noteq> k}"
proof (induction t)
  case (PBranch b l r)
  note w = PBranch.prems
  show ?case
  proof (cases "k \<in> keys (PBranch b l r)")
    case False
    then show ?thesis by (simp only: tremove_absent filter_absent opt_simps w simp_thms)
  next
    case True
    then have s: "b \<le> shared k (first_key l)" by (intro wf_shared [OF w]) (simp_all add: branch_first_in)
    have ih: "wf_opt (tremove k l)" "set (entries_opt (tremove k l)) = {e \<in> set (entries l). fst e \<noteq> k}"
      "wf_opt (tremove k r)" "set (entries_opt (tremove k r)) = {e \<in> set (entries r). fst e \<noteq> k}"
      using PBranch.IH w by simp_all
    have sub: "\<And>t'. tremove k l = Some t' \<Longrightarrow> keys t' \<subseteq> keys l" "\<And>t'. tremove k r = Some t' \<Longrightarrow> keys t' \<subseteq> keys r"
      using ih(2,4) by (auto simp: keys_def)
    show ?thesis
    proof (cases "bits_of k ! b")
      case bit: True
      then have l: "{e \<in> set (entries l). fst e \<noteq> k} = set (entries l)" using wf_left [OF w, of k] by (intro filter_absent) blast
      show ?thesis
      proof (cases "tremove k r")
        case None
        then show ?thesis using s bit l ih w by auto
      next
        case (Some r')
        then have "wf_tree (PBranch b l r')"
          using wf_left [OF w] wf_right [OF w] sub(2) ih(3) w by (intro wf_branchI [of _ _ _ "first_key l"]) auto
        moreover have "set (entries (PBranch b l r')) = {e \<in> set (entries (PBranch b l r)). fst e \<noteq> k}"
          using ih(4) Some l by auto
        ultimately show ?thesis using s bit Some by simp
      qed
    next
      case bit: False
      then have r: "{e \<in> set (entries r). fst e \<noteq> k} = set (entries r)" using wf_right [OF w, of k] by (intro filter_absent) blast
      show ?thesis
      proof (cases "tremove k l")
        case None
        then show ?thesis using s bit r ih w by auto
      next
        case (Some l')
        then have "wf_tree (PBranch b l' r)"
          using wf_left [OF w] wf_right [OF w] sub(1) ih(1) w by (intro wf_branchI [of _ _ _ "first_key l"]) auto
        moreover have "set (entries (PBranch b l' r)) = {e \<in> set (entries (PBranch b l r)). fst e \<noteq> k}"
          using ih(2) Some r by auto
        ultimately show ?thesis using s bit Some by simp
      qed
    qed
  qed
qed auto

text \<open>The tree of a record list, by insertion; the order does not matter.\<close>

definition prefix_free :: "bytes set \<Rightarrow> bool" where
  "prefix_free K \<longleftrightarrow> (\<forall>a \<in> K. \<forall>b \<in> K. apart a b)"

definition tinsert_opt :: "bytes \<Rightarrow> bytes \<Rightarrow> ptree option \<Rightarrow> ptree option" where
  "tinsert_opt k v t = Some (case t of None \<Rightarrow> PLeaf k v | Some t \<Rightarrow> tinsert k v t)"

definition content :: "ptree option \<Rightarrow> bytes \<rightharpoonup> bytes" where
  "content t = map_of (entries_opt t)"

lemma content_simps [simp]: "content None = Map.empty" "content (Some t) = map_of (entries t)"
  by (simp_all add: content_def)

lemma dom_content: "dom (map_of (entries t)) = keys t"
  by (simp add: keys_def dom_map_of_conv_image_fst)

lemma map_of_set: "wf_tree t \<Longrightarrow> map_of (entries t) k = Some v \<longleftrightarrow> (k, v) \<in> set (entries t)"
  using entries_distinct by (rule map_of_eq_Some_iff)

lemma content_unique:
  assumes "wf_opt t" "wf_opt t'" "content t = content t'"
  shows "t = t'"
proof (cases t)
  case None
  then have "dom (content t') = {}" using assms(3) by simp
  then show ?thesis using None by (cases t') (auto simp: dom_content)
next
  case (Some u)
  then have "dom (content t') \<noteq> {}" using assms(3) by (auto simp: dom_content simp flip: assms(3))
  then obtain u' where u': "t' = Some u'" by (cases t') auto
  have "set (entries u) = set (entries u')"
    using assms map_of_set [of u] map_of_set [of u'] Some u' by (auto simp: fun_eq_iff)
  then show ?thesis using tree_determined [of u u'] assms Some u' by simp
qed

lemma wf_tinsert_opt:
  assumes "wf_opt t" "validate_record k v = (Inr () :: unit patricia_error + unit)"
    "prefix_free (insert k (dom (content t)))"
  shows "wf_opt (tinsert_opt k v t)" "content (tinsert_opt k v t) = (content t)(k \<mapsto> v)"
proof -
  show w: "wf_opt (tinsert_opt k v t)"
    using assms wf_tinsert by (cases t) (auto simp: tinsert_opt_def prefix_free_def dom_content)
  show "content (tinsert_opt k v t) = (content t)(k \<mapsto> v)"
  proof (cases t)
    case None
    then show ?thesis by (auto simp: tinsert_opt_def)
  next
    case (Some u)
    then have i: "set (entries (tinsert k v u)) = insert (k, v) {e \<in> set (entries u). fst e \<noteq> k}"
      using assms wf_tinsert by (auto simp: prefix_free_def dom_content)
    have "map_of (entries (tinsert k v u)) k' = ((map_of (entries u))(k \<mapsto> v)) k'" for k'
    proof (rule option.expand)
      fix k'
      have "map_of (entries (tinsert k v u)) k' = Some v' \<longleftrightarrow> ((map_of (entries u))(k \<mapsto> v)) k' = Some v'" for v'
        using map_of_set [of "tinsert k v u" k' v'] map_of_set [of u k' v'] w assms(1) Some i by (auto simp: tinsert_opt_def)
      then show "(map_of (entries (tinsert k v u)) k' = None) = (((map_of (entries u))(k \<mapsto> v)) k' = None)"
        "map_of (entries (tinsert k v u)) k' \<noteq> None \<Longrightarrow> ((map_of (entries u))(k \<mapsto> v)) k' \<noteq> None
          \<Longrightarrow> the (map_of (entries (tinsert k v u)) k') = the (((map_of (entries u))(k \<mapsto> v)) k')"
        by (metis option.exhaust_sel, metis option.exhaust_sel option.sel)
    qed
    then show ?thesis by (auto simp: Some tinsert_opt_def)
  qed
qed

lemma wf_tremove_opt:
  assumes "wf_opt t"
  shows "wf_opt (Option.bind t (tremove k))" "content (Option.bind t (tremove k)) = (content t)(k := None)"
proof -
  show w: "wf_opt (Option.bind t (tremove k))"
    using assms wf_tremove by (cases t) auto
  show "content (Option.bind t (tremove k)) = (content t)(k := None)"
  proof (cases t)
    case (Some u)
    have e: "set (entries_opt (tremove k u)) = {e \<in> set (entries u). fst e \<noteq> k}"
      using wf_tremove assms Some by simp
    have d: "distinct (map fst (entries_opt (tremove k u)))"
      using w Some entries_distinct by (cases "tremove k u") auto
    have "map_of (entries_opt (tremove k u)) k' = ((map_of (entries u))(k := None)) k'" for k'
    proof (cases "((map_of (entries u))(k := None)) k'")
      case None
      then have "k' \<notin> fst ` set (entries_opt (tremove k u))"
        unfolding e using map_of_set [of u k'] assms Some by (force split: if_splits)
      then show ?thesis using None by (simp add: map_of_eq_None_iff)
    next
      case (Some v')
      then have "(k', v') \<in> set (entries_opt (tremove k u))"
        unfolding e using map_of_set [of u k'] assms \<open>t = Some u\<close> by (auto split: if_splits)
      then show ?thesis using d Some by simp
    qed
    then show ?thesis using Some by (auto simp: content_def)
  qed simp
qed

end
