(* ===== verification/Ordered_Map.thy ===== *)
theory Ordered_Map
  imports Tine_Prelude
begin

text \<open>
  Rust's \<open>BTreeMap\<close> and \<open>BTreeSet\<close> as ascending association lists and ascending lists: the
  operations the code uses, and their meaning as maps and sets.
\<close>

fun bt_insert :: "('k::linorder) \<Rightarrow> 'v \<Rightarrow> ('k \<times> 'v) list \<Rightarrow> ('k \<times> 'v) list" where
  "bt_insert k v [] = [(k, v)]"
| "bt_insert k v ((k', v') # xs) =
     (if k < k' then (k, v) # (k', v') # xs
      else if k = k' then (k, v) # xs
      else (k', v') # bt_insert k v xs)"

fun bt_remove :: "('k::linorder) \<Rightarrow> ('k \<times> 'v) list \<Rightarrow> ('k \<times> 'v) list" where
  "bt_remove k [] = []"
| "bt_remove k ((k', v') # xs) = (if k = k' then xs else (k', v') # bt_remove k xs)"

fun bs_insert :: "('k::linorder) \<Rightarrow> 'k list \<Rightarrow> 'k list" where
  "bs_insert k [] = [k]"
| "bs_insert k (k' # xs) = (if k < k' then k # k' # xs else if k = k' then k' # xs else k' # bs_insert k xs)"

definition ordered :: "('k::linorder \<times> 'v) list \<Rightarrow> bool" where
  "ordered xs \<longleftrightarrow> sorted_wrt (<) (map fst xs)"

lemma ordered_Nil [simp]: "ordered []"
  and ordered_Cons: "ordered ((k, v) # xs) \<longleftrightarrow> (\<forall>k' \<in> fst ` set xs. k < k') \<and> ordered xs"
  by (simp_all add: ordered_def)

lemma ordered_distinct: "ordered xs \<Longrightarrow> distinct (map fst xs)"
  by (simp add: ordered_def strict_sorted_iff)

lemma ordered_append:
  "ordered (xs @ ys) \<longleftrightarrow> ordered xs \<and> ordered ys \<and> (\<forall>k \<in> fst ` set xs. \<forall>k' \<in> fst ` set ys. k < k')"
  by (simp add: ordered_def sorted_wrt_append)

lemma keys_bt_insert [simp]: "fst ` set (bt_insert k v xs) = insert k (fst ` set xs)"
  by (induction k v xs rule: bt_insert.induct) auto

lemma ordered_bt_insert [simp]: "ordered xs \<Longrightarrow> ordered (bt_insert k v xs)"
  by (induction k v xs rule: bt_insert.induct) (auto simp: ordered_Cons)

lemma map_of_bt_insert [simp]: "ordered xs \<Longrightarrow> map_of (bt_insert k v xs) = (map_of xs)(k \<mapsto> v)"
proof (induction k v xs rule: bt_insert.induct)
  case (2 k v k' v' xs)
  then show ?case by (auto simp: ordered_Cons fun_eq_iff)
qed auto

lemma bt_insert_last: "(\<And>k'. k' \<in> fst ` set xs \<Longrightarrow> k' < k) \<Longrightarrow> bt_insert k v xs = xs @ [(k, v)]"
proof (induction k v xs rule: bt_insert.induct)
  case (2 k v k' v' xs)
  then have "k' < k" by simp
  with 2 show ?case by (auto dest: less_asym)
qed auto

lemma keys_bt_remove: "ordered xs \<Longrightarrow> fst ` set (bt_remove k xs) = fst ` set xs - {k}"
  by (induction k xs rule: bt_remove.induct) (auto simp: ordered_Cons)

lemma ordered_bt_remove [simp]: "ordered xs \<Longrightarrow> ordered (bt_remove k xs)"
  by (induction k xs rule: bt_remove.induct) (auto simp: ordered_Cons keys_bt_remove)

lemma map_of_bt_remove [simp]: "ordered xs \<Longrightarrow> map_of (bt_remove k xs) = (map_of xs)(k := None)"
proof (induction k xs rule: bt_remove.induct)
  case (2 k k' v' xs)
  show ?case
  proof (cases "k = k'")
    case True
    then have "map_of xs k = None" using 2 by (auto simp: ordered_Cons map_of_eq_None_iff)
    then show ?thesis using True by (auto simp: fun_eq_iff)
  next
    case False
    then show ?thesis using 2 by (auto simp: ordered_Cons fun_eq_iff)
  qed
qed auto

lemma set_bs_insert [simp]: "set (bs_insert k xs) = insert k (set xs)"
  by (induction k xs rule: bs_insert.induct) auto

lemma sorted_bs_insert: "sorted_wrt (<) xs \<Longrightarrow> sorted_wrt (<) (bs_insert k xs)"
  by (induction k xs rule: bs_insert.induct) (auto dest: less_trans)

lemma ordered_unique: "ordered xs \<Longrightarrow> ordered ys \<Longrightarrow> map_of xs = map_of ys \<Longrightarrow> xs = ys"
proof (induction xs arbitrary: ys)
  case Nil
  then have "dom (map_of ys) = {}" by (simp flip: Nil.prems(3))
  then show ?case by (simp add: dom_map_of_conv_image_fst)
next
  case (Cons x xs)
  obtain k v where x: "x = (k, v)" by force
  have "map_of ys k = Some v" using Cons.prems(3) by (simp add: x flip: Cons.prems(3))
  then obtain y ys' where ys: "ys = y # ys'" by (cases ys) auto
  obtain k' v' where y: "y = (k', v')" by force
  have d: "fst ` set (x # xs) = fst ` set ys"
    using Cons.prems(3) by (metis dom_map_of_conv_image_fst)
  have "k = k'"
  proof (rule ccontr)
    assume n: "k \<noteq> k'"
    have "k' \<in> fst ` set xs" using d n by (auto simp: x y ys)
    then have "k < k'" using Cons.prems(1) by (auto simp: x ordered_Cons)
    moreover have "k \<in> fst ` set ys'" using d n by (auto simp: x y ys)
    then have "k' < k" using Cons.prems(2) by (auto simp: y ys ordered_Cons)
    ultimately show False by simp
  qed
  moreover have "v = v'" using \<open>map_of ys k = Some v\<close> calculation by (simp add: ys y)
  moreover have "map_of xs = map_of ys'"
  proof
    fix j
    have "map_of xs k = None" "map_of ys' k = None"
      using Cons.prems(1,2) calculation by (auto simp: x y ys ordered_Cons map_of_eq_None_iff)
    then show "map_of xs j = map_of ys' j"
      using fun_cong [OF Cons.prems(3), of j] calculation by (auto simp: x y ys split: if_splits)
  qed
  ultimately show ?case using Cons by (auto simp: x y ys ordered_Cons)
qed

end
