(* ===== verification/Patricia_Index.thy ===== *)
theory Patricia_Index
  imports Patricia_Tree Ordered_Map Content_Digest
begin

text \<open>
  The node store and the reading side of \<open>src/authenticated_patricia.rs\<close>: content-addressed nodes, the
  authenticated read, lookups, prefix collection and ordered visits.  SHA-256 and the \<open>postcard\<close> node
  codec are parameters (\<open>patricia_env\<close>).  The readers take the node source \<open>rd\<close> as an argument: the
  store's \<open>read_node\<close>, or the same overlaid with staged nodes.
\<close>

section \<open>Nodes\<close>

definition NODE_SCHEMA_VERSION :: u32 where "NODE_SCHEMA_VERSION = 1"
definition MAX_NODE_BYTES :: nat where "MAX_NODE_BYTES = 128 * 1024"
definition NODE_SUFFIX :: bytes where
  "NODE_SUFFIX = [0x2e, 0x70, 0x61, 0x74, 0x72, 0x69, 0x63, 0x69, 0x61, 0x2d, 0x6e, 0x6f, 0x64, 0x65]"
definition CONSTRUCTION_MAX_VALID_NODE_BYTES :: nat where
  "CONSTRUCTION_MAX_VALID_NODE_BYTES = MAX_VALUE_BYTES + MAX_KEY_BYTES + 512"

datatype patricia_node =
    Leaf (schema_version: u32) (leaf_key: bytes) (leaf_value: bytes)
  | Branch (schema_version: u32) (branch_prefix: bytes) (prefix_bit_len: "16 word") (branch_left: digest) (branch_right: digest)

record patricia_env =
  pe_sha256 :: hash
  pe_node :: "patricia_node serializer"

definition EMPTY_ROOT_TEXT :: string where
  "EMPTY_ROOT_TEXT = ''tine/authenticated-content-addressed-patricia/v1/empty''"

definition empty_root :: "patricia_env \<Rightarrow> digest" where
  "empty_root E = pe_sha256 E (map (\<lambda>c. word_of_nat (of_char c)) EMPTY_ROOT_TEXT)"

definition node_prefix :: "patricia_node \<Rightarrow> bytes" where
  "node_prefix n = (case n of Leaf _ key _ \<Rightarrow> key | Branch _ prefix _ _ _ \<Rightarrow> prefix)"

definition node_prefix_bits :: "patricia_node \<Rightarrow> 'p patricia_error + nat" where
  "node_prefix_bits n =
     (case n of Leaf _ key _ \<Rightarrow> key_bit_len key | Branch _ _ bits _ _ \<Rightarrow> Inr (unat bits))"

definition validate_node :: "patricia_env \<Rightarrow> patricia_node \<Rightarrow> 'p patricia_error + unit" where
  "validate_node E n =
     (case n of
        Leaf version key value \<Rightarrow>
          if version \<noteq> NODE_SCHEMA_VERSION then Inl PatriciaMalformed else validate_record key value
      | Branch version prefix bit_len l r \<Rightarrow>
          let bits = unat bit_len in
          if version \<noteq> NODE_SCHEMA_VERSION \<or> bits \<ge> MAX_KEY_BITS \<or> length prefix \<noteq> div_ceil bits 8
             \<or> masked_prefix prefix bits \<noteq> prefix \<or> l = r \<or> l = empty_root E \<or> r = empty_root E
          then Inl PatriciaMalformed else Inr ())"

record child_path_constraint =
  parent_prefix :: bytes
  parent_prefix_bit_len :: nat
  constraint_right :: bool

definition validate_node_path ::
  "patricia_node \<Rightarrow> child_path_constraint option \<Rightarrow> 'p patricia_error + unit" where
  "validate_node_path n constraint =
     (case constraint of None \<Rightarrow> Inr ()
      | Some c \<Rightarrow>
          bind_res (node_prefix_bits n) (\<lambda>bits.
            if bits \<le> parent_prefix_bit_len c then Inl PatriciaMalformed
            else bind_res (prefix_matches (node_prefix n) (parent_prefix c) (parent_prefix_bit_len c)) (\<lambda>matches.
              if \<not> matches then Inl PatriciaMalformed
              else bind_res (key_bit (node_prefix n) (parent_prefix_bit_len c)) (\<lambda>b.
                if b \<noteq> constraint_right c then Inl PatriciaMalformed else Inr ()))))"

section \<open>The store\<close>

text \<open>
  \<open>ps_loose name\<close> is what \<open>read_optional_regular(nodes, name, MAX_NODE_BYTES, None)\<close> returns, and
  \<open>ps_packed d\<close> what the packed catalog resolves (already mapped to this module's error).
\<close>

record 'p patricia_store =
  ps_loose :: "bytes \<Rightarrow> filesystem_error + bytes option"
  ps_packed :: "digest \<Rightarrow> 'p patricia_error + bytes option"

definition node_filename :: "digest \<Rightarrow> bytes" where
  "node_filename d = display_digest d @ NODE_SUFFIX"

definition read_node ::
  "patricia_env \<Rightarrow> 'p patricia_store \<Rightarrow> digest \<Rightarrow> 'p patricia_error + patricia_node" where
  "read_node E S d =
     bind_res (map_err PatriciaFilesystem (ps_loose S (node_filename d))) (\<lambda>loose.
       if (case loose of None \<Rightarrow> False | Some bs \<Rightarrow> pe_sha256 E bs \<noteq> d) then Inl (PathMismatch d)
       else bind_res (ps_packed S d) (\<lambda>packed.
         bind_res (case (loose, packed) of
              (Some l, Some p) \<Rightarrow> if l \<noteq> p then Inl (PathMismatch d) else Inr l
            | (Some l, None) \<Rightarrow> Inr l
            | (None, Some p) \<Rightarrow> Inr p
            | (None, None) \<Rightarrow> Inl (MissingNode d)) (\<lambda>bs.
         bind_res (map_err (\<lambda>_. PatriciaMalformed) (from_slice (pe_node E) bs)) (\<lambda>node.
         bind_res (validate_node E node) (\<lambda>_.
         bind_res (map_err (\<lambda>_. PatriciaMalformed) (to_vec (pe_node E) node)) (\<lambda>canonical.
           if canonical \<noteq> bs then Inl PatriciaMalformed else Inr node))))))"

definition validate_root :: "patricia_env \<Rightarrow> 'p patricia_store \<Rightarrow> digest \<Rightarrow> 'p patricia_error + unit" where
  "validate_root E S root =
     (if root = empty_root E then Inr () else bind_res (read_node E S root) (\<lambda>_. Inr ()))"

type_synonym 'p node_source = "digest \<Rightarrow> 'p patricia_error + patricia_node"

definition child_of :: "bytes \<Rightarrow> nat \<Rightarrow> bool \<Rightarrow> child_path_constraint option" where
  "child_of prefix split rightward =
     Some \<lparr>parent_prefix = prefix, parent_prefix_bit_len = split, constraint_right = rightward\<rparr>"

section \<open>Lookup\<close>

text \<open>The loop, by its node budget: with none left, \<open>consume_node_budget\<close> refuses.\<close>

fun lookup_loop ::
  "'p node_source \<Rightarrow> bytes \<Rightarrow> nat \<Rightarrow> digest \<Rightarrow> child_path_constraint option
     \<Rightarrow> 'p patricia_error + bytes option" where
  "lookup_loop rd key 0 d c = Inl PatriciaMalformed"
| "lookup_loop rd key (Suc remaining) d c =
     bind_res (rd d) (\<lambda>node.
     bind_res (validate_node_path node c) (\<lambda>_.
       case node of
         Leaf _ found value \<Rightarrow> Inr (if found = key then Some value else None)
       | Branch _ prefix bit_len l r \<Rightarrow>
           let split = unat bit_len in
           bind_res (prefix_matches key prefix split) (\<lambda>matches.
             if \<not> matches then Inr None
             else bind_res (key_bit key split) (\<lambda>rightward.
               lookup_loop rd key remaining (if rightward then r else l)
                 (child_of prefix split rightward)))))"

definition lookup_from ::
  "patricia_env \<Rightarrow> 'p node_source \<Rightarrow> digest \<Rightarrow> bytes \<Rightarrow> 'p patricia_error + bytes option" where
  "lookup_from E rd root key =
     bind_res (validate_key key) (\<lambda>_.
       if root = empty_root E then Inr None
       else bind_res (traversal_node_budget (length key)) (\<lambda>budget. lookup_loop rd key budget root None))"

definition patricia_lookup ::
  "patricia_env \<Rightarrow> 'p patricia_store \<Rightarrow> digest \<Rightarrow> bytes \<Rightarrow> 'p patricia_error + bytes option" where
  "patricia_lookup E S = lookup_from E (read_node E S)"

fun lookup_keys ::
  "(bytes \<Rightarrow> 'p patricia_error + bytes option) \<Rightarrow> bytes list \<Rightarrow> (bytes \<times> bytes) list
     \<Rightarrow> 'p patricia_error + (bytes \<times> bytes) list" where
  "lookup_keys look [] found = Inr found"
| "lookup_keys look (key # ks) found =
     bind_res (look key) (\<lambda>r. lookup_keys look ks (case r of None \<Rightarrow> found | Some v \<Rightarrow> bt_insert key v found))"

definition lookup_many ::
  "patricia_env \<Rightarrow> 'p patricia_store \<Rightarrow> digest \<Rightarrow> bytes list \<Rightarrow> 'p patricia_error + (bytes \<times> bytes) list" where
  "lookup_many E S root ks =
     (if \<not> strictly_sorted ks then Inl PatriciaMalformed else lookup_keys (patricia_lookup E S root) ks [])"

section \<open>Ordered traversal\<close>

text \<open>
  The explicit stack of the traversals: digest, path constraint and remaining node budget.  Each branch
  replaces its entry by at most two with a smaller budget, so the loops end.
\<close>

type_synonym pending = "(digest \<times> child_path_constraint option \<times> nat) list"

definition pending_measure :: "pending \<Rightarrow> nat" where
  "pending_measure ps = sum_list (map (\<lambda>(d, c, n). 3 ^ n) ps)"

lemma pending_measure_simps [simp]:
  "pending_measure [] = 0" "pending_measure ((d, c, n) # ps) = 3 ^ n + pending_measure ps"
  by (simp_all add: pending_measure_def)

function visit_loop ::
  "'p node_source \<Rightarrow> (bytes \<Rightarrow> bytes \<Rightarrow> 's \<Rightarrow> bool \<times> 's) \<Rightarrow> pending \<Rightarrow> 's \<Rightarrow> ('p patricia_error + unit) \<times> 's" where
  "visit_loop rd visit [] s = (Inr (), s)"
| "visit_loop rd visit ((d, c, 0) # pending) s = (Inl PatriciaMalformed, s)"
| "visit_loop rd visit ((d, c, Suc remaining) # pending) s =
     (case bind_res (rd d) (\<lambda>node. bind_res (validate_node_path node c) (\<lambda>_. Inr node)) of
        Inl e \<Rightarrow> (Inl e, s)
      | Inr (Leaf _ key value) \<Rightarrow>
          (case visit key value s of
             (go, s') \<Rightarrow> if \<not> go then (Inr (), s') else visit_loop rd visit pending s')
      | Inr (Branch _ prefix bit_len l r) \<Rightarrow>
          visit_loop rd visit
            ((l, child_of prefix (unat bit_len) False, remaining)
               # (r, child_of prefix (unat bit_len) True, remaining) # pending) s)"
  by pat_completeness auto
termination
  by (relation "measure (\<lambda>(rd, visit, ps, s). pending_measure ps)") auto

definition visit_from ::
  "patricia_env \<Rightarrow> 'p node_source \<Rightarrow> digest \<Rightarrow> (bytes \<Rightarrow> bytes \<Rightarrow> 's \<Rightarrow> bool \<times> 's) \<Rightarrow> 's
     \<Rightarrow> ('p patricia_error + unit) \<times> 's" where
  "visit_from E rd root visit s =
     (if root = empty_root E then (Inr (), s)
      else case traversal_node_budget MAX_KEY_BYTES of
        Inl e \<Rightarrow> (Inl e, s)
      | Inr budget \<Rightarrow> visit_loop rd visit [(root, None, budget)] s)"

definition visit_all ::
  "patricia_env \<Rightarrow> 'p patricia_store \<Rightarrow> digest \<Rightarrow> (bytes \<Rightarrow> bytes \<Rightarrow> 's \<Rightarrow> bool \<times> 's) \<Rightarrow> 's
     \<Rightarrow> ('p patricia_error + unit) \<times> 's" where
  "visit_all E S = visit_from E (read_node E S)"

function collect_loop ::
  "'p node_source \<Rightarrow> bytes \<Rightarrow> nat \<Rightarrow> pending \<Rightarrow> (bytes \<times> bytes) list \<Rightarrow> 'p patricia_error + (bytes \<times> bytes) list" where
  "collect_loop rd requested limit [] found = Inr found"
| "collect_loop rd requested limit ((d, c, 0) # pending) found = Inl PatriciaMalformed"
| "collect_loop rd requested limit ((d, c, Suc remaining) # pending) found =
     bind_res (rd d) (\<lambda>node.
     bind_res (validate_node_path node c) (\<lambda>_.
       case node of
         Leaf _ key value \<Rightarrow>
           if starts_with key requested
           then let found' = bt_insert key value found in
             if length found' = limit then Inr found' else collect_loop rd requested limit pending found'
           else collect_loop rd requested limit pending found
       | Branch _ prefix bit_len l r \<Rightarrow>
           let split = unat bit_len in
           bind_res (key_bit_len requested) (\<lambda>requested_bits.
           bind_res (prefix_matches requested prefix (min split requested_bits)) (\<lambda>matches.
             if \<not> matches then collect_loop rd requested limit pending found
             else if requested_bits \<le> split
             then collect_loop rd requested limit
                    ((l, child_of prefix split False, remaining) # (r, child_of prefix split True, remaining) # pending) found
             else bind_res (key_bit requested split) (\<lambda>rightward.
                    collect_loop rd requested limit
                      ((if rightward then r else l, child_of prefix split rightward, remaining) # pending) found)))))"
  by pat_completeness auto
termination
  by (relation "measure (\<lambda>(rd, requested, limit, ps, found). pending_measure ps)") auto

definition prefix_from ::
  "patricia_env \<Rightarrow> 'p node_source \<Rightarrow> digest \<Rightarrow> bytes \<Rightarrow> nat \<Rightarrow> 'p patricia_error + (bytes \<times> bytes) list" where
  "prefix_from E rd root prefix limit =
     bind_res (validate_key prefix) (\<lambda>_.
       if root = empty_root E \<or> limit = 0 then Inr []
       else bind_res (traversal_node_budget MAX_KEY_BYTES) (\<lambda>budget.
         collect_loop rd prefix limit [(root, None, budget)] []))"

definition lookup_prefix_limited ::
  "patricia_env \<Rightarrow> 'p patricia_store \<Rightarrow> digest \<Rightarrow> bytes \<Rightarrow> nat \<Rightarrow> 'p patricia_error + (bytes \<times> bytes) list" where
  "lookup_prefix_limited E S = prefix_from E (read_node E S)"

definition lookup_prefix ::
  "patricia_env \<Rightarrow> 'p patricia_store \<Rightarrow> digest \<Rightarrow> bytes \<Rightarrow> 'p patricia_error + (bytes \<times> bytes) list" where
  "lookup_prefix E S root prefix = lookup_prefix_limited E S root prefix (2 ^ 64 - 1)"

section \<open>The tree a root stands for\<close>

definition node_bytes :: "patricia_env \<Rightarrow> patricia_node \<Rightarrow> bytes" where
  "node_bytes E n = (case to_vec (pe_node E) n of Inr bs \<Rightarrow> bs | Inl _ \<Rightarrow> [])"

definition node_digest :: "patricia_env \<Rightarrow> patricia_node \<Rightarrow> digest" where
  "node_digest E n = pe_sha256 E (node_bytes E n)"

fun node_of :: "patricia_env \<Rightarrow> ptree \<Rightarrow> patricia_node" where
  "node_of E (PLeaf k v) = Leaf 1 k v"
| "node_of E (PBranch b l r) =
     Branch 1 (masked_prefix (first_key l) b) (word_of_nat b) (node_digest E (node_of E l)) (node_digest E (node_of E r))"

definition tree_digest :: "patricia_env \<Rightarrow> ptree \<Rightarrow> digest" where
  "tree_digest E t = node_digest E (node_of E t)"

definition root_of :: "patricia_env \<Rightarrow> ptree option \<Rightarrow> digest" where
  "root_of E t = (case t of None \<Rightarrow> empty_root E | Some t \<Rightarrow> tree_digest E t)"

fun subtrees :: "ptree \<Rightarrow> ptree list" where
  "subtrees (PLeaf k v) = [PLeaf k v]"
| "subtrees (PBranch b l r) = PBranch b l r # subtrees l @ subtrees r"

text \<open>\<open>stored E rd t\<close>: the source resolves every node of \<open>t\<close>.\<close>

definition stored :: "patricia_env \<Rightarrow> 'p node_source \<Rightarrow> ptree \<Rightarrow> bool" where
  "stored E rd t \<longleftrightarrow> (\<forall>s \<in> set (subtrees t). rd (tree_digest E s) = Inr (node_of E s))"

lemma subtree_self [simp]: "t \<in> set (subtrees t)"
  by (cases t) auto

lemma stored_branch:
  "stored E rd (PBranch b l r) \<longleftrightarrow> rd (tree_digest E (PBranch b l r)) = Inr (node_of E (PBranch b l r))
     \<and> stored E rd l \<and> stored E rd r"
  by (auto simp: stored_def)

lemma stored_root: "stored E rd t \<Longrightarrow> rd (tree_digest E t) = Inr (node_of E t)"
  by (simp add: stored_def)

lemma node_of_branch:
  "node_of E (PBranch b l r) = Branch 1 (masked_prefix (first_key l) b) (word_of_nat b) (tree_digest E l) (tree_digest E r)"
  by (simp add: tree_digest_def)

declare node_of.simps(2) [simp del]
declare node_of_branch [simp]

lemma branch_bits:
  assumes "wf_tree (PBranch b l r)"
  shows "unat (word_of_nat b :: 16 word) = b" "b < 768" "b \<le> 8 * length (first_key l)"
    "length (masked_prefix (first_key l) b) \<le> MAX_KEY_BYTES" "length (first_key l) \<le> MAX_KEY_BYTES"
proof -
  show b: "b < 768" using wf_branch_bits [OF assms] by (simp add: MAX_KEY_BITS_def MAX_KEY_BYTES_def)
  then show "unat (word_of_nat b :: 16 word) = b" by (simp add: unsigned_of_nat take_bit_nat_eq_self)
  show k: "b \<le> 8 * length (first_key l)" using wf_left [OF assms first_key_in] by simp
  show "length (first_key l) \<le> MAX_KEY_BYTES" using wf_key_length [of l] assms by simp
  then show "length (masked_prefix (first_key l) b) \<le> MAX_KEY_BYTES" using k div_ceil_le [OF k] by simp
qed

text \<open>Every node's prefix agrees with all keys below it.\<close>

lemma node_prefix_facts:
  assumes "wf_tree t"
  shows "\<exists>nb. node_prefix_bits (node_of E t) = (Inr nb :: 'p patricia_error + nat)
    \<and> length (node_prefix (node_of E t)) \<le> MAX_KEY_BYTES
    \<and> nb \<le> shared (node_prefix (node_of E t)) (first_key t)
    \<and> nb = (case t of PLeaf k v \<Rightarrow> 8 * length k | PBranch b l r \<Rightarrow> b)"
proof (cases t)
  case (PLeaf k v)
  then show ?thesis using wf_key_length [OF assms, of k]
    by (simp add: node_prefix_bits_def node_prefix_def key_bit_len_ok)
next
  case (PBranch b l r)
  then show ?thesis using branch_bits [of b l r] assms lcp_masked_prefix [of b "first_key l"]
    by (simp add: node_prefix_bits_def node_prefix_def shared_def)
qed

lemma matches_branch:
  assumes "wf_tree (PBranch b l r)" "length key \<le> MAX_KEY_BYTES" "n \<le> b"
  shows "prefix_matches key (masked_prefix (first_key l) b) n = Inr (n \<le> shared key (first_key l))"
proof -
  note f = branch_bits [OF assms(1)]
  have "n \<le> lcp (bits_of key) (bits_of (masked_prefix (first_key l) b)) \<longleftrightarrow> n \<le> shared key (first_key l)"
    using min_lcp_masked [OF f(3), of key] assms(3) unfolding shared_def by (metis min.bounded_iff)
  then show ?thesis using assms f by (simp add: prefix_matches_ok)
qed

lemma child_path_ok:
  assumes w: "wf_tree (PBranch b l r)" and t: "t = (if rightward then r else l)"
  shows "validate_node_path (node_of E t) (child_of (masked_prefix (first_key l) b) b rightward)
    = (Inr () :: 'p patricia_error + unit)"
proof -
  note f = branch_bits [OF w]
  have wt: "wf_tree t" using w t by simp
  from node_prefix_facts [OF wt, of E] obtain nb where n:
    "node_prefix_bits (node_of E t) = (Inr nb :: 'p patricia_error + nat)"
    "length (node_prefix (node_of E t)) \<le> MAX_KEY_BYTES"
    "nb \<le> shared (node_prefix (node_of E t)) (first_key t)"
    "nb = (case t of PLeaf k v \<Rightarrow> 8 * length k | PBranch b l r \<Rightarrow> b)" by blast
  let ?p = "node_prefix (node_of E t)"
  have k: "first_key t \<in> keys t" "b < 8 * length (first_key t)" "bits_of (first_key t) ! b \<longleftrightarrow> rightward"
    "b \<le> shared (first_key l) (first_key t)"
    using t wf_left [OF w, of "first_key t"] wf_right [OF w, of "first_key t"] by (auto split: if_splits)
  have "b < nb"
  proof (cases t)
    case (PLeaf k v)
    then show ?thesis using k(2) n(4) by simp
  next
    case (PBranch b' l' r')
    then show ?thesis using wf_deeper [OF w, of b' l' r'] t n(4) by (auto split: if_splits)
  qed
  then have s: "b < shared ?p (first_key t)" using n(3) by simp
  then have "b \<le> shared ?p (first_key l)" using k(4) shared_trans [of b ?p "first_key t" "first_key l"]
    by (simp add: shared_commute)
  then have "prefix_matches ?p (masked_prefix (first_key l) b) b = (Inr True :: 'p patricia_error + bool)"
    using matches_branch [OF w n(2), of b] by simp
  moreover have "key_bit ?p b = (Inr rightward :: 'p patricia_error + bool)"
    using s shared_le(1) [of ?p "first_key t"] shared_nth [OF s] k(3) n(2) by (simp add: key_bit_ok)
  ultimately show ?thesis using \<open>b < nb\<close> n(1) by (simp add: validate_node_path_def child_of_def)
qed

lemma no_path [simp]: "validate_node_path n None = Inr ()"
  by (simp add: validate_node_path_def)

text \<open>\<open>N\<close> bits of key left at most: a node budget that suffices for tree \<open>t\<close>.\<close>

definition budget_ok :: "nat \<Rightarrow> nat \<Rightarrow> ptree \<Rightarrow> bool" where
  "budget_ok N n t \<longleftrightarrow> 1 \<le> n \<and> (\<forall>b l r. t = PBranch b l r \<longrightarrow> N + 1 \<le> n + b)"

lemma budget_start: "budget_ok N (N + 1) t" "budget_ok N (Suc N) t"
  by (simp_all add: budget_ok_def)

lemma budget_child:
  assumes "wf_tree (PBranch b l r)" "budget_ok N (Suc n) (PBranch b l r)" "b < N" "t = l \<or> t = r"
  shows "budget_ok N n t"
  using assms wf_deeper [OF assms(1)] by (fastforce simp: budget_ok_def)

section \<open>Lookup is exact\<close>

text \<open>Keys that are no proper prefix of a stored key; the code cannot tell those from damage.\<close>

definition not_inside :: "bytes \<Rightarrow> ptree \<Rightarrow> bool" where
  "not_inside key t \<longleftrightarrow> (\<forall>k \<in> keys t. k = key \<or> shared key k < 8 * length key)"

lemma lookup_loop_ok:
  assumes "stored E rd t" "wf_tree t" "length key \<le> MAX_KEY_BYTES" "not_inside key t"
    "validate_node_path (node_of E t) c = (Inr () :: 'p patricia_error + unit)" "budget_ok (8 * length key) n t"
  shows "lookup_loop (rd :: 'p node_source) key n (tree_digest E t) c = Inr (map_of (entries t) key)"
  using assms
proof (induction t arbitrary: n c)
  case (PLeaf k v)
  obtain m where "n = Suc m" using PLeaf.prems(6) by (cases n) (auto simp: budget_ok_def)
  with PLeaf show ?case by (simp add: stored_root)
next
  case (PBranch b l r)
  note w = PBranch.prems(2)
  obtain m where n: "n = Suc m" using PBranch.prems(6) by (cases n) (auto simp: budget_ok_def)
  let ?node = "node_of E (PBranch b l r)"
  have rd: "rd (tree_digest E (PBranch b l r)) = Inr ?node"
    "validate_node_path ?node c = (Inr () :: 'p patricia_error + unit)"
    using PBranch.prems(1,5) by (auto dest: stored_root)
  have pm: "prefix_matches key (masked_prefix (first_key l) b) b
      = (Inr (b \<le> shared key (first_key l)) :: 'p patricia_error + bool)"
    by (rule matches_branch [OF w PBranch.prems(3) order_refl])
  note bits = branch_bits [OF w]
  show ?case
  proof (cases "b \<le> shared key (first_key l)")
    case False
    have "key \<notin> keys (PBranch b l r)"
      using wf_left [OF w, of key] wf_right [OF w, of key] False by (auto simp: shared_commute)
    then have "map_of (entries (PBranch b l r)) key = None" by (simp add: map_of_eq_None_iff keys_def del: entries.simps)
    then show ?thesis using rd pm False bits(1) unfolding n by (simp del: entries.simps)
  next
    case True
    have len: "b < 8 * length key"
    proof -
      have "first_key l = key \<or> shared key (first_key l) < 8 * length key"
        using PBranch.prems(4) by (simp add: not_inside_def)
      then show ?thesis using True wf_left [OF w first_key_in] by auto
    qed
    let ?right = "bits_of key ! b"
    let ?t = "if ?right then r else l"
    have "lookup_loop rd key m (tree_digest E ?t) (child_of (masked_prefix (first_key l) b) b ?right)
        = Inr (map_of (entries ?t) key)"
    proof -
      have p: "stored E rd ?t" "wf_tree ?t" "not_inside key ?t"
        "validate_node_path (node_of E ?t) (child_of (masked_prefix (first_key l) b) b ?right) = (Inr () :: 'p patricia_error + unit)"
        "budget_ok (8 * length key) m ?t"
        using PBranch.prems w child_path_ok [OF w refl, where E = E and rightward = ?right] budget_child [OF w PBranch.prems(6) [unfolded n] len, of ?t]
        by (auto simp: stored_branch not_inside_def)
      show ?thesis using PBranch.IH p PBranch.prems(3) by (cases ?right) simp_all
    qed
    moreover have "map_of (entries (PBranch b l r)) key = map_of (entries ?t) key"
      using map_of_branch [OF w len] True by simp
    ultimately show ?thesis using rd pm True bits(1) len PBranch.prems(3) unfolding n
      by (simp add: key_bit_ok if_distrib [of "tree_digest E"] del: entries.simps cong: if_cong)
  qed
qed

lemma starts_with_shared: "starts_with k key \<longleftrightarrow> shared key k = 8 * length key"
proof
  assume "starts_with k key"
  then obtain zs where k: "k = key @ zs" by (auto simp: starts_with_iff)
  have "bits_of (key @ zs) = bits_of key @ bits_of zs" by (induction key) (simp_all add: bits_of_Cons)
  then show "shared key k = 8 * length key" using k lcp_ge_iff [of "8 * length key" "bits_of key" "bits_of k"] shared_le(1) [of key k]
    by (simp add: shared_def)
next
  assume s: "shared key k = 8 * length key"
  then have len: "length key \<le> length k" using shared_le(2) [of key k] by simp
  have "8 * length key \<le> lcp (bits_of key) (bits_of k)" using s by (simp add: shared_def)
  then have "take (8 * length key) (bits_of k) = bits_of key" using lcp_ge_iff [of "8 * length key" "bits_of key" "bits_of k"] by simp
  moreover have app: "bits_of (xs @ ys) = bits_of xs @ bits_of ys" for xs ys by (induction xs) (simp_all add: bits_of_Cons)
  have "take (8 * length key) (bits_of k) = bits_of (take (length key) k)"
    using app [of "take (length key) k" "drop (length key) k"] len by simp
  ultimately have "key = take (length key) k" by (simp add: bits_of_inject)
  then show "starts_with k key" by (metis append_take_drop_id starts_with_iff)
qed

text \<open>
  C28. Lookup is exact.  On a stored well-formed tree, the lookup of an admissible key returns the record's
  value, or None when there is none, for every key that is not a proper prefix of a stored key; the node
  budget always suffices.
\<close>

theorem lookup_exact:
  fixes S :: "'p patricia_store"
  assumes "stored E (read_node E S) t" "wf_tree t" "tree_digest E t \<noteq> empty_root E"
    and "key \<noteq> []" "length key \<le> 96" "\<forall>k \<in> keys t. starts_with k key \<longrightarrow> k = key"
  shows "patricia_lookup E S (tree_digest E t) key = Inr (map_of (entries t) key)"
proof -
  have "shared key k < 8 * length key" if "k \<in> keys t" "k \<noteq> key" for k
    using assms(6) that starts_with_shared [of k key] shared_le(1) [of key k] by (metis le_neq_implies_less)
  then have "not_inside key t" by (auto simp: not_inside_def)
  then have "lookup_loop (read_node E S) key (8 * length key + 1) (tree_digest E t) None = Inr (map_of (entries t) key)"
    using assms by (intro lookup_loop_ok) (simp_all add: MAX_KEY_BYTES_def budget_start)
  moreover have "validate_key key = (Inr () :: 'p patricia_error + unit)" using assms by (simp add: validate_key_Inr MAX_KEY_BYTES_def)
  ultimately show ?thesis using assms(3,5)
    by (simp add: patricia_lookup_def lookup_from_def traversal_node_budget_ok MAX_KEY_BYTES_def)
qed

text \<open>
  C39. A key that ends exactly at a branch is refused as damage, not answered with None: looking up an
  absent key of \<open>b / 8\<close> bytes that is the prefix of a branch at bit \<open>b\<close> reports a malformed store.
\<close>

theorem lookup_prefix_key_malformed:
  fixes S :: "'p patricia_store"
  assumes "stored E (read_node E S) (PBranch b l r)" "wf_tree (PBranch b l r)"
    and "tree_digest E (PBranch b l r) \<noteq> empty_root E"
    and "key \<noteq> []" "length key \<le> 96" "b = 8 * length key" "starts_with (first_key l) key"
  shows "patricia_lookup E S (tree_digest E (PBranch b l r)) key = Inl PatriciaMalformed
    \<and> map_of (entries (PBranch b l r)) key = None"
proof -
  have s: "b \<le> shared key (first_key l)" using assms(6,7) by (simp add: starts_with_shared)
  have len: "length key \<le> MAX_KEY_BYTES" using assms(5) by (simp add: MAX_KEY_BYTES_def)
  note bits = branch_bits [OF assms(2)]
  have pm: "prefix_matches key (masked_prefix (first_key l) b) b = (Inr True :: 'p patricia_error + bool)"
    using s by (simp add: matches_branch [OF assms(2) len])
  have "lookup_loop (read_node E S) key (8 * length key + 1) (tree_digest E (PBranch b l r)) None = Inl PatriciaMalformed"
    using stored_root [OF assms(1)] pm bits(1) len assms(6) by (simp add: key_bit_ok)
  moreover have "validate_key key = (Inr () :: 'p patricia_error + unit)" using assms by (simp add: validate_key_Inr MAX_KEY_BYTES_def)
  ultimately have "patricia_lookup E S (tree_digest E (PBranch b l r)) key = Inl PatriciaMalformed"
    using assms(3) len by (simp add: patricia_lookup_def lookup_from_def traversal_node_budget_ok)
  moreover have "map_of (entries (PBranch b l r)) key = None"
    using lookup_past_end [OF assms(2), of key] assms(6) by simp
  ultimately show ?thesis by blast
qed

section \<open>Traversals are exact\<close>

text \<open>One entry of the stack that stands for tree \<open>t\<close>.\<close>

definition pends :: "patricia_env \<Rightarrow> 'p node_source \<Rightarrow> digest \<times> child_path_constraint option \<times> nat \<Rightarrow> ptree \<Rightarrow> bool" where
  "pends E rd p t \<longleftrightarrow> (case p of (d, c, n) \<Rightarrow>
     stored E rd t \<and> wf_tree t \<and> d = tree_digest E t \<and> budget_ok MAX_KEY_BITS n t
     \<and> validate_node_path (node_of E t) c = (Inr () :: 'p patricia_error + unit))"

lemma pends_child:
  fixes rd :: "'p node_source"
  assumes "pends E rd (d, c, Suc n) (PBranch b l r)"
  shows "pends E rd (tree_digest E l, child_of (masked_prefix (first_key l) b) b False, n) l"
    "pends E rd (tree_digest E r, child_of (masked_prefix (first_key l) b) b True, n) r"
proof -
  have w: "wf_tree (PBranch b l r)" "budget_ok MAX_KEY_BITS (Suc n) (PBranch b l r)"
    using assms by (simp_all add: pends_def)
  have b: "b < MAX_KEY_BITS" using branch_bits(2) [OF w(1)] by (simp add: MAX_KEY_BITS_def MAX_KEY_BYTES_def)
  show "pends E rd (tree_digest E l, child_of (masked_prefix (first_key l) b) b False, n) l"
    "pends E rd (tree_digest E r, child_of (masked_prefix (first_key l) b) b True, n) r"
    using assms budget_child [OF w b] child_path_ok [OF w(1), where t = l and rightward = False and E = E]
      child_path_ok [OF w(1), where t = r and rightward = True and E = E]
    by (simp_all add: pends_def stored_branch)
qed

lemma pends_root:
  "stored E rd t \<Longrightarrow> wf_tree t \<Longrightarrow> pends E rd (tree_digest E t, None, MAX_KEY_BITS + 1) t"
  by (simp add: pends_def budget_start)

lemma pends_reads:
  fixes rd :: "'p node_source"
  assumes "pends E rd (d, c, n) t"
  shows "rd d = Inr (node_of E t)" "validate_node_path (node_of E t) c = (Inr () :: 'p patricia_error + unit)" "wf_tree t"
  using assms by (auto simp: pends_def dest: stored_root)

lemma not_pends_0 [simp]: "\<not> pends E rd (d, c, 0) t"
  by (simp add: pends_def budget_ok_def)

fun visit_entries :: "(bytes \<Rightarrow> bytes \<Rightarrow> 's \<Rightarrow> bool \<times> 's) \<Rightarrow> (bytes \<times> bytes) list \<Rightarrow> 's \<Rightarrow> 's" where
  "visit_entries visit [] s = s"
| "visit_entries visit ((k, v) # es) s =
     (case visit k v s of (go, s') \<Rightarrow> if go then visit_entries visit es s' else s')"

lemma visit_loop_ok:
  "list_all2 (pends E rd) pending ts \<Longrightarrow>
     visit_loop (rd :: 'p node_source) visit pending s = (Inr (), visit_entries visit (concat (map entries ts)) s)"
proof (induction rd visit pending s arbitrary: ts rule: visit_loop.induct)
  case (3 rd visit d c n pending s)
  from "3.prems" obtain t ts' where ts: "ts = t # ts'" "pends E rd (d, c, Suc n) t" "list_all2 (pends E rd) pending ts'"
    by (auto simp: list_all2_Cons1)
  note r = pends_reads [OF ts(2)]
  have read: "bind_res (rd d) (\<lambda>node. bind_res (validate_node_path node c) (\<lambda>_. Inr node)) = Inr (node_of E t)"
    using r by simp
  show ?case
  proof (cases t)
    case (PLeaf k v)
    show ?thesis
    proof (cases "visit k v s")
      case (Pair go s')
      then show ?thesis using read "3.IH"(1) [OF read [unfolded PLeaf node_of.simps(1)] refl] ts PLeaf by auto
    qed
  next
    case (PBranch b l r')
    note ch = pends_child [OF ts(2) [unfolded PBranch]]
    have u: "unat (word_of_nat b :: 16 word) = b" using branch_bits(1) [of b l r'] r(3) PBranch by simp
    have "visit_loop rd visit
        ((tree_digest E l, child_of (masked_prefix (first_key l) b) b False, n)
          # (tree_digest E r', child_of (masked_prefix (first_key l) b) b True, n) # pending) s
      = (Inr (), visit_entries visit (concat (map entries (l # r' # ts'))) s)"
      using "3.IH"(2) [OF read [unfolded PBranch node_of_branch], where ts = "l # r' # ts'"] ch ts(3) by (simp add: u)
    then show ?thesis using read by (simp add: PBranch u ts(1))
  qed
qed (auto simp: list_all2_Cons1)

text \<open>The visit of a stored tree sees every record exactly once, in ascending key order, until the
  visitor stops it.
\<close>

theorem visit_all_exact:
  fixes S :: "'p patricia_store"
  assumes "stored E (read_node E S) t" "wf_tree t" "tree_digest E t \<noteq> empty_root E"
  shows "visit_all E S (tree_digest E t) visit s = (Inr (), visit_entries visit (entries t) s)
    \<and> strictly_sorted (map fst (entries t))"
proof -
  have "list_all2 (pends E (read_node E S)) [(tree_digest E t, None, 8 * MAX_KEY_BYTES + 1)] [t]"
    using pends_root [OF assms(1,2)] by (simp add: MAX_KEY_BITS_def mult.commute)
  from visit_loop_ok [OF this, of visit s] show ?thesis
    using assms(3) entries_sorted [OF assms(2)]
    by (simp add: visit_all_def visit_from_def traversal_node_budget_ok)
qed

section \<open>Prefix queries are exact\<close>

definition matching :: "bytes \<Rightarrow> (bytes \<times> bytes) list \<Rightarrow> (bytes \<times> bytes) list" where
  "matching requested es = filter (\<lambda>(k, v). starts_with k requested) es"

lemma matching_simps [simp]:
  "matching q [] = []" "matching q (es @ es') = matching q es @ matching q es'"
  "matching q ((k, v) # es) = (if starts_with k q then [(k, v)] else []) @ matching q es"
  by (auto simp: matching_def)

lemma matching_none: "(\<And>k. k \<in> keys t \<Longrightarrow> \<not> starts_with k q) \<Longrightarrow> matching q (entries t) = []"
  unfolding matching_def filter_empty_conv keys_def by force

lemma matching_side:
  assumes w: "wf_tree (PBranch b l r)" and b: "b < 8 * length q"
  shows "matching q (entries (if bits_of q ! b then l else r)) = []"
proof (rule matching_none)
  fix k assume k: "k \<in> keys (if bits_of q ! b then l else r)"
  show "\<not> starts_with k q"
  proof
    assume "starts_with k q"
    then have "bits_of q ! b = bits_of k ! b" using b by (intro shared_nth) (simp add: starts_with_shared)
    with k wf_left [OF w, of k] wf_right [OF w, of k] show False by (auto split: if_splits)
  qed
qed

lemma matching_outside:
  assumes w: "wf_tree (PBranch b l r)" and b: "\<not> min b (8 * length q) \<le> shared q (first_key l)"
  shows "matching q (entries (PBranch b l r)) = []"
proof (rule matching_none)
  fix k assume k: "k \<in> keys (PBranch b l r)"
  show "\<not> starts_with k q"
  proof
    assume "starts_with k q"
    then have "min b (8 * length q) \<le> shared q k" by (simp add: starts_with_shared)
    moreover have "min b (8 * length q) \<le> shared k (first_key l)"
      using wf_shared [OF w k branch_first_in(1)] by simp
    ultimately show False using b shared_trans by blast
  qed
qed

lemma ordered_skip:
  "ordered (a @ b @ c @ d) \<Longrightarrow> ordered (a @ b @ d) \<and> ordered (a @ c @ d)"
  unfolding ordered_def map_append sorted_wrt_append set_append by blast

text \<open>
  The order of the stack: the keys still to come are above those found, so the found map is the list of
  matches so far.
\<close>

lemma collect_loop_ok:
  "list_all2 (pends E rd) pending ts \<Longrightarrow> ordered (found @ concat (map entries ts)) \<Longrightarrow> length found < limit
    \<Longrightarrow> length requested \<le> MAX_KEY_BYTES \<Longrightarrow> collect_loop (rd :: 'p node_source) requested limit pending found
        = Inr (take limit (found @ matching requested (concat (map entries ts))))"
proof (induction rd requested limit pending found arbitrary: ts rule: collect_loop.induct)
  case (3 rd q limit d c n pending found)
  from "3.prems" obtain t ts' where ts: "ts = t # ts'" "pends E rd (d, c, Suc n) t" "list_all2 (pends E rd) pending ts'"
    by (auto simp: list_all2_Cons1)
  note r = pends_reads [OF ts(2)]
  have sub: "ordered (found @ concat (map entries ts'))" using "3.prems"(2) by (auto simp: ts ordered_append)
  show ?case
  proof (cases t)
    case (PLeaf k v)
    show ?thesis
    proof (cases "starts_with k q")
      case True
      have o: "ordered (found @ (k, v) # concat (map entries ts'))" using "3.prems"(2) by (simp add: ts(1) PLeaf)
      then have f: "bt_insert k v found = found @ [(k, v)]"
        by (intro bt_insert_last) (auto simp: ordered_append)
      have ih: "length (found @ [(k, v)]) \<noteq> limit \<Longrightarrow> collect_loop rd q limit pending (found @ [(k, v)])
          = Inr (take limit ((found @ [(k, v)]) @ matching q (concat (map entries ts'))))"
        using "3.IH"(1) [OF r(1,2) [unfolded PLeaf node_of.simps(1)] refl True f [symmetric] _ ts(3)] o "3.prems"(3,4) by simp
      then show ?thesis using r True f "3.prems"(3,4)
        by (cases "Suc (length found) = limit") (auto simp: PLeaf ts(1) take_Cons' Let_def)
    next
      case False
      then show ?thesis
        using "3.IH"(2) [OF r(1,2) [unfolded PLeaf node_of.simps(1)] refl False ts(3)] sub "3.prems"(3,4) r
        by (simp add: PLeaf ts(1))
    qed
  next
    case (PBranch b l r')
    have w: "wf_tree (PBranch b l r')" using r(3) PBranch by simp
    have u: "unat (word_of_nat b :: 16 word) = b" using branch_bits(1) [OF w] .
    note ch = pends_child [OF ts(2) [unfolded PBranch]]
    note rd' = r(1,2) [unfolded PBranch node_of_branch]
    have kl: "key_bit_len q = (Inr (8 * length q) :: 'p patricia_error + nat)"
      using "3.prems"(4) by (rule key_bit_len_ok)
    have pm: "prefix_matches q (masked_prefix (first_key l) b) (min (unat (word_of_nat b :: 16 word)) (8 * length q))
        = (Inr (min b (8 * length q) \<le> shared q (first_key l)) :: 'p patricia_error + bool)"
      unfolding u by (rule matches_branch [OF w "3.prems"(4)]) simp
    show ?thesis
    proof (cases "min b (8 * length q) \<le> shared q (first_key l)")
      case False
      then show ?thesis
        using "3.IH"(3) [OF rd' refl refl kl pm _ ts(3)] sub "3.prems"(3,4) rd' kl pm matching_outside [OF w False]
        by (simp add: PBranch ts(1) Let_def del: entries.simps)
    next
      case True
      show ?thesis
      proof (cases "8 * length q \<le> b")
        case long: True
        have "collect_loop rd q limit
            ((tree_digest E l, child_of (masked_prefix (first_key l) b) b False, n)
              # (tree_digest E r', child_of (masked_prefix (first_key l) b) b True, n) # pending) found
          = Inr (take limit (found @ matching q (concat (map entries (l # r' # ts')))))"
          using "3.IH"(4) [OF rd' refl refl kl pm, where ts = "l # r' # ts'"] True long ch ts(3) "3.prems"(2,3,4)
          by (simp add: u PBranch ts(1))
        then show ?thesis using rd' kl pm True long by (simp add: PBranch ts(1) u Let_def)
      next
        case short: False
        let ?right = "bits_of q ! b"
        have kb: "key_bit q (unat (word_of_nat b :: 16 word)) = (Inr ?right :: 'p patricia_error + bool)"
          using short "3.prems"(4) by (simp add: u key_bit_ok)
        have other: "matching q (entries (if ?right then l else r')) = []" using short by (intro matching_side [OF w]) simp
        have o: "ordered (found @ entries (if ?right then r' else l) @ concat (map entries ts'))"
          using ordered_skip [of found "entries l" "entries r'" "concat (map entries ts')"] "3.prems"(2)
          by (simp add: ts(1) PBranch)
        have "collect_loop rd q limit
            ((tree_digest E (if ?right then r' else l), child_of (masked_prefix (first_key l) b) b ?right, n) # pending) found
          = Inr (take limit (found @ matching q (concat (map entries ((if ?right then r' else l) # ts')))))"
          using "3.IH"(5) [OF rd' refl refl kl pm _ _ kb, where ts = "(if ?right then r' else l) # ts'"]
            True short ch ts(3) o "3.prems"(3,4)
          by (cases ?right) (simp_all add: u)
        then show ?thesis using rd' kl pm kb True short other
          by (cases ?right) (simp_all add: PBranch ts(1) u Let_def)
      qed
    qed
  qed
qed (auto simp: list_all2_Cons1)

text \<open>
  C36. A prefix query returns exactly the first \<open>limit\<close> records, in key order, whose keys start with the
  requested bytes.
\<close>

theorem lookup_prefix_exact:
  fixes S :: "'p patricia_store"
  assumes "stored E (read_node E S) t" "wf_tree t" "tree_digest E t \<noteq> empty_root E"
    and "q \<noteq> []" "length q \<le> 96"
  shows "lookup_prefix_limited E S (tree_digest E t) q limit
    = Inr (take limit (filter (\<lambda>(k, v). starts_with k q) (entries t)))"
proof -
  have q: "length q \<le> MAX_KEY_BYTES" using assms(5) by (simp add: MAX_KEY_BYTES_def)
  have v: "validate_key q = (Inr () :: 'p patricia_error + unit)" using assms(4) q by (simp add: validate_key_Inr)
  have o: "ordered ([] @ concat (map entries [t]))" using entries_sorted [OF assms(2)] by (simp add: ordered_def strictly_sorted_iff)
  have "list_all2 (pends E (read_node E S)) [(tree_digest E t, None, 8 * MAX_KEY_BYTES + 1)] [t]"
    using pends_root [OF assms(1,2)] by (simp add: MAX_KEY_BITS_def mult.commute)
  from collect_loop_ok [OF this o _ q, of limit] v assms(3) show ?thesis
    by (cases "limit = 0") (simp_all add: lookup_prefix_limited_def prefix_from_def traversal_node_budget_ok matching_def)
qed

end
