(* ===== verification/Result_State.thy ===== *)
theory Result_State
  imports Tine_Prelude
begin

text \<open>
  Operations that change a state and may fail, as functions from a state to a result and a state:
  \<open>st_bind\<close> is the \<open>?\<close> operator between two of them, \<open>st_lift\<close> a step that leaves the state alone.
\<close>

definition st_return :: "'a \<Rightarrow> 's \<Rightarrow> ('e + 'a) \<times> 's" where
  "st_return x s = (Inr x, s)"

definition st_bind :: "('s \<Rightarrow> ('e + 'a) \<times> 's) \<Rightarrow> ('a \<Rightarrow> 's \<Rightarrow> ('e + 'b) \<times> 's) \<Rightarrow> 's \<Rightarrow> ('e + 'b) \<times> 's" where
  "st_bind m f s = (case m s of (Inl e, s') \<Rightarrow> (Inl e, s') | (Inr x, s') \<Rightarrow> f x s')"

definition st_lift :: "'e + 'a \<Rightarrow> 's \<Rightarrow> ('e + 'a) \<times> 's" where
  "st_lift r s = (r, s)"

lemma st_bind_Inr [simp]: "st_bind (st_lift (Inr x)) f = f x" "st_bind (st_return x) f = f x"
  by (simp_all add: st_bind_def st_lift_def st_return_def fun_eq_iff)

lemma st_bind_Inl [simp]: "st_bind (st_lift (Inl e)) f = st_lift (Inl e)"
  by (simp add: st_bind_def st_lift_def fun_eq_iff)

lemma st_bind_run: "m s = (Inr x, s') \<Longrightarrow> st_bind m f s = f x s'"
  by (simp add: st_bind_def)

lemma st_bind_assoc: "st_bind (st_bind m f) g = st_bind m (\<lambda>x. st_bind (f x) g)"
  by (auto simp: st_bind_def fun_eq_iff split: prod.split sum.split)

text \<open>What a run ends in: \<open>Q\<close> of the value and the state on success, \<open>E\<close> of the error and the state otherwise.\<close>

definition runs :: "('s \<Rightarrow> ('e + 'a) \<times> 's) \<Rightarrow> 's \<Rightarrow> ('a \<Rightarrow> 's \<Rightarrow> bool) \<Rightarrow> ('e \<Rightarrow> 's \<Rightarrow> bool) \<Rightarrow> bool" where
  "runs m s Q E = (case m s of (Inr x, s') \<Rightarrow> Q x s' | (Inl e, s') \<Rightarrow> E e s')"

lemma runs_bind:
  "runs m s Q' E \<Longrightarrow> (\<And>x s'. Q' x s' \<Longrightarrow> runs (f x) s' Q E) \<Longrightarrow> runs (st_bind m f) s Q E"
  by (fastforce simp: runs_def st_bind_def split: prod.splits sum.splits)

lemma runs_return [simp]: "runs (st_return x) s Q E = Q x s"
  by (simp add: runs_def st_return_def)

lemma runs_lift [simp]: "runs (st_lift (Inr x)) s Q E = Q x s" "runs (st_lift (Inl e)) s Q E = E e s"
  by (simp_all add: runs_def st_lift_def)

lemma runs_mono:
  "runs m s Q E \<Longrightarrow> (\<And>x s'. Q x s' \<Longrightarrow> Q' x s') \<Longrightarrow> (\<And>e s'. E e s' \<Longrightarrow> E' e s') \<Longrightarrow> runs m s Q' E'"
  by (auto simp: runs_def split: prod.splits sum.splits)

lemma runs_Inr: "runs m s Q E \<Longrightarrow> m s = (Inr x, s') \<Longrightarrow> Q x s'"
  by (simp add: runs_def)

lemma runs_Inl: "runs m s Q E \<Longrightarrow> m s = (Inl e, s') \<Longrightarrow> E e s'"
  by (simp add: runs_def)

lemma runs_I: "(\<And>x s'. m s = (Inr x, s') \<Longrightarrow> Q x s') \<Longrightarrow> (\<And>e s'. m s = (Inl e, s') \<Longrightarrow> E e s') \<Longrightarrow> runs m s Q E"
  by (auto simp: runs_def split: prod.splits sum.splits)

text \<open>Two continuations that agree on every value the first step can return.\<close>

lemma st_bind_agree: "(\<And>x s'. m s = (Inr x, s') \<Longrightarrow> f x s' = g x s') \<Longrightarrow> st_bind m f s = st_bind m g s"
  by (auto simp: st_bind_def split: prod.splits sum.splits)

end
