(* ===== verification/Patricia_Update.thy ===== *)
theory Patricia_Update
  imports Patricia_Index Result_State
begin

text \<open>
  The updates of \<open>src/authenticated_patricia.rs\<close>: staging of path copies, insertion, removal, and the
  publication of staged nodes.  Staging is a state of its own (\<open>staged_nodes\<close>); the store is reached
  through a host: how its state reads as a node store, and the publisher the store was given.
\<close>

section \<open>Staged nodes\<close>

record staged_nodes =
  sg_nodes :: "(digest \<times> patricia_node) list"
  sg_encoded_bytes :: nat

definition staged_default :: staged_nodes where
  "staged_default = \<lparr>sg_nodes = [], sg_encoded_bytes = 0\<rparr>"

type_synonym ('p, 'a) staging = "staged_nodes \<Rightarrow> ('p patricia_error + 'a) \<times> staged_nodes"

definition stage :: "patricia_env \<Rightarrow> patricia_node \<Rightarrow> ('p, digest) staging" where
  "stage E node st =
     (case bind_res (validate_node E node) (\<lambda>_. map_err (\<lambda>_. PatriciaMalformed) (to_vec (pe_node E) node)) of
        Inl e \<Rightarrow> (Inl e, st)
      | Inr bs \<Rightarrow>
          if length bs > CONSTRUCTION_MAX_VALID_NODE_BYTES \<or> length bs > MAX_NODE_BYTES then (Inl PatriciaMalformed, st)
          else let d = pe_sha256 E bs in
            case map_of (sg_nodes st) d of
              Some _ \<Rightarrow> (Inr d, st)
            | None \<Rightarrow>
                (case checked_add (sg_encoded_bytes st) (length bs) of
                   None \<Rightarrow> (Inl PatriciaMalformed, st)
                 | Some n \<Rightarrow> (Inr d, st\<lparr>sg_nodes := bt_insert d node (sg_nodes st), sg_encoded_bytes := n\<rparr>)))"

definition digest_node :: "patricia_env \<Rightarrow> patricia_node \<Rightarrow> 'p patricia_error + digest" where
  "digest_node E node =
     bind_res (validate_node E node) (\<lambda>_.
     bind_res (map_err (\<lambda>_. PatriciaMalformed) (to_vec (pe_node E) node)) (\<lambda>bs.
       if length bs > CONSTRUCTION_MAX_VALID_NODE_BYTES \<or> length bs > MAX_NODE_BYTES then Inl PatriciaMalformed
       else Inr (pe_sha256 E bs)))"

definition read_staged_or_persisted :: "'p node_source \<Rightarrow> staged_nodes \<Rightarrow> 'p node_source" where
  "read_staged_or_persisted rd st d = (case map_of (sg_nodes st) d of Some node \<Rightarrow> Inr node | None \<Rightarrow> rd d)"

section \<open>Insertion\<close>

record branch_frame =
  bf_prefix :: bytes
  bf_prefix_bit_len :: "16 word"
  bf_left :: digest
  bf_right :: digest
  bf_rightward :: bool

definition new_leaf :: "bytes \<Rightarrow> bytes \<Rightarrow> patricia_node" where
  "new_leaf key value = Leaf NODE_SCHEMA_VERSION key value"

definition u16_of :: "nat \<Rightarrow> 'p patricia_error + 16 word" where
  "u16_of n = (if n < 2 ^ 16 then Inr (word_of_nat n) else Inl PatriciaMalformed)"

definition stage_split ::
  "patricia_env \<Rightarrow> bytes \<Rightarrow> nat \<Rightarrow> digest \<Rightarrow> bytes \<Rightarrow> digest \<Rightarrow> ('p, digest) staging" where
  "stage_split E key shared_bits existing existing_prefix leaf =
     st_bind (st_lift (key_bit key shared_bits)) (\<lambda>key_right.
     st_bind (st_lift (key_bit existing_prefix shared_bits)) (\<lambda>existing_right.
       if key_right = existing_right then st_lift (Inl PatriciaMalformed)
       else let (l, r) = (if key_right then (existing, leaf) else (leaf, existing)) in
         st_bind (st_lift (u16_of shared_bits)) (\<lambda>bits.
           stage E (Branch NODE_SCHEMA_VERSION (masked_prefix key shared_bits) bits l r))))"

text \<open>
  The descent: the digest that replaces the node reached, and the branches passed, the last one first.
\<close>

fun insert_loop ::
  "patricia_env \<Rightarrow> 'p node_source \<Rightarrow> bytes \<Rightarrow> bytes \<Rightarrow> nat \<Rightarrow> digest \<Rightarrow> child_path_constraint option
     \<Rightarrow> branch_frame list \<Rightarrow> ('p, digest \<times> branch_frame list) staging" where
  "insert_loop E rd key value 0 d c ancestors st = (Inl PatriciaMalformed, st)"
| "insert_loop E rd key value (Suc remaining) d c ancestors st =
     st_bind (st_lift
       (bind_res (read_staged_or_persisted rd st d) (\<lambda>node.
        bind_res (validate_node_path node c) (\<lambda>_.
        bind_res (node_prefix_bits node) (\<lambda>node_bits.
        bind_res (common_prefix_bits key (node_prefix node) node_bits) (\<lambda>shared_bits.
          Inr (node, node_bits, shared_bits))))))) (\<lambda>(node, node_bits, shared_bits).
       if shared_bits < node_bits
       then st_bind (stage E (new_leaf key value)) (\<lambda>leaf.
            st_bind (stage_split E key shared_bits d (node_prefix node) leaf) (\<lambda>replacement.
              st_return (replacement, ancestors)))
       else case node of
         Leaf _ found_key found_value \<Rightarrow>
           if found_key = key
           then if found_value = value then st_return (d, ancestors)
                else st_bind (stage E (new_leaf key value)) (\<lambda>leaf. st_return (leaf, ancestors))
           else st_bind (st_lift (bind_res (key_bit_len key) (common_prefix_bits key found_key))) (\<lambda>shared_bits.
                st_bind (stage E (new_leaf key value)) (\<lambda>leaf.
                st_bind (stage_split E key shared_bits d found_key leaf) (\<lambda>replacement.
                  st_return (replacement, ancestors))))
       | Branch _ prefix bit_len l r \<Rightarrow>
           st_bind (st_lift (key_bit key (unat bit_len))) (\<lambda>rightward.
             insert_loop E rd key value remaining (if rightward then r else l)
               (child_of prefix (unat bit_len) rightward)
               (\<lparr>bf_prefix = prefix, bf_prefix_bit_len = bit_len, bf_left = l, bf_right = r,
                 bf_rightward = rightward\<rparr> # ancestors))) st"

text \<open>The path copy above a replaced child, through \<open>put\<close>: staging, or publishing at once.\<close>

fun rebuild_with ::
  "(patricia_node \<Rightarrow> 's \<Rightarrow> ('e + digest) \<times> 's) \<Rightarrow> digest \<Rightarrow> branch_frame list \<Rightarrow> 's \<Rightarrow> ('e + digest) \<times> 's" where
  "rebuild_with put child [] = st_return child"
| "rebuild_with put child (f # fs) =
     st_bind (put (Branch NODE_SCHEMA_VERSION (bf_prefix f) (bf_prefix_bit_len f)
                (if bf_rightward f then bf_left f else child) (if bf_rightward f then child else bf_right f)))
       (\<lambda>digest. rebuild_with put digest fs)"

abbreviation rebuild :: "patricia_env \<Rightarrow> digest \<Rightarrow> branch_frame list \<Rightarrow> ('p, digest) staging" where
  "rebuild E \<equiv> rebuild_with (stage E)"

definition insert_at_staged ::
  "patricia_env \<Rightarrow> 'p node_source \<Rightarrow> digest \<Rightarrow> bytes \<Rightarrow> bytes \<Rightarrow> ('p, digest) staging" where
  "insert_at_staged E rd root key value =
     st_bind (st_lift (traversal_node_budget (length key))) (\<lambda>budget.
     st_bind (insert_loop E rd key value budget root None []) (\<lambda>(replacement, ancestors).
       rebuild E replacement ancestors))"

definition insert_staged ::
  "patricia_env \<Rightarrow> 'p node_source \<Rightarrow> digest \<Rightarrow> bytes \<Rightarrow> bytes \<Rightarrow> ('p, digest) staging" where
  "insert_staged E rd root key value =
     (if root = empty_root E then stage E (new_leaf key value) else insert_at_staged E rd root key value)"

fun validate_records :: "(bytes \<times> bytes) list \<Rightarrow> 'p patricia_error + unit" where
  "validate_records [] = Inr ()"
| "validate_records ((key, value) # records) =
     bind_res (validate_record key value) (\<lambda>_. validate_records records)"

fun stage_records ::
  "patricia_env \<Rightarrow> 'p node_source \<Rightarrow> digest \<Rightarrow> (bytes \<times> bytes) list \<Rightarrow> ('p, digest) staging" where
  "stage_records E rd root [] = st_return root"
| "stage_records E rd root ((key, value) # records) =
     st_bind (insert_staged E rd root key value) (\<lambda>root'. stage_records E rd root' records)"

definition stage_many ::
  "patricia_env \<Rightarrow> 'p node_source \<Rightarrow> digest \<Rightarrow> (bytes \<times> bytes) list \<Rightarrow> 'p patricia_error + (digest \<times> staged_nodes)" where
  "stage_many E rd root records =
     bind_res (validate_records records) (\<lambda>_.
       case stage_records E rd root records staged_default of
         (Inl e, st) \<Rightarrow> Inl e
       | (Inr root', st) \<Rightarrow> Inr (root', st))"

section \<open>Reads during a construction\<close>

definition construction_lookup ::
  "patricia_env \<Rightarrow> 'p node_source \<Rightarrow> staged_nodes \<Rightarrow> digest \<Rightarrow> bytes \<Rightarrow> 'p patricia_error + bytes option" where
  "construction_lookup E rd st root key = lookup_from E (read_staged_or_persisted rd st) root key"

definition construction_validate_root ::
  "patricia_env \<Rightarrow> 'p node_source \<Rightarrow> staged_nodes \<Rightarrow> digest \<Rightarrow> 'p patricia_error + unit" where
  "construction_validate_root E rd st root =
     (if root = empty_root E then Inr ()
      else bind_res (read_staged_or_persisted rd st root) (validate_node E))"

definition construction_lookup_prefix_limited ::
  "patricia_env \<Rightarrow> 'p node_source \<Rightarrow> staged_nodes \<Rightarrow> digest \<Rightarrow> bytes \<Rightarrow> nat \<Rightarrow> 'p patricia_error + (bytes \<times> bytes) list" where
  "construction_lookup_prefix_limited E rd st root prefix limit =
     prefix_from E (read_staged_or_persisted rd st) root prefix limit"

definition construction_visit_all ::
  "patricia_env \<Rightarrow> 'p node_source \<Rightarrow> staged_nodes \<Rightarrow> digest \<Rightarrow> (bytes \<Rightarrow> bytes \<Rightarrow> 's \<Rightarrow> bool \<times> 's) \<Rightarrow> 's
     \<Rightarrow> ('p patricia_error + unit) \<times> 's" where
  "construction_visit_all E rd st root visit s = visit_from E (read_staged_or_persisted rd st) root visit s"

section \<open>Staging without collisions\<close>

text \<open>
  \<open>collision_free E N\<close>: on the finite set \<open>N\<close> of nodes an operation deals with, the digest is injective
  and none is the digest of the empty root.  \<open>node_codec E\<close>: the documented behaviour of the node codec,
  with the size bound the code's constants are chosen for.
\<close>

definition collision_free :: "patricia_env \<Rightarrow> patricia_node set \<Rightarrow> bool" where
  "collision_free E N \<longleftrightarrow> inj_on (node_digest E) N \<and> empty_root E \<notin> node_digest E ` N"

definition node_codec :: "patricia_env \<Rightarrow> bool" where
  "node_codec E \<longleftrightarrow> roundtrips (pe_node E)
     \<and> (\<forall>n. validate_node E n = (Inr () :: unit patricia_error + unit) \<longrightarrow>
          (\<exists>bs. to_vec (pe_node E) n = Inr bs \<and> length bs \<le> CONSTRUCTION_MAX_VALID_NODE_BYTES))"

definition tree_nodes :: "patricia_env \<Rightarrow> ptree \<Rightarrow> patricia_node set" where
  "tree_nodes E t = node_of E ` set (subtrees t)"

lemma tree_nodes_simps [simp]:
  "tree_nodes E (PLeaf k v) = {Leaf 1 k v}"
  "tree_nodes E (PBranch b l r) = insert (node_of E (PBranch b l r)) (tree_nodes E l \<union> tree_nodes E r)"
  by (auto simp: tree_nodes_def)

lemma tree_node_root [simp]: "node_of E t \<in> tree_nodes E t"
  by (simp add: tree_nodes_def)

lemma collision_free_mono: "collision_free E N \<Longrightarrow> M \<subseteq> N \<Longrightarrow> collision_free E M"
  by (auto simp: collision_free_def inj_on_subset)

lemma tree_digest_nonempty: "collision_free E N \<Longrightarrow> tree_nodes E t \<subseteq> N \<Longrightarrow> tree_digest E t \<noteq> empty_root E"
  using tree_node_root [of E t] unfolding collision_free_def tree_digest_def by (metis imageI subsetD)

lemma validate_record_any: "validate_record k v = (Inr () :: unit patricia_error + unit) \<Longrightarrow> validate_record k v = (Inr () :: 'p patricia_error + unit)"
  by (simp add: validate_record_Inr)

lemma validate_node_any:
  "validate_node E n = (Inr () :: unit patricia_error + unit) \<longleftrightarrow> validate_node E n = (Inr () :: 'p patricia_error + unit)"
  by (cases n) (auto simp: validate_node_def validate_record_Inr Let_def)

definition valid_node :: "patricia_env \<Rightarrow> patricia_node \<Rightarrow> bool" where
  "valid_node E n \<longleftrightarrow> validate_node E n = (Inr () :: unit patricia_error + unit)"

lemma valid_nodeD: "valid_node E n \<Longrightarrow> validate_node E n = (Inr () :: 'p patricia_error + unit)"
  using validate_node_any by (auto simp: valid_node_def)

definition staged_ok :: "patricia_env \<Rightarrow> patricia_node set \<Rightarrow> staged_nodes \<Rightarrow> bool" where
  "staged_ok E N st \<longleftrightarrow> ordered (sg_nodes st)
     \<and> (\<forall>d n. map_of (sg_nodes st) d = Some n \<longrightarrow> n \<in> N \<and> d = node_digest E n \<and> valid_node E n)"

text \<open>\<open>m\<close> more nodes can be staged before the byte count could overflow.\<close>

definition room :: "nat \<Rightarrow> staged_nodes \<Rightarrow> bool" where
  "room m st \<longleftrightarrow> sg_encoded_bytes st + m * CONSTRUCTION_MAX_VALID_NODE_BYTES < 2 ^ 64"

definition extends :: "staged_nodes \<Rightarrow> staged_nodes \<Rightarrow> bool" where
  "extends st st' \<longleftrightarrow> map_of (sg_nodes st) \<subseteq>\<^sub>m map_of (sg_nodes st')"

lemma extends_refl [simp]: "extends st st"
  and extends_trans: "extends st st' \<Longrightarrow> extends st' st'' \<Longrightarrow> extends st st''"
  by (auto simp: extends_def intro: map_le_trans)

lemma room_mono: "room m st \<Longrightarrow> k \<le> m \<Longrightarrow> room k st"
  unfolding room_def by (meson add_left_mono le_less_trans mult_le_mono1)

lemma node_digest_vec: "to_vec (pe_node E) n = Inr bs \<Longrightarrow> node_digest E n = pe_sha256 E bs"
  by (simp add: node_digest_def node_bytes_def)

lemma node_size_limit: "CONSTRUCTION_MAX_VALID_NODE_BYTES \<le> MAX_NODE_BYTES"
  by (simp add: CONSTRUCTION_MAX_VALID_NODE_BYTES_def MAX_NODE_BYTES_def MAX_VALUE_BYTES_def MAX_KEY_BYTES_def)

definition staged_step :: "patricia_env \<Rightarrow> patricia_node set \<Rightarrow> nat \<Rightarrow> staged_nodes \<Rightarrow> staged_nodes \<Rightarrow> bool" where
  "staged_step E N m st st' \<longleftrightarrow> staged_ok E N st' \<and> room m st' \<and> extends st st'"

lemma stage_ok:
  assumes "node_codec E" "collision_free E N" "valid_node E n" "n \<in> N" "staged_ok E N st" "room (Suc m) st"
  shows "\<exists>st'. stage E n st = (Inr (node_digest E n) :: 'p patricia_error + digest, st')
    \<and> staged_step E N m st st' \<and> map_of (sg_nodes st') (node_digest E n) = Some n"
proof -
  from assms(1,3) obtain bs where bs: "to_vec (pe_node E) n = Inr bs" "length bs \<le> CONSTRUCTION_MAX_VALID_NODE_BYTES"
    by (auto simp: node_codec_def valid_node_def)
  have d: "pe_sha256 E bs = node_digest E n" using node_digest_vec [OF bs(1)] by simp
  have o: "ordered (sg_nodes st)" using assms(5) by (simp add: staged_ok_def)
  show ?thesis
  proof (cases "map_of (sg_nodes st) (node_digest E n)")
    case None
    let ?st = "st\<lparr>sg_nodes := bt_insert (node_digest E n) n (sg_nodes st), sg_encoded_bytes := sg_encoded_bytes st + length bs\<rparr>"
    have sum: "sg_encoded_bytes st + length bs + m * CONSTRUCTION_MAX_VALID_NODE_BYTES < 2 ^ 64"
      using assms(6) bs(2) by (simp add: room_def)
    then have "checked_add (sg_encoded_bytes st) (length bs) = Some (sg_encoded_bytes st + length bs)"
      by (simp add: checked_add_Some)
    then have "stage E n st = (Inr (node_digest E n) :: 'p patricia_error + digest, ?st)"
      using bs d None node_size_limit valid_nodeD [OF assms(3), where 'p = 'p] by (simp add: stage_def Let_def)
    moreover have "staged_step E N m st ?st"
      using assms(3,4,5) o None sum
      by (auto simp: staged_step_def staged_ok_def room_def extends_def map_le_def split: if_splits)
    ultimately show ?thesis using o by auto
  next
    case (Some n')
    then have "n' \<in> N" "node_digest E n' = node_digest E n" using assms(5) by (auto simp: staged_ok_def)
    then have "n' = n" using assms(2,4) by (auto simp: collision_free_def dest: inj_onD)
    moreover have "stage E n st = (Inr (node_digest E n) :: 'p patricia_error + digest, st)"
      using bs d Some node_size_limit valid_nodeD [OF assms(3), where 'p = 'p] by (simp add: stage_def Let_def)
    ultimately show ?thesis using Some assms(5,6) room_mono [of "Suc m" st m] by (auto simp: staged_step_def)
  qed
qed

lemma staged_step_trans: "staged_step E N m st st' \<Longrightarrow> staged_step E N m' st' st'' \<Longrightarrow> staged_step E N m' st st''"
  by (auto simp: staged_step_def intro: extends_trans)

section \<open>Nodes of well-formed trees are valid\<close>

lemma node_prefix_bit:
  assumes "wf_tree t" "n < 8 * length (first_key t)" "\<And>b l r. t = PBranch b l r \<Longrightarrow> n < b"
  shows "n < 8 * length (node_prefix (node_of E t)) \<and> bits_of (node_prefix (node_of E t)) ! n = bits_of (first_key t) ! n
    \<and> n < shared (node_prefix (node_of E t)) (first_key t)"
proof -
  from node_prefix_facts [OF assms(1), of E, where 'p = unit] obtain nb where
    "nb \<le> shared (node_prefix (node_of E t)) (first_key t)"
    "nb = (case t of PLeaf k v \<Rightarrow> 8 * length k | PBranch b l r \<Rightarrow> b)" by blast
  then have "n < shared (node_prefix (node_of E t)) (first_key t)" using assms(2,3) by (cases t) auto
  then show ?thesis using shared_nth shared_le(1) by (metis le_less_trans linorder_not_le)
qed

lemma sides_differ:
  assumes "wf_tree (PBranch b l r)"
  shows "node_of E l \<noteq> node_of E r"
proof
  assume eq: "node_of E l = node_of E r"
  have "b < b'" if "l = PBranch b' l' r'" for b' l' r' using wf_deeper [OF assms] that by blast
  then have "bits_of (node_prefix (node_of E l)) ! b = bits_of (first_key l) ! b"
    using assms wf_left [OF assms first_key_in] by (intro node_prefix_bit [THEN conjunct2, THEN conjunct1]) auto
  moreover have "b < b'" if "r = PBranch b' l' r'" for b' l' r' using wf_deeper [OF assms] that by blast
  then have "bits_of (node_prefix (node_of E r)) ! b = bits_of (first_key r) ! b"
    using assms wf_right [OF assms first_key_in] by (intro node_prefix_bit [THEN conjunct2, THEN conjunct1]) auto
  ultimately show False using eq wf_left [OF assms first_key_in] wf_right [OF assms first_key_in] by simp
qed

lemma valid_node_of:
  assumes "wf_tree t" "collision_free E N" "tree_nodes E t \<subseteq> N"
  shows "valid_node E (node_of E t)"
proof (cases t)
  case (PLeaf k v)
  then show ?thesis using assms(1) by (simp add: valid_node_def validate_node_def NODE_SCHEMA_VERSION_def)
next
  case (PBranch b l r)
  note w = assms(1) [unfolded PBranch]
  note f = branch_bits [OF w]
  have sub: "tree_nodes E l \<subseteq> N" "tree_nodes E r \<subseteq> N" using assms(3) PBranch by auto
  have "node_of E l \<in> N" "node_of E r \<in> N" using sub tree_node_root by blast+
  then have "tree_digest E l \<noteq> tree_digest E r"
    using assms(2) sides_differ [OF w, of E] by (auto simp: collision_free_def tree_digest_def dest: inj_onD)
  moreover have "tree_digest E l \<noteq> empty_root E" "tree_digest E r \<noteq> empty_root E"
    using tree_digest_nonempty [OF assms(2)] sub by auto
  ultimately show ?thesis
    using f PBranch by (simp add: valid_node_def validate_node_def NODE_SCHEMA_VERSION_def MAX_KEY_BITS_def MAX_KEY_BYTES_def)
qed

text \<open>\<open>covered E rd st t\<close>: every node of \<open>t\<close> is staged, or belongs to a part that is persisted whole.\<close>

definition covered :: "patricia_env \<Rightarrow> 'p node_source \<Rightarrow> staged_nodes \<Rightarrow> ptree \<Rightarrow> bool" where
  "covered E rd st t \<longleftrightarrow>
     (\<forall>s \<in> set (subtrees t). map_of (sg_nodes st) (tree_digest E s) = Some (node_of E s) \<or> stored E rd s)"

lemma covered_branch:
  "covered E rd st (PBranch b l r) \<longleftrightarrow>
     (map_of (sg_nodes st) (tree_digest E (PBranch b l r)) = Some (node_of E (PBranch b l r)) \<or> stored E rd (PBranch b l r))
     \<and> covered E rd st l \<and> covered E rd st r"
  by (auto simp: covered_def)

lemma covered_leaf:
  "covered E rd st (PLeaf k v) \<longleftrightarrow>
     map_of (sg_nodes st) (tree_digest E (PLeaf k v)) = Some (Leaf 1 k v) \<or> stored E rd (PLeaf k v)"
  by (auto simp: covered_def)

lemma covered_extends: "covered E rd st t \<Longrightarrow> extends st st' \<Longrightarrow> covered E rd st' t"
  unfolding covered_def extends_def map_le_def by (metis domI)

lemma subtrees_trans: "s \<in> set (subtrees t) \<Longrightarrow> u \<in> set (subtrees s) \<Longrightarrow> u \<in> set (subtrees t)"
  by (induction t) auto

lemma stored_subtree: "stored E rd t \<Longrightarrow> s \<in> set (subtrees t) \<Longrightarrow> stored E rd s"
  by (auto simp: stored_def intro: subtrees_trans)

lemma stored_covered: "stored E rd t \<Longrightarrow> covered E rd st t"
  by (auto simp: covered_def intro: stored_subtree)

lemma covered_stored:
  assumes "covered E rd st t" "staged_ok E N st" "collision_free E N" "tree_nodes E t \<subseteq> N"
  shows "stored E (read_staged_or_persisted rd st) t"
proof -
  have "read_staged_or_persisted rd st (tree_digest E s) = Inr (node_of E s)" if s: "s \<in> set (subtrees t)" for s
  proof (cases "map_of (sg_nodes st) (tree_digest E s)")
    case None
    then have "stored E rd s" using assms(1) s by (auto simp: covered_def)
    then show ?thesis using None stored_root by (auto simp: read_staged_or_persisted_def)
  next
    case (Some n)
    then have "n \<in> N" "node_digest E n = tree_digest E s" using assms(2) by (auto simp: staged_ok_def)
    moreover have "node_of E s \<in> N" using assms(4) s by (auto simp: tree_nodes_def)
    ultimately have "n = node_of E s" using assms(3) by (auto simp: collision_free_def tree_digest_def dest: inj_onD)
    then show ?thesis using Some by (simp add: read_staged_or_persisted_def)
  qed
  then show ?thesis by (simp add: stored_def)
qed

section \<open>Insertion refines the abstract insertion\<close>

lemma NODE_SCHEMA_VERSION_1 [simp]: "NODE_SCHEMA_VERSION = 1"
  by (simp add: NODE_SCHEMA_VERSION_def)

text \<open>What the split stages: the new leaf, then the branch above it and the existing subtree.\<close>

lemma stage_join_ok:
  fixes E :: patricia_env
  assumes E: "node_codec E" "collision_free E N" and w: "wf_tree (join_leaf k v s t)"
    and nodes: "tree_nodes E (join_leaf k v s t) \<subseteq> N" and st: "staged_ok E N st" "room (m + 2) st"
    and t: "wf_tree t" "covered E rd st t" and k: "length k \<le> MAX_KEY_BYTES" "s < 8 * length k"
    and s: "shared k (first_key t) = s" "s < 8 * length (first_key t)" "\<And>b l r. t = PBranch b l r \<Longrightarrow> s < b"
  shows "\<exists>st'. st_bind (stage E (new_leaf k v)) (\<lambda>leaf.
      st_bind (stage_split E k s (tree_digest E t) (node_prefix (node_of E t)) leaf) (\<lambda>replacement. f replacement)) st
      = (f (tree_digest E (join_leaf k v s t)) :: ('p, 'a) staging) st'
    \<and> staged_step E N m st st' \<and> covered E rd st' (join_leaf k v s t)"
proof -
  let ?leaf = "PLeaf k v" and ?j = "join_leaf k v s t"
  have leaf: "wf_tree ?leaf" "tree_nodes E ?leaf \<subseteq> N" using w nodes by (auto simp: join_leaf_def split: if_splits)
  have "valid_node E (node_of E ?leaf)" by (rule valid_node_of [OF leaf(1) E(2) leaf(2)])
  then obtain st1 where st1: "stage E (new_leaf k v) st = (Inr (tree_digest E ?leaf) :: 'p patricia_error + digest, st1)"
    "staged_step E N (m + 1) st st1" "map_of (sg_nodes st1) (tree_digest E ?leaf) = Some (node_of E ?leaf)"
    using stage_ok [OF E, of "node_of E ?leaf" st "m + 1", where 'p = 'p] leaf st
    by (auto simp: new_leaf_def tree_digest_def)
  have n: "s < 8 * length (node_prefix (node_of E t))" "bits_of (node_prefix (node_of E t)) ! s = bits_of (first_key t) ! s"
    using node_prefix_bit [OF t(1) s(2,3)] by auto
  have np: "length (node_prefix (node_of E t)) \<le> MAX_KEY_BYTES"
    using node_prefix_facts [OF t(1), of E, where 'p = unit] by auto
  have diff: "bits_of (first_key t) ! s \<longleftrightarrow> \<not> bits_of k ! s" using shared_differ [of k "first_key t"] s k by auto
  have bits: "s < 2 ^ 16" using k by (simp add: MAX_KEY_BYTES_def)
  let ?ch = "if bits_of k ! s then (tree_digest E t, tree_digest E ?leaf) else (tree_digest E ?leaf, tree_digest E t)"
  have mask: "masked_prefix (first_key (if bits_of k ! s then t else ?leaf)) s = masked_prefix k s"
    using s(1) masked_prefix_cong [of s "first_key t" k] by (auto simp: shared_def lcp_commute)
  have node: "node_of E ?j = Branch 1 (masked_prefix k s) (word_of_nat s) (fst ?ch) (snd ?ch)"
    using mask by (auto simp: join_leaf_def)
  have "node_of E ?j \<in> N" using nodes tree_node_root by blast
  then obtain st2 where st2: "stage E (node_of E ?j) st1 = (Inr (tree_digest E ?j) :: 'p patricia_error + digest, st2)"
    "staged_step E N m st1 st2" "map_of (sg_nodes st2) (tree_digest E ?j) = Some (node_of E ?j)"
    using stage_ok [OF E valid_node_of [OF w E(2) nodes], of st1 m, where 'p = 'p] st1(2)
    by (auto simp: staged_step_def tree_digest_def)
  have split: "stage_split E k s (tree_digest E t) (node_prefix (node_of E t)) (tree_digest E ?leaf) st1
      = (Inr (tree_digest E ?j) :: 'p patricia_error + digest, st2)"
    using st2(1) k n np diff bits unfolding node
    by (cases "bits_of k ! s") (simp_all add: stage_split_def key_bit_ok u16_of_def)
  have c: "covered E rd st2 t" "covered E rd st2 ?leaf"
    using covered_extends [OF t(2), of st2] st1(2,3) st2(2) covered_extends [of E rd st1 ?leaf st2]
    by (auto simp: staged_step_def covered_leaf intro: extends_trans)
  have "covered E rd st2 ?j"
    using c st2(3) by (simp add: join_leaf_def covered_branch split: if_splits)
  moreover have "staged_step E N m st st2" using staged_step_trans [OF st1(2) st2(2)] .
  ultimately show ?thesis using split st1(1) by (auto simp: st_bind_def)
qed

lemma tinsert_first:
  assumes "wf_tree (PBranch b l r)" "wf_tree (PBranch b (tinsert k v l) r)"
    "first_key (tinsert k v l) \<in> insert k (keys l)" "b \<le> shared k (first_key l)"
  shows "masked_prefix (first_key (tinsert k v l)) b = masked_prefix (first_key l) b"
proof -
  have "b \<le> shared (first_key (tinsert k v l)) (first_key l)"
    using assms(3,4) wf_left [OF assms(1), of "first_key (tinsert k v l)"] by (auto simp: shared_commute)
  then show ?thesis by (intro masked_prefix_cong) (simp add: shared_def)
qed

lemma shared_node_prefix:
  assumes "wf_tree t"
  shows "min (case t of PLeaf k' v' \<Rightarrow> 8 * length k' | PBranch b l r \<Rightarrow> b) (shared k (node_prefix (node_of E t)))
    = min (case t of PLeaf k' v' \<Rightarrow> 8 * length k' | PBranch b l r \<Rightarrow> b) (shared k (first_key t))"
proof (cases t)
  case (PBranch b l r)
  then show ?thesis using min_lcp_masked [OF branch_bits(3), of b l r k] assms by (simp add: node_prefix_def shared_def)
qed (simp add: node_prefix_def)

definition node_bits :: "ptree \<Rightarrow> nat" where
  "node_bits t = (case t of PLeaf k v \<Rightarrow> 8 * length k | PBranch b l r \<Rightarrow> b)"

text \<open>The reads of one step of the descent.\<close>

lemma descend_reads:
  assumes "stored E rd t" "wf_tree t" "length k \<le> MAX_KEY_BYTES"
    "validate_node_path (node_of E t) c = (Inr () :: 'p patricia_error + unit)"
  shows "bind_res (rd (tree_digest E t)) (\<lambda>node. bind_res (validate_node_path node c) (\<lambda>_.
      bind_res (node_prefix_bits node) (\<lambda>nb. bind_res (common_prefix_bits k (node_prefix node) nb) (\<lambda>sh.
        Inr (node, nb, sh)))))
    = (Inr (node_of E t, node_bits t, min (node_bits t) (shared k (first_key t))) :: 'p patricia_error + _)"
proof -
  from node_prefix_facts [OF assms(2), of E, where 'p = 'p] have n:
    "node_prefix_bits (node_of E t) = (Inr (node_bits t) :: 'p patricia_error + nat)"
    "length (node_prefix (node_of E t)) \<le> MAX_KEY_BYTES"
    by (auto simp: node_bits_def)
  have "common_prefix_bits k (node_prefix (node_of E t)) (node_bits t)
      = (Inr (min (node_bits t) (shared k (first_key t))) :: 'p patricia_error + nat)"
    using common_prefix_bits_ok [OF assms(3) n(2), of "node_bits t"] shared_node_prefix [OF assms(2), of k E]
    by (simp add: shared_def node_bits_def)
  then show ?thesis using stored_root [OF assms(1)] assms(4) n by simp
qed

lemma insert_loop_split:
  assumes "bind_res (read_staged_or_persisted rd st d) (\<lambda>node. bind_res (validate_node_path node c) (\<lambda>_.
      bind_res (node_prefix_bits node) (\<lambda>nb. bind_res (common_prefix_bits k (node_prefix node) nb) (\<lambda>sh.
        Inr (node, nb, sh))))) = Inr (node, nb, s)" "s < nb"
  shows "st_bind (insert_loop E rd k v (Suc n) d c A) (\<lambda>(rep, anc). rebuild E rep anc) st
    = st_bind (stage E (new_leaf k v)) (\<lambda>leaf. st_bind (stage_split E k s d (node_prefix node) leaf)
        (\<lambda>rep. rebuild E rep A)) st"
  using assms by (auto simp: st_bind_def st_lift_def st_return_def split: prod.split sum.split)

declare tinsert.simps(2) [simp del]

lemma insert_loop_ok:
  fixes rd :: "'p node_source"
  assumes E: "node_codec E" "collision_free E N" and k: "validate_record k v = (Inr () :: unit patricia_error + unit)"
  shows "covered E rd st t \<Longrightarrow> wf_tree t \<Longrightarrow> (\<And>k'. k' \<in> keys t \<Longrightarrow> apart k k') \<Longrightarrow>
    tree_nodes E t \<subseteq> N \<Longrightarrow> tree_nodes E (tinsert k v t) \<subseteq> N \<Longrightarrow>
    validate_node_path (node_of E t) c = (Inr () :: 'p patricia_error + unit) \<Longrightarrow> budget_ok (8 * length k) n t \<Longrightarrow>
    staged_ok E N st \<Longrightarrow> room ((q + length A) + n + 2) st \<Longrightarrow>
    \<exists>st'. st_bind (insert_loop E rd k v n (tree_digest E t) c A) (\<lambda>(rep, anc). rebuild E rep anc) st
        = rebuild E (tree_digest E (tinsert k v t)) A st'
      \<and> staged_step E N (q + length A) st st' \<and> covered E rd st' (tinsert k v t)"
proof (induction t arbitrary: c n A)
  case (PLeaf k' v')
  note p = PLeaf.prems
  obtain m where n: "n = Suc m" using p(7) by (cases n) (auto simp: budget_ok_def)
  have len: "length k \<le> MAX_KEY_BYTES" using k by (simp add: validate_record_Inr)
  note reads = descend_reads [OF covered_stored [OF p(1) p(8) E(2) p(4)] p(2) len p(6)]
  show ?case
  proof (cases "k' = k")
    case True
    then have rd': "bind_res (read_staged_or_persisted rd st (tree_digest E (PLeaf k' v'))) (\<lambda>node.
        bind_res (validate_node_path node c) (\<lambda>_. bind_res (node_prefix_bits node) (\<lambda>nb.
        bind_res (common_prefix_bits k (node_prefix node) nb) (\<lambda>sh. Inr (node, nb, sh)))))
      = (Inr (Leaf 1 k v', 8 * length k, 8 * length k) :: 'p patricia_error + _)"
      using reads by (simp add: node_bits_def)
    show ?thesis
    proof (cases "v' = v")
      case True
      have "staged_step E N (q + length A) st st"
        using p(8,9) room_mono [of "(q + length A) + n + 2" st "q + length A"] by (simp add: staged_step_def)
      then show ?thesis using rd' True \<open>k' = k\<close> p(1) by (auto simp: n st_bind_def st_lift_def st_return_def)
    next
      case False
      have "valid_node E (node_of E (PLeaf k v))"
        using \<open>k' = k\<close> k p(5) by (intro valid_node_of [OF _ E(2)]) simp_all
      then obtain st1 where st1: "stage E (new_leaf k v) st = (Inr (tree_digest E (PLeaf k v)) :: 'p patricia_error + digest, st1)"
        "staged_step E N (q + length A) st st1" "map_of (sg_nodes st1) (tree_digest E (PLeaf k v)) = Some (Leaf 1 k v)"
        using stage_ok [OF E, of "node_of E (PLeaf k v)" st "q + length A", where 'p = 'p] p(5,8) \<open>k' = k\<close>
          room_mono [OF p(9), of "Suc (q + length A)"]
        by (auto simp: new_leaf_def tree_digest_def)
      then show ?thesis using rd' False \<open>k' = k\<close>
        by (auto simp: n st_bind_def st_lift_def st_return_def covered_leaf)
    qed
  next
    case False
    let ?s = "shared k k'"
    have s: "?s < 8 * length k" "?s < 8 * length k'" using p(3) [of k'] False by (auto simp: apart_def)
    have rd': "bind_res (read_staged_or_persisted rd st (tree_digest E (PLeaf k' v'))) (\<lambda>node.
        bind_res (validate_node_path node c) (\<lambda>_. bind_res (node_prefix_bits node) (\<lambda>nb.
        bind_res (common_prefix_bits k (node_prefix node) nb) (\<lambda>sh. Inr (node, nb, sh)))))
      = (Inr (node_of E (PLeaf k' v'), 8 * length k', ?s) :: 'p patricia_error + _)"
      using reads s by (simp add: node_bits_def)
    have j: "tinsert k v (PLeaf k' v') = join_leaf k v ?s (PLeaf k' v')" using False by simp
    have w: "wf_tree (join_leaf k v ?s (PLeaf k' v'))"
      using wf_tinsert [OF p(2) k p(3)] unfolding j by blast
    then show ?thesis
      using stage_join_ok [OF E w, of st "q + length A" rd "\<lambda>rep. rebuild E rep A"] p j s len room_mono [OF p(9), of "(q + length A) + 2"]
      unfolding n insert_loop_split [OF rd' s(2)] by auto
  qed
next
  case (PBranch b l r)
  note p = PBranch.prems
  note w = p(2)
  obtain m where n: "n = Suc m" using p(7) by (cases n) (auto simp: budget_ok_def)
  have len: "length k \<le> MAX_KEY_BYTES" using k by (simp add: validate_record_Inr)
  note reads = descend_reads [OF covered_stored [OF p(1) p(8) E(2) p(4)] w len p(6)]
  let ?t = "PBranch b l r" and ?s = "shared k (first_key l)"
  have wi: "wf_tree (tinsert k v ?t)" using wf_tinsert [OF w k p(3)] by blast
  show ?case
  proof (cases "?s < b")
    case True
    have j: "tinsert k v ?t = join_leaf k v ?s ?t" using True by (simp add: tinsert.simps(2) Let_def)
    have "k \<noteq> first_key l"
    proof
      assume "k = first_key l"
      then show False using True wf_left [OF w first_key_in] by simp
    qed
    then have s: "?s < 8 * length k" "?s < 8 * length (first_key l)" using p(3) [of "first_key l"] by (auto simp: apart_def)
    have rd': "bind_res (read_staged_or_persisted rd st (tree_digest E ?t)) (\<lambda>node.
        bind_res (validate_node_path node c) (\<lambda>_. bind_res (node_prefix_bits node) (\<lambda>nb.
        bind_res (common_prefix_bits k (node_prefix node) nb) (\<lambda>sh. Inr (node, nb, sh)))))
      = (Inr (node_of E ?t, b, ?s) :: 'p patricia_error + _)"
      using reads True by (simp add: node_bits_def min_def del: node_of_branch)
    show ?thesis
      using stage_join_ok [OF E wi [unfolded j], of st "q + length A" rd "\<lambda>rep. rebuild E rep A"] p j s len True
        room_mono [OF p(9), of "(q + length A) + 2"]
      unfolding n insert_loop_split [OF rd' True] by auto
  next
    case False
    then have s: "b \<le> shared (first_key l) k" by (simp add: shared_commute)
    have b: "b < 8 * length k" using False p(3) by (intro branch_reached [OF w]) auto
    let ?right = "bits_of k ! b"
    let ?c = "if ?right then r else l"
    let ?p = "masked_prefix (first_key l) b"
    let ?f = "\<lparr>bf_prefix = ?p, bf_prefix_bit_len = word_of_nat b, bf_left = tree_digest E l, bf_right = tree_digest E r,
      bf_rightward = ?right\<rparr>"
    have rd': "bind_res (read_staged_or_persisted rd st (tree_digest E ?t)) (\<lambda>node.
        bind_res (validate_node_path node c) (\<lambda>_. bind_res (node_prefix_bits node) (\<lambda>nb.
        bind_res (common_prefix_bits k (node_prefix node) nb) (\<lambda>sh. Inr (node, nb, sh)))))
      = (Inr (node_of E ?t, b, b) :: 'p patricia_error + _)"
      using reads False by (simp add: node_bits_def min_def del: node_of_branch)
    have ins: "tinsert k v ?t = (if ?right then PBranch b l (tinsert k v r) else PBranch b (tinsert k v l) r)"
      using False by (simp add: tinsert.simps(2) Let_def)
    have kb: "key_bit k (unat (word_of_nat b :: 16 word)) = (Inr ?right :: 'p patricia_error + bool)"
      using b len branch_bits(1) [OF w] by (simp add: key_bit_ok)
    have step: "st_bind (insert_loop E rd k v n (tree_digest E ?t) c A) (\<lambda>(rep, anc). rebuild E rep anc) st
      = st_bind (insert_loop E rd k v m (tree_digest E ?c) (child_of ?p b ?right) (?f # A)) (\<lambda>(rep, anc). rebuild E rep anc) st"
      unfolding n using rd' kb branch_bits(1) [OF w]
      by (cases ?right) (simp_all add: st_bind_def st_lift_def)
    have path: "validate_node_path (node_of E ?c) (child_of ?p b ?right) = (Inr () :: 'p patricia_error + unit)"
      by (rule child_path_ok [OF w refl])
    have bud: "budget_ok (8 * length k) m ?c" using budget_child [OF w p(7) [unfolded n] b, of ?c] by auto
    have sub: "covered E rd st ?c" "wf_tree ?c" "\<And>k'. k' \<in> keys ?c \<Longrightarrow> apart k k'" "tree_nodes E ?c \<subseteq> N"
      "tree_nodes E (tinsert k v ?c) \<subseteq> N"
      using p(1-5) ins by (auto simp: covered_branch split: if_splits)
    have "room ((q + length (?f # A)) + m + 2) st" using p(9) by (simp add: n)
    then obtain st1 where st1: "st_bind (insert_loop E rd k v m (tree_digest E ?c) (child_of ?p b ?right) (?f # A))
        (\<lambda>(rep, anc). rebuild E rep anc) st = rebuild E (tree_digest E (tinsert k v ?c)) (?f # A) st1"
      "staged_step E N (Suc (q + length A)) st st1" "covered E rd st1 (tinsert k v ?c)"
      using PBranch.IH(1) [of "child_of ?p b ?right" m "?f # A"] PBranch.IH(2) [of "child_of ?p b ?right" m "?f # A"]
        sub path bud p(8)
      by (cases ?right) auto
    have wc: "wf_tree (tinsert k v l) \<and> set (entries (tinsert k v l)) = insert (k, v) {e \<in> set (entries l). fst e \<noteq> k}"
      using w p(3) by (intro wf_tinsert k) auto
    have fk: "first_key (tinsert k v l) \<in> insert k (keys l)"
      using first_key_in [of "tinsert k v l"] wc by (auto simp: keys_def)
    have mask: "\<not> ?right \<Longrightarrow> masked_prefix (first_key (tinsert k v l)) b = ?p"
      using tinsert_first [OF w _ fk] wi False ins by auto
    have node: "Branch 1 ?p (word_of_nat b) (if ?right then tree_digest E l else tree_digest E (tinsert k v ?c))
        (if ?right then tree_digest E (tinsert k v ?c) else tree_digest E r) = node_of E (tinsert k v ?t)"
      using ins mask by (cases ?right) auto
    have "staged_ok E N st1" "room (Suc (q + length A)) st1" using st1(2) by (simp_all add: staged_step_def)
    then obtain st2 where st2: "stage E (node_of E (tinsert k v ?t)) st1
        = (Inr (tree_digest E (tinsert k v ?t)) :: 'p patricia_error + digest, st2)"
      "staged_step E N (q + length A) st1 st2" "map_of (sg_nodes st2) (tree_digest E (tinsert k v ?t)) = Some (node_of E (tinsert k v ?t))"
      using stage_ok [OF E valid_node_of [OF wi E(2) p(5)] subsetD [OF p(5) tree_node_root], of st1 "q + length A", where 'p = 'p]
      unfolding tree_digest_def by blast
    have "rebuild E (tree_digest E (tinsert k v ?c)) (?f # A) st1
      = (rebuild E (tree_digest E (tinsert k v ?t)) A :: ('p, digest) staging) st2"
    proof -
      have rb: "(rebuild E (tree_digest E (tinsert k v ?c)) (?f # A) :: ('p, digest) staging)
        = st_bind (stage E (node_of E (tinsert k v ?t))) (\<lambda>d. rebuild E d A)"
        unfolding node [symmetric] by simp
      show ?thesis unfolding rb st_bind_def using st2(1) by simp
    qed
    moreover have "covered E rd st2 (tinsert k v ?t)"
    proof -
      have e: "extends st1 st2" "extends st st2"
        using st1(2) st2(2) by (auto simp: staged_step_def intro: extends_trans)
      have lr: "covered E rd st l" "covered E rd st r" using p(1) by (simp_all add: covered_branch)
      have "covered E rd st2 l" "covered E rd st2 r" "covered E rd st2 (tinsert k v ?c)"
        by (rule covered_extends [OF lr(1) e(2)], rule covered_extends [OF lr(2) e(2)], rule covered_extends [OF st1(3) e(1)])
      then show ?thesis using st2(3) ins by (cases ?right) (simp_all add: covered_branch)
    qed
    ultimately show ?thesis using step st1(1) staged_step_trans [OF st1(2) st2(2)] by auto
  qed
qed

section \<open>Insertion of records\<close>

definition nodes_opt :: "patricia_env \<Rightarrow> ptree option \<Rightarrow> patricia_node set" where
  "nodes_opt E t = (case t of None \<Rightarrow> {} | Some t \<Rightarrow> tree_nodes E t)"

definition covered_opt :: "patricia_env \<Rightarrow> 'p node_source \<Rightarrow> staged_nodes \<Rightarrow> ptree option \<Rightarrow> bool" where
  "covered_opt E rd st t = (case t of None \<Rightarrow> True | Some t \<Rightarrow> covered E rd st t)"

definition stored_opt :: "patricia_env \<Rightarrow> 'p node_source \<Rightarrow> ptree option \<Rightarrow> bool" where
  "stored_opt E rd t = (case t of None \<Rightarrow> True | Some t \<Rightarrow> stored E rd t)"

lemma opt_tree_simps [simp]:
  "nodes_opt E None = {}" "nodes_opt E (Some t) = tree_nodes E t"
  "covered_opt E rd st None" "covered_opt E rd st (Some t) = covered E rd st t"
  "stored_opt E rd None" "stored_opt E rd (Some t) = stored E rd t"
  "root_of E None = empty_root E" "root_of E (Some t) = tree_digest E t"
  by (simp_all add: nodes_opt_def covered_opt_def stored_opt_def root_of_def)

text \<open>The tree after inserting records one by one, and the nodes of all the trees passed through.\<close>

fun tinsert_all :: "(bytes \<times> bytes) list \<Rightarrow> ptree option \<Rightarrow> ptree option" where
  "tinsert_all [] t = t"
| "tinsert_all ((k, v) # records) t = tinsert_all records (tinsert_opt k v t)"

fun passed_nodes :: "patricia_env \<Rightarrow> (bytes \<times> bytes) list \<Rightarrow> ptree option \<Rightarrow> patricia_node set" where
  "passed_nodes E [] t = nodes_opt E t"
| "passed_nodes E ((k, v) # records) t = nodes_opt E t \<union> passed_nodes E records (tinsert_opt k v t)"

lemma passed_start: "nodes_opt E t \<subseteq> passed_nodes E records t"
  by (cases "(E, records, t)" rule: passed_nodes.cases) auto

text \<open>No insertion stages more than this many nodes.\<close>

definition STAGES_PER_INSERT :: nat where "STAGES_PER_INSERT = 771"

lemma insert_staged_ok:
  fixes rd :: "'p node_source"
  assumes E: "node_codec E" "collision_free E N" and k: "validate_record k v = (Inr () :: unit patricia_error + unit)"
    and t: "covered_opt E rd st t" "wf_opt t" "prefix_free (insert k (dom (content t)))"
    and nodes: "nodes_opt E t \<subseteq> N" "nodes_opt E (tinsert_opt k v t) \<subseteq> N"
    and st: "staged_ok E N st" "room (q + STAGES_PER_INSERT) st"
  shows "\<exists>st'. insert_staged E rd (root_of E t) k v st
      = (Inr (root_of E (tinsert_opt k v t)) :: 'p patricia_error + digest, st')
    \<and> staged_step E N q st st' \<and> covered_opt E rd st' (tinsert_opt k v t)"
proof (cases t)
  case None
  have "valid_node E (node_of E (PLeaf k v))"
    using k nodes(2) by (intro valid_node_of [OF _ E(2)]) (simp_all add: tinsert_opt_def None)
  moreover have "room (Suc q) st" using st(2) by (rule room_mono) (simp add: STAGES_PER_INSERT_def)
  ultimately obtain st1 where "stage E (new_leaf k v) st = (Inr (tree_digest E (PLeaf k v)) :: 'p patricia_error + digest, st1)"
    "staged_step E N q st st1" "map_of (sg_nodes st1) (tree_digest E (PLeaf k v)) = Some (Leaf 1 k v)"
    using stage_ok [OF E, of "node_of E (PLeaf k v)" st q, where 'p = 'p] nodes(2) st(1)
    by (auto simp: new_leaf_def tree_digest_def tinsert_opt_def None)
  then show ?thesis by (simp add: None insert_staged_def tinsert_opt_def covered_leaf)
next
  case (Some u)
  have len: "length k \<le> MAX_KEY_BYTES" using k by (simp add: validate_record_Inr)
  have ne: "tree_digest E u \<noteq> empty_root E" using tree_digest_nonempty [OF E(2)] nodes(1) Some by simp
  have ap: "\<And>k'. k' \<in> keys u \<Longrightarrow> apart k k'" using t(3) Some by (simp add: prefix_free_def dom_content)
  have rm: "room ((q + length []) + (8 * length k + 1) + 2) st"
    using st(2) by (rule room_mono) (use len in \<open>simp add: STAGES_PER_INSERT_def MAX_KEY_BYTES_def\<close>)
  from insert_loop_ok [OF E k _ _ ap _ _ _ budget_start(1) st(1) rm, where c = None and t = u and rd = rd]
  obtain st' where
    "st_bind (insert_loop E rd k v (8 * length k + 1) (tree_digest E u) None []) (\<lambda>(rep, anc). rebuild E rep anc) st
      = rebuild E (tree_digest E (tinsert k v u)) [] st'"
    "staged_step E N q st st'" "covered E rd st' (tinsert k v u)"
    using t nodes Some by (auto simp: tinsert_opt_def)
  then show ?thesis
    using ne len by (simp add: Some insert_staged_def insert_at_staged_def tinsert_opt_def traversal_node_budget_ok st_return_def)
qed

definition admissible :: "(bytes \<times> bytes) list \<Rightarrow> (bytes \<rightharpoonup> bytes) \<Rightarrow> bool" where
  "admissible records m \<longleftrightarrow> validate_records records = (Inr () :: unit patricia_error + unit)
     \<and> prefix_free (fst ` set records \<union> dom m)"

lemma validate_records_any:
  "validate_records records = (Inr () :: unit patricia_error + unit) \<Longrightarrow> validate_records records = (Inr () :: 'p patricia_error + unit)"
  by (induction records rule: validate_records.induct) (auto simp: bind_res_Inr validate_record_Inr)

lemma prefix_free_mono: "prefix_free K \<Longrightarrow> J \<subseteq> K \<Longrightarrow> prefix_free J"
  by (auto simp: prefix_free_def)

lemma tinsert_all_ok:
  "wf_opt t \<Longrightarrow> admissible records (content t) \<Longrightarrow>
     wf_opt (tinsert_all records t) \<and> content (tinsert_all records t) = content t ++ map_of (rev records)"
proof (induction records t rule: tinsert_all.induct)
  case (2 k v records t)
  have r: "validate_record k v = (Inr () :: unit patricia_error + unit)"
    "validate_records records = (Inr () :: unit patricia_error + unit)"
    using "2.prems"(2) by (auto simp: admissible_def bind_res_Inr)
  have pf: "prefix_free (insert k (dom (content t)))"
    using "2.prems"(2) by (auto simp: admissible_def intro: prefix_free_mono)
  note i = wf_tinsert_opt [OF "2.prems"(1) r(1) pf]
  have adm: "admissible records (content (tinsert_opt k v t))"
    using "2.prems"(2) r(2) unfolding i(2) by (auto simp: admissible_def intro: prefix_free_mono)
  have u: "(content t)(k \<mapsto> v) ++ m = content t ++ ([k \<mapsto> v] ++ m)" for m :: "bytes \<rightharpoonup> bytes"
    by (auto simp: map_add_def fun_eq_iff split: option.split)
  from "2.IH" [OF i(1) adm] show ?case unfolding i(2) u by simp
qed simp

lemma stage_records_ok:
  fixes rd :: "'p node_source"
  assumes E: "node_codec E" "collision_free E N"
  shows "wf_opt t \<Longrightarrow> admissible records (content t) \<Longrightarrow> covered_opt E rd st t \<Longrightarrow> passed_nodes E records t \<subseteq> N
    \<Longrightarrow> staged_ok E N st \<Longrightarrow> room (length records * STAGES_PER_INSERT) st
    \<Longrightarrow> \<exists>st'. stage_records E rd (root_of E t) records st
          = (Inr (root_of E (tinsert_all records t)) :: 'p patricia_error + digest, st')
        \<and> staged_ok E N st' \<and> covered_opt E rd st' (tinsert_all records t)"
proof (induction records arbitrary: t st)
  case Nil
  then show ?case by (simp add: st_return_def)
next
  case (Cons e records)
  obtain k v where e: "e = (k, v)" by force
  note p = Cons.prems [unfolded e]
  have r: "validate_record k v = (Inr () :: unit patricia_error + unit)"
    "validate_records records = (Inr () :: unit patricia_error + unit)"
    using p(2) by (auto simp: admissible_def bind_res_Inr)
  have pf: "prefix_free (insert k (dom (content t)))" using p(2) by (auto simp: admissible_def intro: prefix_free_mono)
  note i = wf_tinsert_opt [OF p(1) r(1) pf]
  have adm: "admissible records (content (tinsert_opt k v t))"
    using p(2) r(2) unfolding i(2) by (auto simp: admissible_def intro: prefix_free_mono)
  have n: "nodes_opt E t \<subseteq> N" "passed_nodes E records (tinsert_opt k v t) \<subseteq> N" "nodes_opt E (tinsert_opt k v t) \<subseteq> N"
    using p(4) passed_start [of E "tinsert_opt k v t" records] by auto
  have rm: "room (length records * STAGES_PER_INSERT + STAGES_PER_INSERT) st" using p(6) by (simp add: add.commute)
  from insert_staged_ok [OF E r(1) p(3,1) pf n(1,3) p(5) rm] obtain st1 where
    st1: "insert_staged E rd (root_of E t) k v st = (Inr (root_of E (tinsert_opt k v t)) :: 'p patricia_error + digest, st1)"
    "staged_step E N (length records * STAGES_PER_INSERT) st st1" "covered_opt E rd st1 (tinsert_opt k v t)" by blast
  then have "staged_ok E N st1" "room (length records * STAGES_PER_INSERT) st1" by (simp_all add: staged_step_def)
  from Cons.IH [OF i(1) adm st1(3) n(2) this] st1(1) show ?case by (auto simp: e st_bind_def)
qed

end
