(* ===== verification/Patricia_Publish.thy ===== *)
theory Patricia_Publish
  imports Patricia_Update
begin

text \<open>
  Publication and removal in \<open>src/authenticated_patricia.rs\<close>.  The store is reached through a host: how its
  state reads as a node store, the publisher it was given and the outcome of taking the shared lock.  The
  publishers modelled are those that do not opt into packed head transitions (the trait's default), so
  nodes are published loose.
\<close>

section \<open>The host\<close>

record ('p, 's) node_host =
  nh_view :: "'s \<Rightarrow> 'p patricia_store"
  nh_publish :: "bytes \<Rightarrow> bytes \<Rightarrow> 's \<Rightarrow> ('p + unit) \<times> 's"
  nh_lock_shared :: "'s \<Rightarrow> 'p patricia_error + unit"

definition publish_node :: "patricia_env \<Rightarrow> ('p, 's) node_host \<Rightarrow> patricia_node \<Rightarrow> 's \<Rightarrow> ('p patricia_error + digest) \<times> 's" where
  "publish_node E host node s =
     (case bind_res (validate_node E node) (\<lambda>_. map_err (\<lambda>_. PatriciaMalformed) (to_vec (pe_node E) node)) of
        Inl e \<Rightarrow> (Inl e, s)
      | Inr bs \<Rightarrow>
          if length bs > MAX_NODE_BYTES then (Inl PatriciaMalformed, s)
          else let d = pe_sha256 E bs in
            case nh_publish host (node_filename d) bs s of
              (Inl e, s') \<Rightarrow> (Inl (PatriciaPublication e), s')
            | (Inr _, s') \<Rightarrow> (Inr d, s'))"

section \<open>Removal\<close>

text \<open>The descent: \<open>None\<close> when the key is absent, otherwise the branches above its leaf, the last one first.\<close>

fun remove_loop ::
  "'p node_source \<Rightarrow> bytes \<Rightarrow> nat \<Rightarrow> digest \<Rightarrow> child_path_constraint option \<Rightarrow> branch_frame list
     \<Rightarrow> 'p patricia_error + branch_frame list option" where
  "remove_loop rd key 0 d c ancestors = Inl PatriciaMalformed"
| "remove_loop rd key (Suc remaining) d c ancestors =
     bind_res (rd d) (\<lambda>node.
     bind_res (validate_node_path node c) (\<lambda>_.
       case node of
         Leaf _ found _ \<Rightarrow> Inr (if found \<noteq> key then None else Some ancestors)
       | Branch _ prefix bit_len l r \<Rightarrow>
           let split = unat bit_len in
           bind_res (prefix_matches key prefix split) (\<lambda>matches.
             if \<not> matches then Inr None
             else bind_res (key_bit key split) (\<lambda>rightward.
               remove_loop rd key remaining (if rightward then r else l) (child_of prefix split rightward)
                 (\<lparr>bf_prefix = prefix, bf_prefix_bit_len = bit_len, bf_left = l, bf_right = r,
                   bf_rightward = rightward\<rparr> # ancestors)))))"

text \<open>Removal with the path copies put through \<open>put\<close>; the code has the two instances below.\<close>

definition remove_with ::
  "patricia_env \<Rightarrow> 'p node_source \<Rightarrow> (patricia_node \<Rightarrow> 's \<Rightarrow> ('p patricia_error + digest) \<times> 's)
     \<Rightarrow> digest \<Rightarrow> bytes \<Rightarrow> 's \<Rightarrow> ('p patricia_error + digest) \<times> 's" where
  "remove_with E rd put root key s =
     (if root = empty_root E then (Inr root, s)
      else case bind_res (traversal_node_budget (length key)) (\<lambda>budget. remove_loop rd key budget root None []) of
        Inl e \<Rightarrow> (Inl e, s)
      | Inr None \<Rightarrow> (Inr root, s)
      | Inr (Some []) \<Rightarrow> (Inr (empty_root E), s)
      | Inr (Some (parent # ancestors)) \<Rightarrow>
          rebuild_with put (if bf_rightward parent then bf_left parent else bf_right parent) ancestors s)"

definition remove_key ::
  "patricia_env \<Rightarrow> ('p, 's) node_host \<Rightarrow> digest \<Rightarrow> bytes \<Rightarrow> 's \<Rightarrow> ('p patricia_error + digest) \<times> 's" where
  "remove_key E host root key s = remove_with E (read_node E (nh_view host s)) (publish_node E host) root key s"

definition remove_constructed ::
  "patricia_env \<Rightarrow> 'p node_source \<Rightarrow> digest \<Rightarrow> bytes \<Rightarrow> ('p, digest) staging" where
  "remove_constructed E rd root key st =
     remove_with E (read_staged_or_persisted rd st) (stage E) root key st"

fun remove_keys ::
  "patricia_env \<Rightarrow> ('p, 's) node_host \<Rightarrow> digest \<Rightarrow> bytes list \<Rightarrow> 's \<Rightarrow> ('p patricia_error + digest) \<times> 's" where
  "remove_keys E host root [] s = (Inr root, s)"
| "remove_keys E host root (key # ks) s =
     st_bind (st_lift (validate_key key)) (\<lambda>_. st_bind (remove_key E host root key) (\<lambda>root'.
       remove_keys E host root' ks)) s"

definition remove_many ::
  "patricia_env \<Rightarrow> ('p, 's) node_host \<Rightarrow> digest \<Rightarrow> bytes list \<Rightarrow> 's \<Rightarrow> ('p patricia_error + digest) \<times> 's" where
  "remove_many E host root ks s =
     (if \<not> strictly_sorted ks then (Inl PatriciaMalformed, s) else remove_keys E host root ks s)"

section \<open>Publication of staged nodes\<close>

text \<open>The walk over the staged nodes below the roots; the stack's top comes first.\<close>

function reachable_loop ::
  "patricia_env \<Rightarrow> staged_nodes \<Rightarrow> digest list \<Rightarrow> digest list \<Rightarrow> (digest \<times> bytes) list \<Rightarrow> digest list
     \<Rightarrow> 'p patricia_error + ((digest \<times> bytes) list \<times> digest list)" where
  "reachable_loop E st [] visited collected order = Inr (collected, order)"
| "reachable_loop E st (d # pending) visited collected order =
     (if d \<in> set visited then reachable_loop E st pending visited collected order
      else case map_of (sg_nodes st) d of
        None \<Rightarrow> reachable_loop E st pending (bs_insert d visited) collected order
      | Some node \<Rightarrow>
          bind_res (map_err (\<lambda>_. PatriciaMalformed) (to_vec (pe_node E) node)) (\<lambda>bs.
            if pe_sha256 E bs \<noteq> d then Inl (PathMismatch d)
            else reachable_loop E st
                   ((case node of Leaf _ _ _ \<Rightarrow> [] | Branch _ _ _ l r \<Rightarrow> [r, l]) @ pending)
                   (bs_insert d visited) (bt_insert d bs collected) (order @ [d])))"
  by pat_completeness auto

lemma staged_left:
  assumes "map_of (sg_nodes st) d = Some n" "d \<notin> set visited"
  shows "card (fst ` set (sg_nodes st) - insert d (set visited)) < card (fst ` set (sg_nodes st) - set visited)"
proof (rule psubset_card_mono)
  have "d \<in> fst ` set (sg_nodes st)" using assms(1) by (metis domI dom_map_of_conv_image_fst)
  with assms(2) show "fst ` set (sg_nodes st) - insert d (set visited) \<subset> fst ` set (sg_nodes st) - set visited" by auto
qed simp

lemma staged_left_le:
  "card (fst ` set (sg_nodes st) - insert d (set visited)) \<noteq> card (fst ` set (sg_nodes st) - set visited)
    \<Longrightarrow> card (fst ` set (sg_nodes st) - insert d (set visited)) < card (fst ` set (sg_nodes st) - set visited)"
  by (rule le_neq_implies_less [OF card_mono]) auto

termination reachable_loop
  by (relation "measures [\<lambda>(E, st, pending, visited, collected, order). card (fst ` set (sg_nodes st) - set visited),
      \<lambda>(E, st, pending, visited, collected, order). length pending]")
    (auto intro: staged_left staged_left_le)

definition reachable_staged_bytes ::
  "patricia_env \<Rightarrow> digest list \<Rightarrow> staged_nodes \<Rightarrow> 'p patricia_error + ((digest \<times> bytes) list \<times> digest list)" where
  "reachable_staged_bytes E roots st = reachable_loop E st (rev roots) [] [] []"

text \<open>
  The loose publication; the lookup of a walked digest in the collected bytes never misses (the code
  has an \<open>expect\<close> there).
\<close>

fun publish_order ::
  "('p, 's) node_host \<Rightarrow> (digest \<times> bytes) list \<Rightarrow> digest list \<Rightarrow> 's \<Rightarrow> ('p patricia_error + unit) \<times> 's" where
  "publish_order host collected [] s = (Inr (), s)"
| "publish_order host collected (d # order) s =
     (case map_of collected d of
        None \<Rightarrow> (Inl PatriciaMalformed, s)
      | Some bs \<Rightarrow>
          (case nh_publish host (node_filename d) bs s of
             (Inl e, s') \<Rightarrow> (Inl (PatriciaPublication e), s')
           | (Inr _, s') \<Rightarrow> publish_order host collected order s'))"

definition publish_staged_roots ::
  "patricia_env \<Rightarrow> ('p, 's) node_host \<Rightarrow> digest list \<Rightarrow> staged_nodes \<Rightarrow> 's \<Rightarrow> ('p patricia_error + nat) \<times> 's" where
  "publish_staged_roots E host roots st s =
     (case reachable_staged_bytes E roots st of
        Inl e \<Rightarrow> (Inl e, s)
      | Inr (collected, order) \<Rightarrow>
          if collected = [] then (Inr 0, s)
          else case nh_lock_shared host s of
            Inl e \<Rightarrow> (Inl e, s)
          | Inr _ \<Rightarrow>
              (case publish_order host collected order s of
                 (Inl e, s') \<Rightarrow> (Inl e, s')
               | (Inr _, s') \<Rightarrow> (Inr (length collected), s')))"

definition insert_many ::
  "patricia_env \<Rightarrow> ('p, 's) node_host \<Rightarrow> digest \<Rightarrow> (bytes \<times> bytes) list \<Rightarrow> 's \<Rightarrow> ('p patricia_error + digest) \<times> 's" where
  "insert_many E host root records s =
     (case stage_many E (read_node E (nh_view host s)) root records of
        Inl e \<Rightarrow> (Inl e, s)
      | Inr (root', st) \<Rightarrow>
          (case publish_staged_roots E host [root'] st s of
             (Inl e, s') \<Rightarrow> (Inl e, s')
           | (Inr _, s') \<Rightarrow> (Inr root', s')))"

text \<open>The check of an existing index: every staged node reachable from the root must be readable.\<close>

function verify_loop ::
  "'p node_source \<Rightarrow> staged_nodes \<Rightarrow> digest list \<Rightarrow> digest list \<Rightarrow> 'p patricia_error + unit" where
  "verify_loop rd st [] visited = Inr ()"
| "verify_loop rd st (d # pending) visited =
     (if d \<in> set visited then verify_loop rd st pending visited
      else case map_of (sg_nodes st) d of
        None \<Rightarrow> verify_loop rd st pending (bs_insert d visited)
      | Some node \<Rightarrow>
          bind_res (rd d) (\<lambda>_.
            verify_loop rd st ((case node of Leaf _ _ _ \<Rightarrow> [] | Branch _ _ _ l r \<Rightarrow> [r, l]) @ pending)
              (bs_insert d visited)))"
  by pat_completeness auto

termination verify_loop
  by (relation "measures [\<lambda>(rd, st, pending, visited). card (fst ` set (sg_nodes st) - set visited),
      \<lambda>(rd, st, pending, visited). length pending]")
    (auto intro: staged_left staged_left_le)

definition insert_many_verify_existing ::
  "patricia_env \<Rightarrow> 'p patricia_store \<Rightarrow> digest \<Rightarrow> (bytes \<times> bytes) list \<Rightarrow> 'p patricia_error + digest" where
  "insert_many_verify_existing E S root records =
     bind_res (stage_many E (read_node E S) root records) (\<lambda>(root', st).
     bind_res (verify_loop (read_node E S) st [root'] []) (\<lambda>_. Inr root'))"

section \<open>Sinks of nodes\<close>

text \<open>
  What removal needs of the place where rebuilt nodes go: an accepted node is answered with its digest and
  can be found from then on, and earlier nodes stay.  \<open>ready m\<close>: \<open>m\<close> more nodes can be put; only a sink
  with \<open>fallible\<close> may refuse.
\<close>

locale node_sink =
  fixes E :: patricia_env and N :: "patricia_node set"
    and put :: "patricia_node \<Rightarrow> 's \<Rightarrow> ('p patricia_error + digest) \<times> 's"
    and ready :: "nat \<Rightarrow> 's \<Rightarrow> bool" and has :: "patricia_node \<Rightarrow> 's \<Rightarrow> bool" and fallible :: bool
  assumes put_ok: "node_codec E \<Longrightarrow> collision_free E N \<Longrightarrow> valid_node E n \<Longrightarrow> n \<in> N \<Longrightarrow> ready (Suc m) s \<Longrightarrow> put n s = (r, s')
      \<Longrightarrow> ready m s' \<and> (\<forall>n'. has n' s \<longrightarrow> has n' s')
        \<and> (case r of Inl e \<Rightarrow> fallible | Inr d \<Rightarrow> d = node_digest E n \<and> has n s')"

text \<open>The branches above the leaf of \<open>k\<close>, the last one first.\<close>

fun removal_frames :: "patricia_env \<Rightarrow> bytes \<Rightarrow> ptree \<Rightarrow> branch_frame list" where
  "removal_frames E k (PLeaf k' v') = []"
| "removal_frames E k (PBranch b l r) =
     removal_frames E k (if bits_of k ! b then r else l) @
       [\<lparr>bf_prefix = masked_prefix (first_key l) b, bf_prefix_bit_len = word_of_nat b, bf_left = tree_digest E l,
         bf_right = tree_digest E r, bf_rightward = bits_of k ! b\<rparr>]"

lemma remove_loop_ok:
  assumes "stored E rd t" "wf_tree t" "length key \<le> MAX_KEY_BYTES" "not_inside key t"
    "validate_node_path (node_of E t) c = (Inr () :: 'p patricia_error + unit)" "budget_ok (8 * length key) n t"
  shows "remove_loop (rd :: 'p node_source) key n (tree_digest E t) c A
    = Inr (if key \<in> keys t then Some (removal_frames E key t @ A) else None)"
  using assms
proof (induction t arbitrary: n c A)
  case (PLeaf k v)
  obtain m where "n = Suc m" using PLeaf.prems(6) by (cases n) (auto simp: budget_ok_def)
  with PLeaf show ?case by (auto simp: stored_root)
next
  case (PBranch b l r)
  note w = PBranch.prems(2)
  obtain m where n: "n = Suc m" using PBranch.prems(6) by (cases n) (auto simp: budget_ok_def)
  let ?node = "node_of E (PBranch b l r)"
  have rd: "rd (tree_digest E (PBranch b l r)) = Inr ?node"
    "validate_node_path ?node c = (Inr () :: 'p patricia_error + unit)"
    using PBranch.prems(1,5) by (auto dest: stored_root)
  have pm: "prefix_matches key (masked_prefix (first_key l) b) b
      = (Inr (b \<le> shared key (first_key l)) :: 'p patricia_error + bool)"
    by (rule matches_branch [OF w PBranch.prems(3) order_refl])
  note bits = branch_bits [OF w]
  show ?case
  proof (cases "b \<le> shared key (first_key l)")
    case False
    have "key \<notin> keys (PBranch b l r)"
      using wf_left [OF w, of key] wf_right [OF w, of key] False by (auto simp: shared_commute)
    then show ?thesis using rd pm False bits(1) unfolding n by (simp del: keys_simps)
  next
    case True
    have len: "b < 8 * length key"
    proof -
      have "first_key l = key \<or> shared key (first_key l) < 8 * length key"
        using PBranch.prems(4) by (simp add: not_inside_def)
      then show ?thesis using True wf_left [OF w first_key_in] by auto
    qed
    let ?right = "bits_of key ! b"
    let ?t = "if ?right then r else l"
    let ?p = "masked_prefix (first_key l) b"
    let ?f = "\<lparr>bf_prefix = ?p, bf_prefix_bit_len = word_of_nat b, bf_left = tree_digest E l, bf_right = tree_digest E r,
      bf_rightward = ?right\<rparr>"
    have "remove_loop rd key m (tree_digest E ?t) (child_of ?p b ?right) (?f # A)
        = Inr (if key \<in> keys ?t then Some (removal_frames E key ?t @ ?f # A) else None)"
    proof -
      have p: "stored E rd ?t" "wf_tree ?t" "not_inside key ?t"
        "validate_node_path (node_of E ?t) (child_of ?p b ?right) = (Inr () :: 'p patricia_error + unit)"
        "budget_ok (8 * length key) m ?t"
        using PBranch.prems w child_path_ok [OF w refl, where E = E and rightward = ?right] budget_child [OF w PBranch.prems(6) [unfolded n] len, of ?t]
        by (auto simp: stored_branch not_inside_def)
      show ?thesis using PBranch.IH p PBranch.prems(3) by (cases ?right) simp_all
    qed
    moreover have "key \<in> keys (PBranch b l r) \<longleftrightarrow> key \<in> keys ?t"
      using wf_left [OF w, of key] wf_right [OF w, of key] by auto
    ultimately show ?thesis using rd pm True bits(1) len PBranch.prems(3) unfolding n
      by (simp add: key_bit_ok if_distrib [of "tree_digest E"] del: keys_simps cong: if_cong)
  qed
qed

lemma rebuild_append:
  "rebuild_with put c (fs @ gs) = st_bind (rebuild_with put c fs) (\<lambda>d. rebuild_with put d gs)"
  by (induction fs arbitrary: c) (simp_all add: st_bind_assoc)

lemma removal_frames_branch: "removal_frames E k (PBranch b l r) \<noteq> []"
  by simp

lemma tremove_None: "tremove k t = None \<longleftrightarrow> (\<exists>v. t = PLeaf k v)"
  by (cases t) (auto split: option.split if_splits)

text \<open>The nodes held after a removal: those of the new tree that are not nodes of the old one.\<close>

definition held :: "patricia_env \<Rightarrow> (patricia_node \<Rightarrow> 's \<Rightarrow> bool) \<Rightarrow> 's \<Rightarrow> ptree \<Rightarrow> ptree \<Rightarrow> bool" where
  "held E has s old t \<longleftrightarrow> (\<forall>u \<in> set (subtrees t). u \<in> set (subtrees old) \<or> has (node_of E u) s)"

lemma held_old: "t \<in> set (subtrees old) \<Longrightarrow> held E has s old t"
  by (auto simp: held_def intro: subtrees_trans)

lemma held_branch:
  "held E has s old (PBranch b l r) \<longleftrightarrow>
     (PBranch b l r \<in> set (subtrees old) \<or> has (node_of E (PBranch b l r)) s) \<and> held E has s old l \<and> held E has s old r"
  by (auto simp: held_def)

lemma held_mono:
  "held E has s old t \<Longrightarrow> (\<forall>n. has n s \<longrightarrow> has n s') \<Longrightarrow> set (subtrees old) \<subseteq> set (subtrees old') \<Longrightarrow> held E has s' old' t"
  by (auto simp: held_def)

lemma node_of_removed:
  assumes "wf_tree (PBranch b l r)" "tremove k l = Some l'"
  shows "node_of E (PBranch b l' r)
    = Branch 1 (masked_prefix (first_key l) b) (word_of_nat b) (tree_digest E l') (tree_digest E r)"
proof -
  have "wf_tree l" using assms(1) by simp
  from wf_tremove [OF this, of k] assms(2) have "keys l' \<subseteq> keys l" by (auto simp: keys_def)
  then have "first_key l' \<in> keys l" using first_key_in by blast
  then have "b \<le> lcp (bits_of (first_key l')) (bits_of (first_key l))"
    using wf_left [OF assms(1), of "first_key l'"] by (simp add: shared_def lcp_commute)
  then show ?thesis using masked_prefix_cong [of b "first_key l'" "first_key l"] by simp
qed

lemma remove_with_leaf:
  fixes rd :: "'p node_source"
  assumes "tree_digest E t \<noteq> empty_root E" "stored E rd t" "wf_tree t" "length k \<le> MAX_KEY_BYTES" "not_inside k t" "t = PLeaf k v"
  shows "remove_with E rd put (tree_digest E t) k s = (Inr (empty_root E), s)"
  using assms(1,4,6) remove_loop_ok [OF assms(2-5), of None "8 * length k + 1" "[]"]
  by (simp add: remove_with_def traversal_node_budget_ok budget_start)

lemma frames_depth:
  "wf_tree t \<Longrightarrow> length (removal_frames E k t) + (case t of PLeaf _ _ \<Rightarrow> 0 | PBranch b _ _ \<Rightarrow> b) \<le> 768"
proof (induction t)
  case (PBranch b l r)
  note w = PBranch.prems
  have deeper: "b < b'" if "(if bits_of k ! b then r else l) = PBranch b' l' r'" for b' l' r'
    using wf_deeper [OF w, of b' l' r'] that by (auto split: if_splits)
  show ?case
    using PBranch.IH w deeper branch_bits(2) [OF w]
    by (cases "if bits_of k ! b then r else l") (fastforce split: if_splits)+
qed simp

context node_sink
begin

lemma rebuild_removed:
  assumes E: "node_codec E" and N: "collision_free E N"
  shows "wf_tree t \<Longrightarrow> k \<in> keys t \<Longrightarrow> tremove k t = Some t' \<Longrightarrow> tree_nodes E t' \<subseteq> N
    \<Longrightarrow> removal_frames E k t = p # fs \<Longrightarrow> ready (m + length fs) s
    \<Longrightarrow> rebuild_with put (if bf_rightward p then bf_left p else bf_right p) fs s = (r, s')
    \<Longrightarrow> (\<forall>n. has n s \<longrightarrow> has n s') \<and> (\<exists>m. ready m s')
      \<and> (case r of Inl e \<Rightarrow> fallible | Inr d \<Rightarrow> d = tree_digest E t' \<and> ready m s' \<and> held E has s' t t')"
proof (induction t arbitrary: t' p fs m s r s')
  case (PLeaf k' v')
  then show ?case by (simp split: if_splits)
next
  case (PBranch b l r0)
  note w = PBranch.prems(1)
  let ?right = "bits_of k ! b"
  let ?c = "if ?right then r0 else l" and ?o = "if ?right then l else r0"
  let ?f = "\<lparr>bf_prefix = masked_prefix (first_key l) b, bf_prefix_bit_len = word_of_nat b, bf_left = tree_digest E l,
    bf_right = tree_digest E r0, bf_rightward = ?right\<rparr>"
  have side: "k \<in> keys ?c" using PBranch.prems(2) wf_left [OF w, of k] wf_right [OF w, of k] by auto
  have shared: "b \<le> shared k (first_key l)" using PBranch.prems(2) by (intro wf_shared [OF w]) (simp_all add: branch_first_in)
  have frames: "removal_frames E k ?c @ [?f] = p # fs" using PBranch.prems(5) by simp
  show ?case
  proof (cases "tremove k ?c")
    case None
    then obtain v where c: "?c = PLeaf k v" unfolding tremove_None by blast
    then have t: "p = ?f" "fs = []" using frames by auto
    have t': "t' = ?o" using PBranch.prems(3) shared None by (cases ?right) auto
    have run: "r = Inr (tree_digest E ?o)" "s' = s" using PBranch.prems(7) t by (auto simp: st_return_def)
    have "?o \<in> set (subtrees (PBranch b l r0))" by simp
    have "ready m s'" using PBranch.prems(6) t(2) run(2) by simp
    then show ?thesis using run t t' by (auto simp: held_old)
  next
    case (Some c')
    have t': "t' = (if ?right then PBranch b l c' else PBranch b c' r0)"
      using PBranch.prems(3) shared Some by (cases ?right) auto
    obtain fs0 where fs: "removal_frames E k ?c = p # fs0" "fs = fs0 @ [?f]"
    proof (cases ?c)
      case (PLeaf k' v')
      then have "tremove k ?c = None" using side by simp
      then show thesis using Some by simp
    next
      case (PBranch b' l' r')
      then have "removal_frames E k ?c \<noteq> []" using removal_frames_branch by metis
      then show thesis using that frames by (cases "removal_frames E k ?c") auto
    qed
    let ?sib = "if bf_rightward p then bf_left p else bf_right p"
    obtain r1 s1 where run1: "rebuild_with put ?sib fs0 s = (r1, s1)" by force
    have ready: "ready (Suc m + length fs0) s" using PBranch.prems(6) fs(2) by simp
    have nodes: "tree_nodes E c' \<subseteq> N" using PBranch.prems(4) unfolding t' by (auto split: if_splits)
    have ih: "(\<forall>n. has n s \<longrightarrow> has n s1) \<and> (\<exists>m. ready m s1) \<and>
        (case r1 of Inl e \<Rightarrow> fallible | Inr d \<Rightarrow> d = tree_digest E c' \<and> ready (Suc m) s1 \<and> held E has s1 ?c c')"
    proof (cases ?right)
      case True
      then show ?thesis using PBranch.IH(2) [OF _ _ _ nodes _ ready run1] w side Some fs(1) by simp
    next
      case False
      then show ?thesis using PBranch.IH(1) [OF _ _ _ nodes _ ready run1] w side Some fs(1) by simp
    qed
    have run: "(r, s') = (case r1 of Inl e \<Rightarrow> (Inl e, s1) | Inr d \<Rightarrow> rebuild_with put d [?f] s1)"
      using PBranch.prems(7) unfolding fs(2) rebuild_append st_bind_def run1 by (cases r1) auto
    show ?thesis
    proof (cases r1)
      case (Inl e)
      then show ?thesis using run ih by simp
    next
      case (Inr d)
      then have d: "d = tree_digest E c'" "ready (Suc m) s1" "held E has s1 ?c c'" using ih by simp_all
      have node: "node_of E t' = Branch 1 (masked_prefix (first_key l) b) (word_of_nat b)
          (if ?right then tree_digest E l else d) (if ?right then d else tree_digest E r0)"
        using node_of_removed [OF w, of k c'] Some d(1) unfolding t' by (cases ?right) simp_all
      have wt: "wf_tree t'" using wf_tremove [OF w, of k] PBranch.prems(3) by simp
      obtain r2 s2 where put2: "put (node_of E t') s1 = (r2, s2)" by force
      have "node_of E t' \<in> N" using PBranch.prems(4) by auto
      note p2 = put_ok [OF E N valid_node_of [OF wt N PBranch.prems(4)] this d(2) put2]
      have rs: "r = r2" "s' = s2"
        using run put2 unfolding Inr node by (auto simp: st_bind_def st_return_def split: sum.splits cong: if_cong)
      have "held E has s2 (PBranch b l r0) t'" if "has (node_of E t') s2"
      proof -
        have h: "held E has s2 (PBranch b l r0) c'"
          using p2 by (intro held_mono [OF d(3)]) (auto split: if_splits)
        have "held E has s2 (PBranch b l r0) l" "held E has s2 (PBranch b l r0) r0" by (simp_all add: held_old)
        then show ?thesis using h that unfolding t' held_branch by (cases ?right) (simp_all only: held_branch if_True if_False simp_thms)
      qed
      then show ?thesis using p2 ih unfolding rs tree_digest_def by (cases r2) auto
    qed
  qed
qed

lemma remove_with_ok:
  fixes rd :: "'p node_source"
  assumes E: "node_codec E" "collision_free E N" and t: "wf_tree t" "stored E rd t" "tree_nodes E t \<subseteq> N"
    and k: "length k \<le> MAX_KEY_BYTES" "not_inside k t"
    and t': "tree_nodes E t' \<subseteq> N" "tremove k t = Some t'"
    and run: "ready (m + 771) s" "remove_with E rd put (tree_digest E t) k s = (r, s')"
  shows "(\<forall>n. has n s \<longrightarrow> has n s') \<and> (\<exists>m. ready m s')
    \<and> (case r of Inl e \<Rightarrow> fallible | Inr d \<Rightarrow> d = tree_digest E t' \<and> held E has s' t t')"
proof -
  have ne: "tree_digest E t \<noteq> empty_root E" by (rule tree_digest_nonempty [OF E(2) t(3)])
  have in_t: "k \<in> keys t \<or> t' = t" using tremove_absent [of k t] t'(2) by auto
  have frames: "bind_res (traversal_node_budget (length k)) (\<lambda>budget. remove_loop rd k budget (tree_digest E t) None [])
      = Inr (if k \<in> keys t then Some (removal_frames E k t) else None)"
    using remove_loop_ok [OF t(2,1) k, of None "8 * length k + 1" "[]"] k(1)
    by (simp add: traversal_node_budget_ok budget_start)
  show ?thesis
  proof (cases "k \<in> keys t")
    case False
    then have "(r, s') = (Inr (tree_digest E t), s)" using run(2) ne frames by (simp add: remove_with_def)
    moreover have "t' = t" using in_t False by simp
    ultimately show ?thesis using run(1) by (auto simp: held_old)
  next
    case True
    have "removal_frames E k t \<noteq> []"
    proof (cases t)
      case (PLeaf k' v')
      then show ?thesis using True t'(2) by simp
    next
      case (PBranch b l r)
      then show ?thesis using removal_frames_branch by metis
    qed
    then obtain p fs where f: "removal_frames E k t = p # fs" by (auto simp: neq_Nil_conv)
    have "length fs \<le> 771" using frames_depth [OF t(1), of E k] f by simp
    then obtain m' where m': "m + 771 = m' + length fs" by (metis add.assoc le_Suc_ex add.commute)
    have "rebuild_with put (if bf_rightward p then bf_left p else bf_right p) fs s = (r, s')"
      using run(2) ne frames True f by (simp add: remove_with_def)
    from rebuild_removed [OF E t(1) True t'(2,1) f run(1) [unfolded m'] this] show ?thesis
      by (cases r) auto
  qed
qed

end

interpretation staging: node_sink E N "stage E" "\<lambda>m st. staged_ok E N st \<and> room m st"
  "\<lambda>n st. map_of (sg_nodes st) (node_digest E n) = Some n" False for E N
proof (unfold_locales)
  fix n m st st' and r :: "'p patricia_error + digest"
  assume E: "node_codec E" "collision_free E N" "valid_node E n" "n \<in> N"
    and st: "staged_ok E N st \<and> room (Suc m) st" and run: "stage E n st = (r, st')"
  from stage_ok [OF E conjunct1 [OF st] conjunct2 [OF st]] obtain st1 where
    s1: "stage E n st = (Inr (node_digest E n) :: 'p patricia_error + digest, st1)" "staged_step E N m st st1"
      "map_of (sg_nodes st1) (node_digest E n) = Some n" by blast
  have "r = Inr (node_digest E n)" "st' = st1" using run s1(1) by simp_all
  then show "(staged_ok E N st' \<and> room m st') \<and> (\<forall>n'. map_of (sg_nodes st) (node_digest E n') = Some n' \<longrightarrow>
      map_of (sg_nodes st') (node_digest E n') = Some n')
    \<and> (case r of Inl e \<Rightarrow> False | Inr d \<Rightarrow> d = node_digest E n \<and> map_of (sg_nodes st') (node_digest E n) = Some n)"
    using s1(2,3) by (auto simp: staged_step_def extends_def map_le_def dom_def)
qed

section \<open>Directories of nodes\<close>

text \<open>
  What the store needs of its directory: a publication that is acknowledged can be read back, whatever its
  outcome every file already there stays, and no packed catalog is present.
\<close>

locale node_directory =
  fixes E :: patricia_env and host :: "('p, 's) node_host" and inv :: "'s \<Rightarrow> bool"
  assumes publish_ok: "inv s \<Longrightarrow> length bs \<le> MAX_NODE_BYTES \<Longrightarrow>
      nh_publish host (node_filename (pe_sha256 E bs)) bs s = (r, s') \<Longrightarrow>
      inv s' \<and> (r = Inr () \<longrightarrow> ps_loose (nh_view host s') (node_filename (pe_sha256 E bs)) = Inr (Some bs))"
    and publish_keeps: "inv s \<Longrightarrow> length bs \<le> MAX_NODE_BYTES \<Longrightarrow>
      nh_publish host (node_filename (pe_sha256 E bs)) bs s = (r, s') \<Longrightarrow>
      ps_loose (nh_view host s) (node_filename d) = Inr (Some bs') \<Longrightarrow>
      ps_loose (nh_view host s') (node_filename d) = Inr (Some bs')"
    and no_packs: "inv s \<Longrightarrow> ps_packed (nh_view host s) d = Inr None"
definition readable :: "patricia_env \<Rightarrow> ('p, 's) node_host \<Rightarrow> patricia_node \<Rightarrow> 's \<Rightarrow> bool" where
  "readable E host n s \<longleftrightarrow> read_node E (nh_view host s) (node_digest E n) = Inr n"

lemma read_loose:
  fixes S :: "'p patricia_store"
  assumes "node_codec E" "valid_node E n" "ps_loose S (node_filename (node_digest E n)) = Inr (Some (node_bytes E n))"
    "ps_packed S (node_digest E n) = Inr None"
  shows "read_node E S (node_digest E n) = Inr n"
proof -
  from assms(1,2) obtain bs where bs: "to_vec (pe_node E) n = Inr bs" by (auto simp: node_codec_def valid_node_def)
  then have b: "node_bytes E n = bs" "pe_sha256 E bs = node_digest E n" by (simp_all add: node_bytes_def node_digest_vec)
  have "from_slice (pe_node E) bs = Inr n" using assms(1) bs by (auto simp: node_codec_def roundtrips_def)
  then show ?thesis using assms(3,4) b bs valid_nodeD [OF assms(2), where 'p = 'p] by (simp add: read_node_def)
qed

context node_directory
begin

lemma readable_loose:
  assumes "inv s" "readable E host n s"
  shows "\<exists>bs. ps_loose (nh_view host s) (node_filename (node_digest E n)) = Inr (Some bs) \<and> pe_sha256 E bs = node_digest E n
    \<and> from_slice (pe_node E) bs = Inr n \<and> validate_node E n = (Inr () :: 'p patricia_error + unit) \<and> to_vec (pe_node E) n = Inr bs"
  using assms no_packs [OF assms(1)]
  by (auto simp: readable_def read_node_def bind_res_Inr split: option.splits if_splits sum.splits)

lemma readable_keeps:
  assumes s: "inv s" "length bs \<le> MAX_NODE_BYTES" "nh_publish host (node_filename (pe_sha256 E bs)) bs s = (r, s')"
    and n: "readable E host n s"
  shows "readable E host n s'"
proof -
  from readable_loose [OF s(1) n] obtain bs' where
    b: "ps_loose (nh_view host s) (node_filename (node_digest E n)) = Inr (Some bs')" "pe_sha256 E bs' = node_digest E n"
      "from_slice (pe_node E) bs' = Inr n" "validate_node E n = (Inr () :: 'p patricia_error + unit)"
      "to_vec (pe_node E) n = Inr bs'" by blast
  have "inv s'" using publish_ok [OF s] by blast
  then show ?thesis using publish_keeps [OF s b(1)] b no_packs by (simp add: readable_def read_node_def)
qed

lemma published_readable:
  assumes "node_codec E" "valid_node E n" "inv s" "nh_publish host (node_filename (node_digest E n)) (node_bytes E n) s = (r, s')"
  shows "inv s' \<and> (\<forall>n'. readable E host n' s \<longrightarrow> readable E host n' s') \<and> (r = Inr () \<longrightarrow> readable E host n s')"
proof -
  from assms(1,2) obtain bs where bs: "to_vec (pe_node E) n = Inr bs" "length bs \<le> CONSTRUCTION_MAX_VALID_NODE_BYTES"
    by (auto simp: node_codec_def valid_node_def)
  then have b: "node_bytes E n = bs" "node_digest E n = pe_sha256 E bs" "length bs \<le> MAX_NODE_BYTES"
    using node_size_limit by (simp_all add: node_bytes_def node_digest_vec)
  note run = assms(4) [unfolded b(1,2)]
  have i: "inv s'" using publish_ok [OF assms(3) b(3) run] by blast
  moreover have "readable E host n s'" if "r = Inr ()"
    using publish_ok [OF assms(3) b(3) run] that unfolding readable_def
    by (intro read_loose [OF assms(1,2)] no_packs [OF i]) (simp add: b(1,2))
  ultimately show ?thesis using readable_keeps [OF assms(3) b(3) run] by blast
qed

lemma publish_node_run:
  assumes "node_codec E" "valid_node E n"
  shows "publish_node E host n s = (case nh_publish host (node_filename (node_digest E n)) (node_bytes E n) s of
      (Inl e, s') \<Rightarrow> (Inl (PatriciaPublication e), s') | (Inr _, s') \<Rightarrow> (Inr (node_digest E n), s'))"
proof -
  from assms obtain bs where bs: "to_vec (pe_node E) n = Inr bs" "length bs \<le> CONSTRUCTION_MAX_VALID_NODE_BYTES"
    by (auto simp: node_codec_def valid_node_def)
  then show ?thesis
    using node_size_limit valid_nodeD [OF assms(2), where 'p = 'p]
    by (simp add: publish_node_def node_bytes_def Let_def node_digest_vec [OF bs(1)] split: prod.split sum.split)
qed

end

sublocale node_directory \<subseteq> published: node_sink E N "publish_node E host" "\<lambda>m. inv" "readable E host" True for N
proof (unfold_locales)
  fix n m s s' and r :: "'p patricia_error + digest"
  assume E: "node_codec E" "valid_node E n" and s: "inv s" "publish_node E host n s = (r, s')"
  obtain r1 s1 where p: "nh_publish host (node_filename (node_digest E n)) (node_bytes E n) s = (r1, s1)" by force
  from s(2) show "inv s' \<and> (\<forall>n'. readable E host n' s \<longrightarrow> readable E host n' s')
    \<and> (case r of Inl e \<Rightarrow> True | Inr d \<Rightarrow> d = node_digest E n \<and> readable E host n s')"
    using published_readable [OF E s(1) p] unfolding publish_node_run [OF E] p by (auto split: sum.splits)
qed

section \<open>The walk over the staged nodes\<close>

definition children :: "patricia_node \<Rightarrow> digest list" where
  "children n = (case n of Leaf _ _ _ \<Rightarrow> [] | Branch _ _ _ l r \<Rightarrow> [r, l])"

text \<open>The staged nodes among the visited digests are listed, and their children are visited or pending.\<close>

definition walked :: "staged_nodes \<Rightarrow> digest set \<Rightarrow> digest set \<Rightarrow> digest set \<Rightarrow> bool" where
  "walked st visited pending order \<longleftrightarrow>
     (\<forall>d \<in> visited. \<forall>n. map_of (sg_nodes st) d = Some n \<longrightarrow> d \<in> order \<and> set (children n) \<subseteq> visited \<union> pending)"

definition listed :: "patricia_env \<Rightarrow> staged_nodes \<Rightarrow> (digest \<times> bytes) list \<Rightarrow> digest list \<Rightarrow> bool" where
  "listed E st collected order \<longleftrightarrow> ordered collected
     \<and> (\<forall>d \<in> set order. \<exists>n. map_of (sg_nodes st) d = Some n \<and> map_of collected d = Some (node_bytes E n))"

lemma children_simps [simp]: "children (Leaf a k v) = []" "children (Branch a p n l r) = [r, l]"
  by (simp_all add: children_def)

lemma walked_skip: "walked st V (insert d P) R \<Longrightarrow> d \<in> V \<Longrightarrow> walked st V P R"
  by (auto simp: walked_def)

lemma walked_absent: "walked st V (insert d P) R \<Longrightarrow> map_of (sg_nodes st) d = None \<Longrightarrow> walked st (insert d V) P R"
  by (auto simp: walked_def)

lemma walked_node:
  "walked st V (insert d P) R \<Longrightarrow> map_of (sg_nodes st) d = Some n \<Longrightarrow> walked st (insert d V) (set (children n) \<union> P) (insert d R)"
  unfolding walked_def by fastforce

lemma reachable_loop_ok:
  "node_codec E \<Longrightarrow> staged_ok E N st \<Longrightarrow> walked st (set visited) (set pending) (set order) \<Longrightarrow> listed E st collected order
    \<Longrightarrow> \<exists>collected' order' V. reachable_loop E st pending visited collected order
          = (Inr (collected', order') :: 'p patricia_error + _)
        \<and> set visited \<union> set pending \<subseteq> V \<and> walked st V {} (set order') \<and> listed E st collected' order'"
proof (induction E st pending visited collected order rule: reachable_loop.induct [where ?'a = 'p])
  case (1 E st visited collected order)
  then show ?case by (intro exI [of _ collected] exI [of _ order] exI [of _ "set visited"]) simp
next
  case (2 E st d pending visited collected order)
  note st = "2.prems"(2)
  show ?case
  proof (cases "d \<in> set visited")
    case True
    then show ?thesis using "2.IH"(1) [OF True "2.prems"(1,2) _ "2.prems"(4)] walked_skip [of st "set visited" d "set pending"] "2.prems"(3)
      by simp (use True in blast)
  next
    case False
    show ?thesis
    proof (cases "map_of (sg_nodes st) d")
      case None
      have "walked st (set (bs_insert d visited)) (set pending) (set order)"
        using walked_absent [OF _ None, of "set visited" "set pending" "set order"] "2.prems"(3) by simp
      from "2.IH"(2) [OF False None "2.prems"(1,2) this "2.prems"(4)] False None show ?thesis by auto
    next
      case (Some n)
      then have n: "valid_node E n" "d = node_digest E n" using st by (simp_all add: staged_ok_def)
      then obtain bs where bs: "to_vec (pe_node E) n = Inr bs" using "2.prems"(1) by (auto simp: node_codec_def valid_node_def)
      then have b: "node_bytes E n = bs" "pe_sha256 E bs = d" using n(2) by (simp_all add: node_bytes_def node_digest_vec)
      have vec: "map_err (\<lambda>_. PatriciaMalformed) (to_vec (pe_node E) n) = (Inr bs :: 'p patricia_error + bytes)" using bs by simp
      let ?pending = "(case n of Leaf _ _ _ \<Rightarrow> [] | Branch _ _ _ l r \<Rightarrow> [r, l]) @ pending"
      have "walked st (set (bs_insert d visited)) (set ?pending) (set (order @ [d]))"
        using walked_node [OF _ Some, of "set visited" "set pending" "set order"] "2.prems"(3) by (simp add: children_def)
      moreover have "listed E st (bt_insert d bs collected) (order @ [d])"
        using "2.prems"(4) Some b by (auto simp: listed_def)
      ultimately show ?thesis
        using "2.IH"(3) [OF False Some vec _ "2.prems"(1,2)] False Some vec b(2) by auto
    qed
  qed
qed

lemma walked_tree:
  assumes "walked st V {} R" "tree_digest E t \<in> V" "covered E rd st t" "u \<in> set (subtrees t)"
  shows "stored E rd u \<or> tree_digest E u \<in> R \<and> map_of (sg_nodes st) (tree_digest E u) = Some (node_of E u)"
  using assms
proof (induction t)
  case (PLeaf k v)
  then show ?case by (auto simp: covered_leaf walked_def)
next
  case (PBranch b l r)
  show ?case
  proof (cases "stored E rd (PBranch b l r)")
    case True
    then show ?thesis using PBranch.prems(4) by (auto intro: stored_subtree)
  next
    case False
    then have m: "map_of (sg_nodes st) (tree_digest E (PBranch b l r)) = Some (node_of E (PBranch b l r))"
      using PBranch.prems(3) by (simp add: covered_branch)
    then have "tree_digest E (PBranch b l r) \<in> R" "tree_digest E l \<in> V" "tree_digest E r \<in> V"
      using PBranch.prems(1,2) by (auto simp: walked_def)
    then show ?thesis using PBranch m by (auto simp: covered_branch)
  qed
qed

context node_directory
begin

lemma publish_order_ok:
  "node_codec E \<Longrightarrow> staged_ok E N st \<Longrightarrow> listed E st collected order \<Longrightarrow> inv s
    \<Longrightarrow> publish_order host collected order s = (r, s')
    \<Longrightarrow> inv s' \<and> (\<forall>n. readable E host n s \<longrightarrow> readable E host n s')
      \<and> (case r of Inl e \<Rightarrow> \<exists>p. e = PatriciaPublication p
         | Inr _ \<Rightarrow> \<forall>d \<in> set order. \<forall>n. map_of (sg_nodes st) d = Some n \<longrightarrow> readable E host n s')"
proof (induction order arbitrary: s)
  case (Cons d order)
  from Cons.prems(3) obtain n where n: "map_of (sg_nodes st) d = Some n" "map_of collected d = Some (node_bytes E n)"
    by (auto simp: listed_def)
  have v: "valid_node E n" "d = node_digest E n" using Cons.prems(2) n(1) by (simp_all add: staged_ok_def)
  obtain r1 s1 where p: "nh_publish host (node_filename (node_digest E n)) (node_bytes E n) s = (r1, s1)" by force
  note ok = published_readable [OF Cons.prems(1) v(1) Cons.prems(4) p]
  have l: "listed E st collected order" using Cons.prems(3) by (simp add: listed_def)
  show ?case
  proof (cases r1)
    case (Inl e)
    then show ?thesis using ok Cons.prems(5) n(2) p v(2) by auto
  next
    case (Inr u)
    then have "publish_order host collected order s1 = (r, s')" using Cons.prems(5) n(2) p v(2) by simp
    from Cons.IH [OF Cons.prems(1,2) l conjunct1 [OF ok] this] show ?thesis
      using ok Inr n(1) by (cases r) auto
  qed
qed (auto simp: listed_def)

lemma publish_tree_ok:
  assumes E: "node_codec E" and st: "staged_ok E N st" and s: "inv s" and t: "covered_opt E (read_node E (nh_view host s)) st t"
    and run: "publish_staged_roots E host [root_of E t] st s = (r, s')"
  shows "inv s' \<and> (\<forall>n. readable E host n s \<longrightarrow> readable E host n s')
    \<and> (case r of Inl e \<Rightarrow> (\<exists>p. e = PatriciaPublication p) \<or> nh_lock_shared host s = Inl e
       | Inr _ \<Rightarrow> stored_opt E (read_node E (nh_view host s')) t)"
proof -
  obtain collected order V where walk:
    "reachable_staged_bytes E [root_of E t] st = (Inr (collected, order) :: 'p patricia_error + _)"
    "root_of E t \<in> V" "walked st V {} (set order)" "listed E st collected order"
    using reachable_loop_ok [OF E st, of "[]" "[root_of E t]" "[]" "[]", where 'p = 'p]
    by (auto simp: reachable_staged_bytes_def walked_def listed_def ordered_def)
  have reads: "stored_opt E (read_node E (nh_view host s1)) t"
    if keep: "\<forall>n. readable E host n s \<longrightarrow> readable E host n s1"
      and new: "\<forall>d \<in> set order. \<forall>n. map_of (sg_nodes st) d = Some n \<longrightarrow> readable E host n s1" for s1
  proof (cases t)
    case (Some u)
    have "readable E host (node_of E v) s1" if v: "v \<in> set (subtrees u)" for v
    proof -
      have "readable E host (node_of E v) s" if "stored E (read_node E (nh_view host s)) v"
        using stored_root [OF that] by (simp add: readable_def tree_digest_def)
      then show ?thesis
        using walked_tree [OF walk(3) _ _ v, where E = E and rd = "read_node E (nh_view host s)"] walk(2) t Some keep new by auto
    qed
    then show ?thesis using Some by (simp add: stored_def readable_def tree_digest_def)
  qed simp
  show ?thesis
  proof (cases "collected = []")
    case True
    then have "order = []" using walk(4) by (cases order) (auto simp: listed_def)
    moreover have "r = Inr 0" "s' = s" using run walk(1) True by (simp_all add: publish_staged_roots_def)
    ultimately show ?thesis using reads [of s] s by simp
  next
    case False
    show ?thesis
    proof (cases "nh_lock_shared host s")
      case (Inl e)
      then show ?thesis using run walk(1) False s by (auto simp: publish_staged_roots_def)
    next
      case (Inr u)
      obtain r1 s1 where p: "publish_order host collected order s = (r1, s1)" by force
      note ok = publish_order_ok [OF E st walk(4) s p]
      show ?thesis
        using run walk(1) False Inr p ok reads [of s1]
        by (cases r1) (auto simp: publish_staged_roots_def)
    qed
  qed
qed

lemma insert_many_ok:
  assumes E: "node_codec E" "collision_free E N" and t: "wf_opt t" "stored_opt E (read_node E (nh_view host s)) t"
    and records: "admissible records (content t)" "passed_nodes E records t \<subseteq> N"
      "length records * STAGES_PER_INSERT * CONSTRUCTION_MAX_VALID_NODE_BYTES < 2 ^ 64"
    and s: "inv s" and run: "insert_many E host (root_of E t) records s = (r, s')"
  shows "inv s' \<and> (\<forall>n. readable E host n s \<longrightarrow> readable E host n s')
    \<and> (case r of Inl e \<Rightarrow> (\<exists>p. e = PatriciaPublication p) \<or> nh_lock_shared host s = Inl e
       | Inr d \<Rightarrow> d = root_of E (tinsert_all records t)
           \<and> stored_opt E (read_node E (nh_view host s')) (tinsert_all records t))"
proof -
  have st0: "staged_ok E N staged_default" "room (length records * STAGES_PER_INSERT) staged_default"
    using records(3) by (simp_all add: staged_ok_def staged_default_def ordered_def room_def)
  have c: "covered_opt E (read_node E (nh_view host s)) staged_default t"
    using t(2) by (cases t) (simp_all add: stored_covered)
  from stage_records_ok [OF E t(1) records(1) c records(2) st0] obtain st where
    st: "stage_records E (read_node E (nh_view host s)) (root_of E t) records staged_default
      = (Inr (root_of E (tinsert_all records t)) :: 'p patricia_error + digest, st)" "staged_ok E N st"
      "covered_opt E (read_node E (nh_view host s)) st (tinsert_all records t)" by blast
  have v: "validate_records records = (Inr () :: 'p patricia_error + unit)"
    using records(1) validate_records_any by (auto simp: admissible_def)
  obtain r1 s1 where p: "publish_staged_roots E host [root_of E (tinsert_all records t)] st s = (r1, s1)" by force
  have "(r, s') = (case r1 of Inl e \<Rightarrow> (Inl e, s1) | Inr _ \<Rightarrow> (Inr (root_of E (tinsert_all records t)), s1))"
    using run p by (cases r1) (simp_all add: insert_many_def stage_many_def v st(1))
  with publish_tree_ok [OF E(1) st(2) s st(3) p] show ?thesis by (cases r1) auto
qed

lemma remove_key_ok:
  assumes E: "node_codec E" "collision_free E N" and t: "wf_tree t" "stored E (read_node E (nh_view host s)) t" "tree_nodes E t \<subseteq> N"
    and k: "length k \<le> MAX_KEY_BYTES" "not_inside k t"
    and t': "nodes_opt E (tremove k t) \<subseteq> N" and s: "inv s" and run: "remove_key E host (tree_digest E t) k s = (r, s')"
  shows "inv s' \<and> (\<forall>n. readable E host n s \<longrightarrow> readable E host n s')
    \<and> (case r of Inl e \<Rightarrow> True | Inr d \<Rightarrow> d = root_of E (tremove k t) \<and> stored_opt E (read_node E (nh_view host s')) (tremove k t))"
proof (cases "tremove k t")
  case None
  then obtain v where leaf: "t = PLeaf k v" unfolding tremove_None by blast
  have "r = Inr (empty_root E)" "s' = s"
    using run remove_with_leaf [OF tree_digest_nonempty [OF E(2) t(3)] t(2,1) k leaf, of "publish_node E host" s]
    by (simp_all add: remove_key_def)
  then show ?thesis using s None by simp
next
  case (Some t')
  note run' = run [unfolded remove_key_def]
  note ok = published.remove_with_ok [OF E t k _ Some s run']
  have "stored E (read_node E (nh_view host s')) t'"
    if h: "\<forall>n. readable E host n s \<longrightarrow> readable E host n s'" "held E (readable E host) s' t t'"
  proof -
    have "readable E host (node_of E u) s'" if "u \<in> set (subtrees t')" for u
    proof -
      have "readable E host (node_of E u) s" if "u \<in> set (subtrees t)"
        using stored_root [OF stored_subtree [OF t(2) that]] by (simp add: readable_def tree_digest_def)
      then show ?thesis using h that \<open>u \<in> set (subtrees t')\<close> by (auto simp: held_def)
    qed
    then show ?thesis by (simp add: stored_def readable_def tree_digest_def)
  qed
  then show ?thesis using ok t' Some by (cases r) auto
qed

end

end
