(* ===== verification/Patricia_Host.thy ===== *)
theory Patricia_Host
  imports Patricia_Publish
begin

text \<open>
  The node directory of the store over the file system of \<open>Filesystem\<close>: nodes are read with
  \<open>read_optional_regular\<close> and published with \<open>publish_immutable_exact\<close>, as the crate's own exact
  publisher does; each call may fail, and the process may die.
\<close>

definition fs_quiet :: "fsys \<Rightarrow> fsys" where
  "fs_quiet s = s\<lparr>fs_outcomes := [], fs_crashed := False\<rparr>"

definition fs_host :: "(fsys \<Rightarrow> bytes) \<Rightarrow> (filesystem_error, fsys) node_host" where
  "fs_host uuid = \<lparr>
     nh_view = (\<lambda>s. \<lparr>ps_loose = (\<lambda>name. fst (read_optional_regular name MAX_NODE_BYTES None (fs_quiet s))),
                     ps_packed = (\<lambda>_. Inr None)\<rparr>),
     nh_publish = (\<lambda>name bs s. publish_immutable_exact (uuid s) name bs s),
     nh_lock_shared = (\<lambda>_. Inr ())\<rparr>"

lemma fs_host_simps [simp]:
  "ps_loose (nh_view (fs_host uuid) s) name = fst (read_optional_regular name MAX_NODE_BYTES None (fs_quiet s))"
  "ps_packed (nh_view (fs_host uuid) s) d = Inr None"
  "nh_publish (fs_host uuid) name bs s = publish_immutable_exact (uuid s) name bs s"
  "nh_lock_shared (fs_host uuid) s = Inr ()"
  by (simp_all add: fs_host_def)

lemma loose_file:
  "fst (read_optional_regular name MAX_NODE_BYTES None (fs_quiet s)) = Inr (Some bs)
    \<longleftrightarrow> (\<exists>i. fs_dir s name = Some (RegularFile i) \<and> file_bytes s i = bs \<and> length bs \<le> MAX_NODE_BYTES)"
  by (auto simp: fs_run fs_quiet_def MAX_NODE_BYTES_def not_regular_def split: option.splits dir_entry.splits)

lemma temp_not_node: "temp_name u \<noteq> node_filename d"
proof -
  have "length (display_digest d) = 64 \<and> (\<forall>b \<in> set (display_digest d). is_lower_hex b)"
    using parse_digest_display [of d] by (auto simp: parse_digest_def split: if_splits)
  then show ?thesis by (cases "display_digest d") (auto simp: temp_name_def node_filename_def is_lower_hex_def)
qed

text \<open>What any outcome of a publication leaves.\<close>

lemma publish_files:
  assumes wf: "fs_wf s" and temp: "temp_name u \<noteq> name" and run: "publish_immutable_exact u name bs s = (r, s')"
  shows "fs_wf s'" "r = Inr () \<Longrightarrow> \<exists>i. fs_dir s' name = Some (RegularFile i) \<and> file_bytes s' i = bs"
    "n \<noteq> temp_name u \<Longrightarrow> fs_dir s n = Some (RegularFile i) \<Longrightarrow> fs_dir s' n = Some (RegularFile i) \<and> file_bytes s' i = file_bytes s i"
proof -
  define ok where "ok \<longleftrightarrow> fs_dir s name = None"
  have start: "others s (temp_name u) name s \<and> old_name s name s \<and> fs_next s = fs_next s"
    using wf by (simp add: others_def old_name_def)
  have t: "triple (\<lambda>s'. others s (temp_name u) name s' \<and> old_name s name s' \<and> fs_next s' = fs_next s)
    (publish_immutable_exact u name bs)
    (\<lambda>_. holds_exactly ok s (temp_name u) name bs) (safe_publish ok s (temp_name u) name bs)"
    by (rule publish_immutable_triple [OF temp wf]) (simp add: ok_def)
  have safe: "safe_publish ok s (temp_name u) name bs s'"
    using tripleD [OF t, of s] tripleE [OF t, of s] start run holds_safe by (cases r) auto
  then show "fs_wf s'" by (simp add: safe_publish_def others_def)
  show "\<exists>i. fs_dir s' name = Some (RegularFile i) \<and> file_bytes s' i = bs" if "r = Inr ()"
    using tripleD [OF t, of s] start run that by (auto simp: holds_exactly_def)
  show "fs_dir s' n = Some (RegularFile i) \<and> file_bytes s' i = file_bytes s i"
    if n: "n \<noteq> temp_name u" "fs_dir s n = Some (RegularFile i)"
  proof -
    have "i < fs_next s" using wf n(2) unfolding fs_wf_def by metis
    then have "file_bytes s' i = file_bytes s i" using safe by (simp add: safe_publish_def others_def file_bytes_def)
    moreover have "fs_dir s' n = fs_dir s n"
      using safe n by (cases "n = name") (auto simp: safe_publish_def others_def old_name_def new_name_def ok_def)
    ultimately show ?thesis using n(2) by simp
  qed
qed

interpretation node_files: node_directory E "fs_host uuid" fs_wf for E uuid
proof (unfold_locales)
  fix s bs r s'
  assume s: "fs_wf s" "length bs \<le> MAX_NODE_BYTES"
    and run: "nh_publish (fs_host uuid) (node_filename (pe_sha256 E bs)) bs s = (r, s')"
  note p = publish_files [OF s(1) temp_not_node run [unfolded fs_host_simps]]
  show "fs_wf s' \<and> (r = Inr () \<longrightarrow>
      ps_loose (nh_view (fs_host uuid) s') (node_filename (pe_sha256 E bs)) = Inr (Some bs))"
    using p(1,2) s(2) by (auto simp: loose_file)
  show "ps_loose (nh_view (fs_host uuid) s') (node_filename d) = Inr (Some bs')"
    if "ps_loose (nh_view (fs_host uuid) s) (node_filename d) = Inr (Some bs')" for d bs'
    using that p(3) [of "node_filename d"] temp_not_node [of "uuid s" d] by (fastforce simp: loose_file)
qed simp

end
