(* ===== verification/Patricia_Bulk.thy ===== *)
theory Patricia_Bulk
  imports Patricia_Update
begin

text \<open>
  The bulk side of \<open>src/authenticated_patricia.rs\<close>: the root of a complete sorted record set, derived
  without any store.  A \<open>BTreeMap\<close> of records is the list of its pairs in key order.
\<close>

fun left_records :: "nat \<Rightarrow> (bytes \<times> bytes) list \<Rightarrow> 'p patricia_error + nat" where
  "left_records split [] = Inr 0"
| "left_records split ((key, value) # records) =
     bind_res (key_bit key split) (\<lambda>b.
       if b then Inr 0 else bind_res (left_records split records) (\<lambda>n. Inr (Suc n)))"

fun all_right :: "nat \<Rightarrow> (bytes \<times> bytes) list \<Rightarrow> 'p patricia_error + unit" where
  "all_right split [] = Inr ()"
| "all_right split ((key, value) # records) =
     bind_res (key_bit key split) (\<lambda>b. if \<not> b then Inl PatriciaMalformed else all_right split records)"

definition bulk_partition :: "(bytes \<times> bytes) list \<Rightarrow> nat \<Rightarrow> 'p patricia_error + nat" where
  "bulk_partition records split =
     bind_res (left_records split records) (\<lambda>p. bind_res (all_right split (drop p records)) (\<lambda>_. Inr p))"

function derive_complete_records :: "patricia_env \<Rightarrow> (bytes \<times> bytes) list \<Rightarrow> 'p patricia_error + digest" where
  "derive_complete_records E records =
     (case records of
        [] \<Rightarrow> Inl PatriciaMalformed
      | (key, value) # tail \<Rightarrow>
          if tail = [] then digest_node E (Leaf NODE_SCHEMA_VERSION key value)
          else
            bind_res (bind_res (key_bit_len key) (common_prefix_bits key (fst (List.last records)))) (\<lambda>split.
            bind_res (bulk_partition records split) (\<lambda>partition.
              if partition = 0 \<or> partition = length records then Inl PatriciaMalformed
              else
                bind_res (derive_complete_records E (take partition records)) (\<lambda>l.
                bind_res (derive_complete_records E (drop partition records)) (\<lambda>r.
                bind_res (u16_of split) (\<lambda>bits.
                  digest_node E (Branch NODE_SCHEMA_VERSION (masked_prefix key split) bits l r)))))))"
  by pat_completeness auto

lemma left_records_le: "left_records split records = Inr p \<Longrightarrow> p \<le> length records"
proof (induction records arbitrary: p)
  case (Cons e records)
  then show ?case by (cases e) (auto simp: bind_res_Inr split: if_splits)
qed simp

lemma bulk_partition_le: "bulk_partition records split = Inr p \<Longrightarrow> p \<le> length records"
  by (auto simp: bulk_partition_def bind_res_Inr dest: left_records_le)

termination derive_complete_records
  by (relation "measure (\<lambda>(E, records). length records)") (auto dest!: bulk_partition_le)

definition derive_complete_root :: "patricia_env \<Rightarrow> (bytes \<times> bytes) list \<Rightarrow> 'p patricia_error + digest" where
  "derive_complete_root E records =
     (if records = [] then Inr (empty_root E)
      else bind_res (validate_records records) (\<lambda>_. derive_complete_records E records))"

declare derive_complete_records.simps [simp del]

section \<open>The derived root is the root of the tree\<close>

lemma digest_node_ok:
  assumes "node_codec E" "valid_node E n"
  shows "digest_node E n = (Inr (node_digest E n) :: 'p patricia_error + digest)"
proof -
  from assms obtain bs where bs: "to_vec (pe_node E) n = Inr bs" "length bs \<le> CONSTRUCTION_MAX_VALID_NODE_BYTES"
    by (auto simp: node_codec_def valid_node_def)
  then show ?thesis
    using node_size_limit valid_nodeD [OF assms(2), where 'p = 'p] node_digest_vec [OF bs(1)]
    by (simp add: digest_node_def)
qed

lemma left_records_append:
  "(\<And>k. k \<in> fst ` set ls \<Longrightarrow> key_bit k b = (Inr False :: 'p patricia_error + bool))
    \<Longrightarrow> key_bit k b = (Inr True :: 'p patricia_error + bool)
    \<Longrightarrow> left_records b (ls @ (k, v) # rs) = (Inr (length ls) :: 'p patricia_error + nat)"
  by (induction ls) auto

lemma all_right_ok:
  "(\<And>k. k \<in> fst ` set rs \<Longrightarrow> key_bit k b = (Inr True :: 'p patricia_error + bool))
    \<Longrightarrow> all_right b rs = (Inr () :: 'p patricia_error + unit)"
  by (induction rs) auto

lemma bulk_partition_branch:
  assumes w: "wf_tree (PBranch b l r)"
  shows "bulk_partition (entries l @ entries r) b = (Inr (length (entries l)) :: 'p patricia_error + nat)"
proof -
  have kl: "key_bit k b = (Inr False :: 'p patricia_error + bool)" if "k \<in> fst ` set (entries l)" for k
    using wf_left [OF w, of k] wf_key_length [of l k] w that by (simp add: keys_def key_bit_ok)
  have kr: "key_bit k b = (Inr True :: 'p patricia_error + bool)" if "k \<in> fst ` set (entries r)" for k
    using wf_right [OF w, of k] wf_key_length [of r k] w that by (simp add: keys_def key_bit_ok)
  obtain k v rs where r: "entries r = (k, v) # rs" using entries_nonempty [of r] by (metis list.exhaust surj_pair)
  have "left_records b (entries l @ (k, v) # rs) = (Inr (length (entries l)) :: 'p patricia_error + nat)"
    by (intro left_records_append kl kr) (simp_all add: r)
  moreover have "all_right b (entries r) = (Inr () :: 'p patricia_error + unit)" by (rule all_right_ok [OF kr])
  ultimately show ?thesis by (simp add: bulk_partition_def flip: r)
qed

lemma entries_first: obtains v tl where "entries t = (first_key t, v) # tl"
  by (induction t) auto

lemma derive_step:
  assumes "records = (key, value) # tail" "tail \<noteq> []"
  shows "derive_complete_records E records =
    bind_res (bind_res (key_bit_len key) (common_prefix_bits key (fst (List.last records)))) (\<lambda>split.
    bind_res (bulk_partition records split) (\<lambda>partition.
      if partition = 0 \<or> partition = length records then Inl PatriciaMalformed
      else
        bind_res (derive_complete_records E (take partition records)) (\<lambda>l.
        bind_res (derive_complete_records E (drop partition records)) (\<lambda>r.
        bind_res (u16_of split) (\<lambda>bits.
          digest_node E (Branch NODE_SCHEMA_VERSION (masked_prefix key split) bits l r))))))"
  using assms by (subst derive_complete_records.simps) simp

lemma derive_tree:
  assumes E: "node_codec E" "collision_free E N"
  shows "wf_tree t \<Longrightarrow> tree_nodes E t \<subseteq> N \<Longrightarrow> derive_complete_records E (entries t) = (Inr (tree_digest E t) :: 'p patricia_error + digest)"
proof (induction t)
  case (PLeaf k v)
  have "valid_node E (node_of E (PLeaf k v))" by (rule valid_node_of [OF PLeaf.prems(1) E(2) PLeaf.prems(2)])
  then show ?case
    by (subst derive_complete_records.simps) (simp add: digest_node_ok [OF E(1)] tree_digest_def)
next
  case (PBranch b l r)
  note w = PBranch.prems(1)
  let ?es = "entries l @ entries r"
  obtain v tl where hd: "entries l = (first_key l, v) # tl" by (rule entries_first)
  have last: "fst (List.last ?es) \<in> keys r" using List.last_in_set [of "entries r"] by (auto simp: keys_def)
  then have len: "length (fst (List.last ?es)) \<le> MAX_KEY_BYTES" using wf_key_length [of r] w by simp
  have split: "shared (first_key l) (fst (List.last ?es)) = b" by (rule wf_split [OF w first_key_in last])
  note f = branch_bits [OF w]
  have cp: "bind_res (key_bit_len (first_key l)) (common_prefix_bits (first_key l) (fst (List.last ?es)))
      = (Inr b :: 'p patricia_error + nat)"
    using f split len by (simp add: key_bit_len_ok common_prefix_bits_ok flip: shared_def)
  have ne: "length (entries l) \<noteq> 0" "length (entries l) \<noteq> length ?es" by simp_all
  have sub: "tree_nodes E l \<subseteq> N" "tree_nodes E r \<subseteq> N" using PBranch.prems(2) by auto
  have "valid_node E (node_of E (PBranch b l r))" by (rule valid_node_of [OF w E(2) PBranch.prems(2)])
  then have d: "digest_node E (Branch 1 (masked_prefix (first_key l) b) (word_of_nat b) (tree_digest E l) (tree_digest E r))
      = (Inr (tree_digest E (PBranch b l r)) :: 'p patricia_error + digest)"
    using digest_node_ok [OF E(1)] by (simp add: tree_digest_def)
  have tl: "tl @ entries r \<noteq> []" by simp
  have es: "?es = (first_key l, v) # tl @ entries r" by (simp add: hd)
  have "derive_complete_records E ?es = (Inr (tree_digest E (PBranch b l r)) :: 'p patricia_error + digest)"
    using cp bulk_partition_branch [OF w, where 'p = 'p] ne d f(2) PBranch.IH w sub
    by (simp add: derive_step [OF es tl] u16_of_def)
  then show ?case by simp
qed

end
