(* ===== verification/Patricia_Properties.thy ===== *)
theory Patricia_Properties
  imports Patricia_Host Patricia_Bulk
begin

text \<open>
  What the authenticated index promises: insertion and removal refine the update of a finite map, the root
  digest is a canonical commitment to the map, an acknowledged insertion is readable from the directory,
  and readers cannot be made to see different contents under one root.
\<close>

section \<open>The root commits to the content\<close>

lemma node_of_inject:
  assumes "node_of E (PBranch b l r) = node_of E (PBranch b' l' r')" "wf_tree (PBranch b l r)" "wf_tree (PBranch b' l' r')"
  shows "b = b' \<and> tree_digest E l = tree_digest E l' \<and> tree_digest E r = tree_digest E r'"
proof -
  have "(word_of_nat b :: 16 word) = word_of_nat b'" using assms(1) by simp
  then have "b = b'" using branch_bits(1) [OF assms(2)] branch_bits(1) [OF assms(3)] by metis
  then show ?thesis using assms(1) by simp
qed

lemma tree_digest_inject:
  assumes "collision_free E N"
  shows "wf_tree t \<Longrightarrow> wf_tree t' \<Longrightarrow> tree_nodes E t \<subseteq> N \<Longrightarrow> tree_nodes E t' \<subseteq> N
    \<Longrightarrow> tree_digest E t = tree_digest E t' \<Longrightarrow> t = t'"
proof (induction t arbitrary: t')
  case (PLeaf k v)
  have "node_of E (PLeaf k v) \<in> N" "node_of E t' \<in> N" using PLeaf.prems(3,4) tree_node_root by blast+
  then have "node_of E (PLeaf k v) = node_of E t'"
    using assms PLeaf.prems(5) unfolding collision_free_def tree_digest_def by (meson inj_onD)
  then show ?case by (cases t') auto
next
  case (PBranch b l r)
  have "node_of E (PBranch b l r) \<in> N" "node_of E t' \<in> N" using PBranch.prems(3,4) tree_node_root by blast+
  then have eq: "node_of E (PBranch b l r) = node_of E t'"
    using assms PBranch.prems(5) unfolding collision_free_def tree_digest_def by (meson inj_onD)
  then obtain b' l' r' where t': "t' = PBranch b' l' r'" by (cases t') auto
  note i = node_of_inject [OF eq [unfolded t'] PBranch.prems(1) PBranch.prems(2) [unfolded t']]
  then show ?case using PBranch by (auto simp: t')
qed

lemma root_of_inject:
  assumes "collision_free E N" "wf_opt t" "wf_opt t'" "nodes_opt E t \<subseteq> N" "nodes_opt E t' \<subseteq> N"
    "root_of E t = root_of E t'"
  shows "t = t'"
proof (cases t)
  case None
  show ?thesis
  proof (cases t')
    case (Some u)
    then have "tree_digest E u \<noteq> empty_root E" using assms(5) by (intro tree_digest_nonempty [OF assms(1)]) simp
    then show ?thesis using assms(6) None Some by simp
  qed (simp add: None)
next
  case (Some u)
  then have "tree_digest E u \<noteq> empty_root E" using assms(4) by (intro tree_digest_nonempty [OF assms(1)]) simp
  then obtain u' where u': "t' = Some u'" using assms(6) Some by (cases t') auto
  have "u = u'" using assms(2-6) Some u' by (intro tree_digest_inject [OF assms(1), of u u']) simp_all
  then show ?thesis using Some u' by simp
qed

lemma passed_last: "nodes_opt E (tinsert_all records t) \<subseteq> passed_nodes E records t"
  by (induction records t rule: tinsert_all.induct) auto

lemma stage_many_ok:
  fixes rd :: "'p node_source"
  assumes E: "node_codec E" "collision_free E N" and t: "wf_opt t" "stored_opt E rd t"
    and records: "admissible records (content t)" "passed_nodes E records t \<subseteq> N" "length records \<le> 2 ^ 34"
  shows "\<exists>st. stage_many E rd (root_of E t) records = (Inr (root_of E (tinsert_all records t), st) :: 'p patricia_error + _)
    \<and> stored_opt E (read_staged_or_persisted rd st) (tinsert_all records t)"
proof -
  have "length records * (STAGES_PER_INSERT * CONSTRUCTION_MAX_VALID_NODE_BYTES)
      \<le> 2 ^ 34 * (STAGES_PER_INSERT * CONSTRUCTION_MAX_VALID_NODE_BYTES)"
    by (rule mult_le_mono1 [OF records(3)])
  also have "\<dots> < 2 ^ 64"
    by (simp add: STAGES_PER_INSERT_def CONSTRUCTION_MAX_VALID_NODE_BYTES_def MAX_VALUE_BYTES_def MAX_KEY_BYTES_def)
  finally have st0: "staged_ok E N staged_default" "room (length records * STAGES_PER_INSERT) staged_default"
    by (simp_all add: staged_ok_def staged_default_def ordered_def room_def mult.assoc)
  have c: "covered_opt E rd staged_default t" using t(2) by (cases t) (simp_all add: stored_covered)
  from stage_records_ok [OF E t(1) records(1) c records(2) st0] obtain st where
    st: "stage_records E rd (root_of E t) records staged_default
      = (Inr (root_of E (tinsert_all records t)) :: 'p patricia_error + digest, st)" "staged_ok E N st"
      "covered_opt E rd st (tinsert_all records t)" by blast
  have v: "validate_records records = (Inr () :: 'p patricia_error + unit)"
    using records(1) validate_records_any by (auto simp: admissible_def)
  have "nodes_opt E (tinsert_all records t) \<subseteq> N" using passed_last records(2) by blast
  then have "stored_opt E (read_staged_or_persisted rd st) (tinsert_all records t)"
    using covered_stored [OF _ st(2) E(2)] st(3) by (cases "tinsert_all records t") auto
  then show ?thesis by (simp add: stage_many_def v st(1))
qed

lemma map_of_rev: "distinct (map fst xs) \<Longrightarrow> map_of (rev xs) = map_of xs"
  by (rule ext, rule option.expand)
    (auto simp: rev_map [symmetric] map_of_eq_None_iff map_of_eq_Some_iff dest!: map_of_SomeD intro: sym)

lemma not_inside_starts:
  "(\<forall>k' \<in> keys t. starts_with k' k \<longrightarrow> k' = k) \<Longrightarrow> not_inside k t"
  using starts_with_shared shared_le(1) unfolding not_inside_def by (metis le_neq_implies_less)

section \<open>Insertion\<close>

text \<open>
  C8. Insertion refines the map update.  Started on a persisted tree, staging admissible records whose keys
  are apart ends with the root of a well-formed tree that holds exactly the old records overridden by the
  new ones, and every node of that tree is staged or persisted; the byte count and the budgets suffice.
\<close>

theorem stage_many_exact:
  fixes S :: "'p patricia_store"
  assumes "node_codec E" "collision_free E (passed_nodes E records t)"
    and "wf_opt t" "stored_opt E (read_node E S) t"
    and "admissible records (content t)" "length records \<le> 2 ^ 34"
  shows "\<exists>t' st. stage_many E (read_node E S) (root_of E t) records = Inr (root_of E t', st)
    \<and> wf_opt t' \<and> content t' = content t ++ map_of (rev records)
    \<and> stored_opt E (read_staged_or_persisted (read_node E S) st) t'"
proof -
  from stage_many_ok [OF assms(1-5) order_refl assms(6)] tinsert_all_ok [OF assms(3,5)] show ?thesis by blast
qed

text \<open>
  C9. The root digest is a canonical commitment: two insertion histories over two stores end with the same
  root exactly when they end with the same records, in whatever order, and from whatever trees.
\<close>

theorem root_commits_to_content:
  fixes rd rd' :: "'p node_source"
  assumes "node_codec E" "collision_free E (passed_nodes E records t \<union> passed_nodes E records' t')"
    and "wf_opt t" "stored_opt E rd t" "admissible records (content t)" "length records \<le> 2 ^ 34"
    and "wf_opt t'" "stored_opt E rd' t'" "admissible records' (content t')" "length records' \<le> 2 ^ 34"
    and "stage_many E rd (root_of E t) records = Inr (root, st)"
    and "stage_many E rd' (root_of E t') records' = Inr (root', st')"
  shows "root = root' \<longleftrightarrow> content t ++ map_of (rev records) = content t' ++ map_of (rev records')"
proof -
  define u where "u = tinsert_all records t"
  define u' where "u' = tinsert_all records' t'"
  note N = assms(2)
  have root: "root = root_of E u" "root' = root_of E u'"
    using stage_many_ok [OF assms(1) N assms(3-5) _ assms(6)] stage_many_ok [OF assms(1) N assms(7-9) _ assms(10)] assms(11,12)
    by (auto simp: u_def u'_def)
  note i = tinsert_all_ok [OF assms(3,5), folded u_def] and i' = tinsert_all_ok [OF assms(7,9), folded u'_def]
  have n: "nodes_opt E u \<subseteq> passed_nodes E records t \<union> passed_nodes E records' t'"
    "nodes_opt E u' \<subseteq> passed_nodes E records t \<union> passed_nodes E records' t'"
    using passed_last [of E records t] passed_last [of E records' t'] by (auto simp: u_def u'_def)
  have "root = root' \<longleftrightarrow> u = u'" using root root_of_inject [OF N conjunct1 [OF i] conjunct1 [OF i'] n] by auto
  also have "\<dots> \<longleftrightarrow> content u = content u'" using content_unique i i' by blast
  finally show ?thesis using i i' by simp
qed

text \<open>
  C35. The root derived from a complete sorted record set, without touching any node, is the root the
  ordinary insertions end with.
\<close>

theorem derive_complete_root_equals_insertion:
  fixes rd :: "'p node_source"
  assumes "node_codec E" "collision_free E (passed_nodes E records None)"
    and "admissible records Map.empty" "length records \<le> 2 ^ 34" "strictly_sorted (map fst records)"
  shows "\<exists>st. stage_many E rd (empty_root E) records
      = bind_res (derive_complete_root E records) (\<lambda>root. Inr (root, st))"
proof -
  define t where "t = tinsert_all records None"
  have adm: "admissible records (content None)" using assms(3) by simp
  obtain st where st: "stage_many E rd (empty_root E) records = (Inr (root_of E t, st) :: 'p patricia_error + _)"
    using stage_many_ok [OF assms(1,2) _ _ adm order_refl assms(4), of rd] by (auto simp: t_def)
  have w: "wf_opt t" "content t = map_of (rev records)" using tinsert_all_ok [OF _ adm] by (simp_all add: t_def)
  have v: "validate_records records = (Inr () :: 'p patricia_error + unit)"
    using assms(3) validate_records_any by (auto simp: admissible_def)
  have "derive_complete_root E records = (Inr (root_of E t) :: 'p patricia_error + digest)"
  proof (cases "records = []")
    case True
    then show ?thesis by (simp add: derive_complete_root_def t_def)
  next
    case False
    have d: "distinct (map fst records)" using assms(5) strict_sorted_iff by (auto simp: strictly_sorted_iff)
    then have m: "map_of (rev records) = map_of records" by (rule map_of_rev)
    have "t \<noteq> None"
    proof
      assume "t = None"
      then have "map_of records = Map.empty" unfolding m [symmetric] w(2) [symmetric] by simp
      then have "dom (map_of records) = {}" by simp
      then show False using False by (simp add: dom_map_of_conv_image_fst)
    qed
    then obtain u where u: "t = Some u" by blast
    have "map_of (entries u) = map_of records" using w(2) u m by simp
    then have "entries u = records"
      using entries_sorted [of u] assms(5) w(1) u by (intro ordered_unique) (auto simp: ordered_def strictly_sorted_iff)
    moreover have "tree_nodes E u \<subseteq> passed_nodes E records None" using passed_last [of E records None] u t_def by simp
    ultimately have "derive_complete_records E records = (Inr (tree_digest E u) :: 'p patricia_error + digest)"
      using derive_tree [OF assms(1,2), of u] w(1) u by simp
    then show ?thesis using False v u by (simp add: derive_complete_root_def)
  qed
  then show ?thesis using st by auto
qed

text \<open>A construction reads its own writes: after an insertion staged on a persisted tree, the lookup and the
  ordered visit during the construction see the updated map, before anything is published.
\<close>

theorem construction_reads_own_writes:
  fixes rd :: "'p node_source"
  assumes E: "node_codec E" "collision_free E (nodes_opt E t \<union> nodes_opt E (tinsert_opt k v t))"
    and k: "validate_record k v = (Inr () :: unit patricia_error + unit)"
    and t: "wf_opt t" "stored_opt E rd t" "prefix_free (insert k (dom (content t)))"
    and run: "insert_staged E rd (root_of E t) k v staged_default = (Inr root, st)"
    and key: "key \<noteq> []" "length key \<le> 96" "\<forall>k' \<in> insert k (dom (content t)). starts_with k' key \<longrightarrow> k' = key"
  shows "construction_lookup E rd st root key = Inr (((content t)(k \<mapsto> v)) key)
    \<and> (\<exists>es. construction_visit_all E rd st root visit s = (Inr (), visit_entries visit es s)
        \<and> strictly_sorted (map fst es) \<and> map_of es = (content t)(k \<mapsto> v))"
proof -
  let ?N = "nodes_opt E t \<union> nodes_opt E (tinsert_opt k v t)"
  obtain u where u: "tinsert_opt k v t = Some u" by (simp add: tinsert_opt_def)
  note w = wf_tinsert_opt [OF t(1) k t(3), unfolded u]
  have wu: "wf_tree u" "map_of (entries u) = (content t)(k \<mapsto> v)" using w by simp_all
  have c: "covered_opt E rd staged_default t" using t(2) by (cases t) (simp_all add: stored_covered)
  have s0: "staged_ok E ?N staged_default" "room (0 + STAGES_PER_INSERT) staged_default"
    by (simp_all add: staged_ok_def staged_default_def ordered_def room_def STAGES_PER_INSERT_def
        CONSTRUCTION_MAX_VALID_NODE_BYTES_def MAX_VALUE_BYTES_def MAX_KEY_BYTES_def)
  from insert_staged_ok [OF E k c t(1,3) _ _ s0] have
    st1: "root = tree_digest E u" "staged_step E ?N 0 staged_default st" "covered E rd st u" using u run by auto
  have nodes: "tree_nodes E u \<subseteq> ?N" using u by simp
  have rd: "stored E (read_staged_or_persisted rd st) u"
    using st1(2) by (intro covered_stored [OF st1(3) _ E(2) nodes]) (simp add: staged_step_def)
  have ne: "tree_digest E u \<noteq> empty_root E" by (rule tree_digest_nonempty [OF E(2) nodes])
  have len: "length key \<le> MAX_KEY_BYTES" using key(2) by (simp add: MAX_KEY_BYTES_def)
  have "keys u = insert k (dom (content t))" using wu(2) by (metis dom_content dom_fun_upd option.distinct(1))
  then have "not_inside key u" using key(3) by (intro not_inside_starts) simp
  then have "lookup_loop (read_staged_or_persisted rd st) key (8 * length key + 1) (tree_digest E u) None
      = Inr (map_of (entries u) key)"
    using rd wu(1) len by (intro lookup_loop_ok) (simp_all add: budget_start)
  moreover have "validate_key key = (Inr () :: 'p patricia_error + unit)" using key(1) len by (simp add: validate_key_Inr)
  ultimately have "construction_lookup E rd st root key = Inr (((content t)(k \<mapsto> v)) key)"
    using ne len wu(2) by (simp add: construction_lookup_def lookup_from_def st1(1) traversal_node_budget_ok)
  moreover have "list_all2 (pends E (read_staged_or_persisted rd st)) [(tree_digest E u, None, 8 * MAX_KEY_BYTES + 1)] [u]"
    using pends_root [OF rd wu(1)] by (simp add: MAX_KEY_BITS_def mult.commute)
  from visit_loop_ok [OF this, of visit s] have
    "construction_visit_all E rd st root visit s = (Inr (), visit_entries visit (entries u) s)"
    using ne by (simp add: construction_visit_all_def visit_from_def traversal_node_budget_ok st1(1))
  ultimately show ?thesis using wu(2) entries_sorted [OF wu(1)] by blast
qed

section \<open>Removal\<close>



text \<open>Removing a record just inserted restores the root: after inserting a record with a fresh key, its
  removal during the same construction ends with the root the insertion started from.
\<close>

theorem remove_undoes_insert:
  fixes rd :: "'p node_source"
  assumes E: "node_codec E" "collision_free E (nodes_opt E t \<union> nodes_opt E (tinsert_opt k v t))"
    and k: "validate_record k v = (Inr () :: unit patricia_error + unit)"
    and t: "wf_opt t" "stored_opt E rd t" "prefix_free (insert k (dom (content t)))" "content t k = None"
  shows "\<exists>root st1 st2. insert_staged E rd (root_of E t) k v staged_default = (Inr root, st1)
    \<and> remove_constructed E rd root k st1 = (Inr (root_of E t) :: 'p patricia_error + digest, st2)"
proof -
  let ?N = "nodes_opt E t \<union> nodes_opt E (tinsert_opt k v t)"
  have len: "length k \<le> MAX_KEY_BYTES" using k by (simp add: validate_record_Inr)
  obtain u where u: "tinsert_opt k v t = Some u" by (simp add: tinsert_opt_def)
  note w = wf_tinsert_opt [OF t(1) k t(3), unfolded u]
  have wu: "wf_tree u" "map_of (entries u) = (content t)(k \<mapsto> v)" using w by simp_all
  have undone: "tremove k u = t"
  proof (rule content_unique [OF _ t(1)])
    have "(content t)(k := None) = content t" using t(4) by auto
    then show "content (tremove k u) = content t" using wf_tremove_opt(2) [of "Some u" k] wu by simp
  qed (use wf_tremove_opt(1) [of "Some u" k] wu in simp)
  have c: "covered_opt E rd staged_default t" using t(2) by (cases t) (simp_all add: stored_covered)
  have s0: "staged_ok E ?N staged_default" "room (771 + STAGES_PER_INSERT) staged_default"
    by (simp_all add: staged_ok_def staged_default_def ordered_def room_def STAGES_PER_INSERT_def
        CONSTRUCTION_MAX_VALID_NODE_BYTES_def MAX_VALUE_BYTES_def MAX_KEY_BYTES_def)
  from insert_staged_ok [OF E k c t(1,3) _ _ s0] obtain st1 where
    st1: "insert_staged E rd (root_of E t) k v staged_default = (Inr (tree_digest E u) :: 'p patricia_error + digest, st1)"
      "staged_step E ?N 771 staged_default st1" "covered E rd st1 u" using u by auto
  have nodes: "tree_nodes E u \<subseteq> ?N" "nodes_opt E t \<subseteq> ?N" using u by auto
  have st: "staged_ok E ?N st1" "room (0 + 771) st1" using st1(2) by (simp_all add: staged_step_def)
  have rd: "stored E (read_staged_or_persisted rd st1) u" by (rule covered_stored [OF st1(3) st(1) E(2) nodes(1)])
  have ni: "not_inside k u"
  proof -
    have "k \<in> keys u" using wu(2) by (metis dom_content domI fun_upd_same)
    then show ?thesis using wf_apart [OF wu(1)] by (fastforce simp: not_inside_def apart_def)
  qed
  obtain r st2 where run: "remove_constructed E rd (tree_digest E u) k st1 = (r :: 'p patricia_error + digest, st2)" by force
  have "r = Inr (root_of E t)"
  proof (cases t)
    case None
    then obtain v' where "u = PLeaf k v'" using undone tremove_None by metis
    then show ?thesis
      using remove_with_leaf [OF tree_digest_nonempty [OF E(2) nodes(1)] rd wu(1) len ni, of v' "stage E" st1] run None
      by (simp add: remove_constructed_def)
  next
    case (Some t0)
    have ready: "staged_ok E ?N st1 \<and> room (0 + 771) st1" using st by simp
    have t0: "tree_nodes E t0 \<subseteq> ?N" "tremove k u = Some t0" using Some undone by auto
    note ok = staging.remove_with_ok [OF E wu(1) rd nodes(1) len ni t0 ready run [unfolded remove_constructed_def]]
    then show ?thesis using Some by (cases r) auto
  qed
  then show ?thesis using st1(1) run by blast
qed

section \<open>Publication\<close>

text \<open>
  C10. An acknowledged insertion is in the directory.  Over the file system, whatever calls fail, insertion
  into a persisted tree keeps every readable node, and either reports a publication error or returns the
  root of a well-formed tree with exactly the updated records, all of whose nodes can be read back.
\<close>

theorem insert_many_published:
  assumes "node_codec E" "collision_free E (passed_nodes E records t)"
    and "wf_opt t" "stored_opt E (read_node E (nh_view (fs_host uuid) s)) t"
    and "admissible records (content t)" "length records \<le> 2 ^ 34" "fs_wf s"
    and "insert_many E (fs_host uuid) (root_of E t) records s = (r, s')"
  shows "(\<forall>n. readable E (fs_host uuid) n s \<longrightarrow> readable E (fs_host uuid) n s')
    \<and> (case r of Inl e \<Rightarrow> \<exists>p. e = PatriciaPublication p
       | Inr root \<Rightarrow> \<exists>t'. root = root_of E t' \<and> wf_opt t' \<and> content t' = content t ++ map_of (rev records)
           \<and> stored_opt E (read_node E (nh_view (fs_host uuid) s')) t')"
proof -
  have "length records * (STAGES_PER_INSERT * CONSTRUCTION_MAX_VALID_NODE_BYTES)
      \<le> 2 ^ 34 * (STAGES_PER_INSERT * CONSTRUCTION_MAX_VALID_NODE_BYTES)"
    by (rule mult_le_mono1 [OF assms(6)])
  also have "\<dots> < 2 ^ 64"
    by (simp add: STAGES_PER_INSERT_def CONSTRUCTION_MAX_VALID_NODE_BYTES_def MAX_VALUE_BYTES_def MAX_KEY_BYTES_def)
  finally have "length records * STAGES_PER_INSERT * CONSTRUCTION_MAX_VALID_NODE_BYTES < 2 ^ 64" by (simp add: mult.assoc)
  from node_files.insert_many_ok [OF assms(1-5) order_refl this assms(7,8)] tinsert_all_ok [OF assms(3,5)]
  show ?thesis by (cases r) auto
qed

text \<open>
  C34. Removal over the directory: it keeps every readable node, and when it is acknowledged the root is that
  of a well-formed tree with exactly the record of the key dropped, all of whose nodes can be read back; a
  key that is not present leaves the root as it was.
\<close>

theorem remove_key_published:
  assumes "node_codec E" "collision_free E (tree_nodes E t \<union> nodes_opt E (tremove k t))"
    and "wf_tree t" "stored E (read_node E (nh_view (fs_host uuid) s)) t"
    and "length k \<le> 96" "\<forall>k' \<in> keys t. starts_with k' k \<longrightarrow> k' = k" "fs_wf s"
    and "remove_key E (fs_host uuid) (tree_digest E t) k s = (Inr root, s')"
  shows "(\<forall>n. readable E (fs_host uuid) n s \<longrightarrow> readable E (fs_host uuid) n s')
    \<and> (\<exists>t'. root = root_of E t' \<and> wf_opt t' \<and> content t' = (map_of (entries t))(k := None)
        \<and> stored_opt E (read_node E (nh_view (fs_host uuid) s')) t')
    \<and> (k \<notin> keys t \<longrightarrow> root = tree_digest E t)"
proof -
  have k: "length k \<le> MAX_KEY_BYTES" using assms(5) by (simp add: MAX_KEY_BYTES_def)
  note ok = node_files.remove_key_ok [OF assms(1-4) _ k not_inside_starts [OF assms(6)] _ assms(7,8)]
  have "tremove k t = Some t" if "k \<notin> keys t" using that by (rule tremove_absent)
  then show ?thesis using ok wf_tremove_opt [of "Some t" k] assms(3) by auto
qed

section \<open>Authenticity\<close>

text \<open>The bytes a store holds in its directory.\<close>

definition held_bytes :: "'p patricia_store \<Rightarrow> bytes set" where
  "held_bytes S = {bs. \<exists>name. ps_loose S name = Inr (Some bs)}"

lemma read_node_bytes:
  assumes "read_node E S d = Inr n" "ps_packed S d = Inr None"
  shows "\<exists>bs \<in> held_bytes S. pe_sha256 E bs = d \<and> to_vec (pe_node E) n = Inr bs \<and> from_slice (pe_node E) bs = Inr n"
  using assms by (auto simp: read_node_def bind_res_Inr held_bytes_def split: option.splits if_splits)

lemma read_node_agree:
  fixes S S' :: "'p patricia_store"
  assumes "inj_on (pe_sha256 E) (held_bytes S \<union> held_bytes S')" "\<forall>d. ps_packed S d = Inr None" "\<forall>d. ps_packed S' d = Inr None"
    and "read_node E S d = Inr n" "read_node E S' d = Inr n'"
  shows "n = n'"
proof -
  from read_node_bytes [OF assms(4)] read_node_bytes [OF assms(5)] assms(2,3)
  obtain bs bs' where "bs \<in> held_bytes S" "bs' \<in> held_bytes S'" "pe_sha256 E bs = pe_sha256 E bs'"
    "from_slice (pe_node E) bs = Inr n" "from_slice (pe_node E) bs' = Inr n'" by metis
  moreover from this have "bs = bs'" using assms(1) by (auto dest: inj_onD)
  ultimately show ?thesis by simp
qed

lemma lookup_loop_agree:
  fixes rd rd' :: "'p node_source"
  assumes "\<And>d n n'. rd d = Inr n \<Longrightarrow> rd' d = Inr n' \<Longrightarrow> n = n'"
  shows "lookup_loop rd key m d c = Inr x \<Longrightarrow> lookup_loop rd' key m d c = Inr y \<Longrightarrow> x = y"
proof (induction m arbitrary: d c)
  case (Suc m)
  from Suc.prems obtain n n' where n: "rd d = Inr n" "rd' d = Inr n'" by (auto simp: bind_res_Inr)
  then have "n' = n" using assms by blast
  then show ?case using Suc n by (cases n) (auto simp: bind_res_Inr Let_def split: if_splits)
qed simp


end
