(* ===== verification/Patricia_Instances.thy ===== *)
theory Patricia_Instances
  imports Patricia_Properties
begin

text \<open>
  A concrete environment for the index: a small node codec with the documented behaviour, the first bytes
  as the hash, two small trees, stores that hold them, and the properties applied there.
\<close>

fun demo_to_vec :: "patricia_node \<Rightarrow> string + bytes" where
  "demo_to_vec (Leaf version k v) =
     (if version = 1 \<and> length k \<le> 255 then Inr (0 # word_of_nat (length k) # k @ v) else Inl ''unsupported'')"
| "demo_to_vec (Branch version prefix bits l r) =
     (if version = 1
      then Inr (1 # word_of_nat (unat bits div 256) # word_of_nat (unat bits mod 256) # array_bytes l @ array_bytes r @ prefix)
      else Inl ''unsupported'')"

definition demo_from_slice :: "bytes \<Rightarrow> string + patricia_node" where
  "demo_from_slice bs =
     (case bs of
        tag # n # rest \<Rightarrow>
          if tag = 0 then Inr (Leaf 1 (take (unat n) rest) (drop (unat n) rest))
          else (case rest of [] \<Rightarrow> Inl ''short'' | lo # rest' \<Rightarrow>
            Inr (Branch 1 (drop 64 rest') (word_of_nat (256 * unat n + unat lo))
              (mk_array (take 32 rest')) (mk_array (take 32 (drop 32 rest')))))
      | _ \<Rightarrow> Inl ''short'')"

definition demo_pe :: patricia_env where
  "demo_pe = \<lparr>pe_sha256 = mk_array, pe_node = \<lparr>to_vec = demo_to_vec, from_slice = demo_from_slice\<rparr>\<rparr>"

lemma u16_parts: "word_of_nat (256 * (unat (w :: 16 word) div 256) + unat w mod 256) = w"
proof -
  have "256 * (unat w div 256) + unat w mod 256 = unat w" by simp
  then show ?thesis by simp
qed

lemma unat_byte: "n < 256 \<Longrightarrow> unat (word_of_nat n :: byte) = n"
  by (simp add: unsigned_of_nat take_bit_nat_eq_self)

lemma demo_decodes: "demo_to_vec n = Inr bs \<Longrightarrow> demo_from_slice bs = Inr n"
proof (cases n)
  case (Leaf version k v)
  assume "demo_to_vec n = Inr bs"
  then show ?thesis by (auto simp: Leaf demo_from_slice_def unat_byte split: if_splits)
next
  case (Branch version prefix bits l r)
  have b: "unat bits div 256 < 256" "unat bits mod 256 < 256" using unat_less_2p [of bits] by auto
  assume "demo_to_vec n = Inr bs"
  then show ?thesis using b
    by (auto simp: Branch demo_from_slice_def unat_byte u16_parts simp del: of_nat_add of_nat_mult split: if_splits)
qed

lemma demo_codec: "node_codec demo_pe"
  unfolding node_codec_def
proof (intro conjI allI impI)
  show "roundtrips (pe_node demo_pe)" by (simp add: roundtrips_def demo_pe_def demo_decodes)
  fix n assume v: "validate_node demo_pe n = (Inr () :: unit patricia_error + unit)"
  show "\<exists>bs. to_vec (pe_node demo_pe) n = Inr bs \<and> length bs \<le> CONSTRUCTION_MAX_VALID_NODE_BYTES"
  proof (cases n)
    case (Leaf version k val)
    then show ?thesis using v
      by (simp add: demo_pe_def validate_node_def validate_record_Inr NODE_SCHEMA_VERSION_def
          CONSTRUCTION_MAX_VALID_NODE_BYTES_def MAX_VALUE_BYTES_def MAX_KEY_BYTES_def split: if_splits)
  next
    case (Branch version prefix bits l r)
    have "length prefix \<le> MAX_KEY_BYTES"
      using v div_ceil_le [of "unat bits" MAX_KEY_BYTES]
      by (simp add: Branch validate_node_def Let_def MAX_KEY_BITS_def mult.commute split: if_splits)
    then show ?thesis using v
      by (simp add: Branch demo_pe_def validate_node_def Let_def NODE_SCHEMA_VERSION_def
          CONSTRUCTION_MAX_VALID_NODE_BYTES_def MAX_VALUE_BYTES_def MAX_KEY_BYTES_def split: if_splits)
  qed
qed

text \<open>Digests of the demo nodes: their first bytes tell them apart.\<close>

lemma demo_leaf_digest: "length k \<le> 255 \<Longrightarrow> node_digest demo_pe (Leaf 1 k v) = mk_array (0 # word_of_nat (length k) # k @ v)"
  by (simp add: node_digest_def node_bytes_def demo_pe_def)

lemma demo_branch_digest:
  "node_digest demo_pe (Branch 1 p n l r)
    = mk_array (1 # word_of_nat (unat n div 256) # word_of_nat (unat n mod 256) # array_bytes l @ array_bytes r @ p)"
  by (simp add: node_digest_def node_bytes_def demo_pe_def)

lemma digest_differs: "x \<noteq> y \<Longrightarrow> (mk_array (x # xs) :: digest) \<noteq> mk_array (y # ys)"
  by (simp add: array_bytes_eq_iff array_bytes_mk_pad)

lemma demo_empty_root: "\<exists>bs. empty_root demo_pe = mk_array (116 # bs)"
  by (simp add: empty_root_def demo_pe_def EMPTY_ROOT_TEXT_def of_char_def) blast

section \<open>Stores that hold a tree\<close>

definition tree_store :: "ptree \<Rightarrow> 'p patricia_store" where
  "tree_store t = \<lparr>
     ps_loose = (\<lambda>name. Inr (map_of (map (\<lambda>u. (node_filename (tree_digest demo_pe u), node_bytes demo_pe (node_of demo_pe u)))
                                      (subtrees t)) name)),
     ps_packed = (\<lambda>_. Inr None)\<rparr>"

lemma node_filename_inject: "node_filename d = node_filename d' \<longleftrightarrow> d = d'"
proof
  assume "node_filename d = node_filename d'"
  then have "display_digest d = display_digest d'" by (simp add: node_filename_def)
  then have "Some (Inr d) = Some (Inr d' :: digest_parse_error + digest)" unfolding parse_digest_display [symmetric] by simp
  then show "d = d'" by simp
qed simp

lemma wf_subtree: "wf_tree t \<Longrightarrow> u \<in> set (subtrees t) \<Longrightarrow> wf_tree u"
  by (induction t) auto

lemma tree_subnodes: "wf_tree t \<Longrightarrow> u \<in> set (subtrees t) \<Longrightarrow> wf_tree u \<and> tree_nodes E u \<subseteq> tree_nodes E t"
  by (auto simp: tree_nodes_def wf_subtree intro: subtrees_trans)

lemma tree_store_stored:
  assumes "collision_free demo_pe (tree_nodes demo_pe t)" "wf_tree t"
  shows "stored demo_pe (read_node demo_pe (tree_store t)) t"
  unfolding stored_def
proof
  fix u assume u: "u \<in> set (subtrees t)"
  let ?f = "\<lambda>u. (node_filename (tree_digest demo_pe u), node_bytes demo_pe (node_of demo_pe u))"
  have sub: "wf_tree u" "tree_nodes demo_pe u \<subseteq> tree_nodes demo_pe t" using tree_subnodes [OF assms(2) u] by auto
  have "map_of (map ?f (subtrees t)) (node_filename (tree_digest demo_pe u)) = Some (node_bytes demo_pe (node_of demo_pe u))"
  proof -
    have "snd (?f v) = node_bytes demo_pe (node_of demo_pe u)"
      if v: "v \<in> set (subtrees t)" "fst (?f v) = node_filename (tree_digest demo_pe u)" for v
    proof -
      have "node_of demo_pe v \<in> tree_nodes demo_pe t" "node_of demo_pe u \<in> tree_nodes demo_pe t"
        using u v(1) by (auto simp: tree_nodes_def)
      then show ?thesis using assms(1) v(2)
        by (auto simp: node_filename_inject tree_digest_def collision_free_def dest: inj_onD)
    qed
    moreover have "map_of (map ?f (subtrees t)) (node_filename (tree_digest demo_pe u)) \<noteq> None"
      using u by (auto simp: map_of_eq_None_iff image_image)
    ultimately show ?thesis by (fastforce dest: map_of_SomeD)
  qed
  then show "read_node demo_pe (tree_store t) (tree_digest demo_pe u) = Inr (node_of demo_pe u)"
    unfolding tree_digest_def
    by (intro read_loose [OF demo_codec valid_node_of [OF sub(1) assms(1) sub(2)]]) (simp_all add: tree_store_def tree_digest_def)
qed

section \<open>Two small trees\<close>

definition leaf1 :: ptree where "leaf1 = PLeaf [0x61, 0x01] [1]"
definition leaf2 :: ptree where "leaf2 = PLeaf [0x61, 0x80] [2]"
definition demo_tree :: ptree where "demo_tree = PBranch 8 leaf1 leaf2"

lemmas demo_defs = leaf1_def leaf2_def demo_tree_def

lemma demo_insert:
  "tinsert_all [([0x61, 0x01], [1]), ([0x61, 0x80], [2])] None = Some demo_tree"
  "tinsert_all [([0x61, 0x80], [2]), ([0x61, 0x01], [1])] None = Some demo_tree"
  "tinsert_opt [0x61, 0x80] [2] (Some leaf1) = Some demo_tree"
  by code_simp+

lemma demo_shared: "shared [0x61, 0x01] [0x61, 0x80] = 8" "shared [0x61, 0x80] [0x61, 0x01] = 8"
  by code_simp+

lemma demo_wf: "wf_tree leaf1" "wf_tree leaf2" "wf_tree demo_tree"
  by (simp_all add: demo_defs demo_shared validate_record_Inr MAX_KEY_BYTES_def MAX_VALUE_BYTES_def bits_of_def
      key_bit_unchecked_def)

lemma demo_keys: "keys demo_tree = {[0x61, 0x01], [0x61, 0x80]}"
  by (auto simp: demo_defs)

lemma demo_digests_differ:
  "node_digest demo_pe (Leaf 1 [0x61, 0x01] [1]) \<noteq> node_digest demo_pe (Leaf 1 [0x61, 0x80] [2])"
  "length k \<le> 255 \<Longrightarrow> node_digest demo_pe (Leaf 1 k v) \<noteq> node_digest demo_pe (Branch 1 p n l r)"
  "length k \<le> 255 \<Longrightarrow> node_digest demo_pe (Leaf 1 k v) \<noteq> empty_root demo_pe"
  "node_digest demo_pe (Branch 1 p n l r) \<noteq> empty_root demo_pe"
  using demo_empty_root digest_differs [of 0 116] digest_differs [of 1 116]
  by (auto simp: demo_leaf_digest demo_branch_digest digest_differs)
    (simp add: array_bytes_eq_iff array_bytes_mk_pad)

lemma demo_collision_free: "N \<subseteq> tree_nodes demo_pe demo_tree \<Longrightarrow> collision_free demo_pe N"
proof (rule collision_free_mono)
  show "collision_free demo_pe (tree_nodes demo_pe demo_tree)"
    using demo_digests_differ demo_digests_differ [symmetric]
    by (simp add: collision_free_def demo_defs)
qed

lemma demo_nonempty: "tree_digest demo_pe demo_tree \<noteq> empty_root demo_pe" "tree_digest demo_pe leaf1 \<noteq> empty_root demo_pe"
  by (rule tree_digest_nonempty [OF demo_collision_free [OF order_refl]], simp add: demo_defs)+

definition demo_store :: "unit patricia_store" where "demo_store = tree_store demo_tree"

lemma demo_stored: "stored demo_pe (read_node demo_pe demo_store) demo_tree"
  unfolding demo_store_def by (rule tree_store_stored [OF demo_collision_free [OF order_refl] demo_wf(3)])

section \<open>The properties there\<close>

theorem lookup_exact_witness:
  "patricia_lookup demo_pe demo_store (tree_digest demo_pe demo_tree) [0x61, 0x80] = Inr (Some [2])"
  using lookup_exact [OF demo_stored demo_wf(3) demo_nonempty(1), of "[0x61, 0x80]"]
  by (simp add: demo_keys) (simp add: demo_defs)

theorem lookup_prefix_key_malformed_witness:
  "patricia_lookup demo_pe demo_store (tree_digest demo_pe demo_tree) [0x61] = Inl PatriciaMalformed
    \<and> map_of (entries demo_tree) [0x61] = None"
  using lookup_prefix_key_malformed [OF demo_stored [unfolded demo_tree_def] demo_wf(3) [unfolded demo_tree_def]
      demo_nonempty(1) [unfolded demo_tree_def], of "[0x61]"]
  by (simp add: demo_defs)

theorem visit_all_exact_witness:
  "visit_all demo_pe demo_store (tree_digest demo_pe demo_tree) (\<lambda>k v acc. (True, acc @ [v])) [] = (Inr (), [[1], [2]])"
  using visit_all_exact [OF demo_stored demo_wf(3) demo_nonempty(1), of "\<lambda>k v acc. (True, acc @ [v])" "[]"]
  by (simp add: demo_defs)

theorem lookup_prefix_exact_witness:
  "lookup_prefix_limited demo_pe demo_store (tree_digest demo_pe demo_tree) [0x61] 1 = Inr [([0x61, 0x01], [1])]"
  using lookup_prefix_exact [OF demo_stored demo_wf(3) demo_nonempty(1), of "[0x61]" 1]
  by (simp add: demo_defs)

definition demo_records :: "(bytes \<times> bytes) list" where
  "demo_records = [([0x61, 0x01], [1]), ([0x61, 0x80], [2])]"

lemma demo_apart: "prefix_free {[0x61, 0x01], [0x61, 0x80]}"
  by (simp add: prefix_free_def apart_def demo_shared)

lemma demo_valid: "validate_record [0x61, 0x01] [1] = Inr ()" "validate_record [0x61, 0x80] [2] = Inr ()"
  by (simp_all add: validate_record_Inr MAX_KEY_BYTES_def MAX_VALUE_BYTES_def)

lemma demo_admissible: "admissible demo_records Map.empty" "admissible (rev demo_records) Map.empty"
  using demo_apart by (simp_all add: admissible_def demo_records_def demo_valid insert_commute)

lemma demo_built: "tinsert_all demo_records None = Some demo_tree" "tinsert_all (rev demo_records) None = Some demo_tree"
  "length demo_records = 2"
  using demo_insert by (simp_all add: demo_records_def)

lemma demo_passed:
  "passed_nodes demo_pe demo_records None \<subseteq> tree_nodes demo_pe demo_tree"
  "passed_nodes demo_pe (rev demo_records) None \<subseteq> tree_nodes demo_pe demo_tree"
  using demo_insert by (auto simp: demo_records_def tinsert_opt_def demo_defs)

theorem stage_many_exact_witness:
  "\<exists>t' st. stage_many demo_pe (read_node demo_pe demo_store) (empty_root demo_pe) demo_records = Inr (root_of demo_pe t', st)
    \<and> content t' = map_of (rev demo_records)"
  using stage_many_exact [OF demo_codec demo_collision_free [OF demo_passed(1)], of demo_store]
  by (simp add: demo_admissible demo_built) blast

lemma demo_stages:
  "\<exists>st. stage_many demo_pe (read_node demo_pe demo_store) (empty_root demo_pe) demo_records
    = Inr (tree_digest demo_pe demo_tree, st)"
  "\<exists>st. stage_many demo_pe (read_node demo_pe demo_store) (empty_root demo_pe) (rev demo_records)
    = Inr (tree_digest demo_pe demo_tree, st)"
  using stage_many_ok [OF demo_codec demo_collision_free [OF demo_passed(1)] _ _ _ order_refl, of "read_node demo_pe demo_store"]
    stage_many_ok [OF demo_codec demo_collision_free [OF demo_passed(2)] _ _ _ order_refl, of "read_node demo_pe demo_store"]
  by (auto simp: demo_admissible demo_built)

theorem root_commits_to_content_witness:
  "\<exists>root st st'. stage_many demo_pe (read_node demo_pe demo_store) (empty_root demo_pe) demo_records = Inr (root, st)
    \<and> stage_many demo_pe (read_node demo_pe demo_store) (empty_root demo_pe) (rev demo_records) = Inr (root, st')"
proof -
  obtain root st root' st' where
    r: "stage_many demo_pe (read_node demo_pe demo_store) (empty_root demo_pe) demo_records = Inr (root, st)"
      "stage_many demo_pe (read_node demo_pe demo_store) (empty_root demo_pe) (rev demo_records) = Inr (root', st')"
    using demo_stages by blast
  have "collision_free demo_pe (passed_nodes demo_pe demo_records None \<union> passed_nodes demo_pe (rev demo_records) None)"
    using demo_passed by (intro demo_collision_free) simp
  from root_commits_to_content [OF demo_codec this _ _ _ _ _ _ _ _ r [folded opt_tree_simps(7) [of demo_pe]]]
  have "root = root'" using map_of_rev [of demo_records] demo_admissible by (simp add: demo_records_def)
  with r show ?thesis by blast
qed

theorem derive_complete_root_equals_insertion_witness:
  "derive_complete_root demo_pe demo_records = (Inr (tree_digest demo_pe demo_tree) :: unit patricia_error + digest)"
proof -
  have "strictly_sorted (map fst demo_records)" by (simp add: demo_records_def)
  with derive_complete_root_equals_insertion [OF demo_codec demo_collision_free [OF demo_passed(1)] demo_admissible(1),
        of "read_node demo_pe demo_store"] obtain st where
    "stage_many demo_pe (read_node demo_pe demo_store) (empty_root demo_pe) demo_records
      = bind_res (derive_complete_root demo_pe demo_records) (\<lambda>root. Inr (root, st))"
    by (auto simp: demo_built)
  moreover obtain st' where "stage_many demo_pe (read_node demo_pe demo_store) (empty_root demo_pe) demo_records
      = Inr (tree_digest demo_pe demo_tree, st')" using demo_stages(1) by blast
  ultimately have "bind_res (derive_complete_root demo_pe demo_records) (\<lambda>root. Inr (root, st))
      = (Inr (tree_digest demo_pe demo_tree, st') :: unit patricia_error + _)" by simp
  then show ?thesis by (auto simp: bind_res_Inr)
qed

theorem remove_undoes_insert_witness:
  "\<exists>root st1 st2. insert_staged demo_pe (read_node demo_pe demo_store) (tree_digest demo_pe leaf1) [0x61, 0x80] [2] staged_default
      = (Inr root, st1)
    \<and> remove_constructed demo_pe (read_node demo_pe demo_store) root [0x61, 0x80] st1
      = (Inr (tree_digest demo_pe leaf1) :: unit patricia_error + digest, st2)"
proof -
  have "collision_free demo_pe (nodes_opt demo_pe (Some leaf1) \<union> nodes_opt demo_pe (tinsert_opt [0x61, 0x80] [2] (Some leaf1)))"
    unfolding demo_insert(3) by (intro demo_collision_free) (simp add: demo_defs)
  from remove_undoes_insert [OF demo_codec this demo_valid(2), of "read_node demo_pe demo_store"] show ?thesis
    using demo_stored demo_wf(1) demo_apart by (simp add: demo_defs stored_branch insert_commute)
qed

text \<open>A second directory with a stray file beside the nodes.\<close>

definition stray_store :: "unit patricia_store" where
  "stray_store = demo_store\<lparr>ps_loose := (\<lambda>name. if name = [0] then Inr (Some [9]) else ps_loose demo_store name)\<rparr>"

lemma demo_held: "held_bytes demo_store \<union> held_bytes stray_store
    \<subseteq> insert [9] (node_bytes demo_pe ` tree_nodes demo_pe demo_tree)"
  by (auto simp: held_bytes_def stray_store_def demo_store_def tree_store_def tree_nodes_def dest!: map_of_SomeD split: if_splits)

lemma demo_held_inj: "inj_on (pe_sha256 demo_pe) (held_bytes demo_store \<union> held_bytes stray_store)"
proof (rule inj_on_subset [OF _ demo_held])
  have "inj_on (\<lambda>n. pe_sha256 demo_pe (node_bytes demo_pe n)) (tree_nodes demo_pe demo_tree)"
    using demo_collision_free [OF order_refl] by (simp add: collision_free_def node_digest_def [abs_def])
  then have "inj_on (pe_sha256 demo_pe) (node_bytes demo_pe ` tree_nodes demo_pe demo_tree)"
    by (auto simp: inj_on_def)
  moreover have "mk_array [9] \<noteq> node_digest demo_pe n" if "n \<in> tree_nodes demo_pe demo_tree" for n
    using that digest_differs [of 9 0] digest_differs [of 9 1]
    by (auto simp: demo_defs demo_leaf_digest demo_branch_digest)
  ultimately show "inj_on (pe_sha256 demo_pe) (insert [9] (node_bytes demo_pe ` tree_nodes demo_pe demo_tree))"
    by (auto simp: demo_pe_def node_digest_def)
qed

lemma stray_reads: "read_node demo_pe stray_store d = read_node demo_pe demo_store d"
proof -
  have "length (node_filename d) \<ge> 14" by (simp add: node_filename_def NODE_SUFFIX_def)
  then have "node_filename d \<noteq> [0]" by auto
  then have "ps_loose stray_store (node_filename d) = ps_loose demo_store (node_filename d)"
    "ps_packed stray_store = ps_packed demo_store" by (simp_all add: stray_store_def)
  then show ?thesis by (simp only: read_node_def)
qed


section \<open>A node directory\<close>

definition leaf_dir :: "outcome list \<Rightarrow> fsys" where
  "leaf_dir outcomes = \<lparr>
     fs_inodes = (\<lambda>_. \<lparr>in_bytes = node_bytes demo_pe (node_of demo_pe leaf1), in_durable = node_bytes demo_pe (node_of demo_pe leaf1)\<rparr>),
     fs_next = 1, fs_dir = [node_filename (tree_digest demo_pe leaf1) \<mapsto> RegularFile 0],
     fs_maybe = (\<lambda>n. [[node_filename (tree_digest demo_pe leaf1) \<mapsto> RegularFile 0] n]),
     fs_outcomes = outcomes, fs_crashed = False\<rparr>"

abbreviation demo_host :: "(filesystem_error, fsys) node_host" where
  "demo_host \<equiv> fs_host (\<lambda>_. [1])"

lemma leaf_dir_wf: "fs_wf (leaf_dir outcomes)"
  by (simp add: fs_wf_def leaf_dir_def)

lemma leaf_dir_stored: "stored demo_pe (read_node demo_pe (nh_view demo_host (leaf_dir outcomes))) leaf1"
proof -
  have v: "valid_node demo_pe (node_of demo_pe leaf1)"
    by (rule valid_node_of [OF demo_wf(1) demo_collision_free [OF order_refl]]) (simp add: demo_defs)
  have "length (node_bytes demo_pe (node_of demo_pe leaf1)) \<le> MAX_NODE_BYTES"
    by (simp add: node_bytes_def demo_pe_def leaf1_def MAX_NODE_BYTES_def)
  then have "read_node demo_pe (nh_view demo_host (leaf_dir outcomes)) (node_digest demo_pe (node_of demo_pe leaf1))
      = Inr (node_of demo_pe leaf1)"
    by (intro read_loose [OF demo_codec v]) (simp_all add: loose_file, simp add: leaf_dir_def file_bytes_def tree_digest_def)
  then show ?thesis by (simp add: stored_def leaf1_def tree_digest_def)
qed

text \<open>The second record is inserted while a call fails; whatever the outcome, the first node stays readable.\<close>

theorem insert_many_published_witness:
  "readable demo_pe demo_host (node_of demo_pe leaf1)
     (snd (insert_many demo_pe demo_host (tree_digest demo_pe leaf1) [([0x61, 0x80], [2])]
       (leaf_dir [Done, Fails (IoError OtherKind [])])))"
proof -
  let ?s = "leaf_dir [Done, Fails (IoError OtherKind [])]"
  obtain r s' where run: "insert_many demo_pe demo_host (root_of demo_pe (Some leaf1)) [([0x61, 0x80], [2])] ?s = (r, s')" by force
  have "passed_nodes demo_pe [([0x61, 0x80], [2])] (Some leaf1) \<subseteq> tree_nodes demo_pe demo_tree"
    by (simp add: demo_insert(3)) (simp add: demo_defs)
  note c = demo_collision_free [OF this]
  have adm: "admissible [([0x61, 0x80], [2])] (content (Some leaf1))"
    using demo_apart by (simp add: admissible_def demo_valid leaf1_def insert_commute)
  have "readable demo_pe demo_host (node_of demo_pe leaf1) ?s"
    using stored_root [OF leaf_dir_stored] by (simp add: readable_def tree_digest_def)
  with insert_many_published [OF demo_codec c _ _ adm _ leaf_dir_wf run] leaf_dir_stored demo_wf(1) run
  show ?thesis by simp
qed

theorem remove_key_published_witness:
  "fst (remove_key demo_pe demo_host (tree_digest demo_pe leaf1) [0x61, 0x01] (leaf_dir [])) = Inr (empty_root demo_pe)
    \<and> (\<exists>t'. empty_root demo_pe = root_of demo_pe t' \<and> content t' = Map.empty)"
proof -
  have inside: "\<forall>k' \<in> keys leaf1. starts_with k' [0x61, 0x01] \<longrightarrow> k' = [0x61, 0x01]" by (simp add: leaf1_def)
  have run: "remove_key demo_pe demo_host (tree_digest demo_pe leaf1) [0x61, 0x01] (leaf_dir []) = (Inr (empty_root demo_pe), leaf_dir [])"
    unfolding remove_key_def
    by (rule remove_with_leaf [OF demo_nonempty(2) leaf_dir_stored demo_wf(1) _ not_inside_starts [OF inside] leaf1_def])
      (simp add: MAX_KEY_BYTES_def)
  have "tree_nodes demo_pe leaf1 \<union> nodes_opt demo_pe (tremove [0x61, 0x01] leaf1) \<subseteq> tree_nodes demo_pe demo_tree"
    by (simp add: demo_defs)
  from remove_key_published [OF demo_codec demo_collision_free [OF this] demo_wf(1) leaf_dir_stored _ inside leaf_dir_wf run]
  obtain t' where "empty_root demo_pe = root_of demo_pe t'" "content t' = (map_of (entries leaf1))([0x61, 0x01] := None)" by auto
  moreover have "(map_of (entries leaf1))([0x61, 0x01] := None) = Map.empty" by (simp add: leaf1_def)
  ultimately show ?thesis using run by auto
qed

theorem construction_reads_own_writes_witness:
  "\<exists>root st. insert_staged demo_pe (read_node demo_pe demo_store) (tree_digest demo_pe leaf1) [0x61, 0x80] [2] staged_default
      = (Inr root, st)
    \<and> construction_lookup demo_pe (read_node demo_pe demo_store) st root [0x61, 0x80] = Inr (Some [2])"
proof -
  have c: "collision_free demo_pe (nodes_opt demo_pe (Some leaf1) \<union> nodes_opt demo_pe (tinsert_opt [0x61, 0x80] [2] (Some leaf1)))"
    unfolding demo_insert(3) by (intro demo_collision_free) (simp add: demo_defs)
  have p: "wf_opt (Some leaf1)" "stored_opt demo_pe (read_node demo_pe demo_store) (Some leaf1)"
    "prefix_free (insert [0x61, 0x80] (dom (content (Some leaf1))))"
    using demo_stored demo_wf(1) demo_apart by (simp_all add: demo_defs stored_branch insert_commute)
  obtain st where s: "insert_staged demo_pe (read_node demo_pe demo_store) (root_of demo_pe (Some leaf1)) [0x61, 0x80] [2] staged_default
      = (Inr (tree_digest demo_pe demo_tree), st)"
  proof -
    have s0: "staged_ok demo_pe (nodes_opt demo_pe (Some leaf1) \<union> nodes_opt demo_pe (tinsert_opt [0x61, 0x80] [2] (Some leaf1))) staged_default"
      "room (0 + STAGES_PER_INSERT) staged_default"
      by (simp_all add: staged_ok_def staged_default_def ordered_def room_def STAGES_PER_INSERT_def
          CONSTRUCTION_MAX_VALID_NODE_BYTES_def MAX_VALUE_BYTES_def MAX_KEY_BYTES_def)
    have "covered_opt demo_pe (read_node demo_pe demo_store) staged_default (Some leaf1)"
      using p(2) by (simp add: stored_covered)
    from insert_staged_ok [OF demo_codec c demo_valid(2) this p(1,3) _ _ s0] show thesis
      using that by (auto simp: demo_insert(3))
  qed
  have "\<forall>k' \<in> insert [0x61, 0x80] (dom (content (Some leaf1))). starts_with k' [0x61, 0x80] \<longrightarrow> k' = [0x61, 0x80]"
    by (simp add: leaf1_def)
  from construction_reads_own_writes [OF demo_codec c demo_valid(2) p s _ _ this, where visit = "\<lambda>_ _ s. (True, s)" and s = "()"] s
  show ?thesis by auto
qed

end
