(* ===== verification/Treap.thy ===== *)
theory Treap
  imports Main
begin

text \<open>
  Treaps: search trees on the keys that are heaps for a second strict order \<open>before\<close> of the keys.  The
  three authenticated maps of the SQLite frontier (causal clocks, accepted batches, documents) are
  such trees, \<open>before\<close> being the order of the keys' hashed priorities.  A treap is determined by the
  map it holds (\<open>treap_unique\<close>), which is what makes the root of an authenticated map independent of
  the history that built it.
\<close>

datatype ('k, 'v) treap = Tip | Bin "('k, 'v) treap" 'k 'v "('k, 'v) treap"

fun tkeys :: "('k, 'v) treap \<Rightarrow> 'k set" where
  "tkeys Tip = {}"
| "tkeys (Bin l k v r) = insert k (tkeys l \<union> tkeys r)"

fun tentries :: "('k, 'v) treap \<Rightarrow> ('k \<times> 'v) set" where
  "tentries Tip = {}"
| "tentries (Bin l k v r) = insert (k, v) (tentries l \<union> tentries r)"

fun tmap :: "('k::linorder, 'v) treap \<Rightarrow> 'k \<Rightarrow> 'v option" where
  "tmap Tip x = None"
| "tmap (Bin l k v r) x = (if x = k then Some v else if x < k then tmap l x else tmap r x)"

fun theight :: "('k, 'v) treap \<Rightarrow> nat" where
  "theight Tip = 0"
| "theight (Bin l k v r) = Suc (max (theight l) (theight r))"

fun treap_ok :: "('k::linorder \<Rightarrow> 'k \<Rightarrow> bool) \<Rightarrow> ('k, 'v) treap \<Rightarrow> bool" where
  "treap_ok before Tip = True"
| "treap_ok before (Bin l k v r) =
     (treap_ok before l \<and> treap_ok before r
      \<and> (\<forall>x \<in> tkeys l. x < k \<and> before k x) \<and> (\<forall>x \<in> tkeys r. k < x \<and> before k x))"

text \<open>A key set every treap of which is at most \<open>n\<close> levels deep.\<close>

definition shallow :: "('k::linorder \<Rightarrow> 'k \<Rightarrow> bool) \<Rightarrow> 'k set \<Rightarrow> nat \<Rightarrow> bool" where
  "shallow before K n \<longleftrightarrow>
     (\<forall>t :: ('k, unit) treap. treap_ok before t \<and> tkeys t \<subseteq> K \<longrightarrow> theight t \<le> n)"

section \<open>The map of a treap\<close>

lemma finite_tkeys [simp]: "finite (tkeys t)"
  by (induction t) auto

lemma finite_tentries [simp]: "finite (tentries t)"
  by (induction t) auto

lemma keys_entries: "tkeys t = fst ` tentries t"
  by (induction t) auto

lemma tmap_keys: "treap_ok before t \<Longrightarrow> tmap t x \<noteq> None \<longleftrightarrow> x \<in> tkeys t"
  by (induction t) auto

lemma dom_tmap: "treap_ok before t \<Longrightarrow> dom (tmap t) = tkeys t"
  using tmap_keys by (fastforce simp: dom_def)

lemma tmap_None: "treap_ok before t \<Longrightarrow> x \<notin> tkeys t \<Longrightarrow> tmap t x = None"
  using tmap_keys by fastforce

lemma tmap_entries: "treap_ok before t \<Longrightarrow> tmap t x = Some v \<longleftrightarrow> (x, v) \<in> tentries t"
proof (induction t)
  case Tip
  then show ?case by simp
next
  case (Bin l k w r)
  have "(y, u) \<in> tentries l \<Longrightarrow> y < k" "(y, u) \<in> tentries r \<Longrightarrow> k < y" for y u
    using Bin.prems by (auto simp: keys_entries)
  then show ?case using Bin by (auto dest: less_asym)
qed

lemma tentries_graph: "treap_ok before t \<Longrightarrow> tentries t = {(x, v). tmap t x = Some v}"
  by (auto simp: tmap_entries)

lemma tmap_sides:
  assumes "treap_ok before (Bin l k v r)" "tmap (Bin l k v r) = m"
  shows "tmap l = (\<lambda>x. if x < k then m x else None)" "tmap r = (\<lambda>x. if k < x then m x else None)"
  using assms(1) unfolding assms(2) [symmetric] by (auto simp: fun_eq_iff intro!: tmap_None)

lemma theight_card: "treap_ok before t \<Longrightarrow> theight t \<le> card (tkeys t)"
proof (induction t)
  case Tip
  then show ?case by simp
next
  case (Bin l k v r)
  have "k \<notin> tkeys l \<union> tkeys r" using Bin.prems by auto
  then have "card (tkeys (Bin l k v r)) = Suc (card (tkeys l \<union> tkeys r))" by simp
  moreover have "card (tkeys l) \<le> card (tkeys l \<union> tkeys r)" "card (tkeys r) \<le> card (tkeys l \<union> tkeys r)"
    by (intro card_mono; simp)+
  ultimately show ?case using Bin by simp
qed

lemma shallow_card: "finite K \<Longrightarrow> card K \<le> n \<Longrightarrow> shallow before K n"
  unfolding shallow_def by (meson card_mono le_trans theight_card)

fun skeleton :: "('k, 'v) treap \<Rightarrow> ('k, unit) treap" where
  "skeleton Tip = Tip"
| "skeleton (Bin l k v r) = Bin (skeleton l) k () (skeleton r)"

lemma skeleton_facts [simp]: "tkeys (skeleton t) = tkeys t" "theight (skeleton t) = theight t"
    "treap_ok before (skeleton t) = treap_ok before t"
  by (induction t) auto

lemma shallow_height: "shallow before K n \<Longrightarrow> treap_ok before t \<Longrightarrow> tkeys t \<subseteq> K \<Longrightarrow> theight t \<le> n"
  unfolding shallow_def by (metis skeleton_facts)

lemma shallow_weaken: "shallow before K n \<Longrightarrow> n \<le> m \<Longrightarrow> shallow before K m"
  unfolding shallow_def by (meson order_trans)

lemma shallow_mono: "shallow before K n \<Longrightarrow> K' \<subseteq> K \<Longrightarrow> shallow before K' n"
  unfolding shallow_def by (meson order_trans)

section \<open>Heap orders\<close>

locale heap_order =
  fixes before :: "'k::linorder \<Rightarrow> 'k \<Rightarrow> bool"
  assumes before_irrefl: "\<not> before x x"
    and before_trans: "before x y \<Longrightarrow> before y z \<Longrightarrow> before x z"
    and before_total: "x \<noteq> y \<Longrightarrow> before x y \<or> before y x"
begin

lemma before_asym: "before x y \<Longrightarrow> \<not> before y x"
  using before_trans before_irrefl by blast

lemma after_root: "treap_ok before (Bin l k v r) \<Longrightarrow> before x k \<or> x = k \<Longrightarrow> y \<in> tkeys (Bin l k v r) \<Longrightarrow> before x y \<or> x = y"
  using before_trans by fastforce

text \<open>Two treaps that hold the same map are the same tree.\<close>

lemma treap_unique:
  "treap_ok before t \<Longrightarrow> treap_ok before u \<Longrightarrow> tmap t = tmap u \<Longrightarrow> t = u"
proof (induction t arbitrary: u)
  case Tip
  then have "tkeys u = {}" using dom_tmap [of before u] by (auto simp: fun_eq_iff dom_def)
  then show ?case by (cases u) auto
next
  case (Bin l k v r)
  have keys: "tkeys u = tkeys (Bin l k v r)"
    using Bin.prems dom_tmap by metis
  then obtain l' k' v' r' where u: "u = Bin l' k' v' r'" by (cases u) auto
  have "k \<in> tkeys u" "k' \<in> tkeys (Bin l k v r)" using keys u by auto
  then have "before k' k \<or> k' = k" "before k k' \<or> k = k'"
    using after_root [of l' k' v' r' k' k] after_root [of l k v r k k'] Bin.prems u by auto
  then have k: "k' = k" using before_asym by blast
  have "tmap l = tmap l'" "tmap r = tmap r'"
    using tmap_sides [OF Bin.prems(1) refl] tmap_sides [of before l' k' v' r'] Bin.prems(2,3) u k by metis+
  moreover have "v = v'" using fun_cong [OF Bin.prems(3), of k] u k by simp
  ultimately show ?case using Bin u k by simp
qed

text \<open>
  Putting a new key into the left (right) subtree: when the new root of that subtree comes before the
  old root it is the new key, and the rotation restores the heap.
\<close>

lemma lowered_left:
  assumes "treap_ok before (Bin l k v r)" "treap_ok before l'" "tkeys l' = insert x (tkeys l)" "x < k"
    and "\<And>a y w b. l' = Bin a y w b \<Longrightarrow> \<not> before y k"
  shows "treap_ok before (Bin l' k v r)"
proof -
  have "y < k" if "y \<in> tkeys l'" for y using assms(1,3,4) that by auto
  moreover have "before k y" if "y \<in> tkeys l'" for y
  proof (cases l')
    case (Bin a z w b)
    then have "z \<noteq> k" using assms(1,3,4) by fastforce
    then have "before k z" using assms(5) [OF Bin] before_total by blast
    then show ?thesis using after_root [of a z w b k y] Bin assms(2) that \<open>y \<in> tkeys l' \<Longrightarrow> y < k\<close>
      before_irrefl before_trans by (auto)
  qed (use that in simp)
  ultimately show ?thesis using assms(1,2) by simp
qed

lemma lowered_right:
  assumes "treap_ok before (Bin l k v r)" "treap_ok before r'" "tkeys r' = insert x (tkeys r)" "k < x"
    and "\<And>a y w b. r' = Bin a y w b \<Longrightarrow> \<not> before y k"
  shows "treap_ok before (Bin l k v r')"
proof -
  have "k < y" if "y \<in> tkeys r'" for y using assms(1,3,4) that by auto
  moreover have "before k y" if "y \<in> tkeys r'" for y
  proof (cases r')
    case (Bin a z w b)
    then have "z \<noteq> k" using assms(1,3,4) by fastforce
    then have "before k z" using assms(5) [OF Bin] before_total by blast
    then show ?thesis using Bin assms(2) that before_trans by auto
  qed (use that in simp)
  ultimately show ?thesis using assms(1,2) by simp
qed

lemma rotated_right:
  assumes ok: "treap_ok before (Bin l k v r)" and l': "treap_ok before (Bin a y w b)"
    and keys: "tkeys (Bin a y w b) = insert x (tkeys l)" and x: "x < k" and y: "before y k"
  shows "treap_ok before (Bin b k v r)" "treap_ok before (Bin a y w (Bin b k v r))"
proof -
  have "\<not> before y z" if "z = k" "y \<in> tkeys l" for z using ok that before_asym by auto
  then have yx: "y = x" using keys y by auto
  have b: "z \<in> tkeys l" if "z \<in> tkeys b" for z
  proof -
    have "z \<noteq> x" "z \<in> insert x (tkeys l)" using l' that yx unfolding keys [symmetric] by auto
    then show ?thesis by simp
  qed
  show 1: "treap_ok before (Bin b k v r)" using ok l' b by auto
  show "treap_ok before (Bin a y w (Bin b k v r))"
    using 1 l' ok y yx x before_trans by auto
qed

lemma rotated_left:
  assumes ok: "treap_ok before (Bin l k v r)" and r': "treap_ok before (Bin a y w b)"
    and keys: "tkeys (Bin a y w b) = insert x (tkeys r)" and x: "k < x" and y: "before y k"
  shows "treap_ok before (Bin l k v a)" "treap_ok before (Bin (Bin l k v a) y w b)"
proof -
  have "\<not> before y z" if "z = k" "y \<in> tkeys r" for z using ok that before_asym by auto
  then have yx: "y = x" using keys y by auto
  have a: "z \<in> tkeys r" if "z \<in> tkeys a" for z
  proof -
    have "z \<noteq> x" "z \<in> insert x (tkeys r)" using r' that yx unfolding keys [symmetric] by auto
    then show ?thesis by simp
  qed
  show 1: "treap_ok before (Bin l k v a)" using ok r' a by auto
  show "treap_ok before (Bin (Bin l k v a) y w b)"
    using 1 r' ok y yx x before_trans by auto
qed

end

end
