(* ===== verification/Frontier_Node.thy ===== *)
theory Frontier_Node
  imports Treap Content_Digest Result_State
begin

text \<open>
  The nodes of the authenticated maps of \<open>src/sqlite_frontier.rs\<close>: links, node digests, priorities and
  the structural check of a loaded node, with the tree each root link commits to.  SHA-256 is the
  parameter \<open>H\<close>.  A Rust \<open>[u8; 16]\<close> identifier is a \<^typ>\<open>uuid\<close>.
\<close>

section \<open>Errors\<close>

datatype materialization_error =
    MatSqlite string | MatSchema string | MatCorrupt string
  | MatResourceLimit string nat nat | MatInvalidInput string | MatIncomplete string
  | MatContradiction string | MatStale u64 u64 | MatInvalidQuery string

datatype frontier_error =
    FrontierSqlite string
  | FrontierMaterialization materialization_error
  | FrontierSchema string
  | FrontierClaimBytes string bytes bytes
  | FrontierClaimVersion string int int
  | FrontierCorrupt string
  | FrontierInvalidInput string
  | MissingDependency uuid
  | AcceptanceOrder u64 u64
  | FrontierRegression
  | BatchCollision uuid
  | MaterializationCollision uuid
  | InjectedFailure

section \<open>Links and digests\<close>

record map_link =
  link_key :: uuid
  link_digest :: digest

text \<open>
  \<open>ClockNode\<close> is a \<open>map_node\<close> whose value is the counter, \<open>BatchMapNode\<close> one whose value is the digest
  of the causal record.
\<close>

record 'v map_node =
  node_key :: uuid
  node_value :: 'v
  node_left :: "map_link option"
  node_right :: "map_link option"

type_synonym clock_node = "u64 map_node"
type_synonym batch_map_node = "digest map_node"

definition bytes_of_text :: "string \<Rightarrow> bytes" where
  "bytes_of_text cs = map (\<lambda>c. word_of_nat (of_char c)) cs"

definition MAX_AUTHENTICATED_MAP_DEPTH :: nat where
  "MAX_AUTHENTICATED_MAP_DEPTH = 256"

definition authenticated_map_priority :: "hash \<Rightarrow> uuid \<Rightarrow> digest" where
  "authenticated_map_priority H key =
     H (bytes_of_text ''tine/oplog/authenticated-map/v1/priority'' @ [0] @ array_bytes key)"

text \<open>\<open>authenticated_map_priority_order(left, right).is_lt()\<close>, the only use the code makes of the order.\<close>

definition authenticated_map_priority_order :: "hash \<Rightarrow> uuid \<Rightarrow> uuid \<Rightarrow> bool" where
  "authenticated_map_priority_order H l r \<longleftrightarrow>
     authenticated_map_priority H l < authenticated_map_priority H r
     \<or> (authenticated_map_priority H l = authenticated_map_priority H r \<and> l < r)"

fun child_bytes :: "map_link option \<Rightarrow> bytes" where
  "child_bytes (Some c) = 1 # array_bytes (link_key c) @ array_bytes (link_digest c)"
| "child_bytes None = [0]"

definition map_node_text :: "uuid \<Rightarrow> digest \<Rightarrow> map_link option \<Rightarrow> map_link option \<Rightarrow> bytes" where
  "map_node_text key value_digest l r =
     bytes_of_text ''tine/oplog/authenticated-map/v1/node'' @ [0] @ array_bytes key
     @ array_bytes value_digest @ child_bytes l @ child_bytes r"

definition authenticated_map_node_digest ::
    "hash \<Rightarrow> uuid \<Rightarrow> digest \<Rightarrow> map_link option \<Rightarrow> map_link option \<Rightarrow> digest" where
  "authenticated_map_node_digest H key value_digest l r = H (map_node_text key value_digest l r)"

definition clock_text :: "uuid \<Rightarrow> u64 \<Rightarrow> bytes" where
  "clock_text peer counter =
     bytes_of_text ''tine/oplog/causal-clock-entry/v1'' @ [0] @ array_bytes peer @ be64 counter"

definition causal_clock_counter_digest :: "hash \<Rightarrow> uuid \<Rightarrow> u64 \<Rightarrow> digest" where
  "causal_clock_counter_digest H peer counter = H (clock_text peer counter)"

definition valid_map_children :: "hash \<Rightarrow> uuid \<Rightarrow> map_link option \<Rightarrow> map_link option \<Rightarrow> bool" where
  "valid_map_children H key l r \<longleftrightarrow>
     (case l of None \<Rightarrow> True
      | Some c \<Rightarrow> link_key c < key \<and> authenticated_map_priority_order H key (link_key c))
     \<and> (case r of None \<Rightarrow> True
        | Some c \<Rightarrow> link_key c > key \<and> authenticated_map_priority_order H key (link_key c))"

section \<open>Decoding columns\<close>

definition decode_digest :: "bytes \<Rightarrow> frontier_error + digest" where
  "decode_digest bs =
     (if length bs = 32 then Inr (mk_array bs) else Inl (FrontierCorrupt ''invalid digest length''))"

definition decode_id :: "bytes \<Rightarrow> string \<Rightarrow> frontier_error + uuid" where
  "decode_id bs what =
     (if length bs = 16 then Inr (mk_array bs) else Inl (FrontierCorrupt (''invalid '' @ what @ '' length'')))"

fun decode_map_link :: "bytes option \<Rightarrow> bytes option \<Rightarrow> frontier_error + map_link option" where
  "decode_map_link None None = Inr None"
| "decode_map_link (Some key) (Some digest) =
     bind_res (decode_id key ''authenticated map key'') (\<lambda>k.
     bind_res (decode_digest digest) (\<lambda>d. Inr (Some \<lparr>link_key = k, link_digest = d\<rparr>)))"
| "decode_map_link _ _ = Inl (FrontierCorrupt ''authenticated map child is incomplete'')"

definition ensure_depth :: "nat \<Rightarrow> string \<Rightarrow> frontier_error + unit" where
  "ensure_depth depth operation =
     (if MAX_AUTHENTICATED_MAP_DEPTH < depth
      then Inl (FrontierCorrupt (operation @ '' exceeds its bounded depth'')) else Inr ())"

lemma decode_array [simp]: "decode_digest (array_bytes d) = Inr d" "decode_id (array_bytes k) what = Inr k"
  by (simp_all add: decode_digest_def decode_id_def)

text \<open>A recursive call below a step is only made on a value that step can return.\<close>

lemma st_bind_cong [fundef_cong]:
  "m = m' \<Longrightarrow> (\<And>x. \<exists>s s'. m' s = (Inr x, s') \<Longrightarrow> f x = f' x) \<Longrightarrow> st_bind m f = st_bind m' f'"
  by (auto simp: st_bind_def fun_eq_iff split: prod.splits sum.splits)

lemma ensure_depth_ran:
  "(\<exists>s s'. st_lift (ensure_depth depth operation) s = (Inr x, s')) \<longleftrightarrow> depth \<le> 256"
  by (auto simp: st_lift_def ensure_depth_def MAX_AUTHENTICATED_MAP_DEPTH_def)

lemma ensure_depth_ok: "depth \<le> 256 \<Longrightarrow> ensure_depth depth operation = Inr ()"
  by (simp add: ensure_depth_def MAX_AUTHENTICATED_MAP_DEPTH_def)

text \<open>The two nullable columns of a child link.\<close>

definition link_columns :: "map_link option \<Rightarrow> bytes option \<times> bytes option" where
  "link_columns l = (map_option (array_bytes \<circ> link_key) l, map_option (array_bytes \<circ> link_digest) l)"

lemma decode_link_columns [simp]:
  "decode_map_link (fst (link_columns l)) (snd (link_columns l)) = Inr l"
  by (cases l) (auto simp: link_columns_def)

section \<open>The priority order and node texts\<close>

interpretation priority: heap_order "authenticated_map_priority_order H" for H
  by unfold_locales (auto simp: authenticated_map_priority_order_def)

lemma child_bytes_inject: "child_bytes a @ xs = child_bytes b @ ys \<longleftrightarrow> a = b \<and> xs = ys"
  by (cases a; cases b) (auto simp: array_bytes_inject)

lemma map_node_text_inject:
  "map_node_text k d l r = map_node_text k' d' l' r' \<longleftrightarrow> k = k' \<and> d = d' \<and> l = l' \<and> r = r'"
  using child_bytes_inject [of r "[]" r' "[]"]
  by (auto simp: map_node_text_def child_bytes_inject array_bytes_inject)

lemma be64_inject: "be64 a = be64 b \<longleftrightarrow> a = b"
  by (metis of_be64_be64)

lemma clock_text_inject: "clock_text p c = clock_text p' c' \<longleftrightarrow> p = p' \<and> c = c'"
  by (auto simp: clock_text_def array_bytes_inject be64_inject)

section \<open>The tree behind a link\<close>

text \<open>
  \<open>tree_link H vd t\<close> is the link the code computes for the tree \<open>t\<close>, \<open>vd\<close> giving the value digest of an
  entry: the counter digest for clocks, the value itself for the batch map, the hash of the encoded
  dependencies for the document map.
\<close>

fun tree_link :: "hash \<Rightarrow> (uuid \<Rightarrow> 'v \<Rightarrow> digest) \<Rightarrow> (uuid, 'v) treap \<Rightarrow> map_link option" where
  "tree_link H vd Tip = None"
| "tree_link H vd (Bin l k v r) =
     Some \<lparr>link_key = k,
           link_digest = authenticated_map_node_digest H k (vd k v) (tree_link H vd l) (tree_link H vd r)\<rparr>"

fun root_node :: "hash \<Rightarrow> (uuid \<Rightarrow> 'v \<Rightarrow> digest) \<Rightarrow> (uuid, 'v) treap \<Rightarrow> 'v map_node option" where
  "root_node H vd Tip = None"
| "root_node H vd (Bin l k v r) =
     Some \<lparr>node_key = k, node_value = v, node_left = tree_link H vd l, node_right = tree_link H vd r\<rparr>"

fun tree_texts :: "hash \<Rightarrow> (uuid \<Rightarrow> 'v \<Rightarrow> digest) \<Rightarrow> (uuid, 'v) treap \<Rightarrow> bytes set" where
  "tree_texts H vd Tip = {}"
| "tree_texts H vd (Bin l k v r) =
     insert (map_node_text k (vd k v) (tree_link H vd l) (tree_link H vd r))
       (tree_texts H vd l \<union> tree_texts H vd r)"

abbreviation map_ok :: "hash \<Rightarrow> (uuid, 'v) treap \<Rightarrow> bool" where
  "map_ok H \<equiv> treap_ok (authenticated_map_priority_order H)"

lemma tree_link_None [simp]: "tree_link H vd t = None \<longleftrightarrow> t = Tip"
  by (cases t) auto

lemma tree_link_key: "tree_link H vd t = Some lk \<Longrightarrow> \<exists>l v r. t = Bin l (link_key lk) v r"
  by (cases t) auto

lemma valid_children:
  "map_ok H (Bin l k v r) \<Longrightarrow> valid_map_children H k (tree_link H vd l) (tree_link H vd r)"
  by (cases l; cases r) (auto simp: valid_map_children_def)

text \<open>Without a collision among their node texts, trees with the same link are the same tree.\<close>

lemma tree_link_inject:
  assumes "inj_on H S" and "\<And>k v v'. (k, v) \<in> B \<Longrightarrow> (k, v') \<in> B \<Longrightarrow> vd k v = vd k v' \<Longrightarrow> v = v'"
  shows "tree_texts H vd t \<subseteq> S \<Longrightarrow> tree_texts H vd u \<subseteq> S \<Longrightarrow> tentries t \<subseteq> B \<Longrightarrow> tentries u \<subseteq> B \<Longrightarrow>
    tree_link H vd t = tree_link H vd u \<Longrightarrow> t = u"
proof (induction t arbitrary: u)
  case Tip
  then show ?case by (cases u) auto
next
  case (Bin l k v r)
  then obtain l' v' r' where u: "u = Bin l' k v' r'" by (cases u) auto
  have "map_node_text k (vd k v) (tree_link H vd l) (tree_link H vd r)
      = map_node_text k (vd k v') (tree_link H vd l') (tree_link H vd r')"
    using Bin.prems u by (intro inj_onD [OF assms(1)]) (auto simp: authenticated_map_node_digest_def)
  then have "vd k v = vd k v'" "tree_link H vd l = tree_link H vd l'" "tree_link H vd r = tree_link H vd r'"
    by (simp_all add: map_node_text_inject)
  then show ?case using Bin u assms(2) by auto
qed

end
