(* ===== verification/Frontier_Db.thy ===== *)
theory Frontier_Db
  imports Frontier_Node
begin

text \<open>
  The database behind \<open>src/sqlite_frontier.rs\<close>: one value per table with the columns the code reads and
  writes, as the schema types them (BLOB as bytes, INTEGER as a mathematical integer, a nullable column
  as an option), and the statements on it.  Every statement takes one item of \<open>db_faults\<close>: an error SQLite
  reports there leaves the tables as they were.  Then the nodes of the causal clocks and of the
  accepted-batch map: loading one with its checks, writing one, and the two lookups.
\<close>

section \<open>Tables\<close>

record clock_row =
  clock_peer_id :: bytes
  clock_counter :: int
  clock_value_digest :: bytes
  clock_left :: "bytes option \<times> bytes option"
  clock_right :: "bytes option \<times> bytes option"

record batch_row =
  batch_batch_id :: bytes
  batch_value_digest :: bytes
  batch_left :: "bytes option \<times> bytes option"
  batch_right :: "bytes option \<times> bytes option"

record document_row =
  doc_dependencies :: bytes
  doc_dependencies_digest :: bytes
  doc_left :: "bytes option \<times> bytes option"
  doc_right :: "bytes option \<times> bytes option"
  doc_node_digest :: bytes

record frontier_row =
  frontier_root :: bytes
  frontier_root_digest :: bytes
  applied_batch_count :: int

text \<open>A row of \<open>applied_batches\<close> has the fields of the \<open>StoredBatch\<close> it is read into.\<close>

record stored_batch =
  sb_sequence :: int
  sb_batch_id :: uuid
  sb_manifest_digest :: bytes
  sb_semantic_effect :: bytes
  sb_semantic_effect_digest :: bytes
  sb_dependency_frontier :: bytes
  sb_dependency_frontier_digest :: bytes
  sb_prior_frontier_root :: bytes
  sb_prior_frontier_root_digest :: bytes
  sb_post_frontier_root :: bytes
  sb_post_frontier_root_digest :: bytes
  sb_affected_documents :: bytes
  sb_affected_documents_digest :: bytes
  sb_causal_dependency_heads :: bytes
  sb_causal_peer_id :: bytes
  sb_causal_counter :: int
  sb_causal_clock_root_key :: bytes
  sb_causal_clock_root_digest :: bytes
  sb_acceptance_sequence :: int
  sb_retained_bytes :: int

text \<open>
  The two tables of \<open>sqlite_materialization.rs\<close> that the frontier reads, the singleton stamp and the input
  digest recorded per acceptance sequence; \<open>mat_projection\<close> stands for its other tables.
\<close>

record 'm materialized =
  mat_stamp :: "(int \<times> bytes) option"
  mat_batches :: "int \<Rightarrow> bytes option"
  mat_projection :: 'm

record 'm frontier_db =
  db_frontier :: "frontier_row option"
  db_documents :: "(uuid \<times> document_row) list"
  db_clock_nodes :: "digest \<Rightarrow> clock_row option"
  db_batch_nodes :: "digest \<Rightarrow> batch_row option"
  db_batches :: "stored_batch list"
  db_materialization :: "'m materialized"
  db_autocommit :: bool
  db_faults :: "string option list"

type_synonym ('m, 'a) db_op = "'m frontier_db \<Rightarrow> (frontier_error + 'a) \<times> 'm frontier_db"

definition statement :: "('m, unit) db_op" where
  "statement db =
     (case db_faults db of
        [] \<Rightarrow> (Inr (), db)
      | f # fs \<Rightarrow> (case f of None \<Rightarrow> Inr () | Some e \<Rightarrow> Inl (FrontierSqlite e), db\<lparr>db_faults := fs\<rparr>))"

text \<open>A query with \<open>.optional()\<close>, and a query that has to find its row.\<close>

definition query :: "('m frontier_db \<Rightarrow> 'a) \<Rightarrow> ('m, 'a) db_op" where
  "query f = st_bind statement (\<lambda>_ db. (Inr (f db), db))"

definition query_row :: "('m frontier_db \<Rightarrow> 'a option) \<Rightarrow> ('m, 'a) db_op" where
  "query_row f = st_bind (query f) (\<lambda>found. st_lift (ok_or (FrontierSqlite ''Query returned no rows'') found))"

definition update_db :: "('m frontier_db \<Rightarrow> 'm frontier_db) \<Rightarrow> ('m, unit) db_op" where
  "update_db f = st_bind statement (\<lambda>_ db. (Inr (), f db))"

section \<open>Causal clock nodes\<close>

definition u64_of_i64 :: "string \<Rightarrow> int \<Rightarrow> frontier_error + u64" where
  "u64_of_i64 what n = (if 0 \<le> n then Inr (word_of_int n) else Inl (FrontierCorrupt what))"

definition i64_of_u64 :: "frontier_error \<Rightarrow> u64 \<Rightarrow> frontier_error + int" where
  "i64_of_u64 e w = (if unat w < 2 ^ 63 then Inr (uint w) else Inl e)"

definition check_clock_row :: "hash \<Rightarrow> map_link \<Rightarrow> clock_row \<Rightarrow> frontier_error + clock_node" where
  "check_clock_row H expected row =
     bind_res (decode_id (clock_peer_id row) ''causal peer ID'') (\<lambda>peer.
     bind_res (u64_of_i64 ''causal clock counter is invalid'' (clock_counter row)) (\<lambda>counter.
     bind_res (decode_digest (clock_value_digest row)) (\<lambda>value_digest.
     bind_res (decode_map_link (fst (clock_left row)) (snd (clock_left row))) (\<lambda>l.
     bind_res (decode_map_link (fst (clock_right row)) (snd (clock_right row))) (\<lambda>r.
     if link_key expected \<noteq> peer \<or> counter = 0
        \<or> value_digest \<noteq> causal_clock_counter_digest H peer counter
        \<or> \<not> valid_map_children H peer l r
        \<or> authenticated_map_node_digest H peer value_digest l r \<noteq> link_digest expected
     then Inl (FrontierCorrupt ''authenticated causal clock node is misbound'')
     else Inr \<lparr>node_key = peer, node_value = counter, node_left = l, node_right = r\<rparr>)))))"

definition load_clock_node :: "hash \<Rightarrow> map_link \<Rightarrow> ('m, clock_node) db_op" where
  "load_clock_node H expected =
     st_bind (query (\<lambda>db. db_clock_nodes db (link_digest expected))) (\<lambda>found.
     st_lift (bind_res (ok_or (FrontierCorrupt (''authenticated causal clock node ''
       @ text_of_bytes (display_digest (link_digest expected)) @ '' is missing'')) found)
       (check_clock_row H expected)))"

definition clock_row_of :: "hash \<Rightarrow> clock_node \<Rightarrow> clock_row" where
  "clock_row_of H node =
     \<lparr>clock_peer_id = array_bytes (node_key node), clock_counter = uint (node_value node),
      clock_value_digest = array_bytes (causal_clock_counter_digest H (node_key node) (node_value node)),
      clock_left = link_columns (node_left node), clock_right = link_columns (node_right node)\<rparr>"

text \<open>
  \<open>INSERT OR IGNORE\<close>: a row that is already there stays, and a row that violates a \<open>CHECK\<close> (the counter
  has to be positive) is not inserted.
\<close>

definition clock_link :: "hash \<Rightarrow> clock_node \<Rightarrow> map_link" where
  "clock_link H node =
     \<lparr>link_key = node_key node,
      link_digest = authenticated_map_node_digest H (node_key node)
        (causal_clock_counter_digest H (node_key node) (node_value node)) (node_left node) (node_right node)\<rparr>"

definition write_clock_node :: "hash \<Rightarrow> clock_node \<Rightarrow> ('m, map_link) db_op" where
  "write_clock_node H node =
     (let link = clock_link H node in
      st_bind (st_lift (i64_of_u64 (FrontierCorrupt ''causal counter exceeds SQLite'') (node_value node))) (\<lambda>counter.
      st_bind (update_db (\<lambda>db.
        if db_clock_nodes db (link_digest link) = None \<and> 0 < counter
        then db\<lparr>db_clock_nodes := (db_clock_nodes db)(link_digest link \<mapsto> clock_row_of H node)\<rparr> else db)) (\<lambda>_.
      st_bind (load_clock_node H link) (\<lambda>_.
      st_return link))))"

text \<open>The loop of \<open>causal_clock_lookup\<close>, \<open>depth\<close> being its counter.\<close>

function clock_lookup_loop :: "hash \<Rightarrow> map_link option \<Rightarrow> uuid \<Rightarrow> nat \<Rightarrow> ('m, u64 option) db_op" where
  "clock_lookup_loop H current peer depth =
     (case current of
        None \<Rightarrow> st_return None
      | Some link \<Rightarrow>
          st_bind (st_lift (ensure_depth depth ''causal clock lookup'')) (\<lambda>_.
          st_bind (load_clock_node H link) (\<lambda>node.
          if peer = node_key node then st_return (Some (node_value node))
          else if peer < node_key node then clock_lookup_loop H (node_left node) peer (depth + 1)
          else clock_lookup_loop H (node_right node) peer (depth + 1))))"
  by pat_completeness auto
termination
  by (relation "measure (\<lambda>(H, current, peer, depth). 257 - depth)") (auto simp: ensure_depth_ran)

declare clock_lookup_loop.simps [simp del]

definition causal_clock_lookup :: "hash \<Rightarrow> map_link option \<Rightarrow> uuid \<Rightarrow> ('m, u64 option) db_op" where
  "causal_clock_lookup H current peer = clock_lookup_loop H current peer 0"

section \<open>Nodes of the accepted-batch map\<close>

definition check_batch_row :: "hash \<Rightarrow> map_link \<Rightarrow> batch_row \<Rightarrow> frontier_error + batch_map_node" where
  "check_batch_row H expected row =
     bind_res (decode_id (batch_batch_id row) ''batch ID'') (\<lambda>batch_id.
     bind_res (decode_digest (batch_value_digest row)) (\<lambda>value_digest.
     bind_res (decode_map_link (fst (batch_left row)) (snd (batch_left row))) (\<lambda>l.
     bind_res (decode_map_link (fst (batch_right row)) (snd (batch_right row))) (\<lambda>r.
     if link_key expected \<noteq> batch_id \<or> \<not> valid_map_children H batch_id l r
        \<or> authenticated_map_node_digest H batch_id value_digest l r \<noteq> link_digest expected
     then Inl (FrontierCorrupt ''authenticated accepted-batch node is misbound'')
     else Inr \<lparr>node_key = batch_id, node_value = value_digest, node_left = l, node_right = r\<rparr>))))"

definition load_batch_map_node :: "hash \<Rightarrow> map_link \<Rightarrow> ('m, batch_map_node) db_op" where
  "load_batch_map_node H expected =
     st_bind (query (\<lambda>db. db_batch_nodes db (link_digest expected))) (\<lambda>found.
     st_lift (bind_res (ok_or (FrontierCorrupt (''authenticated accepted-batch node ''
       @ text_of_bytes (display_digest (link_digest expected)) @ '' is missing'')) found)
       (check_batch_row H expected)))"

definition batch_row_of :: "batch_map_node \<Rightarrow> batch_row" where
  "batch_row_of node =
     \<lparr>batch_batch_id = array_bytes (node_key node), batch_value_digest = array_bytes (node_value node),
      batch_left = link_columns (node_left node), batch_right = link_columns (node_right node)\<rparr>"

definition batch_link :: "hash \<Rightarrow> batch_map_node \<Rightarrow> map_link" where
  "batch_link H node =
     \<lparr>link_key = node_key node,
      link_digest = authenticated_map_node_digest H (node_key node) (node_value node) (node_left node) (node_right node)\<rparr>"

definition write_batch_map_node :: "hash \<Rightarrow> batch_map_node \<Rightarrow> ('m, map_link) db_op" where
  "write_batch_map_node H node =
     (let link = batch_link H node in
      st_bind (update_db (\<lambda>db.
        if db_batch_nodes db (link_digest link) = None
        then db\<lparr>db_batch_nodes := (db_batch_nodes db)(link_digest link \<mapsto> batch_row_of node)\<rparr> else db)) (\<lambda>_.
      st_bind (load_batch_map_node H link) (\<lambda>_.
      st_return link)))"

section \<open>Roots\<close>

record physical_frontier_root =
  pr_canonical_bytes :: bytes
  pr_acceptance_sequence :: u64
  pr_document_count :: u64
  pr_document_map_root_key :: "uuid option"
  pr_document_map_root_digest :: digest
  pr_batch_map_root_key :: "uuid option"
  pr_batch_map_root_digest :: digest
  pr_state_digest :: digest

definition root_digest :: "hash \<Rightarrow> physical_frontier_root \<Rightarrow> digest" where
  "root_digest H root = H (pr_canonical_bytes root)"

text \<open>\<open>key.map(|key| MapLink { key, digest })\<close>\<close>

definition root_link :: "uuid option \<Rightarrow> digest \<Rightarrow> map_link option" where
  "root_link key d = map_option (\<lambda>k. \<lparr>link_key = k, link_digest = d\<rparr>) key"

function batch_lookup_loop :: "hash \<Rightarrow> map_link option \<Rightarrow> uuid \<Rightarrow> nat \<Rightarrow> ('m, digest option) db_op" where
  "batch_lookup_loop H current batch_id depth =
     (case current of
        None \<Rightarrow> st_return None
      | Some link \<Rightarrow>
          st_bind (st_lift (ensure_depth depth ''accepted batch lookup'')) (\<lambda>_.
          st_bind (load_batch_map_node H link) (\<lambda>node.
          if batch_id = node_key node then st_return (Some (node_value node))
          else if batch_id < node_key node then batch_lookup_loop H (node_left node) batch_id (depth + 1)
          else batch_lookup_loop H (node_right node) batch_id (depth + 1))))"
  by pat_completeness auto
termination
  by (relation "measure (\<lambda>(H, current, batch_id, depth). 257 - depth)") (auto simp: ensure_depth_ran)

declare batch_lookup_loop.simps [simp del]

section \<open>Statements that may fail\<close>

text \<open>
  \<open>quiet q\<close>: with \<open>q\<close> set no statement is going to fail, so \<open>sql_fault q\<close>, which describes the error results
  of the lemmas, is empty; without it the only errors left are those SQLite reports.
\<close>

definition quiet :: "bool \<Rightarrow> 'm frontier_db \<Rightarrow> bool" where
  "quiet q db \<longleftrightarrow> (q \<longrightarrow> db_faults db = [])"

definition sql_fault :: "bool \<Rightarrow> frontier_error \<Rightarrow> 'm frontier_db \<Rightarrow> bool" where
  "sql_fault q e db \<longleftrightarrow> \<not> q \<and> (\<exists>m. e = FrontierSqlite m)"

definition faults_only :: "'m frontier_db \<Rightarrow> 'm frontier_db \<Rightarrow> bool" where
  "faults_only db db' \<longleftrightarrow> (\<exists>f. db' = db\<lparr>db_faults := f\<rparr>)"

lemma faults_only_refl [simp]: "faults_only db db"
  by (auto simp: faults_only_def intro!: exI [of _ "db_faults db"])

lemma faults_only_set [simp]: "faults_only db (db\<lparr>db_faults := f\<rparr>)"
  unfolding faults_only_def by blast

lemma faults_only_trans: "faults_only a b \<Longrightarrow> faults_only b c \<Longrightarrow> faults_only a c"
  by (auto simp: faults_only_def)

lemma faults_only_tables:
  assumes "faults_only db db'"
  shows "db_frontier db' = db_frontier db" "db_documents db' = db_documents db" "db_clock_nodes db' = db_clock_nodes db"
    "db_batch_nodes db' = db_batch_nodes db" "db_batches db' = db_batches db"
    "db_materialization db' = db_materialization db" "db_autocommit db' = db_autocommit db"
  using assms by (auto simp: faults_only_def)

lemma statement_runs:
  "quiet q db \<Longrightarrow> runs statement db (\<lambda>_ db'. faults_only db db' \<and> quiet q db') (sql_fault q)"
  by (auto simp: runs_def statement_def quiet_def sql_fault_def split: list.splits option.splits)

lemma query_runs:
  assumes "quiet q db" and "\<And>db'. faults_only db db' \<Longrightarrow> f db' = f db"
  shows "runs (query f) db (\<lambda>x db'. x = f db \<and> faults_only db db' \<and> quiet q db') (sql_fault q)"
  unfolding query_def
  by (rule runs_bind [OF statement_runs [OF assms(1)]], unfold runs_def prod.case sum.case) (blast intro: assms(2))

lemma update_runs:
  assumes "quiet q db"
  shows "runs (update_db f) db (\<lambda>_ db'. \<exists>db1. faults_only db db1 \<and> quiet q db1 \<and> db' = f db1) (sql_fault q)"
  unfolding update_db_def
  by (rule runs_bind [OF statement_runs [OF assms]]) (auto simp only: runs_def prod.case sum.case)

lemma u64_of_i64_uint [simp]: "u64_of_i64 what (uint w) = Inr w"
  by (simp add: u64_of_i64_def)

lemma i64_of_u64_ok: "unat w < 2 ^ 63 \<Longrightarrow> i64_of_u64 e w = Inr (uint w)"
  by (simp add: i64_of_u64_def)

end
