(* ===== verification/Frontier_Records.thy ===== *)
theory Frontier_Records
  imports Frontier_Db
begin

text \<open>
  The rows of \<open>frontier\<close> and \<open>applied_batches\<close>, read and checked, and the authenticated queries over
  them: a batch counts only when the batch map under the given root binds it, its row is intact and its
  causal dot is in its own clock.
\<close>

section \<open>Reading the tables\<close>

record stored_frontier =
  sf_canonical_bytes :: bytes
  sf_digest :: digest
  sf_applied_batch_count :: u64

definition read_frontier :: "hash \<Rightarrow> ('m, stored_frontier) db_op" where
  "read_frontier H =
     st_bind (query_row db_frontier) (\<lambda>row.
     st_bind (st_lift (decode_digest (frontier_root_digest row))) (\<lambda>found.
     if found \<noteq> H (frontier_root row)
     then st_lift (Inl (FrontierCorrupt ''frontier-root digest does not match frontier-root bytes''))
     else
       st_bind (st_lift (u64_of_i64 ''applied batch count is negative'' (applied_batch_count row))) (\<lambda>count.
       st_return \<lparr>sf_canonical_bytes = frontier_root row, sf_digest = found, sf_applied_batch_count = count\<rparr>)))"

definition load_batch_at_sequence :: "int \<Rightarrow> ('m, stored_batch option) db_op" where
  "load_batch_at_sequence sequence = query (\<lambda>db. find (\<lambda>row. sb_sequence row = sequence) (db_batches db))"

definition load_all_batches :: "('m, stored_batch list) db_op" where
  "load_all_batches = query (\<lambda>db. sort_key sb_sequence (db_batches db))"

definition stored_semantic_effects :: "('m, bytes list) db_op" where
  "stored_semantic_effects = query (\<lambda>db. map sb_semantic_effect (sort_key sb_sequence (db_batches db)))"

definition diagnostic_row_counts :: "('m, u64 \<times> u64) db_op" where
  "diagnostic_row_counts =
     st_bind (query (\<lambda>db. (int (length (db_batches db)), int (length (db_documents db))))) (\<lambda>(batches, documents).
     st_bind (st_lift (u64_of_i64 ''accepted row count is negative'' batches)) (\<lambda>b.
     st_bind (st_lift (u64_of_i64 ''frontier document row count is negative'' documents)) (\<lambda>d.
     st_return (b, d))))"

definition length_prefixed :: "bytes \<Rightarrow> bytes" where
  "length_prefixed bs = be64 (word_of_nat (length bs)) @ bs"

definition projection_row_bytes :: "stored_batch \<Rightarrow> bytes" where
  "projection_row_bytes row =
     concat (map length_prefixed [array_bytes (sb_batch_id row), sb_manifest_digest row, sb_semantic_effect row,
       sb_semantic_effect_digest row, sb_dependency_frontier row])"

definition semantic_projection_digest :: "hash \<Rightarrow> ('m, digest) db_op" where
  "semantic_projection_digest H =
     st_bind (query (\<lambda>db. sort_key sb_batch_id (db_batches db))) (\<lambda>rows.
     st_bind (read_frontier H) (\<lambda>frontier.
     st_return (H (bytes_of_text ''tine/sqlite-frontier/semantic-projection/v1'' @ [0]
       @ concat (map projection_row_bytes rows) @ length_prefixed (sf_canonical_bytes frontier)))))"

section \<open>Authenticated records\<close>

definition batch_map_value :: "hash \<Rightarrow> physical_frontier_root \<Rightarrow> uuid \<Rightarrow> ('m, digest option) db_op" where
  "batch_map_value H root batch_id =
     (case pr_batch_map_root_key root of
        None \<Rightarrow>
          if pr_acceptance_sequence root = 0 then st_return None
          else st_lift (Inl (FrontierCorrupt ''nonempty frontier has no authenticated batch-map root''))
      | Some key \<Rightarrow>
          batch_lookup_loop H (Some \<lparr>link_key = key, link_digest = pr_batch_map_root_digest root\<rparr>) batch_id 0)"

section \<open>Stored batches\<close>

definition hex_id :: "uuid \<Rightarrow> string" where
  "hex_id i = text_of_bytes (write_hex (array_bytes i))"

definition load_batch :: "uuid \<Rightarrow> ('m, stored_batch option) db_op" where
  "load_batch batch_id = query (\<lambda>db. find (\<lambda>row. sb_batch_id row = batch_id) (db_batches db))"

fun check_digests :: "hash \<Rightarrow> uuid \<Rightarrow> (string \<times> bytes \<times> bytes) list \<Rightarrow> frontier_error + unit" where
  "check_digests H batch_id [] = Inr ()"
| "check_digests H batch_id ((label, bs, d) # rest) =
     (if d \<noteq> array_bytes (H bs)
      then Inl (FrontierCorrupt (''stored batch '' @ hex_id batch_id @ '' '' @ label @ '' digest mismatch''))
      else check_digests H batch_id rest)"

definition validate_stored_batch_physical :: "hash \<Rightarrow> stored_batch \<Rightarrow> frontier_error + unit" where
  "validate_stored_batch_physical H record =
     (if sb_sequence record \<le> 0 \<or> sb_acceptance_sequence record \<noteq> sb_sequence record
         \<or> sb_retained_bytes record < 0 \<or> sb_causal_counter record \<le> 0
      then Inl (FrontierCorrupt ''stored accepted sequence or retained-byte count is invalid'')
      else
        bind_res (check_digests H (sb_batch_id record)
          [(''dependency-frontier'', sb_dependency_frontier record, sb_dependency_frontier_digest record),
           (''prior-frontier-root'', sb_prior_frontier_root record, sb_prior_frontier_root_digest record),
           (''post-frontier-root'', sb_post_frontier_root record, sb_post_frontier_root_digest record),
           (''affected-documents'', sb_affected_documents record, sb_affected_documents_digest record)]) (\<lambda>_.
        bind_res (decode_digest (sb_manifest_digest record)) (\<lambda>_.
        bind_res (decode_digest (sb_semantic_effect_digest record)) (\<lambda>effect_digest.
        if effect_digest \<noteq> H (sb_semantic_effect record)
        then Inl (FrontierCorrupt (''stored batch '' @ hex_id (sb_batch_id record) @ '' semantic-effect digest mismatch''))
        else
          bind_res (decode_id (sb_causal_peer_id record) ''causal peer ID'') (\<lambda>_.
          bind_res (decode_id (sb_causal_clock_root_key record) ''causal clock root key'') (\<lambda>_.
          bind_res (decode_digest (sb_causal_clock_root_digest record)) (\<lambda>_. Inr ())))))))"

text \<open>The clock root of a stored batch, decoded at four places of the code.\<close>

definition stored_clock_root :: "stored_batch \<Rightarrow> frontier_error + map_link" where
  "stored_clock_root record =
     bind_res (decode_id (sb_causal_clock_root_key record) ''causal clock root key'') (\<lambda>key.
     bind_res (decode_digest (sb_causal_clock_root_digest record)) (\<lambda>d.
     Inr \<lparr>link_key = key, link_digest = d\<rparr>))"

definition authenticated_batch_record ::
    "hash \<Rightarrow> physical_frontier_root \<Rightarrow> uuid \<Rightarrow> digest option \<Rightarrow> ('m, stored_batch option) db_op" where
  "authenticated_batch_record H root batch_id expected_value =
     st_bind (batch_map_value H root batch_id) (\<lambda>found.
     case found of
       None \<Rightarrow> st_return None
     | Some value \<Rightarrow>
         if (case expected_value of None \<Rightarrow> False | Some expected \<Rightarrow> expected \<noteq> value)
         then st_lift (Inl (FrontierCorrupt (''accepted batch '' @ hex_id batch_id
           @ '' differs from its authenticated causal record'')))
         else
           st_bind (load_batch batch_id) (\<lambda>row.
           st_bind (st_lift (ok_or (FrontierCorrupt (''authenticated accepted batch '' @ hex_id batch_id
             @ '' is missing its exact record'')) row)) (\<lambda>record.
           st_bind (st_lift (validate_stored_batch_physical H record)) (\<lambda>_.
           st_bind (st_lift (decode_id (sb_causal_peer_id record) ''causal peer ID'')) (\<lambda>peer.
           st_bind (st_lift (stored_clock_root record)) (\<lambda>clock_root.
           st_bind (causal_clock_lookup H (Some clock_root) peer) (\<lambda>counter.
           if counter \<noteq> Some (word_of_int (sb_causal_counter record))
           then st_lift (Inl (FrontierCorrupt (''accepted batch '' @ hex_id batch_id
             @ '' causal dot is absent from its authenticated clock'')))
           else st_return (Some record))))))))"

definition contains_batch :: "hash \<Rightarrow> physical_frontier_root \<Rightarrow> uuid \<Rightarrow> ('m, bool) db_op" where
  "contains_batch H root batch_id =
     st_bind (authenticated_batch_record H root batch_id None) (\<lambda>record. st_return (record \<noteq> None))"

definition authenticate_batch :: "hash \<Rightarrow> physical_frontier_root \<Rightarrow> uuid \<Rightarrow> digest \<Rightarrow> ('m, bool) db_op" where
  "authenticate_batch H root batch_id causal_record_digest =
     st_bind (authenticated_batch_record H root batch_id (Some causal_record_digest)) (\<lambda>record.
     st_return (record \<noteq> None))"

definition batch_descends_from :: "hash \<Rightarrow> physical_frontier_root \<Rightarrow> uuid \<Rightarrow> uuid \<Rightarrow> ('m, bool) db_op" where
  "batch_descends_from H root descendant_id ancestor_id =
     st_bind (authenticated_batch_record H root descendant_id None) (\<lambda>found.
     st_bind (st_lift (ok_or (FrontierCorrupt ''descendant batch is absent from the authenticated accepted map'') found)) (\<lambda>descendant.
     st_bind (authenticated_batch_record H root ancestor_id None) (\<lambda>found_ancestor.
     case found_ancestor of
       None \<Rightarrow> st_return False
     | Some ancestor \<Rightarrow>
         st_bind (st_lift (decode_id (sb_causal_peer_id ancestor) ''causal peer ID'')) (\<lambda>peer.
         st_bind (st_lift (u64_of_i64 ''stored causal counter is invalid'' (sb_causal_counter ancestor))) (\<lambda>counter.
         st_bind (st_lift (stored_clock_root descendant)) (\<lambda>clock.
         st_bind (causal_clock_lookup H (Some clock) peer) (\<lambda>found_counter.
         st_return (case found_counter of None \<Rightarrow> False | Some c \<Rightarrow> counter \<le> c))))))))"

end
