(* ===== verification/Map_Table.thy ===== *)
theory Map_Table
  imports Frontier_Node
begin

text \<open>
  The one algorithm behind \<open>upsert_causal_clock\<close>, \<open>upsert_batch_map\<close> and \<open>upsert_frontier_map\<close>: insertion
  with rotations over a table of linked nodes, given the operations that load and write a node.  The
  component theories show that their translations of the three functions are instances.  The locale
  \<open>map_table\<close> states what such a table promises, and the insertion is verified once inside it.
\<close>

record ('s, 'v) map_ops =
  op_load :: "map_link \<Rightarrow> 's \<Rightarrow> (frontier_error + 'v map_node) \<times> 's"
  op_child :: "map_link \<Rightarrow> 's \<Rightarrow> (frontier_error + 'v map_node) \<times> 's"
  op_write :: "'v map_node \<Rightarrow> 's \<Rightarrow> (frontier_error + map_link) \<times> 's"

definition rotate_right :: "('s, 'v) map_ops \<Rightarrow> string \<Rightarrow> 'v map_node \<Rightarrow> 's \<Rightarrow> (frontier_error + map_link) \<times> 's" where
  "rotate_right ops missing node =
     st_bind (st_lift (ok_or (FrontierCorrupt missing) (node_left node))) (\<lambda>l.
     st_bind (op_child ops l) (\<lambda>left_node.
     st_bind (op_write ops (node\<lparr>node_left := node_right left_node\<rparr>)) (\<lambda>lowered.
     op_write ops (left_node\<lparr>node_right := Some lowered\<rparr>))))"

definition rotate_left :: "('s, 'v) map_ops \<Rightarrow> string \<Rightarrow> 'v map_node \<Rightarrow> 's \<Rightarrow> (frontier_error + map_link) \<times> 's" where
  "rotate_left ops missing node =
     st_bind (st_lift (ok_or (FrontierCorrupt missing) (node_right node))) (\<lambda>r.
     st_bind (op_child ops r) (\<lambda>right_node.
     st_bind (op_write ops (node\<lparr>node_right := node_left right_node\<rparr>)) (\<lambda>lowered.
     op_write ops (right_node\<lparr>node_left := Some lowered\<rparr>))))"

text \<open>Writing a node back: with the new value, or with the subtree an insertion below it returned.\<close>

definition put_here :: "('s, 'v) map_ops \<Rightarrow> ('v \<Rightarrow> 'v \<Rightarrow> 'v) \<Rightarrow> 'v \<Rightarrow> 'v map_node \<Rightarrow> 's \<Rightarrow> (frontier_error + map_link \<times> bool) \<times> 's" where
  "put_here ops f v node =
     st_bind (op_write ops (node\<lparr>node_value := f (node_value node) v\<rparr>)) (\<lambda>link. st_return (link, False))"

definition put_left :: "hash \<Rightarrow> ('s, 'v) map_ops \<Rightarrow> string \<Rightarrow> 'v map_node \<Rightarrow> map_link \<times> bool \<Rightarrow> 's \<Rightarrow> (frontier_error + map_link \<times> bool) \<times> 's" where
  "put_left H ops missing node below =
     st_bind (if authenticated_map_priority_order H (link_key (fst below)) (node_key node)
        then rotate_right ops missing (node\<lparr>node_left := Some (fst below)\<rparr>)
        else op_write ops (node\<lparr>node_left := Some (fst below)\<rparr>)) (\<lambda>link. st_return (link, snd below))"

definition put_right :: "hash \<Rightarrow> ('s, 'v) map_ops \<Rightarrow> string \<Rightarrow> 'v map_node \<Rightarrow> map_link \<times> bool \<Rightarrow> 's \<Rightarrow> (frontier_error + map_link \<times> bool) \<times> 's" where
  "put_right H ops missing node below =
     st_bind (if authenticated_map_priority_order H (link_key (fst below)) (node_key node)
        then rotate_left ops missing (node\<lparr>node_right := Some (fst below)\<rparr>)
        else op_write ops (node\<lparr>node_right := Some (fst below)\<rparr>)) (\<lambda>link. st_return (link, snd below))"

function map_upsert ::
    "hash \<Rightarrow> ('s, 'v) map_ops \<Rightarrow> string \<times> string \<times> string \<Rightarrow> ('v \<Rightarrow> 'v \<Rightarrow> 'v) \<Rightarrow>
     map_link option \<Rightarrow> uuid \<Rightarrow> 'v \<Rightarrow> nat \<Rightarrow> 's \<Rightarrow> (frontier_error + map_link \<times> bool) \<times> 's" where
  "map_upsert H ops texts f root key v depth =
     st_bind (st_lift (ensure_depth depth (fst texts))) (\<lambda>_.
     case root of
       None \<Rightarrow>
         st_bind (op_write ops \<lparr>node_key = key, node_value = v, node_left = None, node_right = None\<rparr>) (\<lambda>link.
         st_return (link, True))
     | Some link \<Rightarrow>
         st_bind (op_load ops link) (\<lambda>node.
           if key = node_key node then put_here ops f v node
           else if key < node_key node then
             st_bind (map_upsert H ops texts f (node_left node) key v (depth + 1))
               (put_left H ops (fst (snd texts)) node)
           else
             st_bind (map_upsert H ops texts f (node_right node) key v (depth + 1))
               (put_right H ops (snd (snd texts)) node)))"
  by pat_completeness auto
termination
  by (relation "measure (\<lambda>(H, ops, texts, f, root, key, v, depth). 257 - depth)")
    (auto simp: ensure_depth_ran)

declare map_upsert.simps [simp del]

text \<open>The lookup loop of the three maps.\<close>

function map_lookup ::
    "(map_link \<Rightarrow> 's \<Rightarrow> (frontier_error + 'v map_node) \<times> 's) \<Rightarrow> string \<Rightarrow> map_link option \<Rightarrow> uuid \<Rightarrow> nat \<Rightarrow>
     's \<Rightarrow> (frontier_error + 'v option) \<times> 's" where
  "map_lookup load operation current key depth =
     (case current of
        None \<Rightarrow> st_return None
      | Some link \<Rightarrow>
          st_bind (st_lift (ensure_depth depth operation)) (\<lambda>_.
          st_bind (load link) (\<lambda>node.
          if key = node_key node then st_return (Some (node_value node))
          else if key < node_key node then map_lookup load operation (node_left node) key (depth + 1)
          else map_lookup load operation (node_right node) key (depth + 1))))"
  by pat_completeness auto
termination
  by (relation "measure (\<lambda>(load, operation, current, key, depth). 257 - depth)") (auto simp: ensure_depth_ran)

declare map_lookup.simps [simp del]

text \<open>The value an insertion leaves at its key.\<close>

abbreviation updated :: "('v \<Rightarrow> 'v \<Rightarrow> 'v) \<Rightarrow> (uuid, 'v) treap \<Rightarrow> uuid \<Rightarrow> 'v \<Rightarrow> 'v" where
  "updated f t key v \<equiv> (case tmap t key of None \<Rightarrow> v | Some w \<Rightarrow> f w v)"

section \<open>What a table of nodes promises\<close>

text \<open>
  \<open>inv\<close> is the invariant of the table, \<open>stored s t\<close> says that every node of the tree \<open>t\<close> can be loaded in
  \<open>s\<close>, \<open>keep K s s'\<close> that going from \<open>s\<close> to \<open>s'\<close> only rows of the keys \<open>K\<close> can have changed.  \<open>B\<close> bounds the entries that
  are ever written: the collision hypotheses of the instances speak of the trees over \<open>B\<close>.  The only
  failures are those in \<open>fault\<close>.
\<close>

locale map_table =
  fixes H :: hash and vd :: "uuid \<Rightarrow> 'v \<Rightarrow> digest" and ops :: "('s, 'v) map_ops"
    and inv :: "'s \<Rightarrow> bool" and stored :: "'s \<Rightarrow> (uuid, 'v) treap \<Rightarrow> bool"
    and keep :: "uuid set \<Rightarrow> 's \<Rightarrow> 's \<Rightarrow> bool" and B :: "(uuid \<times> 'v) set"
    and fault :: "frontier_error \<Rightarrow> 's \<Rightarrow> bool"
  assumes load: "\<And>s t lk n. inv s \<Longrightarrow> stored s t \<Longrightarrow> tree_link H vd t = Some lk \<Longrightarrow> root_node H vd t = Some n \<Longrightarrow>
      runs (op_load ops lk) s (\<lambda>x s'. x = n \<and> inv s' \<and> keep {} s s') fault"
    and child: "\<And>s t lk n. inv s \<Longrightarrow> stored s t \<Longrightarrow> tree_link H vd t = Some lk \<Longrightarrow> root_node H vd t = Some n \<Longrightarrow>
      runs (op_child ops lk) s (\<lambda>x s'. x = n \<and> inv s' \<and> keep {} s s') fault"
    and stored_Tip: "\<And>s. stored s Tip"
    and stored_sides: "\<And>s l k v r. stored s (Bin l k v r) \<Longrightarrow> stored s l \<and> stored s r"
    and put: "\<And>s l k v r n lk. inv s \<Longrightarrow> map_ok H (Bin l k v r) \<Longrightarrow> tentries (Bin l k v r) \<subseteq> B \<Longrightarrow>
      stored s l \<Longrightarrow> stored s r \<Longrightarrow> root_node H vd (Bin l k v r) = Some n \<Longrightarrow>
      runs (op_write ops n) s
        (\<lambda>x s'. tree_link H vd (Bin l k v r) = Some x \<and> inv s' \<and> stored s' (Bin l k v r) \<and> keep {k} s s') fault"
    and keep_refl: "\<And>s. keep {} s s"
    and keep_trans: "\<And>K K' s s' s''. keep K s s' \<Longrightarrow> keep K' s' s'' \<Longrightarrow> keep (K \<union> K') s s''"
    and keep_mono: "\<And>K K' s s'. keep K s s' \<Longrightarrow> K \<subseteq> K' \<Longrightarrow> keep K' s s'"
    and keep_stored: "\<And>K s s' t. keep K s s' \<Longrightarrow> stored s t \<Longrightarrow> tkeys t \<inter> K = {} \<Longrightarrow> stored s' t"
begin

lemma keep_step: "keep K s s' \<Longrightarrow> keep K' s' s'' \<Longrightarrow> K \<union> K' \<subseteq> K'' \<Longrightarrow> keep K'' s s''"
  using keep_trans keep_mono by blast

lemma rotate_right_ok:
  assumes s: "inv s" "stored s (Bin a y w b)" "stored s r"
    and ok: "map_ok H (Bin a y w (Bin b k v r))" and B: "tentries (Bin a y w (Bin b k v r)) \<subseteq> B"
  shows "runs (rotate_right ops missing
      \<lparr>node_key = k, node_value = v, node_left = tree_link H vd (Bin a y w b), node_right = tree_link H vd r\<rparr>) s
    (\<lambda>x s'. tree_link H vd (Bin a y w (Bin b k v r)) = Some x \<and> inv s'
       \<and> stored s' (Bin a y w (Bin b k v r)) \<and> keep {y, k} s s') fault"
  unfolding rotate_right_def
proof (simp, rule runs_bind [OF child [OF s(1,2)]], simp, simp, clarsimp)
  fix s1
  assume s1: "inv s1" "keep {} s s1"
  have st: "stored s1 a" "stored s1 b" "stored s1 r"
    using keep_stored [OF s1(2)] stored_sides [OF s(2)] s(3) by auto
  show "runs (st_bind (op_write ops \<lparr>node_key = k, node_value = v, node_left = tree_link H vd b, node_right = tree_link H vd r\<rparr>)
      (\<lambda>lowered. op_write ops \<lparr>node_key = y, node_value = w, node_left = tree_link H vd a, node_right = Some lowered\<rparr>)) s1
    (\<lambda>x s'. \<lparr>link_key = y, link_digest = authenticated_map_node_digest H y (vd y w) (tree_link H vd a)
          (Some \<lparr>link_key = k, link_digest = authenticated_map_node_digest H k (vd k v) (tree_link H vd b) (tree_link H vd r)\<rparr>)\<rparr> = x
       \<and> inv s' \<and> stored s' (Bin a y w (Bin b k v r)) \<and> keep {y, k} s s') fault"
  proof (rule runs_bind [OF put [OF s1(1), of b k v r]])
    fix x s2
    assume "tree_link H vd (Bin b k v r) = Some x \<and> inv s2 \<and> stored s2 (Bin b k v r) \<and> keep {k} s1 s2"
    then have x: "tree_link H vd (Bin b k v r) = Some x" and s2: "inv s2" "stored s2 (Bin b k v r)" "keep {k} s1 s2"
      by simp_all
    have "k \<notin> tkeys a" using ok by fastforce
    then have "stored s2 a" using keep_stored [OF s2(3) st(1)] by simp
    then show "runs (op_write ops \<lparr>node_key = y, node_value = w, node_left = tree_link H vd a, node_right = Some x\<rparr>) s2
      (\<lambda>x s'. \<lparr>link_key = y, link_digest = authenticated_map_node_digest H y (vd y w) (tree_link H vd a)
          (Some \<lparr>link_key = k, link_digest = authenticated_map_node_digest H k (vd k v) (tree_link H vd b) (tree_link H vd r)\<rparr>)\<rparr> = x
       \<and> inv s' \<and> stored s' (Bin a y w (Bin b k v r)) \<and> keep {y, k} s s') fault"
      using x keep_step [OF keep_step [OF s1(2) s2(3) order_refl]]
      by (intro runs_mono [OF put [OF s2(1) ok B _ s2(2)]]) auto
  qed (use ok B st in auto)
qed

lemma rotate_left_ok:
  assumes s: "inv s" "stored s (Bin a y w b)" "stored s l"
    and ok: "map_ok H (Bin (Bin l k v a) y w b)" and B: "tentries (Bin (Bin l k v a) y w b) \<subseteq> B"
  shows "runs (rotate_left ops missing
      \<lparr>node_key = k, node_value = v, node_left = tree_link H vd l, node_right = tree_link H vd (Bin a y w b)\<rparr>) s
    (\<lambda>x s'. tree_link H vd (Bin (Bin l k v a) y w b) = Some x \<and> inv s'
       \<and> stored s' (Bin (Bin l k v a) y w b) \<and> keep {y, k} s s') fault"
  unfolding rotate_left_def
proof (simp, rule runs_bind [OF child [OF s(1,2)]], simp, simp, clarsimp)
  fix s1
  assume s1: "inv s1" "keep {} s s1"
  have st: "stored s1 a" "stored s1 b" "stored s1 l"
    using keep_stored [OF s1(2)] stored_sides [OF s(2)] s(3) by auto
  show "runs (st_bind (op_write ops \<lparr>node_key = k, node_value = v, node_left = tree_link H vd l, node_right = tree_link H vd a\<rparr>)
      (\<lambda>lowered. op_write ops \<lparr>node_key = y, node_value = w, node_left = Some lowered, node_right = tree_link H vd b\<rparr>)) s1
    (\<lambda>x s'. \<lparr>link_key = y, link_digest = authenticated_map_node_digest H y (vd y w)
          (Some \<lparr>link_key = k, link_digest = authenticated_map_node_digest H k (vd k v) (tree_link H vd l) (tree_link H vd a)\<rparr>)
          (tree_link H vd b)\<rparr> = x
       \<and> inv s' \<and> stored s' (Bin (Bin l k v a) y w b) \<and> keep {y, k} s s') fault"
  proof (rule runs_bind [OF put [OF s1(1), of l k v a]])
    fix x s2
    assume "tree_link H vd (Bin l k v a) = Some x \<and> inv s2 \<and> stored s2 (Bin l k v a) \<and> keep {k} s1 s2"
    then have x: "tree_link H vd (Bin l k v a) = Some x" and s2: "inv s2" "stored s2 (Bin l k v a)" "keep {k} s1 s2"
      by simp_all
    have "k \<notin> tkeys b" using ok by fastforce
    then have "stored s2 b" using keep_stored [OF s2(3) st(2)] by simp
    then show "runs (op_write ops \<lparr>node_key = y, node_value = w, node_left = Some x, node_right = tree_link H vd b\<rparr>) s2
      (\<lambda>x s'. \<lparr>link_key = y, link_digest = authenticated_map_node_digest H y (vd y w)
          (Some \<lparr>link_key = k, link_digest = authenticated_map_node_digest H k (vd k v) (tree_link H vd l) (tree_link H vd a)\<rparr>)
          (tree_link H vd b)\<rparr> = x
       \<and> inv s' \<and> stored s' (Bin (Bin l k v a) y w b) \<and> keep {y, k} s s') fault"
      using x keep_step [OF keep_step [OF s1(2) s2(3) order_refl]]
      by (intro runs_mono [OF put [OF s2(1) ok B s2(2)]]) auto
  qed (use ok B st in auto)
qed

text \<open>
  Putting back a node whose left (right) subtree has become the tree \<open>u\<close>: the rotation happens exactly
  when it has to, and the tree that results is again a treap.
\<close>

lemma raise_left:
  assumes s: "inv s" "stored s u" "stored s r"
    and ok: "map_ok H (Bin l k v r)" "map_ok H u" "tkeys u = insert x (tkeys l)" "x < k"
    and B: "tentries (Bin u k v r) \<subseteq> B" and lk: "tree_link H vd u = Some lk"
  shows "runs (put_left H ops missing
       \<lparr>node_key = k, node_value = v, node_left = c, node_right = tree_link H vd r\<rparr> (lk, new)) s
    (\<lambda>(z, inserted) s'. \<exists>t. tree_link H vd t = Some z \<and> map_ok H t \<and> tmap t = tmap (Bin u k v r) \<and> inserted = new
       \<and> inv s' \<and> stored s' t \<and> keep (insert k (tkeys u)) s s') fault"
proof -
  obtain a y w b where u: "u = Bin a y w b" using lk by (cases u) auto
  have y: "link_key lk = y" and lk': "Some lk = tree_link H vd u" using lk u by auto
  show ?thesis
  proof (cases "authenticated_map_priority_order H y k")
    case True
    note rot = priority.rotated_right [OF ok(1) ok(2) [unfolded u] ok(3) [unfolded u] ok(4) True]
    have "y < k" using ok u by auto
    then have "tmap (Bin a y w (Bin b k v r)) = tmap (Bin u k v r)"
      by (auto simp: u fun_eq_iff)
    moreover have "tentries (Bin a y w (Bin b k v r)) \<subseteq> B" using B u by auto
    ultimately show ?thesis
      using True y rot(2)
      by (simp add: put_left_def lk' u del: tree_link.simps treap_ok.simps tmap.simps,
          intro runs_bind [OF rotate_right_ok [OF s(1) s(2) [unfolded u] s(3) rot(2)]])
        (auto simp del: tree_link.simps treap_ok.simps tmap.simps
          intro!: keep_mono [of "{y, k}"] exI [of _ "Bin a y w (Bin b k v r)"])
  next
    case False
    have low: "map_ok H (Bin u k v r)"
      by (rule priority.lowered_left [OF ok]) (use False u in auto)
    then show ?thesis
      using False y
      by (simp add: put_left_def del: treap_ok.simps tmap.simps, intro runs_bind [OF put [OF s(1) low B s(2,3)]])
        (auto simp: lk' simp del: treap_ok.simps tmap.simps intro!: exI [of _ "Bin u k v r"] keep_mono [of "{k}"])
  qed
qed

lemma raise_right:
  assumes s: "inv s" "stored s u" "stored s l"
    and ok: "map_ok H (Bin l k v r)" "map_ok H u" "tkeys u = insert x (tkeys r)" "k < x"
    and B: "tentries (Bin l k v u) \<subseteq> B" and lk: "tree_link H vd u = Some lk"
  shows "runs (put_right H ops missing
       \<lparr>node_key = k, node_value = v, node_left = tree_link H vd l, node_right = c\<rparr> (lk, new)) s
    (\<lambda>(z, inserted) s'. \<exists>t. tree_link H vd t = Some z \<and> map_ok H t \<and> tmap t = tmap (Bin l k v u) \<and> inserted = new
       \<and> inv s' \<and> stored s' t \<and> keep (insert k (tkeys u)) s s') fault"
proof -
  obtain a y w b where u: "u = Bin a y w b" using lk by (cases u) auto
  have y: "link_key lk = y" and lk': "Some lk = tree_link H vd u" using lk u by auto
  show ?thesis
  proof (cases "authenticated_map_priority_order H y k")
    case True
    note rot = priority.rotated_left [OF ok(1) ok(2) [unfolded u] ok(3) [unfolded u] ok(4) True]
    have "k < y" using ok u by auto
    then have "tmap (Bin (Bin l k v a) y w b) = tmap (Bin l k v u)"
      by (auto simp: u fun_eq_iff)
    moreover have "tentries (Bin (Bin l k v a) y w b) \<subseteq> B" using B u by auto
    ultimately show ?thesis
      using True y rot(2)
      by (simp add: put_right_def lk' u del: tree_link.simps treap_ok.simps tmap.simps,
          intro runs_bind [OF rotate_left_ok [OF s(1) s(2) [unfolded u] s(3) rot(2)]])
        (auto simp del: tree_link.simps treap_ok.simps tmap.simps
          intro!: keep_mono [of "{y, k}"] exI [of _ "Bin (Bin l k v a) y w b"])
  next
    case False
    have low: "map_ok H (Bin l k v u)"
      by (rule priority.lowered_right [OF ok]) (use False u in auto)
    then show ?thesis
      using False y
      by (simp add: put_right_def del: treap_ok.simps tmap.simps, intro runs_bind [OF put [OF s(1) low B s(3,2)]])
        (auto simp: lk' simp del: treap_ok.simps tmap.simps intro!: exI [of _ "Bin l k v u"] keep_mono [of "{k}"])
  qed
qed

text \<open>
  Insertion of an entry: the root returned commits to a treap that holds the old map with the entry
  combined in, stored in the new state; only rows on keys of the tree and the new key have changed.  The
  depth that is left bounds the height of the tree, so the depth error never occurs.
\<close>

abbreviation upserted :: "('v \<Rightarrow> 'v \<Rightarrow> 'v) \<Rightarrow> (uuid, 'v) treap \<Rightarrow> uuid \<Rightarrow> 'v \<Rightarrow> 's \<Rightarrow> map_link \<times> bool \<Rightarrow> 's \<Rightarrow> bool" where
  "upserted f t key v s \<equiv> \<lambda>(lk, inserted) s'. \<exists>t'. tree_link H vd t' = Some lk \<and> map_ok H t'
     \<and> tmap t' = (tmap t)(key \<mapsto> updated f t key v) \<and> inserted = (key \<notin> tkeys t)
     \<and> inv s' \<and> stored s' t' \<and> keep (insert key (tkeys t)) s s'"

lemma upserted_up:
  assumes "\<exists>u. tree_link H vd u = Some z \<and> map_ok H u \<and> tmap u = m \<and> inserted = new \<and> inv s3 \<and> stored s3 u \<and> keep K s2 s3"
    and "keep {} s s1" "keep K1 s1 s2" "K1 \<subseteq> insert key (tkeys t)" "K \<subseteq> insert key (tkeys t)"
    and "m = (tmap t)(key \<mapsto> updated f t key v)" "new = (key \<notin> tkeys t)"
  shows "upserted f t key v s (z, inserted) s3"
proof -
  from assms(1) obtain u where u: "tree_link H vd u = Some z" "map_ok H u" "tmap u = m" "inserted = new" "inv s3"
      "stored s3 u" "keep K s2 s3" by blast
  have "keep (insert key (tkeys t)) s s3"
    by (rule keep_step [OF assms(2) keep_step [OF assms(3) u(7) order_refl]]) (use assms(4,5) in blast)
  then show ?thesis using u assms(6,7) by auto
qed

lemma map_upsert_ok:
  "inv s \<Longrightarrow> stored s t \<Longrightarrow> map_ok H t \<Longrightarrow> theight t + depth \<le> 256 \<Longrightarrow> tentries t \<subseteq> B \<Longrightarrow>
   (key, updated f t key v) \<in> B \<Longrightarrow>
   runs (map_upsert H ops texts f (tree_link H vd t) key v depth) s (upserted f t key v s) fault"
proof (induction t arbitrary: depth s)
  case Tip
  have "runs (op_write ops \<lparr>node_key = key, node_value = v, node_left = None, node_right = None\<rparr>) s
      (\<lambda>x s'. tree_link H vd (Bin Tip key v Tip) = Some x \<and> inv s' \<and> stored s' (Bin Tip key v Tip) \<and> keep {key} s s') fault"
    using Tip by (intro put) (auto simp: stored_Tip)
  then show ?case
    using Tip.prems
    by (subst map_upsert.simps)
      (auto simp: ensure_depth_ok fun_eq_iff elim!: runs_bind intro!: exI [of _ "Bin Tip key v Tip"])
next
  case (Bin l k w r)
  let ?t = "Bin l k w r"
  let ?n = "\<lparr>node_key = k, node_value = w, node_left = tree_link H vd l, node_right = tree_link H vd r\<rparr>"
  have deep: "depth \<le> 256" using Bin.prems(4) by simp
  obtain lk where lk: "tree_link H vd ?t = Some lk" by simp
  have step: "runs (map_upsert H ops texts f (tree_link H vd ?t) key v depth) s Q fault"
    if "\<And>s1. inv s1 \<Longrightarrow> keep {} s s1 \<Longrightarrow> stored s1 l \<Longrightarrow> stored s1 r \<Longrightarrow>
      runs (if key = k then put_here ops f v ?n
        else if key < k then st_bind (map_upsert H ops texts f (tree_link H vd l) key v (depth + 1)) (put_left H ops (fst (snd texts)) ?n)
        else st_bind (map_upsert H ops texts f (tree_link H vd r) key v (depth + 1)) (put_right H ops (snd (snd texts)) ?n)) s1 Q fault"
    for Q
  proof -
    have "stored s1 l" "stored s1 r" if "keep {} s s1" for s1
      using keep_stored [OF that] stored_sides [OF Bin.prems(2)] by auto
    then show ?thesis
      unfolding lk map_upsert.simps [of H ops texts f "Some lk"] ensure_depth_ok [OF deep]
      using that by (simp, intro runs_bind [OF load [OF Bin.prems(1,2) lk, of ?n]]) (auto simp del: map_upsert.simps)
  qed
  note ok = Bin.prems(3)
  consider (here) "key = k" | (less) "key < k" | (greater) "k < key" by fastforce
  then show ?case
  proof cases
    case here
    have ok': "map_ok H (Bin l k (f w v) r)" using ok by simp
    have B: "tentries (Bin l k (f w v) r) \<subseteq> B" using Bin.prems(5,6) here by simp
    show ?thesis
    proof (rule step)
      fix s1
      assume s1: "inv s1" "keep {} s s1" "stored s1 l" "stored s1 r"
      show "runs (if key = k then put_here ops f v ?n
        else if key < k then st_bind (map_upsert H ops texts f (tree_link H vd l) key v (depth + 1)) (put_left H ops (fst (snd texts)) ?n)
        else st_bind (map_upsert H ops texts f (tree_link H vd r) key v (depth + 1)) (put_right H ops (snd (snd texts)) ?n)) s1
          (upserted f ?t key v s) fault"
        using here
        by (simp add: put_here_def del: tree_link.simps treap_ok.simps, intro runs_bind [OF put [OF s1(1) ok' B s1(3,4)]])
          (auto simp del: tree_link.simps treap_ok.simps simp: ok'
            intro!: exI [of _ "Bin l k (f w v) r"] keep_step [OF s1(2)])
    qed
  next
    case less
    have same: "tmap l key = tmap ?t key" using less by auto
    have notin: "key \<in> tkeys ?t \<longleftrightarrow> key \<in> tkeys l" using less ok by fastforce
    show ?thesis
    proof (rule step)
      fix s1
      assume s1: "inv s1" "keep {} s s1" "stored s1 l" "stored s1 r"
      have IH: "runs (map_upsert H ops texts f (tree_link H vd l) key v (depth + 1)) s1 (upserted f l key v s1) fault"
        using Bin.prems less by (intro Bin.IH(1) [OF s1(1,3)]) (auto simp: same)
      have "runs (st_bind (map_upsert H ops texts f (tree_link H vd l) key v (depth + 1)) (put_left H ops (fst (snd texts)) ?n)) s1
          (upserted f ?t key v s) fault"
      proof (rule runs_bind [OF IH])
        fix x s2
        assume "upserted f l key v s1 x s2"
        then obtain u lk' where x: "x = (lk', key \<notin> tkeys l)" and u: "tree_link H vd u = Some lk'" "map_ok H u"
            "tmap u = (tmap l)(key \<mapsto> updated f l key v)" and s2: "inv s2" "stored s2 u" "keep (insert key (tkeys l)) s1 s2"
          by (cases x) auto
        have keys: "tkeys u = insert key (tkeys l)"
          using dom_tmap [OF u(2)] dom_tmap [of _ l] ok u(3) by auto
        have r: "stored s2 r" using ok less by (intro keep_stored [OF s2(3) s1(4)]) fastforce
        have "tentries u \<subseteq> B"
          using Bin.prems(5,6) same tentries_graph [OF u(2)] tentries_graph [of _ l] ok u(3)
          by (auto split: if_splits)
        then have B: "tentries (Bin u k w r) \<subseteq> B" using Bin.prems(5) by auto
        have map: "tmap (Bin u k w r) = (tmap ?t)(key \<mapsto> updated f ?t key v)"
          using less u(3) same by (auto simp: fun_eq_iff)
        show "runs (put_left H ops (fst (snd texts)) ?n x) s2 (upserted f ?t key v s) fault"
          unfolding x
          by (rule runs_mono [OF raise_left [OF s2(1,2) r ok u(2) keys less B u(1)]], unfold split_paired_all split_conv)
            (rule upserted_up [unfolded split_conv, OF _ s1(2) s2(3)], assumption, use map notin keys in auto)
      qed
      then show "runs (if key = k then put_here ops f v ?n
        else if key < k then st_bind (map_upsert H ops texts f (tree_link H vd l) key v (depth + 1)) (put_left H ops (fst (snd texts)) ?n)
        else st_bind (map_upsert H ops texts f (tree_link H vd r) key v (depth + 1)) (put_right H ops (snd (snd texts)) ?n)) s1
          (upserted f ?t key v s) fault"
        unfolding if_not_P [OF less_imp_neq [OF less]] if_P [OF less] .
    qed
  next
    case greater
    have same: "tmap r key = tmap ?t key" using greater by auto
    have notin: "key \<in> tkeys ?t \<longleftrightarrow> key \<in> tkeys r" using greater ok by fastforce
    show ?thesis
    proof (rule step)
      fix s1
      assume s1: "inv s1" "keep {} s s1" "stored s1 l" "stored s1 r"
      have IH: "runs (map_upsert H ops texts f (tree_link H vd r) key v (depth + 1)) s1 (upserted f r key v s1) fault"
        using Bin.prems greater by (intro Bin.IH(2) [OF s1(1,4)]) (auto simp: same)
      have "runs (st_bind (map_upsert H ops texts f (tree_link H vd r) key v (depth + 1)) (put_right H ops (snd (snd texts)) ?n)) s1
          (upserted f ?t key v s) fault"
      proof (rule runs_bind [OF IH])
        fix x s2
        assume "upserted f r key v s1 x s2"
        then obtain u lk' where x: "x = (lk', key \<notin> tkeys r)" and u: "tree_link H vd u = Some lk'" "map_ok H u"
            "tmap u = (tmap r)(key \<mapsto> updated f r key v)" and s2: "inv s2" "stored s2 u" "keep (insert key (tkeys r)) s1 s2"
          by (cases x) auto
        have keys: "tkeys u = insert key (tkeys r)"
          using dom_tmap [OF u(2)] dom_tmap [of _ r] ok u(3) by auto
        have l: "stored s2 l" using ok greater by (intro keep_stored [OF s2(3) s1(3)]) fastforce
        have "tentries u \<subseteq> B"
          using Bin.prems(5,6) same tentries_graph [OF u(2)] tentries_graph [of _ r] ok u(3)
          by (auto split: if_splits)
        then have B: "tentries (Bin l k w u) \<subseteq> B" using Bin.prems(5) by auto
        have map: "tmap (Bin l k w u) = (tmap ?t)(key \<mapsto> updated f ?t key v)"
          using greater u(3) same by (auto simp: fun_eq_iff)
        show "runs (put_right H ops (snd (snd texts)) ?n x) s2 (upserted f ?t key v s) fault"
          unfolding x
          by (rule runs_mono [OF raise_right [OF s2(1,2) l ok u(2) keys greater B u(1)]], unfold split_paired_all split_conv)
            (rule upserted_up [unfolded split_conv, OF _ s1(2) s2(3)], assumption, use map notin keys in auto)
      qed
      then show "runs (if key = k then put_here ops f v ?n
        else if key < k then st_bind (map_upsert H ops texts f (tree_link H vd l) key v (depth + 1)) (put_left H ops (fst (snd texts)) ?n)
        else st_bind (map_upsert H ops texts f (tree_link H vd r) key v (depth + 1)) (put_right H ops (snd (snd texts)) ?n)) s1
          (upserted f ?t key v s) fault"
        unfolding if_not_P [OF less_imp_neq [OF greater, symmetric]] if_not_P [OF less_not_sym [OF greater]] .
    qed
  qed
qed

text \<open>Lookup finds exactly the map of the tree.\<close>

lemma map_lookup_ok:
  "inv s \<Longrightarrow> stored s t \<Longrightarrow> theight t + depth \<le> 257 \<Longrightarrow>
   runs (map_lookup (op_load ops) operation (tree_link H vd t) key depth) s
     (\<lambda>x s'. x = tmap t key \<and> inv s' \<and> keep {} s s') fault"
proof (induction t arbitrary: depth s)
  case Tip
  then show ?case by (simp add: map_lookup.simps keep_refl)
next
  case (Bin l k v r)
  let ?n = "\<lparr>node_key = k, node_value = v, node_left = tree_link H vd l, node_right = tree_link H vd r\<rparr>"
  have deep: "ensure_depth depth operation = Inr ()" using Bin.prems(3) by (intro ensure_depth_ok) simp
  obtain lk where lk: "tree_link H vd (Bin l k v r) = Some lk" by simp
  show ?case
    unfolding lk map_lookup.simps [of _ _ "Some lk"] deep st_bind_Inr option.case
  proof (rule runs_bind [OF load [OF Bin.prems(1,2) lk, of ?n]])
    fix n s1
    assume "n = ?n \<and> inv s1 \<and> keep {} s s1"
    then have n: "n = ?n" and s1: "inv s1" "keep {} s s1" by simp_all
    have st: "stored s1 l" "stored s1 r"
      using keep_stored [OF s1(2)] stored_sides [OF Bin.prems(2)] by auto
    have "theight l + (depth + 1) \<le> 257" "theight r + (depth + 1) \<le> 257" using Bin.prems(3) by auto
    note IH = Bin.IH(1) [OF s1(1) st(1) this(1)] Bin.IH(2) [OF s1(1) st(2) this(2)]
    show "runs (if key = node_key n then st_return (Some (node_value n))
        else if key < node_key n then map_lookup (op_load ops) operation (node_left n) key (depth + 1)
        else map_lookup (op_load ops) operation (node_right n) key (depth + 1)) s1
      (\<lambda>x s'. x = tmap (Bin l k v r) key \<and> inv s' \<and> keep {} s s') fault"
      using s1 keep_step [OF s1(2)] by (auto simp: n intro!: runs_mono [OF IH(1) [simplified]] runs_mono [OF IH(2) [simplified]])
  qed simp
qed

end

end
