(* ===== verification/Frontier_Clock.thy ===== *)
theory Frontier_Clock
  imports Frontier_Records Map_Table
begin

text \<open>
  Causal clocks: persistent treaps from peers to counters in the content-addressed table
  \<open>causal_clock_nodes\<close>.  First the functions of the code, then the table as an instance of
  \<open>map_table\<close>, then what insertion, split and union do to the map a root commits to.
\<close>

section \<open>Operations\<close>

definition rotate_clock_right :: "hash \<Rightarrow> clock_node \<Rightarrow> ('m, map_link) db_op" where
  "rotate_clock_right H node =
     st_bind (st_lift (ok_or (FrontierCorrupt ''causal clock rotation has no left child'') (node_left node))) (\<lambda>l.
     st_bind (load_clock_node H l) (\<lambda>left_node.
     st_bind (write_clock_node H (node\<lparr>node_left := node_right left_node\<rparr>)) (\<lambda>lowered.
     write_clock_node H (left_node\<lparr>node_right := Some lowered\<rparr>))))"

definition rotate_clock_left :: "hash \<Rightarrow> clock_node \<Rightarrow> ('m, map_link) db_op" where
  "rotate_clock_left H node =
     st_bind (st_lift (ok_or (FrontierCorrupt ''causal clock rotation has no right child'') (node_right node))) (\<lambda>r.
     st_bind (load_clock_node H r) (\<lambda>right_node.
     st_bind (write_clock_node H (node\<lparr>node_right := node_left right_node\<rparr>)) (\<lambda>lowered.
     write_clock_node H (right_node\<lparr>node_left := Some lowered\<rparr>))))"

function upsert_causal_clock :: "hash \<Rightarrow> map_link option \<Rightarrow> uuid \<Rightarrow> u64 \<Rightarrow> nat \<Rightarrow> ('m, map_link) db_op" where
  "upsert_causal_clock H root peer counter depth =
     st_bind (st_lift (ensure_depth depth ''causal clock update'')) (\<lambda>_.
     case root of
       None \<Rightarrow>
         write_clock_node H \<lparr>node_key = peer, node_value = counter, node_left = None, node_right = None\<rparr>
     | Some link \<Rightarrow>
         st_bind (load_clock_node H link) (\<lambda>node.
           if peer = node_key node then
             write_clock_node H (node\<lparr>node_value := max (node_value node) counter\<rparr>)
           else if peer < node_key node then
             st_bind (upsert_causal_clock H (node_left node) peer counter (depth + 1)) (\<lambda>l.
             if authenticated_map_priority_order H (link_key l) (node_key node)
             then rotate_clock_right H (node\<lparr>node_left := Some l\<rparr>)
             else write_clock_node H (node\<lparr>node_left := Some l\<rparr>))
           else
             st_bind (upsert_causal_clock H (node_right node) peer counter (depth + 1)) (\<lambda>r.
             if authenticated_map_priority_order H (link_key r) (node_key node)
             then rotate_clock_left H (node\<lparr>node_right := Some r\<rparr>)
             else write_clock_node H (node\<lparr>node_right := Some r\<rparr>))))"
  by pat_completeness auto
termination
  by (relation "measure (\<lambda>(H, root, peer, counter, depth). 257 - depth)") (auto simp: ensure_depth_ran)

function split_clock ::
    "hash \<Rightarrow> map_link option \<Rightarrow> uuid \<Rightarrow> nat \<Rightarrow> ('m, map_link option \<times> u64 option \<times> map_link option) db_op" where
  "split_clock H root key depth =
     st_bind (st_lift (ensure_depth depth ''causal clock split'')) (\<lambda>_.
     case root of
       None \<Rightarrow> st_return (None, None, None)
     | Some link \<Rightarrow>
         st_bind (load_clock_node H link) (\<lambda>node.
           if key = link_key link then st_return (node_left node, Some (node_value node), node_right node)
           else if key < link_key link then
             st_bind (split_clock H (node_left node) key (depth + 1)) (\<lambda>(less, counter, greater_left).
             st_bind (write_clock_node H (node\<lparr>node_left := greater_left\<rparr>)) (\<lambda>greater.
             st_return (less, counter, Some greater)))
           else
             st_bind (split_clock H (node_right node) key (depth + 1)) (\<lambda>(less_right, counter, greater).
             st_bind (write_clock_node H (node\<lparr>node_right := less_right\<rparr>)) (\<lambda>less.
             st_return (Some less, counter, greater)))))"
  by pat_completeness auto
termination
  by (relation "measure (\<lambda>(H, root, key, depth). 257 - depth)") (auto simp: ensure_depth_ran)

definition unwrap_counter :: "u64 option \<Rightarrow> u64" where
  "unwrap_counter c = (case c of None \<Rightarrow> 0 | Some n \<Rightarrow> n)"

function union_clocks :: "hash \<Rightarrow> map_link option \<Rightarrow> map_link option \<Rightarrow> nat \<Rightarrow> ('m, map_link option) db_op" where
  "union_clocks H left_root right_root depth =
     st_bind (st_lift (ensure_depth depth ''causal clock union'')) (\<lambda>_.
     case (left_root, right_root) of
       (None, r) \<Rightarrow> st_return r
     | (l, None) \<Rightarrow> st_return l
     | (Some left_link, Some right_link) \<Rightarrow>
         if left_link = right_link then st_return (Some left_link)
         else if link_key left_link = link_key right_link then
           st_bind (load_clock_node H left_link) (\<lambda>left_node.
           st_bind (load_clock_node H right_link) (\<lambda>right_node.
           st_bind (union_clocks H (node_left left_node) (node_left right_node) (depth + 1)) (\<lambda>l.
           st_bind (union_clocks H (node_right left_node) (node_right right_node) (depth + 1)) (\<lambda>r.
           st_bind (write_clock_node H \<lparr>node_key = node_key left_node,
             node_value = max (node_value left_node) (node_value right_node), node_left = l, node_right = r\<rparr>) (\<lambda>link.
           st_return (Some link))))))
         else if authenticated_map_priority_order H (link_key left_link) (link_key right_link) then
           st_bind (load_clock_node H left_link) (\<lambda>left_node.
           st_bind (split_clock H (Some right_link) (link_key left_link) (depth + 1)) (\<lambda>(less, counter, greater).
           st_bind (union_clocks H (node_left left_node) less (depth + 1)) (\<lambda>l.
           st_bind (union_clocks H (node_right left_node) greater (depth + 1)) (\<lambda>r.
           st_bind (write_clock_node H \<lparr>node_key = node_key left_node,
             node_value = max (node_value left_node) (unwrap_counter counter), node_left = l, node_right = r\<rparr>) (\<lambda>link.
           st_return (Some link))))))
         else
           st_bind (load_clock_node H right_link) (\<lambda>right_node.
           st_bind (split_clock H (Some left_link) (link_key right_link) (depth + 1)) (\<lambda>(less, counter, greater).
           st_bind (union_clocks H less (node_left right_node) (depth + 1)) (\<lambda>l.
           st_bind (union_clocks H greater (node_right right_node) (depth + 1)) (\<lambda>r.
           st_bind (write_clock_node H \<lparr>node_key = node_key right_node,
             node_value = max (node_value right_node) (unwrap_counter counter), node_left = l, node_right = r\<rparr>) (\<lambda>link.
           st_return (Some link)))))))"
  by pat_completeness auto
termination
  by (relation "measure (\<lambda>(H, l, r, depth). 257 - depth)") (auto simp: ensure_depth_ran)

declare upsert_causal_clock.simps [simp del] split_clock.simps [simp del] union_clocks.simps [simp del]

section \<open>The table of clock nodes\<close>

text \<open>
  \<open>clock_space H S B\<close>: the hash has no collision on the texts \<open>S\<close>, which contain the node and counter
  texts of every clock over the entries \<open>B\<close>, and the counters in \<open>B\<close> fit the column.
\<close>

definition clock_space :: "hash \<Rightarrow> bytes set \<Rightarrow> (uuid \<times> u64) set \<Rightarrow> bool" where
  "clock_space H S B \<longleftrightarrow>
     inj_on H S \<and> (\<forall>(k, c) \<in> B. 0 < c \<and> unat c < 2 ^ 63 \<and> clock_text k c \<in> S)
     \<and> (\<forall>t. map_ok H t \<and> tentries t \<subseteq> B \<longrightarrow> tree_texts H (causal_clock_counter_digest H) t \<subseteq> S)"

text \<open>A row that \<open>write_clock_node\<close> can have written.\<close>

definition clock_node_ok :: "hash \<Rightarrow> bytes set \<Rightarrow> clock_node \<Rightarrow> bool" where
  "clock_node_ok H S n \<longleftrightarrow>
     0 < node_value n \<and> unat (node_value n) < 2 ^ 63
     \<and> valid_map_children H (node_key n) (node_left n) (node_right n)
     \<and> map_node_text (node_key n) (causal_clock_counter_digest H (node_key n) (node_value n)) (node_left n) (node_right n) \<in> S
     \<and> clock_text (node_key n) (node_value n) \<in> S"

definition clock_table_ok :: "hash \<Rightarrow> bytes set \<Rightarrow> 'm frontier_db \<Rightarrow> bool" where
  "clock_table_ok H S db \<longleftrightarrow>
     (\<forall>d row. db_clock_nodes db d = Some row \<longrightarrow>
        (\<exists>n. clock_node_ok H S n \<and> row = clock_row_of H n \<and> d = link_digest (clock_link H n)))"

fun clock_stored :: "hash \<Rightarrow> 'm frontier_db \<Rightarrow> (uuid, u64) treap \<Rightarrow> bool" where
  "clock_stored H db Tip = True"
| "clock_stored H db (Bin l k c r) =
     (let n = \<lparr>node_key = k, node_value = c, node_left = tree_link H (causal_clock_counter_digest H) l,
               node_right = tree_link H (causal_clock_counter_digest H) r\<rparr> in
      db_clock_nodes db (link_digest (clock_link H n)) = Some (clock_row_of H n)
      \<and> 0 < c \<and> unat c < 2 ^ 63 \<and> valid_map_children H k (node_left n) (node_right n)
      \<and> clock_stored H db l \<and> clock_stored H db r)"

definition clock_inv :: "hash \<Rightarrow> bytes set \<Rightarrow> (uuid \<times> u64) set \<Rightarrow> bool \<Rightarrow> 'm frontier_db \<Rightarrow> bool" where
  "clock_inv H S B q db \<longleftrightarrow> clock_space H S B \<and> clock_table_ok H S db \<and> quiet q db"

text \<open>Only clock rows are added.\<close>

definition clock_extends :: "'m frontier_db \<Rightarrow> 'm frontier_db \<Rightarrow> bool" where
  "clock_extends db db' \<longleftrightarrow>
     (\<exists>c f. db' = db\<lparr>db_clock_nodes := c, db_faults := f\<rparr> \<and> db_clock_nodes db \<subseteq>\<^sub>m c)"

definition clock_ops :: "hash \<Rightarrow> ('m frontier_db, u64) map_ops" where
  "clock_ops H = \<lparr>op_load = load_clock_node H, op_child = load_clock_node H, op_write = write_clock_node H\<rparr>"

lemma clock_extends_refl [simp]: "clock_extends db db"
  by (auto simp: clock_extends_def intro!: exI [of _ "db_clock_nodes db"] exI [of _ "db_faults db"])

lemma clock_extends_trans: "clock_extends a b \<Longrightarrow> clock_extends b c \<Longrightarrow> clock_extends a c"
  unfolding clock_extends_def
  by (auto intro: map_le_trans intro!: exI [of _ "db_clock_nodes c"] exI [of _ "db_faults c"])

lemma faults_extends: "faults_only db db' \<Longrightarrow> clock_extends db db'"
  by (auto simp: faults_only_def clock_extends_def intro!: exI [of _ "db_clock_nodes db"])

lemma clock_stored_extends: "clock_extends db db' \<Longrightarrow> clock_stored H db t \<Longrightarrow> clock_stored H db' t"
  by (induction t) (auto simp: clock_extends_def Let_def map_le_def dom_def)

lemma clock_link_tree:
  "tree_link H (causal_clock_counter_digest H) t = Some lk \<Longrightarrow> root_node H (causal_clock_counter_digest H) t = Some n \<Longrightarrow>
   lk = clock_link H n"
  by (cases t) (auto simp: clock_link_def)

lemma check_clock_row_of:
  "0 < node_value n \<Longrightarrow> valid_map_children H (node_key n) (node_left n) (node_right n) \<Longrightarrow>
   check_clock_row H (clock_link H n) (clock_row_of H n) = Inr n"
  by (simp add: check_clock_row_def clock_row_of_def clock_link_def word_greater_zero_iff)

lemma load_clock_runs:
  assumes "quiet q db" "db_clock_nodes db (link_digest (clock_link H n)) = Some (clock_row_of H n)"
    "0 < node_value n" "valid_map_children H (node_key n) (node_left n) (node_right n)"
  shows "runs (load_clock_node H (clock_link H n)) db (\<lambda>x db'. x = n \<and> faults_only db db' \<and> quiet q db') (sql_fault q)"
  unfolding load_clock_node_def
  by (rule runs_bind [OF query_runs [OF assms(1)]])
    (auto simp: faults_only_tables assms(2) check_clock_row_of [OF assms(3,4)])

lemma clock_load:
  assumes "clock_inv H S B q db" "clock_stored H db t" "tree_link H (causal_clock_counter_digest H) t = Some lk"
    "root_node H (causal_clock_counter_digest H) t = Some n"
  shows "runs (load_clock_node H lk) db (\<lambda>x db'. x = n \<and> clock_inv H S B q db' \<and> clock_extends db db') (sql_fault q)"
proof -
  have lk: "lk = clock_link H n" using clock_link_tree assms(3,4) by blast
  have "quiet q db" using assms(1) by (simp add: clock_inv_def)
  moreover have "db_clock_nodes db (link_digest (clock_link H n)) = Some (clock_row_of H n)"
      "0 < node_value n" "valid_map_children H (node_key n) (node_left n) (node_right n)"
    using assms(2,4) by (cases t; auto simp: Let_def)+
  ultimately show ?thesis
    unfolding lk using assms(1)
    by (auto elim!: runs_mono [OF load_clock_runs] simp: clock_inv_def clock_table_ok_def faults_only_tables faults_extends)
qed

lemma clock_digest_inject:
  assumes "inj_on H S" "clock_node_ok H S n" "clock_node_ok H S n'" "link_digest (clock_link H n) = link_digest (clock_link H n')"
  shows "n = n'"
proof -
  let ?text = "\<lambda>n. map_node_text (node_key n) (causal_clock_counter_digest H (node_key n) (node_value n)) (node_left n) (node_right n)"
  have "?text n = ?text n'"
    using assms by (intro inj_onD [OF assms(1)]) (auto simp: clock_link_def authenticated_map_node_digest_def clock_node_ok_def)
  then have same: "node_key n = node_key n'" "node_left n = node_left n'" "node_right n = node_right n'"
      and eq: "causal_clock_counter_digest H (node_key n) (node_value n) = causal_clock_counter_digest H (node_key n') (node_value n')"
    unfolding map_node_text_inject by blast+
  have "clock_text (node_key n) (node_value n) = clock_text (node_key n') (node_value n')"
    using assms(2,3) by (intro inj_onD [OF assms(1) eq [unfolded causal_clock_counter_digest_def]]) (auto simp: clock_node_ok_def)
  then show ?thesis using same by (simp add: clock_text_inject)
qed

lemma clock_root_ok:
  assumes "clock_space H S B" "map_ok H (Bin l k c r)" "tentries (Bin l k c r) \<subseteq> B"
    "root_node H (causal_clock_counter_digest H) (Bin l k c r) = Some n"
  shows "clock_node_ok H S n"
proof -
  have "tree_texts H (causal_clock_counter_digest H) (Bin l k c r) \<subseteq> S" "(k, c) \<in> B"
    using assms unfolding clock_space_def by (meson, simp)
  then show ?thesis
    using assms(1,4) valid_children [OF assms(2), of "causal_clock_counter_digest H"]
    by (auto simp: clock_node_ok_def clock_space_def)
qed

lemma clock_insert:
  assumes ok: "clock_inv H S B q db" and n: "clock_node_ok H S n"
  defines "db' \<equiv> (if db_clock_nodes db (link_digest (clock_link H n)) = None \<and> 0 < uint (node_value n)
      then db\<lparr>db_clock_nodes := (db_clock_nodes db)(link_digest (clock_link H n) \<mapsto> clock_row_of H n)\<rparr> else db)"
  shows "clock_inv H S B q db'" "clock_extends db db'" "db_clock_nodes db' (link_digest (clock_link H n)) = Some (clock_row_of H n)"
proof -
  have pos: "0 < uint (node_value n)"
    using n by (auto simp: clock_node_ok_def word_less_def)
  show "clock_inv H S B q db'"
    using ok n by (auto simp: db'_def clock_inv_def clock_table_ok_def quiet_def)
  have new: "clock_extends db (db\<lparr>db_clock_nodes := (db_clock_nodes db)(x \<mapsto> y)\<rparr>)" if "db_clock_nodes db x = None" for x y
    using that by (auto simp: clock_extends_def map_le_def dom_def
        intro!: exI [of _ "(db_clock_nodes db)(x \<mapsto> y)"] exI [of _ "db_faults db"])
  show "clock_extends db db'"
    by (simp add: db'_def new)
  show "db_clock_nodes db' (link_digest (clock_link H n)) = Some (clock_row_of H n)"
  proof (cases "db_clock_nodes db (link_digest (clock_link H n))")
    case None
    then show ?thesis using pos by (simp add: db'_def)
  next
    case (Some row)
    then obtain m where m: "clock_node_ok H S m" "row = clock_row_of H m" "link_digest (clock_link H n) = link_digest (clock_link H m)"
      using ok unfolding clock_inv_def clock_table_ok_def by blast
    have "inj_on H S" using ok by (simp add: clock_inv_def clock_space_def)
    from clock_digest_inject [OF this n m(1,3)] show ?thesis using Some m(2) by (simp add: db'_def)
  qed
qed

lemma clock_inv_faults: "faults_only db db' \<Longrightarrow> quiet q db' \<Longrightarrow> clock_inv H S B q db \<Longrightarrow> clock_inv H S B q db'"
  by (auto simp: clock_inv_def clock_table_ok_def faults_only_tables)

lemma clock_write:
  assumes ok: "clock_inv H S B q db" and t: "map_ok H (Bin l k c r)" "tentries (Bin l k c r) \<subseteq> B"
    "clock_stored H db l" "clock_stored H db r" and n: "root_node H (causal_clock_counter_digest H) (Bin l k c r) = Some n"
  shows "runs (write_clock_node H n) db
    (\<lambda>x db'. tree_link H (causal_clock_counter_digest H) (Bin l k c r) = Some x \<and> clock_inv H S B q db'
       \<and> clock_stored H db' (Bin l k c r) \<and> clock_extends db db') (sql_fault q)"
proof -
  have good: "clock_node_ok H S n" using clock_root_ok [OF _ t(1,2) n] ok by (simp add: clock_inv_def)
  have q: "quiet q db" using ok by (simp add: clock_inv_def)
  have link: "tree_link H (causal_clock_counter_digest H) (Bin l k c r) = Some (clock_link H n)"
    using n by (auto simp: clock_link_def)
  have small: "unat (node_value n) < 2 ^ 63" and pos: "0 < node_value n"
      and children: "valid_map_children H (node_key n) (node_left n) (node_right n)"
    using good by (auto simp: clock_node_ok_def)
  show ?thesis
    unfolding write_clock_node_def Let_def i64_of_u64_ok [OF small] st_bind_Inr
  proof (rule runs_bind [OF update_runs [OF q]])
    fix u :: unit and db2
    assume "\<exists>db1. faults_only db db1 \<and> quiet q db1
      \<and> db2 = (if db_clock_nodes db1 (link_digest (clock_link H n)) = None \<and> 0 < uint (node_value n)
          then db1\<lparr>db_clock_nodes := (db_clock_nodes db1)(link_digest (clock_link H n) \<mapsto> clock_row_of H n)\<rparr> else db1)"
    then obtain db1 where db1: "faults_only db db1" "quiet q db1" and db2: "db2 =
        (if db_clock_nodes db1 (link_digest (clock_link H n)) = None \<and> 0 < uint (node_value n)
         then db1\<lparr>db_clock_nodes := (db_clock_nodes db1)(link_digest (clock_link H n) \<mapsto> clock_row_of H n)\<rparr> else db1)"
      by blast
    note ins = clock_insert [OF clock_inv_faults [OF db1 ok] good, folded db2]
    have ext: "clock_extends db db2" using faults_extends [OF db1(1)] ins(2) clock_extends_trans by blast
    have "quiet q db2" using ins(1) by (simp add: clock_inv_def)
    then show "runs (st_bind (load_clock_node H (clock_link H n)) (\<lambda>_. st_return (clock_link H n))) db2
      (\<lambda>x db'. tree_link H (causal_clock_counter_digest H) (Bin l k c r) = Some x \<and> clock_inv H S B q db'
         \<and> clock_stored H db' (Bin l k c r) \<and> clock_extends db db') (sql_fault q)"
    proof (rule runs_bind [OF load_clock_runs [OF _ ins(3) pos children]])
      fix x db3
      assume "x = n \<and> faults_only db2 db3 \<and> quiet q db3"
      then have db3: "faults_only db2 db3" "quiet q db3" by simp_all
      have e: "clock_extends db db3" using ext faults_extends [OF db3(1)] clock_extends_trans by blast
      have "clock_stored H db3 (Bin l k c r)"
        using n ins(3) small pos children clock_stored_extends [OF e t(3)] clock_stored_extends [OF e t(4)]
        by (auto simp: Let_def faults_only_tables [OF db3(1)])
      then show "runs (st_return (clock_link H n)) db3 (\<lambda>x db'. tree_link H (causal_clock_counter_digest H) (Bin l k c r) = Some x
         \<and> clock_inv H S B q db' \<and> clock_stored H db' (Bin l k c r) \<and> clock_extends db db') (sql_fault q)"
        using e link clock_inv_faults [OF db3 ins(1)] by simp
    qed
  qed
qed

interpretation clock_table: map_table H "causal_clock_counter_digest H" "clock_ops H" "clock_inv H S B q"
    "clock_stored H" "\<lambda>_. clock_extends" B "sql_fault q" for H S B q
proof unfold_locales
  fix db t lk n
  assume a: "clock_inv H S B q db" "clock_stored H db t" "tree_link H (causal_clock_counter_digest H) t = Some lk"
    "root_node H (causal_clock_counter_digest H) t = Some n"
  show "runs (op_load (clock_ops H) lk) db (\<lambda>x s'. x = n \<and> clock_inv H S B q s' \<and> clock_extends db s') (sql_fault q)"
    "runs (op_child (clock_ops H) lk) db (\<lambda>x s'. x = n \<and> clock_inv H S B q s' \<and> clock_extends db s') (sql_fault q)"
    using clock_load [OF a] by (simp_all add: clock_ops_def)
next
  fix db l k c r n
  assume "clock_inv H S B q db" "map_ok H (Bin l k c r)" "tentries (Bin l k c r) \<subseteq> B" "clock_stored H db l"
    "clock_stored H db r" "root_node H (causal_clock_counter_digest H) (Bin l k c r) = Some n"
  from clock_write [OF this] show "runs (op_write (clock_ops H) n) db
    (\<lambda>x s'. tree_link H (causal_clock_counter_digest H) (Bin l k c r) = Some x \<and> clock_inv H S B q s'
       \<and> clock_stored H s' (Bin l k c r) \<and> clock_extends db s') (sql_fault q)"
    by (simp only: clock_ops_def map_ops.simps)
qed (auto simp: Let_def intro: clock_extends_trans clock_stored_extends)

section \<open>Insertion\<close>

abbreviation clock_upsert_texts :: "string \<times> string \<times> string" where
  "clock_upsert_texts \<equiv> (''causal clock update'', ''causal clock rotation has no left child'', ''causal clock rotation has no right child'')"

lemma rotate_clock_ops:
  "rotate_clock_right H node = rotate_right (clock_ops H) ''causal clock rotation has no left child'' node"
  "rotate_clock_left H node = rotate_left (clock_ops H) ''causal clock rotation has no right child'' node"
  by (simp_all add: rotate_clock_right_def rotate_clock_left_def rotate_right_def rotate_left_def clock_ops_def)

lemma st_bind_return [simp]: "st_bind m st_return = m" "st_bind m (\<lambda>x. st_return x) = m"
  by (auto simp: st_bind_def st_return_def fun_eq_iff split: prod.splits sum.splits)

lemma upsert_causal_clock_map:
  "(upsert_causal_clock H root peer counter depth :: ('m, map_link) db_op) =
     st_bind (map_upsert H (clock_ops H) clock_upsert_texts max root peer counter depth) (\<lambda>x. st_return (fst x))"
proof (induction "257 - depth" arbitrary: root depth rule: less_induct)
  case less
  show ?case
  proof (cases "depth \<le> 256")
    case True
    have IH: "(upsert_causal_clock H root' peer counter (depth + 1) :: ('m, map_link) db_op) =
        st_bind (map_upsert H (clock_ops H) clock_upsert_texts max root' peer counter (depth + 1)) (\<lambda>x. st_return (fst x))" for root'
      using True by (intro less) simp
    show ?thesis
      unfolding upsert_causal_clock.simps [of H root] map_upsert.simps [of H "clock_ops H" clock_upsert_texts max root]
        ensure_depth_ok [OF True] st_bind_Inr IH
      by (auto simp: st_bind_assoc put_here_def put_left_def put_right_def rotate_clock_ops clock_ops_def
          intro!: st_bind_cong [OF refl] split: option.split)
  next
    case False
    then show ?thesis
      unfolding upsert_causal_clock.simps [of H root] map_upsert.simps [of H "clock_ops H" clock_upsert_texts max root]
      by (simp add: ensure_depth_def MAX_AUTHENTICATED_MAP_DEPTH_def st_bind_def st_lift_def fun_eq_iff)
  qed
qed

definition clock_join :: "(uuid \<Rightarrow> u64 option) \<Rightarrow> (uuid \<Rightarrow> u64 option) \<Rightarrow> uuid \<Rightarrow> u64 option" where
  "clock_join m n p =
     (case m p of None \<Rightarrow> n p | Some c \<Rightarrow> (case n p of None \<Rightarrow> Some c | Some d \<Rightarrow> Some (max c d)))"

text \<open>What a step on clocks ends in: a root that commits to the map \<open>m\<close>, all of it stored.\<close>

definition clock_holds :: "hash \<Rightarrow> 'm frontier_db \<Rightarrow> map_link option \<Rightarrow> (uuid \<Rightarrow> u64 option) \<Rightarrow> bool" where
  "clock_holds H db root m \<longleftrightarrow>
     (\<exists>t. tree_link H (causal_clock_counter_digest H) t = root \<and> map_ok H t \<and> tmap t = m \<and> clock_stored H db t)"

lemma upsert_clock_tree:
  assumes "clock_inv H S B q db" "clock_stored H db t" "map_ok H t" "theight t + depth \<le> 256" "tentries t \<subseteq> B"
    "(peer, updated max t peer counter) \<in> B"
  shows "runs (upsert_causal_clock H (tree_link H (causal_clock_counter_digest H) t) peer counter depth) db
    (\<lambda>x db'. clock_holds H db' (Some x) ((tmap t)(peer \<mapsto> updated max t peer counter))
       \<and> clock_inv H S B q db' \<and> clock_extends db db') (sql_fault q)"
  unfolding upsert_causal_clock_map
  by (rule runs_bind [OF clock_table.map_upsert_ok [where f = max, OF assms]]) (auto simp: clock_holds_def)

section \<open>Split and union\<close>

lemma shrunk_left:
  assumes "map_ok H (Bin l k v r)" "map_ok H a" "tkeys a \<subseteq> tkeys l"
  shows "map_ok H (Bin a k v r)"
  using assms by auto

lemma shrunk_right:
  assumes "map_ok H (Bin l k v r)" "map_ok H a" "tkeys a \<subseteq> tkeys r"
  shows "map_ok H (Bin l k v a)"
  using assms by auto

lemma restricted_entries:
  assumes "map_ok H a" "map_ok H t" "tmap a = (\<lambda>x. if P x then tmap t x else None)"
  shows "tentries a \<subseteq> tentries t" "tkeys a = {x \<in> tkeys t. P x}"
proof -
  show "tentries a \<subseteq> tentries t" using assms by (auto simp: tentries_graph split: if_splits)
  show "tkeys a = {x \<in> tkeys t. P x}"
    using assms(3) unfolding dom_tmap [OF assms(1), symmetric] dom_tmap [OF assms(2), symmetric]
    by (auto split: if_splits)
qed

definition split_parts :: "hash \<Rightarrow> (uuid, u64) treap \<Rightarrow> uuid \<Rightarrow> map_link option \<times> u64 option \<times> map_link option \<Rightarrow>
    (uuid, u64) treap \<Rightarrow> (uuid, u64) treap \<Rightarrow> bool" where
  "split_parts H t key = (\<lambda>(less, counter, greater) a b.
     tree_link H (causal_clock_counter_digest H) a = less \<and> tree_link H (causal_clock_counter_digest H) b = greater
     \<and> counter = tmap t key \<and> map_ok H a \<and> map_ok H b
     \<and> tmap a = (\<lambda>x. if x < key then tmap t x else None) \<and> tmap b = (\<lambda>x. if key < x then tmap t x else None)
     \<and> theight a \<le> theight t \<and> theight b \<le> theight t)"

definition split_done :: "hash \<Rightarrow> bytes set \<Rightarrow> (uuid \<times> u64) set \<Rightarrow> bool \<Rightarrow> (uuid, u64) treap \<Rightarrow> uuid \<Rightarrow> 'm frontier_db \<Rightarrow>
    map_link option \<times> u64 option \<times> map_link option \<Rightarrow> 'm frontier_db \<Rightarrow> bool" where
  "split_done H S B q t key db x db' \<longleftrightarrow>
     (\<exists>a b. split_parts H t key x a b \<and> clock_stored H db' a \<and> clock_stored H db' b)
     \<and> clock_inv H S B q db' \<and> clock_extends db db'"

lemma split_doneI:
  "split_parts H t key x a b \<Longrightarrow> clock_stored H db' a \<Longrightarrow> clock_stored H db' b \<Longrightarrow> clock_inv H S B q db' \<Longrightarrow>
   clock_extends db db' \<Longrightarrow> split_done H S B q t key db x db'"
  by (auto simp: split_done_def)

lemma split_parts_left:
  assumes t: "map_ok H (Bin l k c r)" and key: "key < k" and p: "split_parts H l key (lo, counter, hi) a b"
  shows "map_ok H (Bin b k c r)" "tentries b \<subseteq> tentries l"
    "tree_link H (causal_clock_counter_digest H) (Bin b k c r) = Some g \<Longrightarrow>
       split_parts H (Bin l k c r) key (lo, counter, Some g) a (Bin b k c r)"
proof -
  have b: "map_ok H b" "tmap b = (\<lambda>x. if key < x then tmap l x else None)" and l: "map_ok H l"
    using p t by (auto simp: split_parts_def)
  show "tentries b \<subseteq> tentries l" by (rule restricted_entries(1) [OF b(1) l b(2)])
  have "tkeys b \<subseteq> tkeys l" using restricted_entries(2) [OF b(1) l b(2)] by blast
  then show ok: "map_ok H (Bin b k c r)" by (rule shrunk_left [OF t b(1)])
  assume "tree_link H (causal_clock_counter_digest H) (Bin b k c r) = Some g"
  then show "split_parts H (Bin l k c r) key (lo, counter, Some g) a (Bin b k c r)"
    using p key ok unfolding split_parts_def
    by (auto simp: fun_eq_iff simp del: tree_link.simps treap_ok.simps)
qed

lemma split_parts_right:
  assumes t: "map_ok H (Bin l k c r)" and key: "k < key" and p: "split_parts H r key (lo, counter, hi) a b"
  shows "map_ok H (Bin l k c a)" "tentries a \<subseteq> tentries r"
    "tree_link H (causal_clock_counter_digest H) (Bin l k c a) = Some g \<Longrightarrow>
       split_parts H (Bin l k c r) key (Some g, counter, hi) (Bin l k c a) b"
proof -
  have a: "map_ok H a" "tmap a = (\<lambda>x. if x < key then tmap r x else None)" and r: "map_ok H r"
    using p t by (auto simp: split_parts_def)
  show "tentries a \<subseteq> tentries r" by (rule restricted_entries(1) [OF a(1) r a(2)])
  have "tkeys a \<subseteq> tkeys r" using restricted_entries(2) [OF a(1) r a(2)] by blast
  then show ok: "map_ok H (Bin l k c a)" by (rule shrunk_right [OF t a(1)])
  assume "tree_link H (causal_clock_counter_digest H) (Bin l k c a) = Some g"
  then show "split_parts H (Bin l k c r) key (Some g, counter, hi) (Bin l k c a) b"
    using p key ok unfolding split_parts_def
    by (auto simp: fun_eq_iff simp del: tree_link.simps treap_ok.simps)
qed

lemma split_clock_ok:
  "clock_inv H S B q db \<Longrightarrow> clock_stored H db t \<Longrightarrow> map_ok H t \<Longrightarrow> theight t + depth \<le> 256 \<Longrightarrow> tentries t \<subseteq> B \<Longrightarrow>
   runs (split_clock H (tree_link H (causal_clock_counter_digest H) t) key depth) db
     (split_done H S B q t key db) (sql_fault q)"
proof (induction t arbitrary: db depth)
  case Tip
  then have "split_parts H Tip key (None, None, None) Tip Tip" by (auto simp: split_parts_def)
  then show ?case
    unfolding split_clock.simps [of H "tree_link H (causal_clock_counter_digest H) Tip"] using Tip
    by (auto simp: ensure_depth_ok split_done_def simp del: clock_stored.simps intro!: exI [of _ Tip])
next
  case (Bin l k c r)
  let ?t = "Bin l k c r" and ?vd = "causal_clock_counter_digest H"
  let ?n = "\<lparr>node_key = k, node_value = c, node_left = tree_link H ?vd l, node_right = tree_link H ?vd r\<rparr>"
  have deep: "ensure_depth depth ''causal clock split'' = Inr ()" using Bin.prems(4) by (intro ensure_depth_ok) simp
  obtain lk where lk: "tree_link H ?vd ?t = Some lk" by simp
  then have key: "link_key lk = k" by auto
  have n: "root_node H ?vd ?t = Some ?n" by simp
  show ?case
    unfolding lk split_clock.simps [of H "Some lk"] deep st_bind_Inr option.case key
  proof (rule runs_bind [OF clock_load [OF Bin.prems(1,2) lk n]])
    fix x db1
    assume "x = ?n \<and> clock_inv H S B q db1 \<and> clock_extends db db1"
    then have x: "x = ?n" and db1: "clock_inv H S B q db1" "clock_extends db db1" by simp_all
    have st: "clock_stored H db1 l" "clock_stored H db1 r"
      using clock_stored_extends [OF db1(2) Bin.prems(2)] by (auto simp: Let_def)
    consider (here) "key = k" | (less) "key < k" "key \<noteq> k" | (greater) "k < key" "key \<noteq> k" "\<not> key < k" by fastforce
    then show "runs (if key = k then st_return (node_left x, Some (node_value x), node_right x)
        else if key < k then
          st_bind (split_clock H (node_left x) key (depth + 1)) (\<lambda>(less, counter, greater_left).
          st_bind (write_clock_node H (x\<lparr>node_left := greater_left\<rparr>)) (\<lambda>greater. st_return (less, counter, Some greater)))
        else
          st_bind (split_clock H (node_right x) key (depth + 1)) (\<lambda>(less_right, counter, greater).
          st_bind (write_clock_node H (x\<lparr>node_right := less_right\<rparr>)) (\<lambda>less. st_return (Some less, counter, greater)))) db1
      (split_done H S B q ?t key db) (sql_fault q)"
    proof cases
      case here
      have "split_parts H ?t key (tree_link H ?vd l, Some c, tree_link H ?vd r) l r"
        using Bin.prems(3) here by (auto simp: split_parts_def fun_eq_iff intro!: tmap_None [of "authenticated_map_priority_order H"])
      then show ?thesis using here x st db1 by (auto simp: split_done_def)
    next
      case less
      have IH: "runs (split_clock H (tree_link H ?vd l) key (depth + 1)) db1 (split_done H S B q l key db1) (sql_fault q)"
        using Bin.prems(3,4,5) by (intro Bin.IH(1) [OF db1(1) st(1)]) auto
      show ?thesis
        unfolding if_not_P [OF less(2)] if_P [OF less(1)] x map_node.select_convs
      proof (rule runs_bind [OF IH], clarify)
        fix less_link counter hi db2
        assume "split_done H S B q l key db1 (less_link, counter, hi) db2"
        then obtain a b where p: "split_parts H l key (less_link, counter, hi) a b"
            and st2: "clock_stored H db2 a" "clock_stored H db2 b" and db2: "clock_inv H S B q db2" "clock_extends db1 db2"
          by (auto simp: split_done_def)
        note pl = split_parts_left [OF Bin.prems(3) less(1) p]
        have g: "hi = tree_link H ?vd b" using p by (simp add: split_parts_def)
        have B: "tentries (Bin b k c r) \<subseteq> B" using Bin.prems(5) pl(2) by auto
        have r: "clock_stored H db2 r" using clock_stored_extends [OF db2(2) st(2)] .
        have n': "root_node H ?vd (Bin b k c r) = Some (?n\<lparr>node_left := hi\<rparr>)" by (simp add: g)
        show "runs (st_bind (write_clock_node H (?n\<lparr>node_left := hi\<rparr>)) (\<lambda>greater. st_return (less_link, counter, Some greater)))
          db2 (split_done H S B q ?t key db) (sql_fault q)"
          by (rule runs_bind [OF clock_write [OF db2(1) pl(1) B st2(2) r n']])
            (auto simp del: tree_link.simps clock_stored.simps
              intro!: split_doneI [where a = a and b = "Bin b k c r"] pl(3) clock_stored_extends [OF _ st2(1)]
              intro: clock_extends_trans [OF db1(2) clock_extends_trans [OF db2(2)]])
      qed
    next
      case greater
      have IH: "runs (split_clock H (tree_link H ?vd r) key (depth + 1)) db1 (split_done H S B q r key db1) (sql_fault q)"
        using Bin.prems(3,4,5) by (intro Bin.IH(2) [OF db1(1) st(2)]) auto
      show ?thesis
        unfolding if_not_P [OF greater(2)] if_not_P [OF greater(3)] x map_node.select_convs
      proof (rule runs_bind [OF IH], clarify)
        fix less_link counter greater_link db2
        assume "split_done H S B q r key db1 (less_link, counter, greater_link) db2"
        then obtain a b where p: "split_parts H r key (less_link, counter, greater_link) a b"
            and st2: "clock_stored H db2 a" "clock_stored H db2 b" and db2: "clock_inv H S B q db2" "clock_extends db1 db2"
          by (auto simp: split_done_def)
        note pr = split_parts_right [OF Bin.prems(3) greater(1) p]
        have g: "less_link = tree_link H ?vd a" using p by (simp add: split_parts_def)
        have B: "tentries (Bin l k c a) \<subseteq> B" using Bin.prems(5) pr(2) by auto
        have l: "clock_stored H db2 l" using clock_stored_extends [OF db2(2) st(1)] .
        have n': "root_node H ?vd (Bin l k c a) = Some (?n\<lparr>node_right := less_link\<rparr>)" by (simp add: g)
        show "runs (st_bind (write_clock_node H (?n\<lparr>node_right := less_link\<rparr>)) (\<lambda>less. st_return (Some less, counter, greater_link)))
          db2 (split_done H S B q ?t key db) (sql_fault q)"
          by (rule runs_bind [OF clock_write [OF db2(1) pr(1) B l st2(1) n']])
            (auto simp del: tree_link.simps clock_stored.simps
              intro!: split_doneI [where a = "Bin l k c a" and b = b] pr(3) clock_stored_extends [OF _ st2(2)]
              intro: clock_extends_trans [OF db1(2) clock_extends_trans [OF db2(2)]])
      qed
    qed
  qed
qed

definition joined :: "hash \<Rightarrow> bytes set \<Rightarrow> (uuid \<times> u64) set \<Rightarrow> bool \<Rightarrow> (uuid \<Rightarrow> u64 option) \<Rightarrow> 'm frontier_db \<Rightarrow>
    map_link option \<Rightarrow> 'm frontier_db \<Rightarrow> bool" where
  "joined H S B q m db x db' \<longleftrightarrow> clock_holds H db' x m \<and> clock_inv H S B q db' \<and> clock_extends db db'"

lemma clock_join_simps [simp]:
  "clock_join (\<lambda>_. None) m = m" "clock_join m (\<lambda>_. None) = m" "clock_join m m = m"
  by (auto simp: clock_join_def fun_eq_iff split: option.split)

lemma clock_join_Some: "clock_join m n p = Some c \<Longrightarrow> m p = Some c \<or> n p = Some c"
  by (auto simp: clock_join_def max_def split: option.splits if_splits)

lemma clock_join_None: "clock_join m n p = None \<longleftrightarrow> m p = None \<and> n p = None"
  by (auto simp: clock_join_def split: option.splits)

text \<open>The common end of the three cases of a union: two unions below and the node written over them.\<close>

lemma union_node:
  assumes holds: "clock_holds H db lo m" "clock_holds H db hi n" and inv: "clock_inv H S B q db"
    and m: "\<And>x d. m x = Some d \<Longrightarrow> x < k \<and> authenticated_map_priority_order H k x \<and> (x, d) \<in> B"
    and n: "\<And>x d. n x = Some d \<Longrightarrow> k < x \<and> authenticated_map_priority_order H k x \<and> (x, d) \<in> B"
    and c: "(k, c) \<in> B"
  shows "runs (st_bind (write_clock_node H \<lparr>node_key = k, node_value = c, node_left = lo, node_right = hi\<rparr>)
      (\<lambda>link. st_return (Some link))) db
    (joined H S B q (\<lambda>x. if x = k then Some c else if x < k then m x else n x) db) (sql_fault q)"
proof -
  let ?vd = "causal_clock_counter_digest H"
  obtain a b where a: "tree_link H ?vd a = lo" "map_ok H a" "tmap a = m" "clock_stored H db a"
      and b: "tree_link H ?vd b = hi" "map_ok H b" "tmap b = n" "clock_stored H db b"
    using holds by (auto simp: clock_holds_def)
  have in_a: "m x \<noteq> None" if "x \<in> tkeys a" for x using tmap_keys [OF a(2)] a(3) that by simp
  have in_b: "n x \<noteq> None" if "x \<in> tkeys b" for x using tmap_keys [OF b(2)] b(3) that by simp
  have ok: "map_ok H (Bin a k c b)"
    using a(2) b(2) in_a in_b m n by (simp, blast)
  have B: "tentries (Bin a k c b) \<subseteq> B"
    using m n c a(3) b(3) by (auto simp: tentries_graph [OF a(2)] tentries_graph [OF b(2)])
  have node: "root_node H ?vd (Bin a k c b) = Some \<lparr>node_key = k, node_value = c, node_left = lo, node_right = hi\<rparr>"
    using a(1) b(1) by simp
  have map: "tmap (Bin a k c b) = (\<lambda>x. if x = k then Some c else if x < k then m x else n x)"
    using a(3) b(3) by (auto simp: fun_eq_iff)
  show ?thesis
    by (rule runs_bind [OF clock_write [OF inv ok B a(4) b(4) node]])
      (use ok map in \<open>auto simp: joined_def clock_holds_def simp del: tree_link.simps treap_ok.simps clock_stored.simps tmap.simps\<close>)
qed

lemma clock_holds_extends: "clock_extends db db' \<Longrightarrow> clock_holds H db x m \<Longrightarrow> clock_holds H db' x m"
  unfolding clock_holds_def using clock_stored_extends by blast

abbreviation clock_link_of :: "hash \<Rightarrow> (uuid, u64) treap \<Rightarrow> map_link option" where
  "clock_link_of H \<equiv> tree_link H (causal_clock_counter_digest H)"

definition unions_to :: "hash \<Rightarrow> bytes set \<Rightarrow> (uuid \<times> u64) set \<Rightarrow> bool \<Rightarrow> 'm frontier_db \<Rightarrow> nat \<Rightarrow>
    (uuid, u64) treap \<Rightarrow> (uuid, u64) treap \<Rightarrow> bool" where
  "unions_to H S B q db depth t u \<longleftrightarrow>
     runs (union_clocks H (clock_link_of H t) (clock_link_of H u) depth) db
       (joined H S B q (clock_join (tmap t) (tmap u)) db) (sql_fault q)"

lemma union_sides:
  assumes IH: "unions_to H S B q db depth t u"
      "\<And>db'. clock_inv H S B q db' \<Longrightarrow> clock_extends db db' \<Longrightarrow> unions_to H S B q db' depth t' u'"
    and lo: "\<And>x d. tmap t x = Some d \<or> tmap u x = Some d \<Longrightarrow> x < k \<and> authenticated_map_priority_order H k x \<and> (x, d) \<in> B"
    and hi: "\<And>x d. tmap t' x = Some d \<or> tmap u' x = Some d \<Longrightarrow> k < x \<and> authenticated_map_priority_order H k x \<and> (x, d) \<in> B"
    and c: "(k, c) \<in> B"
    and m: "m = (\<lambda>x. if x = k then Some c else if x < k then clock_join (tmap t) (tmap u) x else clock_join (tmap t') (tmap u') x)"
    and start: "clock_extends db0 db"
  shows "runs (st_bind (union_clocks H (clock_link_of H t) (clock_link_of H u) depth) (\<lambda>l.
      st_bind (union_clocks H (clock_link_of H t') (clock_link_of H u') depth) (\<lambda>r.
      st_bind (write_clock_node H \<lparr>node_key = k, node_value = c, node_left = l, node_right = r\<rparr>)
        (\<lambda>link. st_return (Some link))))) db (joined H S B q m db0) (sql_fault q)"
proof (rule runs_bind [OF IH(1) [unfolded unions_to_def]])
  fix l db1
  assume l: "joined H S B q (clock_join (tmap t) (tmap u)) db l db1"
  then have "unions_to H S B q db1 depth t' u'" by (intro IH(2)) (auto simp: joined_def)
  then show "runs (st_bind (union_clocks H (clock_link_of H t') (clock_link_of H u') depth) (\<lambda>r.
      st_bind (write_clock_node H \<lparr>node_key = k, node_value = c, node_left = l, node_right = r\<rparr>)
        (\<lambda>link. st_return (Some link)))) db1 (joined H S B q m db0) (sql_fault q)"
  proof (rule runs_bind [OF iffD1 [OF unions_to_def]])
    fix r db2
    assume r: "joined H S B q (clock_join (tmap t') (tmap u')) db1 r db2"
    have ext: "clock_extends db0 db2"
      using start l r unfolding joined_def by (meson clock_extends_trans)
    have "runs (st_bind (write_clock_node H \<lparr>node_key = k, node_value = c, node_left = l, node_right = r\<rparr>)
        (\<lambda>link. st_return (Some link))) db2
      (joined H S B q (\<lambda>x. if x = k then Some c else if x < k then clock_join (tmap t) (tmap u) x else clock_join (tmap t') (tmap u') x) db2)
      (sql_fault q)"
      using l r clock_holds_extends
      by (intro union_node lo hi c clock_join_Some) (auto simp: joined_def)
    then show "runs (st_bind (write_clock_node H \<lparr>node_key = k, node_value = c, node_left = l, node_right = r\<rparr>)
        (\<lambda>link. st_return (Some link))) db2 (joined H S B q m db0) (sql_fault q)"
      unfolding m by (rule runs_mono) (use clock_extends_trans [OF ext] in \<open>auto simp: joined_def\<close>)
  qed
qed

lemma clock_link_inject:
  assumes "clock_space H S B" "map_ok H t" "map_ok H u" "tentries t \<subseteq> B" "tentries u \<subseteq> B"
    "clock_link_of H t = clock_link_of H u"
  shows "t = u"
proof (rule tree_link_inject [of H S B])
  show "inj_on H S" "tree_texts H (causal_clock_counter_digest H) t \<subseteq> S" "tree_texts H (causal_clock_counter_digest H) u \<subseteq> S"
    using assms by (auto simp: clock_space_def)
  fix k v v'
  assume "(k, v) \<in> B" "(k, v') \<in> B" "causal_clock_counter_digest H k v = causal_clock_counter_digest H k v'"
  then have "clock_text k v = clock_text k v'"
    using assms(1) by (intro inj_onD [of H S]) (auto simp: clock_space_def causal_clock_counter_digest_def)
  then show "v = v'" by (simp add: clock_text_inject)
qed (use assms in auto)

lemma tmap_sub:
  assumes "map_ok H (Bin l k c r)"
  shows "tmap l x = Some d \<Longrightarrow> x < k \<and> authenticated_map_priority_order H k x \<and> (x, d) \<in> tentries (Bin l k c r)"
    "tmap r x = Some d \<Longrightarrow> k < x \<and> authenticated_map_priority_order H k x \<and> (x, d) \<in> tentries (Bin l k c r)"
  using assms tmap_entries [of "authenticated_map_priority_order H" l] tmap_entries [of "authenticated_map_priority_order H" r]
  by (auto simp: keys_entries)

text \<open>
  A tree cut at a key \<open>k\<close> that comes before its root: \<open>k\<close> is not in it, and its two parts go below \<open>k\<close>.
\<close>

lemma cut_below:
  assumes u: "map_ok H (Bin l' k' c' r')" and before: "authenticated_map_priority_order H k k'"
    and p: "split_parts H (Bin l' k' c' r') k (lo, counter, hi) a b"
  shows "counter = None" "tmap (Bin l' k' c' r') k = None"
    "tmap a x = Some d \<Longrightarrow> x < k \<and> authenticated_map_priority_order H k x \<and> (x, d) \<in> tentries (Bin l' k' c' r')"
    "tmap b x = Some d \<Longrightarrow> k < x \<and> authenticated_map_priority_order H k x \<and> (x, d) \<in> tentries (Bin l' k' c' r')"
proof -
  have after: "authenticated_map_priority_order H k y" if "y \<in> tkeys (Bin l' k' c' r')" for y
    using u before that priority.before_trans by auto
  then have "k \<notin> tkeys (Bin l' k' c' r')" using priority.before_irrefl by blast
  then show none: "tmap (Bin l' k' c' r') k = None" by (rule tmap_None [OF u])
  then show "counter = None" using p by (simp add: split_parts_def)
  have entry: "(y, e) \<in> tentries (Bin l' k' c' r') \<and> authenticated_map_priority_order H k y"
    if "tmap (Bin l' k' c' r') y = Some e" for y e
    using that after [unfolded keys_entries] unfolding tmap_entries [OF u] by (metis fst_conv image_eqI)
  show "tmap a x = Some d \<Longrightarrow> x < k \<and> authenticated_map_priority_order H k x \<and> (x, d) \<in> tentries (Bin l' k' c' r')"
    using p entry by (auto simp: split_parts_def simp del: tmap.simps tentries.simps split: if_splits)
  show "tmap b x = Some d \<Longrightarrow> k < x \<and> authenticated_map_priority_order H k x \<and> (x, d) \<in> tentries (Bin l' k' c' r')"
    using p entry by (auto simp: split_parts_def simp del: tmap.simps tentries.simps split: if_splits)
qed

lemma union_clocks_ok:
  "clock_inv H S B q db \<Longrightarrow> clock_stored H db t \<Longrightarrow> clock_stored H db u \<Longrightarrow> map_ok H t \<Longrightarrow> map_ok H u \<Longrightarrow>
   theight t + theight u + depth \<le> 256 \<Longrightarrow> tentries t \<subseteq> B \<Longrightarrow> tentries u \<subseteq> B \<Longrightarrow> unions_to H S B q db depth t u"
proof (induction "theight t + theight u" arbitrary: t u db depth rule: less_induct)
  case less
  let ?vd = "causal_clock_counter_digest H"
  have deep: "ensure_depth depth ''causal clock union'' = Inr ()" using less.prems(6) by (intro ensure_depth_ok) simp
  show ?case
  proof (cases "t = Tip \<or> u = Tip \<or> t = u")
    case True
    have Tip: "tmap (Tip :: (uuid, u64) treap) = (\<lambda>_. None)" by (simp add: fun_eq_iff)
    have t: "clock_holds H db (clock_link_of H t) (tmap t)" and u: "clock_holds H db (clock_link_of H u) (tmap u)"
      using less.prems(2-5) unfolding clock_holds_def by blast+
    from True less.prems(1) show ?thesis
      unfolding unions_to_def union_clocks.simps [of H "clock_link_of H t"] deep st_bind_Inr
      using t u by (cases "clock_link_of H t"; cases "clock_link_of H u") (auto simp: joined_def Tip)
  next
    case False
    obtain l k c r where t: "t = Bin l k c r" using False by (cases t) auto
    obtain l' k' c' r' where u: "u = Bin l' k' c' r'" using False by (cases u) auto
    obtain lt lu where lt: "clock_link_of H t = Some lt" "link_key lt = k" and lu: "clock_link_of H u = Some lu" "link_key lu = k'"
      by (simp add: t u)
    have ne: "lt \<noteq> lu"
      using clock_link_inject [of H S B t u] less.prems lt(1) lu(1) False by (auto simp: clock_inv_def)
    let ?n = "\<lparr>node_key = k, node_value = c, node_left = clock_link_of H l, node_right = clock_link_of H r\<rparr>"
    let ?n' = "\<lparr>node_key = k', node_value = c', node_left = clock_link_of H l', node_right = clock_link_of H r'\<rparr>"
    have nodes: "root_node H ?vd t = Some ?n" "root_node H ?vd u = Some ?n'" by (simp_all add: t u)
    have sub: "map_ok H l" "map_ok H r" "map_ok H l'" "map_ok H r'" "tentries l \<subseteq> B" "tentries r \<subseteq> B" "tentries l' \<subseteq> B"
        "tentries r' \<subseteq> B" "(k, c) \<in> B" "(k', c') \<in> B"
      using less.prems(4,5,7,8) by (auto simp: t u)
    have st: "clock_stored H db' l" "clock_stored H db' r" "clock_stored H db' l'" "clock_stored H db' r'"
      if "clock_extends db db'" for db'
      using clock_stored_extends [OF that less.prems(2)] clock_stored_extends [OF that less.prems(3)] by (auto simp: t u Let_def)
    note step = union_clocks.simps [of H "Some lt" "Some lu"] deep st_bind_Inr option.case prod.case if_not_P [OF ne] lt(2) lu(2)
    consider (same) "k = k'" | (first) "k \<noteq> k'" "authenticated_map_priority_order H k k'"
      | (second) "k \<noteq> k'" "\<not> authenticated_map_priority_order H k k'" "authenticated_map_priority_order H k' k"
      using priority.before_total by blast
    then show ?thesis
    proof cases
      case same
      show ?thesis
        unfolding unions_to_def lt(1) lu(1) step if_P [OF same]
      proof (rule runs_bind [OF clock_load [OF less.prems(1,2) lt(1) nodes(1)]])
        fix x db1
        assume "x = ?n \<and> clock_inv H S B q db1 \<and> clock_extends db db1"
        then have x: "x = ?n" and db1: "clock_inv H S B q db1" "clock_extends db db1" by simp_all
        show "runs (st_bind (load_clock_node H lu) (\<lambda>right_node.
             st_bind (union_clocks H (node_left x) (node_left right_node) (depth + 1)) (\<lambda>l.
             st_bind (union_clocks H (node_right x) (node_right right_node) (depth + 1)) (\<lambda>r.
             st_bind (write_clock_node H \<lparr>node_key = node_key x, node_value = max (node_value x) (node_value right_node),
               node_left = l, node_right = r\<rparr>) (\<lambda>link. st_return (Some link)))))) db1
          (joined H S B q (clock_join (tmap t) (tmap u)) db) (sql_fault q)"
        proof (rule runs_bind [OF clock_load [OF db1(1) clock_stored_extends [OF db1(2) less.prems(3)] lu(1) nodes(2)]])
          fix y db2
          assume "y = ?n' \<and> clock_inv H S B q db2 \<and> clock_extends db1 db2"
          then have y: "y = ?n'" and db2: "clock_inv H S B q db2" "clock_extends db db2"
            using clock_extends_trans [OF db1(2)] by simp_all
          have IH: "unions_to H S B q db3 (depth + 1) l l'" "unions_to H S B q db3 (depth + 1) r r'"
            if "clock_inv H S B q db3" "clock_extends db2 db3" for db3
            using that sub st [OF clock_extends_trans [OF db2(2) that(2)]] less.prems(6)
            by (intro less.hyps; simp add: t u)+
          show "runs (st_bind (union_clocks H (node_left x) (node_left y) (depth + 1)) (\<lambda>l.
             st_bind (union_clocks H (node_right x) (node_right y) (depth + 1)) (\<lambda>r.
             st_bind (write_clock_node H \<lparr>node_key = node_key x, node_value = max (node_value x) (node_value y),
               node_left = l, node_right = r\<rparr>) (\<lambda>link. st_return (Some link))))) db2
          (joined H S B q (clock_join (tmap t) (tmap u)) db) (sql_fault q)"
            unfolding x y map_node.select_convs
          proof (rule union_sides [OF IH(1) [OF db2(1) clock_extends_refl] IH(2) _ _ _ _ db2(2)])
            fix p d
            show "tmap l p = Some d \<or> tmap l' p = Some d \<Longrightarrow> p < k \<and> authenticated_map_priority_order H k p \<and> (p, d) \<in> B"
              using tmap_sub(1) [OF less.prems(4) [unfolded t]] tmap_sub(1) [OF less.prems(5) [unfolded u]] less.prems(7,8) same
              unfolding t u by blast
            show "tmap r p = Some d \<or> tmap r' p = Some d \<Longrightarrow> k < p \<and> authenticated_map_priority_order H k p \<and> (p, d) \<in> B"
              using tmap_sub(2) [OF less.prems(4) [unfolded t]] tmap_sub(2) [OF less.prems(5) [unfolded u]] less.prems(7,8) same
              unfolding t u by blast
          next
            show "(k, max c c') \<in> B" using sub(9,10) same by (simp add: max_def)
            show "clock_join (tmap t) (tmap u) =
                (\<lambda>x. if x = k then Some (max c c') else if x < k then clock_join (tmap l) (tmap l') x else clock_join (tmap r) (tmap r') x)"
              using same by (auto simp: t u fun_eq_iff clock_join_def split: option.split)
          qed (auto)
        qed
      qed
    next
      case first
      show ?thesis
        unfolding unions_to_def lt(1) lu(1) step if_not_P [OF first(1)] if_P [OF first(2)]
      proof (rule runs_bind [OF clock_load [OF less.prems(1,2) lt(1) nodes(1)]])
        fix x db1
        assume "x = ?n \<and> clock_inv H S B q db1 \<and> clock_extends db db1"
        then have x: "x = ?n" and db1: "clock_inv H S B q db1" "clock_extends db db1" by simp_all
        have split: "runs (split_clock H (clock_link_of H u) k (depth + 1)) db1 (split_done H S B q u k db1) (sql_fault q)"
          using less.prems by (intro split_clock_ok [OF db1(1) clock_stored_extends [OF db1(2) less.prems(3)]]) (auto simp: t u)
        show "runs (st_bind (split_clock H (Some lu) k (depth + 1)) (\<lambda>(less, counter, greater).
             st_bind (union_clocks H (node_left x) less (depth + 1)) (\<lambda>l.
             st_bind (union_clocks H (node_right x) greater (depth + 1)) (\<lambda>r.
             st_bind (write_clock_node H \<lparr>node_key = node_key x, node_value = max (node_value x) (unwrap_counter counter),
               node_left = l, node_right = r\<rparr>) (\<lambda>link. st_return (Some link)))))) db1
          (joined H S B q (clock_join (tmap t) (tmap u)) db) (sql_fault q)"
        proof (rule runs_bind [OF split [unfolded lu(1)]], clarify)
          fix lo counter hi db2
          assume "split_done H S B q u k db1 (lo, counter, hi) db2"
          then obtain a b where p: "split_parts H u k (lo, counter, hi) a b"
              and ab: "clock_stored H db2 a" "clock_stored H db2 b" and db2: "clock_inv H S B q db2" "clock_extends db db2"
            using clock_extends_trans [OF db1(2)] by (auto simp: split_done_def)
          note cut = cut_below [OF less.prems(5) [unfolded u] first(2) p [unfolded u], folded u]
          have parts: "lo = clock_link_of H a" "hi = clock_link_of H b" "map_ok H a" "map_ok H b"
              "theight a \<le> theight u" "theight b \<le> theight u"
              "tmap a = (\<lambda>x. if x < k then tmap u x else None)" "tmap b = (\<lambda>x. if k < x then tmap u x else None)"
            using p by (auto simp: split_parts_def)
          have inB: "tentries a \<subseteq> B" "tentries b \<subseteq> B"
            using restricted_entries(1) [OF parts(3) less.prems(5) parts(7)] restricted_entries(1) [OF parts(4) less.prems(5) parts(8)] less.prems(8) by auto
          have IH: "unions_to H S B q db3 (depth + 1) l a" "unions_to H S B q db3 (depth + 1) r b"
            if "clock_inv H S B q db3" "clock_extends db2 db3" for db3
            using that sub st [OF clock_extends_trans [OF db2(2) that(2)]] less.prems(6) parts(3-6) inB
              clock_stored_extends [OF that(2) ab(1)] clock_stored_extends [OF that(2) ab(2)]
            by (intro less.hyps; simp add: t u)+
          show "runs (st_bind (union_clocks H (node_left x) lo (depth + 1)) (\<lambda>l.
             st_bind (union_clocks H (node_right x) hi (depth + 1)) (\<lambda>r.
             st_bind (write_clock_node H \<lparr>node_key = node_key x, node_value = max (node_value x) (unwrap_counter counter),
               node_left = l, node_right = r\<rparr>) (\<lambda>link. st_return (Some link))))) db2
          (joined H S B q (clock_join (tmap t) (tmap u)) db) (sql_fault q)"
            unfolding x map_node.select_convs parts(1,2)
          proof (rule union_sides [OF IH(1) [OF db2(1) clock_extends_refl] IH(2) _ _ _ _ db2(2)])
            fix p d
            show "tmap l p = Some d \<or> tmap a p = Some d \<Longrightarrow> p < k \<and> authenticated_map_priority_order H k p \<and> (p, d) \<in> B"
              using tmap_sub(1) [OF less.prems(4) [unfolded t]] cut(3) less.prems(7) less.prems(8) unfolding t by blast
            show "tmap r p = Some d \<or> tmap b p = Some d \<Longrightarrow> k < p \<and> authenticated_map_priority_order H k p \<and> (p, d) \<in> B"
              using tmap_sub(2) [OF less.prems(4) [unfolded t]] cut(4) less.prems(7) less.prems(8) unfolding t by blast
          next
            show "(k, max c (unwrap_counter counter)) \<in> B" using sub(9) by (simp add: cut(1) unwrap_counter_def)
            have "tmap t = (\<lambda>x. if x = k then Some c else if x < k then tmap l x else tmap r x)"
              by (auto simp: t fun_eq_iff)
            then show "clock_join (tmap t) (tmap u) =
                (\<lambda>x. if x = k then Some (max c (unwrap_counter counter)) else if x < k then clock_join (tmap l) (tmap a) x else clock_join (tmap r) (tmap b) x)"
              using cut(2) parts(7,8)
              by (auto simp: cut(1) unwrap_counter_def fun_eq_iff clock_join_def split: option.split)
          qed auto
        qed
      qed
    next
      case second
      show ?thesis
        unfolding unions_to_def lt(1) lu(1) step if_not_P [OF second(1)] if_not_P [OF second(2)]
      proof (rule runs_bind [OF clock_load [OF less.prems(1,3) lu(1) nodes(2)]])
        fix x db1
        assume "x = ?n' \<and> clock_inv H S B q db1 \<and> clock_extends db db1"
        then have x: "x = ?n'" and db1: "clock_inv H S B q db1" "clock_extends db db1" by simp_all
        have split: "runs (split_clock H (clock_link_of H t) k' (depth + 1)) db1 (split_done H S B q t k' db1) (sql_fault q)"
          using less.prems by (intro split_clock_ok [OF db1(1) clock_stored_extends [OF db1(2) less.prems(2)]]) (auto simp: t u)
        show "runs (st_bind (split_clock H (Some lt) k' (depth + 1)) (\<lambda>(less, counter, greater).
             st_bind (union_clocks H less (node_left x) (depth + 1)) (\<lambda>l.
             st_bind (union_clocks H greater (node_right x) (depth + 1)) (\<lambda>r.
             st_bind (write_clock_node H \<lparr>node_key = node_key x, node_value = max (node_value x) (unwrap_counter counter),
               node_left = l, node_right = r\<rparr>) (\<lambda>link. st_return (Some link)))))) db1
          (joined H S B q (clock_join (tmap t) (tmap u)) db) (sql_fault q)"
        proof (rule runs_bind [OF split [unfolded lt(1)]], clarify)
          fix lo counter hi db2
          assume "split_done H S B q t k' db1 (lo, counter, hi) db2"
          then obtain a b where p: "split_parts H t k' (lo, counter, hi) a b"
              and ab: "clock_stored H db2 a" "clock_stored H db2 b" and db2: "clock_inv H S B q db2" "clock_extends db db2"
            using clock_extends_trans [OF db1(2)] by (auto simp: split_done_def)
          note cut = cut_below [OF less.prems(4) [unfolded t] second(3) p [unfolded t], folded t]
          have parts: "lo = clock_link_of H a" "hi = clock_link_of H b" "map_ok H a" "map_ok H b"
              "theight a \<le> theight t" "theight b \<le> theight t"
              "tmap a = (\<lambda>x. if x < k' then tmap t x else None)" "tmap b = (\<lambda>x. if k' < x then tmap t x else None)"
            using p by (auto simp: split_parts_def)
          have inB: "tentries a \<subseteq> B" "tentries b \<subseteq> B"
            using restricted_entries(1) [OF parts(3) less.prems(4) parts(7)] restricted_entries(1) [OF parts(4) less.prems(4) parts(8)] less.prems(7) by auto
          have IH: "unions_to H S B q db3 (depth + 1) a l'" "unions_to H S B q db3 (depth + 1) b r'"
            if "clock_inv H S B q db3" "clock_extends db2 db3" for db3
            using that sub st [OF clock_extends_trans [OF db2(2) that(2)]] less.prems(6) parts(3-6) inB
              clock_stored_extends [OF that(2) ab(1)] clock_stored_extends [OF that(2) ab(2)]
            by (intro less.hyps; simp add: t u)+
          show "runs (st_bind (union_clocks H lo (node_left x) (depth + 1)) (\<lambda>l.
             st_bind (union_clocks H hi (node_right x) (depth + 1)) (\<lambda>r.
             st_bind (write_clock_node H \<lparr>node_key = node_key x, node_value = max (node_value x) (unwrap_counter counter),
               node_left = l, node_right = r\<rparr>) (\<lambda>link. st_return (Some link))))) db2
          (joined H S B q (clock_join (tmap t) (tmap u)) db) (sql_fault q)"
            unfolding x map_node.select_convs parts(1,2)
          proof (rule union_sides [OF IH(1) [OF db2(1) clock_extends_refl] IH(2) _ _ _ _ db2(2)])
            fix p d
            show "tmap a p = Some d \<or> tmap l' p = Some d \<Longrightarrow> p < k' \<and> authenticated_map_priority_order H k' p \<and> (p, d) \<in> B"
              using tmap_sub(1) [OF less.prems(5) [unfolded u]] cut(3) less.prems(8) less.prems(7) unfolding u by blast
            show "tmap b p = Some d \<or> tmap r' p = Some d \<Longrightarrow> k' < p \<and> authenticated_map_priority_order H k' p \<and> (p, d) \<in> B"
              using tmap_sub(2) [OF less.prems(5) [unfolded u]] cut(4) less.prems(8) less.prems(7) unfolding u by blast
          next
            show "(k', max c' (unwrap_counter counter)) \<in> B" using sub(10) by (simp add: cut(1) unwrap_counter_def)
            have "tmap u = (\<lambda>x. if x = k' then Some c' else if x < k' then tmap l' x else tmap r' x)"
              by (auto simp: u fun_eq_iff)
            then show "clock_join (tmap t) (tmap u) =
                (\<lambda>x. if x = k' then Some (max c' (unwrap_counter counter)) else if x < k' then clock_join (tmap a) (tmap l') x else clock_join (tmap b) (tmap r') x)"
              using cut(2) parts(7,8)
              by (auto simp: cut(1) unwrap_counter_def fun_eq_iff clock_join_def split: option.split)
          qed auto
        qed
      qed
    qed
  qed
qed

section \<open>Lookup\<close>

lemma clock_lookup_map:
  "(clock_lookup_loop H current peer depth :: ('m, u64 option) db_op)
     = map_lookup (load_clock_node H) ''causal clock lookup'' current peer depth"
proof (induction "257 - depth" arbitrary: current depth rule: less_induct)
  case less
  show ?case
  proof (cases "depth \<le> 256")
    case True
    have IH: "(clock_lookup_loop H c peer (depth + 1) :: ('m, u64 option) db_op)
        = map_lookup (load_clock_node H) ''causal clock lookup'' c peer (depth + 1)" for c
      using True by (intro less) simp
    show ?thesis
      unfolding clock_lookup_loop.simps [of H current] map_lookup.simps [of _ _ current] IH ..
  next
    case False
    then show ?thesis
      unfolding clock_lookup_loop.simps [of H current] map_lookup.simps [of _ _ current]
      by (simp add: ensure_depth_def MAX_AUTHENTICATED_MAP_DEPTH_def st_bind_def st_lift_def fun_eq_iff split: option.split)
  qed
qed

lemma clock_lookup_tree:
  assumes "clock_inv H S B q db" "clock_holds H db root m" "shallow (authenticated_map_priority_order H) K 256" "dom m \<subseteq> K"
  shows "runs (causal_clock_lookup H root peer) db
    (\<lambda>x db'. x = m peer \<and> clock_inv H S B q db' \<and> clock_extends db db') (sql_fault q)"
proof -
  obtain t where t: "clock_link_of H t = root" "map_ok H t" "tmap t = m" "clock_stored H db t"
    using assms(2) by (auto simp: clock_holds_def)
  have "theight t \<le> 256"
    using shallow_height [OF assms(3) t(2)] assms(4) t(3) dom_tmap [OF t(2)] by simp
  then show ?thesis
    unfolding causal_clock_lookup_def clock_lookup_map t(1) [symmetric] t(3) [symmetric]
    using clock_table.map_lookup_ok [OF assms(1) t(4), where depth = 0 and operation = "''causal clock lookup''" and key = peer]
    by (simp add: clock_ops_def)
qed

section \<open>Roots commit to clocks\<close>

text \<open>Equal clocks have equal roots, whatever the order they were built in, and different clocks different ones.\<close>

lemma clock_roots:
  assumes "clock_space H S B" "clock_holds H db root m" "clock_holds H db' root' m'" "Map.graph m \<subseteq> B" "Map.graph m' \<subseteq> B"
  shows "root = root' \<longleftrightarrow> m = m'"
proof -
  obtain t u where t: "clock_link_of H t = root" "map_ok H t" "tmap t = m" and u: "clock_link_of H u = root'" "map_ok H u" "tmap u = m'"
    using assms(2,3) by (auto simp: clock_holds_def)
  have "tentries t \<subseteq> B" "tentries u \<subseteq> B"
    using assms(4,5) t(3) u(3) by (auto simp: tentries_graph [OF t(2)] tentries_graph [OF u(2)] Map.graph_def)
  then show ?thesis
    using clock_link_inject [OF assms(1) t(2) u(2)] priority.treap_unique [OF t(2) u(2)] t u by auto
qed

lemma union_holds:
  assumes "clock_inv H S B q db" "clock_holds H db x m" "clock_holds H db y n" "Map.graph m \<subseteq> B" "Map.graph n \<subseteq> B"
    "shallow (authenticated_map_priority_order H) K 128" "dom m \<subseteq> K" "dom n \<subseteq> K"
  shows "runs (union_clocks H x y 0) db (joined H S B q (clock_join m n) db) (sql_fault q)"
proof -
  obtain t u where t: "clock_link_of H t = x" "map_ok H t" "tmap t = m" "clock_stored H db t"
      and u: "clock_link_of H u = y" "map_ok H u" "tmap u = n" "clock_stored H db u"
    using assms(2,3) by (auto simp: clock_holds_def)
  have "theight t \<le> 128" "theight u \<le> 128"
    using shallow_height [OF assms(6)] t u assms(7,8) dom_tmap [OF t(2)] dom_tmap [OF u(2)] by auto
  moreover have "tentries t \<subseteq> B" "tentries u \<subseteq> B"
    using assms(4,5) t(3) u(3) by (auto simp: tentries_graph [OF t(2)] tentries_graph [OF u(2)] Map.graph_def)
  ultimately have "unions_to H S B q db 0 t u"
    by (intro union_clocks_ok [OF assms(1) t(4) u(4) t(2) u(2)]) auto
  then show ?thesis unfolding unions_to_def t(1,3) u(1,3) .
qed

lemma upsert_holds:
  assumes "clock_inv H S B q db" "clock_holds H db x m" "Map.graph m \<subseteq> B" "shallow (authenticated_map_priority_order H) K 128" "dom m \<subseteq> K"
    and v: "v = (case m peer of None \<Rightarrow> counter | Some w \<Rightarrow> max w counter)" "(peer, v) \<in> B"
  shows "runs (upsert_causal_clock H x peer counter 0) db
    (\<lambda>y db'. clock_holds H db' (Some y) (m(peer \<mapsto> v)) \<and> clock_inv H S B q db' \<and> clock_extends db db') (sql_fault q)"
proof -
  obtain t where t: "clock_link_of H t = x" "map_ok H t" "tmap t = m" "clock_stored H db t"
    using assms(2) by (auto simp: clock_holds_def)
  have "theight t \<le> 128"
    using shallow_height [OF assms(4)] t assms(5) dom_tmap [OF t(2)] by auto
  moreover have "tentries t \<subseteq> B"
    using assms(3) t(3) by (auto simp: tentries_graph [OF t(2)] Map.graph_def)
  ultimately show ?thesis
    using upsert_clock_tree [OF assms(1) t(4) t(2), of 0 peer counter] v unfolding t(1,3) by simp
qed

end
