(* ===== verification/Frontier_Batch.thy ===== *)
theory Frontier_Batch
  imports Frontier_Clock
begin

text \<open>
  The accepted-batch map: a persistent treap from batch identifiers to the digests of their causal
  records, in the content-addressed table \<open>accepted_batch_nodes\<close>.
\<close>

section \<open>Operations\<close>

definition rotate_batch_right :: "hash \<Rightarrow> batch_map_node \<Rightarrow> ('m, map_link) db_op" where
  "rotate_batch_right H node =
     st_bind (st_lift (ok_or (FrontierCorrupt ''accepted batch-map rotation has no left child'') (node_left node))) (\<lambda>l.
     st_bind (load_batch_map_node H l) (\<lambda>left_node.
     st_bind (write_batch_map_node H (node\<lparr>node_left := node_right left_node\<rparr>)) (\<lambda>lowered.
     write_batch_map_node H (left_node\<lparr>node_right := Some lowered\<rparr>))))"

definition rotate_batch_left :: "hash \<Rightarrow> batch_map_node \<Rightarrow> ('m, map_link) db_op" where
  "rotate_batch_left H node =
     st_bind (st_lift (ok_or (FrontierCorrupt ''accepted batch-map rotation has no right child'') (node_right node))) (\<lambda>r.
     st_bind (load_batch_map_node H r) (\<lambda>right_node.
     st_bind (write_batch_map_node H (node\<lparr>node_right := node_left right_node\<rparr>)) (\<lambda>lowered.
     write_batch_map_node H (right_node\<lparr>node_left := Some lowered\<rparr>))))"

function upsert_batch_map :: "hash \<Rightarrow> map_link option \<Rightarrow> uuid \<Rightarrow> digest \<Rightarrow> nat \<Rightarrow> ('m, map_link) db_op" where
  "upsert_batch_map H root batch_id value_digest depth =
     st_bind (st_lift (ensure_depth depth ''accepted batch map update'')) (\<lambda>_.
     case root of
       None \<Rightarrow>
         write_batch_map_node H \<lparr>node_key = batch_id, node_value = value_digest, node_left = None, node_right = None\<rparr>
     | Some link \<Rightarrow>
         st_bind (load_batch_map_node H link) (\<lambda>node.
           if batch_id = node_key node then write_batch_map_node H (node\<lparr>node_value := value_digest\<rparr>)
           else if batch_id < node_key node then
             st_bind (upsert_batch_map H (node_left node) batch_id value_digest (depth + 1)) (\<lambda>l.
             if authenticated_map_priority_order H (link_key l) (node_key node)
             then rotate_batch_right H (node\<lparr>node_left := Some l\<rparr>)
             else write_batch_map_node H (node\<lparr>node_left := Some l\<rparr>))
           else
             st_bind (upsert_batch_map H (node_right node) batch_id value_digest (depth + 1)) (\<lambda>r.
             if authenticated_map_priority_order H (link_key r) (node_key node)
             then rotate_batch_left H (node\<lparr>node_right := Some r\<rparr>)
             else write_batch_map_node H (node\<lparr>node_right := Some r\<rparr>))))"
  by pat_completeness auto
termination
  by (relation "measure (\<lambda>(H, root, batch_id, value_digest, depth). 257 - depth)") (auto simp: ensure_depth_ran)

declare upsert_batch_map.simps [simp del]

section \<open>The table of batch-map nodes\<close>

text \<open>As for the clocks; the value of an entry is its own value digest.\<close>

abbreviation batch_link_of :: "hash \<Rightarrow> (uuid, digest) treap \<Rightarrow> map_link option" where
  "batch_link_of H \<equiv> tree_link H (\<lambda>_ d. d)"

definition batch_space :: "hash \<Rightarrow> bytes set \<Rightarrow> (uuid \<times> digest) set \<Rightarrow> bool" where
  "batch_space H S B \<longleftrightarrow>
     inj_on H S \<and> (\<forall>t. map_ok H t \<and> tentries t \<subseteq> B \<longrightarrow> tree_texts H (\<lambda>_ d. d) t \<subseteq> S)"

definition batch_node_ok :: "hash \<Rightarrow> bytes set \<Rightarrow> batch_map_node \<Rightarrow> bool" where
  "batch_node_ok H S n \<longleftrightarrow>
     valid_map_children H (node_key n) (node_left n) (node_right n)
     \<and> map_node_text (node_key n) (node_value n) (node_left n) (node_right n) \<in> S"

definition batch_table_ok :: "hash \<Rightarrow> bytes set \<Rightarrow> 'm frontier_db \<Rightarrow> bool" where
  "batch_table_ok H S db \<longleftrightarrow>
     (\<forall>d row. db_batch_nodes db d = Some row \<longrightarrow>
        (\<exists>n. batch_node_ok H S n \<and> row = batch_row_of n \<and> d = link_digest (batch_link H n)))"

fun batch_stored :: "hash \<Rightarrow> 'm frontier_db \<Rightarrow> (uuid, digest) treap \<Rightarrow> bool" where
  "batch_stored H db Tip = True"
| "batch_stored H db (Bin l k c r) =
     (let n = \<lparr>node_key = k, node_value = c, node_left = batch_link_of H l, node_right = batch_link_of H r\<rparr> in
      db_batch_nodes db (link_digest (batch_link H n)) = Some (batch_row_of n)
      \<and> valid_map_children H k (node_left n) (node_right n)
      \<and> batch_stored H db l \<and> batch_stored H db r)"

definition batch_inv :: "hash \<Rightarrow> bytes set \<Rightarrow> (uuid \<times> digest) set \<Rightarrow> bool \<Rightarrow> 'm frontier_db \<Rightarrow> bool" where
  "batch_inv H S B q db \<longleftrightarrow> batch_space H S B \<and> batch_table_ok H S db \<and> quiet q db"

text \<open>Only batch-map rows are added.\<close>

definition batch_extends :: "'m frontier_db \<Rightarrow> 'm frontier_db \<Rightarrow> bool" where
  "batch_extends db db' \<longleftrightarrow>
     (\<exists>c f. db' = db\<lparr>db_batch_nodes := c, db_faults := f\<rparr> \<and> db_batch_nodes db \<subseteq>\<^sub>m c)"

definition batch_ops :: "hash \<Rightarrow> ('m frontier_db, digest) map_ops" where
  "batch_ops H = \<lparr>op_load = load_batch_map_node H, op_child = load_batch_map_node H, op_write = write_batch_map_node H\<rparr>"

lemma batch_extends_refl [simp]: "batch_extends db db"
  by (auto simp: batch_extends_def intro!: exI [of _ "db_batch_nodes db"] exI [of _ "db_faults db"])

lemma batch_extends_trans: "batch_extends a b \<Longrightarrow> batch_extends b c \<Longrightarrow> batch_extends a c"
  unfolding batch_extends_def
  by (auto intro: map_le_trans intro!: exI [of _ "db_batch_nodes c"] exI [of _ "db_faults c"])

lemma faults_batch_extends: "faults_only db db' \<Longrightarrow> batch_extends db db'"
  by (auto simp: faults_only_def batch_extends_def intro!: exI [of _ "db_batch_nodes db"])

lemma batch_stored_extends: "batch_extends db db' \<Longrightarrow> batch_stored H db t \<Longrightarrow> batch_stored H db' t"
  by (induction t) (auto simp: batch_extends_def Let_def map_le_def dom_def)

lemma batch_link_tree:
  "tree_link H (\<lambda>_ d. d) t = Some lk \<Longrightarrow> root_node H (\<lambda>_ d. d) t = Some n \<Longrightarrow>
   lk = batch_link H n"
  by (cases t) (auto simp: batch_link_def)

lemma check_batch_row_of:
  "valid_map_children H (node_key n) (node_left n) (node_right n) \<Longrightarrow>
   check_batch_row H (batch_link H n) (batch_row_of n) = Inr n"
  by (simp add: check_batch_row_def batch_row_of_def batch_link_def)

lemma load_batch_runs:
  assumes "quiet q db" "db_batch_nodes db (link_digest (batch_link H n)) = Some (batch_row_of n)"
    "valid_map_children H (node_key n) (node_left n) (node_right n)"
  shows "runs (load_batch_map_node H (batch_link H n)) db (\<lambda>x db'. x = n \<and> faults_only db db' \<and> quiet q db') (sql_fault q)"
  unfolding load_batch_map_node_def
  by (rule runs_bind [OF query_runs [OF assms(1)]])
    (auto simp: faults_only_tables assms(2) check_batch_row_of [OF assms(3)])

lemma batch_load:
  assumes "batch_inv H S B q db" "batch_stored H db t" "tree_link H (\<lambda>_ d. d) t = Some lk"
    "root_node H (\<lambda>_ d. d) t = Some n"
  shows "runs (load_batch_map_node H lk) db (\<lambda>x db'. x = n \<and> batch_inv H S B q db' \<and> batch_extends db db') (sql_fault q)"
proof -
  have lk: "lk = batch_link H n" using batch_link_tree assms(3,4) by blast
  have "quiet q db" using assms(1) by (simp add: batch_inv_def)
  moreover have "db_batch_nodes db (link_digest (batch_link H n)) = Some (batch_row_of n)"
      "valid_map_children H (node_key n) (node_left n) (node_right n)"
    using assms(2,4) by (cases t; auto simp: Let_def)+
  ultimately show ?thesis
    unfolding lk using assms(1)
    by (auto elim!: runs_mono [OF load_batch_runs] simp: batch_inv_def batch_table_ok_def faults_only_tables faults_batch_extends)
qed

lemma batch_digest_inject:
  assumes "inj_on H S" "batch_node_ok H S n" "batch_node_ok H S n'" "link_digest (batch_link H n) = link_digest (batch_link H n')"
  shows "n = n'"
proof -
  have "map_node_text (node_key n) (node_value n) (node_left n) (node_right n)
      = map_node_text (node_key n') (node_value n') (node_left n') (node_right n')"
    using assms by (intro inj_onD [OF assms(1)]) (auto simp: batch_link_def authenticated_map_node_digest_def batch_node_ok_def)
  then show ?thesis by (simp add: map_node_text_inject)
qed

lemma batch_root_ok:
  assumes "batch_space H S B" "map_ok H (Bin l k c r)" "tentries (Bin l k c r) \<subseteq> B"
    "root_node H (\<lambda>_ d. d) (Bin l k c r) = Some n"
  shows "batch_node_ok H S n"
proof -
  have "tree_texts H (\<lambda>_ d. d) (Bin l k c r) \<subseteq> S"
    using assms unfolding batch_space_def by meson
  then show ?thesis
    using assms(1,4) valid_children [OF assms(2), where vd = "\<lambda>_ d. d"]
    by (auto simp: batch_node_ok_def batch_space_def)
qed

lemma batch_insert:
  assumes ok: "batch_inv H S B q db" and n: "batch_node_ok H S n"
  defines "db' \<equiv> (if db_batch_nodes db (link_digest (batch_link H n)) = None
      then db\<lparr>db_batch_nodes := (db_batch_nodes db)(link_digest (batch_link H n) \<mapsto> batch_row_of n)\<rparr> else db)"
  shows "batch_inv H S B q db'" "batch_extends db db'" "db_batch_nodes db' (link_digest (batch_link H n)) = Some (batch_row_of n)"
proof -
  show "batch_inv H S B q db'"
    using ok n by (auto simp: db'_def batch_inv_def batch_table_ok_def quiet_def)
  have new: "batch_extends db (db\<lparr>db_batch_nodes := (db_batch_nodes db)(x \<mapsto> y)\<rparr>)" if "db_batch_nodes db x = None" for x y
    using that by (auto simp: batch_extends_def map_le_def dom_def
        intro!: exI [of _ "(db_batch_nodes db)(x \<mapsto> y)"] exI [of _ "db_faults db"])
  show "batch_extends db db'"
    by (simp add: db'_def new)
  show "db_batch_nodes db' (link_digest (batch_link H n)) = Some (batch_row_of n)"
  proof (cases "db_batch_nodes db (link_digest (batch_link H n))")
    case None
    then show ?thesis by (simp add: db'_def)
  next
    case (Some row)
    then obtain m where m: "batch_node_ok H S m" "row = batch_row_of m" "link_digest (batch_link H n) = link_digest (batch_link H m)"
      using ok unfolding batch_inv_def batch_table_ok_def by blast
    have "inj_on H S" using ok by (simp add: batch_inv_def batch_space_def)
    from batch_digest_inject [OF this n m(1,3)] show ?thesis using Some m(2) by (simp add: db'_def)
  qed
qed

lemma batch_inv_faults: "faults_only db db' \<Longrightarrow> quiet q db' \<Longrightarrow> batch_inv H S B q db \<Longrightarrow> batch_inv H S B q db'"
  by (auto simp: batch_inv_def batch_table_ok_def faults_only_tables)

lemma batch_write:
  assumes ok: "batch_inv H S B q db" and t: "map_ok H (Bin l k c r)" "tentries (Bin l k c r) \<subseteq> B"
    "batch_stored H db l" "batch_stored H db r" and n: "root_node H (\<lambda>_ d. d) (Bin l k c r) = Some n"
  shows "runs (write_batch_map_node H n) db
    (\<lambda>x db'. tree_link H (\<lambda>_ d. d) (Bin l k c r) = Some x \<and> batch_inv H S B q db'
       \<and> batch_stored H db' (Bin l k c r) \<and> batch_extends db db') (sql_fault q)"
proof -
  have good: "batch_node_ok H S n" using batch_root_ok [OF _ t(1,2) n] ok by (simp add: batch_inv_def)
  have q: "quiet q db" using ok by (simp add: batch_inv_def)
  have link: "tree_link H (\<lambda>_ d. d) (Bin l k c r) = Some (batch_link H n)"
    using n by (auto simp: batch_link_def)
  have children: "valid_map_children H (node_key n) (node_left n) (node_right n)"
    using good by (auto simp: batch_node_ok_def)
  show ?thesis
    unfolding write_batch_map_node_def Let_def
  proof (rule runs_bind [OF update_runs [OF q]])
    fix u :: unit and db2
    assume "\<exists>db1. faults_only db db1 \<and> quiet q db1
      \<and> db2 = (if db_batch_nodes db1 (link_digest (batch_link H n)) = None
          then db1\<lparr>db_batch_nodes := (db_batch_nodes db1)(link_digest (batch_link H n) \<mapsto> batch_row_of n)\<rparr> else db1)"
    then obtain db1 where db1: "faults_only db db1" "quiet q db1" and db2: "db2 =
        (if db_batch_nodes db1 (link_digest (batch_link H n)) = None
         then db1\<lparr>db_batch_nodes := (db_batch_nodes db1)(link_digest (batch_link H n) \<mapsto> batch_row_of n)\<rparr> else db1)"
      by blast
    note ins = batch_insert [OF batch_inv_faults [OF db1 ok] good, folded db2]
    have ext: "batch_extends db db2" using faults_batch_extends [OF db1(1)] ins(2) batch_extends_trans by blast
    have "quiet q db2" using ins(1) by (simp add: batch_inv_def)
    then show "runs (st_bind (load_batch_map_node H (batch_link H n)) (\<lambda>_. st_return (batch_link H n))) db2
      (\<lambda>x db'. tree_link H (\<lambda>_ d. d) (Bin l k c r) = Some x \<and> batch_inv H S B q db'
         \<and> batch_stored H db' (Bin l k c r) \<and> batch_extends db db') (sql_fault q)"
    proof (rule runs_bind [OF load_batch_runs [OF _ ins(3) children]])
      fix x db3
      assume "x = n \<and> faults_only db2 db3 \<and> quiet q db3"
      then have db3: "faults_only db2 db3" "quiet q db3" by simp_all
      have e: "batch_extends db db3" using ext faults_batch_extends [OF db3(1)] batch_extends_trans by blast
      have "batch_stored H db3 (Bin l k c r)"
        using n ins(3) children batch_stored_extends [OF e t(3)] batch_stored_extends [OF e t(4)]
        by (auto simp: Let_def faults_only_tables [OF db3(1)])
      then show "runs (st_return (batch_link H n)) db3 (\<lambda>x db'. tree_link H (\<lambda>_ d. d) (Bin l k c r) = Some x
         \<and> batch_inv H S B q db' \<and> batch_stored H db' (Bin l k c r) \<and> batch_extends db db') (sql_fault q)"
        using e link batch_inv_faults [OF db3 ins(1)] by simp
    qed
  qed
qed

interpretation batch_table: map_table H "\<lambda>_ d. d" "batch_ops H" "batch_inv H S B q"
    "batch_stored H" "\<lambda>_. batch_extends" B "sql_fault q" for H S B q
proof unfold_locales
  fix db t lk n
  assume a: "batch_inv H S B q db" "batch_stored H db t" "tree_link H (\<lambda>_ d. d) t = Some lk"
    "root_node H (\<lambda>_ d. d) t = Some n"
  show "runs (op_load (batch_ops H) lk) db (\<lambda>x s'. x = n \<and> batch_inv H S B q s' \<and> batch_extends db s') (sql_fault q)"
    "runs (op_child (batch_ops H) lk) db (\<lambda>x s'. x = n \<and> batch_inv H S B q s' \<and> batch_extends db s') (sql_fault q)"
    using batch_load [OF a] by (simp_all add: batch_ops_def)
next
  fix db l k c r n
  assume "batch_inv H S B q db" "map_ok H (Bin l k c r)" "tentries (Bin l k c r) \<subseteq> B" "batch_stored H db l"
    "batch_stored H db r" "root_node H (\<lambda>_ d. d) (Bin l k c r) = Some n"
  from batch_write [OF this] show "runs (op_write (batch_ops H) n) db
    (\<lambda>x s'. tree_link H (\<lambda>_ d. d) (Bin l k c r) = Some x \<and> batch_inv H S B q s'
       \<and> batch_stored H s' (Bin l k c r) \<and> batch_extends db s') (sql_fault q)"
    by (simp only: batch_ops_def map_ops.simps)
qed (auto simp: Let_def intro: batch_extends_trans batch_stored_extends)

section \<open>Insertion and lookup\<close>

abbreviation batch_upsert_texts :: "string \<times> string \<times> string" where
  "batch_upsert_texts \<equiv> (''accepted batch map update'', ''accepted batch-map rotation has no left child'', ''accepted batch-map rotation has no right child'')"

lemma rotate_batch_ops:
  "rotate_batch_right H node = rotate_right (batch_ops H) ''accepted batch-map rotation has no left child'' node"
  "rotate_batch_left H node = rotate_left (batch_ops H) ''accepted batch-map rotation has no right child'' node"
  by (simp_all add: rotate_batch_right_def rotate_batch_left_def rotate_right_def rotate_left_def batch_ops_def)

lemma upsert_batch_map_map:
  "(upsert_batch_map H root batch_id d depth :: ('m, map_link) db_op) =
     st_bind (map_upsert H (batch_ops H) batch_upsert_texts (\<lambda>_ v. v) root batch_id d depth) (\<lambda>x. st_return (fst x))"
proof (induction "257 - depth" arbitrary: root depth rule: less_induct)
  case less
  show ?case
  proof (cases "depth \<le> 256")
    case True
    have IH: "(upsert_batch_map H root' batch_id d (depth + 1) :: ('m, map_link) db_op) =
        st_bind (map_upsert H (batch_ops H) batch_upsert_texts (\<lambda>_ v. v) root' batch_id d (depth + 1)) (\<lambda>x. st_return (fst x))" for root'
      using True by (intro less) simp
    show ?thesis
      unfolding upsert_batch_map.simps [of H root] map_upsert.simps [of H "batch_ops H" batch_upsert_texts "\<lambda>_ v. v" root]
        ensure_depth_ok [OF True] st_bind_Inr IH
      by (auto simp: st_bind_assoc put_here_def put_left_def put_right_def rotate_batch_ops batch_ops_def
          intro!: st_bind_cong [OF refl] split: option.split)
  next
    case False
    then show ?thesis
      unfolding upsert_batch_map.simps [of H root] map_upsert.simps [of H "batch_ops H" batch_upsert_texts "\<lambda>_ v. v" root]
      by (simp add: ensure_depth_def MAX_AUTHENTICATED_MAP_DEPTH_def st_bind_def st_lift_def fun_eq_iff)
  qed
qed

lemma upsert_batch_tree:
  assumes "batch_inv H S B q db" "batch_stored H db t" "map_ok H t" "theight t + depth \<le> 256" "tentries t \<subseteq> B"
    "(batch_id, d) \<in> B"
  shows "runs (upsert_batch_map H (batch_link_of H t) batch_id d depth) db
    (\<lambda>x db'. \<exists>t'. batch_link_of H t' = Some x \<and> map_ok H t' \<and> tmap t' = (tmap t)(batch_id \<mapsto> d) \<and> batch_stored H db' t'
       \<and> batch_inv H S B q db' \<and> batch_extends db db') (sql_fault q)"
proof -
  have v: "updated (\<lambda>_ v. v) t batch_id d = d" by (simp split: option.split)
  show ?thesis
    unfolding upsert_batch_map_map
    by (rule runs_bind [OF batch_table.map_upsert_ok [where f = "\<lambda>_ v. v"]]) (use assms v in auto)
qed

lemma batch_lookup_map:
  "(batch_lookup_loop H current key depth :: ('m, digest option) db_op)
     = map_lookup (load_batch_map_node H) ''accepted batch lookup'' current key depth"
proof (induction "257 - depth" arbitrary: current depth rule: less_induct)
  case less
  show ?case
  proof (cases "depth \<le> 256")
    case True
    have IH: "(batch_lookup_loop H c key (depth + 1) :: ('m, digest option) db_op)
        = map_lookup (load_batch_map_node H) ''accepted batch lookup'' c key (depth + 1)" for c
      using True by (intro less) simp
    show ?thesis
      unfolding batch_lookup_loop.simps [of H current] map_lookup.simps [of _ _ current] IH ..
  next
    case False
    then show ?thesis
      unfolding batch_lookup_loop.simps [of H current] map_lookup.simps [of _ _ current]
      by (simp add: ensure_depth_def MAX_AUTHENTICATED_MAP_DEPTH_def st_bind_def st_lift_def fun_eq_iff split: option.split)
  qed
qed

lemma batch_lookup_tree:
  assumes "batch_inv H S B q db" "batch_stored H db t" "theight t \<le> 256"
  shows "runs (batch_lookup_loop H (batch_link_of H t) key 0) db
    (\<lambda>x db'. x = tmap t key \<and> batch_inv H S B q db' \<and> batch_extends db db') (sql_fault q)"
  unfolding batch_lookup_map
  using batch_table.map_lookup_ok [OF assms(1,2), where depth = 0 and operation = "''accepted batch lookup''" and key = key] assms(3)
  by (simp add: batch_ops_def)

end
