(* ===== verification/Frontier_Accept.thy ===== *)
theory Frontier_Accept
  imports Frontier_Batch
begin

text \<open>
  Accepting a batch: the request, its shape checks, the causal clock derived from the clocks of its
  dependencies, the causal record bound into the batch map, and the row of \<open>applied_batches\<close>.
\<close>

section \<open>Requests\<close>

record physical_frontier_document =
  pd_document_id :: uuid
  pd_canonical_bytes :: bytes

record physical_accepted_batch =
  pb_batch_id :: uuid
  pb_manifest_digest :: digest
  pb_event_binding_digest :: digest
  pb_semantic_effect :: bytes
  pb_semantic_effect_digest :: digest
  pb_dependency_frontier :: bytes
  pb_prior_frontier_root :: physical_frontier_root
  pb_post_frontier_root :: physical_frontier_root
  pb_affected_documents :: "physical_frontier_document list"
  pb_affected_documents_bytes :: bytes
  pb_causal_dependency_heads :: "uuid list"
  pb_causal_dependency_heads_bytes :: bytes
  pb_causal_peer_id :: uuid
  pb_causal_counter :: u64
  pb_acceptance_sequence :: u64
  pb_retained_bytes :: u64

datatype apply_fault = NoFault | ReturnAfterInsert | ReturnAfterMaterialization | AbortAfterInsert

text \<open>
  The change to the projection is opaque here but for the batch it names; \<open>'r\<close> is the authenticated
  reference evidence that goes with it.
\<close>

record 'c materialization_change =
  mc_batch_id :: uuid
  mc_content :: 'c

record ('c, 'r) physical_apply_request =
  rq_batch :: physical_accepted_batch
  rq_materialization :: "'c materialization_change option"
  rq_materialization_input_digest :: "digest option"
  rq_authenticated_reference :: "'r option"
  rq_prior_reference_coverage_count :: "u64 option"
  rq_fault :: apply_fault

definition EMPTY_MAP_TEXT :: bytes where
  "EMPTY_MAP_TEXT = bytes_of_text ''tine/oplog/authenticated-map/v1/empty''"

definition validate_root_shape :: "hash \<Rightarrow> physical_frontier_root \<Rightarrow> frontier_error + unit" where
  "validate_root_shape H root =
     (let empty_digest = H EMPTY_MAP_TEXT in
      if (pr_document_count root = 0) \<noteq> (pr_document_map_root_key root = None)
         \<or> (pr_document_map_root_key root = None \<and> pr_document_map_root_digest root \<noteq> empty_digest)
         \<or> (pr_acceptance_sequence root = 0) \<noteq> (pr_batch_map_root_key root = None)
         \<or> (pr_batch_map_root_key root = None \<and> pr_batch_map_root_digest root \<noteq> empty_digest)
      then Inl (FrontierInvalidInput ''physical frontier authenticated-map shape is inconsistent'')
      else Inr ())"

definition validate_request_shape :: "hash \<Rightarrow> ('c, 'r) physical_apply_request \<Rightarrow> frontier_error + unit" where
  "validate_request_shape H request =
     (let batch = rq_batch request in
      bind_res (validate_root_shape H (pb_prior_frontier_root batch)) (\<lambda>_.
      bind_res (validate_root_shape H (pb_post_frontier_root batch)) (\<lambda>_.
      if pb_acceptance_sequence batch = 0 \<or> pb_causal_counter batch = 0
      then Inl (FrontierInvalidInput ''physical accepted sequence and causal counter must be positive'')
      else if \<not> strictly_sorted (map pd_document_id (pb_affected_documents batch))
              \<or> \<not> strictly_sorted (pb_causal_dependency_heads batch)
      then Inl (FrontierInvalidInput ''physical affected documents or dependencies are not sorted unique'')
      else if (rq_materialization request \<noteq> None) \<noteq> (rq_materialization_input_digest request \<noteq> None)
      then Inl (FrontierInvalidInput ''physical materialization and its digest must be supplied together'')
      else if (case rq_materialization request of None \<Rightarrow> False | Some change \<Rightarrow> mc_batch_id change \<noteq> pb_batch_id batch)
      then Inl (FrontierInvalidInput ''physical materialization is bound to another batch'')
      else Inr ())))"

section \<open>Causal records\<close>

definition causal_record_text :: "physical_accepted_batch \<Rightarrow> map_link \<Rightarrow> bytes" where
  "causal_record_text batch clock_root =
     bytes_of_text ''tine/oplog/accepted-causal-record/v1'' @ [0] @ array_bytes (pb_batch_id batch)
     @ array_bytes (pb_manifest_digest batch) @ array_bytes (pb_event_binding_digest batch)
     @ array_bytes (pb_causal_peer_id batch) @ be64 (pb_causal_counter batch) @ [1]
     @ array_bytes (link_key clock_root) @ array_bytes (link_digest clock_root)"

definition accepted_causal_record_digest :: "hash \<Rightarrow> physical_accepted_batch \<Rightarrow> map_link \<Rightarrow> digest" where
  "accepted_causal_record_digest H batch clock_root = H (causal_record_text batch clock_root)"

text \<open>The loop of \<open>derive_causal_clock_root\<close> over the dependency heads.\<close>

fun merge_heads :: "hash \<Rightarrow> physical_frontier_root \<Rightarrow> uuid list \<Rightarrow> map_link option \<Rightarrow> ('m, map_link option) db_op" where
  "merge_heads H root [] clock = st_return clock"
| "merge_heads H root (parent # heads) clock =
     st_bind (authenticated_batch_record H root parent None) (\<lambda>found.
     st_bind (st_lift (ok_or (MissingDependency parent) found)) (\<lambda>record.
     st_bind (st_lift (stored_clock_root record)) (\<lambda>link.
     st_bind (union_clocks H clock (Some link) 0) (\<lambda>merged.
     merge_heads H root heads merged))))"

definition derive_causal_clock_root ::
    "hash \<Rightarrow> physical_frontier_root \<Rightarrow> physical_accepted_batch \<Rightarrow> ('m, map_link) db_op" where
  "derive_causal_clock_root H root batch =
     st_bind (merge_heads H root (pb_causal_dependency_heads batch) None) (\<lambda>clock.
     st_bind (causal_clock_lookup H clock (pb_causal_peer_id batch)) (\<lambda>counter.
     st_bind (st_lift (ok_or (FrontierCorrupt ''causal counter overflowed'')
       (checked_add64 (unwrap_counter counter) 1))) (\<lambda>expected.
     if pb_causal_counter batch \<noteq> expected
     then st_lift (Inl (FrontierInvalidInput (''accepted batch '' @ hex_id (pb_batch_id batch) @ '' causal counter ''
       @ show_nat (unat (pb_causal_counter batch)) @ '' does not follow '' @ show_nat (unat expected - 1))))
     else upsert_causal_clock H clock (pb_causal_peer_id batch) (pb_causal_counter batch) 0)))"

section \<open>Rows of accepted batches\<close>

definition stored_matches_request :: "hash \<Rightarrow> stored_batch \<Rightarrow> physical_accepted_batch \<Rightarrow> frontier_error + bool" where
  "stored_matches_request H record batch =
     bind_res (validate_stored_batch_physical H record) (\<lambda>_.
     Inr (sb_batch_id record = pb_batch_id batch
       \<and> sb_manifest_digest record = array_bytes (pb_manifest_digest batch)
       \<and> sb_semantic_effect record = pb_semantic_effect batch
       \<and> sb_semantic_effect_digest record = array_bytes (pb_semantic_effect_digest batch)
       \<and> sb_dependency_frontier record = pb_dependency_frontier batch
       \<and> sb_prior_frontier_root record = pr_canonical_bytes (pb_prior_frontier_root batch)
       \<and> sb_post_frontier_root record = pr_canonical_bytes (pb_post_frontier_root batch)
       \<and> sb_affected_documents record = pb_affected_documents_bytes batch
       \<and> sb_causal_dependency_heads record = pb_causal_dependency_heads_bytes batch
       \<and> sb_causal_peer_id record = array_bytes (pb_causal_peer_id batch)
       \<and> sb_causal_counter record = uint (pb_causal_counter batch)
       \<and> sb_acceptance_sequence record = uint (pb_acceptance_sequence batch)
       \<and> sb_retained_bytes record = uint (pb_retained_bytes batch)))"

text \<open>The values bound by the \<open>INSERT\<close>.\<close>

definition event_row :: "hash \<Rightarrow> physical_accepted_batch \<Rightarrow> map_link \<Rightarrow> stored_batch" where
  "event_row H batch clock_root =
     \<lparr>sb_sequence = uint (pb_acceptance_sequence batch),
      sb_batch_id = pb_batch_id batch,
      sb_manifest_digest = array_bytes (pb_manifest_digest batch),
      sb_semantic_effect = pb_semantic_effect batch,
      sb_semantic_effect_digest = array_bytes (pb_semantic_effect_digest batch),
      sb_dependency_frontier = pb_dependency_frontier batch,
      sb_dependency_frontier_digest = array_bytes (H (pb_dependency_frontier batch)),
      sb_prior_frontier_root = pr_canonical_bytes (pb_prior_frontier_root batch),
      sb_prior_frontier_root_digest = array_bytes (root_digest H (pb_prior_frontier_root batch)),
      sb_post_frontier_root = pr_canonical_bytes (pb_post_frontier_root batch),
      sb_post_frontier_root_digest = array_bytes (root_digest H (pb_post_frontier_root batch)),
      sb_affected_documents = pb_affected_documents_bytes batch,
      sb_affected_documents_digest = array_bytes (H (pb_affected_documents_bytes batch)),
      sb_causal_dependency_heads = pb_causal_dependency_heads_bytes batch,
      sb_causal_peer_id = array_bytes (pb_causal_peer_id batch),
      sb_causal_counter = uint (pb_causal_counter batch),
      sb_causal_clock_root_key = array_bytes (link_key clock_root),
      sb_causal_clock_root_digest = array_bytes (link_digest clock_root),
      sb_acceptance_sequence = uint (pb_acceptance_sequence batch),
      sb_retained_bytes = uint (pb_retained_bytes batch)\<rparr>"

text \<open>The table's constraints: a positive unique sequence, a unique batch, a positive counter.\<close>

definition row_admitted :: "stored_batch \<Rightarrow> stored_batch list \<Rightarrow> bool" where
  "row_admitted row rows \<longleftrightarrow>
     0 < sb_sequence row \<and> 0 < sb_causal_counter row \<and> 0 < sb_acceptance_sequence row \<and> 0 \<le> sb_retained_bytes row
     \<and> (\<forall>r \<in> set rows. sb_sequence r \<noteq> sb_sequence row \<and> sb_batch_id r \<noteq> sb_batch_id row
          \<and> sb_acceptance_sequence r \<noteq> sb_acceptance_sequence row)"

definition insert_event :: "hash \<Rightarrow> physical_accepted_batch \<Rightarrow> map_link \<Rightarrow> ('m, unit) db_op" where
  "insert_event H batch clock_root =
     st_bind (st_lift (i64_of_u64 (FrontierInvalidInput ''acceptance sequence exceeds SQLite'') (pb_acceptance_sequence batch))) (\<lambda>_.
     st_bind (st_lift (i64_of_u64 (FrontierInvalidInput ''causal counter exceeds SQLite'') (pb_causal_counter batch))) (\<lambda>_.
     st_bind (st_lift (i64_of_u64 (FrontierInvalidInput ''retained-byte count exceeds SQLite'') (pb_retained_bytes batch))) (\<lambda>_.
     st_bind (query (\<lambda>db. row_admitted (event_row H batch clock_root) (db_batches db))) (\<lambda>admitted db.
     if admitted then (Inr (), db\<lparr>db_batches := db_batches db @ [event_row H batch clock_root]\<rparr>)
     else (Inl (FrontierSqlite ''constraint failed''), db)))))"

end
