(* ===== verification/Frontier_Documents.thy ===== *)
theory Frontier_Documents
  imports Frontier_Accept "HOL-Library.AList"
begin

text \<open>
  The document frontier: a treap from document identifiers to their encoded dependencies, whose nodes live in
  the mutable table \<open>frontier_documents\<close> under the document identifier.  Insertion rewrites rows in place, so
  it keeps the nodes of other documents and drops superseded versions.
\<close>

section \<open>Operations\<close>

record frontier_map_node =
  fn_document_id :: uuid
  fn_encoded :: bytes
  fn_value_digest :: digest
  fn_left :: "map_link option"
  fn_right :: "map_link option"
  fn_node_digest :: digest

definition recompute_digest :: "hash \<Rightarrow> frontier_map_node \<Rightarrow> digest" where
  "recompute_digest H node =
     authenticated_map_node_digest H (fn_document_id node) (fn_value_digest node) (fn_left node) (fn_right node)"

definition as_link :: "frontier_map_node \<Rightarrow> map_link" where
  "as_link node = \<lparr>link_key = fn_document_id node, link_digest = fn_node_digest node\<rparr>"

text \<open>\<open>node.node_digest = node.recompute_digest()\<close>\<close>

definition refresh_digest :: "hash \<Rightarrow> frontier_map_node \<Rightarrow> frontier_map_node" where
  "refresh_digest H node = node\<lparr>fn_node_digest := recompute_digest H node\<rparr>"

definition check_document_row :: "hash \<Rightarrow> uuid \<Rightarrow> digest option \<Rightarrow> document_row \<Rightarrow> frontier_error + frontier_map_node" where
  "check_document_row H document_id expected_digest row =
     bind_res (decode_digest (doc_dependencies_digest row)) (\<lambda>value_digest.
     if value_digest \<noteq> H (doc_dependencies row)
     then Inl (FrontierCorrupt (''frontier document '' @ hex_id document_id @ '' digest mismatch''))
     else
       bind_res (decode_map_link (fst (doc_left row)) (snd (doc_left row))) (\<lambda>l.
       bind_res (decode_map_link (fst (doc_right row)) (snd (doc_right row))) (\<lambda>r.
       if (case l of None \<Rightarrow> False | Some c \<Rightarrow> document_id \<le> link_key c)
          \<or> (case r of None \<Rightarrow> False | Some c \<Rightarrow> link_key c \<le> document_id)
       then Inl (FrontierCorrupt ''frontier map child ordering is invalid'')
       else
         bind_res (decode_digest (doc_node_digest row)) (\<lambda>node_digest.
         let node = \<lparr>fn_document_id = document_id, fn_encoded = doc_dependencies row, fn_value_digest = value_digest,
                     fn_left = l, fn_right = r, fn_node_digest = node_digest\<rparr>;
             computed = recompute_digest H node
         in if node_digest \<noteq> computed \<or> (case expected_digest of None \<Rightarrow> False | Some e \<Rightarrow> e \<noteq> computed)
            then Inl (FrontierCorrupt (''frontier document '' @ hex_id document_id @ '' is not authenticated by its map root''))
            else Inr (node\<lparr>fn_node_digest := computed\<rparr>)))))"

definition load_frontier_map_node :: "hash \<Rightarrow> uuid \<Rightarrow> digest option \<Rightarrow> ('m, frontier_map_node option) db_op" where
  "load_frontier_map_node H document_id expected_digest =
     st_bind (query (\<lambda>db. map_of (db_documents db) document_id)) (\<lambda>found.
     case found of
       None \<Rightarrow> st_return None
     | Some row \<Rightarrow>
         st_bind (st_lift (check_document_row H document_id expected_digest row)) (\<lambda>node. st_return (Some node)))"

text \<open>\<open>load_frontier_map_node(..)?.ok_or_else(..)\<close> at a link.\<close>

definition node_missing :: "map_link \<Rightarrow> frontier_error" where
  "node_missing link = FrontierCorrupt (''authenticated frontier node '' @ hex_id (link_key link) @ '' is missing'')"

definition load_linked :: "hash \<Rightarrow> frontier_error \<Rightarrow> map_link \<Rightarrow> ('m, frontier_map_node) db_op" where
  "load_linked H missing link =
     st_bind (load_frontier_map_node H (link_key link) (Some (link_digest link))) (\<lambda>found.
     st_lift (ok_or missing found))"

definition document_row_of :: "frontier_map_node \<Rightarrow> document_row" where
  "document_row_of node =
     \<lparr>doc_dependencies = fn_encoded node, doc_dependencies_digest = array_bytes (fn_value_digest node),
      doc_left = link_columns (fn_left node), doc_right = link_columns (fn_right node),
      doc_node_digest = array_bytes (fn_node_digest node)\<rparr>"

definition store_frontier_map_node :: "hash \<Rightarrow> frontier_map_node \<Rightarrow> ('m, unit) db_op" where
  "store_frontier_map_node H node =
     (if fn_node_digest node \<noteq> recompute_digest H node
      then st_lift (Inl (FrontierCorrupt ''frontier map node digest is stale''))
      else update_db (\<lambda>db. db\<lparr>db_documents := AList.update (fn_document_id node) (document_row_of node) (db_documents db)\<rparr>))"

function document_lookup_loop :: "hash \<Rightarrow> map_link option \<Rightarrow> uuid \<Rightarrow> nat \<Rightarrow> ('m, bytes option) db_op" where
  "document_lookup_loop H current document_id depth =
     (case current of
        None \<Rightarrow> st_return None
      | Some link \<Rightarrow>
          st_bind (st_lift (ensure_depth depth ''frontier map lookup'')) (\<lambda>_.
          st_bind (load_linked H (node_missing link) link) (\<lambda>node.
          if document_id = fn_document_id node then st_return (Some (fn_encoded node))
          else if document_id < fn_document_id node then document_lookup_loop H (fn_left node) document_id (depth + 1)
          else document_lookup_loop H (fn_right node) document_id (depth + 1))))"
  by pat_completeness auto
termination
  by (relation "measure (\<lambda>(H, current, document_id, depth). 257 - depth)") (auto simp: ensure_depth_ran)

definition frontier_document :: "hash \<Rightarrow> physical_frontier_root \<Rightarrow> uuid \<Rightarrow> ('m, bytes option) db_op" where
  "frontier_document H root document_id =
     (case pr_document_map_root_key root of
        None \<Rightarrow>
          if pr_document_count root \<noteq> 0
          then st_lift (Inl (FrontierCorrupt ''empty frontier map root is malformed''))
          else document_lookup_loop H None document_id 0
      | Some key \<Rightarrow>
          document_lookup_loop H (Some \<lparr>link_key = key, link_digest = pr_document_map_root_digest root\<rparr>) document_id 0)"

text \<open>
  The loop of \<open>read_frontier_documents\<close>, the head of \<open>pending\<close> being the top of its stack.  It has no depth
  bound of its own, so not ending is the value \<^const>\<open>None\<close>.
\<close>

definition opt_list :: "'a option \<Rightarrow> 'a list" where
  "opt_list x = (case x of None \<Rightarrow> [] | Some y \<Rightarrow> [y])"

partial_function (option) read_documents_loop ::
    "hash \<Rightarrow> map_link list \<Rightarrow> physical_frontier_document list \<Rightarrow> 'm frontier_db \<Rightarrow>
     ((frontier_error + physical_frontier_document list) \<times> 'm frontier_db) option" where
  "read_documents_loop H pending documents db =
     (case pending of
        [] \<Rightarrow> Some (Inr documents, db)
      | link # rest \<Rightarrow>
          (case load_linked H (node_missing link) link db of
             (Inl e, db') \<Rightarrow> Some (Inl e, db')
           | (Inr node, db') \<Rightarrow>
               read_documents_loop H (opt_list (fn_left node) @ opt_list (fn_right node) @ rest)
                 (documents @ [\<lparr>pd_document_id = fn_document_id node, pd_canonical_bytes = fn_encoded node\<rparr>]) db'))"

declare read_documents_loop.simps [code]

definition read_frontier_documents ::
    "hash \<Rightarrow> physical_frontier_root \<Rightarrow> 'm frontier_db \<Rightarrow>
     ((frontier_error + physical_frontier_document list) \<times> 'm frontier_db) option" where
  "read_frontier_documents H root db =
     map_option (\<lambda>(result, db').
       (case result of
          Inl e \<Rightarrow> Inl e
        | Inr documents \<Rightarrow>
            if word_of_nat (length documents) \<noteq> pr_document_count root
            then Inl (FrontierCorrupt ''authenticated frontier document count is stale'')
            else Inr (sort_key pd_document_id documents), db'))
       (read_documents_loop H (opt_list (root_link (pr_document_map_root_key root) (pr_document_map_root_digest root))) [] db)"

definition rotate_frontier_right :: "hash \<Rightarrow> frontier_map_node \<Rightarrow> ('m, map_link) db_op" where
  "rotate_frontier_right H node =
     st_bind (st_lift (ok_or (FrontierCorrupt ''frontier map right rotation has no left child'') (fn_left node))) (\<lambda>l.
     st_bind (load_linked H (FrontierCorrupt ''frontier map rotation child is missing'') l) (\<lambda>left_node.
     let lowered = refresh_digest H (node\<lparr>fn_left := fn_right left_node\<rparr>) in
     st_bind (store_frontier_map_node H lowered) (\<lambda>_.
     let raised = refresh_digest H (left_node\<lparr>fn_right := Some (as_link lowered)\<rparr>) in
     st_bind (store_frontier_map_node H raised) (\<lambda>_.
     st_return (as_link raised)))))"

definition rotate_frontier_left :: "hash \<Rightarrow> frontier_map_node \<Rightarrow> ('m, map_link) db_op" where
  "rotate_frontier_left H node =
     st_bind (st_lift (ok_or (FrontierCorrupt ''frontier map left rotation has no right child'') (fn_right node))) (\<lambda>r.
     st_bind (load_linked H (FrontierCorrupt ''frontier map rotation child is missing'') r) (\<lambda>right_node.
     let lowered = refresh_digest H (node\<lparr>fn_right := fn_left right_node\<rparr>) in
     st_bind (store_frontier_map_node H lowered) (\<lambda>_.
     let raised = refresh_digest H (right_node\<lparr>fn_left := Some (as_link lowered)\<rparr>) in
     st_bind (store_frontier_map_node H raised) (\<lambda>_.
     st_return (as_link raised)))))"

definition document_leaf :: "hash \<Rightarrow> physical_frontier_document \<Rightarrow> frontier_map_node" where
  "document_leaf H document =
     refresh_digest H
       \<lparr>fn_document_id = pd_document_id document, fn_encoded = pd_canonical_bytes document,
        fn_value_digest = H (pd_canonical_bytes document), fn_left = None, fn_right = None,
        fn_node_digest = H EMPTY_MAP_TEXT\<rparr>"

text \<open>\<open>node.node_digest = node.recompute_digest(); store(node)?; Ok((node.as_link(), inserted))\<close>\<close>

definition store_refreshed :: "hash \<Rightarrow> frontier_map_node \<Rightarrow> ('m, map_link) db_op" where
  "store_refreshed H node =
     (let node = refresh_digest H node in
      st_bind (store_frontier_map_node H node) (\<lambda>_. st_return (as_link node)))"

function upsert_frontier_map ::
    "hash \<Rightarrow> map_link option \<Rightarrow> physical_frontier_document \<Rightarrow> nat \<Rightarrow> ('m, map_link \<times> bool) db_op" where
  "upsert_frontier_map H root document depth =
     st_bind (st_lift (ensure_depth depth ''frontier map update'')) (\<lambda>_.
     case root of
       None \<Rightarrow>
         st_bind (store_frontier_map_node H (document_leaf H document)) (\<lambda>_.
         st_return (as_link (document_leaf H document), True))
     | Some link \<Rightarrow>
         st_bind (load_linked H (node_missing link) link) (\<lambda>node.
           if pd_document_id document = fn_document_id node then
             st_bind (store_refreshed H (node\<lparr>fn_encoded := pd_canonical_bytes document,
               fn_value_digest := H (pd_canonical_bytes document)\<rparr>)) (\<lambda>link. st_return (link, False))
           else if pd_document_id document < fn_document_id node then
             st_bind (upsert_frontier_map H (fn_left node) document (depth + 1)) (\<lambda>(l, inserted).
             st_bind (if authenticated_map_priority_order H (link_key l) (fn_document_id node)
                then rotate_frontier_right H (node\<lparr>fn_left := Some l\<rparr>)
                else store_refreshed H (node\<lparr>fn_left := Some l\<rparr>)) (\<lambda>link. st_return (link, inserted)))
           else
             st_bind (upsert_frontier_map H (fn_right node) document (depth + 1)) (\<lambda>(r, inserted).
             st_bind (if authenticated_map_priority_order H (link_key r) (fn_document_id node)
                then rotate_frontier_left H (node\<lparr>fn_right := Some r\<rparr>)
                else store_refreshed H (node\<lparr>fn_right := Some r\<rparr>)) (\<lambda>link. st_return (link, inserted)))))"
  by pat_completeness auto
termination
  by (relation "measure (\<lambda>(H, root, document, depth). 257 - depth)") (auto simp: ensure_depth_ran)

declare document_lookup_loop.simps [simp del] upsert_frontier_map.simps [simp del]

section \<open>The table of document nodes\<close>

abbreviation document_link_of :: "hash \<Rightarrow> (uuid, bytes) treap \<Rightarrow> map_link option" where
  "document_link_of H \<equiv> tree_link H (\<lambda>_. H)"

definition node_of_document :: "frontier_map_node \<Rightarrow> bytes map_node" where
  "node_of_document n =
     \<lparr>node_key = fn_document_id n, node_value = fn_encoded n, node_left = fn_left n, node_right = fn_right n\<rparr>"

definition document_of_node :: "hash \<Rightarrow> bytes map_node \<Rightarrow> frontier_map_node" where
  "document_of_node H m =
     refresh_digest H
       \<lparr>fn_document_id = node_key m, fn_encoded = node_value m, fn_value_digest = H (node_value m),
        fn_left = node_left m, fn_right = node_right m, fn_node_digest = H EMPTY_MAP_TEXT\<rparr>"

definition document_ops :: "hash \<Rightarrow> ('m frontier_db, bytes) map_ops" where
  "document_ops H =
     \<lparr>op_load = \<lambda>lk. st_bind (load_linked H (node_missing lk) lk) (\<lambda>n. st_return (node_of_document n)),
      op_child = \<lambda>lk. st_bind (load_linked H (FrontierCorrupt ''frontier map rotation child is missing'') lk)
        (\<lambda>n. st_return (node_of_document n)),
      op_write = \<lambda>m. st_bind (store_frontier_map_node H (document_of_node H m))
        (\<lambda>_. st_return (as_link (document_of_node H m)))\<rparr>"

fun documents_stored :: "hash \<Rightarrow> 'm frontier_db \<Rightarrow> (uuid, bytes) treap \<Rightarrow> bool" where
  "documents_stored H db Tip = True"
| "documents_stored H db (Bin l k v r) =
     (map_of (db_documents db) k = Some (document_row_of (document_of_node H
          \<lparr>node_key = k, node_value = v, node_left = document_link_of H l, node_right = document_link_of H r\<rparr>))
      \<and> valid_map_children H k (document_link_of H l) (document_link_of H r)
      \<and> documents_stored H db l \<and> documents_stored H db r)"

text \<open>Only rows of the documents \<open>K\<close> change.\<close>

definition documents_keep :: "uuid set \<Rightarrow> 'm frontier_db \<Rightarrow> 'm frontier_db \<Rightarrow> bool" where
  "documents_keep K db db' \<longleftrightarrow>
     (\<exists>d f. db' = db\<lparr>db_documents := d, db_faults := f\<rparr>
        \<and> (\<forall>k. k \<notin> K \<longrightarrow> map_of d k = map_of (db_documents db) k))"

lemma faults_keep: "faults_only db db' \<Longrightarrow> documents_keep K db db'"
  by (auto simp: faults_only_def documents_keep_def intro!: exI [of _ "db_documents db"])

lemma documents_keep_trans: "documents_keep K a b \<Longrightarrow> documents_keep K' b c \<Longrightarrow> documents_keep (K \<union> K') a c"
  unfolding documents_keep_def
  by (auto intro!: exI [of _ "db_documents c"] exI [of _ "db_faults c"])

lemma documents_keep_mono: "documents_keep K a b \<Longrightarrow> K \<subseteq> K' \<Longrightarrow> documents_keep K' a b"
  unfolding documents_keep_def by blast

lemma documents_stored_keep:
  "documents_keep K db db' \<Longrightarrow> documents_stored H db t \<Longrightarrow> tkeys t \<inter> K = {} \<Longrightarrow> documents_stored H db' t"
  by (induction t) (auto simp: documents_keep_def)

lemma documents_stored_cong: "db_documents db = db_documents db' \<Longrightarrow> documents_stored H db t = documents_stored H db' t"
  by (induction t) auto

lemma check_document_row_of:
  assumes "valid_map_children H (node_key m) (node_left m) (node_right m)"
    "link_digest lk = fn_node_digest (document_of_node H m)"
  shows "check_document_row H (node_key m) (Some (link_digest lk)) (document_row_of (document_of_node H m)) = Inr (document_of_node H m)"
  using assms
  by (auto simp: check_document_row_def document_row_of_def document_of_node_def refresh_digest_def recompute_digest_def
      valid_map_children_def Let_def split: option.splits)

lemma document_link:
  "as_link (document_of_node H m) =
     \<lparr>link_key = node_key m, link_digest = authenticated_map_node_digest H (node_key m) (H (node_value m)) (node_left m) (node_right m)\<rparr>"
  by (simp add: as_link_def document_of_node_def refresh_digest_def recompute_digest_def)

lemma node_of_document_of [simp]: "node_of_document (document_of_node H m) = m"
  by (simp add: node_of_document_def document_of_node_def refresh_digest_def)

lemma load_linked_runs:
  assumes q: "quiet q db" and st: "documents_stored H db t" and lk: "document_link_of H t = Some lk"
    and n: "root_node H (\<lambda>_. H) t = Some m"
  shows "runs (load_linked H e lk) db (\<lambda>x db'. x = document_of_node H m \<and> faults_only db db' \<and> quiet q db') (sql_fault q)"
proof -
  have row: "map_of (db_documents db) (node_key m) = Some (document_row_of (document_of_node H m))"
      and ok: "valid_map_children H (node_key m) (node_left m) (node_right m)"
    using st n by (cases t; auto)+
  have link: "lk = as_link (document_of_node H m)" using lk n by (cases t) (auto simp: document_link)
  then have key: "link_key lk = node_key m" "link_digest lk = fn_node_digest (document_of_node H m)"
    by (simp_all add: as_link_def document_of_node_def refresh_digest_def)
  have load: "runs (load_frontier_map_node H (link_key lk) (Some (link_digest lk))) db
      (\<lambda>x db'. x = Some (document_of_node H m) \<and> faults_only db db' \<and> quiet q db') (sql_fault q)"
    unfolding load_frontier_map_node_def
    by (rule runs_bind [OF query_runs [OF q]])
      (auto simp: faults_only_tables key(1) row check_document_row_of [OF ok key(2)])
  show ?thesis
    unfolding load_linked_def by (rule runs_bind [OF load]) simp
qed

lemma document_load:
  assumes "quiet q db" "documents_stored H db t" "document_link_of H t = Some lk" "root_node H (\<lambda>_. H) t = Some m"
  shows "runs (st_bind (load_linked H e lk) (\<lambda>n. st_return (node_of_document n))) db
    (\<lambda>x db'. x = m \<and> quiet q db' \<and> documents_keep {} db db') (sql_fault q)"
  by (rule runs_bind [OF load_linked_runs [OF assms]]) (auto intro: faults_keep)

lemma document_write:
  assumes q: "quiet q db" and t: "map_ok H (Bin l k v r)" and st: "documents_stored H db l" "documents_stored H db r"
    and n: "root_node H (\<lambda>_. H) (Bin l k v r) = Some m"
  shows "runs (st_bind (store_frontier_map_node H (document_of_node H m)) (\<lambda>_. st_return (as_link (document_of_node H m)))) db
    (\<lambda>x db'. document_link_of H (Bin l k v r) = Some x \<and> quiet q db' \<and> documents_stored H db' (Bin l k v r) \<and> documents_keep {k} db db')
    (sql_fault q)"
proof -
  have fresh: "\<not> fn_node_digest (document_of_node H m) \<noteq> recompute_digest H (document_of_node H m)"
    by (simp add: document_of_node_def refresh_digest_def recompute_digest_def)
  have key: "fn_document_id (document_of_node H m) = k" using n by (auto simp: document_of_node_def refresh_digest_def)
  have kids: "valid_map_children H k (document_link_of H l) (document_link_of H r)" by (rule valid_children [OF t])
  show ?thesis
    unfolding store_frontier_map_node_def if_not_P [OF fresh] key
  proof (rule runs_bind [OF update_runs [OF q]])
    fix u :: unit and db2
    assume "\<exists>db1. faults_only db db1 \<and> quiet q db1 \<and> db2 = db1\<lparr>db_documents := AList.update k (document_row_of (document_of_node H m)) (db_documents db1)\<rparr>"
    then obtain db1 where db1: "faults_only db db1" "quiet q db1"
        and db2: "db2 = db1\<lparr>db_documents := AList.update k (document_row_of (document_of_node H m)) (db_documents db1)\<rparr>"
      by blast
    have q2: "quiet q db2" using db1(2) by (simp add: db2 quiet_def)
    have "documents_keep {k} db1 db2"
      by (auto simp: documents_keep_def db2 update_conv' intro!: exI [of _ "AList.update k (document_row_of (document_of_node H m)) (db_documents db1)"] exI [of _ "db_faults db1"])
    then have keep: "documents_keep {k} db db2"
      using documents_keep_trans [OF faults_keep [OF db1(1), of "{}"]] by simp
    have "documents_stored H db2 l" "documents_stored H db2 r"
      using t by (intro documents_stored_keep [OF keep] st; fastforce)+
    then have "documents_stored H db2 (Bin l k v r)"
      using n kids by (auto simp: db2 update_conv')
    then show "runs (st_return (as_link (document_of_node H m))) db2
        (\<lambda>x db'. document_link_of H (Bin l k v r) = Some x \<and> quiet q db' \<and> documents_stored H db' (Bin l k v r) \<and> documents_keep {k} db db')
        (sql_fault q)"
      using keep q2 n by (auto simp: document_link simp del: documents_stored.simps)
  qed
qed

interpretation document_table: map_table H "\<lambda>_. H" "document_ops H" "quiet q" "documents_stored H" documents_keep UNIV "sql_fault q"
  for H q
proof unfold_locales
  fix db :: "'a frontier_db" and t lk n
  assume a: "quiet q db" "documents_stored H db t" "document_link_of H t = Some lk" "root_node H (\<lambda>_. H) t = Some n"
  show "runs (op_load (document_ops H) lk) db (\<lambda>x s'. x = n \<and> quiet q s' \<and> documents_keep {} db s') (sql_fault q)"
    "runs (op_child (document_ops H) lk) db (\<lambda>x s'. x = n \<and> quiet q s' \<and> documents_keep {} db s') (sql_fault q)"
    using document_load [OF a] by (simp_all add: document_ops_def)
next
  fix db :: "'a frontier_db" and l k v r n
  assume "quiet q db" "map_ok H (Bin l k v r)" "tentries (Bin l k v r) \<subseteq> UNIV" "documents_stored H db l"
    "documents_stored H db r" "root_node H (\<lambda>_. H) (Bin l k v r) = Some n"
  from document_write [OF this(1,2,4,5,6)]
  show "runs (op_write (document_ops H) n) db
    (\<lambda>x s'. document_link_of H (Bin l k v r) = Some x \<and> quiet q s' \<and> documents_stored H s' (Bin l k v r) \<and> documents_keep {k} db s') (sql_fault q)"
    by (simp only: document_ops_def map_ops.simps)
qed (auto intro: documents_keep_trans documents_keep_mono documents_stored_keep faults_keep)

section \<open>Insertion\<close>

abbreviation document_upsert_texts :: "string \<times> string \<times> string" where
  "document_upsert_texts \<equiv> (''frontier map update'', ''frontier map right rotation has no left child'', ''frontier map left rotation has no right child'')"

text \<open>Whatever \<open>load_linked\<close> returns is the node its own fields describe.\<close>

lemma check_document_full:
  "check_document_row H k e row = Inr n \<Longrightarrow> n = document_of_node H (node_of_document n)"
  by (auto simp: check_document_row_def bind_res_Inr document_of_node_def node_of_document_def refresh_digest_def
      recompute_digest_def Let_def split: if_splits)

lemma load_linked_full:
  "(load_linked H e lk :: ('m, frontier_map_node) db_op) = st_bind (load_linked H e lk) (\<lambda>n. st_return (document_of_node H (node_of_document n)))"
proof
  fix db :: "'m frontier_db"
  have "n = document_of_node H (node_of_document n)" if "load_linked H e lk db = (Inr n, db')" for n db'
    using that
    by (auto simp: load_linked_def load_frontier_map_node_def st_bind_def st_lift_def st_return_def ok_or_Inr
        intro: check_document_full split: prod.splits sum.splits option.splits)
  then show "load_linked H e lk db = st_bind (load_linked H e lk) (\<lambda>n. st_return (document_of_node H (node_of_document n))) db"
    by (auto simp: st_bind_def st_return_def split: prod.splits sum.splits)
qed

lemma load_linked_node:
  "st_bind (load_linked H (node_missing lk) lk) f = st_bind (op_load (document_ops H) lk) (\<lambda>m. f (document_of_node H m))"
  "st_bind (load_linked H (FrontierCorrupt ''frontier map rotation child is missing'') lk) f
     = st_bind (op_child (document_ops H) lk) (\<lambda>m. f (document_of_node H m))"
  by (subst load_linked_full, simp add: st_bind_assoc document_ops_def)+

lemma document_of_node_update:
  "store_refreshed H ((document_of_node H m)\<lparr>fn_left := l\<rparr>) = op_write (document_ops H) (m\<lparr>node_left := l\<rparr>)"
  "store_refreshed H ((document_of_node H m)\<lparr>fn_right := l\<rparr>) = op_write (document_ops H) (m\<lparr>node_right := l\<rparr>)"
  "store_refreshed H ((document_of_node H m)\<lparr>fn_encoded := v, fn_value_digest := H v\<rparr>) = op_write (document_ops H) (m\<lparr>node_value := v\<rparr>)"
  "refresh_digest H ((document_of_node H m)\<lparr>fn_left := l\<rparr>) = document_of_node H (m\<lparr>node_left := l\<rparr>)"
  "refresh_digest H ((document_of_node H m)\<lparr>fn_right := l\<rparr>) = document_of_node H (m\<lparr>node_right := l\<rparr>)"
  by (simp_all add: store_refreshed_def document_ops_def document_of_node_def refresh_digest_def recompute_digest_def Let_def)

lemma document_write_op:
  "op_write (document_ops H) m = st_bind (store_frontier_map_node H (document_of_node H m)) (\<lambda>_. st_return (as_link (document_of_node H m)))"
  by (simp add: document_ops_def)

lemma rotate_frontier_ops:
  "rotate_frontier_right H ((document_of_node H m)\<lparr>fn_left := l\<rparr>)
     = rotate_right (document_ops H) ''frontier map right rotation has no left child'' (m\<lparr>node_left := l\<rparr>)"
  "rotate_frontier_left H ((document_of_node H m)\<lparr>fn_right := l\<rparr>)
     = rotate_left (document_ops H) ''frontier map left rotation has no right child'' (m\<lparr>node_right := l\<rparr>)"
proof -
  have f: "fn_left ((document_of_node H m)\<lparr>fn_left := x\<rparr>) = x" "fn_right ((document_of_node H m)\<lparr>fn_right := x\<rparr>) = x"
    "fn_left (document_of_node H m) = node_left m" "fn_right (document_of_node H m) = node_right m" for x m
    by (simp_all add: document_of_node_def refresh_digest_def)
  show "rotate_frontier_right H ((document_of_node H m)\<lparr>fn_left := l\<rparr>)
      = rotate_right (document_ops H) ''frontier map right rotation has no left child'' (m\<lparr>node_left := l\<rparr>)"
    unfolding rotate_frontier_right_def rotate_right_def load_linked_node
    by (simp add: f document_of_node_update Let_def st_bind_assoc document_write_op)
  show "rotate_frontier_left H ((document_of_node H m)\<lparr>fn_right := l\<rparr>)
      = rotate_left (document_ops H) ''frontier map left rotation has no right child'' (m\<lparr>node_right := l\<rparr>)"
    unfolding rotate_frontier_left_def rotate_left_def load_linked_node
    by (simp add: f document_of_node_update Let_def st_bind_assoc document_write_op)
qed

lemma upsert_frontier_map_map:
  "(upsert_frontier_map H root document depth :: ('m, map_link \<times> bool) db_op) =
     map_upsert H (document_ops H) document_upsert_texts (\<lambda>_ v. v) root (pd_document_id document) (pd_canonical_bytes document) depth"
proof (induction "257 - depth" arbitrary: root depth rule: less_induct)
  case less
  show ?case
  proof (cases "depth \<le> 256")
    case True
    have IH: "(upsert_frontier_map H root' document (depth + 1) :: ('m, map_link \<times> bool) db_op) =
        map_upsert H (document_ops H) document_upsert_texts (\<lambda>_ v. v) root' (pd_document_id document) (pd_canonical_bytes document) (depth + 1)" for root'
      using True by (intro less) simp
    have leaf: "document_leaf H document = document_of_node H
        \<lparr>node_key = pd_document_id document, node_value = pd_canonical_bytes document, node_left = None, node_right = None\<rparr>"
      by (simp add: document_leaf_def document_of_node_def)
    have fields: "fn_document_id (document_of_node H m) = node_key m" "fn_left (document_of_node H m) = node_left m"
        "fn_right (document_of_node H m) = node_right m" for m
      by (simp_all add: document_of_node_def refresh_digest_def)
    have empty: "st_bind (store_frontier_map_node H (document_leaf H document)) (\<lambda>_. st_return (as_link (document_leaf H document), True))
        = (st_bind (op_write (document_ops H) \<lparr>node_key = pd_document_id document, node_value = pd_canonical_bytes document,
            node_left = None, node_right = None\<rparr>) (\<lambda>link. st_return (link, True)) :: ('m, map_link \<times> bool) db_op)"
      by (simp add: leaf document_write_op st_bind_assoc)
    show ?thesis
      unfolding upsert_frontier_map.simps [of H root] map_upsert.simps [of H "document_ops H" document_upsert_texts "\<lambda>_ v. v" root]
        ensure_depth_ok [OF True] st_bind_Inr IH empty load_linked_node fields document_of_node_update rotate_frontier_ops
        put_here_def put_left_def put_right_def split_beta fst_conv snd_conv ..
  next
    case False
    then show ?thesis
      unfolding upsert_frontier_map.simps [of H root] map_upsert.simps [of H "document_ops H" document_upsert_texts "\<lambda>_ v. v" root]
      by (simp add: ensure_depth_def MAX_AUTHENTICATED_MAP_DEPTH_def)
  qed
qed

definition documents_hold :: "hash \<Rightarrow> 'm frontier_db \<Rightarrow> map_link option \<Rightarrow> (uuid \<Rightarrow> bytes option) \<Rightarrow> bool" where
  "documents_hold H db root m \<longleftrightarrow>
     (\<exists>t. document_link_of H t = root \<and> map_ok H t \<and> tmap t = m \<and> documents_stored H db t)"

lemma upsert_documents:
  assumes q: "quiet q db" and m: "documents_hold H db root m"
    and deep: "shallow (authenticated_map_priority_order H) K 256" "dom m \<subseteq> K"
  shows "runs (upsert_frontier_map H root document 0) db
    (\<lambda>(x, inserted) db'. documents_hold H db' (Some x) (m(pd_document_id document \<mapsto> pd_canonical_bytes document))
       \<and> inserted = (m (pd_document_id document) = None) \<and> quiet q db'
       \<and> documents_keep (insert (pd_document_id document) (dom m)) db db') (sql_fault q)"
proof -
  obtain t where t: "document_link_of H t = root" "map_ok H t" "tmap t = m" "documents_stored H db t"
    using m by (auto simp: documents_hold_def)
  have v: "updated (\<lambda>_ v. v) t k c = c" for k c by (simp split: option.split)
  have "theight t + 0 \<le> 256"
    using shallow_height [OF deep(1) t(2)] deep(2) t(3) dom_tmap [OF t(2)] by simp
  from document_table.map_upsert_ok [where f = "\<lambda>_ v. v" and texts = document_upsert_texts, OF q t(4,2) this]
  have up: "runs (upsert_frontier_map H root document 0) db
      (\<lambda>(x, inserted) db'. \<exists>t'. document_link_of H t' = Some x \<and> map_ok H t'
         \<and> tmap t' = m(pd_document_id document \<mapsto> pd_canonical_bytes document) \<and> inserted = (pd_document_id document \<notin> tkeys t)
         \<and> quiet q db' \<and> documents_stored H db' t' \<and> documents_keep (insert (pd_document_id document) (tkeys t)) db db') (sql_fault q)"
    unfolding upsert_frontier_map_map t(1) [symmetric] t(3) [symmetric] by (simp add: v)
  have new: "pd_document_id document \<notin> tkeys t \<longleftrightarrow> m (pd_document_id document) = None" "tkeys t = dom m"
    using tmap_keys [OF t(2)] dom_tmap [OF t(2)] t(3) by auto
  show ?thesis
    by (rule runs_mono [OF up]) (use new in \<open>auto simp: documents_hold_def\<close>)
qed

section \<open>Lookup\<close>

lemma document_lookup_map:
  "(document_lookup_loop H current key depth :: ('m, bytes option) db_op)
     = map_lookup (op_load (document_ops H)) ''frontier map lookup'' current key depth"
proof (induction "257 - depth" arbitrary: current depth rule: less_induct)
  case less
  have fields: "fn_document_id (document_of_node H m) = node_key m" "fn_encoded (document_of_node H m) = node_value m"
      "fn_left (document_of_node H m) = node_left m" "fn_right (document_of_node H m) = node_right m" for m
    by (simp_all add: document_of_node_def refresh_digest_def)
  show ?case
  proof (cases "depth \<le> 256")
    case True
    have IH: "(document_lookup_loop H c key (depth + 1) :: ('m, bytes option) db_op)
        = map_lookup (op_load (document_ops H)) ''frontier map lookup'' c key (depth + 1)" for c
      using True by (intro less) simp
    show ?thesis
      unfolding document_lookup_loop.simps [of H current] map_lookup.simps [of _ _ current] IH load_linked_node fields ..
  next
    case False
    then show ?thesis
      unfolding document_lookup_loop.simps [of H current] map_lookup.simps [of _ _ current]
      by (simp add: ensure_depth_def MAX_AUTHENTICATED_MAP_DEPTH_def split: option.split)
  qed
qed

lemma frontier_document_log:
  assumes q: "quiet q db" and m: "documents_hold H db (root_link (pr_document_map_root_key root) (pr_document_map_root_digest root)) m"
    and deep: "shallow (authenticated_map_priority_order H) K 256" "dom m \<subseteq> K"
    and count: "unat (pr_document_count root) = card (dom m)"
  shows "runs (frontier_document H root key) db (\<lambda>x db'. x = m key \<and> quiet q db' \<and> documents_keep {} db db') (sql_fault q)"
proof -
  obtain t where t: "document_link_of H t = root_link (pr_document_map_root_key root) (pr_document_map_root_digest root)"
      "map_ok H t" "tmap t = m" "documents_stored H db t"
    using m by (auto simp: documents_hold_def)
  have "theight t + 0 \<le> 257"
    using shallow_height [OF deep(1) t(2)] deep(2) t(3) dom_tmap [OF t(2)] by simp
  note look = document_table.map_lookup_ok [where operation = "''frontier map lookup''" and key = key, OF q t(4) this]
  show ?thesis
  proof (cases "pr_document_map_root_key root")
    case None
    then have "t = Tip" using t(1) by (simp add: root_link_def)
    then have "dom m = {}" using t(3) by auto
    then have "pr_document_count root = 0" using count by (simp add: unat_eq_0)
    then show ?thesis
      using look t None by (simp add: frontier_document_def document_lookup_map root_link_def)
  next
    case (Some k)
    then show ?thesis
      using look t by (simp add: frontier_document_def document_lookup_map root_link_def)
  qed
qed

section \<open>Reading every document\<close>

fun preorder :: "(uuid, bytes) treap \<Rightarrow> physical_frontier_document list" where
  "preorder Tip = []"
| "preorder (Bin l k v r) = \<lparr>pd_document_id = k, pd_canonical_bytes = v\<rparr> # preorder l @ preorder r"

fun tsize :: "('k, 'v) treap \<Rightarrow> nat" where
  "tsize Tip = 0"
| "tsize (Bin l k v r) = Suc (tsize l + tsize r)"

definition pair_of :: "physical_frontier_document \<Rightarrow> uuid \<times> bytes" where
  "pair_of d = (pd_document_id d, pd_canonical_bytes d)"

text \<open>The loop ends on every stack of stored trees, with their documents.\<close>

lemma read_documents_loop_ok:
  "quiet q db \<Longrightarrow> \<forall>t \<in> set ts. documents_stored H db t \<Longrightarrow>
   \<exists>r db'. read_documents_loop H (concat (map (\<lambda>t. opt_list (document_link_of H t)) ts)) documents db = Some (r, db')
     \<and> (r = Inr (documents @ concat (map preorder ts)) \<and> faults_only db db' \<and> quiet q db' \<or> (\<exists>e. r = Inl e \<and> sql_fault q e db'))"
proof (induction "2 * sum_list (map tsize ts) + length ts" arbitrary: ts documents db rule: less_induct)
  case less
  show ?case
  proof (cases ts)
    case Nil
    then show ?thesis using less.prems by (subst read_documents_loop.simps) simp
  next
    case (Cons t us)
    show ?thesis
    proof (cases t)
      case Tip
      then show ?thesis using less.hyps [of us db documents] less.prems Cons by (simp add: opt_list_def)
    next
      case (Bin l k v r)
      let ?n = "\<lparr>node_key = k, node_value = v, node_left = document_link_of H l, node_right = document_link_of H r\<rparr>"
      obtain lk where lk: "document_link_of H t = Some lk" using Bin by simp
      have n: "root_node H (\<lambda>_. H) t = Some ?n" using Bin by simp
      have pending: "concat (map (\<lambda>t. opt_list (document_link_of H t)) ts) = lk # concat (map (\<lambda>t. opt_list (document_link_of H t)) us)"
        by (simp add: Cons lk opt_list_def del: tree_link.simps)
      have st: "documents_stored H db t" "documents_stored H db l" "documents_stored H db r"
        using less.prems(2) Cons Bin by auto
      note load = load_linked_runs [OF less.prems(1) st(1) lk n, of "node_missing lk"]
      show ?thesis
      proof (cases "load_linked H (node_missing lk) lk db")
        case (Pair x db1)
        show ?thesis
        proof (cases x)
          case (Inl e)
          then have "sql_fault q e db1" using runs_Inl [OF load] Pair by simp
          then show ?thesis unfolding pending by (subst read_documents_loop.simps) (simp add: Pair Inl)
        next
          case (Inr y)
          then have y: "y = document_of_node H ?n" "faults_only db db1" "quiet q db1"
            using runs_Inr [OF load] Pair by simp_all
          have fields: "fn_left y = document_link_of H l" "fn_right y = document_link_of H r" "fn_document_id y = k" "fn_encoded y = v"
            by (simp_all add: y(1) document_of_node_def refresh_digest_def)
          have same: "documents_stored H db1 u = documents_stored H db u" for u
            by (rule documents_stored_cong) (simp add: faults_only_tables [OF y(2)])
          have "\<exists>r' db'. read_documents_loop H (concat (map (\<lambda>t. opt_list (document_link_of H t)) (l # r # us)))
                (documents @ [\<lparr>pd_document_id = k, pd_canonical_bytes = v\<rparr>]) db1 = Some (r', db')
              \<and> (r' = Inr ((documents @ [\<lparr>pd_document_id = k, pd_canonical_bytes = v\<rparr>]) @ concat (map preorder (l # r # us)))
                  \<and> faults_only db1 db' \<and> quiet q db' \<or> (\<exists>e. r' = Inl e \<and> sql_fault q e db'))"
            using less.prems(2) st Cons Bin y(3) same by (intro less.hyps) auto
          then show ?thesis
            unfolding pending using faults_only_trans [OF y(2)]
            by (subst read_documents_loop.simps) (auto simp: Pair Inr fields Cons Bin)
        qed
      qed
    qed
  qed
qed

lemma preorder_pairs: "set (map pair_of (preorder t)) = tentries t"
  by (induction t) (auto simp: pair_of_def)

lemma preorder_ids: "pd_document_id ` set (preorder t) = tkeys t"
  by (induction t) auto

lemma preorder_distinct: "treap_ok before t \<Longrightarrow> distinct (map pd_document_id (preorder t))"
proof (induction t)
  case (Bin l k v r)
  then show ?case by (simp add: preorder_ids) (fastforce simp: preorder_ids dest: less_asym)
qed simp

lemma read_frontier_documents_exact:
  assumes q: "quiet q db" and m: "documents_hold H db (root_link (pr_document_map_root_key root) (pr_document_map_root_digest root)) m"
    and count: "word_of_nat (card (dom m)) = pr_document_count root"
  shows "\<exists>r db'. read_frontier_documents H root db = Some (r, db')
    \<and> ((\<exists>docs. r = Inr docs \<and> strictly_sorted (map pd_document_id docs) \<and> map_of (map pair_of docs) = m
          \<and> faults_only db db' \<and> quiet q db')
       \<or> (\<exists>e. r = Inl e \<and> sql_fault q e db'))"
proof -
  obtain t where t: "document_link_of H t = root_link (pr_document_map_root_key root) (pr_document_map_root_digest root)"
      "map_ok H t" "tmap t = m" "documents_stored H db t"
    using m by (auto simp: documents_hold_def)
  have len: "length (preorder t) = card (dom m)"
    using distinct_card [OF preorder_distinct [OF t(2)]] preorder_ids [of t] dom_tmap [OF t(2)] t(3)
    by (simp add: image_set [symmetric] del: image_set)
  let ?docs = "sort_key pd_document_id (preorder t)"
  have d: "distinct (map pd_document_id ?docs)"
    using preorder_distinct [OF t(2)] by (simp add: distinct_map)
  then have sorted: "strictly_sorted (map pd_document_id ?docs)"
    unfolding strictly_sorted_iff strict_sorted_iff by simp
  have "map_of (map pair_of ?docs) = m"
  proof
    fix x
    have ids: "map fst (map pair_of ?docs) = map pd_document_id ?docs" by (simp add: pair_of_def comp_def)
    have "map_of (map pair_of ?docs) x = Some v \<longleftrightarrow> m x = Some v" for v
    proof -
      have "distinct (map fst (map pair_of ?docs))" unfolding ids by (rule d)
      from map_of_eq_Some_iff [OF this, of x v]
      have "map_of (map pair_of ?docs) x = Some v \<longleftrightarrow> (x, v) \<in> set (map pair_of (preorder t))" by simp
      then show ?thesis using tmap_entries [OF t(2)] t(3) by (simp only: preorder_pairs)
    qed
    then show "map_of (map pair_of ?docs) x = m x" by (metis not_Some_eq)
  qed
  moreover obtain r db' where loop: "read_documents_loop H (concat (map (\<lambda>t. opt_list (document_link_of H t)) [t])) [] db = Some (r, db')"
      and r: "r = Inr ([] @ concat (map preorder [t])) \<and> faults_only db db' \<and> quiet q db' \<or> (\<exists>e. r = Inl e \<and> sql_fault q e db')"
    using read_documents_loop_ok [OF q, of "[t]" H "[]"] t(4) by auto
  ultimately show ?thesis
    using sorted len count t(1) unfolding read_frontier_documents_def by auto
qed

end
