(* ===== verification/Frontier_Log.thy ===== *)
theory Frontier_Log
  imports Frontier_Accept
begin

text \<open>
  What the tables stand for: the log of accepted batches, each with the root of its causal clock.  The
  clock of a batch is specified on the log alone, as the pointwise maximum of the clocks of its heads with its
  own dot entered; \<open>log_holds\<close> relates a database and a root to a log.  Authenticated lookup and the derivation of
  the clock root are then verified against the log.
\<close>

section \<open>The log\<close>

type_synonym entry = "physical_accepted_batch \<times> map_link"

definition entry_id :: "entry \<Rightarrow> uuid" where
  "entry_id e = pb_batch_id (fst e)"

definition entry_dot :: "entry \<Rightarrow> uuid \<times> u64" where
  "entry_dot e = (pb_causal_peer_id (fst e), pb_causal_counter (fst e))"

definition entry_binding :: "hash \<Rightarrow> entry \<Rightarrow> uuid \<times> digest" where
  "entry_binding H e = (entry_id e, accepted_causal_record_digest H (fst e) (snd e))"

definition entry_row :: "hash \<Rightarrow> entry \<Rightarrow> stored_batch" where
  "entry_row H e = event_row H (fst e) (snd e)"

definition heads_clock :: "(uuid \<Rightarrow> uuid \<Rightarrow> u64 option) \<Rightarrow> uuid list \<Rightarrow> uuid \<Rightarrow> u64 option" where
  "heads_clock clocks heads = foldl (\<lambda>m h. clock_join m (clocks h)) (\<lambda>_. None) heads"

definition batch_clock :: "(uuid \<Rightarrow> uuid \<Rightarrow> u64 option) \<Rightarrow> physical_accepted_batch \<Rightarrow> uuid \<Rightarrow> u64 option" where
  "batch_clock clocks b =
     (heads_clock clocks (pb_causal_dependency_heads b))(pb_causal_peer_id b \<mapsto> pb_causal_counter b)"

definition log_clocks :: "entry list \<Rightarrow> uuid \<Rightarrow> uuid \<Rightarrow> u64 option" where
  "log_clocks log = foldl (\<lambda>clocks e. clocks(entry_id e := batch_clock clocks (fst e))) (\<lambda>_ _. None) log"

definition next_counter :: "entry list \<Rightarrow> physical_accepted_batch \<Rightarrow> nat" where
  "next_counter log b =
     unat (unwrap_counter (heads_clock (log_clocks log) (pb_causal_dependency_heads b) (pb_causal_peer_id b))) + 1"

definition entry_ok :: "hash \<Rightarrow> entry list \<Rightarrow> physical_accepted_batch \<Rightarrow> bool" where
  "entry_ok H log b \<longleftrightarrow>
     pb_batch_id b \<notin> entry_id ` set log \<and> set (pb_causal_dependency_heads b) \<subseteq> entry_id ` set log
     \<and> unat (pb_causal_counter b) = next_counter log b \<and> unat (pb_causal_counter b) < 2 ^ 63
     \<and> unat (pb_acceptance_sequence b) = length log + 1 \<and> unat (pb_acceptance_sequence b) < 2 ^ 63
     \<and> unat (pb_retained_bytes b) < 2 ^ 63 \<and> pb_semantic_effect_digest b = H (pb_semantic_effect b)"

inductive accepted_log :: "hash \<Rightarrow> entry list \<Rightarrow> bool" for H where
  empty_log: "accepted_log H []"
| accept: "accepted_log H log \<Longrightarrow> entry_ok H log b \<Longrightarrow> accepted_log H (log @ [(b, clock_root)])"

inductive_cases accepted_snocE: "accepted_log H (log @ [e])"

lemma log_clocks_snoc: "log_clocks (log @ [e]) = (log_clocks log)(entry_id e := batch_clock (log_clocks log) (fst e))"
  by (simp add: log_clocks_def)

lemma log_clocks_absent: "i \<notin> entry_id ` set log \<Longrightarrow> log_clocks log i = (\<lambda>_. None)"
  by (induction log rule: rev_induct) (auto simp: log_clocks_snoc, simp add: log_clocks_def)

lemma heads_clock_snoc: "heads_clock clocks (heads @ [h]) = clock_join (heads_clock clocks heads) (clocks h)"
  by (simp add: heads_clock_def)

lemma heads_clock_Some: "heads_clock clocks heads p = Some c \<Longrightarrow> \<exists>h \<in> set heads. clocks h p = Some c"
  by (induction heads rule: rev_induct) (auto simp: heads_clock_snoc dest!: clock_join_Some, simp add: heads_clock_def)

lemma heads_clock_cong: "(\<And>h. h \<in> set heads \<Longrightarrow> clocks h = clocks' h) \<Longrightarrow> heads_clock clocks heads = heads_clock clocks' heads"
  by (induction heads rule: rev_induct) (auto simp: heads_clock_snoc, simp add: heads_clock_def)

lemma accepted_distinct: "accepted_log H log \<Longrightarrow> distinct (map entry_id log)"
  by (induction rule: accepted_log.induct) (auto simp: entry_ok_def entry_id_def)

text \<open>Every counter in a clock is the dot of an accepted batch.\<close>

lemma log_clocks_dots: "log_clocks log i p = Some c \<Longrightarrow> (p, c) \<in> entry_dot ` set log"
proof (induction log arbitrary: i p c rule: rev_induct)
  case Nil
  then show ?case by (simp add: log_clocks_def)
next
  case (snoc e log)
  show ?case
  proof (cases "i = entry_id e")
    case True
    then have "batch_clock (log_clocks log) (fst e) p = Some c" using snoc.prems by (simp add: log_clocks_snoc)
    then have "(p, c) = entry_dot e \<or> heads_clock (log_clocks log) (pb_causal_dependency_heads (fst e)) p = Some c"
      by (auto simp: batch_clock_def entry_dot_def split: if_splits)
    then show ?thesis using heads_clock_Some snoc.IH by fastforce
  next
    case False
    then show ?thesis using snoc by (simp add: log_clocks_snoc)
  qed
qed

lemma heads_clock_dots: "heads_clock (log_clocks log) heads p = Some c \<Longrightarrow> (p, c) \<in> entry_dot ` set log"
  using heads_clock_Some log_clocks_dots by blast

lemma accepted_rows:
  "accepted_log H log \<Longrightarrow> (b, lk) \<in> set log \<Longrightarrow>
   0 < pb_causal_counter b \<and> unat (pb_causal_counter b) < 2 ^ 63 \<and> 0 < unat (pb_acceptance_sequence b)
   \<and> unat (pb_acceptance_sequence b) \<le> length log
   \<and> pb_semantic_effect_digest b = H (pb_semantic_effect b)
   \<and> log_clocks log (pb_batch_id b) (pb_causal_peer_id b) = Some (pb_causal_counter b)"
proof (induction rule: accepted_log.induct)
  case empty_log
  then show ?case by simp
next
  case (accept log b' lk')
  show ?case
  proof (cases "(b, lk) \<in> set log")
    case True
    then have "pb_batch_id b \<noteq> pb_batch_id b'"
      using accept.hyps(2) by (force simp: entry_ok_def entry_id_def)
    then show ?thesis using accept.IH [OF True] by (auto simp: log_clocks_snoc entry_id_def)
  next
    case False
    then have b: "b = b'" "lk = lk'" using accept.prems by auto
    have "0 < unat (pb_causal_counter b)" using accept.hyps(2) b by (simp add: entry_ok_def next_counter_def)
    then have "0 < pb_causal_counter b" by (simp add: word_less_nat_alt)
    then show ?thesis using accept.hyps(2) b by (auto simp: entry_ok_def log_clocks_snoc entry_id_def batch_clock_def)
  qed
qed

section \<open>A database that holds a log\<close>

text \<open>
  \<open>room\<close>: no collision among the texts that matter, and key sets whose treaps stay within the depth the
  code allows (any 128 peers do, by \<open>shallow_card\<close>).
\<close>

record room =
  clock_texts :: "bytes set"
  dots :: "(uuid \<times> u64) set"
  batch_texts :: "bytes set"
  bindings :: "(uuid \<times> digest) set"

definition room_ok :: "hash \<Rightarrow> room \<Rightarrow> bool" where
  "room_ok H R \<longleftrightarrow>
     shallow (authenticated_map_priority_order H) (fst ` dots R) 128
     \<and> shallow (authenticated_map_priority_order H) (fst ` bindings R) 256"

definition tables_ok :: "hash \<Rightarrow> room \<Rightarrow> bool \<Rightarrow> 'm frontier_db \<Rightarrow> bool" where
  "tables_ok H R q db \<longleftrightarrow>
     clock_inv H (clock_texts R) (dots R) q db \<and> batch_inv H (batch_texts R) (bindings R) q db \<and> room_ok H R"

definition log_entry :: "entry list \<Rightarrow> uuid \<Rightarrow> entry option" where
  "log_entry log i = find (\<lambda>e. entry_id e = i) log"

definition batch_map_holds :: "hash \<Rightarrow> physical_frontier_root \<Rightarrow> entry list \<Rightarrow> 'm frontier_db \<Rightarrow> bool" where
  "batch_map_holds H root log db \<longleftrightarrow>
     (\<exists>t. batch_link_of H t = root_link (pr_batch_map_root_key root) (pr_batch_map_root_digest root) \<and> map_ok H t
        \<and> batch_stored H db t \<and> tmap t = map_of (map (entry_binding H) log))"

definition log_holds :: "hash \<Rightarrow> physical_frontier_root \<Rightarrow> entry list \<Rightarrow> 'm frontier_db \<Rightarrow> bool" where
  "log_holds H root log db \<longleftrightarrow>
     accepted_log H log \<and> db_batches db = map (entry_row H) log
     \<and> unat (pr_acceptance_sequence root) = length log \<and> batch_map_holds H root log db
     \<and> (\<forall>e \<in> set log. clock_holds H db (Some (snd e)) (log_clocks log (entry_id e)))"

definition log_fits :: "hash \<Rightarrow> room \<Rightarrow> entry list \<Rightarrow> bool" where
  "log_fits H R log \<longleftrightarrow> entry_dot ` set log \<subseteq> dots R \<and> entry_binding H ` set log \<subseteq> bindings R"

text \<open>Only nodes are added, and faults consumed.\<close>

definition nodes_extend :: "'m frontier_db \<Rightarrow> 'm frontier_db \<Rightarrow> bool" where
  "nodes_extend db db' \<longleftrightarrow>
     (\<exists>c b f. db' = db\<lparr>db_clock_nodes := c, db_batch_nodes := b, db_faults := f\<rparr>
        \<and> db_clock_nodes db \<subseteq>\<^sub>m c \<and> db_batch_nodes db \<subseteq>\<^sub>m b)"

lemma nodes_extend_intros:
  "clock_extends db db' \<Longrightarrow> nodes_extend db db'" "batch_extends db db' \<Longrightarrow> nodes_extend db db'"
  "faults_only db db' \<Longrightarrow> nodes_extend db db'"
proof -
  show c: "nodes_extend db db'" if "clock_extends db db'" for db' :: "'a frontier_db"
    using that by (auto simp: clock_extends_def nodes_extend_def intro!: exI [of _ "db_clock_nodes db'"] exI [of _ "db_batch_nodes db"])
  show "nodes_extend db db'" if "batch_extends db db'"
    using that by (auto simp: batch_extends_def nodes_extend_def intro!: exI [of _ "db_clock_nodes db"] exI [of _ "db_batch_nodes db'"])
  show "nodes_extend db db'" if "faults_only db db'"
    using c [OF faults_extends [OF that]] .
qed

lemma nodes_extend_refl [simp]: "nodes_extend db db"
  by (rule nodes_extend_intros(3)) simp

lemma nodes_extend_trans: "nodes_extend a b \<Longrightarrow> nodes_extend b c \<Longrightarrow> nodes_extend a c"
  unfolding nodes_extend_def
  by (auto intro: map_le_trans intro!: exI [of _ "db_clock_nodes c"] exI [of _ "db_batch_nodes c"] exI [of _ "db_faults c"])

lemma clock_holds_nodes: "nodes_extend db db' \<Longrightarrow> clock_holds H db x m \<Longrightarrow> clock_holds H db' x m"
proof -
  assume "nodes_extend db db'" and h: "clock_holds H db x m"
  then obtain c b f where db': "db' = db\<lparr>db_clock_nodes := c, db_batch_nodes := b, db_faults := f\<rparr>" "db_clock_nodes db \<subseteq>\<^sub>m c"
    by (auto simp: nodes_extend_def)
  have same: "clock_stored H db1 t = clock_stored H db2 t" if "db_clock_nodes db1 = db_clock_nodes db2"
    for t and db1 db2 :: "'a frontier_db"
    using that by (induction t) (auto simp: Let_def)
  have "clock_extends db (db\<lparr>db_clock_nodes := c\<rparr>)"
    using db'(2) by (auto simp: clock_extends_def intro!: exI [of _ c] exI [of _ "db_faults db"])
  then have "clock_holds H (db\<lparr>db_clock_nodes := c\<rparr>) x m" using h by (rule clock_holds_extends)
  then show ?thesis using same [of "db\<lparr>db_clock_nodes := c\<rparr>" db'] by (auto simp: clock_holds_def db')
qed

lemma batch_stored_nodes: "nodes_extend db db' \<Longrightarrow> batch_stored H db t \<Longrightarrow> batch_stored H db' t"
  by (induction t) (auto simp: nodes_extend_def Let_def map_le_def dom_def)

lemma log_holds_nodes: "nodes_extend db db' \<Longrightarrow> log_holds H root log db \<Longrightarrow> log_holds H root log db'"
  unfolding log_holds_def batch_map_holds_def
  using clock_holds_nodes [of db db'] batch_stored_nodes [of db db']
  by (auto simp: nodes_extend_def)

lemma tables_ok_clock: "tables_ok H R q db \<Longrightarrow> clock_extends db db' \<Longrightarrow> clock_inv H (clock_texts R) (dots R) q db' \<Longrightarrow> tables_ok H R q db'"
  by (auto simp: tables_ok_def clock_extends_def batch_inv_def batch_table_ok_def clock_inv_def quiet_def)

lemma tables_ok_batch: "tables_ok H R q db \<Longrightarrow> batch_extends db db' \<Longrightarrow> batch_inv H (batch_texts R) (bindings R) q db' \<Longrightarrow> tables_ok H R q db'"
  by (auto simp: tables_ok_def batch_extends_def batch_inv_def clock_table_ok_def clock_inv_def quiet_def)

lemma tables_ok_faults: "tables_ok H R q db \<Longrightarrow> faults_only db db' \<Longrightarrow> quiet q db' \<Longrightarrow> tables_ok H R q db'"
  by (auto simp: tables_ok_def batch_inv_def clock_table_ok_def batch_table_ok_def clock_inv_def faults_only_tables)

text \<open>What a read of the tables keeps.\<close>

definition still :: "hash \<Rightarrow> room \<Rightarrow> bool \<Rightarrow> 'm frontier_db \<Rightarrow> 'm frontier_db \<Rightarrow> bool" where
  "still H R q db db' \<longleftrightarrow> tables_ok H R q db' \<and> nodes_extend db db'"

lemma still_trans: "still H R q a b \<Longrightarrow> still H R q b c \<Longrightarrow> still H R q a c"
  using nodes_extend_trans by (auto simp: still_def)

lemma stillI:
  assumes "tables_ok H R q db"
  shows "clock_inv H (clock_texts R) (dots R) q db' \<Longrightarrow> clock_extends db db' \<Longrightarrow> still H R q db db'"
    "batch_inv H (batch_texts R) (bindings R) q db' \<Longrightarrow> batch_extends db db' \<Longrightarrow> still H R q db db'"
    "quiet q db' \<Longrightarrow> faults_only db db' \<Longrightarrow> still H R q db db'"
  unfolding still_def
  by (intro conjI tables_ok_clock [OF assms] nodes_extend_intros(1); assumption)
    (intro conjI tables_ok_batch [OF assms] nodes_extend_intros(2) tables_ok_faults [OF assms] nodes_extend_intros(3); assumption)+

lemma tables_okD:
  assumes "tables_ok H R q db"
  shows "clock_inv H (clock_texts R) (dots R) q db" "batch_inv H (batch_texts R) (bindings R) q db" "quiet q db"
    "shallow (authenticated_map_priority_order H) (fst ` dots R) 128"
    "shallow (authenticated_map_priority_order H) (fst ` bindings R) 256"
  using assms by (auto simp: tables_ok_def room_ok_def clock_inv_def)

section \<open>Authenticated reads\<close>

lemma log_entry_map: "map_of (map (entry_binding H) log) i = map_option (\<lambda>e. snd (entry_binding H e)) (log_entry log i)"
  by (induction log) (auto simp: log_entry_def entry_binding_def)

lemma log_entry_row: "find (\<lambda>row. sb_batch_id row = i) (map (entry_row H) log) = map_option (entry_row H) (log_entry log i)"
  by (induction log) (auto simp: log_entry_def entry_row_def event_row_def entry_id_def)

lemma log_entry_in: "log_entry log i = Some e \<Longrightarrow> e \<in> set log \<and> entry_id e = i"
  by (auto simp: log_entry_def find_Some_iff)

lemma log_entry_None: "log_entry log i = None \<longleftrightarrow> i \<notin> entry_id ` set log"
  by (auto simp: log_entry_def find_None_iff)

lemma batch_map_value_log:
  assumes "tables_ok H R q db" "log_holds H root log db" "log_fits H R log"
  shows "runs (batch_map_value H root i) db
    (\<lambda>x db'. x = map_option (\<lambda>e. snd (entry_binding H e)) (log_entry log i) \<and> still H R q db db') (sql_fault q)"
proof -
  obtain t where t: "batch_link_of H t = root_link (pr_batch_map_root_key root) (pr_batch_map_root_digest root)" "map_ok H t"
      "batch_stored H db t" "tmap t = map_of (map (entry_binding H) log)"
    using assms(2) by (auto simp: log_holds_def batch_map_holds_def)
  show ?thesis
  proof (cases "pr_batch_map_root_key root")
    case None
    then have "t = Tip" using t(1) by (simp add: root_link_def)
    then have none: "map_of (map (entry_binding H) log) x = None" for x using fun_cong [OF t(4), of x] by simp
    then have "log = []" by (cases log) (auto split: if_splits, metis option.discI)
    then have "unat (pr_acceptance_sequence root) = 0" using assms(2) by (simp add: log_holds_def)
    then show ?thesis
      using None \<open>log = []\<close> assms(1) by (simp add: batch_map_value_def unat_eq_0 log_entry_def still_def)
  next
    case (Some key)
    have link: "Some \<lparr>link_key = key, link_digest = pr_batch_map_root_digest root\<rparr> = batch_link_of H t"
      using t(1) Some by (simp add: root_link_def)
    have "tkeys t \<subseteq> fst ` bindings R"
      using assms(3) unfolding dom_tmap [OF t(2), symmetric] t(4) dom_map_of_conv_image_fst log_fits_def by auto
    then have "theight t \<le> 256"
      by (rule shallow_height [OF tables_okD(5) [OF assms(1)] t(2)])
    then show ?thesis
      unfolding batch_map_value_def Some option.case link log_entry_map [symmetric] t(4) [symmetric]
      by (rule runs_mono [OF batch_lookup_tree [OF tables_okD(2) [OF assms(1)] t(3)]])
        (auto intro: stillI(2) [OF assms(1)])
  qed
qed

lemma load_batch_log:
  assumes "tables_ok H R q db" "log_holds H root log db"
  shows "runs (load_batch i) db (\<lambda>x db'. x = map_option (entry_row H) (log_entry log i) \<and> still H R q db db') (sql_fault q)"
  unfolding load_batch_def
  by (rule runs_mono [OF query_runs [OF tables_okD(3) [OF assms(1)]]])
    (use assms(2) in \<open>auto simp: faults_only_tables log_holds_def log_entry_row intro: stillI(3) [OF assms(1)]\<close>)

lemma uint_positive: "0 < w \<Longrightarrow> 0 < uint w"
  by (simp add: word_less_def)

lemma validate_entry:
  assumes "accepted_log H log" "e \<in> set log"
  shows "validate_stored_batch_physical H (entry_row H e) = Inr ()"
proof -
  obtain b lk where e: "e = (b, lk)" by (cases e)
  note row = accepted_rows [OF assms(1), of b lk]
  have "0 < pb_causal_counter b" "0 < pb_acceptance_sequence b" "pb_semantic_effect_digest b = H (pb_semantic_effect b)"
    using row assms(2) e by (auto simp: word_less_nat_alt)
  then show ?thesis
    using uint_positive [of "pb_causal_counter b"] uint_positive [of "pb_acceptance_sequence b"]
    by (simp add: validate_stored_batch_physical_def entry_row_def event_row_def e root_digest_def)
qed

lemma stored_clock_root_entry [simp]: "stored_clock_root (entry_row H e) = Inr (snd e)"
  by (simp add: stored_clock_root_def entry_row_def event_row_def)

lemma clock_lookup_log:
  assumes "tables_ok H R q db" "clock_holds H db root m" "dom m \<subseteq> fst ` dots R"
  shows "runs (causal_clock_lookup H root peer) db (\<lambda>x db'. x = m peer \<and> still H R q db db') (sql_fault q)"
proof -
  have "shallow (authenticated_map_priority_order H) (fst ` dots R) 256"
    by (rule shallow_weaken [OF tables_okD(4) [OF assms(1)]]) simp
  from clock_lookup_tree [OF tables_okD(1) [OF assms(1)] assms(2) this assms(3)]
  show ?thesis by (rule runs_mono) (auto intro: stillI(1) [OF assms(1)])
qed

lemma dot_fits: "log_fits H R log \<Longrightarrow> (p, c) \<in> entry_dot ` set log \<Longrightarrow> (p, c) \<in> dots R"
  by (auto simp: log_fits_def)

lemma log_clock_graph: "log_fits H R log \<Longrightarrow> Map.graph (log_clocks log i) \<subseteq> dots R"
  unfolding Map.graph_def by clarify (rule dot_fits, assumption, rule log_clocks_dots)

lemma graph_dom: "Map.graph m \<subseteq> D \<Longrightarrow> dom m \<subseteq> fst ` D"
  unfolding Map.graph_def by force

lemmas log_clock_dom = graph_dom [OF log_clock_graph]

lemma authenticated_log:
  assumes ok: "tables_ok H R q db" and log: "log_holds H root log db" "log_fits H R log"
    and expected: "\<And>e v. log_entry log i = Some e \<Longrightarrow> expected = Some v \<Longrightarrow> v = snd (entry_binding H e)"
  shows "runs (authenticated_batch_record H root i expected) db
    (\<lambda>x db'. x = map_option (entry_row H) (log_entry log i) \<and> still H R q db db') (sql_fault q)"
  unfolding authenticated_batch_record_def
proof (rule runs_bind [OF batch_map_value_log [OF ok log]], clarify)
  fix db1
  assume db1: "still H R q db db1"
  show "runs (case map_option (\<lambda>e. snd (entry_binding H e)) (log_entry log i) of
       None \<Rightarrow> st_return None
     | Some value \<Rightarrow>
         if (case expected of None \<Rightarrow> False | Some expected \<Rightarrow> expected \<noteq> value)
         then st_lift (Inl (FrontierCorrupt (''accepted batch '' @ hex_id i
           @ '' differs from its authenticated causal record'')))
         else
           st_bind (load_batch i) (\<lambda>row.
           st_bind (st_lift (ok_or (FrontierCorrupt (''authenticated accepted batch '' @ hex_id i
             @ '' is missing its exact record'')) row)) (\<lambda>record.
           st_bind (st_lift (validate_stored_batch_physical H record)) (\<lambda>_.
           st_bind (st_lift (decode_id (sb_causal_peer_id record) ''causal peer ID'')) (\<lambda>peer.
           st_bind (st_lift (stored_clock_root record)) (\<lambda>clock_root.
           st_bind (causal_clock_lookup H (Some clock_root) peer) (\<lambda>counter.
           if counter \<noteq> Some (word_of_int (sb_causal_counter record))
           then st_lift (Inl (FrontierCorrupt (''accepted batch '' @ hex_id i
             @ '' causal dot is absent from its authenticated clock'')))
           else st_return (Some record)))))))) db1
      (\<lambda>x db'. x = map_option (entry_row H) (log_entry log i) \<and> still H R q db db') (sql_fault q)"
  proof (cases "log_entry log i")
    case None
    then show ?thesis using db1 by simp
  next
    case (Some e)
    then have e: "e \<in> set log" "entry_id e = i" using log_entry_in by auto
    have "accepted_log H log" using log(1) by (simp add: log_holds_def)
    note valid = validate_entry [OF this e(1)]
    have peer: "decode_id (sb_causal_peer_id (entry_row H e)) what = Inr (fst (entry_dot e))" for what
      by (simp add: entry_row_def event_row_def entry_dot_def)
    have counter: "word_of_int (sb_causal_counter (entry_row H e)) = snd (entry_dot e)"
      by (simp add: entry_row_def event_row_def entry_dot_def)
    have dot: "log_clocks log i (fst (entry_dot e)) = Some (snd (entry_dot e))"
      using accepted_rows [of H log "fst e" "snd e"] log(1) e by (auto simp: log_holds_def entry_id_def entry_dot_def)
    have matches: "\<not> (case expected of None \<Rightarrow> False | Some v \<Rightarrow> v \<noteq> snd (entry_binding H e))"
      using expected [OF Some] by (auto split: option.split)
    note db1_log = log_holds_nodes [of db db1, OF _ log(1)]
    show ?thesis
      unfolding Some option.map option.case if_not_P [OF matches]
    proof (rule runs_bind [OF load_batch_log [of H R q db1 root log]])
      fix row db2
      assume "row = map_option (entry_row H) (log_entry log i) \<and> still H R q db1 db2"
      then have row: "row = Some (entry_row H e)" and db2: "still H R q db db2"
        using Some still_trans [OF db1] by simp_all
      have holds: "clock_holds H db2 (Some (snd e)) (log_clocks log i)"
        using log_holds_nodes [of db db2, OF _ log(1)] db2 e by (auto simp: still_def log_holds_def)
      show "runs (st_bind (st_lift (ok_or (FrontierCorrupt (''authenticated accepted batch '' @ hex_id i
             @ '' is missing its exact record'')) row)) (\<lambda>record.
           st_bind (st_lift (validate_stored_batch_physical H record)) (\<lambda>_.
           st_bind (st_lift (decode_id (sb_causal_peer_id record) ''causal peer ID'')) (\<lambda>peer.
           st_bind (st_lift (stored_clock_root record)) (\<lambda>clock_root.
           st_bind (causal_clock_lookup H (Some clock_root) peer) (\<lambda>counter.
           if counter \<noteq> Some (word_of_int (sb_causal_counter record))
           then st_lift (Inl (FrontierCorrupt (''accepted batch '' @ hex_id i
             @ '' causal dot is absent from its authenticated clock'')))
           else st_return (Some record))))))) db2
        (\<lambda>x db'. x = Some (entry_row H e) \<and> still H R q db db') (sql_fault q)"
        unfolding row ok_or_simps st_bind_Inr valid peer stored_clock_root_entry counter
        by (rule runs_bind [OF clock_lookup_log [OF _ holds]])
          (use db2 log_clock_dom [OF log(2)] dot still_trans [OF db2] in \<open>auto simp: still_def [of _ _ _ db db2]\<close>)
    qed (use db1 db1_log in \<open>auto simp: still_def\<close>)
  qed
qed

section \<open>Deriving the clock of a new batch\<close>

definition missing_head :: "entry list \<Rightarrow> uuid list \<Rightarrow> frontier_error \<Rightarrow> bool" where
  "missing_head log heads e \<longleftrightarrow> (\<exists>h \<in> set heads. h \<notin> entry_id ` set log \<and> e = MissingDependency h)"

lemma join_graph: "Map.graph m \<subseteq> D \<Longrightarrow> Map.graph n \<subseteq> D \<Longrightarrow> Map.graph (clock_join m n) \<subseteq> D"
  by (auto simp: Map.graph_def dest!: clock_join_Some)

lemma union_log:
  assumes "tables_ok H R q db" "clock_holds H db x m" "clock_holds H db y n" "Map.graph m \<subseteq> dots R" "Map.graph n \<subseteq> dots R"
  shows "runs (union_clocks H x y 0) db (\<lambda>z db'. clock_holds H db' z (clock_join m n) \<and> still H R q db db') (sql_fault q)"
  by (rule runs_mono [OF union_holds [OF tables_okD(1) [OF assms(1)] assms(2-5) tables_okD(4) [OF assms(1)] graph_dom [OF assms(4)] graph_dom [OF assms(5)]]])
    (auto simp: joined_def intro: stillI(1) [OF assms(1)])

lemma merge_heads_log:
  "tables_ok H R q db \<Longrightarrow> log_holds H root log db \<Longrightarrow> log_fits H R log \<Longrightarrow> clock_holds H db x m \<Longrightarrow> Map.graph m \<subseteq> dots R \<Longrightarrow>
   runs (merge_heads H root heads x) db
     (\<lambda>y db'. set heads \<subseteq> entry_id ` set log
        \<and> clock_holds H db' y (foldl (\<lambda>m h. clock_join m (log_clocks log h)) m heads) \<and> still H R q db db')
     (\<lambda>e db'. sql_fault q e db' \<or> missing_head log heads e)"
proof (induction heads arbitrary: x m db)
  case Nil
  then show ?case by (simp add: still_def)
next
  case (Cons h heads)
  let ?E = "\<lambda>e db'. sql_fault q e db' \<or> missing_head log (h # heads) e"
  have auth: "runs (authenticated_batch_record H root h None) db
      (\<lambda>x db'. x = map_option (entry_row H) (log_entry log h) \<and> still H R q db db') ?E"
    by (rule runs_mono [OF authenticated_log [OF Cons.prems(1,2,3)]]) auto
  show ?case
    unfolding merge_heads.simps
  proof (rule runs_bind [OF auth], clarify)
    fix db1
    assume db1: "still H R q db db1"
    show "runs (st_bind (st_lift (ok_or (MissingDependency h) (map_option (entry_row H) (log_entry log h)))) (\<lambda>record.
        st_bind (st_lift (stored_clock_root record)) (\<lambda>link.
        st_bind (union_clocks H x (Some link) 0) (merge_heads H root heads)))) db1
      (\<lambda>y db'. set (h # heads) \<subseteq> entry_id ` set log
        \<and> clock_holds H db' y (foldl (\<lambda>m h. clock_join m (log_clocks log h)) m (h # heads)) \<and> still H R q db db') ?E"
    proof (cases "log_entry log h")
      case None
      note absent = iffD1 [OF log_entry_None None]
      show ?thesis
        unfolding None option.map ok_or_simps st_bind_Inl using absent by (auto simp: missing_head_def)
    next
      case (Some e)
      then have e: "e \<in> set log" "entry_id e = h" using log_entry_in by auto
      have ext: "nodes_extend db db1" "tables_ok H R q db1" using db1 by (auto simp: still_def)
      have log1: "log_holds H root log db1" using log_holds_nodes [OF ext(1) Cons.prems(2)] .
      then have e1: "clock_holds H db1 (Some (snd e)) (log_clocks log h)" using e by (auto simp: log_holds_def)
      have join: "runs (union_clocks H x (Some (snd e)) 0) db1
          (\<lambda>z db'. clock_holds H db' z (clock_join m (log_clocks log h)) \<and> still H R q db1 db') ?E"
        by (rule runs_mono [OF union_log [OF ext(2) clock_holds_nodes [OF ext(1) Cons.prems(4)] e1 Cons.prems(5) log_clock_graph [OF Cons.prems(3)]]])
          auto
      show ?thesis
        unfolding Some option.map ok_or_simps st_bind_Inr stored_clock_root_entry
      proof (rule runs_bind [OF join])
        fix z db2
        assume z: "clock_holds H db2 z (clock_join m (log_clocks log h)) \<and> still H R q db1 db2"
        then have db2: "still H R q db db2" "nodes_extend db db2" "tables_ok H R q db2"
          using still_trans [OF db1] by (auto simp: still_def)
        note IH = Cons.IH [OF db2(3) log_holds_nodes [OF db2(2) Cons.prems(2)] Cons.prems(3) conjunct1 [OF z]
            join_graph [OF Cons.prems(5) log_clock_graph [OF Cons.prems(3)]]]
        have "h \<in> entry_id ` set log" using e by blast
        then show "runs (merge_heads H root heads z) db2
          (\<lambda>y db'. set (h # heads) \<subseteq> entry_id ` set log
            \<and> clock_holds H db' y (foldl (\<lambda>m h. clock_join m (log_clocks log h)) m (h # heads)) \<and> still H R q db db') ?E"
          by (intro runs_mono [OF IH]) (auto simp: missing_head_def intro: still_trans [OF db2(1)])
      qed
    qed
  qed
qed

lemma heads_clock_graph: "log_fits H R log \<Longrightarrow> Map.graph (heads_clock (log_clocks log) heads) \<subseteq> dots R"
  unfolding Map.graph_def by clarify (rule dot_fits, assumption, rule heads_clock_dots)

lemma clock_small: "tables_ok H R q db \<Longrightarrow> Map.graph m \<subseteq> dots R \<Longrightarrow> unat (unwrap_counter (m p)) < 2 ^ 63"
  by (cases "m p") (auto simp: tables_ok_def clock_inv_def clock_space_def unwrap_counter_def Map.graph_def)

lemma derive_log:
  assumes ok: "tables_ok H R q db" and log: "log_holds H root log db" "log_fits H R log"
    and dot: "(pb_causal_peer_id b, pb_causal_counter b) \<in> dots R"
  shows "runs (derive_causal_clock_root H root b) db
    (\<lambda>lk db'. set (pb_causal_dependency_heads b) \<subseteq> entry_id ` set log
       \<and> unat (pb_causal_counter b) = next_counter log b
       \<and> clock_holds H db' (Some lk) (batch_clock (log_clocks log) b) \<and> still H R q db db')
    (\<lambda>e db'. sql_fault q e db' \<or> missing_head log (pb_causal_dependency_heads b) e
       \<or> (unat (pb_causal_counter b) \<noteq> next_counter log b \<and> (\<exists>m. e = FrontierInvalidInput m)))"
    (is "runs _ _ ?Q ?E")
proof -
  let ?m = "heads_clock (log_clocks log) (pb_causal_dependency_heads b)" and ?p = "pb_causal_peer_id b"
  have empty: "clock_holds H db None (\<lambda>_. None)"
    by (auto simp: clock_holds_def fun_eq_iff intro!: exI [of _ Tip])
  have merge: "runs (merge_heads H root (pb_causal_dependency_heads b) None) db
     (\<lambda>y db'. set (pb_causal_dependency_heads b) \<subseteq> entry_id ` set log \<and> clock_holds H db' y ?m \<and> still H R q db db') ?E"
    unfolding heads_clock_def
    by (rule runs_mono [OF merge_heads_log [OF ok log empty]]) (auto simp: Map.graph_def)
  show ?thesis
    unfolding derive_causal_clock_root_def
  proof (rule runs_bind [OF merge])
    fix y db1
    assume y: "set (pb_causal_dependency_heads b) \<subseteq> entry_id ` set log \<and> clock_holds H db1 y ?m \<and> still H R q db db1"
    then have db1: "tables_ok H R q db1" "nodes_extend db db1" by (auto simp: still_def)
    note graph = heads_clock_graph [OF log(2), of "pb_causal_dependency_heads b"]
    have small: "unat (unwrap_counter (?m ?p)) < 2 ^ 63" by (rule clock_small [OF ok graph])
    have lookup: "runs (causal_clock_lookup H y ?p) db1 (\<lambda>x db'. x = ?m ?p \<and> still H R q db1 db') ?E"
      by (rule runs_mono [OF clock_lookup_log [OF db1(1) _ graph_dom [OF graph]]]) (use y in auto)
    show "runs (st_bind (causal_clock_lookup H y ?p) (\<lambda>counter.
       st_bind (st_lift (ok_or (FrontierCorrupt ''causal counter overflowed'') (checked_add64 (unwrap_counter counter) 1))) (\<lambda>expected.
       if pb_causal_counter b \<noteq> expected
       then st_lift (Inl (FrontierInvalidInput (''accepted batch '' @ hex_id (pb_batch_id b) @ '' causal counter ''
         @ show_nat (unat (pb_causal_counter b)) @ '' does not follow '' @ show_nat (unat expected - 1))))
       else upsert_causal_clock H y ?p (pb_causal_counter b) 0))) db1 ?Q ?E"
    proof (rule runs_bind [OF lookup], clarify)
      fix db2
      assume "still H R q db1 db2"
      then have db2: "still H R q db db2" "tables_ok H R q db2" "nodes_extend db db2" "nodes_extend db1 db2"
        using y still_trans [of H R q db db1 db2] by (auto simp: still_def)
      let ?w = "unwrap_counter (?m ?p)"
      have add: "checked_add64 ?w 1 = Some (?w + 1)" and plus: "unat (?w + 1) = unat ?w + 1"
        using small by (auto simp: checked_add64_def unat_word_ariths)
      show "runs (st_bind (st_lift (ok_or (FrontierCorrupt ''causal counter overflowed'') (checked_add64 ?w 1))) (\<lambda>expected.
       if pb_causal_counter b \<noteq> expected
       then st_lift (Inl (FrontierInvalidInput (''accepted batch '' @ hex_id (pb_batch_id b) @ '' causal counter ''
         @ show_nat (unat (pb_causal_counter b)) @ '' does not follow '' @ show_nat (unat expected - 1))))
       else upsert_causal_clock H y ?p (pb_causal_counter b) 0)) db2 ?Q ?E"
      proof (cases "pb_causal_counter b = ?w + 1")
        case False
        then have "unat (pb_causal_counter b) \<noteq> next_counter log b"
          using plus by (auto simp: next_counter_def word_unat_eq_iff)
        then show ?thesis
          unfolding add ok_or_simps st_bind_Inr if_P [OF False] runs_lift by blast
      next
        case True
        have same: "\<not> pb_causal_counter b \<noteq> ?w + 1" using True by simp
        have next_c: "unat (pb_causal_counter b) = next_counter log b" using plus by (simp add: True next_counter_def)
        have v: "pb_causal_counter b = (case ?m ?p of None \<Rightarrow> pb_causal_counter b | Some w \<Rightarrow> max w (pb_causal_counter b))"
          using plus True by (auto simp: unwrap_counter_def max_def word_le_nat_alt split: option.split)
        have up: "runs (upsert_causal_clock H y ?p (pb_causal_counter b) 0) db2
            (\<lambda>z db'. clock_holds H db' (Some z) (?m(?p \<mapsto> pb_causal_counter b)) \<and> clock_inv H (clock_texts R) (dots R) q db' \<and> clock_extends db2 db')
            (sql_fault q)"
          using y by (intro upsert_holds [OF tables_okD(1) [OF db2(2)] clock_holds_nodes [OF db2(4)] graph tables_okD(4) [OF ok] graph_dom [OF graph] v dot]) simp
        show ?thesis
          unfolding add ok_or_simps st_bind_Inr if_not_P [OF same]
          by (rule runs_mono [OF up])
            (use next_c y in \<open>auto simp: batch_clock_def intro: still_trans [OF db2(1)] stillI(1) [OF db2(2)]\<close>)
      qed
    qed
  qed
qed

end
