(* ===== verification/Frontier_Apply.thy ===== *)
theory Frontier_Apply
  imports Frontier_Documents Frontier_Log
begin

text \<open>
  Applying a batch: \<open>preflight\<close>, \<open>apply\<close> and its candidate variants, over the whole database, with the
  transaction they run in.  The state is the one the connection sees; \<open>BEGIN IMMEDIATE\<close> and \<open>COMMIT\<close> are statements,
  and a transaction that is dropped restores the tables it began with.  A process abort is \<^const>\<open>None\<close>.
  The body of the projection update (\<open>apply_change_inner\<close> of \<open>sqlite_materialization.rs\<close>) is the parameter
  \<open>project\<close>: it sees and changes the materialization tables only.
\<close>

section \<open>The materialization tables\<close>

datatype coverage_validation = FullScan | FreshInductive u64

record ('m, 'c, 'r, 'i) materializer =
  project :: "'c materialization_change \<Rightarrow> u64 \<Rightarrow> digest \<Rightarrow> digest \<Rightarrow> 'r option \<Rightarrow> coverage_validation \<Rightarrow>
    'm materialized \<Rightarrow> (materialization_error + 'i) \<times> 'm materialized"
  no_changes :: 'i

text \<open>A query of that module: a SQLite error is its \<open>MaterializationError::Sqlite\<close>.\<close>

fun materialization_sqlite :: "frontier_error \<Rightarrow> frontier_error" where
  "materialization_sqlite (FrontierSqlite m) = FrontierMaterialization (MatSqlite m)"
| "materialization_sqlite e = e"

definition materialization_op :: "('m, 'a) db_op \<Rightarrow> ('m, 'a) db_op" where
  "materialization_op m db = (case m db of (r, db') \<Rightarrow> (map_err materialization_sqlite r, db'))"

definition ensure_stamp :: "u64 \<Rightarrow> digest \<Rightarrow> ('m, unit) db_op" where
  "ensure_stamp sequence frontier_digest =
     st_bind (materialization_op (query_row (\<lambda>db. mat_stamp (db_materialization db)))) (\<lambda>(found_sequence, found_digest).
     if \<not> (0 \<le> found_sequence \<and> word_of_int found_sequence = sequence) \<or> found_digest \<noteq> array_bytes frontier_digest
     then st_lift (Inl (FrontierMaterialization
       (MatStale (if 0 \<le> found_sequence then word_of_int found_sequence else 0) sequence)))
     else st_return ())"

definition recorded_digest :: "u64 \<Rightarrow> ('m, digest option) db_op" where
  "recorded_digest sequence =
     st_bind (st_lift (i64_of_u64 (FrontierMaterialization (MatCorrupt ''acceptance sequence exceeds SQLite'')) sequence)) (\<lambda>s.
     st_bind (materialization_op (query (\<lambda>db. mat_batches (db_materialization db) s))) (\<lambda>found.
     case found of
       None \<Rightarrow> st_return None
     | Some bs \<Rightarrow>
         if length bs = 32 then st_return (Some (mk_array bs))
         else st_lift (Inl (FrontierMaterialization (MatCorrupt ''invalid digest length'')))))"

definition apply_projection :: "('m, 'c, 'r, 'i) materializer \<Rightarrow> 'c materialization_change \<Rightarrow> u64 \<Rightarrow> digest \<Rightarrow> digest \<Rightarrow>
    'r option \<Rightarrow> coverage_validation \<Rightarrow> ('m, 'i) db_op" where
  "apply_projection M change sequence input_digest post reference coverage db =
     (case project M change sequence input_digest post reference coverage (db_materialization db) of
        (Inl e, mat) \<Rightarrow> (Inl (FrontierMaterialization e), db\<lparr>db_materialization := mat\<rparr>)
      | (Inr stats, mat) \<Rightarrow> (Inr stats, db\<lparr>db_materialization := mat\<rparr>))"

text \<open>\<open>apply_change\<close> and \<open>apply_change_fresh_bootstrap\<close>, and their open-candidate variants.\<close>

definition require_transaction :: "('m, unit) db_op" where
  "require_transaction db =
     (if db_autocommit db
      then (Inl (FrontierMaterialization (MatInvalidInput ''candidate materialization requires an active transaction'')), db)
      else (Inr (), db))"

datatype open_apply_transaction = Ordinary | Candidate

definition apply_materialization :: "('m, 'c, 'r, 'i) materializer \<Rightarrow> open_apply_transaction \<Rightarrow> u64 option \<Rightarrow>
    'c materialization_change \<Rightarrow> u64 \<Rightarrow> digest \<Rightarrow> digest \<Rightarrow> 'r option \<Rightarrow> ('m, 'i) db_op" where
  "apply_materialization M transaction prior_count change sequence input_digest post reference =
     (let coverage = (case prior_count of None \<Rightarrow> FullScan | Some n \<Rightarrow> FreshInductive n) in
      case transaction of
        Ordinary \<Rightarrow> apply_projection M change sequence input_digest post reference coverage
      | Candidate \<Rightarrow>
          st_bind require_transaction (\<lambda>_. apply_projection M change sequence input_digest post reference coverage))"

section \<open>Checks before an apply\<close>

datatype apply_disposition = Applied | DuplicateApply
datatype preflight_disposition = NewBatch | DuplicateBatch

record 'i apply_result =
  ar_disposition :: apply_disposition
  ar_materialization :: 'i

definition frontier_matches :: "hash \<Rightarrow> physical_frontier_root \<Rightarrow> stored_frontier \<Rightarrow> bool" where
  "frontier_matches H root stored \<longleftrightarrow>
     sf_canonical_bytes stored = pr_canonical_bytes root \<and> sf_digest stored = root_digest H root
     \<and> sf_applied_batch_count stored = pr_acceptance_sequence root"

text \<open>
  The part of \<open>preflight\<close> and \<open>apply_with_transaction_policy\<close> that is the same code: a batch that is already stored
  has to be authenticated and equal in every field to be a duplicate.
\<close>

definition check_stored_duplicate ::
    "hash \<Rightarrow> physical_frontier_root \<Rightarrow> physical_accepted_batch \<Rightarrow> stored_batch \<Rightarrow> ('m, unit) db_op" where
  "check_stored_duplicate H current_root batch existing =
     st_bind (st_lift (stored_clock_root existing)) (\<lambda>clock_root.
     st_bind (authenticated_batch_record H current_root (pb_batch_id batch) None) (\<lambda>authenticated.
     if authenticated = None
     then st_lift (Inl (FrontierCorrupt (''stored batch '' @ hex_id (pb_batch_id batch) @ '' is absent from the authenticated accepted map'')))
     else
       st_bind (st_lift (stored_matches_request H existing batch)) (\<lambda>same.
       if same then
         st_bind (batch_map_value H current_root (pb_batch_id batch)) (\<lambda>value.
         if value \<noteq> Some (accepted_causal_record_digest H batch clock_root)
         then st_lift (Inl (FrontierCorrupt (''accepted batch '' @ hex_id (pb_batch_id batch) @ '' differs from its authenticated causal record'')))
         else if pb_acceptance_sequence batch \<le> pr_acceptance_sequence current_root
              \<and> pr_state_digest current_root \<noteq> pr_state_digest (pb_prior_frontier_root batch)
         then st_return ()
         else st_lift (Inl FrontierRegression))
       else st_lift (Inl (BatchCollision (pb_batch_id batch))))))"

fun require_dependencies :: "hash \<Rightarrow> physical_frontier_root \<Rightarrow> uuid list \<Rightarrow> ('m, unit) db_op" where
  "require_dependencies H root [] = st_return ()"
| "require_dependencies H root (dependency # rest) =
     st_bind (authenticated_batch_record H root dependency None) (\<lambda>found.
     if found = None then st_lift (Inl (MissingDependency dependency)) else require_dependencies H root rest)"

definition check_new_batch ::
    "hash \<Rightarrow> physical_frontier_root \<Rightarrow> ('c, 'r) physical_apply_request \<Rightarrow> ('m, unit) db_op" where
  "check_new_batch H current_root request =
     (let batch = rq_batch request in
      st_bind (require_dependencies H current_root (pb_causal_dependency_heads batch)) (\<lambda>_.
      st_bind (st_lift (ok_or (FrontierCorrupt ''applied batch sequence overflowed'')
        (checked_add64 (pr_acceptance_sequence current_root) 1))) (\<lambda>expected.
      if pb_acceptance_sequence batch \<noteq> expected
      then st_lift (Inl (AcceptanceOrder expected (pb_acceptance_sequence batch)))
      else if current_root \<noteq> pb_prior_frontier_root batch
              \<or> pr_acceptance_sequence (pb_post_frontier_root batch) \<noteq> pb_acceptance_sequence batch
      then st_lift (Inl FrontierRegression)
      else if rq_materialization request \<noteq> None
      then ensure_stamp (pr_acceptance_sequence current_root) (root_digest H current_root)
      else st_return ())))"

definition read_matching_frontier :: "hash \<Rightarrow> physical_frontier_root \<Rightarrow> ('m, stored_frontier) db_op" where
  "read_matching_frontier H current_root =
     st_bind (read_frontier H) (\<lambda>stored.
     if \<not> frontier_matches H current_root stored
     then st_lift (Inl (FrontierCorrupt ''physical frontier row differs from the validated current root''))
     else st_return stored)"

definition preflight ::
    "hash \<Rightarrow> physical_frontier_root \<Rightarrow> ('c, 'r) physical_apply_request \<Rightarrow> ('m, preflight_disposition) db_op" where
  "preflight H current_root request =
     st_bind (st_lift (validate_request_shape H request)) (\<lambda>_.
     st_bind (read_matching_frontier H current_root) (\<lambda>_.
     st_bind (load_batch (pb_batch_id (rq_batch request))) (\<lambda>existing.
     case existing of
       Some row \<Rightarrow>
         st_bind (check_stored_duplicate H current_root (rq_batch request) row) (\<lambda>_. st_return DuplicateBatch)
     | None \<Rightarrow>
         st_bind (check_new_batch H current_root request) (\<lambda>_. st_return NewBatch))))"

text \<open>
  The same in \<open>apply_with_transaction_policy\<close>, where a duplicate also has to have been materialized from the
  same input.
\<close>

datatype apply_plan = AlreadyApplied | Proceed stored_frontier

definition check_materialized_duplicate :: "hash \<Rightarrow> ('c, 'r) physical_apply_request \<Rightarrow> ('m, unit) db_op" where
  "check_materialized_duplicate H request =
     (let batch = rq_batch request in
      case rq_materialization_input_digest request of
        None \<Rightarrow> st_return ()
      | Some input_digest \<Rightarrow>
          st_bind (ensure_stamp (pb_acceptance_sequence batch) (root_digest H (pb_post_frontier_root batch))) (\<lambda>_.
          st_bind (recorded_digest (pb_acceptance_sequence batch)) (\<lambda>recorded.
          if recorded \<noteq> Some input_digest then st_lift (Inl (MaterializationCollision (pb_batch_id batch)))
          else st_return ())))"

definition apply_checks ::
    "hash \<Rightarrow> physical_frontier_root \<Rightarrow> ('c, 'r) physical_apply_request \<Rightarrow> ('m, apply_plan) db_op" where
  "apply_checks H current_root request =
     st_bind (st_lift (validate_request_shape H request)) (\<lambda>_.
     st_bind (read_matching_frontier H current_root) (\<lambda>stored.
     st_bind (load_batch (pb_batch_id (rq_batch request))) (\<lambda>existing.
     case existing of
       Some row \<Rightarrow>
         st_bind (check_stored_duplicate H current_root (rq_batch request) row) (\<lambda>_.
         st_bind (check_materialized_duplicate H request) (\<lambda>_. st_return AlreadyApplied))
     | None \<Rightarrow>
         st_bind (check_new_batch H current_root request) (\<lambda>_. st_return (Proceed stored)))))"

section \<open>Applying inside the transaction\<close>

definition accept_batch ::
    "hash \<Rightarrow> physical_frontier_root \<Rightarrow> physical_accepted_batch \<Rightarrow> stored_frontier \<Rightarrow> ('m, map_link) db_op" where
  "accept_batch H current_root batch stored =
     st_bind (read_frontier H) (\<lambda>transaction_frontier.
     if transaction_frontier \<noteq> stored
     then st_lift (Inl (FrontierCorrupt ''physical frontier changed while beginning apply''))
     else
       st_bind (derive_causal_clock_root H current_root batch) (\<lambda>clock_root.
       st_bind (upsert_batch_map H (root_link (pr_batch_map_root_key current_root) (pr_batch_map_root_digest current_root))
         (pb_batch_id batch) (accepted_causal_record_digest H batch clock_root) 0) (\<lambda>post_batch_root.
       if pr_batch_map_root_key (pb_post_frontier_root batch) \<noteq> Some (link_key post_batch_root)
          \<or> pr_batch_map_root_digest (pb_post_frontier_root batch) \<noteq> link_digest post_batch_root
       then st_lift (Inl FrontierRegression)
       else
         st_bind (insert_event H batch clock_root) (\<lambda>_. st_return clock_root))))"

text \<open>The loop over the affected documents, with the saturating count of new ones.\<close>

fun upsert_documents_loop ::
    "hash \<Rightarrow> physical_frontier_document list \<Rightarrow> map_link option \<Rightarrow> u64 \<Rightarrow> ('m, map_link option \<times> u64) db_op" where
  "upsert_documents_loop H [] root new_documents = st_return (root, new_documents)"
| "upsert_documents_loop H (document # rest) root new_documents =
     st_bind (upsert_frontier_map H root document 0) (\<lambda>(link, inserted).
     upsert_documents_loop H rest (Some link) (saturating_add64 new_documents (if inserted then 1 else 0)))"

definition apply_documents :: "hash \<Rightarrow> physical_frontier_root \<Rightarrow> physical_accepted_batch \<Rightarrow> ('m, unit) db_op" where
  "apply_documents H current_root batch =
     st_bind (upsert_documents_loop H (pb_affected_documents batch)
       (root_link (pr_document_map_root_key current_root) (pr_document_map_root_digest current_root)) 0)
       (\<lambda>(document_root, new_documents).
     let (key, digest) = (case document_root of
           None \<Rightarrow> (None, pr_document_map_root_digest current_root)
         | Some link \<Rightarrow> (Some (link_key link), link_digest link));
         post = pb_post_frontier_root batch
     in if pr_document_count post \<noteq> saturating_add64 (pr_document_count current_root) new_documents
           \<or> pr_document_map_root_key post \<noteq> key \<or> pr_document_map_root_digest post \<noteq> digest
        then st_lift (Inl FrontierRegression) else st_return ())"

definition update_frontier :: "hash \<Rightarrow> physical_accepted_batch \<Rightarrow> ('m, unit) db_op" where
  "update_frontier H batch =
     st_bind (st_lift (i64_of_u64 (FrontierCorrupt ''applied batch sequence exceeds SQLite'') (pb_acceptance_sequence batch))) (\<lambda>count.
     update_db (\<lambda>db. db\<lparr>db_frontier := map_option (\<lambda>_.
       \<lparr>frontier_root = pr_canonical_bytes (pb_post_frontier_root batch),
        frontier_root_digest = array_bytes (root_digest H (pb_post_frontier_root batch)),
        applied_batch_count = count\<rparr>) (db_frontier db)\<rparr>))"

definition finish_apply ::
    "hash \<Rightarrow> ('m, 'c, 'r, 'i) materializer \<Rightarrow> open_apply_transaction \<Rightarrow> physical_frontier_root \<Rightarrow>
     ('c, 'r) physical_apply_request \<Rightarrow> bool \<Rightarrow> ('m, 'i apply_result) db_op" where
  "finish_apply H M transaction current_root request apply_frontier_documents =
     (let batch = rq_batch request in
      st_bind (if apply_frontier_documents then apply_documents H current_root batch else st_return ()) (\<lambda>_.
      st_bind (case (rq_materialization request, rq_materialization_input_digest request) of
          (Some change, Some input_digest) \<Rightarrow>
            apply_materialization M transaction (rq_prior_reference_coverage_count request) change
              (pb_acceptance_sequence batch) input_digest (root_digest H (pb_post_frontier_root batch))
              (rq_authenticated_reference request)
        | _ \<Rightarrow> st_return (no_changes M)) (\<lambda>stats.
      if rq_fault request = ReturnAfterMaterialization then st_lift (Inl InjectedFailure)
      else
        st_bind (update_frontier H batch) (\<lambda>_.
        st_return \<lparr>ar_disposition = Applied, ar_materialization = stats\<rparr>))))"

definition apply_in_open_transaction ::
    "hash \<Rightarrow> ('m, 'c, 'r, 'i) materializer \<Rightarrow> open_apply_transaction \<Rightarrow> physical_frontier_root \<Rightarrow>
     ('c, 'r) physical_apply_request \<Rightarrow> stored_frontier \<Rightarrow> bool \<Rightarrow> 'm frontier_db \<Rightarrow>
     ((frontier_error + 'i apply_result) \<times> 'm frontier_db) option" where
  "apply_in_open_transaction H M transaction current_root request stored apply_frontier_documents db =
     (case accept_batch H current_root (rq_batch request) stored db of
        (Inl e, db') \<Rightarrow> Some (Inl e, db')
      | (Inr _, db') \<Rightarrow>
          (case rq_fault request of
             ReturnAfterInsert \<Rightarrow> Some (Inl InjectedFailure, db')
           | AbortAfterInsert \<Rightarrow> None
           | _ \<Rightarrow> Some (finish_apply H M transaction current_root request apply_frontier_documents db')))"

section \<open>Transactions\<close>

text \<open>Dropping a transaction: the tables it began with, and autocommit again.\<close>

definition roll_back :: "'m frontier_db \<Rightarrow> 'm frontier_db \<Rightarrow> 'm frontier_db" where
  "roll_back begun db = begun\<lparr>db_faults := db_faults db, db_autocommit := True\<rparr>"

definition apply_with_transaction_policy ::
    "hash \<Rightarrow> ('m, 'c, 'r, 'i) materializer \<Rightarrow> physical_frontier_root \<Rightarrow> ('c, 'r) physical_apply_request \<Rightarrow> bool \<Rightarrow> bool \<Rightarrow>
     'm frontier_db \<Rightarrow> ((frontier_error + 'i apply_result) \<times> 'm frontier_db) option" where
  "apply_with_transaction_policy H M current_root request candidate_build apply_frontier_documents db =
     (case apply_checks H current_root request db of
        (Inl e, db') \<Rightarrow> Some (Inl e, db')
      | (Inr AlreadyApplied, db') \<Rightarrow>
          Some (Inr \<lparr>ar_disposition = DuplicateApply, ar_materialization = no_changes M\<rparr>, db')
      | (Inr (Proceed stored), db') \<Rightarrow>
          if candidate_build then
            if db_autocommit db'
            then Some (Inl (FrontierInvalidInput ''candidate apply requires an active candidate-build transaction''), db')
            else apply_in_open_transaction H M Candidate current_root request stored apply_frontier_documents db'
          else if \<not> db_autocommit db'
          then Some (Inl (FrontierInvalidInput ''ordinary apply cannot join a caller-owned transaction''), db')
          else
            (case statement db' of
               (Inl e, begun) \<Rightarrow> Some (Inl e, begun)
             | (Inr _, begun) \<Rightarrow>
                 (case apply_in_open_transaction H M Ordinary current_root request stored True (begun\<lparr>db_autocommit := False\<rparr>) of
                    None \<Rightarrow> None
                  | Some (Inl e, db'') \<Rightarrow> Some (Inl e, roll_back begun db'')
                  | Some (Inr result, db'') \<Rightarrow>
                      (case statement db'' of
                         (Inl e, db3) \<Rightarrow> Some (Inl e, roll_back begun db3)
                       | (Inr _, db3) \<Rightarrow> Some (Inr result, db3\<lparr>db_autocommit := True\<rparr>)))))"

definition apply_batch ::
    "hash \<Rightarrow> ('m, 'c, 'r, 'i) materializer \<Rightarrow> physical_frontier_root \<Rightarrow> ('c, 'r) physical_apply_request \<Rightarrow>
     'm frontier_db \<Rightarrow> ((frontier_error + 'i apply_result) \<times> 'm frontier_db) option" where
  "apply_batch H M current_root request = apply_with_transaction_policy H M current_root request False True"

definition apply_candidate ::
    "hash \<Rightarrow> ('m, 'c, 'r, 'i) materializer \<Rightarrow> physical_frontier_root \<Rightarrow> ('c, 'r) physical_apply_request \<Rightarrow>
     'm frontier_db \<Rightarrow> ((frontier_error + 'i apply_result) \<times> 'm frontier_db) option" where
  "apply_candidate H M current_root request = apply_with_transaction_policy H M current_root request True True"

definition apply_terminal_prefix_candidate ::
    "hash \<Rightarrow> ('m, 'c, 'r, 'i) materializer \<Rightarrow> physical_frontier_root \<Rightarrow> ('c, 'r) physical_apply_request \<Rightarrow>
     'm frontier_db \<Rightarrow> ((frontier_error + 'i apply_result) \<times> 'm frontier_db) option" where
  "apply_terminal_prefix_candidate H M current_root request db =
     (if rq_materialization request \<noteq> None \<or> rq_materialization_input_digest request \<noteq> None
         \<or> rq_authenticated_reference request \<noteq> None
      then Some (Inl (FrontierInvalidInput ''terminal prefix candidate accepts history without materialization''), db)
      else
        (case query_row (\<lambda>db. Some (length (db_documents db))) db of
           (Inl e, db') \<Rightarrow> Some (Inl e, db')
         | (Inr stored_documents, db') \<Rightarrow>
             if stored_documents \<noteq> 0
             then Some (Inl (FrontierInvalidInput ''terminal prefix candidate requires an unseeded document frontier''), db')
             else apply_with_transaction_policy H M current_root request True False db'))"

end
