(* ===== verification/Frontier_Atomicity.thy ===== *)
theory Frontier_Atomicity
  imports Frontier_Apply
begin

text \<open>
  All or nothing: every check before an apply only reads, and an ordinary apply that fails, or finds its batch
  already applied, leaves every table of the database as it was.  Nothing is assumed about the tables.
\<close>

section \<open>Operations that only read\<close>

definition only_reads :: "('m, 'a) db_op \<Rightarrow> bool" where
  "only_reads m \<longleftrightarrow> (\<forall>db. faults_only db (snd (m db)) \<and> (db_faults db = [] \<longrightarrow> db_faults (snd (m db)) = []))"

named_theorems reading

lemma only_readsD: "only_reads m \<Longrightarrow> m db = (r, db') \<Longrightarrow> faults_only db db'"
  by (metis only_reads_def snd_conv)

lemma only_reads_quiet: "only_reads m \<Longrightarrow> m db = (r, db') \<Longrightarrow> quiet q db \<Longrightarrow> quiet q db'"
  by (metis only_reads_def quiet_def snd_conv)

lemma only_reads_return [reading]: "only_reads (st_return x)" and only_reads_lift [reading]: "only_reads (st_lift r)"
  by (simp_all add: only_reads_def st_return_def st_lift_def)

lemma only_reads_bind [reading]:
  assumes "only_reads m" "\<And>x. only_reads (f x)"
  shows "only_reads (st_bind m f)"
  unfolding only_reads_def
proof
  fix db
  show "faults_only db (snd (st_bind m f db)) \<and> (db_faults db = [] \<longrightarrow> db_faults (snd (st_bind m f db)) = [])"
  proof (cases "m db")
    case (Pair r db')
    then have "faults_only db db'" "db_faults db = [] \<longrightarrow> db_faults db' = []"
      using only_readsD [OF assms(1)] only_reads_quiet [OF assms(1), of db r db' True] by (auto simp: quiet_def)
    then show ?thesis
      using Pair assms(2) by (cases r) (auto simp: st_bind_def only_reads_def intro: faults_only_trans)
  qed
qed

lemma only_reads_statement [reading]: "only_reads statement"
  by (auto simp: only_reads_def statement_def split: list.split)

lemma only_reads_query [reading]: "only_reads (query f)"
proof -
  have "only_reads (\<lambda>db. (Inr (f db), db) :: (frontier_error + 'b) \<times> 'a frontier_db)" by (simp add: only_reads_def)
  then show ?thesis unfolding query_def by (intro reading)
qed

lemma only_reads_query_row [reading]: "only_reads (query_row f)"
  unfolding query_row_def by (intro reading)

lemma only_reads_load [reading]:
  "only_reads (load_clock_node H link)" "only_reads (load_batch_map_node H link)"
  "only_reads (load_batch i)" "only_reads (read_frontier H)"
  unfolding load_clock_node_def load_batch_map_node_def load_batch_def read_frontier_def
  by (auto intro!: reading)

lemma only_reads_clock_lookup [reading]: "only_reads (clock_lookup_loop H current peer depth :: ('m, u64 option) db_op)"
proof (induction "257 - depth" arbitrary: current depth rule: less_induct)
  case less
  show ?case
  proof (cases "depth < 257 \<and> current \<noteq> None")
    case True
    have "only_reads (clock_lookup_loop H link peer (depth + 1) :: ('m, u64 option) db_op)" for link by (rule less) (use True in auto)
    with True show ?thesis
      by (subst clock_lookup_loop.simps) (auto intro!: reading split: option.split)
  next
    case False
    then show ?thesis
      by (subst clock_lookup_loop.simps) (auto simp: ensure_depth_def MAX_AUTHENTICATED_MAP_DEPTH_def intro!: reading split: option.split)
  qed
qed

lemma only_reads_batch_lookup [reading]: "only_reads (batch_lookup_loop H current i depth :: ('m, digest option) db_op)"
proof (induction "257 - depth" arbitrary: current depth rule: less_induct)
  case less
  show ?case
  proof (cases "depth < 257 \<and> current \<noteq> None")
    case True
    have "only_reads (batch_lookup_loop H link i (depth + 1) :: ('m, digest option) db_op)" for link by (rule less) (use True in auto)
    with True show ?thesis
      by (subst batch_lookup_loop.simps) (auto intro!: reading split: option.split)
  next
    case False
    then show ?thesis
      by (subst batch_lookup_loop.simps) (auto simp: ensure_depth_def MAX_AUTHENTICATED_MAP_DEPTH_def intro!: reading split: option.split)
  qed
qed

lemma only_reads_batch_map_value [reading]: "only_reads (batch_map_value H root i)"
  unfolding batch_map_value_def by (auto intro!: reading split: option.split)

lemma only_reads_record [reading]: "only_reads (authenticated_batch_record H root i expected)"
  unfolding authenticated_batch_record_def causal_clock_lookup_def by (auto intro!: reading split: option.split)

lemma only_reads_materialization_op [reading]: "only_reads m \<Longrightarrow> only_reads (materialization_op m)"
  by (auto simp: only_reads_def materialization_op_def split: prod.split) (metis snd_conv)

lemma only_reads_stamp [reading]: "only_reads (ensure_stamp s d)"
  unfolding ensure_stamp_def by (auto intro!: reading split: prod.split)

lemma only_reads_recorded [reading]: "only_reads (recorded_digest s)"
  unfolding recorded_digest_def by (auto intro!: reading split: option.split)

section \<open>The checks\<close>

lemma only_reads_duplicate [reading]: "only_reads (check_stored_duplicate H root batch row)"
  unfolding check_stored_duplicate_def by (auto intro!: reading)

lemma only_reads_dependencies [reading]: "only_reads (require_dependencies H root heads)"
  by (induction heads) (auto intro!: reading)

lemma only_reads_new [reading]: "only_reads (check_new_batch H root request)"
  unfolding check_new_batch_def Let_def by (auto intro!: reading)

lemma only_reads_materialized [reading]: "only_reads (check_materialized_duplicate H request)"
  unfolding check_materialized_duplicate_def Let_def by (auto intro!: reading split: option.split)

lemma only_reads_frontier [reading]: "only_reads (read_matching_frontier H root)"
  unfolding read_matching_frontier_def by (auto intro!: reading)

lemma only_reads_checks [reading]: "only_reads (apply_checks H root request)"
  unfolding apply_checks_def by (auto intro!: reading split: option.split)

lemma only_reads_preflight [reading]: "only_reads (preflight H root request)"
  unfolding preflight_def by (auto intro!: reading split: option.split)

section \<open>Failing applies\<close>

lemma finish_is_applied:
  assumes "finish_apply H M transaction root request documents db = (Inr result, db')"
  shows "ar_disposition result = Applied"
  using assms
  by (auto simp: finish_apply_def Let_def st_bind_def st_return_def st_lift_def split: prod.splits sum.splits if_splits)

lemma roll_back_faults: "db_autocommit begun \<Longrightarrow> faults_only begun (roll_back begun db)"
  by (auto simp: faults_only_def roll_back_def intro!: exI [of _ "db_faults db"])

text \<open>What the cases of the ordinary policy come to.\<close>

lemma apply_batch_cases:
  assumes "apply_batch H M root request db = Some (result, db')"
  obtains (unchanged) "faults_only db db'" "\<And>r. result = Inr r \<Longrightarrow> ar_disposition r = DuplicateApply"
  | (applied) r stored checked begun db'' where "result = Inr r" "ar_disposition r = Applied"
      "apply_checks H root request db = (Inr (Proceed stored), checked)" "db_autocommit checked"
      "statement checked = (Inr (), begun)"
      "apply_in_open_transaction H M Ordinary root request stored True (begun\<lparr>db_autocommit := False\<rparr>) = Some (Inr r, db'')"
      "\<exists>db3. statement db'' = (Inr (), db3) \<and> db' = db3\<lparr>db_autocommit := True\<rparr>"
proof (cases "apply_checks H root request db")
  case (Pair plan checked)
  note read = only_readsD [OF only_reads_checks Pair]
  note assms = assms [unfolded apply_batch_def apply_with_transaction_policy_def Pair]
  show ?thesis
  proof (cases plan)
    case (Inl e)
    then show ?thesis using assms read unchanged by auto
  next
    case plan: (Inr p)
    show ?thesis
    proof (cases p)
      case AlreadyApplied
      then show ?thesis using assms plan read by (intro unchanged) auto
    next
      case (Proceed stored)
      show ?thesis
      proof (cases "db_autocommit checked")
        case False
        then show ?thesis using assms plan Proceed read by (intro unchanged) auto
      next
        case auto: True
        obtain b begun where opened: "statement checked = (b, begun)" by (cases "statement checked")
        then have begun: "faults_only checked begun" using only_readsD [OF only_reads_statement] by blast
        note faults = faults_only_trans [OF read begun]
        have "db_autocommit begun" using auto faults_only_tables(7) [OF begun] by simp
        note undone = faults_only_trans [OF faults roll_back_faults [OF this]]
        note assms = assms [unfolded plan Proceed prod.case sum.case apply_plan.case opened, simplified auto, simplified]
        show ?thesis
        proof (cases b)
          case (Inl e)
          then show ?thesis using assms faults by (intro unchanged) auto
        next
          case (Inr u)
          obtain r db'' where inner: "apply_in_open_transaction H M Ordinary root request stored True (begun\<lparr>db_autocommit := False\<rparr>) = Some (r, db'')"
            using assms Inr by (auto split: option.splits)
          show ?thesis
          proof (cases r)
            case e: (Inl e)
            then show ?thesis using assms Inr inner undone by (intro unchanged) auto
          next
            case r: (Inr result')
            obtain c db3 where commit: "statement db'' = (c, db3)" by (cases "statement db''")
            show ?thesis
            proof (cases c)
              case (Inl e)
              then show ?thesis using assms \<open>b = Inr u\<close> inner r commit undone by (intro unchanged) auto
            next
              case c: (Inr v)
              have "ar_disposition result' = Applied"
                using inner r
                by (auto simp: apply_in_open_transaction_def finish_is_applied split: prod.splits sum.splits apply_fault.splits)
              then show ?thesis
                using assms \<open>b = Inr u\<close> opened inner r commit c auto Pair plan Proceed
                by (intro applied [of result' stored checked begun db'']) auto
            qed
          qed
        qed
      qed
    qed
  qed
qed

text \<open>C4. An ordinary apply is atomic: when it fails, or finds the batch already applied, every table of the database
  is what it was before, and no transaction is left open.\<close>
theorem apply_batch_atomic:
  assumes "apply_batch H M root request db = Some (result, db')"
    and "\<And>r. result = Inr r \<Longrightarrow> ar_disposition r = DuplicateApply"
  shows "faults_only db db'"
  using assms(1)
proof (cases rule: apply_batch_cases)
  case unchanged
  then show ?thesis by simp
next
  case applied
  then show ?thesis using assms(2) by auto
qed

end
