(* ===== verification/Frontier_Causality.thy ===== *)
theory Frontier_Causality
  imports Frontier_Log
begin

text \<open>
  Clocks and causality.  The dependency heads of the accepted batches span the causal order; a clock lists,
  for every peer, how far the batch has seen it.  As long as no two batches carry the same dot, the comparison
  \<open>batch_descends_from\<close> makes on clocks decides exactly the causal order.
\<close>

definition log_parents :: "entry list \<Rightarrow> (uuid \<times> uuid) set" where
  "log_parents log = {(h, entry_id e) | h e. e \<in> set log \<and> h \<in> set (pb_causal_dependency_heads (fst e))}"

definition clock_covers :: "(uuid \<Rightarrow> u64 option) \<Rightarrow> uuid \<times> u64 \<Rightarrow> bool" where
  "clock_covers m d \<longleftrightarrow> (case m (fst d) of None \<Rightarrow> False | Some c \<Rightarrow> snd d \<le> c)"

lemma log_parents_snoc:
  "log_parents (log @ [e]) = log_parents log \<union> {(h, entry_id e) | h. h \<in> set (pb_causal_dependency_heads (fst e))}"
  by (cases e) (auto simp: log_parents_def)

lemma clock_covers_join: "clock_covers m d \<or> clock_covers n d \<Longrightarrow> clock_covers (clock_join m n) d"
  by (auto simp: clock_covers_def clock_join_def max_def split: option.splits)

lemma heads_clock_covers: "h \<in> set heads \<Longrightarrow> clock_covers (clocks h) d \<Longrightarrow> clock_covers (heads_clock clocks heads) d"
  by (induction heads rule: rev_induct) (auto simp: heads_clock_snoc intro: clock_covers_join)

lemma accepted_heads:
  "accepted_log H log \<Longrightarrow> e \<in> set log \<Longrightarrow> set (pb_causal_dependency_heads (fst e)) \<subseteq> entry_id ` set log"
  by (induction rule: accepted_log.induct) (auto simp: entry_ok_def)

lemma heads_clock_later:
  assumes "accepted_log H log" "entry_ok H log b" "e \<in> set (log @ [(b, lk)])"
  shows "heads_clock (log_clocks (log @ [(b, lk)])) (pb_causal_dependency_heads (fst e))
      = heads_clock (log_clocks log) (pb_causal_dependency_heads (fst e))"
proof (rule heads_clock_cong)
  fix h
  assume "h \<in> set (pb_causal_dependency_heads (fst e))"
  then have "h \<in> entry_id ` set log"
    using assms(2,3) accepted_heads [OF assms(1), of e] by (auto simp: entry_ok_def)
  moreover have "pb_batch_id b \<notin> entry_id ` set log" using assms(2) by (simp add: entry_ok_def)
  ultimately have "h \<noteq> pb_batch_id b" by metis
  then show "log_clocks (log @ [(b, lk)]) h = log_clocks log h" by (simp add: log_clocks_snoc entry_id_def)
qed

text \<open>The specification of a clock still holds of it once later batches are in the log.\<close>

lemma log_clocks_fix:
  "accepted_log H log \<Longrightarrow> e \<in> set log \<Longrightarrow> log_clocks log (entry_id e) = batch_clock (log_clocks log) (fst e)"
proof (induction rule: accepted_log.induct)
  case empty_log
  then show ?case by simp
next
  case (accept log b lk)
  have fresh: "pb_batch_id b \<notin> entry_id ` set log" using accept.hyps(2) by (simp add: entry_ok_def)
  note same = heads_clock_later [OF accept.hyps accept.prems]
  show ?case
  proof (cases "e \<in> set log")
    case True
    then have "entry_id e \<noteq> pb_batch_id b" using fresh by (metis image_eqI)
    then show ?thesis
      unfolding batch_clock_def same using accept.IH [OF True] by (simp add: log_clocks_snoc batch_clock_def entry_id_def)
  next
    case False
    then have "e = (b, lk)" using accept.prems by simp
    then show ?thesis unfolding batch_clock_def same by (simp add: log_clocks_snoc batch_clock_def)
  qed
qed

lemma accepted_counter:
  "accepted_log H log \<Longrightarrow> e \<in> set log \<Longrightarrow>
   unat (pb_causal_counter (fst e)) =
     unat (unwrap_counter (heads_clock (log_clocks log) (pb_causal_dependency_heads (fst e)) (pb_causal_peer_id (fst e)))) + 1"
proof (induction rule: accepted_log.induct)
  case empty_log
  then show ?case by simp
next
  case (accept log b lk)
  note heads_clock_later [OF accept.hyps accept.prems]
  then show ?case using accept by (auto simp: entry_ok_def next_counter_def)
qed

text \<open>A batch has seen all its parents have.\<close>

lemma parent_covers:
  assumes "accepted_log H log" "(h, i) \<in> log_parents log" "clock_covers (log_clocks log h) d"
  shows "clock_covers (log_clocks log i) d"
proof -
  obtain e where e: "e \<in> set log" "entry_id e = i" "h \<in> set (pb_causal_dependency_heads (fst e))"
    using assms(2) by (auto simp: log_parents_def)
  let ?m = "heads_clock (log_clocks log) (pb_causal_dependency_heads (fst e))"
  have m: "clock_covers ?m d" using heads_clock_covers [where clocks = "log_clocks log", OF e(3) assms(3)] .
  have "clock_covers (batch_clock (log_clocks log) (fst e)) d"
  proof (cases "fst d = pb_causal_peer_id (fst e)")
    case True
    then have "unat (snd d) \<le> unat (unwrap_counter (?m (pb_causal_peer_id (fst e))))"
      using m by (auto simp: clock_covers_def unwrap_counter_def word_le_nat_alt split: option.splits)
    then show ?thesis
      using accepted_counter [OF assms(1) e(1)] True by (simp add: clock_covers_def batch_clock_def word_le_nat_alt)
  next
    case False
    then show ?thesis using m by (simp add: clock_covers_def batch_clock_def)
  qed
  then show ?thesis using log_clocks_fix [OF assms(1) e(1)] e(2) by simp
qed

text \<open>Every dot a clock covers belongs to a causal ancestor.\<close>

lemma covered_dot_ancestor:
  "accepted_log H log \<Longrightarrow> log_clocks log i p = Some n \<Longrightarrow> 0 < k \<Longrightarrow> k \<le> unat n \<Longrightarrow>
   \<exists>e \<in> set log. fst (entry_dot e) = p \<and> unat (snd (entry_dot e)) = k \<and> (entry_id e, i) \<in> (log_parents log)\<^sup>*"
proof (induction arbitrary: i p n k rule: accepted_log.induct)
  case empty_log
  then show ?case by (simp add: log_clocks_def)
next
  case (accept log b lk)
  let ?log = "log @ [(b, lk)]"
  have grow: "(x, y) \<in> (log_parents log)\<^sup>* \<Longrightarrow> (x, y) \<in> (log_parents ?log)\<^sup>*" for x y
    using rtrancl_mono [of "log_parents log" "log_parents ?log"] by (auto simp: log_parents_snoc)
  have via: "\<exists>e \<in> set ?log. fst (entry_dot e) = p \<and> unat (snd (entry_dot e)) = k \<and> (entry_id e, pb_batch_id b) \<in> (log_parents ?log)\<^sup>*"
    if c: "heads_clock (log_clocks log) (pb_causal_dependency_heads b) p = Some c" "k \<le> unat c" for c
  proof -
    obtain h where h: "h \<in> set (pb_causal_dependency_heads b)" "log_clocks log h p = Some c"
      using heads_clock_Some [where clocks = "log_clocks log", OF c(1)] by blast
    obtain e where e: "e \<in> set log" "fst (entry_dot e) = p" "unat (snd (entry_dot e)) = k" "(entry_id e, h) \<in> (log_parents log)\<^sup>*"
      using accept.IH [OF h(2) accept.prems(2) c(2)] by blast
    have "(h, pb_batch_id b) \<in> log_parents ?log" using h(1) by (auto simp: log_parents_snoc entry_id_def)
    then have "(entry_id e, pb_batch_id b) \<in> (log_parents ?log)\<^sup>*" using grow [OF e(4)] by (rule rtrancl_into_rtrancl [rotated])
    then show ?thesis using e by auto
  qed
  show ?case
  proof (cases "i = pb_batch_id b")
    case False
    then have "log_clocks log i p = Some n" using accept.prems(1) by (simp add: log_clocks_snoc entry_id_def)
    then obtain e where "e \<in> set log" "fst (entry_dot e) = p" "unat (snd (entry_dot e)) = k" "(entry_id e, i) \<in> (log_parents log)\<^sup>*"
      using accept.IH accept.prems by blast
    then show ?thesis using grow by auto
  next
    case True
    then have n: "batch_clock (log_clocks log) b p = Some n" using accept.prems(1) by (simp add: log_clocks_snoc entry_id_def)
    show ?thesis
    proof (cases "p = pb_causal_peer_id b \<and> unat (pb_causal_counter b) = k")
      case True
      then show ?thesis using \<open>i = pb_batch_id b\<close> by (intro bexI [of _ "(b, lk)"]) (auto simp: entry_dot_def entry_id_def)
    next
      case False
      have "\<exists>c. heads_clock (log_clocks log) (pb_causal_dependency_heads b) p = Some c \<and> k \<le> unat c"
      proof (cases "p = pb_causal_peer_id b")
        case True
        then have "k < unat (pb_causal_counter b)" using n accept.prems(3) False by (simp add: batch_clock_def)
        then have "k \<le> unat (unwrap_counter (heads_clock (log_clocks log) (pb_causal_dependency_heads b) p))"
          using accept.hyps(2) True by (simp add: entry_ok_def next_counter_def)
        then show ?thesis using accept.prems(2) by (auto simp: unwrap_counter_def split: option.splits)
      next
        case False
        then show ?thesis using n accept.prems(3) by (simp add: batch_clock_def)
      qed
      then show ?thesis using via True by blast
    qed
  qed
qed

text \<open>With unique dots, covering the dot of a batch means descending from it.\<close>

lemma covers_iff_ancestor:
  assumes "accepted_log H log" "inj_on entry_dot (set log)" "a \<in> set log" "d \<in> set log"
  shows "clock_covers (log_clocks log (entry_id d)) (entry_dot a) \<longleftrightarrow> (entry_id a, entry_id d) \<in> (log_parents log)\<^sup>*"
proof
  assume "(entry_id a, entry_id d) \<in> (log_parents log)\<^sup>*"
  then show "clock_covers (log_clocks log (entry_id d)) (entry_dot a)"
  proof (induction rule: rtrancl_induct)
    case base
    show ?case
      using accepted_rows [OF assms(1), of "fst a" "snd a"] assms(3)
      by (simp add: clock_covers_def entry_dot_def entry_id_def)
  next
    case (step y z)
    then show ?case using parent_covers [OF assms(1)] by blast
  qed
next
  assume c: "clock_covers (log_clocks log (entry_id d)) (entry_dot a)"
  then obtain n where n: "log_clocks log (entry_id d) (fst (entry_dot a)) = Some n" "snd (entry_dot a) \<le> n"
    by (auto simp: clock_covers_def split: option.splits)
  have "0 < pb_causal_counter (fst a)" using accepted_rows [OF assms(1), of "fst a" "snd a"] assms(3) by simp
  then have "0 < unat (snd (entry_dot a))" by (simp add: entry_dot_def word_less_nat_alt)
  then obtain e where e: "e \<in> set log" "fst (entry_dot e) = fst (entry_dot a)" "unat (snd (entry_dot e)) = unat (snd (entry_dot a))"
      "(entry_id e, entry_id d) \<in> (log_parents log)\<^sup>*"
    using covered_dot_ancestor [OF assms(1) n(1), of "unat (snd (entry_dot a))"] n(2) by (auto simp: word_le_nat_alt)
  then have "entry_dot e = entry_dot a" by (simp add: prod_eq_iff word_unat_eq_iff)
  then have "e = a" using assms(2,3) e(1) by (auto dest: inj_onD)
  then show "(entry_id a, entry_id d) \<in> (log_parents log)\<^sup>*" using e(4) by simp
qed

text \<open>The query, on a database that holds the log.\<close>

lemma descends_log:
  assumes ok: "tables_ok H R q db" and log: "log_holds H root log db" "log_fits H R log"
    and d: "log_entry log d = Some ed" and a: "log_entry log a = Some ea"
  shows "runs (batch_descends_from H root d a) db
    (\<lambda>x db'. x = clock_covers (log_clocks log d) (entry_dot ea) \<and> still H R q db db') (sql_fault q)"
  unfolding batch_descends_from_def
proof (rule runs_bind [OF authenticated_log [OF ok log]], simp, clarify)
  fix db1
  assume db1: "still H R q db db1"
  then have 1: "tables_ok H R q db1" "log_holds H root log db1" using log_holds_nodes log by (auto simp: still_def)
  show "runs (st_bind (st_lift (ok_or (FrontierCorrupt ''descendant batch is absent from the authenticated accepted map'')
          (map_option (entry_row H) (log_entry log d)))) (\<lambda>descendant.
      st_bind (authenticated_batch_record H root a None) (\<lambda>found_ancestor.
      case found_ancestor of
        None \<Rightarrow> st_return False
      | Some ancestor \<Rightarrow>
         st_bind (st_lift (decode_id (sb_causal_peer_id ancestor) ''causal peer ID'')) (\<lambda>peer.
         st_bind (st_lift (u64_of_i64 ''stored causal counter is invalid'' (sb_causal_counter ancestor))) (\<lambda>counter.
         st_bind (st_lift (stored_clock_root descendant)) (\<lambda>clock.
         st_bind (causal_clock_lookup H (Some clock) peer) (\<lambda>found_counter.
         st_return (case found_counter of None \<Rightarrow> False | Some c \<Rightarrow> counter \<le> c)))))))) db1
    (\<lambda>x db'. x = clock_covers (log_clocks log d) (entry_dot ea) \<and> still H R q db db') (sql_fault q)"
    unfolding d option.map ok_or_simps st_bind_Inr
  proof (rule runs_bind [OF authenticated_log [OF 1 log(2)]], simp, clarify)
    fix db2
    assume "still H R q db1 db2"
    then have db2: "still H R q db db2" "tables_ok H R q db2" "log_holds H root log db2"
      using still_trans [OF db1] log_holds_nodes 1 by (auto simp: still_def)
    have e: "ed \<in> set log" "entry_id ed = d" using log_entry_in [OF d] by auto
    have holds: "clock_holds H db2 (Some (snd ed)) (log_clocks log d)" using db2(3) e by (auto simp: log_holds_def)
    have row: "decode_id (sb_causal_peer_id (entry_row H ea)) what = Inr (fst (entry_dot ea))"
        "sb_causal_counter (entry_row H ea) = uint (snd (entry_dot ea))" for what
      by (simp_all add: entry_row_def event_row_def entry_dot_def)
    show "runs (case map_option (entry_row H) (log_entry log a) of
        None \<Rightarrow> st_return False
      | Some ancestor \<Rightarrow>
         st_bind (st_lift (decode_id (sb_causal_peer_id ancestor) ''causal peer ID'')) (\<lambda>peer.
         st_bind (st_lift (u64_of_i64 ''stored causal counter is invalid'' (sb_causal_counter ancestor))) (\<lambda>counter.
         st_bind (st_lift (stored_clock_root (entry_row H ed))) (\<lambda>clock.
         st_bind (causal_clock_lookup H (Some clock) peer) (\<lambda>found_counter.
         st_return (case found_counter of None \<Rightarrow> False | Some c \<Rightarrow> counter \<le> c)))))) db2
      (\<lambda>x db'. x = clock_covers (log_clocks log d) (entry_dot ea) \<and> still H R q db db') (sql_fault q)"
      unfolding a option.map option.case row stored_clock_root_entry st_bind_Inr u64_of_i64_uint
      by (rule runs_bind [OF clock_lookup_log [OF db2(2) holds log_clock_dom [OF log(2)]]])
        (auto simp: clock_covers_def intro: still_trans [OF db2(1)])
  qed
qed

end
