(* ===== verification/Frontier_Refinement.thy ===== *)
theory Frontier_Refinement
  imports Frontier_Atomicity Frontier_Causality
begin

text \<open>
  The abstract specification of the frontier, a log of accepted batches with the current documents, and the
  refinement: an apply that succeeds appends exactly its batch and its documents, and leaves a
  database that again stands for a log; an ordinary apply that fails leaves the tables alone.
\<close>

section \<open>The abstraction\<close>

definition put_documents :: "physical_frontier_document list \<Rightarrow> (uuid \<Rightarrow> bytes option) \<Rightarrow> uuid \<Rightarrow> bytes option" where
  "put_documents docs m = foldl (\<lambda>m d. m(pd_document_id d \<mapsto> pd_canonical_bytes d)) m docs"

text \<open>The row of \<open>frontier\<close> that goes with a root.\<close>

definition root_row :: "hash \<Rightarrow> physical_frontier_root \<Rightarrow> frontier_row" where
  "root_row H root =
     \<lparr>frontier_root = pr_canonical_bytes root, frontier_root_digest = array_bytes (root_digest H root),
      applied_batch_count = uint (pr_acceptance_sequence root)\<rparr>"

definition document_room :: "hash \<Rightarrow> uuid set \<Rightarrow> bool" where
  "document_room H K \<longleftrightarrow> shallow (authenticated_map_priority_order H) K 256"

record abstract_frontier =
  af_log :: "entry list"
  af_documents :: "uuid \<Rightarrow> bytes option"

definition history_holds ::
    "hash \<Rightarrow> room \<Rightarrow> bool \<Rightarrow> physical_frontier_root \<Rightarrow> entry list \<Rightarrow> 'm frontier_db \<Rightarrow> bool" where
  "history_holds H R q root log db \<longleftrightarrow>
     tables_ok H R q db \<and> log_holds H root log db \<and> log_fits H R log \<and> db_frontier db = Some (root_row H root)"

definition documents_match ::
    "hash \<Rightarrow> uuid set \<Rightarrow> physical_frontier_root \<Rightarrow> (uuid \<Rightarrow> bytes option) \<Rightarrow> 'm frontier_db \<Rightarrow> bool" where
  "documents_match H K root m db \<longleftrightarrow>
     documents_hold H db (root_link (pr_document_map_root_key root) (pr_document_map_root_digest root)) m
     \<and> unat (pr_document_count root) = card (dom m) \<and> dom m \<subseteq> K \<and> document_room H K"

definition frontier_holds ::
    "hash \<Rightarrow> room \<Rightarrow> uuid set \<Rightarrow> bool \<Rightarrow> physical_frontier_root \<Rightarrow> abstract_frontier \<Rightarrow> 'm frontier_db \<Rightarrow> bool" where
  "frontier_holds H R K q root a db \<longleftrightarrow>
     history_holds H R q root (af_log a) db \<and> documents_match H K root (af_documents a) db"

text \<open>The record digest the new batch will be bound to: its clock root is determined by the log.\<close>

definition new_bindings :: "hash \<Rightarrow> entry list \<Rightarrow> physical_accepted_batch \<Rightarrow> (uuid \<times> digest) set" where
  "new_bindings H log b =
     {(pb_batch_id b, accepted_causal_record_digest H b lk) | lk t.
        clock_link_of H t = Some lk \<and> map_ok H t \<and> tmap t = batch_clock (log_clocks log) b}"

text \<open>What a request has to satisfy beyond what the code checks.\<close>

definition request_fits :: "hash \<Rightarrow> room \<Rightarrow> uuid set \<Rightarrow> physical_frontier_root \<Rightarrow> entry list \<Rightarrow> physical_accepted_batch \<Rightarrow> bool" where
  "request_fits H R K root log b \<longleftrightarrow>
     (pb_causal_peer_id b, pb_causal_counter b) \<in> dots R \<and> new_bindings H log b \<subseteq> bindings R
     \<and> pb_semantic_effect_digest b = H (pb_semantic_effect b)
     \<and> pd_document_id ` set (pb_affected_documents b) \<subseteq> K
     \<and> unat (pr_document_count root) + length (pb_affected_documents b) < 2 ^ 64"

section \<open>What the documents' loop does\<close>

text \<open>Changes outside the node tables and the documents do not matter to the log.\<close>

definition same_log_tables :: "'m frontier_db \<Rightarrow> 'm frontier_db \<Rightarrow> bool" where
  "same_log_tables db db' \<longleftrightarrow>
     db_clock_nodes db' = db_clock_nodes db \<and> db_batch_nodes db' = db_batch_nodes db \<and> db_batches db' = db_batches db"

lemma clock_stored_same: "db_clock_nodes db1 = db_clock_nodes db2 \<Longrightarrow> clock_stored H db1 t = clock_stored H db2 t"
  by (induction t) (auto simp: Let_def)

lemma batch_stored_same: "db_batch_nodes db1 = db_batch_nodes db2 \<Longrightarrow> batch_stored H db1 t = batch_stored H db2 t"
  by (induction t) (auto simp: Let_def)

lemma clock_holds_same: "db_clock_nodes db1 = db_clock_nodes db2 \<Longrightarrow> clock_holds H db1 x m = clock_holds H db2 x m"
  using clock_stored_same unfolding clock_holds_def by metis

lemma log_holds_same:
  assumes "same_log_tables db db'"
  shows "log_holds H root log db' = log_holds H root log db"
proof -
  have "clock_holds H db' x m = clock_holds H db x m" for x m
    using assms by (intro clock_holds_same) (simp add: same_log_tables_def)
  moreover have "batch_stored H db' t = batch_stored H db t" for t
    using assms by (intro batch_stored_same) (simp add: same_log_tables_def)
  ultimately show ?thesis
    using assms by (simp add: log_holds_def batch_map_holds_def same_log_tables_def)
qed

lemma tables_ok_same: "same_log_tables db db' \<Longrightarrow> quiet q db' \<Longrightarrow> tables_ok H R q db \<Longrightarrow> tables_ok H R q db'"
  by (simp add: tables_ok_def clock_inv_def batch_inv_def clock_table_ok_def batch_table_ok_def same_log_tables_def)

lemma upsert_documents_loop_ok:
  "quiet q db \<Longrightarrow> documents_hold H db root m \<Longrightarrow> document_room H K \<Longrightarrow> dom m \<subseteq> K \<Longrightarrow> pd_document_id ` set docs \<subseteq> K \<Longrightarrow>
   unat n + length docs < 2 ^ 64 \<Longrightarrow>
   runs (upsert_documents_loop H docs root n) db
     (\<lambda>(x, n') db'. documents_hold H db' x (put_documents docs m) \<and> quiet q db' \<and> documents_keep K db db'
        \<and> unat n' + card (dom m) = unat n + card (dom (put_documents docs m))
        \<and> unat n' \<le> unat n + length docs) (sql_fault q)"
proof (induction docs arbitrary: db root m n)
  case Nil
  then show ?case by (simp add: put_documents_def faults_keep)
next
  case (Cons d docs)
  let ?m = "m(pd_document_id d \<mapsto> pd_canonical_bytes d)"
  have fin: "finite (dom m)"
  proof -
    obtain t where t: "map_ok H t" "tmap t = m" using Cons.prems(2) by (auto simp: documents_hold_def)
    show ?thesis using dom_tmap [OF t(1)] t(2) by simp
  qed
  have room: "shallow (authenticated_map_priority_order H) K 256" using Cons.prems(3) by (simp add: document_room_def)
  show ?case
    unfolding upsert_documents_loop.simps
  proof (rule runs_bind [OF upsert_documents [OF Cons.prems(1,2) room Cons.prems(4)]], clarify)
    fix link inserted db1
    assume h: "documents_hold H db1 (Some link) ?m" and q1: "quiet q db1"
      and keep: "documents_keep (insert (pd_document_id d) (dom m)) db db1"
    let ?n = "saturating_add64 n (if m (pd_document_id d) = None then 1 else 0)"
    have n: "unat ?n = unat n + (if m (pd_document_id d) = None then 1 else 0)"
      using Cons.prems(6) by (auto simp: saturating_add64_def unat_word_ariths)
    have card: "card (dom ?m) = card (dom m) + (if m (pd_document_id d) = None then 1 else 0)"
      using fin by (auto simp: card_insert_if)
    have dom: "dom ?m \<subseteq> K" using Cons.prems(4,5) by (auto split: if_splits)
    have keep1: "documents_keep K db db1"
      using Cons.prems(4,5) by (intro documents_keep_mono [OF keep]) auto
    have IH: "runs (upsert_documents_loop H docs (Some link) ?n) db1
       (\<lambda>(x, n') db'. documents_hold H db' x (put_documents docs ?m) \<and> quiet q db' \<and> documents_keep K db1 db'
          \<and> unat n' + card (dom ?m) = unat ?n + card (dom (put_documents docs ?m))
          \<and> unat n' \<le> unat ?n + length docs) (sql_fault q)"
      using Cons.prems by (intro Cons.IH q1 h dom) (auto simp: n)
    show "runs (upsert_documents_loop H docs (Some link) ?n) db1
       (\<lambda>(x, n') db'. documents_hold H db' x (put_documents (d # docs) m) \<and> quiet q db' \<and> documents_keep K db db'
          \<and> unat n' + card (dom m) = unat n + card (dom (put_documents (d # docs) m))
          \<and> unat n' \<le> unat n + length (d # docs)) (sql_fault q)"
      by (rule runs_mono [OF IH])
        (auto simp: put_documents_def n card simp del: dom_fun_upd split: if_splits dest: documents_keep_trans [OF keep1])
  qed
qed

section \<open>Accepting the batch\<close>

text \<open>The parts of the database an accepted batch leaves alone.\<close>

definition same_other_tables :: "'m frontier_db \<Rightarrow> 'm frontier_db \<Rightarrow> bool" where
  "same_other_tables db db' \<longleftrightarrow>
     db_documents db' = db_documents db \<and> db_frontier db' = db_frontier db
     \<and> db_materialization db' = db_materialization db \<and> db_autocommit db' = db_autocommit db"

lemma nodes_other: "nodes_extend db db' \<Longrightarrow> same_other_tables db db' \<and> db_batches db' = db_batches db"
  by (auto simp: nodes_extend_def same_other_tables_def)

lemma same_other_trans: "same_other_tables a b \<Longrightarrow> same_other_tables b c \<Longrightarrow> same_other_tables a c"
  by (simp add: same_other_tables_def)

lemma still_read:
  assumes "tables_ok H R q db"
  shows "runs (read_frontier H) db (\<lambda>_ db'. still H R q db db') (\<lambda>_ _. True)"
proof -
  have q: "runs (query db_frontier) db (\<lambda>x db'. x = db_frontier db \<and> faults_only db db' \<and> quiet q db') (\<lambda>_ _. True)"
    by (rule runs_mono [OF query_runs [OF tables_okD(3) [OF assms]]]) (auto simp: faults_only_tables)
  have lift: "runs (st_lift r) db1 (\<lambda>_ db'. P db') (\<lambda>_ _. True)" if "P db1" for r P and db1 :: "'m frontier_db"
    using that by (cases r) auto
  have row: "runs (query_row db_frontier) db (\<lambda>_ db'. still H R q db db') (\<lambda>_ _. True)"
    unfolding query_row_def
    by (rule runs_bind [OF q]) (auto intro: lift stillI(3) [OF assms])
  show ?thesis
    unfolding read_frontier_def
    by (rule runs_bind [OF row])
      (auto simp: runs_def st_bind_def st_lift_def st_return_def split: sum.splits prod.splits if_splits)
qed

lemma batch_map_holds_new:
  assumes "batch_link_of H t = Some x" "map_ok H t" "batch_stored H db t"
    "tmap t = (map_of (map (entry_binding H) log))(pb_batch_id b \<mapsto> accepted_causal_record_digest H b lk)"
    "pr_batch_map_root_key post = Some (link_key x)" "pr_batch_map_root_digest post = link_digest x"
    "pb_batch_id b \<notin> entry_id ` set log"
  shows "batch_map_holds H post (log @ [(b, lk)]) db"
proof -
  have none: "map_of (map (entry_binding H) log) (pb_batch_id b) = None"
    using assms(7) unfolding log_entry_map by (simp add: log_entry_None)
  have "map_of (map (entry_binding H) (log @ [(b, lk)])) = tmap t"
    using assms(4) none by (auto simp: map_add_def fun_eq_iff entry_binding_def entry_id_def split: option.split)
  then show ?thesis
    using assms(1-3,5,6) by (auto simp: batch_map_holds_def root_link_def intro!: exI [of _ t])
qed

lemma accept_log:
  assumes ok: "tables_ok H R q db" and log: "log_holds H root log db" "log_fits H R log"
    and fits: "(pb_causal_peer_id b, pb_causal_counter b) \<in> dots R" "new_bindings H log b \<subseteq> bindings R"
      "pb_semantic_effect_digest b = H (pb_semantic_effect b)"
    and fresh: "pb_batch_id b \<notin> entry_id ` set log" and seq: "unat (pb_acceptance_sequence b) = length log + 1"
      "pr_acceptance_sequence (pb_post_frontier_root b) = pb_acceptance_sequence b"
  shows "runs (accept_batch H root b stored) db
    (\<lambda>lk db'. log_holds H (pb_post_frontier_root b) (log @ [(b, lk)]) db' \<and> tables_ok H R q db'
       \<and> log_fits H R (log @ [(b, lk)]) \<and> same_other_tables db db') (\<lambda>_ _. True)"
    (is "runs _ _ ?Q _")
  unfolding accept_batch_def
proof (rule runs_bind [OF still_read [OF ok]])
  fix now db1
  assume db1: "still H R q db db1"
  then have 1: "tables_ok H R q db1" "nodes_extend db db1" "log_holds H root log db1"
    using log_holds_nodes log(1) by (auto simp: still_def)
  let ?cont = "\<lambda>clock_root. st_bind (upsert_batch_map H (root_link (pr_batch_map_root_key root) (pr_batch_map_root_digest root))
         (pb_batch_id b) (accepted_causal_record_digest H b clock_root) 0) (\<lambda>post_batch_root.
       if pr_batch_map_root_key (pb_post_frontier_root b) \<noteq> Some (link_key post_batch_root)
          \<or> pr_batch_map_root_digest (pb_post_frontier_root b) \<noteq> link_digest post_batch_root
       then st_lift (Inl FrontierRegression)
       else st_bind (insert_event H b clock_root) (\<lambda>_. st_return clock_root))"
  have rest: "runs (st_bind (derive_causal_clock_root H root b) ?cont) db1 ?Q (\<lambda>_ _. True)"
  proof (rule runs_bind [OF runs_mono [OF derive_log [OF 1(1,3) log(2) fits(1)]]], assumption, simp)
    fix lk db2
    assume "set (pb_causal_dependency_heads b) \<subseteq> entry_id ` set log \<and> unat (pb_causal_counter b) = next_counter log b
       \<and> clock_holds H db2 (Some lk) (batch_clock (log_clocks log) b) \<and> still H R q db1 db2"
    then have d: "set (pb_causal_dependency_heads b) \<subseteq> entry_id ` set log" "unat (pb_causal_counter b) = next_counter log b"
        "clock_holds H db2 (Some lk) (batch_clock (log_clocks log) b)" and db2: "still H R q db db2"
      using still_trans [OF db1] by auto
    then have 2: "tables_ok H R q db2" "nodes_extend db db2" "log_holds H root log db2"
      using log_holds_nodes log(1) by (auto simp: still_def)
    have binding: "(pb_batch_id b, accepted_causal_record_digest H b lk) \<in> bindings R"
      using fits(2) d(3) by (auto simp: new_bindings_def clock_holds_def)
    obtain t where t: "batch_link_of H t = root_link (pr_batch_map_root_key root) (pr_batch_map_root_digest root)" "map_ok H t"
        "batch_stored H db2 t" "tmap t = map_of (map (entry_binding H) log)"
      using 2(3) by (auto simp: log_holds_def batch_map_holds_def)
    have "set (map (entry_binding H) log) \<subseteq> bindings R" using log(2) by (auto simp: log_fits_def)
    then have ent: "tentries t \<subseteq> bindings R"
      unfolding tentries_graph [OF t(2)] t(4) by (auto dest!: map_of_SomeD)
    have "tkeys t \<subseteq> fst ` bindings R" using ent unfolding keys_entries by blast
    then have high: "theight t + 0 \<le> 256" using shallow_height [OF tables_okD(5) [OF ok] t(2)] by simp
    note up = upsert_batch_tree [OF tables_okD(2) [OF 2(1)] t(3,2) high ent binding]
    show "runs (?cont lk) db2 ?Q (\<lambda>_ _. True)"
      unfolding t(1) [symmetric]
    proof (rule runs_bind [OF runs_mono [OF up]], assumption, simp)
      fix x db3
      assume "\<exists>t'. batch_link_of H t' = Some x \<and> map_ok H t' \<and> tmap t' = (tmap t)(pb_batch_id b \<mapsto> accepted_causal_record_digest H b lk)
         \<and> batch_stored H db3 t' \<and> batch_inv H (batch_texts R) (bindings R) q db3 \<and> batch_extends db2 db3"
      then obtain t' where t': "batch_link_of H t' = Some x" "map_ok H t'" "batch_stored H db3 t'"
          "tmap t' = (map_of (map (entry_binding H) log))(pb_batch_id b \<mapsto> accepted_causal_record_digest H b lk)"
          and inv3: "batch_inv H (batch_texts R) (bindings R) q db3" and ext3: "batch_extends db2 db3"
        using t(4) by auto
      have s3: "still H R q db2 db3" by (rule stillI(2) [OF 2(1) inv3 ext3])
      then have 3: "tables_ok H R q db3" "nodes_extend db db3" "log_holds H root log db3" "nodes_extend db2 db3"
        using still_trans [OF db2 s3] log_holds_nodes log(1) by (auto simp: still_def)
      show "runs (if pr_batch_map_root_key (pb_post_frontier_root b) \<noteq> Some (link_key x)
          \<or> pr_batch_map_root_digest (pb_post_frontier_root b) \<noteq> link_digest x
         then st_lift (Inl FrontierRegression)
         else st_bind (insert_event H b lk) (\<lambda>_. st_return lk)) db3 ?Q (\<lambda>_ _. True)"
      proof (cases "pr_batch_map_root_key (pb_post_frontier_root b) \<noteq> Some (link_key x)
          \<or> pr_batch_map_root_digest (pb_post_frontier_root b) \<noteq> link_digest x")
        case True
        then show ?thesis by simp
      next
        case False
        have "runs (insert_event H b lk) db3 (\<lambda>_ db'. unat (pb_acceptance_sequence b) < 2 ^ 63 \<and> unat (pb_causal_counter b) < 2 ^ 63
             \<and> unat (pb_retained_bytes b) < 2 ^ 63
             \<and> (\<exists>db4. faults_only db3 db4 \<and> quiet q db4 \<and> db' = db4\<lparr>db_batches := db_batches db4 @ [event_row H b lk]\<rparr>)) (\<lambda>_ _. True)"
        proof -
          have small: "runs (st_lift (i64_of_u64 e w)) s (\<lambda>_ s'. unat w < 2 ^ 63 \<and> s' = s) (\<lambda>_ _. True)" for e w and s :: "'a frontier_db"
            by (simp add: i64_of_u64_def)
          have admit: "runs (query (\<lambda>db. row_admitted (event_row H b lk) (db_batches db))) db3
              (\<lambda>_ db4. faults_only db3 db4 \<and> quiet q db4) (\<lambda>_ _. True)"
            by (rule runs_mono [OF query_runs [OF tables_okD(3) [OF 3(1)]]]) (auto simp: faults_only_tables)
          show ?thesis
            unfolding insert_event_def
            by (rule runs_bind [OF small], clarify, rule runs_bind [OF small], clarify, rule runs_bind [OF small], clarify,
                rule runs_bind [OF admit]) (simp only: runs_def split: if_split, auto)
        qed
        then show ?thesis
          unfolding if_not_P [OF False]
        proof (rule runs_bind, clarify)
          fix db4
          assume small: "unat (pb_acceptance_sequence b) < 2 ^ 63" "unat (pb_causal_counter b) < 2 ^ 63" "unat (pb_retained_bytes b) < 2 ^ 63"
            and f: "faults_only db3 db4" "quiet q db4"
          let ?db = "db4\<lparr>db_batches := db_batches db4 @ [event_row H b lk]\<rparr>" and ?log = "log @ [(b, lk)]"
          have s4: "still H R q db3 db4" by (rule stillI(3) [OF 3(1) f(2,1)])
          then have 4: "tables_ok H R q db4" "nodes_extend db3 db4" by (auto simp: still_def)
          note n4 = nodes_extend_trans [OF 3(2) 4(2)] nodes_extend_trans [OF 3(4) 4(2)]
          have log4: "log_holds H root log db4" using log_holds_nodes [OF n4(1) log(1)] .
          have ok4: "tables_ok H R q ?db" using 4(1)
            by (simp add: tables_ok_def clock_inv_def batch_inv_def clock_table_ok_def batch_table_ok_def quiet_def)
          have entry: "entry_ok H log b"
            using fresh d(1,2) small seq(1) fits(3) by (simp add: entry_ok_def)
          have accepted: "accepted_log H ?log" using log(1) entry by (auto simp: log_holds_def intro: accepted_log.accept)
          have same: "clock_holds H ?db z m = clock_holds H db4 z m" for z m by (rule clock_holds_same) simp
          have "batch_stored H db4 t'" using batch_stored_nodes [OF 4(2) t'(3)] .
          then have bs: "batch_stored H ?db t'" using batch_stored_same [of ?db db4] by simp
          have map: "batch_map_holds H (pb_post_frontier_root b) ?log ?db"
            using False fresh by (intro batch_map_holds_new [OF t'(1,2) bs t'(4)]) auto
          have clocks: "clock_holds H ?db (Some (snd e)) (log_clocks ?log (entry_id e))" if "e \<in> set ?log" for e
          proof (cases "e \<in> set log")
            case True
            then have "entry_id e \<noteq> pb_batch_id b" using fresh by (metis image_eqI)
            then show ?thesis
              using log4 True same by (simp add: log_holds_def log_clocks_snoc entry_id_def)
          next
            case False
            then have "e = (b, lk)" using that by simp
            then show ?thesis
              using clock_holds_nodes [OF n4(2) d(3)] same by (simp add: log_clocks_snoc entry_id_def)
          qed
          have "log_holds H (pb_post_frontier_root b) ?log ?db"
            using accepted map clocks log4 seq by (simp add: log_holds_def entry_row_def)
          moreover have "log_fits H R ?log"
            using log(2) fits(1) binding by (auto simp: log_fits_def entry_dot_def entry_binding_def entry_id_def)
          moreover have "same_other_tables db ?db"
            using nodes_other [OF n4(1)] by (simp add: same_other_tables_def)
          ultimately show "runs (st_return lk) ?db ?Q (\<lambda>_ _. True)" using ok4 by simp
        qed
      qed
    qed
  qed
  then show "runs (if now \<noteq> stored then st_lift (Inl (FrontierCorrupt ''physical frontier changed while beginning apply''))
     else st_bind (derive_causal_clock_root H root b) ?cont) db1 ?Q (\<lambda>_ _. True)"
    by simp
qed

section \<open>The checks\<close>

lemma still_refl: "tables_ok H R q db \<Longrightarrow> still H R q db db"
  by (simp add: still_def)

lemma still_log: "still H R q db db' \<Longrightarrow> log_holds H root log db \<Longrightarrow> tables_ok H R q db' \<and> log_holds H root log db'"
  using log_holds_nodes by (auto simp: still_def)

text \<open>A step that only reads, followed by anything.\<close>

lemma runs_still:
  assumes "runs m db (\<lambda>x db'. P x \<and> still H R q db db') E" and "still H R q db0 db"
    and "\<And>x db'. P x \<Longrightarrow> still H R q db0 db' \<Longrightarrow> runs (f x) db' Q (\<lambda>_ _. True)"
  shows "runs (st_bind m f) db Q (\<lambda>_ _. True)"
proof (rule runs_bind)
  show "runs m db (\<lambda>x db'. P x \<and> still H R q db db') (\<lambda>_ _. True)"
    using assms(1) by (rule runs_mono) auto
qed (use assms(2,3) still_trans in blast)

lemma runs_lift_any: "(\<And>x. r = Inr x \<Longrightarrow> runs (f x) db Q (\<lambda>_ _. True)) \<Longrightarrow> runs (st_bind (st_lift r) f) db Q (\<lambda>_ _. True)"
  by (cases r) auto

definition already_applied :: "hash \<Rightarrow> entry list \<Rightarrow> physical_accepted_batch \<Rightarrow> bool" where
  "already_applied H log b \<longleftrightarrow>
     (\<exists>e \<in> set log. entry_row H e = event_row H b (snd e) \<and> entry_binding H e = (pb_batch_id b, accepted_causal_record_digest H b (snd e)))"

lemma stored_matches_row:
  assumes "stored_matches_request H (entry_row H e) b = Inr True"
  shows "entry_row H e = event_row H b (snd e)"
  using assms
  by (auto simp: stored_matches_request_def bind_res_Inr entry_row_def event_row_def root_digest_def array_bytes_inject)

lemma check_duplicate_log:
  assumes ok: "tables_ok H R q db" and log: "log_holds H root log db" "log_fits H R log"
    and e: "log_entry log (pb_batch_id b) = Some e"
  shows "runs (check_stored_duplicate H root b (entry_row H e)) db
    (\<lambda>_ db'. already_applied H log b \<and> still H R q db db') (\<lambda>_ _. True)"
  unfolding check_stored_duplicate_def stored_clock_root_entry st_bind_Inr
proof (rule runs_still [OF authenticated_log [OF ok log, of "pb_batch_id b" None]])
  fix x db1
  assume x: "x = map_option (entry_row H) (log_entry log (pb_batch_id b))" and db1: "still H R q db db1"
  have some: "x \<noteq> None" using x e by simp
  note log1 = still_log [OF db1 log(1)]
  show "runs (if x = None
     then st_lift (Inl (FrontierCorrupt (''stored batch '' @ hex_id (pb_batch_id b) @ '' is absent from the authenticated accepted map'')))
     else
       st_bind (st_lift (stored_matches_request H (entry_row H e) b)) (\<lambda>same.
       if same then
         st_bind (batch_map_value H root (pb_batch_id b)) (\<lambda>value.
         if value \<noteq> Some (accepted_causal_record_digest H b (snd e))
         then st_lift (Inl (FrontierCorrupt (''accepted batch '' @ hex_id (pb_batch_id b) @ '' differs from its authenticated causal record'')))
         else if pb_acceptance_sequence b \<le> pr_acceptance_sequence root \<and> pr_state_digest root \<noteq> pr_state_digest (pb_prior_frontier_root b)
         then st_return () else st_lift (Inl FrontierRegression))
       else st_lift (Inl (BatchCollision (pb_batch_id b))))) db1
      (\<lambda>_ db'. already_applied H log b \<and> still H R q db db') (\<lambda>_ _. True)"
    unfolding if_not_P [OF some]
  proof (rule runs_lift_any)
    fix same
    assume same: "stored_matches_request H (entry_row H e) b = Inr same"
    show "runs (if same then
         st_bind (batch_map_value H root (pb_batch_id b)) (\<lambda>value.
         if value \<noteq> Some (accepted_causal_record_digest H b (snd e))
         then st_lift (Inl (FrontierCorrupt (''accepted batch '' @ hex_id (pb_batch_id b) @ '' differs from its authenticated causal record'')))
         else if pb_acceptance_sequence b \<le> pr_acceptance_sequence root \<and> pr_state_digest root \<noteq> pr_state_digest (pb_prior_frontier_root b)
         then st_return () else st_lift (Inl FrontierRegression))
       else st_lift (Inl (BatchCollision (pb_batch_id b)))) db1
      (\<lambda>_ db'. already_applied H log b \<and> still H R q db db') (\<lambda>_ _. True)"
    proof (cases same)
      case True
      have row: "entry_row H e = event_row H b (snd e)" using stored_matches_row same True by simp
      have in_log: "e \<in> set log" "entry_id e = pb_batch_id b" using log_entry_in [OF e] by auto
      show ?thesis
        unfolding if_P [OF True]
      proof (rule runs_still [OF batch_map_value_log [of H R q db1 root log] db1])
        fix v db2
        assume v: "v = map_option (\<lambda>e. snd (entry_binding H e)) (log_entry log (pb_batch_id b))" and db2: "still H R q db db2"
        have "already_applied H log b" if "v = Some (accepted_causal_record_digest H b (snd e))"
          using that v e row in_log by (auto simp: already_applied_def entry_binding_def)
        then show "runs (if v \<noteq> Some (accepted_causal_record_digest H b (snd e))
         then st_lift (Inl (FrontierCorrupt (''accepted batch '' @ hex_id (pb_batch_id b) @ '' differs from its authenticated causal record'')))
         else if pb_acceptance_sequence b \<le> pr_acceptance_sequence root \<and> pr_state_digest root \<noteq> pr_state_digest (pb_prior_frontier_root b)
         then st_return () else st_lift (Inl FrontierRegression)) db2
           (\<lambda>_ db'. already_applied H log b \<and> still H R q db db') (\<lambda>_ _. True)"
          using db2 by simp
      qed (use log1 log in auto)
    qed simp
  qed
qed (use still_refl [OF ok] in auto)

lemma require_dependencies_log:
  "still H R q db0 db \<Longrightarrow> log_holds H root log db \<Longrightarrow> log_fits H R log \<Longrightarrow>
   runs (require_dependencies H root heads) db (\<lambda>_ db'. still H R q db0 db') (\<lambda>_ _. True)"
proof (induction heads arbitrary: db)
  case Nil
  then show ?case by simp
next
  case (Cons h heads)
  have ok: "tables_ok H R q db" using Cons.prems(1) by (simp add: still_def)
  show ?case
    unfolding require_dependencies.simps
  proof (rule runs_still [OF authenticated_log [OF ok Cons.prems(2,3), of h None] still_refl [OF ok]])
    fix x db1
    assume "still H R q db db1"
    then have "still H R q db0 db1" "log_holds H root log db1"
      using still_trans [OF Cons.prems(1)] still_log [OF _ Cons.prems(2)] by auto
    then show "runs (if x = None then st_lift (Inl (MissingDependency h)) else require_dependencies H root heads) db1
        (\<lambda>_ db'. still H R q db0 db') (\<lambda>_ _. True)"
      using Cons.IH Cons.prems(3) by auto
  qed auto
qed

lemma runs_materialization:
  "runs m db Q (\<lambda>_ _. True) \<Longrightarrow> runs (materialization_op m) db Q (\<lambda>_ _. True)"
  by (auto simp: runs_def materialization_op_def split: prod.splits sum.splits)

lemma still_query:
  assumes "tables_ok H R q db" "\<And>db'. faults_only db db' \<Longrightarrow> f db' = f db"
  shows "runs (query f) db (\<lambda>_ db'. still H R q db db') (\<lambda>_ _. True)"
  by (rule runs_mono [OF query_runs [where f = f, OF tables_okD(3) [OF assms(1)] assms(2)]]) (auto intro: stillI(3) [OF assms(1)])

lemma still_stamp:
  assumes "tables_ok H R q db"
  shows "runs (ensure_stamp s d) db (\<lambda>_ db'. still H R q db db') (\<lambda>_ _. True)"
proof -
  have "runs (query_row (\<lambda>db. mat_stamp (db_materialization db))) db (\<lambda>_ db'. still H R q db db') (\<lambda>_ _. True)"
    unfolding query_row_def
    by (rule runs_bind [OF still_query [OF assms]])
      (auto simp: faults_only_tables runs_def st_lift_def split: sum.splits)
  from runs_materialization [OF this] show ?thesis
    unfolding ensure_stamp_def by (rule runs_bind) (auto split: prod.split)
qed

lemma still_recorded:
  assumes "tables_ok H R q db"
  shows "runs (recorded_digest s) db (\<lambda>_ db'. still H R q db db') (\<lambda>_ _. True)"
proof -
  have r: "runs (materialization_op (query (\<lambda>db. mat_batches (db_materialization db) n))) db (\<lambda>_ db'. still H R q db db') (\<lambda>_ _. True)" for n
    by (rule runs_materialization [OF still_query [OF assms]]) (simp add: faults_only_tables)
  show ?thesis
    unfolding recorded_digest_def
    by (rule runs_lift_any, rule runs_bind [OF r]) (auto split: option.split)
qed

definition follows_on :: "physical_frontier_root \<Rightarrow> entry list \<Rightarrow> physical_accepted_batch \<Rightarrow> bool" where
  "follows_on root log b \<longleftrightarrow>
     pb_batch_id b \<notin> entry_id ` set log \<and> unat (pb_acceptance_sequence b) = length log + 1
     \<and> pb_prior_frontier_root b = root \<and> pr_acceptance_sequence (pb_post_frontier_root b) = pb_acceptance_sequence b"

lemma check_new_log:
  assumes ok: "tables_ok H R q db" and log: "log_holds H root log db" "log_fits H R log"
    and fresh: "pb_batch_id (rq_batch rq) \<notin> entry_id ` set log"
  shows "runs (check_new_batch H root rq) db (\<lambda>_ db'. follows_on root log (rq_batch rq) \<and> still H R q db db') (\<lambda>_ _. True)"
  unfolding check_new_batch_def Let_def
proof (rule runs_bind [OF require_dependencies_log [OF still_refl [OF ok] log]], rule runs_lift_any)
  fix u db1 expected
  assume db1: "still H R q db db1"
    and "ok_or (FrontierCorrupt ''applied batch sequence overflowed'') (checked_add64 (pr_acceptance_sequence root) 1) = Inr expected"
  then have "unat expected = length log + 1"
    using checked_add64_Some log(1) by (auto simp: ok_or_Inr log_holds_def)
  then have f: "follows_on root log (rq_batch rq)"
    if "pb_acceptance_sequence (rq_batch rq) = expected" "root = pb_prior_frontier_root (rq_batch rq)"
      "pr_acceptance_sequence (pb_post_frontier_root (rq_batch rq)) = pb_acceptance_sequence (rq_batch rq)"
    using that fresh by (simp add: follows_on_def)
  have stamp: "runs (ensure_stamp s d) db1 (\<lambda>_ db'. still H R q db db') (\<lambda>_ _. True)" for s d
    using still_log [OF db1 log(1)] still_trans [OF db1] by (auto intro: runs_mono [OF still_stamp])
  show "runs (if pb_acceptance_sequence (rq_batch rq) \<noteq> expected
      then st_lift (Inl (AcceptanceOrder expected (pb_acceptance_sequence (rq_batch rq))))
      else if root \<noteq> pb_prior_frontier_root (rq_batch rq)
              \<or> pr_acceptance_sequence (pb_post_frontier_root (rq_batch rq)) \<noteq> pb_acceptance_sequence (rq_batch rq)
      then st_lift (Inl FrontierRegression)
      else if rq_materialization rq \<noteq> None
      then ensure_stamp (pr_acceptance_sequence root) (root_digest H root)
      else st_return ()) db1 (\<lambda>_ db'. follows_on root log (rq_batch rq) \<and> still H R q db db') (\<lambda>_ _. True)"
    using db1 f by (auto intro: runs_mono [OF stamp])
qed

definition planned :: "hash \<Rightarrow> physical_frontier_root \<Rightarrow> entry list \<Rightarrow> physical_accepted_batch \<Rightarrow> apply_plan \<Rightarrow> bool" where
  "planned H root log b plan \<longleftrightarrow>
     (case plan of AlreadyApplied \<Rightarrow> already_applied H log b | Proceed _ \<Rightarrow> follows_on root log b)"

lemma apply_checks_log:
  assumes ok: "tables_ok H R q db" and log: "log_holds H root log db" "log_fits H R log"
  shows "runs (apply_checks H root rq) db (\<lambda>plan db'. planned H root log (rq_batch rq) plan \<and> still H R q db db') (\<lambda>_ _. True)"
  unfolding apply_checks_def
proof (rule runs_lift_any)
  let ?b = "rq_batch rq"
  have frontier: "runs (read_matching_frontier H root) db (\<lambda>_ db'. True \<and> still H R q db db') (\<lambda>_ _. True)"
    unfolding read_matching_frontier_def by (rule runs_bind [OF still_read [OF ok]]) auto
  show "runs (st_bind (read_matching_frontier H root) (\<lambda>stored.
     st_bind (load_batch (pb_batch_id ?b)) (\<lambda>existing.
     case existing of
       Some row \<Rightarrow>
         st_bind (check_stored_duplicate H root ?b row) (\<lambda>_.
         st_bind (check_materialized_duplicate H rq) (\<lambda>_. st_return AlreadyApplied))
     | None \<Rightarrow> st_bind (check_new_batch H root rq) (\<lambda>_. st_return (Proceed stored))))) db
    (\<lambda>plan db'. planned H root log ?b plan \<and> still H R q db db') (\<lambda>_ _. True)"
  proof (rule runs_still [OF frontier still_refl [OF ok]])
    fix stored db1
    assume db1: "still H R q db db1"
    note 1 = still_log [OF db1 log(1)]
    show "runs (st_bind (load_batch (pb_batch_id ?b)) (\<lambda>existing.
     case existing of
       Some row \<Rightarrow>
         st_bind (check_stored_duplicate H root ?b row) (\<lambda>_.
         st_bind (check_materialized_duplicate H rq) (\<lambda>_. st_return AlreadyApplied))
     | None \<Rightarrow> st_bind (check_new_batch H root rq) (\<lambda>_. st_return (Proceed stored)))) db1
      (\<lambda>plan db'. planned H root log ?b plan \<and> still H R q db db') (\<lambda>_ _. True)"
    proof (rule runs_still [OF load_batch_log [of H R q db1 root log] db1])
      fix x db2
      assume x: "x = map_option (entry_row H) (log_entry log (pb_batch_id ?b))" and db2: "still H R q db db2"
      note 2 = still_log [OF db2 log(1)]
      show "runs (case x of
         Some row \<Rightarrow>
           st_bind (check_stored_duplicate H root ?b row) (\<lambda>_.
           st_bind (check_materialized_duplicate H rq) (\<lambda>_. st_return AlreadyApplied))
       | None \<Rightarrow> st_bind (check_new_batch H root rq) (\<lambda>_. st_return (Proceed stored))) db2
        (\<lambda>plan db'. planned H root log ?b plan \<and> still H R q db db') (\<lambda>_ _. True)"
      proof (cases "log_entry log (pb_batch_id ?b)")
        case None
        then have "pb_batch_id ?b \<notin> entry_id ` set log" by (simp add: log_entry_None)
        note new = check_new_log [OF conjunct1 [OF 2] conjunct2 [OF 2] log(2) this]
        show ?thesis
          unfolding x None option.map option.case
          by (rule runs_bind [OF new]) (auto simp: planned_def intro: still_trans [OF db2])
      next
        case (Some e)
        show ?thesis
          unfolding x Some option.map option.case
        proof (rule runs_still [OF check_duplicate_log [OF _ _ log(2) Some] db2])
          fix u db3
          assume dup: "already_applied H log ?b" and db3: "still H R q db db3"
          have ok3: "tables_ok H R q db3" using db3 by (simp add: still_def)
          have mat: "runs (check_materialized_duplicate H rq) db3 (\<lambda>_ db'. still H R q db3 db') (\<lambda>_ _. True)"
          proof (cases "rq_materialization_input_digest rq")
            case None
            then show ?thesis by (simp add: check_materialized_duplicate_def still_refl [OF ok3])
          next
            case (Some d)
            have rec: "runs (recorded_digest s) db4 (\<lambda>_ db'. still H R q db3 db') (\<lambda>_ _. True)" if "still H R q db3 db4" for s db4
              using that still_trans [OF that] by (auto simp: still_def [of H R q db3 db4] intro: runs_mono [OF still_recorded])
            show ?thesis
              unfolding check_materialized_duplicate_def Let_def Some option.case
              by (rule runs_bind [OF still_stamp [OF ok3]], rule runs_bind [OF rec]) auto
          qed
          show "runs (st_bind (check_materialized_duplicate H rq) (\<lambda>_. st_return AlreadyApplied)) db3
              (\<lambda>plan db'. planned H root log ?b plan \<and> still H R q db db') (\<lambda>_ _. True)"
            by (rule runs_bind [OF mat]) (use dup in \<open>auto simp: planned_def intro: still_trans [OF db3]\<close>)
        qed (use 2 in auto)
      qed
    qed (use 1 in auto)
  qed
qed

section \<open>Finishing the apply\<close>

lemma dom_put_documents: "dom (put_documents docs m) = dom m \<union> pd_document_id ` set docs"
  unfolding put_documents_def by (induction docs arbitrary: m) auto

lemma saturating_add64_exact: "unat a + unat b < 2 ^ 64 \<Longrightarrow> unat (saturating_add64 a b) = unat a + unat b"
  by (simp add: saturating_add64_def unat_word_ariths)

lemma apply_documents_ok:
  assumes q: "quiet q db" and m: "documents_match H K root m db"
    and docs: "pd_document_id ` set (pb_affected_documents b) \<subseteq> K"
      "unat (pr_document_count root) + length (pb_affected_documents b) < 2 ^ 64"
  shows "runs (apply_documents H root b) db
    (\<lambda>_ db'. documents_match H K (pb_post_frontier_root b) (put_documents (pb_affected_documents b) m) db'
       \<and> documents_keep K db db' \<and> quiet q db') (\<lambda>_ _. True)"
proof -
  let ?docs = "pb_affected_documents b" and ?post = "pb_post_frontier_root b"
  let ?root = "root_link (pr_document_map_root_key root) (pr_document_map_root_digest root)"
  have m': "documents_hold H db ?root m" "unat (pr_document_count root) = card (dom m)" "dom m \<subseteq> K" "document_room H K"
    using m by (auto simp: documents_match_def)
  have loop: "runs (upsert_documents_loop H ?docs ?root 0) db
     (\<lambda>(x, n) db'. documents_hold H db' x (put_documents ?docs m) \<and> quiet q db' \<and> documents_keep K db db'
        \<and> unat n + card (dom m) = card (dom (put_documents ?docs m)) \<and> unat n \<le> length ?docs) (\<lambda>_ _. True)"
    by (rule runs_mono [OF upsert_documents_loop_ok [where n = 0, OF q m'(1,4,3) docs(1)]]) (use docs(2) in auto)
  show ?thesis
    unfolding apply_documents_def
  proof (rule runs_bind [OF loop], clarify)
    fix x and n :: u64 and db1
    assume h: "documents_hold H db1 x (put_documents ?docs m)" and q1: "quiet q db1" and keep: "documents_keep K db db1"
      and n: "unat n + card (dom m) = card (dom (put_documents ?docs m))" "unat n \<le> length ?docs"
    have "unat (saturating_add64 (pr_document_count root) n) = card (dom (put_documents ?docs m))"
      using n docs(2) m'(2) by (subst saturating_add64_exact) auto
    then have "documents_match H K ?post (put_documents ?docs m) db1"
      if "pr_document_count ?post = saturating_add64 (pr_document_count root) n" "root_link (pr_document_map_root_key ?post) (pr_document_map_root_digest ?post) = x"
      using that h m'(3,4) docs(1) by (simp add: documents_match_def dom_put_documents)
    then show "runs (let (key, digest) = case x of None \<Rightarrow> (None, pr_document_map_root_digest root) | Some link \<Rightarrow> (Some (link_key link), link_digest link);
            post = ?post
        in if pr_document_count post \<noteq> saturating_add64 (pr_document_count root) n \<or> pr_document_map_root_key post \<noteq> key \<or> pr_document_map_root_digest post \<noteq> digest
           then st_lift (Inl FrontierRegression) else st_return ()) db1
       (\<lambda>_ db'. documents_match H K ?post (put_documents ?docs m) db' \<and> documents_keep K db db' \<and> quiet q db') (\<lambda>_ _. True)"
      using q1 keep by (cases x) (auto simp: root_link_def Let_def)
  qed
qed

lemma documents_match_same:
  assumes "db_documents db' = db_documents db"
  shows "documents_match H K root m db' = documents_match H K root m db"
proof -
  have "documents_stored H db' t = documents_stored H db t" for t
    by (rule documents_stored_cong) (rule assms)
  then show ?thesis by (simp add: documents_match_def documents_hold_def)
qed

lemma projection_tables:
  fixes db :: "'m frontier_db"
  shows "runs (apply_materialization M transaction n change sequence d post reference) db
     (\<lambda>_ db'. \<exists>m. db' = db\<lparr>db_materialization := m\<rparr>) (\<lambda>_ _. True)"
proof -
  have p: "runs (apply_projection M change sequence d post reference c) db1 (\<lambda>_ db'. \<exists>m. db' = db1\<lparr>db_materialization := m\<rparr>) (\<lambda>_ _. True)"
    for c and db1 :: "'m frontier_db"
    by (auto simp: runs_def apply_projection_def split: prod.splits sum.splits)
  have "runs require_transaction db (\<lambda>_ db'. db' = db) (\<lambda>_ _. True)"
    by (simp add: runs_def require_transaction_def)
  then have "runs (st_bind require_transaction (\<lambda>_. apply_projection M change sequence d post reference c)) db
      (\<lambda>_ db'. \<exists>m. db' = db\<lparr>db_materialization := m\<rparr>) (\<lambda>_ _. True)" for c
    by (rule runs_bind) (use p in auto)
  with p show ?thesis
    by (simp add: apply_materialization_def Let_def split: open_apply_transaction.split)
qed

text \<open>What \<^const>\<open>finish_apply\<close> starts from: the batch is in the log, the frontier row still the old one.\<close>

lemma finish_ok:
  fixes db :: "'m frontier_db" and M :: "('m, 'c, 'r, 'i) materializer"
  assumes log: "log_holds H post log db" "tables_ok H R q db" "log_fits H R log" and row: "db_frontier db \<noteq> None"
    and m: "documents_match H K root m db" and docs: "pd_document_id ` set (pb_affected_documents b) \<subseteq> K"
      "unat (pr_document_count root) + length (pb_affected_documents b) < 2 ^ 64"
    and b: "rq_batch rq = b" "pb_post_frontier_root b = post" "pr_acceptance_sequence post = pb_acceptance_sequence b"
  shows "runs (finish_apply H M transaction root rq documents) db
    (\<lambda>result db'. ar_disposition result = Applied \<and> history_holds H R q post log db'
       \<and> (documents \<longrightarrow> documents_match H K post (put_documents (pb_affected_documents b) m) db')
       \<and> (\<not> documents \<longrightarrow> db_documents db' = db_documents db)) (\<lambda>_ _. True)"
    (is "runs _ _ ?Q _")
proof -
  let ?stage = "\<lambda>db' :: 'm frontier_db. same_log_tables db db' \<and> quiet q db' \<and> db_frontier db' \<noteq> None
     \<and> (documents \<longrightarrow> documents_match H K post (put_documents (pb_affected_documents b) m) db')
     \<and> (\<not> documents \<longrightarrow> db_documents db' = db_documents db)"
  note q = tables_okD(3) [OF log(2)]
  have 1: "runs (if documents then apply_documents H root b else st_return ()) db (\<lambda>_. ?stage) (\<lambda>_ _. True)"
  proof (cases documents)
    case True
    have "runs (apply_documents H root b) db (\<lambda>_. ?stage) (\<lambda>_ _. True)"
      by (rule runs_mono [OF apply_documents_ok [OF q m docs]])
        (use True row b(2) in \<open>auto simp: documents_keep_def same_log_tables_def\<close>)
    with True show ?thesis by simp
  qed (use q row in \<open>simp add: same_log_tables_def\<close>)
  have update: "runs (update_frontier H b) db1 (\<lambda>_. ?Q \<lparr>ar_disposition = Applied, ar_materialization = stats\<rparr>) (\<lambda>_ _. True)"
    if s: "?stage db1" for db1 and stats :: 'i
    unfolding update_frontier_def
  proof (rule runs_lift_any)
    fix count
    assume "i64_of_u64 (FrontierCorrupt ''applied batch sequence exceeds SQLite'') (pb_acceptance_sequence b) = Inr count"
    then have count: "count = uint (pb_acceptance_sequence b)" by (simp add: i64_of_u64_def split: if_splits)
    show "runs (update_db (\<lambda>db. db\<lparr>db_frontier := map_option (\<lambda>_. \<lparr>frontier_root = pr_canonical_bytes (pb_post_frontier_root b),
        frontier_root_digest = array_bytes (root_digest H (pb_post_frontier_root b)), applied_batch_count = count\<rparr>) (db_frontier db)\<rparr>)) db1
       (\<lambda>_. ?Q \<lparr>ar_disposition = Applied, ar_materialization = stats\<rparr>) (\<lambda>_ _. True)"
    proof (rule runs_mono [OF update_runs [of q]], goal_cases)
      case 1
      show ?case using s by simp
    next
      case (2 u db')
      then obtain db2 where f: "faults_only db1 db2" "quiet q db2"
        and db': "db' = db2\<lparr>db_frontier := map_option (\<lambda>_. \<lparr>frontier_root = pr_canonical_bytes post,
            frontier_root_digest = array_bytes (root_digest H post), applied_batch_count = count\<rparr>) (db_frontier db2)\<rparr>"
        using b(2) by auto
      note t = faults_only_tables [OF f(1)]
      have same: "same_log_tables db db'" and q': "quiet q db'" and doc: "db_documents db' = db_documents db1"
        using s f(2) by (auto simp: db' t same_log_tables_def quiet_def)
      have "db_frontier db' = Some (root_row H post)"
        using s b(3) by (auto simp: db' t count root_row_def)
      then have "history_holds H R q post log db'"
        using log tables_ok_same [OF same q'] log_holds_same [OF same] by (simp add: history_holds_def)
      then show ?case using s doc documents_match_same [OF doc] by auto
    qed simp
  qed
  have rest: "runs (if rq_fault rq = ReturnAfterMaterialization then st_lift (Inl InjectedFailure)
      else st_bind (update_frontier H b) (\<lambda>_. st_return \<lparr>ar_disposition = Applied, ar_materialization = stats\<rparr>)) db1 ?Q (\<lambda>_ _. True)"
    if "?stage db1" for db1 and stats :: 'i
    using runs_bind [OF update [OF that, of stats], where f = "\<lambda>_. st_return \<lparr>ar_disposition = Applied, ar_materialization = stats\<rparr>" and Q = ?Q]
    by simp
  have mat: "runs (apply_materialization M transaction n change sequence d r reference) db1 (\<lambda>_. ?stage) (\<lambda>_ _. True)"
    if "?stage db1" for db1 n change sequence d r reference
  proof (rule runs_mono [OF projection_tables], clarify)
    fix x
    have "documents_match H K post m' (db1\<lparr>db_materialization := x\<rparr>) = documents_match H K post m' db1" for m'
      by (rule documents_match_same) simp
    then show "?stage (db1\<lparr>db_materialization := x\<rparr>)" using that by (simp add: same_log_tables_def quiet_def)
  qed simp
  show ?thesis
    unfolding finish_apply_def Let_def b(1,2)
  proof (rule runs_bind [OF 1], rule runs_bind [where Q' = "\<lambda>_. ?stage"])
    fix u db1
    assume s: "?stage db1"
    then have "runs (st_return (no_changes M)) db1 (\<lambda>_. ?stage) (\<lambda>_ _. True)" by simp
    with mat [OF s] show "runs (case (rq_materialization rq, rq_materialization_input_digest rq) of
        (Some change, Some input_digest) \<Rightarrow>
          apply_materialization M transaction (rq_prior_reference_coverage_count rq) change
            (pb_acceptance_sequence b) input_digest (root_digest H post) (rq_authenticated_reference rq)
      | _ \<Rightarrow> st_return (no_changes M)) db1 (\<lambda>_. ?stage) (\<lambda>_ _. True)"
      by (simp only: prod.case split: option.split) blast
  qed (rule rest)
qed

section \<open>The refinement\<close>

lemma open_transaction_log:
  assumes log: "log_holds H root log db" "tables_ok H R q db" "log_fits H R log" and row: "db_frontier db \<noteq> None"
    and m: "documents_match H K root m db"
    and b: "rq_batch rq = b" "follows_on root log b" "request_fits H R K root log b"
    and run: "apply_in_open_transaction H M transaction root rq stored documents db = Some (Inr r, db')"
  obtains lk where "ar_disposition r = Applied" "history_holds H R q (pb_post_frontier_root b) (log @ [(b, lk)]) db'"
    "documents \<Longrightarrow> documents_match H K (pb_post_frontier_root b) (put_documents (pb_affected_documents b) m) db'"
    "\<not> documents \<Longrightarrow> db_documents db' = db_documents db"
proof -
  note b' = b(2) [unfolded follows_on_def] b(3) [unfolded request_fits_def]
  have accept: "runs (accept_batch H root b stored) db
    (\<lambda>lk db'. log_holds H (pb_post_frontier_root b) (log @ [(b, lk)]) db' \<and> tables_ok H R q db'
       \<and> log_fits H R (log @ [(b, lk)]) \<and> same_other_tables db db') (\<lambda>_ _. True)"
    by (rule accept_log [OF log(2,1,3)]) (use b' in auto)
  obtain lk db1 where 1: "accept_batch H root b stored db = (Inr lk, db1)"
      and fin: "finish_apply H M transaction root rq documents db1 = (Inr r, db')"
    using run b(1) by (auto simp: apply_in_open_transaction_def split: prod.splits sum.splits apply_fault.splits)
  from runs_Inr [OF accept 1] have post: "log_holds H (pb_post_frontier_root b) (log @ [(b, lk)]) db1" "tables_ok H R q db1"
      "log_fits H R (log @ [(b, lk)])" and other: "same_other_tables db db1" by auto
  have row1: "db_frontier db1 \<noteq> None" and doc1: "db_documents db1 = db_documents db"
    using other row by (auto simp: same_other_tables_def)
  have m1: "documents_match H K root m db1" using m documents_match_same [OF doc1] by simp
  have "ar_disposition r = Applied \<and> history_holds H R q (pb_post_frontier_root b) (log @ [(b, lk)]) db'
      \<and> (documents \<longrightarrow> documents_match H K (pb_post_frontier_root b) (put_documents (pb_affected_documents b) m) db')
      \<and> (\<not> documents \<longrightarrow> db_documents db' = db_documents db1)"
    by (rule runs_Inr [OF finish_ok [OF post row1 m1 _ _ b(1)] fin]) (use b' in auto)
  with doc1 show thesis by (intro that [of lk]) auto
qed

lemma policy_duplicate:
  assumes f: "frontier_holds H R K q root a db" and checks: "apply_checks H root rq db = (Inr AlreadyApplied, db')"
  shows "already_applied H (af_log a) (rq_batch rq) \<and> frontier_holds H R K q root a db'"
proof -
  have h: "history_holds H R q root (af_log a) db" "documents_match H K root (af_documents a) db"
    using f by (auto simp: frontier_holds_def)
  note h' = h(1) [unfolded history_holds_def]
  have dup: "already_applied H (af_log a) (rq_batch rq)" and s: "still H R q db db'"
    using runs_Inr [OF apply_checks_log checks] h' by (auto simp: planned_def)
  note other = nodes_other [of db db'] s [unfolded still_def]
  have same: "db_documents db' = db_documents db" "db_frontier db' = db_frontier db"
    using other by (auto simp: same_other_tables_def)
  show ?thesis
    using dup h h' s still_log [OF s] documents_match_same [OF same(1)] same(2)
    by (auto simp: frontier_holds_def history_holds_def)
qed

lemma policy_applied:
  assumes f: "frontier_holds H R K q root a db" and b: "rq_batch rq = b" "request_fits H R K root (af_log a) b"
    and checks: "apply_checks H root rq db = (Inr (Proceed stored), checked)"
    and begun: "faults_only checked db1" "quiet q db1"
    and run: "apply_in_open_transaction H M transaction root rq stored documents (db1\<lparr>db_autocommit := c\<rparr>) = Some (Inr r, db')"
  obtains lk where "ar_disposition r = Applied" "follows_on root (af_log a) b"
    "history_holds H R q (pb_post_frontier_root b) (af_log a @ [(b, lk)]) db'"
    "documents \<Longrightarrow> documents_match H K (pb_post_frontier_root b) (put_documents (pb_affected_documents b) (af_documents a)) db'"
    "\<not> documents \<Longrightarrow> db_documents db' = db_documents db"
proof -
  let ?db1 = "db1\<lparr>db_autocommit := c\<rparr>" and ?log = "af_log a"
  have h: "history_holds H R q root ?log db" "documents_match H K root (af_documents a) db"
    using f by (auto simp: frontier_holds_def)
  note h' = h(1) [unfolded history_holds_def]
  have follows: "follows_on root ?log b" and s: "still H R q db checked"
    using runs_Inr [OF apply_checks_log checks] h' b(1) by (auto simp: planned_def)
  note t = faults_only_tables [OF begun(1)]
  have same: "same_log_tables checked ?db1" using t by (simp add: same_log_tables_def)
  have log1: "log_holds H root ?log ?db1" "tables_ok H R q ?db1"
    using still_log [OF s] h' log_holds_same [OF same] tables_ok_same [OF same] begun(2) by (auto simp: quiet_def)
  have "same_other_tables db checked" using nodes_other s by (auto simp: still_def)
  then have other: "db_documents ?db1 = db_documents db" "db_frontier ?db1 = db_frontier db"
    using t by (auto simp: same_other_tables_def)
  have row: "db_frontier ?db1 \<noteq> None" using h' other by simp
  have m1: "documents_match H K root (af_documents a) ?db1" using h(2) documents_match_same [OF other(1)] by simp
  show thesis
    by (rule open_transaction_log [OF log1 _ row m1 b(1) follows b(2) run])
      (use h' follows other in \<open>auto intro: that\<close>)
qed

text \<open>An apply as a step of the abstract frontier.\<close>

definition abstract_apply ::
    "hash \<Rightarrow> physical_frontier_root \<Rightarrow> physical_accepted_batch \<Rightarrow> abstract_frontier \<Rightarrow> apply_disposition \<Rightarrow> abstract_frontier \<Rightarrow> bool" where
  "abstract_apply H root b a disposition a' \<longleftrightarrow>
     (case disposition of
        Applied \<Rightarrow> follows_on root (af_log a) b
          \<and> (\<exists>lk. a' = \<lparr>af_log = af_log a @ [(b, lk)], af_documents = put_documents (pb_affected_documents b) (af_documents a)\<rparr>)
      | DuplicateApply \<Rightarrow> already_applied H (af_log a) b \<and> a' = a)"

definition root_after :: "physical_frontier_root \<Rightarrow> physical_accepted_batch \<Rightarrow> apply_disposition \<Rightarrow> physical_frontier_root" where
  "root_after root b disposition = (case disposition of Applied \<Rightarrow> pb_post_frontier_root b | DuplicateApply \<Rightarrow> root)"

lemma frontier_holds_autocommit:
  assumes "faults_only db db1" "quiet q db1"
  shows "frontier_holds H R K q root a db \<Longrightarrow> frontier_holds H R K q root a (db1\<lparr>db_autocommit := c\<rparr>)"
proof -
  let ?db = "db1\<lparr>db_autocommit := c\<rparr>"
  assume f: "frontier_holds H R K q root a db"
  note t = faults_only_tables [OF assms(1)]
  have same: "same_log_tables db ?db" "db_documents ?db = db_documents db" "db_frontier ?db = db_frontier db" "quiet q ?db"
    using t assms(2) by (auto simp: same_log_tables_def quiet_def)
  show "frontier_holds H R K q root a ?db"
    using f tables_ok_same [OF same(1,4)] log_holds_same [OF same(1)] documents_match_same [OF same(2)] same(3)
    by (simp add: frontier_holds_def history_holds_def)
qed

text \<open>The refinement itself.\<close>

lemma apply_batch_step:
  assumes "frontier_holds H R K q root a db" "request_fits H R K root (af_log a) (rq_batch rq)"
    and "apply_batch H M root rq db = Some (Inr r, db')"
  shows "\<exists>a'. abstract_apply H root (rq_batch rq) a (ar_disposition r) a'
    \<and> frontier_holds H R K q (root_after root (rq_batch rq) (ar_disposition r)) a' db'"
  using assms(3)
proof (cases rule: apply_batch_cases)
  case unchanged
  then have dup: "ar_disposition r = DuplicateApply" by simp
  from assms(3) this have "apply_checks H root rq db = (Inr AlreadyApplied, db')"
    by (auto simp: apply_batch_def apply_with_transaction_policy_def apply_in_open_transaction_def finish_is_applied
        split: prod.splits sum.splits apply_plan.splits if_splits option.splits apply_fault.splits)
  from policy_duplicate [OF assms(1) this] show ?thesis
    by (auto simp: dup abstract_apply_def root_after_def)
next
  case (applied r' stored checked begun db'')
  have "quiet q checked"
    using runs_Inr [OF apply_checks_log applied(3)] assms(1)
    by (auto simp: frontier_holds_def history_holds_def still_def dest: tables_okD)
  then have q: "quiet q begun" using only_reads_quiet [OF only_reads_statement applied(5)] by simp
  note run = policy_applied [OF assms(1) refl assms(2) applied(3) only_readsD [OF only_reads_statement applied(5)] q applied(6)]
  obtain lk where lk: "ar_disposition r' = Applied" "follows_on root (af_log a) (rq_batch rq)"
      "history_holds H R q (pb_post_frontier_root (rq_batch rq)) (af_log a @ [(rq_batch rq, lk)]) db''"
      "documents_match H K (pb_post_frontier_root (rq_batch rq)) (put_documents (pb_affected_documents (rq_batch rq)) (af_documents a)) db''"
    by (rule run) auto
  obtain db3 where 3: "statement db'' = (Inr (), db3)" "db' = db3\<lparr>db_autocommit := True\<rparr>"
    using applied(7) by blast
  let ?a = "\<lparr>af_log = af_log a @ [(rq_batch rq, lk)], af_documents = put_documents (pb_affected_documents (rq_batch rq)) (af_documents a)\<rparr>"
  have h: "frontier_holds H R K q (pb_post_frontier_root (rq_batch rq)) ?a db''"
    using lk(3,4) by (simp add: frontier_holds_def)
  then have "quiet q db3"
    using only_reads_quiet [OF only_reads_statement 3(1)] by (auto simp: frontier_holds_def history_holds_def dest: tables_okD)
  from frontier_holds_autocommit [OF only_readsD [OF only_reads_statement 3(1)] this h] show ?thesis
    using lk(1,2) applied(1) 3(2)
    by (intro exI [of _ ?a]) (simp add: abstract_apply_def root_after_def)
qed

end
