(* ===== verification/Frontier_Seed.thy ===== *)
theory Frontier_Seed
  imports Frontier_Refinement
begin

text \<open>
  The terminal document frontier (\<open>seed_terminal_frontier_documents_candidate\<close>): the sorted documents are built into the
  treap in one pass, as a Cartesian tree over their indices, and every node is written once.  The build gives the
  tree, and so the root, that one upsert per document gives.
\<close>

section \<open>Operations\<close>

record shape_node =
  sn_left :: "nat option"
  sn_right :: "nat option"

definition documents_before :: "hash \<Rightarrow> physical_frontier_document list \<Rightarrow> nat \<Rightarrow> nat \<Rightarrow> bool" where
  "documents_before H documents i j \<longleftrightarrow>
     authenticated_map_priority_order H (pd_document_id (documents ! i)) (pd_document_id (documents ! j))"

text \<open>The inner \<open>while\<close>: the head of the list is the top of the stack, and \<open>popped\<close> the variable \<open>last\<close>.\<close>

fun pop_lower :: "hash \<Rightarrow> physical_frontier_document list \<Rightarrow> nat \<Rightarrow> nat list \<Rightarrow> nat option \<Rightarrow> nat option \<times> nat list" where
  "pop_lower H documents index [] popped = (popped, [])"
| "pop_lower H documents index (prior # stack) popped =
     (if documents_before H documents index prior then pop_lower H documents index stack (Some prior)
      else (popped, prior # stack))"

definition shape_step ::
    "hash \<Rightarrow> physical_frontier_document list \<Rightarrow> nat \<Rightarrow> shape_node list \<times> nat list \<Rightarrow> shape_node list \<times> nat list" where
  "shape_step H documents index = (\<lambda>(shape, stack).
     let (popped, stack) = pop_lower H documents index stack None;
         shape = (case stack of [] \<Rightarrow> shape | parent # _ \<Rightarrow> shape[parent := (shape ! parent)\<lparr>sn_right := Some index\<rparr>])
     in (shape[index := (shape ! index)\<lparr>sn_left := popped\<rparr>], index # stack))"

definition terminal_shape :: "hash \<Rightarrow> physical_frontier_document list \<Rightarrow> shape_node list \<times> nat list" where
  "terminal_shape H documents =
     fold (shape_step H documents) [0..<length documents]
       (replicate (length documents) \<lparr>sn_left = None, sn_right = None\<rparr>, [])"

definition terminal_link ::
    "physical_frontier_document list \<Rightarrow> digest option list \<Rightarrow> nat option \<Rightarrow> frontier_error + map_link option" where
  "terminal_link documents digests child =
     (case child of
        None \<Rightarrow> Inr None
      | Some c \<Rightarrow>
          bind_res (ok_or (FrontierCorrupt ''terminal frontier child digest was not constructed'') (digests ! c)) (\<lambda>d.
          Inr (Some \<lparr>link_key = pd_document_id (documents ! c), link_digest = d\<rparr>)))"

definition terminal_node ::
    "hash \<Rightarrow> physical_frontier_document list \<Rightarrow> shape_node list \<Rightarrow> digest option list \<Rightarrow> nat \<Rightarrow> frontier_error + frontier_map_node" where
  "terminal_node H documents shape digests index =
     bind_res (terminal_link documents digests (sn_left (shape ! index))) (\<lambda>l.
     bind_res (terminal_link documents digests (sn_right (shape ! index))) (\<lambda>r.
     Inr (refresh_digest H
       \<lparr>fn_document_id = pd_document_id (documents ! index), fn_encoded = pd_canonical_bytes (documents ! index),
        fn_value_digest = H (pd_canonical_bytes (documents ! index)), fn_left = l, fn_right = r,
        fn_node_digest = H EMPTY_MAP_TEXT\<rparr>)))"

text \<open>The traversal, the head of \<open>pending\<close> being the top of its stack; not ending is \<^const>\<open>None\<close>.\<close>

partial_function (option) construct_loop ::
    "hash \<Rightarrow> physical_frontier_document list \<Rightarrow> shape_node list \<Rightarrow> (nat \<times> nat \<times> bool) list \<Rightarrow>
     digest option list \<Rightarrow> frontier_map_node option list \<Rightarrow>
     (frontier_error + digest option list \<times> frontier_map_node option list) option" where
  "construct_loop H documents shape pending digests constructed =
     (case pending of
        [] \<Rightarrow> Some (Inr (digests, constructed))
      | (index, depth, visited) # rest \<Rightarrow>
          (case ensure_depth depth ''terminal frontier map construction'' of
             Inl e \<Rightarrow> Some (Inl e)
           | Inr _ \<Rightarrow>
               if \<not> visited then
                 construct_loop H documents shape
                   (map (\<lambda>child. (child, depth + 1, False))
                      (opt_list (sn_left (shape ! index)) @ opt_list (sn_right (shape ! index)))
                    @ (index, depth, True) # rest) digests constructed
               else
                 (case terminal_node H documents shape digests index of
                    Inl e \<Rightarrow> Some (Inl e)
                  | Inr node \<Rightarrow>
                      construct_loop H documents shape rest (digests[index := Some (fn_node_digest node)])
                        (constructed[index := Some node]))))"

declare construct_loop.simps [code]

text \<open>The root of a nonempty build, \<open>stack[0]\<close> with its digest, and the nodes in the order of the documents.\<close>

definition construct_terminal ::
    "hash \<Rightarrow> physical_frontier_document list \<Rightarrow> (frontier_error + map_link \<times> frontier_map_node list) option" where
  "construct_terminal H documents =
     (let (shape, stack) = terminal_shape H documents;
          root_index = last stack;
          n = length documents
      in map_option (\<lambda>result.
           bind_res result (\<lambda>(digests, constructed).
           bind_res (ok_or (FrontierCorrupt ''terminal frontier root digest was not constructed'') (digests ! root_index)) (\<lambda>d.
           Inr (\<lparr>link_key = pd_document_id (documents ! root_index), link_digest = d\<rparr>, concat (map opt_list constructed)))))
         (construct_loop H documents shape [(root_index, 0, False)] (replicate n None) (replicate n None)))"

fun store_nodes :: "hash \<Rightarrow> frontier_map_node list \<Rightarrow> ('m, unit) db_op" where
  "store_nodes H [] = st_return ()"
| "store_nodes H (node # rest) = st_bind (store_frontier_map_node H node) (\<lambda>_. store_nodes H rest)"

definition require_candidate_build :: "('m, unit) db_op" where
  "require_candidate_build db =
     (if db_autocommit db
      then Inl (FrontierInvalidInput ''terminal document frontier requires an active candidate-build transaction'')
      else Inr (), db)"

definition seed_checks ::
    "hash \<Rightarrow> physical_frontier_root \<Rightarrow> physical_frontier_document list \<Rightarrow> ('m, unit) db_op" where
  "seed_checks H expected_root documents =
     st_bind require_candidate_build (\<lambda>_.
     st_bind (read_frontier H) (\<lambda>stored.
     if \<not> frontier_matches H expected_root stored then st_lift (Inl FrontierRegression)
     else
       st_bind (query_row (\<lambda>db. Some (length (db_documents db)))) (\<lambda>stored_documents.
       if stored_documents \<noteq> 0
       then st_lift (Inl (FrontierInvalidInput ''terminal document frontier requires an empty frontier_documents table''))
       else if \<not> strictly_sorted (map pd_document_id documents)
       then st_lift (Inl (FrontierInvalidInput ''terminal frontier documents are not sorted unique''))
       else if pr_document_count expected_root \<noteq> word_of_nat (length documents)
       then st_lift (Inl FrontierRegression)
       else st_return ())))"

definition seed_terminal_frontier_documents_candidate ::
    "hash \<Rightarrow> physical_frontier_root \<Rightarrow> physical_frontier_document list \<Rightarrow> 'm frontier_db \<Rightarrow>
     ((frontier_error + unit) \<times> 'm frontier_db) option" where
  "seed_terminal_frontier_documents_candidate H expected_root documents db =
     (case seed_checks H expected_root documents db of
        (Inl e, db') \<Rightarrow> Some (Inl e, db')
      | (Inr _, db') \<Rightarrow>
          if documents = [] then
            Some (if pr_document_map_root_key expected_root \<noteq> None \<or> pr_document_map_root_digest expected_root \<noteq> H EMPTY_MAP_TEXT
                  then Inl FrontierRegression else Inr (), db')
          else
            (case construct_terminal H documents of
               None \<Rightarrow> None
             | Some (Inl e) \<Rightarrow> Some (Inl e, db')
             | Some (Inr (root, nodes)) \<Rightarrow>
                 if pr_document_map_root_key expected_root \<noteq> Some (link_key root)
                    \<or> pr_document_map_root_digest expected_root \<noteq> link_digest root
                 then Some (Inl FrontierRegression, db')
                 else Some (store_nodes H nodes db')))"

section \<open>The tree in the shape\<close>

text \<open>\<open>t\<close> is the tree whose root is the index \<open>c\<close>, over exactly the documents \<open>lo\<close> to \<open>hi - 1\<close>.\<close>

fun encodes ::
    "physical_frontier_document list \<Rightarrow> shape_node list \<Rightarrow> nat \<Rightarrow> nat \<Rightarrow> nat option \<Rightarrow> (uuid, bytes) treap \<Rightarrow> bool" where
  "encodes d s lo hi c Tip = (c = None \<and> lo = hi)"
| "encodes d s lo hi c (Bin l k v r) =
     (\<exists>i. c = Some i \<and> lo \<le> i \<and> i < hi \<and> (k, v) = pair_of (d ! i)
        \<and> encodes d s lo i (sn_left (s ! i)) l \<and> encodes d s (Suc i) hi (sn_right (s ! i)) r)"

lemma encodes_le: "encodes d s lo hi c t \<Longrightarrow> lo \<le> hi"
  by (cases t) auto

lemma encodes_cong: "(\<And>j. lo \<le> j \<Longrightarrow> j < hi \<Longrightarrow> s ! j = s' ! j) \<Longrightarrow> encodes d s lo hi c t = encodes d s' lo hi c t"
proof (induction t arbitrary: lo hi c)
  case (Bin l k v r)
  have "(lo \<le> i \<and> i < hi \<and> (k, v) = pair_of (d ! i) \<and> encodes d s lo i (sn_left (s ! i)) l \<and> encodes d s (Suc i) hi (sn_right (s ! i)) r)
     = (lo \<le> i \<and> i < hi \<and> (k, v) = pair_of (d ! i) \<and> encodes d s' lo i (sn_left (s' ! i)) l \<and> encodes d s' (Suc i) hi (sn_right (s' ! i)) r)" for i
  proof (cases "lo \<le> i \<and> i < hi")
    case True
    then show ?thesis
      using Bin.IH(1) [of lo i "sn_left (s ! i)"] Bin.IH(2) [of "Suc i" hi "sn_right (s ! i)"] Bin.prems by auto
  qed auto
  then show ?case by simp
qed simp

lemma encodes_entries: "encodes d s lo hi c t \<Longrightarrow> tentries t = pair_of ` (!) d ` {lo..<hi}"
proof (induction t arbitrary: lo hi c)
  case (Bin l k v r)
  then obtain i where i: "lo \<le> i" "i < hi" "(k, v) = pair_of (d ! i)" "encodes d s lo i (sn_left (s ! i)) l"
      "encodes d s (Suc i) hi (sn_right (s ! i)) r" by auto
  have "{lo..<hi} = insert i ({lo..<i} \<union> {Suc i..<hi})" using i(1,2) by auto
  then show ?case using Bin.IH(1) [OF i(4)] Bin.IH(2) [OF i(5)] i(3) by auto
qed simp

lemma encodes_keys: "encodes d s lo hi c t \<Longrightarrow> tkeys t = (\<lambda>j. pd_document_id (d ! j)) ` {lo..<hi}"
  unfolding keys_entries by (simp add: encodes_entries image_image pair_of_def)

text \<open>
  The stack during the build, as the indices on it with their left subtrees: each is the right child of the one below, and the
  top has the tree of \<open>child\<close> on its right, which starts at the document \<open>hi\<close>.
\<close>

fun spine ::
    "physical_frontier_document list \<Rightarrow> shape_node list \<Rightarrow> nat option \<Rightarrow> nat \<Rightarrow> (nat \<times> (uuid, bytes) treap) list \<Rightarrow> bool" where
  "spine d s child hi [] = (hi = 0)"
| "spine d s child hi ((i, l) # rest) =
     (hi = Suc i \<and> sn_right (s ! i) = child \<and> (\<exists>lo. encodes d s lo i (sn_left (s ! i)) l \<and> spine d s (Some i) lo rest))"

lemma spine_cong: "(\<And>j. j < hi \<Longrightarrow> s ! j = s' ! j) \<Longrightarrow> spine d s child hi st = spine d s' child hi st"
proof (induction st arbitrary: child hi)
  case (Cons p st)
  obtain i l where p: "p = (i, l)" by (cases p)
  have "(encodes d s lo i (sn_left (s ! i)) l \<and> spine d s (Some i) lo st) = (encodes d s' lo i (sn_left (s ! i)) l \<and> spine d s' (Some i) lo st)"
    if "hi = Suc i" for lo
    using Cons.IH [of lo "Some i"] Cons.prems that encodes_le [of d s lo i] encodes_le [of d s' lo i]
      encodes_cong [of lo i s s' d "sn_left (s ! i)" l] by fastforce
  from ex_cong1 [OF this] have "(\<exists>lo. encodes d s lo i (sn_left (s ! i)) l \<and> spine d s (Some i) lo st)
      = (\<exists>lo. encodes d s' lo i (sn_left (s ! i)) l \<and> spine d s' (Some i) lo st)" if "hi = Suc i"
    using that .
  with Cons.prems show ?case by (cases "hi = Suc i") (simp_all add: p)
qed simp

text \<open>The tree of a stack over the tree \<open>t\<close>.\<close>

fun close :: "physical_frontier_document list \<Rightarrow> (nat \<times> (uuid, bytes) treap) list \<Rightarrow> (uuid, bytes) treap \<Rightarrow> (uuid, bytes) treap" where
  "close d [] t = t"
| "close d ((i, l) # rest) t = close d rest (Bin l (pd_document_id (d ! i)) (pd_canonical_bytes (d ! i)) t)"

lemma close_encodes:
  "spine d s c hi st \<Longrightarrow> encodes d s hi n c t \<Longrightarrow>
   encodes d s 0 n (if st = [] then c else Some (fst (last st))) (close d st t)"
proof (induction st arbitrary: c hi t)
  case (Cons p st)
  obtain i l where p: "p = (i, l)" by (cases p)
  then obtain lo where 1: "hi = Suc i" "sn_right (s ! i) = c" "encodes d s lo i (sn_left (s ! i)) l" "spine d s (Some i) lo st"
    using Cons.prems by auto
  have "encodes d s lo n (Some i) (Bin l (pd_document_id (d ! i)) (pd_canonical_bytes (d ! i)) t)"
    using 1 Cons.prems(2) encodes_le [OF 1(3)] encodes_le [OF Cons.prems(2)] by (auto simp: pair_of_def)
  from Cons.IH [OF 1(4) this] show ?case by (cases "st = []") (simp_all add: p del: encodes.simps)
qed simp

section \<open>The build\<close>

text \<open>Every tree on the stack, and the entry above it, comes after its own entry.\<close>

definition above :: "hash \<Rightarrow> physical_frontier_document list \<Rightarrow> nat \<Rightarrow> (uuid, bytes) treap \<Rightarrow> bool" where
  "above H d i t \<longleftrightarrow> (\<forall>x \<in> tkeys t. authenticated_map_priority_order H (pd_document_id (d ! i)) x)"

fun heap_spine :: "hash \<Rightarrow> physical_frontier_document list \<Rightarrow> (nat \<times> (uuid, bytes) treap) list \<Rightarrow> bool" where
  "heap_spine H d [] = True"
| "heap_spine H d ((i, l) # rest) =
     (map_ok H l \<and> above H d i l \<and> (\<forall>p l' r. rest = (p, l') # r \<longrightarrow> documents_before H d p i) \<and> heap_spine H d rest)"

definition under :: "hash \<Rightarrow> physical_frontier_document list \<Rightarrow> (nat \<times> (uuid, bytes) treap) list \<Rightarrow> (uuid, bytes) treap \<Rightarrow> bool" where
  "under H d st t \<longleftrightarrow> map_ok H t \<and> (\<forall>p l r. st = (p, l) # r \<longrightarrow> above H d p t)"

abbreviation sorted_documents :: "physical_frontier_document list \<Rightarrow> bool" where
  "sorted_documents d \<equiv> strictly_sorted (map pd_document_id d)"

lemma sorted_documents_less: "sorted_documents d \<Longrightarrow> i < j \<Longrightarrow> j < length d \<Longrightarrow> pd_document_id (d ! i) < pd_document_id (d ! j)"
  unfolding strictly_sorted_iff by (simp add: sorted_wrt_nth_less [of "(<)" "map pd_document_id d" i j, simplified])

lemma node_ok:
  assumes "sorted_documents d" "encodes d s lo i (sn_left (s ! i)) l" "encodes d s' (Suc i) n c t" "n \<le> length d" "i < length d"
    and "map_ok H l" "above H d i l" "map_ok H t" "above H d i t"
  shows "map_ok H (Bin l (pd_document_id (d ! i)) (pd_canonical_bytes (d ! i)) t)"
  using assms(4-9) encodes_keys [OF assms(2)] encodes_keys [OF assms(3)] sorted_documents_less [OF assms(1)]
  by (auto simp: above_def)

lemma close_ok:
  "sorted_documents d \<Longrightarrow> spine d s c hi st \<Longrightarrow> encodes d s hi n c t \<Longrightarrow> n \<le> length d \<Longrightarrow> heap_spine H d st \<Longrightarrow> under H d st t \<Longrightarrow>
   map_ok H (close d st t)"
proof (induction st arbitrary: c hi t)
  case Nil
  then show ?case by (simp add: under_def)
next
  case (Cons p st)
  obtain i l where p: "p = (i, l)" by (cases p)
  then obtain lo where 1: "hi = Suc i" "sn_right (s ! i) = c" "encodes d s lo i (sn_left (s ! i)) l" "spine d s (Some i) lo st"
    using Cons.prems(2) by auto
  let ?t = "Bin l (pd_document_id (d ! i)) (pd_canonical_bytes (d ! i)) t"
  have n: "Suc i \<le> n" using encodes_le [OF Cons.prems(3)] 1(1) by simp
  have e: "encodes d s lo n (Some i) ?t"
    using 1 Cons.prems(3) n encodes_le [OF 1(3)] by (auto simp: pair_of_def)
  have t: "map_ok H t" "above H d i t" using Cons.prems(6) by (auto simp: under_def p)
  have l: "map_ok H l" "above H d i l" "heap_spine H d st" using Cons.prems(5) by (auto simp: p)
  have ok: "map_ok H ?t"
    using node_ok [OF Cons.prems(1) 1(3) Cons.prems(3) [unfolded 1(1)] Cons.prems(4) _ l(1,2) t] n Cons.prems(4) by simp
  have "above H d q ?t" if "st = (q, l') # r" for q l' r
  proof -
    have "documents_before H d q i" using Cons.prems(5) that by (auto simp: p)
    then show ?thesis
      using l(2) t(2) by (auto simp: above_def documents_before_def intro: priority.before_trans)
  qed
  then have "under H d st ?t" using ok by (simp add: under_def)
  from Cons.IH [OF Cons.prems(1) 1(4) e Cons.prems(4) l(3) this] show ?case by (simp add: p)
qed

lemma pop_lower_ok:
  "sorted_documents d \<Longrightarrow> index < length d \<Longrightarrow> spine d s popped hi st \<Longrightarrow> encodes d s hi index popped t \<Longrightarrow>
   heap_spine H d st \<Longrightarrow> under H d st t \<Longrightarrow> above H d index t \<Longrightarrow>
   \<exists>st' popped' hi' t'. pop_lower H d index (map fst st) popped = (popped', map fst st')
     \<and> spine d s popped' hi' st' \<and> encodes d s hi' index popped' t' \<and> heap_spine H d st' \<and> under H d st' t' \<and> above H d index t'
     \<and> (\<forall>p l r. st' = (p, l) # r \<longrightarrow> documents_before H d p index)"
proof (induction st arbitrary: popped hi t)
  case Nil
  then show ?case by (intro exI [of _ "[]"] exI [of _ popped] exI [of _ hi] exI [of _ t]) simp
next
  case (Cons p st)
  obtain i l where p: "p = (i, l)" by (cases p)
  then obtain lo where 1: "hi = Suc i" "sn_right (s ! i) = popped" "encodes d s lo i (sn_left (s ! i)) l" "spine d s (Some i) lo st"
    using Cons.prems(3) by auto
  have i: "i < index" using encodes_le [OF Cons.prems(4)] 1(1) by simp
  show ?case
  proof (cases "documents_before H d index i")
    case False
    have "pd_document_id (d ! i) \<noteq> pd_document_id (d ! index)"
      using sorted_documents_less [OF Cons.prems(1) i Cons.prems(2)] by simp
    then have "documents_before H d i index"
      using False priority.before_total unfolding documents_before_def by blast
    then show ?thesis
      using False Cons.prems
      by (intro exI [of _ "p # st"] exI [of _ popped] exI [of _ hi] exI [of _ t]) (auto simp: p)
  next
    case True
    let ?t = "Bin l (pd_document_id (d ! i)) (pd_canonical_bytes (d ! i)) t"
    have e: "encodes d s lo index (Some i) ?t"
      using 1 Cons.prems(4) i encodes_le [OF 1(3)] by (auto simp: pair_of_def)
    have t: "map_ok H t" "above H d i t" using Cons.prems(6) by (auto simp: under_def p)
    have l: "map_ok H l" "above H d i l" "heap_spine H d st" using Cons.prems(5) by (auto simp: p)
    have ok: "map_ok H ?t"
      using node_ok [OF Cons.prems(1) 1(3) Cons.prems(4) [unfolded 1(1)] _ _ l(1,2) t] i Cons.prems(2) by simp
    have lower: "above H d q ?t" if "documents_before H d q i" for q
      using that l(2) t(2) by (auto simp: above_def documents_before_def intro: priority.before_trans)
    have "under H d st ?t"
      using ok lower Cons.prems(5) by (auto simp: under_def p)
    from Cons.IH [OF Cons.prems(1,2) 1(4) e l(3) this lower [OF True]] show ?thesis
      using True by (simp add: p)
  qed
qed

definition build_inv :: "hash \<Rightarrow> physical_frontier_document list \<Rightarrow> nat \<Rightarrow> shape_node list \<times> nat list \<Rightarrow> bool" where
  "build_inv H d m = (\<lambda>(shape, stack).
     length shape = length d \<and> (\<forall>j. m \<le> j \<longrightarrow> j < length d \<longrightarrow> shape ! j = \<lparr>sn_left = None, sn_right = None\<rparr>)
     \<and> (\<exists>st. stack = map fst st \<and> spine d shape None m st \<and> heap_spine H d st))"

lemma shape_step_ok:
  assumes sorted: "sorted_documents d" and m: "m < length d" and inv: "build_inv H d m (shape, stack)"
  shows "build_inv H d (Suc m) (shape_step H d m (shape, stack))"
proof -
  obtain st where st: "stack = map fst st" "spine d shape None m st" "heap_spine H d st"
      and len: "length shape = length d" and new: "\<And>j. m \<le> j \<Longrightarrow> j < length d \<Longrightarrow> shape ! j = \<lparr>sn_left = None, sn_right = None\<rparr>"
    using inv by (auto simp: build_inv_def)
  have Tip: "encodes d shape m m None Tip" "under H d st Tip" "above H d m Tip"
    by (simp_all add: under_def above_def)
  obtain st' popped hi t where pop: "pop_lower H d m (map fst st) None = (popped, map fst st')"
      and p: "spine d shape popped hi st'" "encodes d shape hi m popped t" "heap_spine H d st'" "under H d st' t" "above H d m t"
      and top: "\<And>p l r. st' = (p, l) # r \<Longrightarrow> documents_before H d p m"
    using pop_lower_ok [OF sorted m st(2) Tip(1) st(3) Tip(2,3)] by blast
  define s1 where "s1 = (case map fst st' of [] \<Rightarrow> shape | parent # _ \<Rightarrow> shape[parent := (shape ! parent)\<lparr>sn_right := Some m\<rparr>])"
  define s2 where "s2 = s1[m := (s1 ! m)\<lparr>sn_left := popped\<rparr>]"
  have step: "shape_step H d m (shape, stack) = (s2, m # map fst st')"
    by (simp add: shape_step_def st(1) pop s1_def s2_def Let_def)
  have hi: "hi \<le> m" using encodes_le [OF p(2)] .
  have s1: "length s1 = length d" "\<And>j. hi \<le> j \<Longrightarrow> s1 ! j = shape ! j"
    using p(1) len by (auto simp: s1_def split: list.splits)
  have s2: "s2 ! j = s1 ! j" if "j \<noteq> m" for j using that by (simp add: s2_def)
  have at: "s2 ! m = \<lparr>sn_left = popped, sn_right = None\<rparr>"
    using s1 hi m new [of m] by (simp add: s2_def)
  have "encodes d s2 hi m popped t"
    using encodes_cong [of hi m shape s2] p(2) s1(2) s2 by simp
  moreover have "spine d s2 (Some m) hi st'"
  proof (cases st')
    case Nil
    then show ?thesis using p(1) by simp
  next
    case (Cons q r)
    obtain i l where q: "q = (i, l)" by (cases q)
    then obtain lo where 1: "hi = Suc i" "encodes d shape lo i (sn_left (shape ! i)) l" "spine d shape (Some i) lo r"
      using p(1) Cons by auto
    have i: "s2 ! i = (shape ! i)\<lparr>sn_right := Some m\<rparr>"
      using 1(1) hi m len s2 [of i] by (simp add: s1_def Cons q)
    have same: "shape ! j = s2 ! j" if "j < i" for j
      using that 1(1) hi s2 [of j] by (simp add: s1_def Cons q)
    have "encodes d s2 lo i (sn_left (shape ! i)) l"
      using encodes_cong [of lo i shape s2] 1(2) same by simp
    moreover have "spine d s2 (Some i) lo r"
      using spine_cong [of lo shape s2] 1(3) same encodes_le [OF 1(2)] by simp
    ultimately show ?thesis using i 1(1) by (auto simp: Cons q)
  qed
  ultimately have "spine d s2 None (Suc m) ((m, t) # st')" using at by auto
  moreover have "heap_spine H d ((m, t) # st')"
    using p(3,4,5) top by (auto simp: under_def)
  moreover have "length s2 = length d" using s1(1) by (simp add: s2_def)
  moreover have "s2 ! j = \<lparr>sn_left = None, sn_right = None\<rparr>" if "Suc m \<le> j" "j < length d" for j
    using that s2 [of j] s1(2) [of j] hi new [of j] by simp
  ultimately show ?thesis
    unfolding step build_inv_def by (auto intro!: exI [of _ "(m, t) # st'"] simp del: spine.simps heap_spine.simps)
qed

lemma fold_upt_inv: "P 0 s \<Longrightarrow> (\<And>m s. m < n \<Longrightarrow> P m s \<Longrightarrow> P (Suc m) (f m s)) \<Longrightarrow> P n (fold f [0..<n] s)"
proof (induction n)
  case (Suc n)
  then have "P n (fold f [0..<n] s)" by simp
  then show ?case using Suc.prems(2) [of n] by simp
qed simp

text \<open>The shape is the treap of the documents, its root at the bottom of the stack.\<close>

lemma terminal_shape_ok:
  assumes sorted: "sorted_documents d" and d: "d \<noteq> []" and run: "terminal_shape H d = (shape, stack)"
  obtains t where "encodes d shape 0 (length d) (Some (last stack)) t" "map_ok H t" "tentries t = set (map pair_of d)"
proof -
  have "build_inv H d (length d) (terminal_shape H d)"
    unfolding terminal_shape_def
  proof (rule fold_upt_inv)
    fix m s
    assume "m < length d" "build_inv H d m s"
    then show "build_inv H d (Suc m) (shape_step H d m s)"
      using shape_step_ok [OF sorted, of m H "fst s" "snd s"] by simp
  qed (auto simp: build_inv_def)
  then obtain st where st: "stack = map fst st" "spine d shape None (length d) st" "heap_spine H d st"
    by (auto simp: build_inv_def run)
  have ne: "st \<noteq> []" using st(2) d by auto
  have Tip: "encodes d shape (length d) (length d) None Tip" "under H d st Tip"
    by (simp_all add: under_def above_def)
  have e: "encodes d shape 0 (length d) (Some (last stack)) (close d st Tip)"
    using close_encodes [OF st(2) Tip(1)] ne by (simp add: st(1) last_map)
  moreover have "map_ok H (close d st Tip)"
    using close_ok [OF sorted st(2) Tip(1) _ st(3) Tip(2)] by simp
  moreover have "tentries (close d st Tip) = set (map pair_of d)"
    using encodes_entries [OF e] by (simp add: image_set [symmetric] map_nth image_image flip: set_map set_upt)
  ultimately show thesis using that by blast
qed

section \<open>The traversal\<close>

fun inodes :: "hash \<Rightarrow> (uuid, bytes) treap \<Rightarrow> frontier_map_node list" where
  "inodes H Tip = []"
| "inodes H (Bin l k v r) =
     inodes H l
     @ [document_of_node H \<lparr>node_key = k, node_value = v, node_left = document_link_of H l, node_right = document_link_of H r\<rparr>]
     @ inodes H r"

definition visits :: "nat \<Rightarrow> nat option \<Rightarrow> (nat \<times> nat \<times> bool) list" where
  "visits depth c = map (\<lambda>child. (child, depth, False)) (opt_list c)"

lemma terminal_link_ok:
  assumes "encodes d s lo hi c t" "\<And>j. c = Some j \<Longrightarrow> dg ! j = map_option link_digest (document_link_of H t)"
  shows "terminal_link d dg c = Inr (document_link_of H t)"
  using assms by (cases t) (auto simp: terminal_link_def ok_or_def pair_of_def)

lemma encodes_root: "encodes d s lo hi (Some j) t \<Longrightarrow> lo \<le> j \<and> j < hi"
  by (cases t) auto

lemma construct_tree:
  "encodes d s lo hi c t \<Longrightarrow> hi \<le> length d \<Longrightarrow> length dg = length d \<Longrightarrow> length cn = length d \<Longrightarrow> depth + theight t \<le> 257 \<Longrightarrow>
   \<exists>dg' cn'. construct_loop H d s (visits depth c @ rest) dg cn = construct_loop H d s rest dg' cn'
     \<and> length dg' = length d \<and> length cn' = length d \<and> (\<forall>j. j < lo \<or> hi \<le> j \<longrightarrow> dg' ! j = dg ! j \<and> cn' ! j = cn ! j)
     \<and> (\<forall>j. c = Some j \<longrightarrow> dg' ! j = map_option link_digest (document_link_of H t))
     \<and> map ((!) cn') [lo..<hi] = map Some (inodes H t)"
proof (induction t arbitrary: lo hi c dg cn depth rest)
  case Tip
  then show ?case by (intro exI [of _ dg] exI [of _ cn]) (simp add: visits_def opt_list_def)
next
  case (Bin l k v r)
  obtain i where i: "c = Some i" "lo \<le> i" "i < hi" "(k, v) = pair_of (d ! i)"
      and el: "encodes d s lo i (sn_left (s ! i)) l" and er: "encodes d s (Suc i) hi (sn_right (s ! i)) r"
    using Bin.prems(1) by auto
  have n: "i < length d" using i(3) Bin.prems(2) by simp
  have depth: "ensure_depth depth ''terminal frontier map construction'' = Inr ()"
    using Bin.prems(5) by (intro ensure_depth_ok) simp
  have high: "depth + 1 + theight l \<le> 257" "depth + 1 + theight r \<le> 257" using Bin.prems(5) by simp_all
  let ?again = "(i, depth, True) # rest"
  obtain dg1 cn1 where 1: "construct_loop H d s (visits (depth + 1) (sn_left (s ! i)) @ visits (depth + 1) (sn_right (s ! i)) @ ?again) dg cn
        = construct_loop H d s (visits (depth + 1) (sn_right (s ! i)) @ ?again) dg1 cn1"
      "length dg1 = length d" "length cn1 = length d" "\<And>j. j < lo \<or> i \<le> j \<Longrightarrow> dg1 ! j = dg ! j \<and> cn1 ! j = cn ! j"
      "\<And>j. sn_left (s ! i) = Some j \<Longrightarrow> dg1 ! j = map_option link_digest (document_link_of H l)"
      "map ((!) cn1) [lo..<i] = map Some (inodes H l)"
    using Bin.IH(1) [OF el less_imp_le [OF n] Bin.prems(3,4) high(1), of "visits (depth + 1) (sn_right (s ! i)) @ ?again"] by blast
  obtain dg2 cn2 where 2: "construct_loop H d s (visits (depth + 1) (sn_right (s ! i)) @ ?again) dg1 cn1 = construct_loop H d s ?again dg2 cn2"
      "length dg2 = length d" "length cn2 = length d" "\<And>j. j < Suc i \<or> hi \<le> j \<Longrightarrow> dg2 ! j = dg1 ! j \<and> cn2 ! j = cn1 ! j"
      "\<And>j. sn_right (s ! i) = Some j \<Longrightarrow> dg2 ! j = map_option link_digest (document_link_of H r)"
      "map ((!) cn2) [Suc i..<hi] = map Some (inodes H r)"
    using Bin.IH(2) [OF er Bin.prems(2) 1(2,3) high(2), of ?again] by blast
  have l: "terminal_link d dg2 (sn_left (s ! i)) = Inr (document_link_of H l)"
  proof (rule terminal_link_ok [OF el])
    fix j
    assume j: "sn_left (s ! i) = Some j"
    then have "j < Suc i" using el encodes_root [of d s lo i j l] by auto
    then show "dg2 ! j = map_option link_digest (document_link_of H l)" using 1(5) [OF j] 2(4) [of j] by simp
  qed
  have r: "terminal_link d dg2 (sn_right (s ! i)) = Inr (document_link_of H r)"
    using terminal_link_ok [OF er 2(5)] .
  let ?node = "document_of_node H \<lparr>node_key = k, node_value = v, node_left = document_link_of H l, node_right = document_link_of H r\<rparr>"
  have node: "terminal_node H d s dg2 i = Inr ?node"
    using i(4) by (simp add: terminal_node_def l r document_of_node_def pair_of_def)
  have digest: "Some (fn_node_digest ?node) = map_option link_digest (document_link_of H (Bin l k v r))"
    by (simp add: document_of_node_def refresh_digest_def recompute_digest_def)
  let ?dg = "dg2[i := Some (fn_node_digest ?node)]" and ?cn = "cn2[i := Some ?node]"
  have start: "construct_loop H d s (visits depth c @ rest) dg cn
      = construct_loop H d s (visits (depth + 1) (sn_left (s ! i)) @ visits (depth + 1) (sn_right (s ! i)) @ ?again) dg cn"
    by (subst construct_loop.simps) (simp add: visits_def opt_list_def i(1) depth)
  have finish: "construct_loop H d s ?again dg2 cn2 = construct_loop H d s rest ?dg ?cn"
    by (subst construct_loop.simps) (simp add: depth node)
  have split: "[lo..<hi] = [lo..<i] @ i # [Suc i..<hi]"
    using i(2,3) by (metis less_imp_le_nat upt_add_eq_append upt_conv_Cons le_add_diff_inverse)
  have "map ((!) ?cn) [lo..<i] = map ((!) cn1) [lo..<i]" "map ((!) ?cn) [Suc i..<hi] = map ((!) cn2) [Suc i..<hi]"
    using 2(4) by (auto intro!: map_cong)
  then have "map ((!) ?cn) [lo..<hi] = map Some (inodes H (Bin l k v r))"
    using 1(6) 2(3,6) n by (simp add: split)
  moreover have "?dg ! j = dg ! j \<and> ?cn ! j = cn ! j" if "j < lo \<or> hi \<le> j" for j
    using that 1(4) [of j] 2(4) [of j] i(2,3) by auto
  ultimately show ?case
    using start 1(1) 2(1) finish digest 2(2,3) n i(1) by (intro exI [of _ ?dg] exI [of _ ?cn]) simp
qed

lemma construct_loop_ok:
  assumes "encodes d s 0 (length d) (Some i) t" "theight t \<le> 257"
  obtains dg where "construct_loop H d s [(i, 0, False)] (replicate (length d) None) (replicate (length d) None)
      = Some (Inr (dg, map Some (inodes H t)))" "dg ! i = map_option link_digest (document_link_of H t)"
proof -
  from construct_tree [OF assms(1), of "replicate (length d) None" "replicate (length d) None" 0 H "[]"] assms(2)
  obtain dg cn where run: "construct_loop H d s [(i, 0, False)] (replicate (length d) None) (replicate (length d) None) = construct_loop H d s [] dg cn"
      and "length cn = length d" "dg ! i = map_option link_digest (document_link_of H t)" "map ((!) cn) [0..<length d] = map Some (inodes H t)"
    by (auto simp: visits_def opt_list_def)
  then show thesis
    using that [of dg] map_nth [of cn] run by (simp add: construct_loop.simps)
qed

text \<open>The build as a whole: it ends, and gives the link and the nodes of the treap of the documents.\<close>

lemma construct_terminal_ok:
  assumes sorted: "sorted_documents d" and d: "d \<noteq> []"
    and high: "shallow (authenticated_map_priority_order H) (pd_document_id ` set d) 257"
  obtains t root where "map_ok H t" "tmap t = map_of (map pair_of d)" "document_link_of H t = Some root"
    "construct_terminal H d = Some (Inr (root, inodes H t))"
proof -
  obtain shape stack where run: "terminal_shape H d = (shape, stack)" by (cases "terminal_shape H d")
  obtain t where t: "encodes d shape 0 (length d) (Some (last stack)) t" "map_ok H t" "tentries t = set (map pair_of d)"
    by (rule terminal_shape_ok [OF sorted d run])
  have ids: "distinct (map fst (map pair_of d))"
    using sorted unfolding strictly_sorted_iff strict_sorted_iff by (simp add: comp_def pair_of_def)
  have map: "tmap t = map_of (map pair_of d)"
  proof
    fix x
    have "tmap t x = Some v \<longleftrightarrow> map_of (map pair_of d) x = Some v" for v
      using tmap_entries [OF t(2)] t(3) map_of_eq_Some_iff [OF ids] by simp
    then show "tmap t x = map_of (map pair_of d) x" by (metis not_Some_eq)
  qed
  have "tkeys t = pd_document_id ` set d"
    by (simp add: keys_entries t(3) image_image pair_of_def)
  then have "theight t \<le> 257" using shallow_height [OF high t(2)] by simp
  from construct_loop_ok [OF t(1) this, of H]
  obtain dg where loop: "construct_loop H d shape [(last stack, 0, False)] (replicate (length d) None) (replicate (length d) None)
      = Some (Inr (dg, map Some (inodes H t)))" and dg: "dg ! last stack = map_option link_digest (document_link_of H t)"
    by blast
  obtain root where root: "document_link_of H t = Some root" using t(1) by (cases t) auto
  have key: "link_key root = pd_document_id (d ! last stack)"
    using t(1) root by (cases t) (auto simp: pair_of_def)
  have "concat (map opt_list (map Some ns)) = ns" for ns :: "frontier_map_node list"
    by (induction ns) (auto simp: opt_list_def)
  then have "construct_terminal H d = Some (Inr (root, inodes H t))"
    using key by (simp add: construct_terminal_def run loop dg root ok_or_def)
  with t(2) map root show thesis using that by blast
qed

section \<open>Writing the nodes\<close>

lemma store_nodes_ok:
  "quiet q db \<Longrightarrow> \<forall>n \<in> set ns. fn_node_digest n = recompute_digest H n \<Longrightarrow> distinct (map fn_document_id ns) \<Longrightarrow>
   runs (store_nodes H ns) db
     (\<lambda>_ db'. quiet q db' \<and> documents_keep (fn_document_id ` set ns) db db'
        \<and> (\<forall>n \<in> set ns. map_of (db_documents db') (fn_document_id n) = Some (document_row_of n))) (sql_fault q)"
proof (induction ns arbitrary: db)
  case Nil
  then show ?case by (simp add: faults_keep)
next
  case (Cons n ns)
  have fresh: "fn_digest = recompute_digest H n \<Longrightarrow> \<not> fn_digest \<noteq> recompute_digest H n" for fn_digest by simp
  have store: "runs (store_frontier_map_node H n) db (\<lambda>_ db'. \<exists>db1. faults_only db db1 \<and> quiet q db1
      \<and> db' = db1\<lparr>db_documents := AList.update (fn_document_id n) (document_row_of n) (db_documents db1)\<rparr>) (sql_fault q)"
    using update_runs [OF Cons.prems(1)] Cons.prems(2) by (simp add: store_frontier_map_node_def)
  show ?case
    unfolding store_nodes.simps
  proof (rule runs_bind [OF store], clarify)
    fix db1
    assume f: "faults_only db db1" "quiet q db1"
    let ?db2 = "db1\<lparr>db_documents := AList.update (fn_document_id n) (document_row_of n) (db_documents db1)\<rparr>"
    have keep1: "documents_keep {fn_document_id n} db ?db2"
      using f(1) by (auto simp: faults_only_def documents_keep_def update_conv'
          intro!: exI [of _ "AList.update (fn_document_id n) (document_row_of n) (db_documents db)"] exI [of _ "db_faults db1"])
    have row: "map_of (db_documents ?db2) (fn_document_id n) = Some (document_row_of n)" by (simp add: update_conv')
    have "runs (store_nodes H ns) ?db2
       (\<lambda>_ db'. quiet q db' \<and> documents_keep (fn_document_id ` set ns) ?db2 db'
          \<and> (\<forall>n \<in> set ns. map_of (db_documents db') (fn_document_id n) = Some (document_row_of n))) (sql_fault q)"
      using f(2) Cons.prems(2,3) by (intro Cons.IH) (auto simp: quiet_def)
    then show "runs (store_nodes H ns) ?db2
       (\<lambda>_ db'. quiet q db' \<and> documents_keep (fn_document_id ` set (n # ns)) db db'
          \<and> (\<forall>n \<in> set (n # ns). map_of (db_documents db') (fn_document_id n) = Some (document_row_of n))) (sql_fault q)"
    proof (rule runs_mono, goal_cases)
      case (1 u db')
      then have "documents_keep (fn_document_id ` set (n # ns)) db db'"
        using documents_keep_trans [OF keep1] by fastforce
      moreover have "fn_document_id n \<notin> fn_document_id ` set ns" using Cons.prems(3) by simp
      then have "map_of (db_documents db') (fn_document_id n) = Some (document_row_of n)"
        using 1 row by (auto simp: documents_keep_def)
      ultimately show ?case using 1 by simp
    qed simp
  qed
qed

lemma document_of_node_id [simp]: "fn_document_id (document_of_node H n) = node_key n"
  by (simp add: document_of_node_def refresh_digest_def)

lemma inodes_ids: "fn_document_id ` set (inodes H t) = tkeys t"
  by (induction t) auto

lemma inodes_sorted: "map_ok H t \<Longrightarrow> sorted_wrt (<) (map fn_document_id (inodes H t))"
proof (induction t)
  case (Bin l k v r)
  have "\<forall>n \<in> set (inodes H l). fn_document_id n < k" "\<forall>n \<in> set (inodes H r). k < fn_document_id n"
    using Bin.prems inodes_ids [of H] by fastforce+
  with Bin show ?case by (auto simp: sorted_wrt_append sorted_wrt_map intro: less_trans)
qed simp

lemma inodes_distinct: "map_ok H t \<Longrightarrow> distinct (map fn_document_id (inodes H t))"
  using inodes_sorted strict_sorted_iff by blast

lemma put_documents_distinct:
  "distinct (map pd_document_id d) \<Longrightarrow> put_documents d m = m ++ map_of (map pair_of d)"
proof (induction d arbitrary: m)
  case Nil
  then show ?case by (simp add: put_documents_def)
next
  case (Cons a d)
  have new: "pd_document_id a \<notin> dom (map_of (map pair_of d))"
    using Cons.prems by (auto simp: dom_map_of_conv_image_fst pair_of_def)
  have cons: "map_of (map pair_of (a # d)) = (map_of (map pair_of d))(pd_document_id a \<mapsto> pd_canonical_bytes a)"
    by (auto simp: pair_of_def fun_eq_iff)
  have "put_documents (a # d) m = put_documents d (m(pd_document_id a \<mapsto> pd_canonical_bytes a))"
    by (simp add: put_documents_def)
  also have "\<dots> = (m ++ map_of (map pair_of d))(pd_document_id a \<mapsto> pd_canonical_bytes a)"
    using Cons map_add_upd_left [OF new] by simp
  finally show ?case unfolding cons map_add_upd .
qed

lemma inodes_fresh: "n \<in> set (inodes H t) \<Longrightarrow> fn_node_digest n = recompute_digest H n"
  by (induction t) (auto simp: document_of_node_def refresh_digest_def recompute_digest_def)

lemma documents_stored_inodes:
  "map_ok H t \<Longrightarrow> \<forall>n \<in> set (inodes H t). map_of (db_documents db) (fn_document_id n) = Some (document_row_of n) \<Longrightarrow> documents_stored H db t"
proof (induction t)
  case (Bin l k v r)
  with valid_children [OF Bin.prems(1), of "\<lambda>_. H"] show ?case by simp
qed simp

lemma stored_inodes: "documents_stored H db t \<Longrightarrow> n \<in> set (inodes H t) \<Longrightarrow> map_of (db_documents db) (fn_document_id n) = Some (document_row_of n)"
proof (induction t)
  case (Bin l k v r)
  then show ?case by auto
qed simp

section \<open>The seed\<close>

lemma only_reads_candidate [reading]: "only_reads require_candidate_build"
  by (simp add: only_reads_def require_candidate_build_def)

lemma only_reads_seed [reading]: "only_reads (seed_checks H root d)"
  unfolding seed_checks_def by (auto intro!: reading)

lemma query_row_Inr: "query_row f db = (Inr x, db') \<Longrightarrow> f db' = Some x \<and> faults_only db db'"
  by (auto simp: query_row_def query_def st_bind_def st_lift_def ok_or_def statement_def
      split: prod.splits sum.splits list.splits option.splits)

lemma seed_checks_Inr:
  assumes run: "seed_checks H root d db = (Inr u, db')"
  shows "sorted_documents d" "db_documents db = []" "pr_document_count root = word_of_nat (length d)"
proof -
  obtain stored db1 n where 1: "read_frontier H db = (Inr stored, db1)"
      and 2: "query_row (\<lambda>db. Some (length (db_documents db))) db1 = (Inr n, db')" "n = 0"
      and 3: "sorted_documents d" "pr_document_count root = word_of_nat (length d)"
    using run
    by (auto simp: seed_checks_def require_candidate_build_def st_bind_def st_lift_def st_return_def split: prod.splits sum.splits if_splits)
  have "db_documents db1 = db_documents db"
    using faults_only_tables(2) [OF only_readsD [OF only_reads_load(4) 1]] .
  then show "db_documents db = []"
    using query_row_Inr [OF 2(1)] 2(2) faults_only_tables(2) [of db1 db'] by auto
  from 3 show "sorted_documents d" "pr_document_count root = word_of_nat (length d)" by auto
qed

lemma documents_match_seeded:
  assumes t: "map_ok H t" "tmap t = map_of (map pair_of d)" "documents_stored H db t"
      "document_link_of H t = root_link (pr_document_map_root_key root) (pr_document_map_root_digest root)"
    and d: "sorted_documents d" "document_room H (pd_document_id ` set d)" "length d < 2 ^ 64"
      "pr_document_count root = word_of_nat (length d)"
  shows "documents_match H (pd_document_id ` set d) root (map_of (map pair_of d)) db"
proof -
  have dom: "dom (map_of (map pair_of d)) = pd_document_id ` set d"
    by (simp add: dom_map_of_conv_image_fst image_image pair_of_def)
  have "distinct (map pd_document_id d)" using d(1) unfolding strictly_sorted_iff strict_sorted_iff by simp
  then have "card (pd_document_id ` set d) = length d" using distinct_card [of "map pd_document_id d"] by simp
  then have "unat (pr_document_count root) = card (dom (map_of (map pair_of d)))"
    using d(3,4) dom by (simp add: unat_of_nat)
  then show ?thesis
    using t d(2) dom unfolding documents_match_def documents_hold_def by auto
qed

lemma history_holds_same:
  assumes "same_log_tables db db'" "db_frontier db' = db_frontier db" "quiet q db'"
  shows "history_holds H R q root log db \<Longrightarrow> history_holds H R q root log db'"
  using tables_ok_same [OF assms(1,3)] log_holds_same [OF assms(1)] assms(2) by (simp add: history_holds_def)

text \<open>C14. Seeding the terminal documents always ends, and when it succeeds on tables that stand for a log of accepted
  batches, the tables then stand for that log with exactly the given documents, under the expected root: the history
  applied without its documents, completed by the seed, is a frontier like one built by ordinary applies.\<close>
theorem seed_terminal_refines:
  assumes "history_holds H R q root log db" "document_room H (pd_document_id ` set d)" "length d < 2 ^ 64"
  shows "\<exists>result db'. seed_terminal_frontier_documents_candidate H root d db = Some (result, db')
    \<and> (result = Inr () \<longrightarrow>
        frontier_holds H R (pd_document_id ` set d) q root \<lparr>af_log = log, af_documents = map_of (map pair_of d)\<rparr> db')"
proof -
  have q: "quiet q db" using assms(1) by (auto simp: history_holds_def dest: tables_okD)
  have room: "shallow (authenticated_map_priority_order H) (pd_document_id ` set d) 257"
    using assms(2) shallow_weaken unfolding document_room_def by fastforce
  show ?thesis
  proof (cases "seed_checks H root d db")
    case (Pair checked db1)
    show ?thesis
    proof (cases checked)
      case (Inl e)
      then show ?thesis using Pair by (simp add: seed_terminal_frontier_documents_candidate_def)
    next
      case (Inr u)
      note c = only_readsD [OF only_reads_seed Pair] only_reads_quiet [OF only_reads_seed Pair q] seed_checks_Inr [OF Pair [unfolded Inr]]
      note t1 = faults_only_tables [OF c(1)]
      have h: "history_holds H R q root log db'" if "documents_keep K db1 db'" "quiet q db'" for K db'
        using assms(1) that t1 by (intro history_holds_same [of db db']) (auto simp: documents_keep_def same_log_tables_def)
      show ?thesis
      proof (cases "d = []")
        case True
        have "frontier_holds H R {} q root \<lparr>af_log = log, af_documents = Map.empty\<rparr> db1" if "pr_document_map_root_key root = None"
          using documents_match_seeded [of H Tip "[]" db1 root] that assms(2,3) c(3,5) h [OF faults_keep c(2)]
          by (simp add: frontier_holds_def True root_link_def fun_eq_iff)
        then show ?thesis
          using Pair Inr True by (simp add: seed_terminal_frontier_documents_candidate_def)
      next
        case False
        obtain t lk where t: "map_ok H t" "tmap t = map_of (map pair_of d)" "document_link_of H t = Some lk"
            "construct_terminal H d = Some (Inr (lk, inodes H t))"
          by (rule construct_terminal_ok [OF c(3) False room])
        have store: "runs (store_nodes H (inodes H t)) db1
           (\<lambda>_ db'. quiet q db' \<and> documents_keep (fn_document_id ` set (inodes H t)) db1 db'
              \<and> (\<forall>n \<in> set (inodes H t). map_of (db_documents db') (fn_document_id n) = Some (document_row_of n))) (sql_fault q)"
          using inodes_fresh inodes_distinct [OF t(1)] by (intro store_nodes_ok c(2)) auto
        have "frontier_holds H R (pd_document_id ` set d) q root \<lparr>af_log = log, af_documents = map_of (map pair_of d)\<rparr> db'"
          if "store_nodes H (inodes H t) db1 = (Inr v, db')" "root_link (pr_document_map_root_key root) (pr_document_map_root_digest root) = Some lk" for v db'
        proof -
          have s: "quiet q db'" "documents_keep (fn_document_id ` set (inodes H t)) db1 db'"
              "\<forall>n \<in> set (inodes H t). map_of (db_documents db') (fn_document_id n) = Some (document_row_of n)"
            using runs_Inr [OF store that(1)] by auto
          show ?thesis
            using documents_match_seeded [OF t(1,2) documents_stored_inodes [OF t(1) s(3)] _ c(3) assms(2,3) c(5)] t(3) that(2) h [OF s(2,1)]
            by (simp add: frontier_holds_def)
        qed
        then show ?thesis
          using Pair Inr False t(4)
          by (cases "store_nodes H (inodes H t) db1") (simp add: seed_terminal_frontier_documents_candidate_def root_link_def)
      qed
    qed
  qed
qed

text \<open>C13. The one-pass build of the terminal documents is equivalent to live upserts: on sorted documents it ends, with
  the root that upserting the documents one after the other into an empty map returns, and with exactly the node rows these
  upserts leave in the table.\<close>
theorem terminal_build_equals_upserts:
  assumes "sorted_documents d" "d \<noteq> []" "document_room H (pd_document_id ` set d)" "length d < 2 ^ 64" "db_faults db = []"
  shows "\<exists>root nodes n db'. construct_terminal H d = Some (Inr (root, nodes))
    \<and> upsert_documents_loop H d None 0 db = (Inr (Some root, n), db')
    \<and> map fn_document_id nodes = map pd_document_id d
    \<and> (\<forall>node \<in> set nodes. map_of (db_documents db') (fn_document_id node) = Some (document_row_of node))"
proof -
  have room: "shallow (authenticated_map_priority_order H) (pd_document_id ` set d) 257"
    using assms(3) shallow_weaken unfolding document_room_def by fastforce
  obtain t lk where t: "map_ok H t" "tmap t = map_of (map pair_of d)" "document_link_of H t = Some lk"
      "construct_terminal H d = Some (Inr (lk, inodes H t))"
    by (rule construct_terminal_ok [OF assms(1,2) room])
  have empty: "documents_hold H db None Map.empty"
    by (auto simp: documents_hold_def intro!: exI [of _ Tip])
  have up: "runs (upsert_documents_loop H d None 0) db
     (\<lambda>(x, n') db'. documents_hold H db' x (put_documents d Map.empty)) (sql_fault True)"
    by (rule runs_mono [OF upsert_documents_loop_ok [of True db H None "\<lambda>_. None" "pd_document_id ` set d" d 0]])
      (use assms empty in \<open>auto simp: quiet_def\<close>)
  obtain x n db' where run: "upsert_documents_loop H d None 0 db = (Inr (x, n), db')"
    using up by (cases "upsert_documents_loop H d None 0 db") (auto simp: runs_def sql_fault_def split: sum.splits)
  with runs_Inr [OF up run] obtain u where u: "document_link_of H u = x" "map_ok H u" "tmap u = put_documents d Map.empty" "documents_stored H db' u"
    by (auto simp: documents_hold_def)
  have ids: "distinct (map pd_document_id d)"
    using assms(1) unfolding strictly_sorted_iff strict_sorted_iff by simp
  have "t = u"
    using priority.treap_unique [OF t(1) u(2)] t(2) u(3) put_documents_distinct [OF ids] by simp
  then have "x = Some lk" "\<forall>node \<in> set (inodes H t). map_of (db_documents db') (fn_document_id node) = Some (document_row_of node)"
    using u(1,4) t(3) stored_inodes by auto
  moreover have "set (map fn_document_id (inodes H t)) = set (map pd_document_id d)"
    using inodes_ids [of H t] dom_tmap [OF t(1)] t(2) by (simp add: dom_map_of_conv_image_fst image_image pair_of_def)
  then have "map fn_document_id (inodes H t) = map pd_document_id d"
    using inodes_sorted [OF t(1)] inodes_distinct [OF t(1)] ids assms(1)
    unfolding strictly_sorted_iff strict_sorted_iff by (intro sorted_distinct_set_unique) auto
  ultimately show ?thesis using t(4) run by blast
qed

end
