(* ===== verification/Frontier_Typing.thy ===== *)
theory Frontier_Typing
  imports Frontier_Seed
begin

text \<open>
  The column types and \<open>CHECK\<close> constraints of the tables as an invariant: identifiers have 16 bytes, digests 32, a
  child link has both of its columns or neither, counters are positive, and keys are unique.  Every
  operation keeps it whatever it returns, a corrupt table or a failing statement included.
\<close>

section \<open>Typed tables\<close>

fun child_columns :: "bytes option \<times> bytes option \<Rightarrow> bool" where
  "child_columns (None, None) = True"
| "child_columns (Some key, Some digest) = (length key = 16 \<and> length digest = 32)"
| "child_columns _ = False"

definition clock_row_typed :: "clock_row \<Rightarrow> bool" where
  "clock_row_typed row \<longleftrightarrow>
     length (clock_peer_id row) = 16 \<and> 0 < clock_counter row \<and> clock_counter row < 2 ^ 63
     \<and> length (clock_value_digest row) = 32 \<and> child_columns (clock_left row) \<and> child_columns (clock_right row)"

definition batch_row_typed :: "batch_row \<Rightarrow> bool" where
  "batch_row_typed row \<longleftrightarrow>
     length (batch_batch_id row) = 16 \<and> length (batch_value_digest row) = 32
     \<and> child_columns (batch_left row) \<and> child_columns (batch_right row)"

definition document_row_typed :: "document_row \<Rightarrow> bool" where
  "document_row_typed row \<longleftrightarrow>
     length (doc_dependencies_digest row) = 32 \<and> length (doc_node_digest row) = 32
     \<and> child_columns (doc_left row) \<and> child_columns (doc_right row)"

definition frontier_row_typed :: "frontier_row \<Rightarrow> bool" where
  "frontier_row_typed row \<longleftrightarrow>
     length (frontier_root_digest row) = 32 \<and> 0 \<le> applied_batch_count row \<and> applied_batch_count row < 2 ^ 63"

definition stored_batch_typed :: "stored_batch \<Rightarrow> bool" where
  "stored_batch_typed row \<longleftrightarrow>
     0 < sb_sequence row \<and> sb_sequence row < 2 ^ 63
     \<and> (\<forall>d \<in> {sb_manifest_digest row, sb_semantic_effect_digest row, sb_dependency_frontier_digest row,
          sb_prior_frontier_root_digest row, sb_post_frontier_root_digest row, sb_affected_documents_digest row,
          sb_causal_clock_root_digest row}. length d = 32)
     \<and> length (sb_causal_peer_id row) = 16 \<and> length (sb_causal_clock_root_key row) = 16
     \<and> 0 < sb_causal_counter row \<and> sb_causal_counter row < 2 ^ 63
     \<and> 0 < sb_acceptance_sequence row \<and> sb_acceptance_sequence row < 2 ^ 63
     \<and> 0 \<le> sb_retained_bytes row \<and> sb_retained_bytes row < 2 ^ 63"

definition tables_typed :: "'m frontier_db \<Rightarrow> bool" where
  "tables_typed db \<longleftrightarrow>
     (\<forall>d row. db_clock_nodes db d = Some row \<longrightarrow> clock_row_typed row)
     \<and> (\<forall>d row. db_batch_nodes db d = Some row \<longrightarrow> batch_row_typed row)
     \<and> (\<forall>(k, row) \<in> set (db_documents db). document_row_typed row) \<and> distinct (map fst (db_documents db))
     \<and> (\<forall>row. db_frontier db = Some row \<longrightarrow> frontier_row_typed row)
     \<and> (\<forall>row \<in> set (db_batches db). stored_batch_typed row)
     \<and> distinct (map sb_sequence (db_batches db)) \<and> distinct (map sb_batch_id (db_batches db))
     \<and> distinct (map sb_acceptance_sequence (db_batches db))"

section \<open>Operations that keep it\<close>

definition keeps_typed :: "('m, 'a) db_op \<Rightarrow> bool" where
  "keeps_typed m \<longleftrightarrow> (\<forall>db. tables_typed db \<longrightarrow> tables_typed (snd (m db)))"

named_theorems typed

lemma keeps_typedD: "keeps_typed m \<Longrightarrow> m db = (r, db') \<Longrightarrow> tables_typed db \<Longrightarrow> tables_typed db'"
  by (metis keeps_typed_def snd_conv)

lemma typed_faults:
  assumes "faults_only db db'"
  shows "tables_typed db \<Longrightarrow> tables_typed db'"
  using faults_only_tables [OF assms] by (simp add: tables_typed_def)

lemma keeps_reads: "only_reads m \<Longrightarrow> keeps_typed m"
  using typed_faults by (auto simp: only_reads_def keeps_typed_def)

lemma keeps_return [typed]: "keeps_typed (st_return x)" and keeps_lift [typed]: "keeps_typed (st_lift r)"
  by (rule keeps_reads, rule reading)+

lemma keeps_bind [typed]: "keeps_typed m \<Longrightarrow> (\<And>x. keeps_typed (f x)) \<Longrightarrow> keeps_typed (st_bind m f)"
  by (auto simp: keeps_typed_def st_bind_def split: prod.split sum.split)

lemma keeps_update:
  assumes "\<And>db. tables_typed db \<Longrightarrow> tables_typed (f db)"
  shows "keeps_typed (update_db f)"
proof -
  have "keeps_typed (\<lambda>db. (Inr () :: frontier_error + unit, f db))" using assms by (simp add: keeps_typed_def)
  then show ?thesis unfolding update_db_def by (intro typed keeps_reads [OF only_reads_statement])
qed

lemma keeps_loads [typed]:
  "keeps_typed (load_clock_node H link)" "keeps_typed (load_batch_map_node H link)"
  "keeps_typed (load_batch i)" "keeps_typed (read_frontier H)" "keeps_typed (query f)" "keeps_typed (query_row g)"
  "keeps_typed (authenticated_batch_record H root i expected)" "keeps_typed (causal_clock_lookup H current peer)"
  unfolding causal_clock_lookup_def by (intro keeps_reads reading)+

lemma link_columns_typed: "child_columns (link_columns l)"
  by (cases l) (simp_all add: link_columns_def)

lemma i64_of_u64_Inr:
  assumes "i64_of_u64 e w = Inr n"
  shows "n = uint w \<and> uint w < 2 ^ 63"
proof -
  have n: "n = uint w" "unat w < 2 ^ 63" using assms by (auto simp: i64_of_u64_def split: if_splits)
  from n(2) have "int (unat w) < int (2 ^ 63)" by (simp only: of_nat_less_iff)
  with n(1) show ?thesis by simp
qed

lemma keeps_lift_bind: "(\<And>x. r = Inr x \<Longrightarrow> keeps_typed (f x)) \<Longrightarrow> keeps_typed (st_bind (st_lift r) f)"
  by (cases r) (auto intro: typed)

lemma keeps_write_clock [typed]: "keeps_typed (write_clock_node H node)"
  unfolding write_clock_node_def Let_def
proof (rule keeps_lift_bind)
  fix counter
  assume "i64_of_u64 (FrontierCorrupt ''causal counter exceeds SQLite'') (node_value node) = Inr counter"
  then have c: "counter = uint (node_value node)" "uint (node_value node) < 2 ^ 63"
    using i64_of_u64_Inr by auto
  have row: "clock_row_typed (clock_row_of H node)" if "0 < counter"
    using that c(2) unfolding c(1) by (simp add: clock_row_of_def clock_row_typed_def link_columns_typed)
  have "tables_typed (if db_clock_nodes db d = None \<and> 0 < counter
      then db\<lparr>db_clock_nodes := (db_clock_nodes db)(d \<mapsto> clock_row_of H node)\<rparr> else db)" if "tables_typed db" for d and db :: "'a frontier_db"
    using that row by (simp add: tables_typed_def)
  then show "keeps_typed (st_bind (update_db (\<lambda>db :: 'a frontier_db.
      if db_clock_nodes db (link_digest (clock_link H node)) = None \<and> 0 < counter
      then db\<lparr>db_clock_nodes := (db_clock_nodes db)(link_digest (clock_link H node) \<mapsto> clock_row_of H node)\<rparr> else db)) (\<lambda>_.
    st_bind (load_clock_node H (clock_link H node)) (\<lambda>_. st_return (clock_link H node))))"
    by (intro typed keeps_update)
qed

lemma keeps_write_batch [typed]: "keeps_typed (write_batch_map_node H node)"
proof -
  have "tables_typed (if db_batch_nodes db d = None then db\<lparr>db_batch_nodes := (db_batch_nodes db)(d \<mapsto> batch_row_of node)\<rparr> else db)"
    if "tables_typed db" for d and db :: "'a frontier_db"
    using that by (simp add: tables_typed_def batch_row_of_def batch_row_typed_def link_columns_typed)
  then show ?thesis unfolding write_batch_map_node_def Let_def by (intro typed keeps_update)
qed

lemma keeps_store_document [typed]: "keeps_typed (store_frontier_map_node H node)"
proof -
  have "tables_typed (db\<lparr>db_documents := AList.update k (document_row_of node) (db_documents db)\<rparr>)"
    if "tables_typed db" for k and db :: "'a frontier_db"
  proof -
    have "set (AList.update k (document_row_of node) ps) \<subseteq> insert (k, document_row_of node) (set ps)" for ps
      by (induction ps) auto
    moreover have "document_row_typed (document_row_of node)"
      by (simp add: document_row_of_def document_row_typed_def link_columns_typed)
    ultimately show ?thesis using that by (fastforce simp: tables_typed_def distinct_update)
  qed
  then show ?thesis unfolding store_frontier_map_node_def by (auto intro!: typed keeps_update)
qed

section \<open>The recursive operations\<close>

lemma keeps_rotations [typed]:
  "keeps_typed (rotate_clock_right H n)" "keeps_typed (rotate_clock_left H n)"
  "keeps_typed (rotate_batch_right H b)" "keeps_typed (rotate_batch_left H b)"
  unfolding rotate_clock_right_def rotate_clock_left_def rotate_batch_right_def rotate_batch_left_def
  by (intro typed)+

text \<open>Below the depth bound every recursion stops at \<open>ensure_depth\<close>.\<close>

lemma keeps_depth:
  assumes "\<And>depth. (\<And>deeper. 257 - deeper < 257 - depth \<Longrightarrow> P deeper) \<Longrightarrow> depth \<le> 256 \<Longrightarrow> P depth" "\<And>depth. 256 < depth \<Longrightarrow> P depth"
  shows "P (depth :: nat)"
proof (induction "257 - depth" arbitrary: depth rule: less_induct)
  case less
  then show ?case using assms by (cases "depth \<le> 256") auto
qed

lemma keeps_too_deep: "256 < depth \<Longrightarrow> keeps_typed (st_bind (st_lift (ensure_depth depth operation)) f)"
  by (auto simp: ensure_depth_def MAX_AUTHENTICATED_MAP_DEPTH_def intro: typed)

lemma keeps_upsert_clock [typed]: "keeps_typed (upsert_causal_clock H root peer counter depth :: ('m, map_link) db_op)"
proof -
  have "\<forall>root. keeps_typed (upsert_causal_clock H root peer counter depth :: ('m, map_link) db_op)"
  proof (rule keeps_depth)
    fix depth
    assume "\<And>deeper. 257 - deeper < 257 - depth \<Longrightarrow> \<forall>root. keeps_typed (upsert_causal_clock H root peer counter deeper :: ('m, map_link) db_op)"
      and "depth \<le> 256"
    then have "keeps_typed (upsert_causal_clock H root peer counter (depth + 1) :: ('m, map_link) db_op)" for root by simp
    then show "\<forall>root. keeps_typed (upsert_causal_clock H root peer counter depth :: ('m, map_link) db_op)"
      by (intro allI, subst upsert_causal_clock.simps) (auto intro!: typed split: option.split)
  qed (subst upsert_causal_clock.simps, auto intro: keeps_too_deep)
  then show ?thesis by simp
qed

lemma keeps_split [typed]:
  "keeps_typed (split_clock H root key depth :: ('m, map_link option \<times> u64 option \<times> map_link option) db_op)"
proof -
  have "\<forall>root. keeps_typed (split_clock H root key depth :: ('m, map_link option \<times> u64 option \<times> map_link option) db_op)"
  proof (rule keeps_depth)
    fix depth
    assume "\<And>deeper. 257 - deeper < 257 - depth \<Longrightarrow>
        \<forall>root. keeps_typed (split_clock H root key deeper :: ('m, map_link option \<times> u64 option \<times> map_link option) db_op)"
      and "depth \<le> 256"
    then have "keeps_typed (split_clock H root key (depth + 1) :: ('m, map_link option \<times> u64 option \<times> map_link option) db_op)" for root
      by simp
    then show "\<forall>root. keeps_typed (split_clock H root key depth :: ('m, map_link option \<times> u64 option \<times> map_link option) db_op)"
      by (intro allI, subst split_clock.simps) (auto intro!: typed split: option.split prod.split)
  qed (subst split_clock.simps, auto intro: keeps_too_deep)
  then show ?thesis by simp
qed

lemma keeps_union [typed]: "keeps_typed (union_clocks H l r depth :: ('m, map_link option) db_op)"
proof -
  have "\<forall>l r. keeps_typed (union_clocks H l r depth :: ('m, map_link option) db_op)"
  proof (rule keeps_depth)
    fix depth
    assume "\<And>deeper. 257 - deeper < 257 - depth \<Longrightarrow> \<forall>l r. keeps_typed (union_clocks H l r deeper :: ('m, map_link option) db_op)"
      and "depth \<le> 256"
    then have "keeps_typed (union_clocks H l r (depth + 1) :: ('m, map_link option) db_op)" for l r by simp
    then show "\<forall>l r. keeps_typed (union_clocks H l r depth :: ('m, map_link option) db_op)"
      by (intro allI, subst union_clocks.simps) (auto intro!: typed split: option.split prod.split)
  qed (subst union_clocks.simps, auto intro: keeps_too_deep)
  then show ?thesis by simp
qed

lemma keeps_upsert_batch [typed]: "keeps_typed (upsert_batch_map H root i d depth :: ('m, map_link) db_op)"
proof -
  have "\<forall>root. keeps_typed (upsert_batch_map H root i d depth :: ('m, map_link) db_op)"
  proof (rule keeps_depth)
    fix depth
    assume "\<And>deeper. 257 - deeper < 257 - depth \<Longrightarrow> \<forall>root. keeps_typed (upsert_batch_map H root i d deeper :: ('m, map_link) db_op)"
      and "depth \<le> 256"
    then have "keeps_typed (upsert_batch_map H root i d (depth + 1) :: ('m, map_link) db_op)" for root by simp
    then show "\<forall>root. keeps_typed (upsert_batch_map H root i d depth :: ('m, map_link) db_op)"
      by (intro allI, subst upsert_batch_map.simps) (auto intro!: typed split: option.split)
  qed (subst upsert_batch_map.simps, auto intro: keeps_too_deep)
  then show ?thesis by simp
qed

section \<open>Documents, events and the frontier row\<close>

lemma keeps_document_steps [typed]:
  "keeps_typed (load_linked H missing link)" "keeps_typed (store_refreshed H node)"
  "keeps_typed (rotate_frontier_right H node)" "keeps_typed (rotate_frontier_left H node)"
proof -
  have load: "only_reads (load_frontier_map_node H i expected)" for i expected
    unfolding load_frontier_map_node_def by (auto intro!: reading split: option.split)
  show linked: "keeps_typed (load_linked H missing link)" for missing link
    unfolding load_linked_def by (intro keeps_reads reading load)
  show "keeps_typed (store_refreshed H node)" unfolding store_refreshed_def Let_def by (intro typed)
  show "keeps_typed (rotate_frontier_right H node)" "keeps_typed (rotate_frontier_left H node)"
    unfolding rotate_frontier_right_def rotate_frontier_left_def Let_def by (intro typed linked)+
qed

lemma keeps_upsert_document [typed]: "keeps_typed (upsert_frontier_map H root document depth :: ('m, map_link \<times> bool) db_op)"
proof -
  have "\<forall>root. keeps_typed (upsert_frontier_map H root document depth :: ('m, map_link \<times> bool) db_op)"
  proof (rule keeps_depth)
    fix depth
    assume "\<And>deeper. 257 - deeper < 257 - depth \<Longrightarrow> \<forall>root. keeps_typed (upsert_frontier_map H root document deeper :: ('m, map_link \<times> bool) db_op)"
      and "depth \<le> 256"
    then have "keeps_typed (upsert_frontier_map H root document (depth + 1) :: ('m, map_link \<times> bool) db_op)" for root by simp
    then show "\<forall>root. keeps_typed (upsert_frontier_map H root document depth :: ('m, map_link \<times> bool) db_op)"
      by (intro allI, subst upsert_frontier_map.simps) (auto intro!: typed split: option.split prod.split)
  qed (subst upsert_frontier_map.simps, auto intro: keeps_too_deep)
  then show ?thesis by simp
qed

lemma keeps_documents_loop [typed]: "keeps_typed (upsert_documents_loop H documents root n)"
  by (induction documents arbitrary: root n) (auto intro!: typed split: prod.split)

lemma keeps_merge [typed]: "keeps_typed (merge_heads H root heads clock)"
  by (induction heads arbitrary: clock) (auto intro!: typed)

lemma keeps_derive [typed]: "keeps_typed (derive_causal_clock_root H root batch)"
  unfolding derive_causal_clock_root_def by (auto intro!: typed)

lemma query_fresh: "query f db = (Inr x, db') \<Longrightarrow> faults_only db db' \<and> x = f db'"
  by (auto simp: query_def st_bind_def statement_def split: list.splits option.splits prod.splits sum.splits)

lemma event_row_typed:
  assumes "row_admitted (event_row H batch lk) rows" "uint (pb_acceptance_sequence batch) < 2 ^ 63"
    "uint (pb_causal_counter batch) < 2 ^ 63" "uint (pb_retained_bytes batch) < 2 ^ 63"
  shows "stored_batch_typed (event_row H batch lk)"
  using assms by (simp add: row_admitted_def event_row_def stored_batch_typed_def)

lemma keeps_insert [typed]: "keeps_typed (insert_event H batch lk)"
  unfolding insert_event_def
proof (rule keeps_lift_bind, rule keeps_lift_bind, rule keeps_lift_bind)
  fix a b c
  assume "i64_of_u64 (FrontierInvalidInput ''acceptance sequence exceeds SQLite'') (pb_acceptance_sequence batch) = Inr a"
    "i64_of_u64 (FrontierInvalidInput ''causal counter exceeds SQLite'') (pb_causal_counter batch) = Inr b"
    "i64_of_u64 (FrontierInvalidInput ''retained-byte count exceeds SQLite'') (pb_retained_bytes batch) = Inr c"
  then have fits: "uint (pb_acceptance_sequence batch) < 2 ^ 63" "uint (pb_causal_counter batch) < 2 ^ 63" "uint (pb_retained_bytes batch) < 2 ^ 63"
    using i64_of_u64_Inr by blast+
  let ?row = "event_row H batch lk"
  have insert: "tables_typed (db\<lparr>db_batches := db_batches db @ [?row]\<rparr>)"
    if "tables_typed db" "row_admitted ?row (db_batches db)" for db :: "'a frontier_db"
  proof -
    have "\<forall>r \<in> set (db_batches db). sb_sequence r \<noteq> sb_sequence ?row \<and> sb_batch_id r \<noteq> sb_batch_id ?row
        \<and> sb_acceptance_sequence r \<noteq> sb_acceptance_sequence ?row"
      using that(2) unfolding row_admitted_def by blast
    then show ?thesis
      using that(1) event_row_typed [OF that(2) fits] by (auto simp: tables_typed_def)
  qed
  show "keeps_typed (st_bind (query (\<lambda>db :: 'a frontier_db. row_admitted ?row (db_batches db))) (\<lambda>admitted db.
     if admitted then (Inr (), db\<lparr>db_batches := db_batches db @ [?row]\<rparr>) else (Inl (FrontierSqlite ''constraint failed''), db)))"
    unfolding keeps_typed_def
  proof (intro allI impI)
    fix db :: "'a frontier_db"
    assume ok: "tables_typed db"
    let ?q = "query (\<lambda>db :: 'a frontier_db. row_admitted ?row (db_batches db))"
    obtain r db' where q: "?q db = (r, db')" by (cases "?q db")
    then have "tables_typed db'" using keeps_typedD [OF keeps_loads(5) q ok] by simp
    then show "tables_typed (snd (st_bind ?q (\<lambda>admitted db.
        if admitted then (Inr (), db\<lparr>db_batches := db_batches db @ [?row]\<rparr>) else (Inl (FrontierSqlite ''constraint failed''), db)) db))"
      using q query_fresh [of "\<lambda>db. row_admitted ?row (db_batches db)" db _ db'] insert [of db']
      by (cases r) (auto simp: st_bind_def)
  qed
qed

lemma keeps_frontier [typed]: "keeps_typed (update_frontier H batch)"
  unfolding update_frontier_def
proof (rule keeps_lift_bind)
  fix count
  assume "i64_of_u64 (FrontierCorrupt ''applied batch sequence exceeds SQLite'') (pb_acceptance_sequence batch) = Inr count"
  then have "0 \<le> count" "count < 2 ^ 63" using i64_of_u64_Inr by force+
  then show "keeps_typed (update_db (\<lambda>db :: 'a frontier_db. db\<lparr>db_frontier := map_option (\<lambda>_.
       \<lparr>frontier_root = pr_canonical_bytes (pb_post_frontier_root batch),
        frontier_root_digest = array_bytes (root_digest H (pb_post_frontier_root batch)),
        applied_batch_count = count\<rparr>) (db_frontier db)\<rparr>))"
    by (intro keeps_update) (auto simp: tables_typed_def frontier_row_typed_def)
qed

section \<open>Applies\<close>

lemma keeps_accept [typed]: "keeps_typed (accept_batch H root batch stored)"
  unfolding accept_batch_def by (auto intro!: typed)

lemma keeps_projection [typed]: "keeps_typed (apply_materialization M transaction n change sequence d post reference)"
proof -
  have p: "keeps_typed (apply_projection M change sequence d post reference c)" for c
    by (auto simp: keeps_typed_def apply_projection_def tables_typed_def split: prod.split sum.split)
  have "keeps_typed require_transaction" by (simp add: keeps_typed_def require_transaction_def)
  with p show ?thesis
    unfolding apply_materialization_def Let_def by (auto intro!: typed split: open_apply_transaction.split)
qed

lemma keeps_finish [typed]: "keeps_typed (finish_apply H M transaction root request documents)"
proof -
  have "keeps_typed (apply_documents H root batch)" for batch
    unfolding apply_documents_def Let_def by (auto intro!: typed split: prod.split option.split)
  then show ?thesis
    unfolding finish_apply_def Let_def by (auto intro!: typed split: option.split)
qed

lemma open_transaction_typed:
  assumes "apply_in_open_transaction H M transaction root request stored documents db = Some (r, db')" "tables_typed db"
  shows "tables_typed db'"
proof (cases "accept_batch H root (rq_batch request) stored db")
  case (Pair accepted db1)
  have 1: "tables_typed db1" using keeps_typedD [OF keeps_accept Pair assms(2)] .
  have "tables_typed (snd (finish_apply H M transaction root request documents db1))"
    using keeps_finish [of H M transaction root request documents] 1 by (simp add: keeps_typed_def)
  then show ?thesis
    using assms(1) Pair 1 by (auto simp: apply_in_open_transaction_def split: sum.splits apply_fault.splits)
qed

lemma typed_other: "tables_typed (db\<lparr>db_autocommit := c\<rparr>) = tables_typed db" "tables_typed (roll_back begun db) = tables_typed begun"
  by (simp_all add: tables_typed_def roll_back_def)


end
