(* ===== verification/Frontier_Properties.thy ===== *)
theory Frontier_Properties
  imports Frontier_Typing
begin

text \<open>
  What the SQLite frontier promises its callers, over a database that stands for a log of accepted batches: applies, causal
  queries, clock roots, the documents, and the depth bound.
\<close>

lemma still_history: "still H R q db db' \<Longrightarrow> history_holds H R q root log db \<Longrightarrow> history_holds H R q root log db'"
  using still_log nodes_other by (fastforce simp: history_holds_def still_def same_other_tables_def)

lemma history_parts:
  assumes "history_holds H R q root log db"
  shows "tables_ok H R q db" "log_holds H root log db" "log_fits H R log" "accepted_log H log"
  using assms by (auto simp: history_holds_def log_holds_def)

lemma log_entry_self:
  assumes "accepted_log H log" "e \<in> set log"
  shows "log_entry log (entry_id e) = Some e"
proof -
  obtain f where f: "log_entry log (entry_id e) = Some f"
    using assms(2) log_entry_None [of log "entry_id e"] by (cases "log_entry log (entry_id e)") auto
  moreover have "f = e"
    using log_entry_in [OF f] assms accepted_distinct [OF assms(1)] by (auto simp: distinct_map dest: inj_onD)
  ultimately show ?thesis by simp
qed

text \<open>C3. An ordinary apply refines the abstract frontier: from tables that stand for a log of accepted batches and the
  current documents, an apply that succeeds has either appended exactly its batch to the log and put exactly its documents,
  leaving tables that stand for the result under the batch's post root, or found the batch in the log, with the same row and
  the same causal record, and left the abstract frontier alone.\<close>
theorem apply_batch_refines:
  assumes "frontier_holds H R K q root a db" "request_fits H R K root (af_log a) (rq_batch rq)"
    and "apply_batch H M root rq db = Some (Inr r, db')"
  shows "\<exists>a'. abstract_apply H root (rq_batch rq) a (ar_disposition r) a'
    \<and> frontier_holds H R K q (root_after root (rq_batch rq) (ar_disposition r)) a' db'"
  using assms by (rule apply_batch_step)

text \<open>C5. The causal query is exact: comparing one dot with one authenticated clock, \<open>batch_descends_from\<close> decides the
  reflexive transitive closure of the dependency heads in the log, whenever no two accepted batches carry the same
  dot; it can fail only by an error SQLite reports, and it changes nothing.\<close>
theorem batch_descends_iff_ancestor:
  assumes "history_holds H R q root log db" "inj_on entry_dot (set log)" "d \<in> set log" "a \<in> set log"
  shows "runs (batch_descends_from H root (entry_id d) (entry_id a)) db
    (\<lambda>found db'. found = ((entry_id a, entry_id d) \<in> (log_parents log)\<^sup>*) \<and> history_holds H R q root log db') (sql_fault q)"
proof -
  note h = history_parts [OF assms(1)]
  show ?thesis
    by (rule runs_mono [OF descends_log [OF h(1-3) log_entry_self [OF h(4) assms(3)] log_entry_self [OF h(4) assms(4)]]])
      (use covers_iff_ancestor [OF h(4) assms(2,4,3)] still_history [OF _ assms(1)] in auto)
qed

text \<open>C12. The causal clock root of a batch is a function of its causal clock alone, and an injective one: whatever the
  unions, splits and rotations that built them, two derivations over the same log end with the same root exactly when the
  pointwise maxima of the clocks of the dependency heads, with the own dots entered, are the same clock.\<close>
theorem derived_clock_roots_canonical:
  assumes "history_holds H R q root log db"
    and "(pb_causal_peer_id b, pb_causal_counter b) \<in> dots R" "(pb_causal_peer_id c, pb_causal_counter c) \<in> dots R"
    and "derive_causal_clock_root H root b db = (Inr x, db1)" "derive_causal_clock_root H root c db1 = (Inr y, db2)"
  shows "x = y \<longleftrightarrow> batch_clock (log_clocks log) b = batch_clock (log_clocks log) c"
proof -
  note h = history_parts [OF assms(1)]
  have d1: "clock_holds H db1 (Some x) (batch_clock (log_clocks log) b)" "still H R q db db1"
    using runs_Inr [OF derive_log [OF h(1-3) assms(2)] assms(4)] by auto
  note h1 = history_parts [OF still_history [OF d1(2) assms(1)]]
  have d2: "clock_holds H db2 (Some y) (batch_clock (log_clocks log) c)"
    using runs_Inr [OF derive_log [OF h1(1-3) assms(3)] assms(5)] by auto
  have graph: "Map.graph (batch_clock (log_clocks log) e) \<subseteq> dots R" if "(pb_causal_peer_id e, pb_causal_counter e) \<in> dots R" for e
  proof -
    have "(p, n) \<in> dots R" if "heads_clock (log_clocks log) (pb_causal_dependency_heads e) p = Some n" for p n
      using heads_clock_dots [OF that] h(3) unfolding log_fits_def by blast
    with that show ?thesis by (auto simp: Map.graph_def batch_clock_def split: if_splits)
  qed
  have "clock_space H (clock_texts R) (dots R)" using h(1) by (simp add: tables_ok_def clock_inv_def)
  from clock_roots [OF this d1(1) d2 graph [OF assms(2)] graph [OF assms(3)]] show ?thesis by simp
qed

text \<open>C16. Reading all documents terminates and is exact: over tables that stand for the documents under the root, the
  traversal, which has no depth bound of its own, always ends, with the documents sorted by identifier and nothing else,
  or with an error SQLite reports.\<close>
theorem read_frontier_documents_total:
  assumes "frontier_holds H R K q root a db"
  shows "\<exists>result db'. read_frontier_documents H root db = Some (result, db')
    \<and> ((\<exists>docs. result = Inr docs \<and> sorted_documents docs \<and> map_of (map pair_of docs) = af_documents a \<and> faults_only db db')
       \<or> (\<exists>e. result = Inl e \<and> sql_fault q e db'))"
proof -
  have m: "documents_hold H db (root_link (pr_document_map_root_key root) (pr_document_map_root_digest root)) (af_documents a)"
    and count: "unat (pr_document_count root) = card (dom (af_documents a))" and q: "quiet q db"
    using assms by (auto simp: frontier_holds_def documents_match_def history_holds_def dest: tables_okD)
  have "word_of_nat (card (dom (af_documents a))) = pr_document_count root"
    unfolding count [symmetric] by simp
  from read_frontier_documents_exact [OF q m this] show ?thesis by blast
qed

text \<open>C17. The depth bound of 256 is never met by a frontier of at most 256 documents, whatever the hash makes of their
  priorities: upserting any list of them, new or known, returns without an error when no statement fails, leaves the
  last content of each, and counts exactly the new ones.\<close>
theorem documents_within_depth_bound:
  assumes "documents_hold H db root m" "db_faults db = []"
    and "finite K" "card K \<le> 256" "dom m \<subseteq> K" "pd_document_id ` set docs \<subseteq> K" "length docs < 2 ^ 64"
  shows "\<exists>x n db'. upsert_documents_loop H docs root 0 db = (Inr (x, n), db')
    \<and> documents_hold H db' x (put_documents docs m) \<and> unat n = card (pd_document_id ` set docs - dom m)"
proof -
  have room: "document_room H K" unfolding document_room_def by (rule shallow_card [OF assms(3,4)])
  have up: "runs (upsert_documents_loop H docs root 0) db
     (\<lambda>(x, n) db'. documents_hold H db' x (put_documents docs m)
        \<and> unat n + card (dom m) = card (dom (put_documents docs m))) (\<lambda>_ _. False)"
    by (rule runs_mono [OF upsert_documents_loop_ok [where q = True and n = 0, OF _ assms(1) room assms(5,6)]])
      (use assms(2,7) in \<open>auto simp: quiet_def sql_fault_def\<close>)
  then obtain x n db' where run: "upsert_documents_loop H docs root 0 db = (Inr (x, n), db')"
    by (cases "upsert_documents_loop H docs root 0 db") (auto simp: runs_def split: sum.splits)
  have fin: "finite (dom m)" using assms(3,5) finite_subset by blast
  have "card (dom m \<union> pd_document_id ` set docs) = card (dom m) + card (pd_document_id ` set docs - dom m)"
    using fin by (subst Un_Diff_cancel [symmetric], subst card_Un_disjoint) auto
  then show ?thesis
    using runs_Inr [OF up run] run by (simp add: dom_put_documents)
qed

end
