(* ===== verification/Frontier_Instances.thy ===== *)
theory Frontier_Instances
  imports Frontier_Properties
begin

text \<open>
  A concrete frontier where the hypotheses of its properties hold: a hash without collisions on the texts of two
  batches of one peer, the second depending on the first, each with a document; the empty database, and the databases that
  applying the batches to it leaves.
\<close>

section \<open>Evaluation\<close>

text \<open>The checks against large bounds, on integers.\<close>

lemma uint_less_iff: "unat (w :: u64) < n \<longleftrightarrow> uint w < int n"
proof -
  have "unat w < n \<longleftrightarrow> int (unat w) < int n" by (simp only: of_nat_less_iff)
  then show ?thesis by simp
qed

lemma i64_of_u64_code [code]: "i64_of_u64 e w = (if uint w < 9223372036854775808 then Inr (uint w) else Inl e)"
  using uint_less_iff [of w "2 ^ 63"] by (simp add: i64_of_u64_def)

lemma add64_bound: "unat (a :: u64) + unat b < 2 ^ 64 \<longleftrightarrow> uint a + uint b < 18446744073709551616"
proof -
  have "unat a + unat b < 2 ^ 64 \<longleftrightarrow> int (unat a + unat b) < int (2 ^ 64)" by (simp only: of_nat_less_iff)
  then show ?thesis by simp
qed

lemma checked_add64_code [code]: "checked_add64 a b = (if uint a + uint b < 18446744073709551616 then Some (a + b) else None)"
  unfolding checked_add64_def add64_bound ..

lemma saturating_add64_code [code]: "saturating_add64 a b = (if uint a + uint b < 18446744073709551616 then a + b else - 1)"
  unfolding saturating_add64_def add64_bound ..

text \<open>The domain separators as bytes.\<close>

lemma separators [code_unfold]:
  "bytes_of_text ''tine/oplog/authenticated-map/v1/priority'' = [116, 105, 110, 101, 47, 111, 112, 108, 111, 103, 47, 97, 117, 116, 104,
     101, 110, 116, 105, 99, 97, 116, 101, 100, 45, 109, 97, 112, 47, 118, 49, 47, 112, 114, 105, 111, 114, 105, 116, 121]"
  "bytes_of_text ''tine/oplog/authenticated-map/v1/node'' = [116, 105, 110, 101, 47, 111, 112, 108, 111, 103, 47, 97, 117, 116, 104,
     101, 110, 116, 105, 99, 97, 116, 101, 100, 45, 109, 97, 112, 47, 118, 49, 47, 110, 111, 100, 101]"
  "bytes_of_text ''tine/oplog/causal-clock-entry/v1'' = [116, 105, 110, 101, 47, 111, 112, 108, 111, 103, 47, 99, 97, 117, 115, 97,
     108, 45, 99, 108, 111, 99, 107, 45, 101, 110, 116, 114, 121, 47, 118, 49]"
  "bytes_of_text ''tine/oplog/accepted-causal-record/v1'' = [116, 105, 110, 101, 47, 111, 112, 108, 111, 103, 47, 97, 99, 99, 101, 112,
     116, 101, 100, 45, 99, 97, 117, 115, 97, 108, 45, 114, 101, 99, 111, 114, 100, 47, 118, 49]"
  "bytes_of_text ''tine/oplog/authenticated-map/v1/empty'' = [116, 105, 110, 101, 47, 111, 112, 108, 111, 103, 47, 97, 117, 116, 104,
     101, 110, 116, 105, 99, 97, 116, 101, 100, 45, 109, 97, 112, 47, 118, 49, 47, 101, 109, 112, 116, 121]"
  by code_simp+

section \<open>Two batches\<close>

definition w_hash :: hash where
  "w_hash t = mk_array (word_of_nat (length t) # (if t = [] then 0 else last t) # take 11 (drop (length t - 34) t))"

definition w_id :: "byte \<Rightarrow> uuid" where
  "w_id n = mk_array (replicate 15 0 @ [n])"

definition w_zero :: digest where
  "w_zero = mk_array []"

definition w_root0 :: physical_frontier_root where
  "w_root0 = \<lparr>pr_canonical_bytes = [0], pr_acceptance_sequence = 0, pr_document_count = 0, pr_document_map_root_key = None,
     pr_document_map_root_digest = w_hash EMPTY_MAP_TEXT, pr_batch_map_root_key = None,
     pr_batch_map_root_digest = w_hash EMPTY_MAP_TEXT, pr_state_digest = w_zero\<rparr>"

definition w_document :: "byte \<Rightarrow> physical_frontier_document" where
  "w_document n = \<lparr>pd_document_id = w_id n, pd_canonical_bytes = [n]\<rparr>"

text \<open>The clock \<open>{peer \<mapsto> n}\<close> of the only peer, and the batches without their roots.\<close>

definition w_clock :: "u64 \<Rightarrow> map_link" where
  "w_clock n = \<lparr>link_key = w_id 7, link_digest =
     authenticated_map_node_digest w_hash (w_id 7) (causal_clock_counter_digest w_hash (w_id 7) n) None None\<rparr>"

definition w_event :: "byte \<Rightarrow> u64 \<Rightarrow> uuid list \<Rightarrow> physical_accepted_batch" where
  "w_event i n heads =
     \<lparr>pb_batch_id = w_id i, pb_manifest_digest = w_zero, pb_event_binding_digest = w_zero, pb_semantic_effect = [i],
      pb_semantic_effect_digest = w_hash [i], pb_dependency_frontier = [], pb_prior_frontier_root = w_root0,
      pb_post_frontier_root = w_root0, pb_affected_documents = [w_document i], pb_affected_documents_bytes = [i],
      pb_causal_dependency_heads = heads, pb_causal_dependency_heads_bytes = [], pb_causal_peer_id = w_id 7,
      pb_causal_counter = n, pb_acceptance_sequence = n, pb_retained_bytes = 0\<rparr>"

definition w_record :: "byte \<Rightarrow> u64 \<Rightarrow> digest" where
  "w_record i n = accepted_causal_record_digest w_hash (w_event i n []) (w_clock n)"

definition w_leaf :: "byte \<Rightarrow> digest \<Rightarrow> map_link" where
  "w_leaf i d = \<lparr>link_key = w_id i, link_digest = authenticated_map_node_digest w_hash (w_id i) d None None\<rparr>"

text \<open>A map of the keys 1 and 2: whichever comes first is the root.\<close>

definition w_pair :: "digest \<Rightarrow> digest \<Rightarrow> map_link" where
  "w_pair d1 d2 =
     (if authenticated_map_priority_order w_hash (w_id 1) (w_id 2)
      then \<lparr>link_key = w_id 1, link_digest = authenticated_map_node_digest w_hash (w_id 1) d1 None (Some (w_leaf 2 d2))\<rparr>
      else \<lparr>link_key = w_id 2, link_digest = authenticated_map_node_digest w_hash (w_id 2) d2 (Some (w_leaf 1 d1)) None\<rparr>)"

definition w_root :: "byte \<Rightarrow> u64 \<Rightarrow> map_link \<Rightarrow> map_link \<Rightarrow> physical_frontier_root" where
  "w_root i n documents batches =
     \<lparr>pr_canonical_bytes = [i], pr_acceptance_sequence = n, pr_document_count = n,
      pr_document_map_root_key = Some (link_key documents), pr_document_map_root_digest = link_digest documents,
      pr_batch_map_root_key = Some (link_key batches), pr_batch_map_root_digest = link_digest batches,
      pr_state_digest = mk_array [i]\<rparr>"

definition w_root1 :: physical_frontier_root where
  "w_root1 = w_root 1 1 (w_leaf 1 (w_hash [1])) (w_leaf 1 (w_record 1 1))"

definition w_root2 :: physical_frontier_root where
  "w_root2 = w_root 2 2 (w_pair (w_hash [1]) (w_hash [2])) (w_pair (w_record 1 1) (w_record 2 2))"

definition w_batch1 :: physical_accepted_batch where
  "w_batch1 = (w_event 1 1 [])\<lparr>pb_post_frontier_root := w_root1\<rparr>"

definition w_batch2 :: physical_accepted_batch where
  "w_batch2 = (w_event 2 2 [w_id 1])\<lparr>pb_prior_frontier_root := w_root1, pb_post_frontier_root := w_root2\<rparr>"

definition w_request :: "physical_accepted_batch \<Rightarrow> apply_fault \<Rightarrow> (unit, unit) physical_apply_request" where
  "w_request b fault =
     \<lparr>rq_batch = b, rq_materialization = None, rq_materialization_input_digest = None, rq_authenticated_reference = None,
      rq_prior_reference_coverage_count = None, rq_fault = fault\<rparr>"

definition w_materializer :: "(unit, unit, unit, unit) materializer" where
  "w_materializer = \<lparr>project = \<lambda>_ _ _ _ _ _ m. (Inr (), m), no_changes = ()\<rparr>"

definition w_db0 :: "unit frontier_db" where
  "w_db0 = \<lparr>db_frontier = Some (root_row w_hash w_root0), db_documents = [], db_clock_nodes = (\<lambda>_. None),
     db_batch_nodes = (\<lambda>_. None), db_batches = [],
     db_materialization = \<lparr>mat_stamp = None, mat_batches = (\<lambda>_. None), mat_projection = ()\<rparr>, db_autocommit = True,
     db_faults = []\<rparr>"

definition w_apply :: "apply_fault \<Rightarrow> ((frontier_error + unit apply_result) \<times> unit frontier_db) option" where
  "w_apply fault = apply_batch w_hash w_materializer w_root0 (w_request w_batch1 fault) w_db0"

definition w_db1 :: "unit frontier_db" where
  "w_db1 = snd (the (w_apply NoFault))"

text \<open>The tables after both batches, without their documents, inside a candidate build.\<close>

definition w_log :: "entry list" where
  "w_log = [(w_batch1, w_clock 1), (w_batch2, w_clock 2)]"

definition w_clock_node :: "u64 \<Rightarrow> clock_node" where
  "w_clock_node n = \<lparr>node_key = w_id 7, node_value = n, node_left = None, node_right = None\<rparr>"

definition w_leaf_node :: "byte \<Rightarrow> digest \<Rightarrow> batch_map_node" where
  "w_leaf_node i d = \<lparr>node_key = w_id i, node_value = d, node_left = None, node_right = None\<rparr>"

definition w_pair_node :: batch_map_node where
  "w_pair_node = \<lparr>node_key = w_id 1, node_value = w_record 1 1, node_left = None, node_right = Some (w_leaf 2 (w_record 2 2))\<rparr>"

definition w_history :: "unit frontier_db" where
  "w_history = w_db0\<lparr>db_frontier := Some (root_row w_hash w_root2),
     db_clock_nodes := [link_digest (w_clock 1) \<mapsto> clock_row_of w_hash (w_clock_node 1),
       link_digest (w_clock 2) \<mapsto> clock_row_of w_hash (w_clock_node 2)],
     db_batch_nodes := [link_digest (w_leaf 2 (w_record 2 2)) \<mapsto> batch_row_of (w_leaf_node 2 (w_record 2 2)),
       link_digest (w_pair (w_record 1 1) (w_record 2 2)) \<mapsto> batch_row_of w_pair_node],
     db_batches := map (entry_row w_hash) w_log, db_autocommit := False\<rparr>"

section \<open>The room\<close>

definition w_dots :: "(uuid \<times> u64) set" where
  "w_dots = {(w_id 7, 1), (w_id 7, 2)}"

definition w_bindings :: "(uuid \<times> digest) set" where
  "w_bindings = {(w_id 1, w_record 1 1), (w_id 2, w_record 2 2)}"

definition w_clock_text :: "u64 \<Rightarrow> bytes" where
  "w_clock_text n = map_node_text (w_id 7) (causal_clock_counter_digest w_hash (w_id 7) n) None None"

definition w_clock_texts :: "bytes list" where
  "w_clock_texts = [clock_text (w_id 7) 1, clock_text (w_id 7) 2, w_clock_text 1, w_clock_text 2]"

definition w_batch_texts :: "bytes list" where
  "w_batch_texts = [map_node_text (w_id 1) (w_record 1 1) None None, map_node_text (w_id 2) (w_record 2 2) None None,
     map_node_text (w_id 1) (w_record 1 1) None (Some (w_leaf 2 (w_record 2 2)))]"

definition w_room :: room where
  "w_room = \<lparr>clock_texts = set w_clock_texts, dots = w_dots, batch_texts = set w_batch_texts, bindings = w_bindings\<rparr>"

lemma w_evaluated: "distinct (map w_hash w_clock_texts)" "distinct (map w_hash w_batch_texts)"
    "authenticated_map_priority_order w_hash (w_id 1) (w_id 2)"
    "w_id 1 < w_id 2"
  by code_simp+

lemma w_inj: "inj_on w_hash (set w_clock_texts)" "inj_on w_hash (set w_batch_texts)"
  using w_evaluated(1,2) by (simp_all add: distinct_map)

text \<open>The trees over the dots and over the bindings, all of them.\<close>

lemma clock_trees:
  assumes "map_ok w_hash t" "tentries t \<subseteq> w_dots"
  shows "t = Tip \<or> t = Bin Tip (w_id 7) 1 Tip \<or> t = Bin Tip (w_id 7) 2 Tip"
proof (cases t)
  case (Bin l k v r)
  have keys: "tkeys t \<subseteq> {w_id 7}" using assms(2) unfolding keys_entries w_dots_def by auto
  have "tkeys l = {}" "tkeys r = {}"
    using assms(1) keys Bin by force+
  then have "l = Tip \<and> r = Tip" by (cases l; cases r) auto
  then show ?thesis using assms(2) Bin by (auto simp: w_dots_def)
qed simp

abbreviation w_pair_tree :: "(uuid, digest) treap" where
  "w_pair_tree \<equiv> Bin Tip (w_id 1) (w_record 1 1) (Bin Tip (w_id 2) (w_record 2 2) Tip)"

lemma batch_trees:
  assumes "map_ok w_hash t" "tentries t \<subseteq> w_bindings"
  shows "t \<in> {Tip, Bin Tip (w_id 1) (w_record 1 1) Tip, Bin Tip (w_id 2) (w_record 2 2) Tip, w_pair_tree}"
proof -
  have val: "v = w_record 1 1" if "tmap t (w_id 1) = Some v" for v
    using that assms tmap_entries [OF assms(1)] w_evaluated(4) by (auto simp: w_bindings_def)
  have val2: "v = w_record 2 2" if "tmap t (w_id 2) = Some v" for v
    using that assms tmap_entries [OF assms(1)] w_evaluated(4) by (auto simp: w_bindings_def)
  have other: "tmap t x = None" if "x \<noteq> w_id 1" "x \<noteq> w_id 2" for x
  proof -
    have "x \<notin> tkeys t" using that assms(2) by (auto simp: keys_entries w_bindings_def)
    then show ?thesis using tmap_None [OF assms(1)] by simp
  qed
  have ok: "map_ok w_hash w_pair_tree" using w_evaluated(3,4) by simp
  have eq: "t = u" if "map_ok w_hash u" "tmap u (w_id 1) = tmap t (w_id 1)" "tmap u (w_id 2) = tmap t (w_id 2)"
      "\<And>x. x \<noteq> w_id 1 \<Longrightarrow> x \<noteq> w_id 2 \<Longrightarrow> tmap u x = None" for u
    by (rule priority.treap_unique [OF assms(1) that(1)]) (use that(2-4) other in \<open>metis ext\<close>)
  show ?thesis
  proof (cases "tmap t (w_id 1)"; cases "tmap t (w_id 2)")
    assume "tmap t (w_id 1) = None" "tmap t (w_id 2) = None"
    then have "t = Tip" by (intro eq) auto
    then show ?thesis by simp
  next
    fix b assume h: "tmap t (w_id 1) = None" "tmap t (w_id 2) = Some b"
    then have "t = Bin Tip (w_id 2) (w_record 2 2) Tip" using val2 w_evaluated(4) by (intro eq) auto
    then show ?thesis by simp
  next
    fix a assume h: "tmap t (w_id 1) = Some a" "tmap t (w_id 2) = None"
    then have "t = Bin Tip (w_id 1) (w_record 1 1) Tip" using val w_evaluated(4) by (intro eq) auto
    then show ?thesis by simp
  next
    fix a b assume h: "tmap t (w_id 1) = Some a" "tmap t (w_id 2) = Some b"
    then have "t = w_pair_tree" using val val2 w_evaluated(4) ok by (intro eq) auto
    then show ?thesis by simp
  qed
qed

lemma w_spaces: "clock_space w_hash (set w_clock_texts) w_dots" "batch_space w_hash (set w_batch_texts) w_bindings"
proof -
  have "tree_texts w_hash (causal_clock_counter_digest w_hash) t \<subseteq> set w_clock_texts" if "map_ok w_hash t" "tentries t \<subseteq> w_dots" for t
    using clock_trees [OF that] by (auto simp: w_clock_texts_def w_clock_text_def)
  then show "clock_space w_hash (set w_clock_texts) w_dots"
    using w_inj(1) by (simp add: clock_space_def w_dots_def w_clock_texts_def)
  have "tree_texts w_hash (\<lambda>_ d. d) t \<subseteq> set w_batch_texts" if "map_ok w_hash t" "tentries t \<subseteq> w_bindings" for t
    using batch_trees [OF that] by (auto simp: w_batch_texts_def w_leaf_def)
  then show "batch_space w_hash (set w_batch_texts) w_bindings"
    using w_inj(2) by (simp add: batch_space_def)
qed

lemma w_room_ok: "room_ok w_hash w_room"
proof -
  have "card (fst ` w_dots) \<le> 128" "card (fst ` w_bindings) \<le> 256"
    by (simp_all add: w_dots_def w_bindings_def card_insert_if)
  then show ?thesis by (simp add: room_ok_def w_room_def shallow_card w_dots_def w_bindings_def)
qed

section \<open>The empty frontier\<close>

definition w_empty :: abstract_frontier where
  "w_empty = \<lparr>af_log = [], af_documents = Map.empty\<rparr>"

definition w_keys :: "uuid set" where
  "w_keys = {w_id 1, w_id 2}"

lemma w_document_room: "document_room w_hash w_keys"
  unfolding document_room_def by (rule shallow_card) (simp_all add: w_keys_def card_insert_if)

lemma w_tables0: "tables_ok w_hash w_room True w_db0"
  using w_spaces w_room_ok
  by (simp add: tables_ok_def clock_inv_def batch_inv_def w_room_def clock_table_ok_def batch_table_ok_def w_db0_def quiet_def)

lemma w_holds0: "frontier_holds w_hash w_room w_keys True w_root0 w_empty w_db0"
proof -
  have tip: "\<exists>t. tree_link w_hash vd t = None \<and> map_ok w_hash t \<and> tmap t = (\<lambda>_. None) \<and> P t" if "P Tip" for vd and P :: "(uuid, 'v) treap \<Rightarrow> bool"
    using that by (intro exI [of _ Tip]) auto
  have "log_holds w_hash w_root0 [] w_db0"
    by (auto simp: log_holds_def batch_map_holds_def w_root0_def root_link_def w_db0_def intro!: accepted_log.intros exI [of _ Tip])
  moreover have "documents_match w_hash w_keys w_root0 Map.empty w_db0"
    using w_document_room
    by (auto simp: documents_match_def documents_hold_def w_root0_def root_link_def intro!: exI [of _ Tip])
  ultimately show ?thesis
    using w_tables0 by (simp add: frontier_holds_def history_holds_def w_empty_def log_fits_def w_db0_def)
qed

lemma w_record_event: "accepted_causal_record_digest w_hash w_batch1 (w_clock 1) = w_record 1 1"
    "accepted_causal_record_digest w_hash w_batch2 (w_clock 2) = w_record 2 2"
  by (simp_all add: w_record_def accepted_causal_record_digest_def causal_record_text_def w_batch1_def w_batch2_def w_event_def)

lemma w_clock_root: "tree_link w_hash (causal_clock_counter_digest w_hash) (Bin Tip (w_id 7) n Tip) = Some (w_clock n)"
  by (simp add: w_clock_def)

lemma w_single: "map_ok w_hash t \<Longrightarrow> tmap t = [k \<mapsto> v] \<Longrightarrow> t = Bin Tip k v Tip"
  by (rule priority.treap_unique) (auto simp: fun_eq_iff)

lemma w_fits1: "request_fits w_hash w_room w_keys w_root0 [] w_batch1"
proof -
  have clock: "batch_clock (log_clocks []) w_batch1 = [w_id 7 \<mapsto> 1]"
    by (simp add: batch_clock_def heads_clock_def w_batch1_def w_event_def)
  have "new_bindings w_hash [] w_batch1 \<subseteq> w_bindings"
  proof
    fix x
    assume "x \<in> new_bindings w_hash [] w_batch1"
    then obtain lk t where x: "x = (pb_batch_id w_batch1, accepted_causal_record_digest w_hash w_batch1 lk)"
        and t: "clock_link_of w_hash t = Some lk" "map_ok w_hash t" "tmap t = [w_id 7 \<mapsto> 1]"
      by (auto simp: new_bindings_def clock)
    have "lk = w_clock 1" using t(1) w_clock_root [of 1] unfolding w_single [OF t(2,3)] by simp
    then show "x \<in> w_bindings" unfolding x using w_record_event(1) by (simp add: w_bindings_def w_batch1_def w_event_def)
  qed
  then show ?thesis
    by (simp add: request_fits_def w_room_def w_dots_def w_batch1_def w_event_def w_document_def w_keys_def w_root0_def)
qed

lemma w_root0_code [code]: "w_root0 = \<lparr>pr_canonical_bytes = [0], pr_acceptance_sequence = 0, pr_document_count = 0,
     pr_document_map_root_key = None, pr_document_map_root_digest = mk_array [37, 121, 101, 47, 111, 112, 108, 111, 103, 47, 97, 117, 116],
     pr_batch_map_root_key = None, pr_batch_map_root_digest = mk_array [37, 121, 101, 47, 111, 112, 108, 111, 103, 47, 97, 117, 116],
     pr_state_digest = w_zero\<rparr>"
  by code_simp

lemma w_root1_code [code]: "w_root1 = \<lparr>pr_canonical_bytes = [1], pr_acceptance_sequence = 1, pr_document_count = 1,
     pr_document_map_root_key = Some (w_id 1), pr_document_map_root_digest = mk_array [87, 0, 1, 1, 1],
     pr_batch_map_root_key = Some (w_id 1), pr_batch_map_root_digest = mk_array [87, 0, 190, 0, 0, 7, 87, 0, 57, 1, 45, 101, 110],
     pr_state_digest = mk_array [1]\<rparr>"
  by code_simp

section \<open>The history of both batches\<close>

lemma w_digests: "link_digest (w_clock 1) \<noteq> link_digest (w_clock 2)"
    "link_digest (w_leaf 2 (w_record 2 2)) \<noteq> link_digest (w_pair (w_record 1 1) (w_record 2 2))"
  by code_simp+

lemma w_pair_link: "w_pair d1 d2 = \<lparr>link_key = w_id 1, link_digest = authenticated_map_node_digest w_hash (w_id 1) d1 None (Some (w_leaf 2 d2))\<rparr>"
  using w_evaluated(3) by (simp add: w_pair_def)

lemma w_tables: "tables_ok w_hash w_room True w_history"
proof -
  have clock: "clock_node_ok w_hash (set w_clock_texts) (w_clock_node n)" if "n = 1 \<or> n = 2" for n
    using that by (auto simp: clock_node_ok_def w_clock_node_def valid_map_children_def w_clock_texts_def w_clock_text_def)
  have link: "clock_link w_hash (w_clock_node n) = w_clock n" for n
    by (simp add: clock_link_def w_clock_node_def w_clock_def)
  have "\<exists>n. clock_node_ok w_hash (set w_clock_texts) n \<and> row = clock_row_of w_hash n \<and> d = link_digest (clock_link w_hash n)"
    if "db_clock_nodes w_history d = Some row" for d row
    using that clock [of 1] clock [of 2] link by (auto simp: w_history_def split: if_splits)
  then have c: "clock_table_ok w_hash (set w_clock_texts) w_history" by (simp add: clock_table_ok_def)
  have nodes: "batch_node_ok w_hash (set w_batch_texts) (w_leaf_node 2 (w_record 2 2))" "batch_node_ok w_hash (set w_batch_texts) w_pair_node"
    using w_evaluated(3,4)
    by (simp_all add: batch_node_ok_def w_leaf_node_def w_pair_node_def valid_map_children_def w_batch_texts_def w_leaf_def)
  have links: "batch_link w_hash (w_leaf_node 2 (w_record 2 2)) = w_leaf 2 (w_record 2 2)"
      "batch_link w_hash w_pair_node = w_pair (w_record 1 1) (w_record 2 2)"
    by (simp_all add: batch_link_def w_leaf_node_def w_pair_node_def w_leaf_def w_pair_link)
  have "\<exists>n. batch_node_ok w_hash (set w_batch_texts) n \<and> row = batch_row_of n \<and> d = link_digest (batch_link w_hash n)"
    if "db_batch_nodes w_history d = Some row" for d row
    using that nodes links by (auto simp: w_history_def split: if_splits)
  then have "batch_table_ok w_hash (set w_batch_texts) w_history" by (simp add: batch_table_ok_def)
  with c show ?thesis
    using w_spaces w_room_ok
    by (simp add: tables_ok_def clock_inv_def batch_inv_def w_room_def quiet_def w_history_def w_db0_def)
qed

lemma w_accepted: "accepted_log w_hash w_log"
proof -
  have 1: "accepted_log w_hash ([] @ [(w_batch1, w_clock 1)])"
    by (intro accepted_log.intros)
      (simp add: entry_ok_def w_batch1_def w_event_def next_counter_def heads_clock_def unwrap_counter_def)
  have ids: "w_id 2 \<noteq> w_id 1" using w_evaluated(4) by auto
  have clock: "log_clocks [(w_batch1, w_clock 1)] (w_id 1) = [w_id 7 \<mapsto> 1]"
    by (simp add: log_clocks_def entry_id_def batch_clock_def heads_clock_def w_batch1_def w_event_def)
  have "next_counter [(w_batch1, w_clock 1)] w_batch2 = 2"
    using clock by (simp add: next_counter_def heads_clock_def w_batch2_def w_event_def clock_join_def unwrap_counter_def)
  then have "entry_ok w_hash [(w_batch1, w_clock 1)] w_batch2"
    using ids by (simp add: entry_ok_def entry_id_def w_batch1_def w_batch2_def w_event_def)
  from accepted_log.accept [OF 1 [simplified] this, of "w_clock 2"] show ?thesis by (simp add: w_log_def)
qed

lemma w_holds: "history_holds w_hash w_room True w_root2 w_log w_history"
proof -
  have ids: "w_id 2 \<noteq> w_id 1" using w_evaluated(4) by auto
  have entries: "map (entry_binding w_hash) w_log = [(w_id 1, w_record 1 1), (w_id 2, w_record 2 2)]"
    by (simp add: w_log_def entry_binding_def entry_id_def w_record_event)
      (simp add: w_batch1_def w_batch2_def w_event_def)
  have "batch_link_of w_hash w_pair_tree = Some (w_pair (w_record 1 1) (w_record 2 2))"
    by (simp add: w_pair_link w_leaf_def)
  moreover have "batch_stored w_hash w_history w_pair_tree"
    using w_digests(2) w_evaluated(3,4)
    by (simp add: Let_def w_history_def batch_link_def w_pair_link w_leaf_def w_pair_node_def w_leaf_node_def valid_map_children_def)
  ultimately have batches: "batch_map_holds w_hash w_root2 w_log w_history"
    using w_evaluated(3,4) ids
    by (auto simp: batch_map_holds_def entries w_root2_def w_root_def root_link_def fun_eq_iff intro!: exI [of _ w_pair_tree])
  have stored: "clock_holds w_hash w_history (Some (w_clock n)) [w_id 7 \<mapsto> n]" if "n = 1 \<or> n = 2" for n
    using that w_digests(1)
    by (auto simp: clock_holds_def w_history_def Let_def clock_link_def w_clock_def w_clock_node_def valid_map_children_def fun_eq_iff
        intro!: exI [of _ "Bin Tip (w_id 7) n Tip"])
  have clocks: "log_clocks w_log (w_id 1) = [w_id 7 \<mapsto> 1]" "log_clocks w_log (w_id 2) = [w_id 7 \<mapsto> 2]"
    using ids by (simp_all add: w_log_def log_clocks_def entry_id_def batch_clock_def heads_clock_def w_batch1_def w_batch2_def w_event_def clock_join_def)
  have "\<forall>e \<in> set w_log. clock_holds w_hash w_history (Some (snd e)) (log_clocks w_log (entry_id e))"
    using stored [of 1] stored [of 2] clocks
    by (simp add: w_log_def entry_id_def) (simp add: w_batch1_def w_batch2_def w_event_def)
  then have "log_holds w_hash w_root2 w_log w_history"
    using w_accepted batches
    by (simp add: log_holds_def w_history_def w_root2_def w_root_def w_log_def)
  moreover have "log_fits w_hash w_room w_log"
    using entries
    by (simp add: log_fits_def w_room_def w_log_def entry_dot_def w_dots_def w_bindings_def)
      (simp add: w_batch1_def w_batch2_def w_event_def)
  ultimately show ?thesis
    using w_tables by (simp add: history_holds_def w_history_def)
qed

section \<open>The properties at these inputs\<close>

lemma runs_total: "runs m s Q E \<Longrightarrow> (\<And>e s'. \<not> E e s') \<Longrightarrow> \<exists>x s'. m s = (Inr x, s') \<and> Q x s'"
  by (cases "m s"; cases "fst (m s)") (auto simp: runs_def)

lemma no_sql_fault: "\<not> sql_fault True e db"
  by (simp add: sql_fault_def)

definition w_outcome :: "((frontier_error + unit apply_result) \<times> unit frontier_db) option \<Rightarrow> bool \<times> bool" where
  "w_outcome x =
     (case x of
        None \<Rightarrow> (False, False)
      | Some (Inl e, _) \<Rightarrow> (False, e = InjectedFailure)
      | Some (Inr r, _) \<Rightarrow> (True, ar_disposition r = Applied))"

lemma w_applied: "w_outcome (w_apply NoFault) = (True, True)"
  by code_simp

lemma w_injected: "w_outcome (w_apply ReturnAfterInsert) = (False, True)"
  by code_simp

lemma w_run: "\<exists>r. apply_batch w_hash w_materializer w_root0 (w_request w_batch1 NoFault) w_db0 = Some (Inr r, w_db1) \<and> ar_disposition r = Applied"
  using w_applied
  by (auto simp: w_outcome_def w_apply_def w_db1_def split: option.splits prod.splits sum.splits)

lemma w_holds1: "\<exists>lk. frontier_holds w_hash w_room w_keys True w_root1
    \<lparr>af_log = [(w_batch1, lk)], af_documents = put_documents [w_document 1] Map.empty\<rparr> w_db1"
proof -
  obtain r where r: "apply_batch w_hash w_materializer w_root0 (w_request w_batch1 NoFault) w_db0 = Some (Inr r, w_db1)" "ar_disposition r = Applied"
    using w_run by blast
  have "request_fits w_hash w_room w_keys w_root0 (af_log w_empty) (rq_batch (w_request w_batch1 NoFault))"
    using w_fits1 by (simp add: w_empty_def w_request_def)
  from apply_batch_step [OF w_holds0 this r(1)] show ?thesis
    by (auto simp: abstract_apply_def root_after_def r(2) w_empty_def w_request_def w_batch1_def w_event_def)
qed

theorem apply_batch_refines_witness:
  "\<exists>a'. abstract_apply w_hash w_root0 w_batch1 w_empty Applied a' \<and> frontier_holds w_hash w_room w_keys True w_root1 a' w_db1"
proof -
  obtain r where r: "apply_batch w_hash w_materializer w_root0 (w_request w_batch1 NoFault) w_db0 = Some (Inr r, w_db1)" "ar_disposition r = Applied"
    using w_run by blast
  have "request_fits w_hash w_room w_keys w_root0 (af_log w_empty) (rq_batch (w_request w_batch1 NoFault))"
    using w_fits1 by (simp add: w_empty_def w_request_def)
  from apply_batch_refines [OF w_holds0 this r(1)] show ?thesis
    by (simp add: r(2) root_after_def w_request_def) (simp add: w_batch1_def)
qed

text \<open>The batch is inserted, the injected failure rolls it back.\<close>

theorem apply_batch_atomic_witness:
  "\<exists>db'. apply_batch w_hash w_materializer w_root0 (w_request w_batch1 ReturnAfterInsert) w_db0 = Some (Inl InjectedFailure, db')
     \<and> faults_only w_db0 db'"
proof -
  obtain db' where r: "apply_batch w_hash w_materializer w_root0 (w_request w_batch1 ReturnAfterInsert) w_db0 = Some (Inl InjectedFailure, db')"
    using w_injected
    by (auto simp: w_outcome_def w_apply_def split: option.splits sum.splits prod.splits)
  have "faults_only w_db0 db'" by (rule apply_batch_atomic [OF r]) simp
  with r show ?thesis by blast
qed


theorem read_frontier_documents_total_witness:
  "\<exists>db'. read_frontier_documents w_hash w_root1 w_db1 = Some (Inr [w_document 1], db')"
proof -
  obtain lk where h: "frontier_holds w_hash w_room w_keys True w_root1
    \<lparr>af_log = [(w_batch1, lk)], af_documents = put_documents [w_document 1] Map.empty\<rparr> w_db1"
    using w_holds1 by blast
  from read_frontier_documents_total [OF h] obtain docs db' where
      run: "read_frontier_documents w_hash w_root1 w_db1 = Some (Inr docs, db')" and docs: "sorted_documents docs"
      "map_of (map pair_of docs) = [w_id 1 \<mapsto> [1]]"
    by (auto simp: sql_fault_def put_documents_def w_document_def)
  have ids: "pd_document_id ` set docs = {w_id 1}"
    using arg_cong [OF docs(2), of dom] by (simp add: dom_map_of_conv_image_fst image_image pair_of_def)
  have "distinct (map pd_document_id docs)" using docs(1) unfolding strictly_sorted_iff strict_sorted_iff by simp
  then have "length docs = 1" using distinct_card [of "map pd_document_id docs"] ids by simp
  then obtain d where d: "docs = [d]" by (cases docs) auto
  have "d = w_document 1"
    using docs(2) ids by (cases d) (auto simp: d pair_of_def w_document_def fun_eq_iff split: if_splits)
  with run d show ?thesis by auto
qed

theorem batch_descends_iff_ancestor_witness:
  "\<exists>db'. batch_descends_from w_hash w_root2 (w_id 2) (w_id 1) w_history = (Inr True, db')"
proof -
  let ?a = "(w_batch1, w_clock 1)" and ?d = "(w_batch2, w_clock 2)"
  have dots: "inj_on entry_dot (set w_log)"
    by (simp add: w_log_def entry_dot_def) (simp add: w_batch1_def w_batch2_def w_event_def)
  have ids: "entry_id ?a = w_id 1" "entry_id ?d = w_id 2" "?a \<in> set w_log" "?d \<in> set w_log"
    by (simp_all add: entry_id_def w_batch1_def w_batch2_def w_event_def w_log_def)
  have "(w_id 1, w_id 2) \<in> log_parents w_log"
    unfolding log_parents_def using ids(2,4)
    by (intro CollectI exI [of _ "w_id 1"] exI [of _ ?d]) (simp add: w_batch2_def w_event_def)
  then have "(entry_id ?a, entry_id ?d) \<in> (log_parents w_log)\<^sup>*" unfolding ids(1,2) by blast
  with runs_total [OF batch_descends_iff_ancestor [OF w_holds dots ids(4,3)] no_sql_fault] show ?thesis
    unfolding ids(1,2) by auto
qed

lemma w_derived:
  assumes "history_holds w_hash w_room True w_root2 w_log db" "pb_causal_dependency_heads b = [w_id 1]" "pb_causal_peer_id b = w_id 7"
    "pb_causal_counter b = 2"
  shows "\<exists>x db'. derive_causal_clock_root w_hash w_root2 b db = (Inr x, db') \<and> history_holds w_hash w_room True w_root2 w_log db'"
proof -
  have ids: "w_id 2 \<noteq> w_id 1" using w_evaluated(4) by auto
  note h = history_parts [OF assms(1)]
  have clock: "log_clocks w_log (w_id 1) = [w_id 7 \<mapsto> 1]"
    using ids by (simp add: w_log_def log_clocks_def entry_id_def batch_clock_def heads_clock_def w_batch1_def w_batch2_def w_event_def)
  have next_c: "next_counter w_log b = 2"
    using clock assms(2,3) by (simp add: next_counter_def heads_clock_def clock_join_def unwrap_counter_def)
  have heads: "w_id 1 \<in> entry_id ` set w_log" by (simp add: w_log_def entry_id_def w_batch1_def w_event_def)
  have "(pb_causal_peer_id b, pb_causal_counter b) \<in> dots w_room" using assms(3,4) by (simp add: w_room_def w_dots_def)
  note run = derive_log [OF h(1-3) this]
  have "\<exists>x db'. derive_causal_clock_root w_hash w_root2 b db = (Inr x, db') \<and> still w_hash w_room True db db'"
    using runs_total [OF run] heads next_c assms(2,4) by (auto simp: no_sql_fault missing_head_def)
  then show ?thesis using still_history assms(1) by blast
qed

text \<open>Two different batches with the same head and dot have the same clock root.\<close>

theorem derived_clock_roots_canonical_witness:
  "\<exists>x db1 db2. derive_causal_clock_root w_hash w_root2 (w_event 3 2 [w_id 1]) w_history = (Inr x, db1)
     \<and> derive_causal_clock_root w_hash w_root2 (w_event 4 2 [w_id 1]) db1 = (Inr x, db2)"
proof -
  obtain x db1 where 1: "derive_causal_clock_root w_hash w_root2 (w_event 3 2 [w_id 1]) w_history = (Inr x, db1)"
      and h1: "history_holds w_hash w_room True w_root2 w_log db1"
    using w_derived [OF w_holds, of "w_event 3 2 [w_id 1]"] by (auto simp: w_event_def)
  obtain y db2 where 2: "derive_causal_clock_root w_hash w_root2 (w_event 4 2 [w_id 1]) db1 = (Inr y, db2)"
    using w_derived [OF h1, of "w_event 4 2 [w_id 1]"] by (auto simp: w_event_def)
  have dot: "(pb_causal_peer_id (w_event i 2 [w_id 1]), pb_causal_counter (w_event i 2 [w_id 1])) \<in> dots w_room" for i
    by (simp add: w_event_def w_room_def w_dots_def)
  have "x = y" using derived_clock_roots_canonical [OF w_holds dot dot 1 2] by (simp add: batch_clock_def w_event_def)
  with 1 2 show ?thesis by blast
qed

lemma w_documents: "sorted_documents [w_document 1, w_document 2]" "pd_document_id ` set [w_document 1, w_document 2] = w_keys"
  using w_evaluated(4) by (simp_all add: w_document_def w_keys_def)

definition w_seed :: "((frontier_error + unit) \<times> unit frontier_db) option" where
  "w_seed = seed_terminal_frontier_documents_candidate w_hash w_root2 [w_document 1, w_document 2] w_history"

lemma w_seeded: "map_option (\<lambda>(r, _). r = Inr ()) w_seed = Some True"
  by code_simp

theorem seed_terminal_refines_witness:
  "\<exists>db'. seed_terminal_frontier_documents_candidate w_hash w_root2 [w_document 1, w_document 2] w_history = Some (Inr (), db')
     \<and> frontier_holds w_hash w_room w_keys True w_root2
         \<lparr>af_log = w_log, af_documents = map_of (map pair_of [w_document 1, w_document 2])\<rparr> db'"
  using seed_terminal_refines [OF w_holds, of "[w_document 1, w_document 2]", unfolded w_documents(2), OF w_document_room] w_seeded
  by (auto simp: w_seed_def)

theorem terminal_build_equals_upserts_witness:
  "\<exists>root nodes n db'. construct_terminal w_hash [w_document 1, w_document 2] = Some (Inr (root, nodes))
     \<and> upsert_documents_loop w_hash [w_document 1, w_document 2] None 0 w_db0 = (Inr (Some root, n), db')
     \<and> map fn_document_id nodes = [w_id 1, w_id 2]"
proof -
  have "db_faults w_db0 = []" by (simp add: w_db0_def)
  from terminal_build_equals_upserts [OF w_documents(1) _ _ _ this, of w_hash, unfolded w_documents(2), OF _ w_document_room]
  show ?thesis by (auto simp: w_document_def)
qed

theorem documents_within_depth_bound_witness:
  "\<exists>x n db'. upsert_documents_loop w_hash [w_document 1, w_document 2] None 0 w_db0 = (Inr (x, n), db') \<and> unat n = 2"
proof -
  have empty: "documents_hold w_hash w_db0 None Map.empty" by (auto simp: documents_hold_def intro!: exI [of _ Tip])
  have fin: "finite w_keys" "card w_keys \<le> 256" "card w_keys = 2" "db_faults w_db0 = []"
    using w_evaluated(4) by (auto simp: w_keys_def w_db0_def)
  from documents_within_depth_bound [OF empty fin(4,1,2), of "[w_document 1, w_document 2]", unfolded w_documents(2)] fin(3)
  show ?thesis by auto
qed

end
