(* ===== verification/Scratch_Store.thy ===== *)
theory Scratch_Store
  imports Content_Digest Result_State
begin

text \<open>
  \<open>src/scratch.rs\<close>, the two address spaces of a scratch run: the append buffer in front of a file
  (\<open>BufferedAppendFile\<close>), blobs, and pages with their authenticated envelope.  \<open>postcard\<close> and SHA-256 are
  parameters.  A run is used by one thread here, so its locks are never poisoned; the operation counters,
  which nothing reads back, are not modelled.
\<close>

section \<open>Errors and references\<close>

datatype scratch_run_error =
    ScratchIo string
  | ScratchUnsafeEntry string
  | MalformedMarker string
  | MalformedEncoding
  | MalformedPage
  | MalformedBlob
  | PageTooLarge nat
  | PageDigestMismatch digest
  | BlobDigestMismatch digest
  | PageBindingMismatch
  | IndexCapacity
  | Poisoned

definition SCRATCH_SCHEMA_VERSION :: u32 where "SCRATCH_SCHEMA_VERSION = 13"
definition SCRATCH_PAGE_SCHEMA_VERSION :: u32 where "SCRATCH_PAGE_SCHEMA_VERSION = 1"
definition MAX_SCRATCH_PAGE_BYTES :: nat where "MAX_SCRATCH_PAGE_BYTES = 256 * 1024 * 1024"
definition MAX_SCRATCH_BLOB_BYTES :: nat where "MAX_SCRATCH_BLOB_BYTES = 256 * 1024 * 1024"
definition SCRATCH_APPEND_BUFFER_BYTES :: nat where "SCRATCH_APPEND_BUFFER_BYTES = 1024 * 1024"

datatype scratch_retention = Ephemeral | Retained

record 'o scratch_run_marker =
  mk_schema_version :: u32
  mk_owner :: 'o
  mk_run_id :: uuid
  mk_retention :: scratch_retention
  mk_random_owner_nonce :: digest

record 't scratch_page_ref =
  pg_offset :: u64
  pg_encoded_len :: u32
  pg_digest :: digest
  pg_kind :: 't
  pg_key_min :: bytes
  pg_key_max :: bytes

record 't scratch_page_envelope =
  ev_schema_version :: u32
  ev_kind :: 't
  ev_key_min :: bytes
  ev_key_max :: bytes
  ev_payload :: bytes

record scratch_blob_ref =
  bl_offset :: u64
  bl_encoded_len :: u32
  bl_digest :: digest

section \<open>Files\<close>

text \<open>
  An open scratch file with its buffer.  \<open>fl_faults\<close> holds the outcomes of the coming calls on the file:
  \<open>None\<close> (or the end of the list) is success, \<open>Some (e, n)\<close> is a failure with text \<open>e\<close>, before which a write
  has put \<open>n\<close> of its bytes in the file.
\<close>

record append_file =
  fl_bytes :: bytes
  fl_committed_len :: nat
  fl_pending :: bytes
  fl_write_batches :: nat
  fl_faults :: "(string \<times> nat) option list"

type_synonym 'a file_op = "append_file \<Rightarrow> (scratch_run_error + 'a) \<times> append_file"

definition file_call :: "(append_file \<Rightarrow> 'a \<times> append_file) \<Rightarrow> (nat \<Rightarrow> append_file \<Rightarrow> append_file) \<Rightarrow> 'a file_op" where
  "file_call good bad f =
     (case fl_faults f of
        [] \<Rightarrow> (let (x, f') = good f in (Inr x, f'))
      | None # fs \<Rightarrow> (let (x, f') = good (f\<lparr>fl_faults := fs\<rparr>) in (Inr x, f'))
      | Some (e, n) # fs \<Rightarrow> (Inl (ScratchIo e), bad n (f\<lparr>fl_faults := fs\<rparr>)))"

text \<open>\<open>seek(End(0))\<close>, and \<open>write_all\<close> at the end of the file, where every write of the code stands.\<close>

definition seek_end :: "nat file_op" where
  "seek_end = file_call (\<lambda>f. (length (fl_bytes f), f)) (\<lambda>_ f. f)"

definition write_at_end :: "bytes \<Rightarrow> unit file_op" where
  "write_at_end data =
     file_call (\<lambda>f. ((), f\<lparr>fl_bytes := fl_bytes f @ data\<rparr>)) (\<lambda>n f. f\<lparr>fl_bytes := fl_bytes f @ take n data\<rparr>)"

definition new_append_file :: "bytes \<Rightarrow> (string \<times> nat) option list \<Rightarrow> scratch_run_error + append_file" where
  "new_append_file contents faults =
     (case seek_end \<lparr>fl_bytes = contents, fl_committed_len = 0, fl_pending = [], fl_write_batches = 0, fl_faults = faults\<rparr> of
        (Inl e, f) \<Rightarrow> Inl e
      | (Inr n, f) \<Rightarrow> Inr (f\<lparr>fl_committed_len := n\<rparr>))"

text \<open>\<open>write_all\<close> between the seek that sets \<open>committed_len\<close> and the checked addition that moves it past the data.\<close>

definition write_committed :: "bytes \<Rightarrow> unit file_op" where
  "write_committed data =
     st_bind seek_end (\<lambda>n.
     st_bind (\<lambda>f. (Inr (), f\<lparr>fl_committed_len := n\<rparr>)) (\<lambda>_.
     st_bind (write_at_end data) (\<lambda>_ f.
       case checked_add (fl_committed_len f) (length data) of
         None \<Rightarrow> (Inl IndexCapacity, f)
       | Some m \<Rightarrow> (Inr (), f\<lparr>fl_committed_len := m\<rparr>))))"

definition bump_batches :: "append_file \<Rightarrow> append_file" where
  "bump_batches f = f\<lparr>fl_write_batches := min (fl_write_batches f + 1) (2 ^ 64 - 1)\<rparr>"

definition flush_pending :: "unit file_op" where
  "flush_pending f =
     (if fl_pending f = [] then (Inr (), f)
      else st_bind (write_committed (fl_pending f)) (\<lambda>_ f. (Inr (), bump_batches (f\<lparr>fl_pending := []\<rparr>))) f)"

definition append_bytes :: "bytes \<Rightarrow> nat file_op" where
  "append_bytes data f =
     (case checked_add (fl_committed_len f) (length (fl_pending f)) of
        None \<Rightarrow> (Inl IndexCapacity, f)
      | Some offset \<Rightarrow>
          st_bind (if fl_pending f \<noteq> [] \<and> SCRATCH_APPEND_BUFFER_BYTES < min (length (fl_pending f) + length data) (2 ^ 64 - 1)
                   then flush_pending else st_return ()) (\<lambda>_.
          st_bind (if SCRATCH_APPEND_BUFFER_BYTES < length data
                   then st_bind (write_committed data) (\<lambda>_ f. (Inr (), bump_batches f))
                   else (\<lambda>f. (Inr (), f\<lparr>fl_pending := fl_pending f @ data\<rparr>))) (\<lambda>_.
          st_return offset)) f)"

text \<open>
  \<open>with_file\<close> on the one operation the module itself runs on the raw file: seek to \<open>offset\<close> and \<open>read_exact\<close>.
  \<open>lseek\<close> takes a signed offset.  The error of the operation is returned after the closing seek.
\<close>

definition read_exact_at :: "nat \<Rightarrow> nat \<Rightarrow> scratch_run_error \<Rightarrow> bytes file_op" where
  "read_exact_at offset len e =
     st_bind (file_call (\<lambda>f. ((), f)) (\<lambda>_ f. f)) (\<lambda>_.
     if 2 ^ 63 \<le> offset then st_lift (Inl (ScratchIo ''Invalid argument (os error 22)''))
     else (\<lambda>f.
       case file_call (\<lambda>f. (range_of offset (offset + len) (fl_bytes f), f)) (\<lambda>_ f. f) f of
         (Inl _, f') \<Rightarrow> (Inl e, f')
       | (Inr data, f') \<Rightarrow> if length data < len then (Inl e, f') else (Inr data, f')))"

definition with_file :: "'a file_op \<Rightarrow> 'a file_op" where
  "with_file operation =
     st_bind flush_pending (\<lambda>_ f.
       let (result, f') = operation f
       in st_bind seek_end (\<lambda>n f. (result, f\<lparr>fl_committed_len := n\<rparr>)) f')"

section \<open>Runs\<close>

record 'o scratch_run =
  run_marker :: "'o scratch_run_marker"
  run_pages :: append_file
  run_blobs :: append_file

type_synonym ('o, 'a) run_op = "'o scratch_run \<Rightarrow> (scratch_run_error + 'a) \<times> 'o scratch_run"

definition on_pages :: "'a file_op \<Rightarrow> ('o, 'a) run_op" where
  "on_pages m r = (let (x, f) = m (run_pages r) in (x, r\<lparr>run_pages := f\<rparr>))"

definition on_blobs :: "'a file_op \<Rightarrow> ('o, 'a) run_op" where
  "on_blobs m r = (let (x, f) = m (run_blobs r) in (x, r\<lparr>run_blobs := f\<rparr>))"

definition encode_page_canonical :: "'v serializer \<Rightarrow> 'v \<Rightarrow> scratch_run_error + bytes" where
  "encode_page_canonical V v = map_err (\<lambda>_. MalformedPage) (to_vec V v)"

definition decode_page_canonical :: "'v serializer \<Rightarrow> bytes \<Rightarrow> scratch_run_error + 'v" where
  "decode_page_canonical V bs =
     bind_res (map_err (\<lambda>_. MalformedPage) (from_slice V bs)) (\<lambda>value.
     bind_res (encode_page_canonical V value) (\<lambda>encoded.
       if encoded \<noteq> bs then Inl MalformedPage else Inr value))"

definition encode_marker :: "'v serializer \<Rightarrow> 'v \<Rightarrow> scratch_run_error + bytes" where
  "encode_marker V v = map_err (\<lambda>_. MalformedEncoding) (to_vec V v)"

definition decode_marker :: "'v serializer \<Rightarrow> bytes \<Rightarrow> scratch_run_error + 'v" where
  "decode_marker V bs =
     bind_res (map_err (\<lambda>_. MalformedEncoding) (from_slice V bs)) (\<lambda>value.
     bind_res (encode_marker V value) (\<lambda>encoded.
       if encoded \<noteq> bs then Inl MalformedEncoding else Inr value))"

definition binding_digest :: "hash \<Rightarrow> 'o scratch_run_marker serializer \<Rightarrow> 'o scratch_run \<Rightarrow> scratch_run_error + digest" where
  "binding_digest H M r = bind_res (encode_marker M (run_marker r)) (\<lambda>encoded. Inr (H encoded))"

section \<open>Blobs\<close>

definition encoded_length :: "scratch_run_error \<Rightarrow> nat \<Rightarrow> scratch_run_error + u32" where
  "encoded_length e n = (if n < 2 ^ 32 then Inr (word_of_nat n) else Inl e)"

definition append_blob :: "hash \<Rightarrow> bytes \<Rightarrow> ('o, scratch_blob_ref) run_op" where
  "append_blob H data =
     (if data = [] \<or> MAX_SCRATCH_BLOB_BYTES < length data then st_lift (Inl MalformedBlob)
      else
        st_bind (st_lift (encoded_length MalformedBlob (length data))) (\<lambda>encoded_len.
        st_bind (on_blobs (append_bytes data)) (\<lambda>offset.
        st_return \<lparr>bl_offset = word_of_nat offset, bl_encoded_len = encoded_len, bl_digest = H data\<rparr>)))"

definition read_blob :: "hash \<Rightarrow> scratch_blob_ref \<Rightarrow> ('o, bytes) run_op" where
  "read_blob H r =
     (let len = unat (bl_encoded_len r) in
      if len = 0 \<or> MAX_SCRATCH_BLOB_BYTES < len then st_lift (Inl MalformedBlob)
      else
        st_bind (on_blobs (with_file (read_exact_at (unat (bl_offset r)) len MalformedBlob))) (\<lambda>data.
        if H data \<noteq> bl_digest r then st_lift (Inl (BlobDigestMismatch (bl_digest r)))
        else st_return data))"

section \<open>Pages\<close>

definition append_page ::
    "hash \<Rightarrow> 't scratch_page_envelope serializer \<Rightarrow> 'v serializer \<Rightarrow> 't \<Rightarrow> bytes \<Rightarrow> bytes \<Rightarrow> 'v \<Rightarrow> ('o, 't scratch_page_ref) run_op" where
  "append_page H E V kind key_min key_max value =
     (if key_min = [] \<or> key_max < key_min then st_lift (Inl MalformedPage)
      else
        st_bind (st_lift (encode_page_canonical V value)) (\<lambda>payload.
        st_bind (st_lift (encode_page_canonical E \<lparr>ev_schema_version = SCRATCH_PAGE_SCHEMA_VERSION, ev_kind = kind,
          ev_key_min = key_min, ev_key_max = key_max, ev_payload = payload\<rparr>)) (\<lambda>data.
        if MAX_SCRATCH_PAGE_BYTES < length data then st_lift (Inl (PageTooLarge (length data)))
        else
          st_bind (st_lift (encoded_length MalformedPage (length data))) (\<lambda>encoded_len.
          st_bind (on_pages (append_bytes data)) (\<lambda>offset.
          st_return \<lparr>pg_offset = word_of_nat offset, pg_encoded_len = encoded_len, pg_digest = H data,
            pg_kind = kind, pg_key_min = key_min, pg_key_max = key_max\<rparr>)))))"

text \<open>The checks of \<open>read_page\<close> on the bytes it has read.\<close>

definition open_page ::
    "hash \<Rightarrow> 't scratch_page_envelope serializer \<Rightarrow> 'v serializer \<Rightarrow> 't scratch_page_ref \<Rightarrow> 't \<Rightarrow> bytes \<Rightarrow> scratch_run_error + 'v" where
  "open_page H E V page_ref expected_kind data =
     (if H data \<noteq> pg_digest page_ref then Inl (PageDigestMismatch (pg_digest page_ref))
      else
        bind_res (decode_page_canonical E data) (\<lambda>envelope.
        if ev_schema_version envelope \<noteq> SCRATCH_PAGE_SCHEMA_VERSION \<or> ev_kind envelope \<noteq> expected_kind
           \<or> ev_key_min envelope \<noteq> pg_key_min page_ref \<or> ev_key_max envelope \<noteq> pg_key_max page_ref
        then Inl PageBindingMismatch
        else decode_page_canonical V (ev_payload envelope)))"

definition read_page ::
    "hash \<Rightarrow> 't scratch_page_envelope serializer \<Rightarrow> 'v serializer \<Rightarrow> 't scratch_page_ref \<Rightarrow> 't \<Rightarrow> ('o, 'v) run_op" where
  "read_page H E V page_ref expected_kind =
     (let len = unat (pg_encoded_len page_ref) in
      if pg_kind page_ref \<noteq> expected_kind then st_lift (Inl PageBindingMismatch)
      else if len = 0 \<or> MAX_SCRATCH_PAGE_BYTES < len then st_lift (Inl MalformedPage)
      else
        st_bind (on_pages (with_file (read_exact_at (unat (pg_offset page_ref)) len MalformedPage))) (\<lambda>data.
        st_lift (open_page H E V page_ref expected_kind data)))"

section \<open>Codecs\<close>

interpretation page_codec: canonical_decoder "encode_page_canonical V" "decode_page_canonical V"
  for V :: "'v serializer"
  by unfold_locales (auto simp: decode_page_canonical_def bind_res_Inr split: if_splits)

interpretation marker_codec: canonical_decoder "encode_marker V" "decode_marker V"
  for V :: "'v serializer"
  by unfold_locales (auto simp: decode_marker_def bind_res_Inr split: if_splits)

lemma decode_page_encode: "roundtrips V \<Longrightarrow> encode_page_canonical V v = Inr bs \<Longrightarrow> decode_page_canonical V bs = Inr v"
  by (auto simp: decode_page_canonical_def encode_page_canonical_def roundtripsD)

lemma encode_page_error: "encode_page_canonical V v = Inl e \<Longrightarrow> e = MalformedPage"
  by (auto simp: encode_page_canonical_def map_err_Inl)

section \<open>Files without failures\<close>

text \<open>
  What a file will hold once its buffer is flushed; a file that has not failed and will not.
\<close>

definition contents :: "append_file \<Rightarrow> bytes" where
  "contents f = fl_bytes f @ fl_pending f"

definition settled :: "append_file \<Rightarrow> bool" where
  "settled f \<longleftrightarrow> fl_faults f = [] \<and> fl_committed_len f = length (fl_bytes f)"

text \<open>Reading \<open>len\<close> bytes at \<open>offset\<close> of a text.\<close>

definition read_at :: "bytes \<Rightarrow> nat \<Rightarrow> nat \<Rightarrow> scratch_run_error \<Rightarrow> scratch_run_error + bytes" where
  "read_at C offset len e =
     (if 2 ^ 63 \<le> offset then Inl (ScratchIo ''Invalid argument (os error 22)'')
      else if length (range_of offset (offset + len) C) < len then Inl e
      else Inr (range_of offset (offset + len) C))"

lemma file_call_quiet: "fl_faults f = [] \<Longrightarrow> file_call good bad f = (let (x, f') = good f in (Inr x, f'))"
  by (simp add: file_call_def)

lemma write_committed_quiet:
  assumes "fl_faults f = []" "length (fl_bytes f) + length data < 2 ^ 64"
  shows "write_committed data f =
    (Inr (), f\<lparr>fl_bytes := fl_bytes f @ data, fl_committed_len := length (fl_bytes f) + length data\<rparr>)"
  using assms by (simp add: write_committed_def seek_end_def write_at_end_def file_call_quiet st_bind_def checked_add_def)

lemma flush_quiet:
  assumes "settled f" "length (contents f) < 2 ^ 64"
  shows "\<exists>f'. flush_pending f = (Inr (), f') \<and> settled f' \<and> contents f' = contents f \<and> fl_pending f' = []"
  using assms
  by (auto simp: flush_pending_def write_committed_quiet st_bind_def contents_def settled_def bump_batches_def)

lemma append_quiet:
  assumes "settled f" "length (contents f) + length data < 2 ^ 64"
  shows "\<exists>f'. append_bytes data f = (Inr (length (contents f)), f') \<and> settled f' \<and> contents f' = contents f @ data"
proof -
  let ?full = "fl_pending f \<noteq> [] \<and> SCRATCH_APPEND_BUFFER_BYTES < min (length (fl_pending f) + length data) (2 ^ 64 - 1)"
  have offset: "checked_add (fl_committed_len f) (length (fl_pending f)) = Some (length (contents f))"
    using assms by (simp add: checked_add_def settled_def contents_def)
  obtain g where g: "(if ?full then flush_pending else st_return ()) f = (Inr (), g)" "settled g" "contents g = contents f"
      "SCRATCH_APPEND_BUFFER_BYTES < length data \<Longrightarrow> fl_pending g = []"
  proof (cases ?full)
    case True
    with flush_quiet [OF assms(1)] assms(2) that show thesis by auto
  next
    case False
    moreover have "fl_pending f = []" if "SCRATCH_APPEND_BUFFER_BYTES < length data"
      using that False assms(2) by (auto simp: min_def SCRATCH_APPEND_BUFFER_BYTES_def contents_def split: if_splits)
    ultimately show thesis using assms(1) by (intro that [of f]) (simp_all only: st_return_def if_False refl)
  qed
  show ?thesis
  proof (cases "SCRATCH_APPEND_BUFFER_BYTES < length data")
    case True
    then show ?thesis using g assms offset
      by (simp add: append_bytes_def st_bind_def write_committed_quiet settled_def contents_def bump_batches_def st_return_def)
  next
    case False
    then show ?thesis using g offset
      by (simp add: append_bytes_def st_bind_def settled_def contents_def st_return_def)
  qed
qed

lemma read_quiet:
  assumes "settled f" "length (contents f) < 2 ^ 64"
  shows "\<exists>f'. with_file (read_exact_at offset len e) f = (read_at (contents f) offset len e, f') \<and> settled f' \<and> contents f' = contents f"
proof -
  obtain g where g: "flush_pending f = (Inr (), g)" "settled g" "contents g = contents f" "fl_pending g = []"
    using flush_quiet [OF assms] by blast
  have "read_exact_at offset len e g = (read_at (contents f) offset len e, g)"
    using g by (simp add: read_exact_at_def read_at_def st_bind_def st_lift_def file_call_quiet settled_def contents_def Let_def)
  then show ?thesis using g
    by (auto simp: with_file_def st_bind_def seek_end_def file_call_quiet settled_def contents_def)
qed

lemma read_at_exact: "offset + len \<le> length C \<Longrightarrow> offset < 2 ^ 63 \<Longrightarrow> read_at C offset len e = Inr (range_of offset (offset + len) C)"
  by (simp add: read_at_def)

lemma read_at_grown:
  assumes "read_at C offset len e = Inr data" "0 < len" shows "read_at (C @ D) offset len e = Inr data"
proof -
  have "offset + len \<le> length C" using assms by (auto simp: read_at_def range_of_def split: if_splits)
  then show ?thesis using assms(1) by (auto simp: read_at_def range_of_append split: if_splits)
qed

section \<open>Pages and blobs without failures\<close>

definition page_text :: "'o scratch_run \<Rightarrow> bytes" where "page_text r = contents (run_pages r)"
definition blob_text :: "'o scratch_run \<Rightarrow> bytes" where "blob_text r = contents (run_blobs r)"

text \<open>
  A healthy run, and a later state of it: both texts have only grown.
\<close>

definition healthy :: "'o scratch_run \<Rightarrow> bool" where
  "healthy r \<longleftrightarrow> settled (run_pages r) \<and> settled (run_blobs r)"

definition grown :: "'o scratch_run \<Rightarrow> 'o scratch_run \<Rightarrow> bool" where
  "grown r r' \<longleftrightarrow> healthy r' \<and> run_marker r' = run_marker r
     \<and> (\<exists>D. page_text r' = page_text r @ D) \<and> (\<exists>D. blob_text r' = blob_text r @ D)"

definition unmoved :: "'o scratch_run \<Rightarrow> 'o scratch_run \<Rightarrow> bool" where
  "unmoved r r' \<longleftrightarrow> healthy r' \<and> run_marker r' = run_marker r \<and> page_text r' = page_text r \<and> blob_text r' = blob_text r"

lemma unmoved_grown: "unmoved r r' \<Longrightarrow> grown r r'"
  by (simp add: unmoved_def grown_def)

lemma unmoved_refl: "healthy r \<Longrightarrow> unmoved r r"
  by (simp add: unmoved_def)

lemma unmoved_trans: "unmoved r r' \<Longrightarrow> unmoved r' r'' \<Longrightarrow> unmoved r r''"
  by (simp add: unmoved_def)

lemma unmoved_healthy: "unmoved r r' \<Longrightarrow> healthy r'"
  by (simp add: unmoved_def)

definition page_at ::
    "hash \<Rightarrow> 't scratch_page_envelope serializer \<Rightarrow> 'v serializer \<Rightarrow> bytes \<Rightarrow> 't scratch_page_ref \<Rightarrow> 't \<Rightarrow> scratch_run_error + 'v" where
  "page_at H E V C page_ref kind =
     (let len = unat (pg_encoded_len page_ref) in
      if pg_kind page_ref \<noteq> kind then Inl PageBindingMismatch
      else if len = 0 \<or> MAX_SCRATCH_PAGE_BYTES < len then Inl MalformedPage
      else bind_res (read_at C (unat (pg_offset page_ref)) len MalformedPage) (open_page H E V page_ref kind))"

lemma read_page_quiet:
  assumes "healthy r" "length (page_text r) < 2 ^ 64"
  shows "\<exists>r'. read_page H E V page_ref kind r = (page_at H E V (page_text r) page_ref kind, r') \<and> unmoved r r'"
proof -
  let ?offset = "unat (pg_offset page_ref)" and ?len = "unat (pg_encoded_len page_ref)"
  obtain f where f: "with_file (read_exact_at ?offset ?len MalformedPage) (run_pages r) = (read_at (page_text r) ?offset ?len MalformedPage, f)"
      "settled f" "contents f = page_text r"
    using read_quiet [of "run_pages r"] assms unfolding healthy_def page_text_def by blast
  then have "on_pages (with_file (read_exact_at ?offset ?len MalformedPage)) r
      = (read_at (page_text r) ?offset ?len MalformedPage, r\<lparr>run_pages := f\<rparr>)"
    and u: "unmoved r (r\<lparr>run_pages := f\<rparr>)"
    using assms by (auto simp: on_pages_def unmoved_def healthy_def page_text_def blob_text_def)
  then show ?thesis using unmoved_refl [OF assms(1)]
    by (cases "read_at (page_text r) ?offset ?len MalformedPage")
      (auto simp: read_page_def page_at_def st_bind_def st_lift_def Let_def)
qed

lemma page_at_grown: "page_at H E V C page_ref kind = Inr v \<Longrightarrow> page_at H E V (C @ D) page_ref kind = Inr v"
  by (auto simp: page_at_def Let_def bind_res_Inr read_at_grown split: if_splits)

text \<open>The envelope codec reads back, and its encoding holds the payload and at least the version.\<close>

definition envelope_codec :: "'t scratch_page_envelope serializer \<Rightarrow> bool" where
  "envelope_codec E \<longleftrightarrow> roundtrips E \<and> (\<forall>x b. to_vec E x = Inr b \<longrightarrow> length (ev_payload x) < length b)"

lemma page_at_small:
  assumes "page_at H E V C page_ref kind = Inr v" "envelope_codec E"
  shows "\<exists>b. to_vec V v = Inr b \<and> length b < MAX_SCRATCH_PAGE_BYTES"
proof -
  from assms(1) obtain data env where d: "decode_page_canonical E data = Inr env" "decode_page_canonical V (ev_payload env) = Inr v"
      "length data \<le> MAX_SCRATCH_PAGE_BYTES"
    by (fastforce simp: page_at_def open_page_def Let_def read_at_def range_of_def bind_res_Inr split: if_splits)
  then have "to_vec E env = Inr data" "to_vec V v = Inr (ev_payload env)"
    using page_codec.decode_canonical by (fastforce simp: encode_page_canonical_def)+
  then show ?thesis using assms(2) d(3) by (fastforce simp: envelope_codec_def)
qed

lemma append_page_quiet:
  assumes "healthy r" "length (page_text r) + MAX_SCRATCH_PAGE_BYTES < 2 ^ 63" "envelope_codec E" "roundtrips V"
  shows "runs (append_page H E V kind key_min key_max value) r
    (\<lambda>page_ref r'. grown r r' \<and> page_at H E V (page_text r') page_ref kind = Inr value
       \<and> pg_key_min page_ref = key_min \<and> pg_key_max page_ref = key_max)
    (\<lambda>e r'. r' = r \<and> (e = MalformedPage \<or> (\<exists>n. e = PageTooLarge n)))"
proof (cases "key_min = [] \<or> key_max < key_min")
  case True
  then show ?thesis by (simp add: append_page_def)
next
  case False
  show ?thesis
  proof (cases "encode_page_canonical V value")
    case (Inl e)
    with False encode_page_error [OF Inl] show ?thesis by (simp add: append_page_def)
  next
    case (Inr payload)
    let ?env = "\<lparr>ev_schema_version = SCRATCH_PAGE_SCHEMA_VERSION, ev_kind = kind,
          ev_key_min = key_min, ev_key_max = key_max, ev_payload = payload\<rparr>"
    note payload = Inr
    show ?thesis
    proof (cases "encode_page_canonical E ?env")
      case (Inl e)
      with False payload encode_page_error [OF Inl] show ?thesis by (simp add: append_page_def)
    next
      case (Inr data)
      show ?thesis
      proof (cases "MAX_SCRATCH_PAGE_BYTES < length data")
        case True
        with False payload Inr show ?thesis by (simp add: append_page_def)
      next
        case small: False
        have len: "length data < 2 ^ 32" "unat (word_of_nat (length data) :: u32) = length data"
          using small by (simp_all add: MAX_SCRATCH_PAGE_BYTES_def unat_of_nat)
        have off: "unat (word_of_nat (length (page_text r)) :: u64) = length (page_text r)"
          using assms(2) by (simp add: unat_of_nat)
        obtain f where f: "append_bytes data (run_pages r) = (Inr (length (page_text r)), f)" "settled f"
            "contents f = page_text r @ data"
          using append_quiet [of "run_pages r" data] assms(1,2) small unfolding healthy_def page_text_def
          by (auto simp: MAX_SCRATCH_PAGE_BYTES_def)
        have ne: "data \<noteq> []"
          using assms(3) Inr by (fastforce simp: envelope_codec_def encode_page_canonical_def)
        let ?ref = "\<lparr>pg_offset = word_of_nat (length (page_text r)), pg_encoded_len = word_of_nat (length data),
          pg_digest = H data, pg_kind = kind, pg_key_min = key_min, pg_key_max = key_max\<rparr>"
        let ?r = "r\<lparr>run_pages := f\<rparr>"
        have run: "append_page H E V kind key_min key_max value r = (Inr ?ref, ?r)"
          using False payload Inr small len(1) f(1)
          by (simp add: append_page_def encoded_length_def on_pages_def st_bind_def st_lift_def st_return_def)
        have env: "roundtrips E" using assms(3) by (simp add: envelope_codec_def)
        have "open_page H E V ?ref kind data = Inr value"
          using decode_page_encode [OF env Inr] decode_page_encode [OF assms(4) payload] by (simp add: open_page_def)
        moreover have "read_at (page_text r @ data) (length (page_text r)) (length data) MalformedPage = Inr data"
          using assms(2) by (simp add: read_at_exact range_of_append)
        ultimately have "page_at H E V (page_text ?r) ?ref kind = Inr value"
          using small len(2) off ne f(3) by (simp add: page_at_def Let_def page_text_def)
        then show ?thesis using assms(1) f
          by (auto simp: runs_def run grown_def healthy_def page_text_def blob_text_def)
      qed
    qed
  qed
qed

text \<open>The same for blobs.\<close>

definition blob_at :: "hash \<Rightarrow> bytes \<Rightarrow> scratch_blob_ref \<Rightarrow> scratch_run_error + bytes" where
  "blob_at H B blob_ref =
     (let len = unat (bl_encoded_len blob_ref) in
      if len = 0 \<or> MAX_SCRATCH_BLOB_BYTES < len then Inl MalformedBlob
      else bind_res (read_at B (unat (bl_offset blob_ref)) len MalformedBlob) (\<lambda>data.
        if H data \<noteq> bl_digest blob_ref then Inl (BlobDigestMismatch (bl_digest blob_ref)) else Inr data))"

lemma read_blob_quiet:
  assumes "healthy r" "length (blob_text r) < 2 ^ 64"
  shows "\<exists>r'. read_blob H blob_ref r = (blob_at H (blob_text r) blob_ref, r') \<and> unmoved r r'"
proof -
  let ?offset = "unat (bl_offset blob_ref)" and ?len = "unat (bl_encoded_len blob_ref)"
  obtain f where f: "with_file (read_exact_at ?offset ?len MalformedBlob) (run_blobs r) = (read_at (blob_text r) ?offset ?len MalformedBlob, f)"
      "settled f" "contents f = blob_text r"
    using read_quiet [of "run_blobs r"] assms unfolding healthy_def blob_text_def by blast
  then have "on_blobs (with_file (read_exact_at ?offset ?len MalformedBlob)) r
      = (read_at (blob_text r) ?offset ?len MalformedBlob, r\<lparr>run_blobs := f\<rparr>)"
    and u: "unmoved r (r\<lparr>run_blobs := f\<rparr>)"
    using assms by (auto simp: on_blobs_def unmoved_def healthy_def page_text_def blob_text_def)
  then show ?thesis using unmoved_refl [OF assms(1)]
    by (cases "read_at (blob_text r) ?offset ?len MalformedBlob")
      (auto simp: read_blob_def blob_at_def st_bind_def st_lift_def st_return_def Let_def)
qed

lemma blob_at_grown: "blob_at H B blob_ref = Inr v \<Longrightarrow> blob_at H (B @ D) blob_ref = Inr v"
  by (auto simp: blob_at_def Let_def bind_res_Inr read_at_grown split: if_splits)

lemma append_blob_quiet:
  assumes "healthy r" "length (blob_text r) + MAX_SCRATCH_BLOB_BYTES < 2 ^ 63"
  shows "runs (append_blob H data) r
    (\<lambda>blob_ref r'. grown r r' \<and> blob_at H (blob_text r') blob_ref = Inr data)
    (\<lambda>e r'. r' = r \<and> e = MalformedBlob \<and> (data = [] \<or> MAX_SCRATCH_BLOB_BYTES < length data))"
proof (cases "data = [] \<or> MAX_SCRATCH_BLOB_BYTES < length data")
  case True
  then show ?thesis by (simp add: append_blob_def)
next
  case False
  have len: "length data < 2 ^ 32" "unat (word_of_nat (length data) :: u32) = length data"
    using False by (simp_all add: MAX_SCRATCH_BLOB_BYTES_def unat_of_nat)
  have off: "unat (word_of_nat (length (blob_text r)) :: u64) = length (blob_text r)"
    using assms(2) by (simp add: unat_of_nat)
  obtain f where f: "append_bytes data (run_blobs r) = (Inr (length (blob_text r)), f)" "settled f"
      "contents f = blob_text r @ data"
    using append_quiet [of "run_blobs r" data] assms(1,2) False unfolding healthy_def blob_text_def
    by (auto simp: MAX_SCRATCH_BLOB_BYTES_def)
  let ?ref = "\<lparr>bl_offset = word_of_nat (length (blob_text r)), bl_encoded_len = word_of_nat (length data), bl_digest = H data\<rparr>"
  have run: "append_blob H data r = (Inr ?ref, r\<lparr>run_blobs := f\<rparr>)"
    using False len(1) f(1) by (simp add: append_blob_def encoded_length_def on_blobs_def st_bind_def st_lift_def st_return_def)
  have "read_at (blob_text r @ data) (length (blob_text r)) (length data) MalformedBlob = Inr data"
    using assms(2) by (simp add: read_at_exact range_of_append)
  then have "blob_at H (blob_text (r\<lparr>run_blobs := f\<rparr>)) ?ref = Inr data"
    using False len(2) off f(3) by (simp add: blob_at_def Let_def blob_text_def)
  then show ?thesis using assms(1) f
    by (auto simp: runs_def run grown_def healthy_def page_text_def blob_text_def)
qed

section \<open>A write that fails half way\<close>

text \<open>
  A flush that fails after \<open>n\<close> bytes leaves them in the file and the buffer as it was; the next flush writes the
  whole buffer behind them, so that every buffered record ends \<open>n\<close> bytes after the offset its reference states.
\<close>

lemma failed_flush:
  assumes "fl_faults f = [None, Some (e, n)]" "fl_pending f \<noteq> []"
  shows "flush_pending f = (Inl (ScratchIo e),
    f\<lparr>fl_faults := [], fl_committed_len := length (fl_bytes f), fl_bytes := fl_bytes f @ take n (fl_pending f)\<rparr>)"
  using assms by (simp add: flush_pending_def write_committed_def seek_end_def write_at_end_def file_call_def st_bind_def)

end
