(* ===== verification/Scratch_Lsm.thy ===== *)
theory Scratch_Lsm
  imports Scratch_Store Ordered_Map
begin

text \<open>
  \<open>src/scratch.rs\<close>, the log-structured index of a run: a root names at most one sorted segment per level, an
  insertion merges the full low levels into the first free one (a binary carry), and the reads go through
  the segments from the newest generation to the oldest.  A value \<open>None\<close> in a record is a deletion.
\<close>

section \<open>Segments and roots\<close>

definition SCRATCH_LSM_LEVELS :: nat where "SCRATCH_LSM_LEVELS = 32"

record scratch_record =
  rec_key :: bytes
  rec_value :: "bytes option"

record 't scratch_segment =
  sg_schema_version :: u32
  sg_kind :: 't
  sg_generation :: u64
  sg_entries :: "scratch_record list"

record 't scratch_segment_ref =
  sf_generation :: u64
  sf_entry_count :: u64
  sf_page_ref :: "'t scratch_page_ref"

record 't scratch_lsm_root =
  lr_next_generation :: u64
  lr_levels :: "'t scratch_segment_ref option list"

definition default_lsm_root :: "'t scratch_lsm_root" where
  "default_lsm_root = \<lparr>lr_next_generation = 0, lr_levels = replicate SCRATCH_LSM_LEVELS None\<rparr>"

text \<open>\<open>levels.iter().flatten()\<close>.\<close>

fun flatten_levels :: "'a option list \<Rightarrow> 'a list" where
  "flatten_levels [] = []"
| "flatten_levels (None # ls) = flatten_levels ls"
| "flatten_levels (Some x # ls) = x # flatten_levels ls"

lemma flatten_replicate [simp]: "flatten_levels (replicate n None) = []"
  by (induction n) auto

definition validate_lsm_root :: "'t scratch_lsm_root \<Rightarrow> scratch_run_error + unit" where
  "validate_lsm_root root =
     (if length (lr_levels root) \<noteq> SCRATCH_LSM_LEVELS then Inl MalformedPage
      else if \<exists>segment \<in> set (flatten_levels (lr_levels root)).
                sf_generation segment = 0 \<or> lr_next_generation root < sf_generation segment \<or> sf_entry_count segment = 0
      then Inl MalformedPage
      else Inr ())"

fun validate_entries :: "bytes option \<Rightarrow> scratch_record list \<Rightarrow> bool" where
  "validate_entries previous [] = True"
| "validate_entries previous (record # rest) =
     (if rec_key record = [] \<or> (case previous of None \<Rightarrow> False | Some p \<Rightarrow> rec_key record \<le> p) then False
      else validate_entries (Some (rec_key record)) rest)"

definition validate_segment :: "'t scratch_segment \<Rightarrow> scratch_run_error + unit" where
  "validate_segment segment =
     (if sg_schema_version segment \<noteq> SCRATCH_PAGE_SCHEMA_VERSION \<or> sg_generation segment = 0 \<or> sg_entries segment = []
      then Inl MalformedPage
      else if \<not> validate_entries None (sg_entries segment) then Inl MalformedPage
      else Inr ())"

text \<open>The codecs of the segments of one page kind.\<close>

record 't scratch_codecs =
  cd_envelope :: "'t scratch_page_envelope serializer"
  cd_segment :: "'t scratch_segment serializer"

section \<open>Reading a segment\<close>

definition check_segment :: "'t \<Rightarrow> 't scratch_segment_ref \<Rightarrow> 't scratch_segment \<Rightarrow> scratch_run_error + 't scratch_segment" where
  "check_segment kind segment_ref segment =
     bind_res (validate_segment segment) (\<lambda>_.
     if sg_kind segment \<noteq> kind
        \<or> sg_generation segment \<noteq> sf_generation segment_ref
        \<or> word_of_nat (length (sg_entries segment)) \<noteq> sf_entry_count segment_ref
        \<or> (sg_entries segment = [] \<or> rec_key (hd (sg_entries segment)) \<noteq> pg_key_min (sf_page_ref segment_ref))
        \<or> (sg_entries segment = [] \<or> rec_key (last (sg_entries segment)) \<noteq> pg_key_max (sf_page_ref segment_ref))
     then Inl PageBindingMismatch
     else Inr segment)"

definition read_segment :: "hash \<Rightarrow> 't scratch_codecs \<Rightarrow> 't \<Rightarrow> 't scratch_segment_ref \<Rightarrow> ('o, 't scratch_segment) run_op" where
  "read_segment H C kind segment_ref =
     st_bind (read_page H (cd_envelope C) (cd_segment C) (sf_page_ref segment_ref) kind) (\<lambda>segment.
     st_lift (check_segment kind segment_ref segment))"

section \<open>Insertion\<close>

text \<open>\<open>merged.entry(key).or_insert(value)\<close> for every record of an older segment.\<close>

fun merge_older :: "(bytes \<times> bytes option) list \<Rightarrow> scratch_record list \<Rightarrow> (bytes \<times> bytes option) list" where
  "merge_older merged [] = merged"
| "merge_older merged (record # rest) =
     merge_older (if map_of merged (rec_key record) = None then bt_insert (rec_key record) (rec_value record) merged else merged) rest"

definition write_segment ::
    "hash \<Rightarrow> 't scratch_codecs \<Rightarrow> 't \<Rightarrow> u64 \<Rightarrow> (bytes \<times> bytes option) list \<Rightarrow> ('o, 't scratch_segment_ref) run_op" where
  "write_segment H C kind generation merged =
     (let entries = map (\<lambda>(k, v). \<lparr>rec_key = k, rec_value = v\<rparr>) merged;
          segment = \<lparr>sg_schema_version = SCRATCH_PAGE_SCHEMA_VERSION, sg_kind = kind, sg_generation = generation, sg_entries = entries\<rparr> in
      st_bind (st_lift (validate_segment segment)) (\<lambda>_.
      st_bind (append_page H (cd_envelope C) (cd_segment C) kind (rec_key (hd entries)) (rec_key (last entries)) segment) (\<lambda>page_ref.
      st_return \<lparr>sf_generation = generation, sf_entry_count = word_of_nat (length entries), sf_page_ref = page_ref\<rparr>)))"

text \<open>
  The loop over the levels, on the levels that are left: a taken level becomes \<open>None\<close>.  The root has
  \<open>SCRATCH_LSM_LEVELS\<close> of them, as \<open>validate_lsm_root\<close> has checked.
\<close>

fun insert_levels ::
    "hash \<Rightarrow> 't scratch_codecs \<Rightarrow> 't \<Rightarrow> u64 \<Rightarrow> (bytes \<times> bytes option) list \<Rightarrow> 't scratch_segment_ref option list \<Rightarrow>
     ('o, 't scratch_segment_ref option list) run_op" where
  "insert_levels H C kind generation merged [] = st_lift (Inl IndexCapacity)"
| "insert_levels H C kind generation merged (Some existing # levels) =
     st_bind (read_segment H C kind existing) (\<lambda>old.
     st_bind (insert_levels H C kind generation (merge_older merged (sg_entries old)) levels) (\<lambda>levels'.
     st_return (None # levels')))"
| "insert_levels H C kind generation merged (None # levels) =
     st_bind (write_segment H C kind generation merged) (\<lambda>segment_ref.
     st_return (Some segment_ref # levels))"

definition insert_many ::
    "hash \<Rightarrow> 't scratch_codecs \<Rightarrow> 't scratch_lsm_root \<Rightarrow> 't \<Rightarrow> (bytes \<times> bytes option) list \<Rightarrow> ('o, 't scratch_lsm_root) run_op" where
  "insert_many H C root kind records =
     (if records = [] then st_return root
      else
        st_bind (st_lift (validate_lsm_root root)) (\<lambda>_.
        st_bind (st_lift (ok_or MalformedPage (checked_add64 (lr_next_generation root) 1))) (\<lambda>generation.
        st_bind (insert_levels H C kind generation records (lr_levels root)) (\<lambda>levels.
        st_return \<lparr>lr_next_generation = generation, lr_levels = levels\<rparr>))))"

section \<open>Lookups\<close>

text \<open>
  \<open>sort_unstable_by_key\<close> on the generation; the generations of a root built by insertions are distinct, so
  that stability does not matter.
\<close>

definition oldest_first :: "'t scratch_lsm_root \<Rightarrow> 't scratch_segment_ref list" where
  "oldest_first root = sort_key sf_generation (flatten_levels (lr_levels root))"

definition newest_first :: "'t scratch_lsm_root \<Rightarrow> 't scratch_segment_ref list" where
  "newest_first root = rev (oldest_first root)"

definition find_record :: "bytes \<Rightarrow> scratch_record list \<Rightarrow> nat option" where
  "find_record key entries =
     (if entries = [] then None
      else let i = bisect (\<lambda>record. key < rec_key record) entries 0 (length entries)
           in if rec_key (entries ! i) = key then Some i else None)"

definition in_range :: "'t scratch_segment_ref \<Rightarrow> bytes \<Rightarrow> bool" where
  "in_range segment_ref key \<longleftrightarrow>
     \<not> (key < pg_key_min (sf_page_ref segment_ref) \<or> pg_key_max (sf_page_ref segment_ref) < key)"

fun lookup_segments ::
    "hash \<Rightarrow> 't scratch_codecs \<Rightarrow> 't \<Rightarrow> bytes \<Rightarrow> 't scratch_segment_ref list \<Rightarrow> ('o, bytes option) run_op" where
  "lookup_segments H C kind key [] = st_return None"
| "lookup_segments H C kind key (segment_ref # rest) =
     (if \<not> in_range segment_ref key then lookup_segments H C kind key rest
      else
        st_bind (read_segment H C kind segment_ref) (\<lambda>segment.
        case find_record key (sg_entries segment) of
          Some i \<Rightarrow> st_return (rec_value (sg_entries segment ! i))
        | None \<Rightarrow> lookup_segments H C kind key rest))"

definition lookup_with_absence_policy ::
    "hash \<Rightarrow> 't scratch_codecs \<Rightarrow> 't scratch_lsm_root \<Rightarrow> 't \<Rightarrow> bytes \<Rightarrow> scratch_run_error + bool \<Rightarrow> ('o, bytes option) run_op" where
  "lookup_with_absence_policy H C root kind key absence_policy =
     st_bind (st_lift (validate_lsm_root root)) (\<lambda>_.
     st_bind (st_lift absence_policy) (\<lambda>known_absent.
     if known_absent then st_return None
     else lookup_segments H C kind key (newest_first root)))"

definition lookup_with_known_absent ::
    "hash \<Rightarrow> 't scratch_codecs \<Rightarrow> 't scratch_lsm_root \<Rightarrow> 't \<Rightarrow> bytes \<Rightarrow> bool \<Rightarrow> ('o, bytes option) run_op" where
  "lookup_with_known_absent H C root kind key known_absent =
     lookup_with_absence_policy H C root kind key (Inr known_absent)"

definition lookup_key :: "hash \<Rightarrow> 't scratch_codecs \<Rightarrow> 't scratch_lsm_root \<Rightarrow> 't \<Rightarrow> bytes \<Rightarrow> ('o, bytes option) run_op" where
  "lookup_key H C root kind key = lookup_with_known_absent H C root kind key False"

text \<open>
  Batches: \<open>resolved\<close> and \<open>values\<close> are indexed like \<open>keys\<close>, and a segment is read once for all the keys it may
  hold.
\<close>

definition selected_keys :: "bytes list \<Rightarrow> bool list \<Rightarrow> 't scratch_segment_ref \<Rightarrow> nat list" where
  "selected_keys ks resolved segment_ref =
     filter (\<lambda>i. \<not> resolved ! i \<and> pg_key_min (sf_page_ref segment_ref) \<le> ks ! i \<and> ks ! i \<le> pg_key_max (sf_page_ref segment_ref))
       [0..<length ks]"

type_synonym answers = "bytes option list \<times> bool list"

fun resolve_selected :: "bytes list \<Rightarrow> scratch_record list \<Rightarrow> nat list \<Rightarrow> answers \<Rightarrow> answers" where
  "resolve_selected ks entries [] answers = answers"
| "resolve_selected ks entries (index # rest) (vals, resolved) =
     (case find_record (ks ! index) entries of
        Some i \<Rightarrow> resolve_selected ks entries rest (vals[index := rec_value (entries ! i)], resolved[index := True])
      | None \<Rightarrow> resolve_selected ks entries rest (vals, resolved))"

fun lookup_many_segments ::
    "hash \<Rightarrow> 't scratch_codecs \<Rightarrow> 't \<Rightarrow> bytes list \<Rightarrow> 't scratch_segment_ref list \<Rightarrow> answers \<Rightarrow> ('o, bytes option list) run_op" where
  "lookup_many_segments H C kind ks [] (vals, resolved) = st_return vals"
| "lookup_many_segments H C kind ks (segment_ref # rest) (vals, resolved) =
     (let selected = selected_keys ks resolved segment_ref in
      if selected = [] then lookup_many_segments H C kind ks rest (vals, resolved)
      else
        st_bind (read_segment H C kind segment_ref) (\<lambda>segment.
        lookup_many_segments H C kind ks rest (resolve_selected ks (sg_entries segment) selected (vals, resolved))))"

definition lookup_many_with_absence_policy ::
    "hash \<Rightarrow> 't scratch_codecs \<Rightarrow> 't scratch_lsm_root \<Rightarrow> 't \<Rightarrow> bytes list \<Rightarrow> scratch_run_error + bool list \<Rightarrow>
     ('o, bytes option list) run_op" where
  "lookup_many_with_absence_policy H C root kind ks absence_policy =
     st_bind (st_lift (validate_lsm_root root)) (\<lambda>_.
     if ks = [] then st_return []
     else
       st_bind (st_lift absence_policy) (\<lambda>known_absent.
       if length known_absent \<noteq> length ks then st_lift (Inl MalformedPage)
       else lookup_many_segments H C kind ks (newest_first root) (replicate (length ks) None, known_absent)))"

definition lookup_many_with_known_absent ::
    "hash \<Rightarrow> 't scratch_codecs \<Rightarrow> 't scratch_lsm_root \<Rightarrow> 't \<Rightarrow> bytes list \<Rightarrow> bool list \<Rightarrow> ('o, bytes option list) run_op" where
  "lookup_many_with_known_absent H C root kind ks known_absent =
     lookup_many_with_absence_policy H C root kind ks (Inr known_absent)"

definition lookup_many ::
    "hash \<Rightarrow> 't scratch_codecs \<Rightarrow> 't scratch_lsm_root \<Rightarrow> 't \<Rightarrow> bytes list \<Rightarrow> ('o, bytes option list) run_op" where
  "lookup_many H C root kind ks = lookup_many_with_known_absent H C root kind ks (replicate (length ks) False)"

section \<open>Scans\<close>

fun insert_matching :: "bytes \<Rightarrow> scratch_record list \<Rightarrow> (bytes \<times> bytes option) list \<Rightarrow> (bytes \<times> bytes option) list" where
  "insert_matching prefix [] merged = merged"
| "insert_matching prefix (record # rest) merged =
     insert_matching prefix rest
       (if starts_with (rec_key record) prefix then bt_insert (rec_key record) (rec_value record) merged else merged)"

fun scan_segments ::
    "hash \<Rightarrow> 't scratch_codecs \<Rightarrow> 't \<Rightarrow> bytes \<Rightarrow> 't scratch_segment_ref list \<Rightarrow> (bytes \<times> bytes option) list \<Rightarrow>
     ('o, (bytes \<times> bytes option) list) run_op" where
  "scan_segments H C kind prefix [] merged = st_return merged"
| "scan_segments H C kind prefix (segment_ref # rest) merged =
     st_bind (read_segment H C kind segment_ref) (\<lambda>segment.
     scan_segments H C kind prefix rest (insert_matching prefix (sg_entries segment) merged))"

definition live_records :: "(bytes \<times> bytes option) list \<Rightarrow> (bytes \<times> bytes) list" where
  "live_records merged = List.map_filter (\<lambda>(k, v). map_option (Pair k) v) merged"

definition scan_prefix ::
    "hash \<Rightarrow> 't scratch_codecs \<Rightarrow> 't scratch_lsm_root \<Rightarrow> 't \<Rightarrow> bytes \<Rightarrow> ('o, (bytes \<times> bytes) list) run_op" where
  "scan_prefix H C root kind prefix =
     st_bind (st_lift (validate_lsm_root root)) (\<lambda>_.
     st_bind (scan_segments H C kind prefix (oldest_first root) []) (\<lambda>merged.
     st_return (live_records merged)))"

definition materialize :: "hash \<Rightarrow> 't scratch_codecs \<Rightarrow> 't scratch_lsm_root \<Rightarrow> 't \<Rightarrow> ('o, (bytes \<times> bytes) list) run_op" where
  "materialize H C root kind = scan_prefix H C root kind []"

section \<open>Lists of records\<close>

definition record_map :: "scratch_record list \<Rightarrow> bytes \<Rightarrow> bytes option option" where
  "record_map es = map_of (map (\<lambda>e. (rec_key e, rec_value e)) es)"

abbreviation keys_of :: "scratch_record list \<Rightarrow> bytes list" where
  "keys_of es \<equiv> map rec_key es"

lemma record_map_simps [simp]: "record_map [] = Map.empty"
  "record_map (e # es) = (record_map es)(rec_key e \<mapsto> rec_value e)"
  by (simp_all add: record_map_def)

lemma dom_record_map: "dom (record_map es) = set (keys_of es)"
  by (simp add: record_map_def dom_map_of_conv_image_fst image_image)

lemma validate_entries_iff:
  "validate_entries previous es \<longleftrightarrow> sorted_wrt (<) (keys_of es) \<and> [] \<notin> set (keys_of es)
     \<and> (\<forall>p \<in> set_option previous. \<forall>k \<in> set (keys_of es). p < k)"
proof (induction previous es rule: validate_entries.induct)
  case (2 previous rc rest)
  then show ?case by (cases previous) (auto simp: not_le intro: less_trans)
qed auto

lemma validate_segment_iff:
  "validate_segment s = Inr () \<longleftrightarrow>
     sg_schema_version s = SCRATCH_PAGE_SCHEMA_VERSION \<and> sg_generation s \<noteq> 0 \<and> sg_entries s \<noteq> []
     \<and> sorted_wrt (<) (keys_of (sg_entries s)) \<and> [] \<notin> set (keys_of (sg_entries s))"
  by (simp add: validate_segment_def validate_entries_iff)

lemma record_map_nth:
  assumes "sorted_wrt (<) (keys_of es)" "i < length es" shows "record_map es (rec_key (es ! i)) = Some (rec_value (es ! i))"
proof -
  have "distinct (map fst (map (\<lambda>e. (rec_key e, rec_value e)) es))"
    using assms(1) by (simp add: strict_sorted_iff comp_def)
  then show ?thesis unfolding record_map_def using assms(2) by (intro map_of_is_SomeI) auto
qed

lemma bisect_map: "base + n \<le> length xs \<Longrightarrow> 0 < n \<Longrightarrow> bisect gt (map f xs) base n = bisect (\<lambda>x. gt (f x)) xs base n"
proof (induction gt "map f xs" base n rule: bisect.induct)
  case (1 gt base n)
  then show ?case by (subst (1 2) bisect.simps) auto
qed

lemma bisect_less: "0 < n \<Longrightarrow> bisect gt xs base n < base + n"
proof (induction gt xs base n rule: bisect.induct)
  case (1 gt xs base n)
  show ?case
  proof (cases "1 < n")
    case True
    then have "bisect gt xs (if gt (xs ! (base + n div 2)) then base else base + n div 2) (n - n div 2)
        < (if gt (xs ! (base + n div 2)) then base else base + n div 2) + (n - n div 2)"
      using 1 by auto
    with True show ?thesis by (subst bisect.simps) auto
  next
    case False
    with 1 show ?thesis by (subst bisect.simps) simp
  qed
qed

lemma find_record_Some:
  assumes "find_record key es = Some i" shows "i < length es \<and> rec_key (es ! i) = key"
proof -
  have "es \<noteq> []" "bisect (\<lambda>e. key < rec_key e) es 0 (length es) = i" "rec_key (es ! i) = key"
    using assms by (auto simp: find_record_def Let_def split: if_splits)
  then show ?thesis using bisect_less [of "length es" "\<lambda>e. key < rec_key e" es 0] by simp
qed

lemma find_record_None:
  assumes "sorted_wrt (<) (keys_of es)" "find_record key es = None" shows "record_map es key = None"
proof (cases "es = []")
  case False
  let ?i = "bisect (\<lambda>e. key < rec_key e) es 0 (length es)"
  have i: "?i < length es" using False bisect_less [of "length es" _ es 0] by simp
  have "rec_key (es ! ?i) \<noteq> key" using assms(2) False by (auto simp: find_record_def Let_def split: if_splits)
  then have "\<not> binary_search_ok key (keys_of es)"
    using False i bisect_map [of 0 "length es" es "\<lambda>y. key < y" rec_key] by (simp add: binary_search_ok_def)
  then have "key \<notin> dom (record_map es)" using assms(1) by (simp add: binary_search_ok_iff dom_record_map)
  then show ?thesis by blast
qed simp

lemma find_record_map:
  assumes "sorted_wrt (<) (keys_of es)"
  shows "record_map es key = map_option (\<lambda>i. rec_value (es ! i)) (find_record key es)"
proof (cases "find_record key es")
  case None
  then show ?thesis using find_record_None [OF assms] by simp
next
  case (Some i)
  then show ?thesis using find_record_Some [OF Some] record_map_nth [OF assms] by auto
qed

lemma merge_older_ok:
  "ordered merged \<Longrightarrow> ordered (merge_older merged es) \<and> map_of (merge_older merged es) = record_map es ++ map_of merged
     \<and> (merged \<noteq> [] \<longrightarrow> merge_older merged es \<noteq> [])"
proof (induction es arbitrary: merged)
  case (Cons e es)
  let ?merged = "if map_of merged (rec_key e) = None then bt_insert (rec_key e) (rec_value e) merged else merged"
  have A: "ordered ?merged" using Cons.prems by simp
  have B: "record_map es ++ map_of ?merged = record_map (e # es) ++ map_of merged"
    using Cons.prems by (auto simp: fun_eq_iff map_add_def split: option.split)
  have "bt_insert k v xs \<noteq> []" for k :: bytes and v :: "bytes option" and xs
    by (cases "(k, v, xs)" rule: bt_insert.cases) auto
  then have "merged \<noteq> [] \<longrightarrow> ?merged \<noteq> []" by simp
  then show ?case unfolding merge_older.simps using Cons.IH [OF A, unfolded B] by blast
qed simp

lemma insert_matching_ok:
  "ordered merged \<Longrightarrow> distinct (keys_of es) \<Longrightarrow> ordered (insert_matching prefix es merged) \<and>
     map_of (insert_matching prefix es merged) = map_of merged ++ (record_map es |` {k. starts_with k prefix})"
proof (induction "prefix" es merged rule: insert_matching.induct)
  case (2 pat e es merged)
  have "record_map es (rec_key e) = None"
    using 2(3) dom_record_map [of es] by (auto simp: domIff)
  then show ?case using 2 by (auto simp: fun_eq_iff map_add_def restrict_map_def split: option.split)
qed simp

section \<open>What a root holds\<close>

text \<open>
  \<open>segment_at\<close> is the segment a reference names in a page text; the content of a list of references, newest
  first, is the union of their records in which a newer record wins.
\<close>

definition segment_at :: "hash \<Rightarrow> 't scratch_codecs \<Rightarrow> bytes \<Rightarrow> 't \<Rightarrow> 't scratch_segment_ref \<Rightarrow> scratch_run_error + 't scratch_segment" where
  "segment_at H C T kind segment_ref =
     bind_res (page_at H (cd_envelope C) (cd_segment C) T (sf_page_ref segment_ref) kind) (check_segment kind segment_ref)"

definition readable :: "hash \<Rightarrow> 't scratch_codecs \<Rightarrow> bytes \<Rightarrow> 't \<Rightarrow> 't scratch_segment_ref \<Rightarrow> bool" where
  "readable H C T kind segment_ref \<longleftrightarrow> \<not> isl (segment_at H C T kind segment_ref)"

definition entries_at :: "hash \<Rightarrow> 't scratch_codecs \<Rightarrow> bytes \<Rightarrow> 't \<Rightarrow> 't scratch_segment_ref \<Rightarrow> scratch_record list" where
  "entries_at H C T kind segment_ref = sg_entries (projr (segment_at H C T kind segment_ref))"

fun refs_map :: "hash \<Rightarrow> 't scratch_codecs \<Rightarrow> bytes \<Rightarrow> 't \<Rightarrow> 't scratch_segment_ref list \<Rightarrow> bytes \<Rightarrow> bytes option option" where
  "refs_map H C T kind [] = Map.empty"
| "refs_map H C T kind (segment_ref # rest) = refs_map H C T kind rest ++ record_map (entries_at H C T kind segment_ref)"

definition lsm_map :: "hash \<Rightarrow> 't scratch_codecs \<Rightarrow> bytes \<Rightarrow> 't \<Rightarrow> 't scratch_lsm_root \<Rightarrow> bytes \<Rightarrow> bytes option option" where
  "lsm_map H C T kind root = refs_map H C T kind (flatten_levels (lr_levels root))"

definition visible :: "(bytes \<Rightarrow> bytes option option) \<Rightarrow> bytes \<Rightarrow> bytes option" where
  "visible m k = Option.bind (m k) (\<lambda>v. v)"

definition lsm_ok :: "hash \<Rightarrow> 't scratch_codecs \<Rightarrow> bytes \<Rightarrow> 't \<Rightarrow> 't scratch_lsm_root \<Rightarrow> bool" where
  "lsm_ok H C T kind root \<longleftrightarrow>
     length (lr_levels root) = SCRATCH_LSM_LEVELS
     \<and> (\<forall>s \<in> set (flatten_levels (lr_levels root)).
          readable H C T kind s \<and> sf_generation s \<le> lr_next_generation root \<and> sf_entry_count s \<noteq> 0)
     \<and> sorted_wrt (\<lambda>a b. sf_generation b < sf_generation a) (flatten_levels (lr_levels root))"

lemma segment_at_facts:
  assumes "segment_at H C T kind s = Inr seg"
  shows "sg_entries seg \<noteq> []" "sorted_wrt (<) (keys_of (sg_entries seg))" "sg_generation seg \<noteq> 0" "sg_generation seg = sf_generation s"
    "rec_key (hd (sg_entries seg)) = pg_key_min (sf_page_ref s)" "rec_key (last (sg_entries seg)) = pg_key_max (sf_page_ref s)"
    "[] \<notin> set (keys_of (sg_entries seg))"
  using assms by (auto simp: segment_at_def check_segment_def bind_res_Inr validate_segment_iff split: if_splits)

lemma readableE:
  assumes "readable H C T kind s"
  obtains seg where "segment_at H C T kind s = Inr seg" "entries_at H C T kind s = sg_entries seg"
  using assms unfolding readable_def entries_at_def by (cases "segment_at H C T kind s") auto

lemma readableI: "segment_at H C T kind s = Inr seg \<Longrightarrow> readable H C T kind s \<and> entries_at H C T kind s = sg_entries seg"
  by (simp add: readable_def entries_at_def)

lemma readable_sorted: "readable H C T kind s \<Longrightarrow> sorted_wrt (<) (keys_of (entries_at H C T kind s))"
  by (erule readableE) (simp add: segment_at_facts)

lemma segment_at_grown: "segment_at H C T kind s = Inr seg \<Longrightarrow> segment_at H C (T @ D) kind s = Inr seg"
  by (auto simp: segment_at_def bind_res_Inr page_at_grown)

lemma readable_grown:
  assumes "readable H C T kind s"
  shows "readable H C (T @ D) kind s \<and> entries_at H C (T @ D) kind s = entries_at H C T kind s"
  using assms by (elim readableE) (simp add: readableI [OF segment_at_grown])

lemma refs_map_grown:
  "(\<And>s. s \<in> set refs \<Longrightarrow> readable H C T kind s) \<Longrightarrow> refs_map H C (T @ D) kind refs = refs_map H C T kind refs"
  by (induction refs) (simp_all add: readable_grown)

lemma lsm_grown:
  assumes "lsm_ok H C (page_text r) kind root" "grown r r'"
  shows "lsm_ok H C (page_text r') kind root \<and> lsm_map H C (page_text r') kind root = lsm_map H C (page_text r) kind root"
proof -
  obtain D where D: "page_text r' = page_text r @ D" using assms(2) by (auto simp: grown_def)
  show ?thesis using assms(1) unfolding D
    by (auto simp: lsm_ok_def lsm_map_def readable_grown intro: refs_map_grown)
qed

text \<open>A key outside the range of a segment is not in it.\<close>

lemma in_range_key:
  assumes "readable H C T kind s" "record_map (entries_at H C T kind s) key \<noteq> None" shows "in_range s key"
proof -
  obtain seg where seg: "segment_at H C T kind s = Inr seg" "entries_at H C T kind s = sg_entries seg"
    using assms(1) by (rule readableE)
  let ?ks = "keys_of (sg_entries seg)"
  have "key \<in> dom (record_map (sg_entries seg))" using assms(2) seg(2) by (simp add: domIff)
  then have key: "key \<in> set ?ks" by (simp only: dom_record_map)
  have ne: "?ks \<noteq> []" and s: "sorted ?ks" using segment_at_facts [OF seg(1)] by (auto simp: strict_sorted_iff)
  have "hd ?ks \<le> key" using s key ne by (cases ?ks) auto
  moreover have "key \<le> last ?ks"
    using s key ne by (cases ?ks rule: rev_cases) (auto simp: sorted_append)
  ultimately show ?thesis
    using segment_at_facts [OF seg(1)] by (auto simp: in_range_def hd_map last_map not_less)
qed

section \<open>Reading without failures\<close>

lemma read_segment_quiet:
  assumes "healthy r" "length (page_text r) < 2 ^ 64"
  shows "\<exists>r'. read_segment H C kind s r = (segment_at H C (page_text r) kind s, r') \<and> unmoved r r'"
proof -
  obtain r' where r': "read_page H (cd_envelope C) (cd_segment C) (sf_page_ref s) kind r
      = (page_at H (cd_envelope C) (cd_segment C) (page_text r) (sf_page_ref s) kind, r')" "unmoved r r'"
    using read_page_quiet [OF assms, of H "cd_envelope C" "cd_segment C" "sf_page_ref s" kind] by blast
  then show ?thesis
    by (cases "page_at H (cd_envelope C) (cd_segment C) (page_text r) (sf_page_ref s) kind")
      (simp_all add: read_segment_def segment_at_def st_bind_def st_lift_def)
qed

lemma read_segment_ok:
  assumes "healthy r" "length (page_text r) < 2 ^ 64" "readable H C (page_text r) kind s"
  shows "runs (read_segment H C kind s) r
    (\<lambda>seg r'. segment_at H C (page_text r) kind s = Inr seg \<and> entries_at H C (page_text r) kind s = sg_entries seg \<and> unmoved r r')
    (\<lambda>_ _. False)"
proof -
  obtain seg where seg: "segment_at H C (page_text r) kind s = Inr seg" "entries_at H C (page_text r) kind s = sg_entries seg"
    using assms(3) by (rule readableE)
  obtain r' where "read_segment H C kind s r = (segment_at H C (page_text r) kind s, r')" "unmoved r r'"
    using read_segment_quiet [OF assms(1,2), of H C kind s] by blast
  then show ?thesis using seg by (simp add: runs_def)
qed

lemma lookup_segments_ok:
  assumes "healthy r" "length (page_text r) < 2 ^ 64" "\<forall>s \<in> set refs. readable H C (page_text r) kind s"
  shows "runs (lookup_segments H C kind key refs) r
    (\<lambda>v r'. v = visible (refs_map H C (page_text r) kind refs) key \<and> unmoved r r') (\<lambda>_ _. False)"
  using assms
proof (induction refs arbitrary: r)
  case Nil
  then show ?case by (simp add: visible_def unmoved_refl)
next
  case (Cons s refs)
  let ?T = "page_text r"
  have s: "readable H C ?T kind s" using Cons.prems(3) by simp
  show ?case
  proof (cases "in_range s key")
    case False
    with s have "record_map (entries_at H C ?T kind s) key = None" using in_range_key [OF s, of key] by blast
    then show ?thesis using Cons.IH [OF Cons.prems(1,2)] Cons.prems(3) False by (simp add: visible_def map_add_def)
  next
    case True
    show ?thesis
      unfolding lookup_segments.simps
    proof (simp add: True, rule runs_bind [OF read_segment_ok [OF Cons.prems(1,2) s]], clarify)
      fix seg r1
      assume seg: "segment_at H C ?T kind s = Inr seg" "entries_at H C ?T kind s = sg_entries seg" and u: "unmoved r r1"
      then have "page_text r1 = ?T" by (simp add: unmoved_def)
      note IH = Cons.IH [of r1, unfolded this]
      have m: "record_map (sg_entries seg) key = map_option (\<lambda>i. rec_value (sg_entries seg ! i)) (find_record key (sg_entries seg))"
        by (rule find_record_map [OF segment_at_facts(2) [OF seg(1)]])
      show "runs (case find_record key (sg_entries seg) of None \<Rightarrow> lookup_segments H C kind key refs
          | Some i \<Rightarrow> st_return (rec_value (sg_entries seg ! i))) r1
         (\<lambda>v r'. v = visible (refs_map H C ?T kind refs ++ record_map (entries_at H C ?T kind s)) key \<and> unmoved r r') (\<lambda>_ _. False)"
      proof (cases "find_record key (sg_entries seg)")
        case None
        then show ?thesis using m seg(2) u Cons.prems(2,3)
          by (auto simp: visible_def map_add_def intro: runs_mono [OF IH] unmoved_trans dest: unmoved_healthy)
      next
        case (Some i)
        then show ?thesis using m seg(2) u by (simp add: visible_def map_add_def)
      qed
    qed
  qed
qed

text \<open>Distinct generations in descending order: the sort of the code puts the levels back in their own order.\<close>

lemma insort_key_snoc: "(\<And>y. y \<in> set ys \<Longrightarrow> f y < f x) \<Longrightarrow> insort_key f x ys = ys @ [x]"
  by (induction ys) (fastforce simp: not_le)+

lemma sort_key_descending: "sorted_wrt (\<lambda>a b. f b < f a) xs \<Longrightarrow> sort_key f xs = rev xs"
  by (induction xs) (auto intro!: insort_key_snoc)

lemma newest_first_levels:
  "lsm_ok H C T kind root \<Longrightarrow> newest_first root = flatten_levels (lr_levels root) \<and> oldest_first root = rev (flatten_levels (lr_levels root))"
  by (simp add: newest_first_def oldest_first_def sort_key_descending lsm_ok_def)

lemma validate_lsm_root_ok: "lsm_ok H C T kind root \<Longrightarrow> validate_lsm_root root = Inr ()"
proof -
  assume ok: "lsm_ok H C T kind root"
  have "sf_generation s \<noteq> 0" if "s \<in> set (flatten_levels (lr_levels root))" for s
  proof -
    have "readable H C T kind s" using ok that by (simp add: lsm_ok_def)
    then show ?thesis by (elim readableE) (metis segment_at_facts(3,4))
  qed
  then show ?thesis using ok by (auto simp: validate_lsm_root_def lsm_ok_def not_less)
qed

lemma lookup_policy_ok:
  assumes "healthy r" "length (page_text r) < 2 ^ 64" "lsm_ok H C (page_text r) kind root"
  shows "runs (lookup_with_absence_policy H C root kind key (Inr absent)) r
    (\<lambda>v r'. v = (if absent then None else visible (lsm_map H C (page_text r) kind root) key) \<and> unmoved r r') (\<lambda>_ _. False)"
proof -
  have "\<forall>s \<in> set (flatten_levels (lr_levels root)). readable H C (page_text r) kind s"
    using assms(3) by (simp add: lsm_ok_def)
  then show ?thesis
    using lookup_segments_ok [OF assms(1,2), of "flatten_levels (lr_levels root)" H C kind key] assms(1) newest_first_levels [OF assms(3)] validate_lsm_root_ok [OF assms(3)]
    by (simp add: lookup_with_absence_policy_def lsm_map_def unmoved_refl)
qed

section \<open>Batched lookups\<close>

text \<open>What is answered for the key at index \<open>i\<close>, once the segments \<open>refs\<close> are still to come.\<close>

definition answer :: "(bytes \<Rightarrow> bytes option option) \<Rightarrow> bytes list \<Rightarrow> answers \<Rightarrow> nat \<Rightarrow> bytes option" where
  "answer m ks a i = (if snd a ! i then fst a ! i else case m (ks ! i) of None \<Rightarrow> fst a ! i | Some v \<Rightarrow> v)"

definition answers_for :: "bytes list \<Rightarrow> answers \<Rightarrow> bool" where
  "answers_for ks a \<longleftrightarrow> length (fst a) = length ks \<and> length (snd a) = length ks"

lemma resolve_selected_ok:
  assumes "sorted_wrt (<) (keys_of es)" "answers_for ks a" "\<forall>i \<in> set sel. i < length ks" "distinct sel"
  shows "answers_for ks (resolve_selected ks es sel a) \<and>
    (\<forall>i < length ks. let v = record_map es (ks ! i) in
       snd (resolve_selected ks es sel a) ! i = (snd a ! i \<or> (i \<in> set sel \<and> v \<noteq> None)) \<and>
       fst (resolve_selected ks es sel a) ! i = (if i \<in> set sel \<and> v \<noteq> None then the v else fst a ! i))"
  using assms
proof (induction ks es sel a rule: resolve_selected.induct)
  case (1 ks entries answers)
  then show ?case by simp
next
  case (2 ks es index sel vals resolved)
  have m: "record_map es (ks ! index) = map_option (\<lambda>i. rec_value (es ! i)) (find_record (ks ! index) es)"
    by (rule find_record_map [OF 2(3)])
  show ?case
  proof (cases "find_record (ks ! index) es")
    case None
    then show ?thesis using 2(1)[OF None] 2(3-) m by (auto simp: Let_def)
  next
    case (Some k)
    then show ?thesis using 2(2)[OF Some] 2(3-) m by (auto simp: Let_def answers_for_def nth_list_update)
  qed
qed

lemma lookup_many_segments_ok:
  assumes "healthy r" "length (page_text r) < 2 ^ 64" "\<forall>s \<in> set refs. readable H C (page_text r) kind s" "answers_for ks a"
  shows "runs (lookup_many_segments H C kind ks refs a) r
    (\<lambda>vs r'. vs = map (answer (refs_map H C (page_text r) kind refs) ks a) [0..<length ks] \<and> unmoved r r') (\<lambda>_ _. False)"
  using assms
proof (induction refs arbitrary: r a)
  case Nil
  obtain vals resolved where a: "a = (vals, resolved)" by force
  have "map (answer Map.empty ks a) [0..<length ks] = vals"
    using Nil.prems(4) by (intro nth_equalityI) (auto simp: a answers_for_def answer_def)
  then show ?case using Nil.prems(1) by (simp add: a unmoved_refl)
next
  case (Cons s refs)
  obtain vals resolved where a: "a = (vals, resolved)" by force
  let ?T = "page_text r" and ?sel = "selected_keys ks resolved s"
  have s: "readable H C ?T kind s" using Cons.prems(3) by simp
  have sel: "i \<in> set ?sel \<longleftrightarrow> i < length ks \<and> \<not> resolved ! i \<and> in_range s (ks ! i)" for i
    by (auto simp: selected_keys_def in_range_def not_less)
  have skip: "record_map (entries_at H C ?T kind s) (ks ! i) = None" if "i < length ks" "\<not> resolved ! i" "i \<notin> set ?sel" for i
    using in_range_key [OF s, of "ks ! i"] that sel by blast
  show ?case
  proof (cases "?sel = []")
    case True
    have "answer (refs_map H C ?T kind refs ++ record_map (entries_at H C ?T kind s)) ks a i = answer (refs_map H C ?T kind refs) ks a i"
      if "i < length ks" for i
      using skip [of i] that True by (auto simp: answer_def a map_add_def)
    then have eq: "map (answer (refs_map H C ?T kind (s # refs)) ks a) [0..<length ks]
        = map (answer (refs_map H C ?T kind refs) ks a) [0..<length ks]" by simp
    show ?thesis unfolding eq using True Cons.IH [of r a] Cons.prems by (simp add: a)
  next
    case False
    have "runs (st_bind (read_segment H C kind s) (\<lambda>segment. lookup_many_segments H C kind ks refs
        (resolve_selected ks (sg_entries segment) ?sel a))) r
      (\<lambda>vs r'. vs = map (answer (refs_map H C ?T kind (s # refs)) ks a) [0..<length ks] \<and> unmoved r r') (\<lambda>_ _. False)"
    proof (rule runs_bind [OF read_segment_ok [OF Cons.prems(1,2) s]], clarify)
      fix seg r1
      assume seg: "segment_at H C ?T kind s = Inr seg" "entries_at H C ?T kind s = sg_entries seg" and u: "unmoved r r1"
      let ?b = "resolve_selected ks (sg_entries seg) ?sel a"
      have T: "page_text r1 = ?T" using u by (simp add: unmoved_def)
      have b: "answers_for ks ?b"
        and at: "\<And>i. i < length ks \<Longrightarrow> snd ?b ! i = (resolved ! i \<or> (i \<in> set ?sel \<and> record_map (sg_entries seg) (ks ! i) \<noteq> None))"
          "\<And>i. i < length ks \<Longrightarrow> fst ?b ! i = (if i \<in> set ?sel \<and> record_map (sg_entries seg) (ks ! i) \<noteq> None
             then the (record_map (sg_entries seg) (ks ! i)) else vals ! i)"
        using resolve_selected_ok [OF segment_at_facts(2) [OF seg(1)] Cons.prems(4), of ?sel]
        by (auto simp: a Let_def selected_keys_def)
      have "answer (refs_map H C ?T kind (s # refs)) ks a i = answer (refs_map H C ?T kind refs) ks ?b i" if "i < length ks" for i
        using skip [OF that] sel [of i] at [OF that] that
        by (auto simp: answer_def a map_add_def seg(2) split: option.split)
      then have eq: "map (answer (refs_map H C ?T kind (s # refs)) ks a) [0..<length ks]
          = map (answer (refs_map H C ?T kind refs) ks ?b) [0..<length ks]" by simp
      show "runs (lookup_many_segments H C kind ks refs ?b) r1
        (\<lambda>vs r'. vs = map (answer (refs_map H C ?T kind (s # refs)) ks a) [0..<length ks] \<and> unmoved r r') (\<lambda>_ _. False)"
        unfolding eq using Cons.prems(2,3) b T u
        by (intro runs_mono [OF Cons.IH [of r1 ?b]]) (auto intro: unmoved_trans dest: unmoved_healthy)
    qed
    then show ?thesis using False by (simp add: a Let_def)
  qed
qed

lemma lookup_many_policy_ok:
  assumes "healthy r" "length (page_text r) < 2 ^ 64" "lsm_ok H C (page_text r) kind root" "length absent = length ks"
  shows "runs (lookup_many_with_absence_policy H C root kind ks (Inr absent)) r
    (\<lambda>vs r'. vs = map (\<lambda>(key, known). if known then None else visible (lsm_map H C (page_text r) kind root) key) (zip ks absent)
       \<and> unmoved r r') (\<lambda>_ _. False)"
proof (cases "ks = []")
  case True
  then show ?thesis using assms(1) validate_lsm_root_ok [OF assms(3)]
    by (simp add: lookup_many_with_absence_policy_def unmoved_refl)
next
  case False
  let ?a = "(replicate (length ks) None, absent)" and ?m = "lsm_map H C (page_text r) kind root"
  have eq: "map (answer ?m ks ?a) [0..<length ks] = map (\<lambda>(key, known). if known then None else visible ?m key) (zip ks absent)"
    using assms(4) by (intro nth_equalityI) (auto simp: answer_def visible_def split: option.split)
  have "runs (lookup_many_segments H C kind ks (flatten_levels (lr_levels root)) ?a) r
    (\<lambda>vs r'. vs = map (answer ?m ks ?a) [0..<length ks] \<and> unmoved r r') (\<lambda>_ _. False)"
    unfolding lsm_map_def using assms by (intro lookup_many_segments_ok) (auto simp: lsm_ok_def answers_for_def)
  then show ?thesis unfolding eq
    using False newest_first_levels [OF assms(3)] validate_lsm_root_ok [OF assms(3)] assms(4)
    by (simp add: lookup_many_with_absence_policy_def)
qed

section \<open>Scanning\<close>

lemma scan_segments_ok:
  assumes "healthy r" "length (page_text r) < 2 ^ 64" "\<forall>s \<in> set refs. readable H C (page_text r) kind s" "ordered merged"
  shows "runs (scan_segments H C kind pat (rev refs) merged) r
    (\<lambda>out r'. ordered out \<and> map_of out = map_of merged ++ (refs_map H C (page_text r) kind refs |` {k. starts_with k pat}) \<and> unmoved r r')
    (\<lambda>_ _. False)"
  using assms
proof (induction refs arbitrary: r merged rule: rev_induct)
  case Nil
  then show ?case by (simp add: unmoved_refl)
next
  case (snoc s refs)
  let ?T = "page_text r" and ?P = "{k. starts_with k pat}"
  have s: "readable H C ?T kind s" using snoc.prems(3) by simp
  have split: "refs_map H C ?T kind (xs @ [s]) = record_map (entries_at H C ?T kind s) ++ refs_map H C ?T kind xs" for xs
    by (induction xs) simp_all
  have "runs (st_bind (read_segment H C kind s) (\<lambda>segment. scan_segments H C kind pat (rev refs) (insert_matching pat (sg_entries segment) merged))) r
    (\<lambda>out r'. ordered out \<and> map_of out = map_of merged ++ (refs_map H C ?T kind (refs @ [s]) |` ?P) \<and> unmoved r r') (\<lambda>_ _. False)"
  proof (rule runs_bind [OF read_segment_ok [OF snoc.prems(1,2) s]], clarify)
    fix seg r1
    assume seg: "segment_at H C ?T kind s = Inr seg" "entries_at H C ?T kind s = sg_entries seg" and u: "unmoved r r1"
    let ?m = "insert_matching pat (sg_entries seg) merged"
    have T: "page_text r1 = ?T" using u by (simp add: unmoved_def)
    have "distinct (keys_of (sg_entries seg))" using segment_at_facts(2) [OF seg(1)] by (simp add: strict_sorted_iff)
    then have m: "ordered ?m" "map_of ?m = map_of merged ++ (record_map (sg_entries seg) |` ?P)"
      using insert_matching_ok [OF snoc.prems(4)] by blast+
    have "map_of ?m ++ (refs_map H C ?T kind refs |` ?P) = map_of merged ++ (refs_map H C ?T kind (refs @ [s]) |` ?P)"
      by (auto simp: m(2) split seg(2) map_add_def restrict_map_def fun_eq_iff split: option.split)
    then show "runs (scan_segments H C kind pat (rev refs) ?m) r1
      (\<lambda>out r'. ordered out \<and> map_of out = map_of merged ++ (refs_map H C ?T kind (refs @ [s]) |` ?P) \<and> unmoved r r') (\<lambda>_ _. False)"
      using snoc.prems(2,3) m(1) T u
      by (intro runs_mono [OF snoc.IH [of r1 ?m]]) (auto intro: unmoved_trans dest: unmoved_healthy)
  qed
  then show ?case by simp
qed

lemma live_records_ok:
  "ordered xs \<Longrightarrow> ordered (live_records xs) \<and> map_of (live_records xs) = visible (map_of xs)"
proof (induction xs)
  case Nil
  then show ?case by (simp add: live_records_def visible_def map_filter_simps fun_eq_iff)
next
  case (Cons x xs)
  obtain k v where x: "x = (k, v)" by force
  have keys: "fst ` set (live_records xs) \<subseteq> fst ` set xs"
    by (force simp: live_records_def map_filter_def)
  have k: "k \<notin> fst ` set xs" using Cons.prems by (auto simp: x ordered_Cons)
  then have "map_of xs k = None" by (simp add: map_of_eq_None_iff)
  moreover have "\<forall>k' \<in> fst ` set (live_records xs). k < k'"
    using keys Cons.prems unfolding x ordered_Cons by blast
  moreover have "live_records (x # xs) = (case v of None \<Rightarrow> live_records xs | Some w \<Rightarrow> (k, w) # live_records xs)"
    by (cases v) (simp_all add: x live_records_def map_filter_simps)
  ultimately show ?case using Cons
    by (cases v) (auto simp: x ordered_Cons visible_def fun_eq_iff)
qed

lemma scan_prefix_ok:
  assumes "healthy r" "length (page_text r) < 2 ^ 64" "lsm_ok H C (page_text r) kind root"
  shows "runs (scan_prefix H C root kind pat) r
    (\<lambda>out r'. ordered out \<and> map_of out = visible (lsm_map H C (page_text r) kind root) |` {k. starts_with k pat} \<and> unmoved r r')
    (\<lambda>_ _. False)"
proof -
  have v: "visible (Map.empty ++ (m |` P)) = visible m |` P" for m :: "bytes \<Rightarrow> bytes option option" and P
    by (auto simp: visible_def restrict_map_def fun_eq_iff)
  have "runs (scan_segments H C kind pat (oldest_first root) []) r
    (\<lambda>out r'. ordered out \<and> map_of out = Map.empty ++ (lsm_map H C (page_text r) kind root |` {k. starts_with k pat}) \<and> unmoved r r')
    (\<lambda>_ _. False)"
    using scan_segments_ok [OF assms(1,2), of "flatten_levels (lr_levels root)" H C kind "[]" pat] assms(3)
      newest_first_levels [OF assms(3)]
    by (simp add: lsm_ok_def lsm_map_def)
  then have "runs (st_bind (scan_segments H C kind pat (oldest_first root) []) (\<lambda>merged. st_return (live_records merged))) r
    (\<lambda>out r'. ordered out \<and> map_of out = visible (lsm_map H C (page_text r) kind root) |` {k. starts_with k pat} \<and> unmoved r r')
    (\<lambda>_ _. False)"
    by (rule runs_bind) (auto dest: live_records_ok simp: v [simplified])
  then show ?thesis using validate_lsm_root_ok [OF assms(3)] by (simp add: scan_prefix_def)
qed

section \<open>Inserting\<close>

text \<open>The codec of a segment reads back, and every record takes at least one byte of its encoding.\<close>

definition segment_codec :: "'t scratch_segment serializer \<Rightarrow> bool" where
  "segment_codec V \<longleftrightarrow> roundtrips V \<and> (\<forall>s b. to_vec V s = Inr b \<longrightarrow> length (sg_entries s) \<le> length b)"

definition codecs_ok :: "'t scratch_codecs \<Rightarrow> bool" where
  "codecs_ok C \<longleftrightarrow> envelope_codec (cd_envelope C) \<and> segment_codec (cd_segment C)"

definition refused :: "scratch_run_error \<Rightarrow> bool" where
  "refused e \<longleftrightarrow> e = MalformedPage \<or> (\<exists>n. e = PageTooLarge n)"

text \<open>The occupied levels as the binary digits of a number, lowest level first.\<close>

fun occupancy :: "'a option list \<Rightarrow> nat" where
  "occupancy [] = 0"
| "occupancy (l # ls) = (if l = None then 0 else 1) + 2 * occupancy ls"

lemma occupancy_full: "None \<notin> set ls \<Longrightarrow> occupancy ls + 1 = 2 ^ length ls"
proof (induction ls)
  case (Cons l ls)
  then show ?case by (cases l) auto
qed simp

lemma occupancy_less: "occupancy ls < 2 ^ length ls"
  by (induction ls) auto

lemma occupancy_missing: "occupancy ls + 1 = 2 ^ length ls \<Longrightarrow> None \<notin> set ls"
proof (induction ls)
  case (Cons l ls)
  have "l \<noteq> None"
  proof
    assume "l = None"
    then have "2 * occupancy ls + 1 = 2 * 2 ^ length ls" using Cons.prems by simp
    then show False by presburger
  qed
  with Cons show ?case by auto
qed simp

lemma write_segment_ok:
  assumes "healthy r" "length (page_text r) + MAX_SCRATCH_PAGE_BYTES < 2 ^ 63" "codecs_ok C" "ordered merged" "merged \<noteq> []"
  shows "runs (write_segment H C kind g merged) r
    (\<lambda>s r'. grown r r' \<and> readable H C (page_text r') kind s \<and> record_map (entries_at H C (page_text r') kind s) = map_of merged
       \<and> sf_generation s = g \<and> sf_entry_count s \<noteq> 0)
    (\<lambda>e r'. unmoved r r' \<and> refused e)"
proof -
  let ?es = "map (\<lambda>(k, v). \<lparr>rec_key = k, rec_value = v\<rparr>) merged"
  let ?seg = "\<lparr>sg_schema_version = SCRATCH_PAGE_SCHEMA_VERSION, sg_kind = kind, sg_generation = g, sg_entries = ?es\<rparr>"
  have m: "record_map ?es = map_of merged" by (simp add: record_map_def comp_def case_prod_beta)
  show ?thesis
  proof (cases "validate_segment ?seg")
    case (Inl e)
    then have "e = MalformedPage" by (auto simp: validate_segment_def split: if_splits)
    then show ?thesis using Inl assms(1) by (simp add: write_segment_def Let_def unmoved_refl refused_def)
  next
    case (Inr u)
    let ?ref = "\<lambda>page_ref. \<lparr>sf_generation = g, sf_entry_count = word_of_nat (length ?es), sf_page_ref = page_ref\<rparr>"
    have "runs (append_page H (cd_envelope C) (cd_segment C) kind (rec_key (hd ?es)) (rec_key (last ?es)) ?seg) r
      (\<lambda>page_ref r'. grown r r' \<and> segment_at H C (page_text r') kind (?ref page_ref) = Inr ?seg
         \<and> (word_of_nat (length ?es) :: u64) \<noteq> 0)
      (\<lambda>e r'. unmoved r r' \<and> refused e)"
    proof (rule runs_mono [OF append_page_quiet [OF assms(1,2)]], goal_cases)
      case (3 page_ref r')
      then have at: "page_at H (cd_envelope C) (cd_segment C) (page_text r') page_ref kind = Inr ?seg" by blast
      obtain b where "to_vec (cd_segment C) ?seg = Inr b" "length b < MAX_SCRATCH_PAGE_BYTES"
        using page_at_small [OF at] assms(3) unfolding codecs_ok_def by blast
      then have "length ?es < 2 ^ 28"
        using assms(3) by (fastforce simp: codecs_ok_def segment_codec_def MAX_SCRATCH_PAGE_BYTES_def)
      then have "unat (word_of_nat (length ?es) :: u64) = length ?es" by (simp add: unat_of_nat)
      then have n: "(word_of_nat (length ?es) :: u64) \<noteq> 0" using assms(5) by auto
      have "segment_at H C (page_text r') kind (?ref page_ref) = Inr ?seg"
        using at Inr 3 assms(5) by (simp add: segment_at_def check_segment_def)
      then show ?case using 3 n by simp
    qed (use assms(1,3) in \<open>auto simp: codecs_ok_def segment_codec_def refused_def intro: unmoved_refl\<close>)
    note append = this
    have run: "write_segment H C kind g merged = st_bind (append_page H (cd_envelope C) (cd_segment C) kind (rec_key (hd ?es)) (rec_key (last ?es)) ?seg)
        (\<lambda>page_ref. st_return (?ref page_ref))"
      using Inr by (simp add: write_segment_def Let_def)
    show ?thesis unfolding run
      by (rule runs_bind [OF append]) (use m in \<open>auto dest!: readableI\<close>)
  qed
qed

text \<open>What an insertion into \<open>levels\<close> leaves, and what a refused one does.\<close>

definition carried ::
    "hash \<Rightarrow> 't scratch_codecs \<Rightarrow> 't \<Rightarrow> u64 \<Rightarrow> 'o scratch_run \<Rightarrow> 't scratch_segment_ref option list \<Rightarrow> (bytes \<times> bytes option) list \<Rightarrow>
     't scratch_segment_ref option list \<Rightarrow> 'o scratch_run \<Rightarrow> bool" where
  "carried H C kind g r levels merged levels' r' \<longleftrightarrow>
     grown r r' \<and> length levels' = length levels \<and> occupancy levels' = occupancy levels + 1
     \<and> refs_map H C (page_text r') kind (flatten_levels levels') = refs_map H C (page_text r) kind (flatten_levels levels) ++ map_of merged
     \<and> (\<forall>s \<in> set (flatten_levels levels'). readable H C (page_text r') kind s \<and> sf_generation s \<le> g \<and> sf_entry_count s \<noteq> 0)
     \<and> sorted_wrt (\<lambda>a b. sf_generation b < sf_generation a) (flatten_levels levels')"

definition carry_failed :: "'o scratch_run \<Rightarrow> 't scratch_segment_ref option list \<Rightarrow> scratch_run_error \<Rightarrow> 'o scratch_run \<Rightarrow> bool" where
  "carry_failed r levels e r' \<longleftrightarrow> unmoved r r' \<and> (refused e \<or> e = IndexCapacity \<and> None \<notin> set levels)"

definition below :: "hash \<Rightarrow> 't scratch_codecs \<Rightarrow> 't \<Rightarrow> u64 \<Rightarrow> 'o scratch_run \<Rightarrow> 't scratch_segment_ref option list \<Rightarrow> bool" where
  "below H C kind g r levels \<longleftrightarrow>
     (\<forall>s \<in> set (flatten_levels levels). readable H C (page_text r) kind s \<and> sf_generation s < g \<and> sf_entry_count s \<noteq> 0)
     \<and> sorted_wrt (\<lambda>a b. sf_generation b < sf_generation a) (flatten_levels levels)"

lemma insert_levels_ok:
  assumes "healthy r" "length (page_text r) + MAX_SCRATCH_PAGE_BYTES < 2 ^ 63" "codecs_ok C" "ordered merged" "merged \<noteq> []"
    "below H C kind g r levels"
  shows "runs (insert_levels H C kind g merged levels) r (carried H C kind g r levels merged) (carry_failed r levels)"
  using assms
proof (induction levels arbitrary: r merged)
  case Nil
  then show ?case by (simp add: unmoved_refl carry_failed_def)
next
  case (Cons l levels)
  let ?T = "page_text r"
  show ?case
  proof (cases l)
    case None
    have "runs (st_bind (write_segment H C kind g merged) (\<lambda>s. st_return (Some s # levels))) r
      (carried H C kind g r (l # levels) merged) (carry_failed r (l # levels))"
    proof (rule runs_bind [OF runs_mono [OF write_segment_ok [OF Cons.prems(1-5)]]], assumption, simp add: carry_failed_def, clarify)
      fix s r'
      assume g: "grown r r'" and s: "readable H C (page_text r') kind s" "record_map (entries_at H C (page_text r') kind s) = map_of merged"
        "g = sf_generation s" "sf_entry_count s \<noteq> 0"
      obtain D where "page_text r' = ?T @ D" using g by (auto simp: grown_def)
      then have "refs_map H C (page_text r') kind (flatten_levels levels) = refs_map H C ?T kind (flatten_levels levels)"
        "\<forall>x \<in> set (flatten_levels levels). readable H C (page_text r') kind x"
        using Cons.prems(6) None by (auto intro: refs_map_grown simp: readable_grown below_def)
      then show "runs (st_return (Some s # levels)) r' (carried H C kind (sf_generation s) r (l # levels) merged) (carry_failed r (l # levels))"
        using None Cons.prems(6) g s by (auto simp: carried_def below_def less_imp_le)
    qed
    then show ?thesis using None by simp
  next
    case (Some x)
    have x: "readable H C ?T kind x" using Cons.prems(6) Some by (simp add: below_def)
    have len: "length ?T < 2 ^ 64" using Cons.prems(2) by simp
    have "runs (st_bind (read_segment H C kind x) (\<lambda>old. st_bind (insert_levels H C kind g (merge_older merged (sg_entries old)) levels)
        (\<lambda>levels'. st_return (None # levels')))) r (carried H C kind g r (l # levels) merged) (carry_failed r (l # levels))"
    proof (rule runs_bind [OF runs_mono [OF read_segment_ok [OF Cons.prems(1) len x]]], assumption, simp, clarify)
      fix old r1
      assume old: "segment_at H C ?T kind x = Inr old" "entries_at H C ?T kind x = sg_entries old" and u: "unmoved r r1"
      let ?m = "merge_older merged (sg_entries old)"
      have T: "page_text r1 = ?T" using u by (simp add: unmoved_def)
      have m: "ordered ?m" "map_of ?m = record_map (sg_entries old) ++ map_of merged" "?m \<noteq> []"
        using merge_older_ok [OF Cons.prems(4), of "sg_entries old"] Cons.prems(5) by blast+
      have pre: "healthy r1" "length (page_text r1) + MAX_SCRATCH_PAGE_BYTES < 2 ^ 63" "below H C kind g r1 levels"
        using Cons.prems(2,6) T Some unmoved_healthy [OF u] by (auto simp: below_def)
      have g: "grown r r'" if "grown r1 r'" for r'
        using that u by (auto simp: grown_def unmoved_def)
      show "runs (st_bind (insert_levels H C kind g ?m levels) (\<lambda>levels'. st_return (None # levels'))) r1
        (carried H C kind g r (l # levels) merged) (carry_failed r (l # levels))"
      proof (rule runs_bind [OF runs_mono [OF Cons.IH [OF pre(1,2) Cons.prems(3) m(1,3) pre(3)]]], assumption)
        show "carry_failed r (l # levels) e r'" if "carry_failed r1 levels e r'" for e r'
          using that u Some by (auto simp: carry_failed_def intro: unmoved_trans)
        show "runs (st_return (None # levels')) r' (carried H C kind g r (l # levels) merged) (carry_failed r (l # levels))"
          if "carried H C kind g r1 levels ?m levels' r'" for levels' r'
          using that Some T m(2) old(2) g by (simp add: carried_def)
      qed
    qed
    then show ?thesis using Some by simp
  qed
qed

lemma insert_levels_full:
  assumes "healthy r" "length (page_text r) < 2 ^ 64" "None \<notin> set levels"
    "\<forall>s \<in> set (flatten_levels levels). readable H C (page_text r) kind s"
  shows "runs (insert_levels H C kind g merged levels) r (\<lambda>_ _. False) (\<lambda>e _. e = IndexCapacity)"
  using assms
proof (induction levels arbitrary: r merged)
  case (Cons l levels)
  then obtain x where l: "l = Some x" by (cases l) auto
  have x: "readable H C (page_text r) kind x" using Cons.prems(4) l by simp
  have "runs (st_bind (read_segment H C kind x) (\<lambda>old. st_bind (insert_levels H C kind g (merge_older merged (sg_entries old)) levels)
      (\<lambda>levels'. st_return (None # levels')))) r (\<lambda>_ _. False) (\<lambda>e _. e = IndexCapacity)"
  proof (rule runs_bind [OF runs_mono [OF read_segment_ok [OF Cons.prems(1,2) x]]], assumption, simp, clarify)
    fix old r1 assume "unmoved r r1"
    then show "runs (st_bind (insert_levels H C kind g (merge_older merged (sg_entries old)) levels) (\<lambda>levels'. st_return (None # levels'))) r1
        (\<lambda>_ _. False) (\<lambda>e _. e = IndexCapacity)"
      using Cons.prems by (intro runs_bind [OF Cons.IH]) (auto simp: l unmoved_def)
  qed
  then show ?case by (simp add: l)
qed simp

lemma insert_records_ok:
  assumes "healthy r" "length (page_text r) + MAX_SCRATCH_PAGE_BYTES < 2 ^ 63" "codecs_ok C" "ordered records"
    "lsm_ok H C (page_text r) kind root" "records \<noteq> []"
  shows "runs (insert_many H C root kind records) r
    (\<lambda>root' r'. lr_next_generation root' = lr_next_generation root + 1 \<and> unat (lr_next_generation root) + 1 < 2 ^ 64
       \<and> lsm_ok H C (page_text r') kind root' \<and> carried H C kind (lr_next_generation root + 1) r (lr_levels root) records (lr_levels root') r')
    (carry_failed r (lr_levels root))"
proof (cases "checked_add64 (lr_next_generation root) 1")
  case None
  then show ?thesis using assms(1,6) validate_lsm_root_ok [OF assms(5)]
    by (simp add: insert_many_def carry_failed_def refused_def unmoved_refl)
next
  case (Some g)
  then have g: "g = lr_next_generation root + 1" "unat (lr_next_generation root) + 1 < 2 ^ 64" "lr_next_generation root < g"
    by (auto simp: checked_add64_def word_less_nat_alt unat_word_ariths split: if_splits)
  have "below H C kind g r (lr_levels root)"
    using assms(5) g(3) by (auto simp: below_def lsm_ok_def)
  from insert_levels_ok [OF assms(1-4,6) this]
  have "runs (st_bind (insert_levels H C kind g records (lr_levels root)) (\<lambda>levels. st_return \<lparr>lr_next_generation = g, lr_levels = levels\<rparr>)) r
    (\<lambda>root' r'. lr_next_generation root' = lr_next_generation root + 1 \<and> unat (lr_next_generation root) + 1 < 2 ^ 64
       \<and> lsm_ok H C (page_text r') kind root' \<and> carried H C kind (lr_next_generation root + 1) r (lr_levels root) records (lr_levels root') r')
    (carry_failed r (lr_levels root))"
    by (rule runs_bind) (use assms(5) g in \<open>auto simp: carried_def lsm_ok_def\<close>)
  then show ?thesis using Some assms(6) validate_lsm_root_ok [OF assms(5)] by (simp add: insert_many_def)
qed

end
