(* ===== verification/Scratch_Session.thy ===== *)
theory Scratch_Session
  imports Scratch_Lsm
begin

text \<open>
  \<open>src/scratch.rs\<close>, lookup sessions: a bounded cache of decoded segments in front of the batched lookup, with
  eviction of the least recently used.  A session operation may fail to return, by an eviction loop that does not
  end or by the \<open>expect\<close> on a free slot; it is then \<^const>\<open>None\<close>, and the lemmas show that neither happens.
  The sizes of the decoded values in memory (\<open>size_of\<close> and the capacities of the vectors) are a parameter.
\<close>

section \<open>Sessions\<close>

record session_stats =
  st_hits :: nat
  st_misses :: nat
  st_evictions :: nat
  st_oversize :: nat
  st_resident_bytes :: nat
  st_peak_resident_bytes :: nat

record 't cached_segment =
  cs_segment_ref :: "'t scratch_segment_ref"
  cs_segment :: "'t scratch_segment"
  cs_charge :: nat
  cs_last_access :: u64

record 't session_state =
  ls_run_binding :: digest
  ls_root :: "'t scratch_lsm_root"
  ls_kind_encoding :: bytes
  ls_budget_bytes :: nat
  ls_entries :: "'t cached_segment option list"
  ls_access_clock :: u64
  ls_stats :: session_stats

record memory_layout =
  ml_cached_segment :: nat
  ml_record :: nat
  ml_entries_capacity :: "scratch_record list \<Rightarrow> nat"
  ml_bytes_capacity :: "bytes \<Rightarrow> nat"

definition sat_add :: "nat \<Rightarrow> nat \<Rightarrow> nat" where
  "sat_add a b = min (a + b) (2 ^ 64 - 1)"

definition sat_mul :: "nat \<Rightarrow> nat \<Rightarrow> nat" where
  "sat_mul a b = min (a * b) (2 ^ 64 - 1)"

text \<open>What every operation of a session needs: the hash, the codecs of pages, kinds and markers, the memory sizes.\<close>

record ('t, 'o) session_env =
  se_hash :: hash
  se_codecs :: "'t scratch_codecs"
  se_kind :: "'t serializer"
  se_marker :: "'o scratch_run_marker serializer"
  se_layout :: memory_layout

fun records_charge :: "memory_layout \<Rightarrow> nat \<Rightarrow> scratch_record list \<Rightarrow> nat" where
  "records_charge L charge [] = charge"
| "records_charge L charge (e # es) =
     records_charge L
       (let charge = sat_add charge (ml_bytes_capacity L (rec_key e)) in
        case rec_value e of None \<Rightarrow> charge | Some v \<Rightarrow> sat_add charge (ml_bytes_capacity L v)) es"

definition decoded_segment_charge :: "memory_layout \<Rightarrow> 't scratch_segment_ref \<Rightarrow> 't scratch_segment \<Rightarrow> nat" where
  "decoded_segment_charge L segment_ref segment =
     records_charge L
       (sat_add (sat_add (sat_add (ml_cached_segment L) (ml_bytes_capacity L (pg_key_min (sf_page_ref segment_ref))))
          (ml_bytes_capacity L (pg_key_max (sf_page_ref segment_ref))))
          (sat_mul (ml_entries_capacity L (sg_entries segment)) (ml_record L)))
       (sg_entries segment)"

definition lookup_session ::
    "('t, 'o) session_env \<Rightarrow> 't scratch_lsm_root \<Rightarrow> 't \<Rightarrow> nat \<Rightarrow> 'o scratch_run \<Rightarrow> scratch_run_error + 't session_state" where
  "lookup_session V root kind budget_bytes r =
     bind_res (validate_lsm_root root) (\<lambda>_.
     bind_res (binding_digest (se_hash V) (se_marker V) r) (\<lambda>binding.
     bind_res (encode_page_canonical (se_kind V) kind) (\<lambda>kind_encoding.
     Inr \<lparr>ls_run_binding = binding, ls_root = root, ls_kind_encoding = kind_encoding, ls_budget_bytes = budget_bytes,
       ls_entries = replicate SCRATCH_LSM_LEVELS None, ls_access_clock = 0,
       ls_stats = \<lparr>st_hits = 0, st_misses = 0, st_evictions = 0, st_oversize = 0, st_resident_bytes = 0, st_peak_resident_bytes = 0\<rparr>\<rparr>)))"

definition next_access :: "'t session_state \<Rightarrow> u64 \<times> 't session_state" where
  "next_access s = (let clock = saturating_add64 (ls_access_clock s) 1 in (clock, s\<lparr>ls_access_clock := clock\<rparr>))"

text \<open>\<open>min_by_key\<close> over the occupied slots: the first slot with the smallest access time.\<close>

fun least_recent :: "nat \<Rightarrow> 't cached_segment option list \<Rightarrow> (nat \<times> u64) option" where
  "least_recent i [] = None"
| "least_recent i (None # es) = least_recent (Suc i) es"
| "least_recent i (Some e # es) =
     (case least_recent (Suc i) es of
        None \<Rightarrow> Some (i, cs_last_access e)
      | Some (j, a) \<Rightarrow> if a < cs_last_access e then Some (j, a) else Some (i, cs_last_access e))"

definition evict_lru :: "'t session_state \<Rightarrow> 't session_state" where
  "evict_lru s =
     (case least_recent 0 (ls_entries s) of
        None \<Rightarrow> s
      | Some (index, _) \<Rightarrow>
          (case ls_entries s ! index of
             None \<Rightarrow> s
           | Some evicted \<Rightarrow>
               s\<lparr>ls_entries := (ls_entries s)[index := None],
                 ls_stats := (ls_stats s)\<lparr>st_resident_bytes := st_resident_bytes (ls_stats s) - cs_charge evicted,
                   st_evictions := sat_add (st_evictions (ls_stats s)) 1\<rparr>\<rparr>))"

partial_function (option) make_room :: "nat \<Rightarrow> 't session_state \<Rightarrow> 't session_state option" where
  "make_room charge s =
     (if ls_budget_bytes s < sat_add (st_resident_bytes (ls_stats s)) charge then make_room charge (evict_lru s)
      else Some s)"

declare make_room.simps [code]

fun position_of :: "('a \<Rightarrow> bool) \<Rightarrow> 'a list \<Rightarrow> nat option" where
  "position_of P [] = None"
| "position_of P (x # xs) = (if P x then Some 0 else map_option Suc (position_of P xs))"

definition caches :: "'t scratch_segment_ref \<Rightarrow> 't cached_segment option \<Rightarrow> bool" where
  "caches segment_ref e = (case e of None \<Rightarrow> False | Some c \<Rightarrow> cs_segment_ref c = segment_ref)"

section \<open>Reading through a session\<close>

text \<open>The admission of a segment that was read: the slots after the evictions.\<close>

definition admit_segment ::
    "nat \<Rightarrow> 't scratch_segment_ref \<Rightarrow> 't scratch_segment \<Rightarrow> 't session_state \<Rightarrow> 't session_state option" where
  "admit_segment charge segment_ref segment s =
     Option.bind (make_room charge s) (\<lambda>s.
     let s = (if None \<notin> set (ls_entries s) then evict_lru s else s) in
     case position_of (\<lambda>e. e = None) (ls_entries s) of
       None \<Rightarrow> None
     | Some index \<Rightarrow>
         let (access, s) = next_access s;
             resident = sat_add (st_resident_bytes (ls_stats s)) charge in
         Some (s\<lparr>ls_entries := (ls_entries s)[index := Some \<lparr>cs_segment_ref = segment_ref, cs_segment = segment, cs_charge = charge, cs_last_access = access\<rparr>],
           ls_stats := (ls_stats s)\<lparr>st_resident_bytes := resident, st_peak_resident_bytes := max (st_peak_resident_bytes (ls_stats s)) resident\<rparr>\<rparr>))"

definition count_hit :: "nat \<Rightarrow> 't cached_segment \<Rightarrow> 't session_state \<Rightarrow> 't session_state" where
  "count_hit index cached s =
     (let (access, s) = next_access s in
      s\<lparr>ls_entries := (ls_entries s)[index := Some (cached\<lparr>cs_last_access := access\<rparr>)],
        ls_stats := (ls_stats s)\<lparr>st_hits := sat_add (st_hits (ls_stats s)) 1\<rparr>\<rparr>)"

type_synonym ('t, 'o, 'a) session_result = "((scratch_run_error + 'a) \<times> 't session_state \<times> 'o scratch_run) option"

definition read_segment_with_session ::
    "('t, 'o) session_env \<Rightarrow> 't \<Rightarrow> 't scratch_segment_ref \<Rightarrow> 't session_state \<Rightarrow> 'o scratch_run \<Rightarrow> ('t, 'o, 't scratch_segment) session_result" where
  "read_segment_with_session V kind segment_ref s r =
     (case position_of (caches segment_ref) (ls_entries s) of
        Some index \<Rightarrow>
          (case ls_entries s ! index of
             None \<Rightarrow> None
           | Some cached \<Rightarrow> Some (Inr (cs_segment cached), count_hit index cached s, r))
      | None \<Rightarrow>
          let s = s\<lparr>ls_stats := (ls_stats s)\<lparr>st_misses := sat_add (st_misses (ls_stats s)) 1\<rparr>\<rparr> in
          (case read_segment (se_hash V) (se_codecs V) kind segment_ref r of
             (Inl e, r) \<Rightarrow> Some (Inl e, s, r)
           | (Inr segment, r) \<Rightarrow>
               let charge = decoded_segment_charge (se_layout V) segment_ref segment in
               if ls_budget_bytes s < charge
               then Some (Inr segment, s\<lparr>ls_stats := (ls_stats s)\<lparr>st_oversize := sat_add (st_oversize (ls_stats s)) 1\<rparr>\<rparr>, r)
               else map_option (\<lambda>s. (Inr segment, s, r)) (admit_segment charge segment_ref segment s)))"

fun session_segments ::
    "('t, 'o) session_env \<Rightarrow> 't \<Rightarrow> bytes list \<Rightarrow> 't scratch_segment_ref list \<Rightarrow> answers \<Rightarrow> 't session_state \<Rightarrow> 'o scratch_run \<Rightarrow>
     ('t, 'o, bytes option list) session_result" where
  "session_segments V kind ks [] (vals, resolved) s r = Some (Inr vals, s, r)"
| "session_segments V kind ks (segment_ref # rest) (vals, resolved) s r =
     (let selected = selected_keys ks resolved segment_ref in
      if selected = [] then session_segments V kind ks rest (vals, resolved) s r
      else
        (case read_segment_with_session V kind segment_ref s r of
           None \<Rightarrow> None
         | Some (Inl e, s, r) \<Rightarrow> Some (Inl e, s, r)
         | Some (Inr segment, s, r) \<Rightarrow>
             session_segments V kind ks rest (resolve_selected ks (sg_entries segment) selected (vals, resolved)) s r))"

definition check_session ::
    "('t, 'o) session_env \<Rightarrow> 't scratch_lsm_root \<Rightarrow> 't \<Rightarrow> 't session_state \<Rightarrow> 'o scratch_run \<Rightarrow> scratch_run_error + unit" where
  "check_session V root kind s r =
     bind_res (validate_lsm_root root) (\<lambda>_.
     bind_res (binding_digest (se_hash V) (se_marker V) r) (\<lambda>binding.
     if ls_run_binding s \<noteq> binding \<or> ls_root s \<noteq> root then Inl PageBindingMismatch
     else
       bind_res (encode_page_canonical (se_kind V) kind) (\<lambda>kind_encoding.
       if ls_kind_encoding s \<noteq> kind_encoding then Inl PageBindingMismatch else Inr ())))"

definition lookup_many_with_session ::
    "('t, 'o) session_env \<Rightarrow> 't scratch_lsm_root \<Rightarrow> 't \<Rightarrow> bytes list \<Rightarrow> scratch_run_error + bool list \<Rightarrow>
     't session_state \<Rightarrow> 'o scratch_run \<Rightarrow> ('t, 'o, bytes option list) session_result" where
  "lookup_many_with_session V root kind ks absence_policy s r =
     (case check_session V root kind s r of
        Inl e \<Rightarrow> Some (Inl e, s, r)
      | Inr _ \<Rightarrow>
          if ks = [] then Some (Inr [], s, r)
          else
            (case absence_policy of
               Inl e \<Rightarrow> Some (Inl e, s, r)
             | Inr known_absent \<Rightarrow>
                 if length known_absent \<noteq> length ks then Some (Inl MalformedPage, s, r)
                 else session_segments V kind ks (newest_first root) (replicate (length ks) None, known_absent) s r))"

section \<open>What a session promises\<close>

text \<open>
  Every cached segment is the one its reference names, the resident bytes are the sum of the charges, and they
  stay within the budget.
\<close>

definition charge_of :: "'t cached_segment option \<Rightarrow> nat" where
  "charge_of e = (case e of None \<Rightarrow> 0 | Some c \<Rightarrow> cs_charge c)"

definition session_ok :: "('t, 'o) session_env \<Rightarrow> bytes \<Rightarrow> 't \<Rightarrow> 't session_state \<Rightarrow> bool" where
  "session_ok V T kind s \<longleftrightarrow>
     length (ls_entries s) = SCRATCH_LSM_LEVELS
     \<and> (\<forall>c. Some c \<in> set (ls_entries s) \<longrightarrow> segment_at (se_hash V) (se_codecs V) T kind (cs_segment_ref c) = Inr (cs_segment c))
     \<and> st_resident_bytes (ls_stats s) = sum_list (map charge_of (ls_entries s))
     \<and> st_resident_bytes (ls_stats s) \<le> ls_budget_bytes s
     \<and> st_peak_resident_bytes (ls_stats s) \<le> ls_budget_bytes s
     \<and> ls_budget_bytes s < 2 ^ 64 - 1"

text \<open>The part of a session no operation changes.\<close>

definition same_session :: "'t session_state \<Rightarrow> 't session_state \<Rightarrow> bool" where
  "same_session s s' \<longleftrightarrow> ls_run_binding s' = ls_run_binding s \<and> ls_root s' = ls_root s \<and> ls_kind_encoding s' = ls_kind_encoding s
     \<and> ls_budget_bytes s' = ls_budget_bytes s"

lemma same_session_refl [simp]: "same_session s s"
  by (simp add: same_session_def)

lemma same_session_trans: "same_session s s' \<Longrightarrow> same_session s' s'' \<Longrightarrow> same_session s s''"
  by (simp add: same_session_def)

lemma least_recent_Some:
  "least_recent i es = Some (j, a) \<Longrightarrow> i \<le> j \<and> j < i + length es \<and> (\<exists>c. es ! (j - i) = Some c)"
proof (induction i es arbitrary: j a rule: least_recent.induct)
  case (2 i es)
  then have "Suc i \<le> j" "j < Suc i + length es" "\<exists>c. es ! (j - Suc i) = Some c" by fastforce+
  then show ?case by (auto simp: nth_Cons' Suc_diff_Suc)
next
  case (3 i e es)
  show ?case
  proof (cases "j = i")
    case False
    then have "least_recent (Suc i) es = Some (j, a)" using 3(2) by (auto split: option.splits prod.splits if_splits)
    then have "Suc i \<le> j" "j < Suc i + length es" "\<exists>c. es ! (j - Suc i) = Some c" using 3(1) by fastforce+
    then show ?thesis by (auto simp: nth_Cons' Suc_diff_Suc)
  qed simp
qed simp

lemma least_recent_None: "least_recent i es = None \<longleftrightarrow> set es \<subseteq> {None}"
  by (induction i es rule: least_recent.induct) (auto split: option.splits prod.splits)

definition filled :: "'t session_state \<Rightarrow> nat" where
  "filled s = length (filter (\<lambda>e. e \<noteq> None) (ls_entries s))"

lemma filter_clear: "i < length es \<Longrightarrow> es ! i \<noteq> None \<Longrightarrow> length (filter (\<lambda>e. e \<noteq> None) (es[i := None])) < length (filter (\<lambda>e. e \<noteq> None) es)"
proof (induction es arbitrary: i)
  case (Cons e es)
  then show ?case by (cases i) auto
qed simp

lemma evict_lru_ok:
  assumes "session_ok V T kind s" "\<not> set (ls_entries s) \<subseteq> {None}"
  shows "session_ok V T kind (evict_lru s) \<and> same_session s (evict_lru s) \<and> filled (evict_lru s) < filled s
    \<and> None \<in> set (ls_entries (evict_lru s)) \<and> st_resident_bytes (ls_stats (evict_lru s)) \<le> st_resident_bytes (ls_stats s)"
proof -
  obtain i a where i: "least_recent 0 (ls_entries s) = Some (i, a)"
    using assms(2) least_recent_None [of 0 "ls_entries s"] by (cases "least_recent 0 (ls_entries s)") auto
  then obtain c where c: "i < length (ls_entries s)" "ls_entries s ! i = Some c"
    using least_recent_Some by fastforce
  have sum: "sum_list (map charge_of ((ls_entries s)[i := None])) = sum_list (map charge_of (ls_entries s)) - cs_charge c"
    using c by (simp add: map_update sum_list_update charge_of_def)
  have evict: "evict_lru s = s\<lparr>ls_entries := (ls_entries s)[i := None],
      ls_stats := (ls_stats s)\<lparr>st_resident_bytes := st_resident_bytes (ls_stats s) - cs_charge c,
        st_evictions := sat_add (st_evictions (ls_stats s)) 1\<rparr>\<rparr>"
    using i c(2) by (simp add: evict_lru_def)
  have "filled (evict_lru s) < filled s" using filter_clear [of i "ls_entries s"] c by (simp add: filled_def evict)
  moreover have "session_ok V T kind (evict_lru s)"
    using assms(1) sum c by (auto simp: session_ok_def evict dest!: set_update_subset_insert [THEN subsetD])
  ultimately show ?thesis using c(1) by (simp add: evict same_session_def set_update_memI)
qed

lemma empty_resident: "set es \<subseteq> {None} \<Longrightarrow> sum_list (map charge_of es) = 0"
  by (induction es) (auto simp: charge_of_def)

lemma make_room_ok:
  assumes "session_ok V T kind s" "charge \<le> ls_budget_bytes s"
  shows "\<exists>s'. make_room charge s = Some s' \<and> session_ok V T kind s' \<and> same_session s s' \<and> st_resident_bytes (ls_stats s') + charge \<le> ls_budget_bytes s"
  using assms
proof (induction "filled s" arbitrary: s rule: less_induct)
  case less
  show ?case
  proof (cases "ls_budget_bytes s < sat_add (st_resident_bytes (ls_stats s)) charge")
    case False
    then have "st_resident_bytes (ls_stats s) + charge \<le> ls_budget_bytes s"
      using less.prems(1) by (auto simp: sat_add_def session_ok_def)
    then show ?thesis using False less.prems(1) by (subst make_room.simps) simp
  next
    case True
    have "\<not> set (ls_entries s) \<subseteq> {None}"
    proof
      assume "set (ls_entries s) \<subseteq> {None}"
      then have "st_resident_bytes (ls_stats s) = 0" using less.prems(1) empty_resident by (simp add: session_ok_def)
      then show False using True less.prems(2) by (simp add: sat_add_def)
    qed
    note e = evict_lru_ok [OF less.prems(1) this]
    then have "charge \<le> ls_budget_bytes (evict_lru s)" using less.prems(2) by (simp add: same_session_def)
    with less.hyps [of "evict_lru s"] e obtain s' where "make_room charge (evict_lru s) = Some s'" "session_ok V T kind s'"
        "same_session (evict_lru s) s'" "st_resident_bytes (ls_stats s') + charge \<le> ls_budget_bytes (evict_lru s)" by blast
    then show ?thesis using True e
      by (subst make_room.simps) (auto simp: same_session_def)
  qed
qed

lemma position_of_Some: "position_of P xs = Some i \<Longrightarrow> i < length xs \<and> P (xs ! i)"
  by (induction xs arbitrary: i) (auto split: if_splits)

lemma position_of_None: "position_of P xs = None \<longleftrightarrow> (\<forall>x \<in> set xs. \<not> P x)"
  by (induction xs) auto

lemma admit_segment_ok:
  assumes "session_ok V T kind s" "charge \<le> ls_budget_bytes s" "segment_at (se_hash V) (se_codecs V) T kind segment_ref = Inr segment"
  shows "\<exists>s'. admit_segment charge segment_ref segment s = Some s' \<and> session_ok V T kind s' \<and> same_session s s'"
proof -
  obtain s1 where s1: "make_room charge s = Some s1" "session_ok V T kind s1" "same_session s s1"
      "st_resident_bytes (ls_stats s1) + charge \<le> ls_budget_bytes s"
    using make_room_ok [OF assms(1,2)] by blast
  define s2 where "s2 = (if None \<notin> set (ls_entries s1) then evict_lru s1 else s1)"
  have s2: "session_ok V T kind s2" "same_session s s2" "st_resident_bytes (ls_stats s2) + charge \<le> ls_budget_bytes s"
    "None \<in> set (ls_entries s2)"
  proof -
    have "\<not> set (ls_entries s1) \<subseteq> {None}" if "None \<notin> set (ls_entries s1)"
      using that s1(2) by (cases "ls_entries s1") (auto simp: session_ok_def SCRATCH_LSM_LEVELS_def)
    note e = evict_lru_ok [OF s1(2) this]
    show "session_ok V T kind s2" "same_session s s2" "st_resident_bytes (ls_stats s2) + charge \<le> ls_budget_bytes s"
      "None \<in> set (ls_entries s2)"
      using e s1 by (auto simp: s2_def intro: same_session_trans elim: order_trans [rotated])
  qed
  obtain i where i: "position_of (\<lambda>e. e = None) (ls_entries s2) = Some i"
    using s2(4) position_of_None [of "\<lambda>e. e = None" "ls_entries s2"] by (cases "position_of (\<lambda>e. e = None) (ls_entries s2)") auto
  then have i': "i < length (ls_entries s2)" "ls_entries s2 ! i = None" using position_of_Some by fastforce+
  have b: "ls_budget_bytes s2 = ls_budget_bytes s" "ls_budget_bytes s < 2 ^ 64 - 1" using s2(1,2) by (auto simp: same_session_def session_ok_def)
  have sat: "sat_add (st_resident_bytes (ls_stats s2)) charge = st_resident_bytes (ls_stats s2) + charge"
    using s2(3) b(2) by (simp add: sat_add_def)
  let ?c = "\<lambda>a. Some \<lparr>cs_segment_ref = segment_ref, cs_segment = segment, cs_charge = charge, cs_last_access = a\<rparr>"
  have sum: "sum_list (map charge_of ((ls_entries s2)[i := ?c a])) = sum_list (map charge_of (ls_entries s2)) + charge" for a
    using i' by (simp add: map_update sum_list_update charge_of_def)
  show ?thesis
    using s1(1) s2 i b(1) sat sum assms(3)
    by (auto simp: admit_segment_def s2_def [symmetric] next_access_def Let_def session_ok_def same_session_def dest!: set_update_subset_insert [THEN subsetD])
qed

lemma read_with_session_ok:
  assumes "healthy r" "length (page_text r) < 2 ^ 64" "session_ok V (page_text r) kind s"
    "readable (se_hash V) (se_codecs V) (page_text r) kind segment_ref"
  shows "\<exists>seg s' r'. read_segment_with_session V kind segment_ref s r = Some (Inr seg, s', r')
    \<and> segment_at (se_hash V) (se_codecs V) (page_text r) kind segment_ref = Inr seg
    \<and> session_ok V (page_text r) kind s' \<and> same_session s s' \<and> unmoved r r'"
proof (cases "position_of (caches segment_ref) (ls_entries s)")
  case (Some i)
  then have "i < length (ls_entries s)" "caches segment_ref (ls_entries s ! i)" using position_of_Some by fastforce+
  then obtain c where c: "i < length (ls_entries s)" "ls_entries s ! i = Some c" "cs_segment_ref c = segment_ref"
    by (auto simp: caches_def split: option.splits)
  have mem: "Some c \<in> set (ls_entries s)" using c(1,2) nth_mem by metis
  have sum: "sum_list (map charge_of ((ls_entries s)[i := Some (c\<lparr>cs_last_access := a\<rparr>)])) = sum_list (map charge_of (ls_entries s))" for a
    using c by (simp add: map_update sum_list_update charge_of_def)
  have "session_ok V (page_text r) kind (count_hit i c s)" "same_session s (count_hit i c s)"
    using assms(3) mem sum
    by (auto simp: count_hit_def next_access_def Let_def session_ok_def same_session_def dest!: set_update_subset_insert [THEN subsetD])
  moreover have "segment_at (se_hash V) (se_codecs V) (page_text r) kind segment_ref = Inr (cs_segment c)"
    using assms(3) mem c(3) by (auto simp: session_ok_def)
  ultimately show ?thesis using Some c(2) unmoved_refl [OF assms(1)] by (simp add: read_segment_with_session_def)
next
  case None
  let ?s = "s\<lparr>ls_stats := (ls_stats s)\<lparr>st_misses := sat_add (st_misses (ls_stats s)) 1\<rparr>\<rparr>"
  obtain seg where seg: "segment_at (se_hash V) (se_codecs V) (page_text r) kind segment_ref = Inr seg"
    using assms(4) by (rule readableE)
  obtain r' where r': "read_segment (se_hash V) (se_codecs V) kind segment_ref r = (Inr seg, r')" "unmoved r r'"
    using read_segment_quiet [OF assms(1,2), of "se_hash V" "se_codecs V" kind segment_ref] seg by auto
  let ?charge = "decoded_segment_charge (se_layout V) segment_ref seg"
  have ok: "session_ok V (page_text r) kind ?s" "same_session s ?s"
    using assms(3) by (simp_all add: session_ok_def same_session_def)
  show ?thesis
  proof (cases "ls_budget_bytes s < ?charge")
    case True
    then show ?thesis using None r' ok seg
      by (simp add: read_segment_with_session_def Let_def session_ok_def same_session_def)
  next
    case False
    then obtain s' where "admit_segment ?charge segment_ref seg ?s = Some s'" "session_ok V (page_text r) kind s'" "same_session ?s s'"
      using admit_segment_ok [OF ok(1), of ?charge segment_ref seg] seg by auto
    then show ?thesis using None r' seg False same_session_trans [OF ok(2)]
      by (simp add: read_segment_with_session_def Let_def)
  qed
qed

text \<open>
  The loop over the segments answers what the loop without a session answers, and leaves the session and the run in
  order.
\<close>

lemma session_segments_ok:
  assumes "healthy r" "length (page_text r) < 2 ^ 64" "session_ok V (page_text r) kind s"
    "\<forall>x \<in> set refs. readable (se_hash V) (se_codecs V) (page_text r) kind x"
    "lookup_many_segments (se_hash V) (se_codecs V) kind ks refs a r1 = (Inr vs, r2)" "page_text r1 = page_text r" "healthy r1"
  shows "\<exists>s' r'. session_segments V kind ks refs a s r = Some (Inr vs, s', r') \<and> session_ok V (page_text r) kind s'
    \<and> same_session s s' \<and> unmoved r r'"
  using assms
proof (induction refs arbitrary: s r r1 a)
  case Nil
  then show ?case by (cases a) (simp add: st_return_def unmoved_refl)
next
  case (Cons x refs)
  obtain vals resolved where a: "a = (vals, resolved)" by force
  let ?H = "se_hash V" and ?C = "se_codecs V" and ?sel = "selected_keys ks resolved x"
  show ?case
  proof (cases "?sel = []")
    case True
    then show ?thesis using Cons.IH [of r s a r1] Cons.prems by (simp add: a)
  next
    case False
    have x: "readable ?H ?C (page_text r) kind x" using Cons.prems(4) by simp
    obtain seg s1 r' where first: "read_segment_with_session V kind x s r = Some (Inr seg, s1, r')"
        "segment_at ?H ?C (page_text r) kind x = Inr seg" "session_ok V (page_text r) kind s1" "same_session s s1" "unmoved r r'"
      using read_with_session_ok [OF Cons.prems(1-3) x] by blast
    obtain r1' where second: "read_segment ?H ?C kind x r1 = (Inr seg, r1')" "unmoved r1 r1'"
      using read_segment_quiet [of r1 ?H ?C kind x] Cons.prems(2,6,7) first(2) by auto
    let ?a = "resolve_selected ks (sg_entries seg) ?sel a"
    have "lookup_many_segments ?H ?C kind ks refs ?a r1' = (Inr vs, r2)"
      using Cons.prems(5) second(1) False by (simp add: a Let_def st_bind_def)
    moreover have "page_text r' = page_text r" "healthy r'" "page_text r1' = page_text r" "healthy r1'"
      using first(5) second(2) Cons.prems(6) by (simp_all add: unmoved_def)
    ultimately obtain s' r'' where "session_segments V kind ks refs ?a s1 r' = Some (Inr vs, s', r'')"
        "session_ok V (page_text r) kind s'" "same_session s1 s'" "unmoved r' r''"
      using Cons.IH [of r' s1 ?a r1'] Cons.prems(2,4) first(3) by auto
    then show ?thesis using first False by (auto simp: a Let_def intro: same_session_trans unmoved_trans)
  qed
qed

lemma lookup_session_ok:
  assumes "lookup_session V root kind budget r = Inr s" "budget < 2 ^ 64 - 1"
  shows "session_ok V T kind s \<and> check_session V root kind s r = Inr () \<and> ls_budget_bytes s = budget"
  using assms
  by (auto simp: lookup_session_def bind_res_Inr session_ok_def check_session_def charge_of_def SCRATCH_LSM_LEVELS_def sum_list_replicate)

lemma check_session_same:
  "check_session V root kind s r = Inr () \<Longrightarrow> same_session s s' \<Longrightarrow> run_marker r' = run_marker r \<Longrightarrow> check_session V root kind s' r' = Inr ()"
  by (auto simp: check_session_def same_session_def binding_digest_def bind_res_Inr split: if_splits)

lemma session_ok_grown:
  assumes "session_ok V (page_text r) kind s" "grown r r'" shows "session_ok V (page_text r') kind s"
proof -
  obtain D where "page_text r' = page_text r @ D" using assms(2) by (auto simp: grown_def)
  then show ?thesis using assms(1) by (auto simp: session_ok_def intro: segment_at_grown)
qed

lemma lookup_many_with_session_ok:
  assumes "healthy r" "length (page_text r) < 2 ^ 64" "lsm_ok (se_hash V) (se_codecs V) (page_text r) kind root"
    "session_ok V (page_text r) kind s" "check_session V root kind s r = Inr ()" "length absent = length ks"
  shows "\<exists>s' r'. lookup_many_with_session V root kind ks (Inr absent) s r =
      Some (Inr (map (\<lambda>(key, known). if known then None else visible (lsm_map (se_hash V) (se_codecs V) (page_text r) kind root) key) (zip ks absent)), s', r')
    \<and> session_ok V (page_text r') kind s' \<and> check_session V root kind s' r' = Inr () \<and> ls_budget_bytes s' = ls_budget_bytes s \<and> unmoved r r'"
proof -
  let ?H = "se_hash V" and ?C = "se_codecs V"
  let ?vs = "map (\<lambda>(key, known). if known then None else visible (lsm_map ?H ?C (page_text r) kind root) key) (zip ks absent)"
  show ?thesis
  proof (cases "ks = []")
    case True
    then show ?thesis using assms unmoved_refl [OF assms(1)] by (simp add: lookup_many_with_session_def)
  next
    case False
    have refs: "newest_first root = flatten_levels (lr_levels root)" using newest_first_levels [OF assms(3)] by simp
    obtain r1 where "lookup_many_with_absence_policy ?H ?C root kind ks (Inr absent) r = (Inr ?vs, r1)"
    proof (cases "lookup_many_with_absence_policy ?H ?C root kind ks (Inr absent) r")
      case (Pair x r1)
      then show thesis using that lookup_many_policy_ok [OF assms(1-3,6)] by (cases x) (auto simp: runs_def)
    qed
    then have "lookup_many_segments ?H ?C kind ks (newest_first root) (replicate (length ks) None, absent) r = (Inr ?vs, r1)"
      using False assms(6) validate_lsm_root_ok [OF assms(3)] by (simp add: lookup_many_with_absence_policy_def)
    from session_segments_ok [OF assms(1,2,4) _ this refl assms(1)]
    obtain s' r' where "session_segments V kind ks (newest_first root) (replicate (length ks) None, absent) s r = Some (Inr ?vs, s', r')"
      "session_ok V (page_text r) kind s'" "same_session s s'" "unmoved r r'"
      using assms(3) refs by (auto simp: lsm_ok_def)
    then show ?thesis using assms(5,6) False check_session_same [OF assms(5)]
      by (auto simp: lookup_many_with_session_def unmoved_def same_session_def)
  qed
qed

end
