(* ===== verification/Scratch_Properties.thy ===== *)
theory Scratch_Properties
  imports Scratch_Session
begin

text \<open>
  What the scratch run promises: references stay good while the run grows, an insertion refines an update of
  the map a root holds and leaves the older roots alone, the reads are exact, a session answers like the plain
  lookup within its budget, and the levels count the insertions.
\<close>

section \<open>Blobs\<close>

text \<open>C23.
  A blob that was appended is read back exactly, whatever was appended after it; only an empty or too
  large blob is refused.
\<close>

theorem blob_reads_back:
  assumes "healthy r" "length (blob_text r) + MAX_SCRATCH_BLOB_BYTES < 2 ^ 63"
    "append_blob H data r = (Inr blob_ref, r1)" "grown r1 r2" "length (blob_text r2) < 2 ^ 64"
  shows "\<exists>r3. read_blob H blob_ref r2 = (Inr data, r3) \<and> unmoved r2 r3"
proof -
  have "grown r r1" "blob_at H (blob_text r1) blob_ref = Inr data"
    using runs_Inr [OF append_blob_quiet [OF assms(1,2)] assms(3)] by blast+
  moreover obtain D where "blob_text r2 = blob_text r1 @ D" using assms(4) by (auto simp: grown_def)
  ultimately have "blob_at H (blob_text r2) blob_ref = Inr data" by (simp add: blob_at_grown)
  moreover have "healthy r2" using assms(4) by (simp add: grown_def)
  ultimately show ?thesis using read_blob_quiet [of r2 H blob_ref] assms(5) by simp
qed

text \<open>C40.
  After a flush that failed half way, the retry puts every buffered record behind the torn bytes: a blob whose
  append was acknowledged is then no longer where its reference says, and every read of it is refused.
\<close>

theorem retried_flush_moves_records:
  assumes "healthy r" "fl_pending (run_blobs r) = []" "length (blob_text r) + MAX_SCRATCH_BLOB_BYTES < 2 ^ 63"
    "append_blob H data r = (Inr blob_ref, r1)" "length data \<le> SCRATCH_APPEND_BUFFER_BYTES" "0 < n" "n < length data"
    "H (take n data @ take (length data - n) data) \<noteq> H data"
    "r2 = r1\<lparr>run_blobs := (run_blobs r1)\<lparr>fl_faults := [None, Some (e, n)]\<rparr>\<rparr>"
  shows "\<exists>r3 r4. read_blob H blob_ref r2 = (Inl (ScratchIo e), r3)
    \<and> read_blob H blob_ref r3 = (Inl (BlobDigestMismatch (H data)), r4) \<and> blob_text r4 = blob_text r @ take n data @ data"
proof -
  let ?B = "blob_text r" and ?f = "run_blobs r"
  have small: "length data \<le> MAX_SCRATCH_BLOB_BYTES" "data \<noteq> []" "length data < 2 ^ 32"
    using assms(5,6,7) by (auto simp: SCRATCH_APPEND_BUFFER_BYTES_def MAX_SCRATCH_BLOB_BYTES_def)
  have B: "?B = fl_bytes ?f" "fl_faults ?f = []" "fl_committed_len ?f = length ?B"
    using assms(1,2) by (auto simp: blob_text_def contents_def healthy_def settled_def)
  have "append_bytes data ?f = (Inr (length ?B), ?f\<lparr>fl_pending := data\<rparr>)"
    using assms(2,3,5) B by (simp add: append_bytes_def checked_add_def st_bind_def st_return_def)
  then have r1: "r1 = r\<lparr>run_blobs := ?f\<lparr>fl_pending := data\<rparr>\<rparr>"
    "blob_ref = \<lparr>bl_offset = word_of_nat (length ?B), bl_encoded_len = word_of_nat (length data), bl_digest = H data\<rparr>"
    using assms(4) small by (simp_all add: append_blob_def encoded_length_def on_blobs_def st_bind_def st_lift_def st_return_def)
  define r3 where "r3 = r\<lparr>run_blobs := ?f\<lparr>fl_faults := [], fl_bytes := ?B @ take n data, fl_committed_len := length ?B, fl_pending := data\<rparr>\<rparr>"
  have len: "unat (word_of_nat (length data) :: u32) = length data" "unat (word_of_nat (length ?B) :: u64) = length ?B"
    using small(3) assms(3) by (simp_all add: unat_of_nat)
  have f2: "flush_pending (run_blobs r2) = (Inl (ScratchIo e), run_blobs r3)"
    using failed_flush [of "run_blobs r2" e n] small(2) B by (simp add: assms(9) r1(1) r3_def)
  have first: "read_blob H blob_ref r2 = (Inl (ScratchIo e), r3)"
    using small len f2 by (simp add: read_blob_def r1(2) on_blobs_def with_file_def st_bind_def Let_def)
      (simp add: assms(9) r1(1) r3_def)
  let ?g = "run_blobs r3"
  let ?C = "?B @ take n data @ data"
  have flush: "flush_pending ?g = (Inr (), bump_batches (?g\<lparr>fl_bytes := ?C, fl_committed_len := length ?C, fl_pending := []\<rparr>))"
    using small(1,2) assms(3,7)
    by (simp add: flush_pending_def r3_def write_committed_quiet st_bind_def add.assoc)
  have seen: "range_of (length ?B) (length ?B + length data) ?C = take n data @ take (length data - n) data"
    using assms(7) by (simp add: range_of_append range_of_def)
  have "\<exists>r4. read_blob H blob_ref r3 = (Inl (BlobDigestMismatch (H data)), r4) \<and> blob_text r4 = ?C"
    using small len flush seen assms(3,7,8)
    by (simp add: read_blob_def r1(2) on_blobs_def with_file_def read_exact_at_def st_bind_def st_lift_def Let_def
        file_call_quiet seek_end_def bump_batches_def blob_text_def contents_def r3_def)
  then show ?thesis using first by blast
qed

section \<open>The index\<close>

text \<open>
  A root in a run: the run is healthy, has room for one more page, and the root is in order on its page text.
\<close>

definition holds_root :: "hash \<Rightarrow> 't scratch_codecs \<Rightarrow> 't \<Rightarrow> 't scratch_lsm_root \<Rightarrow> 'o scratch_run \<Rightarrow> bool" where
  "holds_root H C kind root r \<longleftrightarrow>
     healthy r \<and> length (page_text r) + MAX_SCRATCH_PAGE_BYTES < 2 ^ 63 \<and> lsm_ok H C (page_text r) kind root"

lemma default_root_ok: "lsm_ok H C T kind default_lsm_root \<and> lsm_map H C T kind default_lsm_root = Map.empty"
  by (simp add: lsm_ok_def lsm_map_def default_lsm_root_def)

text \<open>C6.
  An insertion refines the update of the map the root holds: the new root holds the old map overridden by the
  records (deletions included).  Every root that was in order before, the old one in particular, still holds
  what it held.  A refused insertion changes nothing that can be read.
\<close>

theorem insert_many_refines:
  assumes "holds_root H C kind root r" "codecs_ok C" "ordered records"
  shows "case insert_many H C root kind records r of
      (Inr root', r') \<Rightarrow> grown r r' \<and> lsm_ok H C (page_text r') kind root'
        \<and> lsm_map H C (page_text r') kind root' = lsm_map H C (page_text r) kind root ++ map_of records
        \<and> (\<forall>old. lsm_ok H C (page_text r) kind old \<longrightarrow>
             lsm_ok H C (page_text r') kind old \<and> lsm_map H C (page_text r') kind old = lsm_map H C (page_text r) kind old)
    | (Inl e, r') \<Rightarrow> unmoved r r' \<and> (e = MalformedPage \<or> e = IndexCapacity \<or> (\<exists>n. e = PageTooLarge n))"
proof -
  have r: "healthy r" "length (page_text r) + MAX_SCRATCH_PAGE_BYTES < 2 ^ 63" "lsm_ok H C (page_text r) kind root"
    using assms(1) by (simp_all add: holds_root_def)
  have "runs (insert_many H C root kind records) r
      (\<lambda>root' r'. grown r r' \<and> lsm_ok H C (page_text r') kind root'
        \<and> lsm_map H C (page_text r') kind root' = lsm_map H C (page_text r) kind root ++ map_of records)
      (\<lambda>e r'. unmoved r r' \<and> (e = MalformedPage \<or> e = IndexCapacity \<or> (\<exists>n. e = PageTooLarge n)))"
  proof (cases "records = []")
    case True
    then show ?thesis using r unmoved_grown [OF unmoved_refl] by (simp add: insert_many_def)
  next
    case False
    show ?thesis
      by (rule runs_mono [OF insert_records_ok [OF r(1,2) assms(2,3) r(3) False]])
        (auto simp: carried_def lsm_map_def carry_failed_def refused_def)
  qed
  then show ?thesis by (auto simp: runs_def lsm_grown split: prod.splits sum.splits)
qed

text \<open>C20.
  The point lookups, alone or in a batch, with or without the caller's proofs of absence, return exactly the value
  the root's map shows, and never fail on a healthy run.
\<close>

theorem lookups_exact:
  assumes "holds_root H C kind root r" "length absent = length ks"
  shows "(\<exists>r'. lookup_key H C root kind key r = (Inr (visible (lsm_map H C (page_text r) kind root) key), r') \<and> unmoved r r')
    \<and> (\<exists>r'. lookup_many H C root kind ks r = (Inr (map (visible (lsm_map H C (page_text r) kind root)) ks), r') \<and> unmoved r r')
    \<and> (\<exists>r'. lookup_many_with_known_absent H C root kind ks absent r =
        (Inr (map (\<lambda>(key, known). if known then None else visible (lsm_map H C (page_text r) kind root) key) (zip ks absent)), r') \<and> unmoved r r')"
proof -
  have r: "healthy r" "length (page_text r) < 2 ^ 64" "lsm_ok H C (page_text r) kind root"
    using assms(1) by (simp_all add: holds_root_def)
  have one: "\<exists>r'. lookup_key H C root kind key r = (Inr (visible (lsm_map H C (page_text r) kind root) key), r') \<and> unmoved r r'"
    using lookup_policy_ok [OF r, of key False]
    by (auto simp: runs_def lookup_key_def lookup_with_known_absent_def split: prod.splits sum.splits)
  have absent: "\<exists>r'. lookup_many_with_known_absent H C root kind ks absent r =
      (Inr (map (\<lambda>(key, known). if known then None else visible (lsm_map H C (page_text r) kind root) key) (zip ks absent)), r') \<and> unmoved r r'"
    if "length absent = length ks" for absent
    using lookup_many_policy_ok [OF r that] by (auto simp: runs_def lookup_many_with_known_absent_def split: prod.splits sum.splits)
  have "map (\<lambda>(key, known). if known then None else visible m key) (zip ks (replicate (length ks) False)) = map (visible m) ks" for m
    by (rule nth_equalityI) auto
  then have "\<exists>r'. lookup_many H C root kind ks r = (Inr (map (visible (lsm_map H C (page_text r) kind root)) ks), r') \<and> unmoved r r'"
    using absent [of "replicate (length ks) False"] by (simp add: lookup_many_def)
  with one absent [OF assms(2)] show ?thesis by blast
qed

text \<open>C21.
  A scan returns, in ascending order of the keys, exactly the live records whose key starts with the prefix; with
  the empty prefix this is the whole content.
\<close>

theorem scan_prefix_exact:
  assumes "holds_root H C kind root r"
  shows "(\<exists>out r'. scan_prefix H C root kind pat r = (Inr out, r') \<and> unmoved r r' \<and> ordered out
      \<and> map_of out = visible (lsm_map H C (page_text r) kind root) |` {k. starts_with k pat})
    \<and> (\<exists>out r'. materialize H C root kind r = (Inr out, r') \<and> unmoved r r' \<and> ordered out
      \<and> map_of out = visible (lsm_map H C (page_text r) kind root))"
proof -
  have r: "healthy r" "length (page_text r) < 2 ^ 64" "lsm_ok H C (page_text r) kind root"
    using assms(1) by (simp_all add: holds_root_def)
  have scan: "\<exists>out r'. scan_prefix H C root kind pat r = (Inr out, r') \<and> unmoved r r' \<and> ordered out
    \<and> map_of out = visible (lsm_map H C (page_text r) kind root) |` {k. starts_with k pat}" for pat
    using scan_prefix_ok [OF r, of pat] by (auto simp: runs_def split: prod.splits sum.splits)
  then have "\<exists>out r'. materialize H C root kind r = (Inr out, r') \<and> unmoved r r' \<and> ordered out
    \<and> map_of out = visible (lsm_map H C (page_text r) kind root)"
    using scan [of "[]"] by (simp add: materialize_def restrict_map_def)
  with scan show ?thesis by blast
qed

section \<open>Capacity\<close>

text \<open>C22.
  The occupied levels are the binary digits of the number of insertions: while that number is below \<open>2 ^ 32 - 1\<close> no
  insertion meets the capacity of the index, and the next one after that does.
\<close>

theorem levels_count_insertions:
  assumes "holds_root H C kind root r" "codecs_ok C" "ordered records" "records \<noteq> []"
    "occupancy (lr_levels root) = unat (lr_next_generation root)"
  shows "(\<forall>root' r'. insert_many H C root kind records r = (Inr root', r') \<longrightarrow>
      occupancy (lr_levels root') = unat (lr_next_generation root') \<and> unat (lr_next_generation root') = unat (lr_next_generation root) + 1)
    \<and> (if unat (lr_next_generation root) < 2 ^ 32 - 1 then fst (insert_many H C root kind records r) \<noteq> Inl IndexCapacity
       else fst (insert_many H C root kind records r) = Inl IndexCapacity)"
proof -
  have r: "healthy r" "length (page_text r) + MAX_SCRATCH_PAGE_BYTES < 2 ^ 63" "lsm_ok H C (page_text r) kind root"
    using assms(1) by (simp_all add: holds_root_def)
  note ok = insert_records_ok [OF r(1,2) assms(2,3) r(3) assms(4)]
  have levels: "length (lr_levels root) = 32" using r(3) by (simp add: lsm_ok_def SCRATCH_LSM_LEVELS_def)
  have 1: "occupancy (lr_levels root') = unat (lr_next_generation root') \<and> unat (lr_next_generation root') = unat (lr_next_generation root) + 1"
    if "insert_many H C root kind records r = (Inr root', r')" for root' r'
    using runs_Inr [OF ok that] assms(5) by (auto simp: carried_def unat_word_ariths)
  have 2: "fst (insert_many H C root kind records r) \<noteq> Inl IndexCapacity" if "unat (lr_next_generation root) < 2 ^ 32 - 1"
  proof
    assume "fst (insert_many H C root kind records r) = Inl IndexCapacity"
    then obtain r' where "insert_many H C root kind records r = (Inl IndexCapacity, r')" by (metis prod.collapse)
    from runs_Inl [OF ok this] have "None \<notin> set (lr_levels root)" by (auto simp: carry_failed_def refused_def)
    then show False using occupancy_full [of "lr_levels root"] levels that assms(5) by simp
  qed
  have 3: "fst (insert_many H C root kind records r) = Inl IndexCapacity" if "unat (lr_next_generation root) = 2 ^ 32 - 1"
  proof -
    have none: "None \<notin> set (lr_levels root)"
      by (rule occupancy_missing) (use that levels assms(5) in simp)
    have "runs (insert_levels H C kind (lr_next_generation root + 1) records (lr_levels root)) r (\<lambda>_ _. False) (\<lambda>e _. e = IndexCapacity)"
      using r none by (intro insert_levels_full) (auto simp: lsm_ok_def)
    then show ?thesis using validate_lsm_root_ok [OF r(3)] assms(4) that
      by (auto simp: insert_many_def checked_add64_def runs_def st_bind_def split: prod.splits sum.splits)
  qed
  have "unat (lr_next_generation root) < 2 ^ 32" using occupancy_less [of "lr_levels root"] levels assms(5) by simp
  then have "unat (lr_next_generation root) < 2 ^ 32 - 1 \<or> unat (lr_next_generation root) = 2 ^ 32 - 1" by linarith
  with 1 2 3 show ?thesis by auto
qed

section \<open>Sessions\<close>

text \<open>A sequence of calls on one session, with the result of each.\<close>

fun session_calls ::
    "('t, 'o) session_env \<Rightarrow> 't scratch_lsm_root \<Rightarrow> 't \<Rightarrow> (bytes list \<times> bool list) list \<Rightarrow> 't session_state \<Rightarrow> 'o scratch_run \<Rightarrow>
     ((scratch_run_error + bytes option list) list \<times> 't session_state \<times> 'o scratch_run) option" where
  "session_calls V root kind [] s r = Some ([], s, r)"
| "session_calls V root kind ((ks, absent) # calls) s r =
     Option.bind (lookup_many_with_session V root kind ks (Inr absent) s r) (\<lambda>(result, s, r).
     map_option (\<lambda>(results, s, r). (result # results, s, r)) (session_calls V root kind calls s r))"

lemma session_calls_ok:
  assumes "healthy r" "length (page_text r) < 2 ^ 64" "lsm_ok (se_hash V) (se_codecs V) (page_text r) kind root"
    "session_ok V (page_text r) kind s" "check_session V root kind s r = Inr ()" "\<forall>(ks, absent) \<in> set calls. length absent = length ks"
  shows "\<exists>s' r'. session_calls V root kind calls s r = Some (map (\<lambda>(ks, absent). Inr (map (\<lambda>(key, known). if known then None
        else visible (lsm_map (se_hash V) (se_codecs V) (page_text r) kind root) key) (zip ks absent))) calls, s', r')
    \<and> session_ok V (page_text r') kind s' \<and> ls_budget_bytes s' = ls_budget_bytes s \<and> unmoved r r'"
  using assms
proof (induction calls arbitrary: s r)
  case Nil
  then show ?case by (simp add: unmoved_refl)
next
  case (Cons c calls)
  obtain ks absent where c: "c = (ks, absent)" by force
  have "length absent = length ks" using Cons.prems(6) c by simp
  from lookup_many_with_session_ok [OF Cons.prems(1-5) this]
  obtain s1 r1 where one: "lookup_many_with_session V root kind ks (Inr absent) s r = Some (Inr (map (\<lambda>(key, known). if known then None
        else visible (lsm_map (se_hash V) (se_codecs V) (page_text r) kind root) key) (zip ks absent)), s1, r1)"
      "session_ok V (page_text r1) kind s1" "check_session V root kind s1 r1 = Inr ()" "ls_budget_bytes s1 = ls_budget_bytes s" "unmoved r r1"
    by blast
  then have "page_text r1 = page_text r" "healthy r1" by (simp_all add: unmoved_def)
  then show ?case using Cons.IH [of r1 s1] Cons.prems(2,3,6) one unmoved_trans [OF one(5)] by (auto simp: c)
qed

text \<open>C18.
  A lookup session returns from every call, with what the lookup without a session would have returned, however it has
  cached and evicted, and the decoded segments it keeps never exceed its budget.  A session that was opened for
  another root is refused, and left as it was.
\<close>

theorem session_equals_plain:
  assumes "holds_root (se_hash V) (se_codecs V) kind root r" "lookup_session V root kind budget r = Inr s" "budget < 2 ^ 64 - 1"
    "\<forall>(ks, absent) \<in> set calls. length absent = length ks"
  shows "(\<exists>s' r'. session_calls V root kind calls s r =
      Some (map (\<lambda>(ks, absent). fst (lookup_many_with_known_absent (se_hash V) (se_codecs V) root kind ks absent r)) calls, s', r')
    \<and> st_resident_bytes (ls_stats s') \<le> budget \<and> st_peak_resident_bytes (ls_stats s') \<le> budget \<and> unmoved r r')
    \<and> (other \<noteq> root \<and> validate_lsm_root other = Inr () \<longrightarrow>
      lookup_many_with_session V other kind ks policy s r = Some (Inl PageBindingMismatch, s, r))"
proof -
  have r: "healthy r" "length (page_text r) < 2 ^ 64" "lsm_ok (se_hash V) (se_codecs V) (page_text r) kind root"
    using assms(1) by (simp_all add: holds_root_def)
  note fresh = lookup_session_ok [OF assms(2,3)]
  have plain: "fst (lookup_many_with_known_absent (se_hash V) (se_codecs V) root kind ks absent r) = Inr (map (\<lambda>(key, known). if known then None
        else visible (lsm_map (se_hash V) (se_codecs V) (page_text r) kind root) key) (zip ks absent))"
    if "(ks, absent) \<in> set calls" for ks absent
  proof -
    have "length absent = length ks" using that assms(4) by fastforce
    from lookup_many_policy_ok [OF r this] show ?thesis
      by (auto simp: runs_def lookup_many_with_known_absent_def split: prod.splits sum.splits)
  qed
  have eq: "map (\<lambda>(ks, absent). Inr (map (\<lambda>(key, known). if known then None
        else visible (lsm_map (se_hash V) (se_codecs V) (page_text r) kind root) key) (zip ks absent))) calls
      = map (\<lambda>(ks, absent). fst (lookup_many_with_known_absent (se_hash V) (se_codecs V) root kind ks absent r)) calls"
    using plain by (auto intro!: map_cong)
  have 1: "\<exists>s' r'. session_calls V root kind calls s r =
      Some (map (\<lambda>(ks, absent). fst (lookup_many_with_known_absent (se_hash V) (se_codecs V) root kind ks absent r)) calls, s', r')
    \<and> st_resident_bytes (ls_stats s') \<le> budget \<and> st_peak_resident_bytes (ls_stats s') \<le> budget \<and> unmoved r r'"
    using session_calls_ok [OF r _ _ assms(4), of s] fresh [of "page_text r"] unfolding eq
    by (auto simp: session_ok_def)
  have "lookup_many_with_session V other kind ks policy s r = Some (Inl PageBindingMismatch, s, r)"
    if "other \<noteq> root" "validate_lsm_root other = Inr ()"
    using that assms(2) by (auto simp: lookup_many_with_session_def check_session_def lookup_session_def bind_res_Inr)
  with 1 show ?thesis by blast
qed

end
