(* ===== verification/Scratch_Runs.thy ===== *)
theory Scratch_Runs
  imports Scratch_Store
begin

text \<open>
  \<open>src/scratch.rs\<close>, the life of a run: its directory in the scratch namespace, creation with the cleanup of stale
  siblings, adoption, cloning, the census and the reclamation of retained runs.  The namespace is a value: its
  entries with the files of the run directories and whether somebody holds the lease.  Every call on the file
  system takes one item of \<open>ns_faults\<close>, \<open>None\<close> for success.  The clean-up calls, whose results the code ignores, are
  modelled with their failures, too.  The texts of errors are shortened.  An entry name that is not UTF-8 is \<^const>\<open>None\<close>.
\<close>

section \<open>The namespace\<close>

definition SCRATCH_DIR :: string where "SCRATCH_DIR = ''engine-scratch-v2''"
definition SCRATCH_MARKER_FILE :: string where "SCRATCH_MARKER_FILE = ''marker''"
definition SCRATCH_LEASE_FILE :: string where "SCRATCH_LEASE_FILE = ''lease''"
definition SCRATCH_PAGES_FILE :: string where "SCRATCH_PAGES_FILE = ''pages.index''"
definition SCRATCH_BLOBS_FILE :: string where "SCRATCH_BLOBS_FILE = ''blobs.data''"
definition MAX_MARKER_BYTES :: nat where "MAX_MARKER_BYTES = 4 * 1024"

datatype scratch_file = RegularFile bytes | OtherFile

record run_dir =
  rd_files :: "(string option \<times> scratch_file) list"
  rd_leased :: bool

datatype ns_entry = RunDirectory run_dir | OtherEntry

text \<open>What the archive has under \<open>SCRATCH_DIR\<close>.\<close>

datatype scratch_root = NoRoot | RealDirectory | NotRealDirectory

record namespace =
  ns_root :: scratch_root
  ns_entries :: "(string option \<times> ns_entry) list"
  ns_faults :: "string option list"

type_synonym 'a ns_op = "namespace \<Rightarrow> (scratch_run_error + 'a) \<times> namespace"

definition fs_call :: "unit ns_op" where
  "fs_call ns =
     (case ns_faults ns of
        [] \<Rightarrow> (Inr (), ns)
      | f # fs \<Rightarrow> (case f of None \<Rightarrow> Inr () | Some e \<Rightarrow> Inl (ScratchIo e), ns\<lparr>ns_faults := fs\<rparr>))"

text \<open>A call that looks at the namespace, and a call that changes it.\<close>

definition fs_look :: "(namespace \<Rightarrow> scratch_run_error + 'a) \<Rightarrow> 'a ns_op" where
  "fs_look f = st_bind fs_call (\<lambda>_ ns. (f ns, ns))"

definition fs_change :: "(namespace \<Rightarrow> scratch_run_error + namespace) \<Rightarrow> unit ns_op" where
  "fs_change f = st_bind fs_call (\<lambda>_ ns. case f ns of Inl e \<Rightarrow> (Inl e, ns) | Inr ns' \<Rightarrow> (Inr (), ns'))"

definition entry_of :: "namespace \<Rightarrow> string \<Rightarrow> ns_entry option" where
  "entry_of ns name = map_of (ns_entries ns) (Some name)"

definition run_of :: "namespace \<Rightarrow> string \<Rightarrow> scratch_run_error + run_dir" where
  "run_of ns name =
     (case entry_of ns name of
        Some (RunDirectory d) \<Rightarrow> Inr d
      | Some OtherEntry \<Rightarrow> Inl (ScratchIo ''Not a directory (os error 20)'')
      | None \<Rightarrow> Inl (ScratchIo ''No such file or directory (os error 2)''))"

fun set_entry :: "string \<Rightarrow> ns_entry \<Rightarrow> (string option \<times> ns_entry) list \<Rightarrow> (string option \<times> ns_entry) list" where
  "set_entry name e [] = []"
| "set_entry name e ((k, e') # es) = (if k = Some name then (k, e) # es else (k, e') # set_entry name e es)"

definition with_run :: "string \<Rightarrow> (run_dir \<Rightarrow> scratch_run_error + run_dir) \<Rightarrow> namespace \<Rightarrow> scratch_run_error + namespace" where
  "with_run name f ns =
     bind_res (run_of ns name) (\<lambda>d.
     bind_res (f d) (\<lambda>d'.
     Inr (ns\<lparr>ns_entries := set_entry name (RunDirectory d') (ns_entries ns)\<rparr>)))"

definition file_of :: "run_dir \<Rightarrow> string \<Rightarrow> scratch_run_error + scratch_file" where
  "file_of d name = ok_or (ScratchIo ''No such file or directory (os error 2)'') (map_of (rd_files d) (Some name))"

section \<open>Calls on a run directory\<close>

definition open_run :: "string \<Rightarrow> run_dir ns_op" where
  "open_run name = fs_look (\<lambda>ns. run_of ns name)"

text \<open>\<open>openat\<close>, then the check on the opened file.\<close>

definition open_regular_read_write_nofollow :: "string \<Rightarrow> string \<Rightarrow> bytes ns_op" where
  "open_regular_read_write_nofollow run name =
     st_bind (fs_look (\<lambda>ns. bind_res (run_of ns run) (\<lambda>d. file_of d name))) (\<lambda>file.
     st_bind fs_call (\<lambda>_.
     case file of
       OtherFile \<Rightarrow> st_lift (Inl (ScratchUnsafeEntry ''not a regular file''))
     | RegularFile data \<Rightarrow> st_return data))"

definition read_regular_nofollow :: "string \<Rightarrow> string \<Rightarrow> nat \<Rightarrow> bytes ns_op" where
  "read_regular_nofollow run name limit =
     st_bind (open_regular_read_write_nofollow run name) (\<lambda>data.
     st_bind fs_call (\<lambda>_.
     if limit < length data then st_lift (Inl (ScratchUnsafeEntry ''scratch file exceeds its bound''))
     else st_bind fs_call (\<lambda>_. st_return data)))"

definition create_new_regular :: "string \<Rightarrow> string \<Rightarrow> unit ns_op" where
  "create_new_regular run name =
     st_bind (fs_change (with_run run (\<lambda>d.
       if map_of (rd_files d) (Some name) \<noteq> None then Inl (ScratchIo ''File exists (os error 17)'')
       else Inr (d\<lparr>rd_files := rd_files d @ [(Some name, RegularFile [])]\<rparr>)))) (\<lambda>_. fs_call)"

definition put_file :: "string \<Rightarrow> bytes \<Rightarrow> run_dir \<Rightarrow> run_dir" where
  "put_file name data d = d\<lparr>rd_files := map (\<lambda>(k, f). if k = Some name then (k, RegularFile data) else (k, f)) (rd_files d)\<rparr>"

definition write_new_regular :: "string \<Rightarrow> string \<Rightarrow> bytes \<Rightarrow> unit ns_op" where
  "write_new_regular run name data =
     st_bind (create_new_regular run name) (\<lambda>_.
     fs_change (with_run run (\<lambda>d. Inr (put_file name data d))))"

definition lock_exclusive_nonblocking :: "string \<Rightarrow> bool ns_op" where
  "lock_exclusive_nonblocking run = fs_look (\<lambda>ns. bind_res (run_of ns run) (\<lambda>d. Inr (\<not> rd_leased d)))"

text \<open>The lock as its holder leaves it on the lease.\<close>

definition take_lease :: "string \<Rightarrow> unit ns_op" where
  "take_lease run ns = (case with_run run (\<lambda>d. Inr (d\<lparr>rd_leased := True\<rparr>)) ns of Inl e \<Rightarrow> (Inl e, ns) | Inr ns' \<Rightarrow> (Inr (), ns'))"

definition release_lease :: "string \<Rightarrow> unit ns_op" where
  "release_lease run ns = (case with_run run (\<lambda>d. Inr (d\<lparr>rd_leased := False\<rparr>)) ns of Inl e \<Rightarrow> (Inr (), ns) | Inr ns' \<Rightarrow> (Inr (), ns'))"

definition remove_file :: "string \<Rightarrow> string \<Rightarrow> unit ns_op" where
  "remove_file run name =
     fs_change (with_run run (\<lambda>d. bind_res (file_of d name) (\<lambda>_.
       Inr (d\<lparr>rd_files := filter (\<lambda>(k, _). k \<noteq> Some name) (rd_files d)\<rparr>))))"

definition remove_dir :: "string \<Rightarrow> unit ns_op" where
  "remove_dir run =
     fs_change (\<lambda>ns. bind_res (run_of ns run) (\<lambda>d.
       if rd_files d \<noteq> [] then Inl (ScratchIo ''Directory not empty (os error 39)'')
       else Inr (ns\<lparr>ns_entries := filter (\<lambda>(k, _). k \<noteq> Some run) (ns_entries ns)\<rparr>)))"

definition create_dir :: "string \<Rightarrow> unit ns_op" where
  "create_dir run =
     fs_change (\<lambda>ns. if entry_of ns run \<noteq> None then Inl (ScratchIo ''File exists (os error 17)'')
       else Inr (ns\<lparr>ns_entries := ns_entries ns @ [(Some run, RunDirectory \<lparr>rd_files = [], rd_leased = False\<rparr>)]\<rparr>))"

definition ensure_scratch_dir :: "unit ns_op" where
  "ensure_scratch_dir =
     st_bind (fs_look (\<lambda>ns. Inr (ns_root ns))) (\<lambda>root.
     case root of
       NotRealDirectory \<Rightarrow> st_lift (Inl (ScratchIo ''unsafe store entry''))
     | RealDirectory \<Rightarrow> st_return ()
     | NoRoot \<Rightarrow>
         st_bind (fs_change (\<lambda>ns. Inr (ns\<lparr>ns_root := RealDirectory, ns_entries := []\<rparr>))) (\<lambda>_. fs_call))"

definition open_scratch_dir :: "unit ns_op" where
  "open_scratch_dir =
     fs_look (\<lambda>ns. if ns_root ns = RealDirectory then Inr () else Inl (ScratchIo ''No such file or directory (os error 2)''))"

section \<open>Names and markers\<close>

text \<open>The crate \<open>uuid\<close>: its parser and its hyphenated text.\<close>

record uuid_text =
  parse_uuid :: "string \<Rightarrow> uuid option"
  show_uuid :: "uuid \<Rightarrow> string"

definition run_name_of :: "uuid_text \<Rightarrow> uuid \<Rightarrow> string" where
  "run_name_of U run_id = ''run-'' @ show_uuid U run_id"

definition parse_run_name :: "uuid_text \<Rightarrow> string \<Rightarrow> scratch_run_error + uuid" where
  "parse_run_name U name =
     (if \<not> starts_with name ''run-'' then Inl (ScratchUnsafeEntry ''unknown scratch entry'')
      else
        (case parse_uuid U (drop 4 name) of
           None \<Rightarrow> Inl (ScratchUnsafeEntry ''malformed scratch run'')
         | Some run_id \<Rightarrow> if run_name_of U run_id \<noteq> name then Inl (ScratchUnsafeEntry ''non-canonical scratch run'') else Inr run_id))"

definition RUN_FILES :: "string list" where
  "RUN_FILES = [SCRATCH_MARKER_FILE, SCRATCH_LEASE_FILE, SCRATCH_PAGES_FILE, SCRATCH_BLOBS_FILE]"

text \<open>The loop of \<open>validate_run_entries\<close> over the listing, with the names seen so far.\<close>

fun validate_listing :: "string list \<Rightarrow> (string option \<times> scratch_file) list \<Rightarrow> string list ns_op" where
  "validate_listing visited [] = st_return visited"
| "validate_listing visited ((k, file) # rest) =
     st_bind fs_call (\<lambda>_.
     case k of
       None \<Rightarrow> st_lift (Inl (ScratchUnsafeEntry ''non-UTF-8 scratch entry''))
     | Some name \<Rightarrow>
         if name \<notin> set RUN_FILES then st_lift (Inl (ScratchUnsafeEntry ''unknown scratch run entry''))
         else
           st_bind fs_call (\<lambda>_.
           if file = OtherFile then st_lift (Inl (ScratchUnsafeEntry ''not a regular file''))
           else if name \<in> set visited then st_lift (Inl (ScratchUnsafeEntry ''duplicate scratch run entry''))
           else validate_listing (name # visited) rest))"

definition validate_run_entries :: "string \<Rightarrow> unit ns_op" where
  "validate_run_entries run =
     st_bind (fs_look (\<lambda>ns. bind_res (run_of ns run) (\<lambda>d. Inr (rd_files d)))) (\<lambda>listing.
     st_bind (validate_listing [] listing) (\<lambda>visited.
     if \<forall>required \<in> set RUN_FILES. required \<in> set visited then st_return ()
     else st_lift (Inl (ScratchUnsafeEntry ''scratch run is missing a file''))))"

definition remove_stale_run :: "string \<Rightarrow> unit ns_op" where
  "remove_stale_run run =
     st_bind (validate_run_entries run) (\<lambda>_.
     st_bind (remove_file run SCRATCH_PAGES_FILE) (\<lambda>_.
     st_bind (remove_file run SCRATCH_BLOBS_FILE) (\<lambda>_.
     st_bind (remove_file run SCRATCH_MARKER_FILE) (\<lambda>_.
     st_bind (remove_file run SCRATCH_LEASE_FILE) (\<lambda>_.
     remove_dir run)))))"

text \<open>\<open>let _ = ..\<close>.\<close>

definition ignoring :: "'a ns_op \<Rightarrow> unit ns_op" where
  "ignoring m ns = (Inr (), snd (m ns))"

definition remove_partial_own_run :: "string \<Rightarrow> unit ns_op" where
  "remove_partial_own_run run =
     st_bind (\<lambda>ns. case open_run run ns of
         (Inl _, ns') \<Rightarrow> (Inr (), ns')
       | (Inr _, ns') \<Rightarrow>
           st_bind (ignoring (remove_file run SCRATCH_PAGES_FILE)) (\<lambda>_.
           st_bind (ignoring (remove_file run SCRATCH_BLOBS_FILE)) (\<lambda>_.
           st_bind (ignoring (remove_file run SCRATCH_MARKER_FILE)) (\<lambda>_.
           ignoring (remove_file run SCRATCH_LEASE_FILE)))) ns') (\<lambda>_.
     ignoring (remove_dir run))"

section \<open>Stale siblings\<close>

datatype scratch_construction_boundary =
    AfterRunDirectory | AfterNamespaceSync | AfterRunOpen | AfterMarkerWrite | AfterLeaseCreate
  | AfterLeaseLock | AfterPagesCreate | AfterBlobsCreate | InspectSibling | AfterReclaim

type_synonym observer = "scratch_construction_boundary \<Rightarrow> scratch_run_error + unit"

datatype stale_run_disposition = OwnRun | Reclaimed | LivePreserved | RetainedPreserved | Unclassified

record lifecycle_stats =
  lc_stale_runs_reclaimed :: nat
  lc_live_runs_skipped :: nat
  lc_retained_runs_preserved :: nat
  lc_unclassified_runs_preserved :: nat

definition require_real_directory :: "string \<Rightarrow> unit ns_op" where
  "require_real_directory name =
     fs_look (\<lambda>ns. case entry_of ns name of
        Some (RunDirectory _) \<Rightarrow> Inr ()
      | Some OtherEntry \<Rightarrow> Inl (ScratchUnsafeEntry ''not a real directory'')
      | None \<Rightarrow> Inl (ScratchIo ''No such file or directory (os error 2)''))"

text \<open>The steps \<open>classify_stale_sibling\<close> and \<open>authenticate_scratch_sibling\<close> share, from the name to the marker.\<close>

definition read_sibling ::
    "uuid_text \<Rightarrow> 'o scratch_run_marker serializer \<Rightarrow> 'o \<Rightarrow> string \<Rightarrow> 'o scratch_run_marker ns_op" where
  "read_sibling U M owner name =
     st_bind (st_lift (parse_run_name U name)) (\<lambda>run_id.
     st_bind (require_real_directory name) (\<lambda>_.
     st_bind (open_run name) (\<lambda>_.
     st_bind (read_regular_nofollow name SCRATCH_MARKER_FILE MAX_MARKER_BYTES) (\<lambda>marker_bytes.
     st_bind (st_lift (decode_marker M marker_bytes)) (\<lambda>marker.
     if mk_schema_version marker \<noteq> SCRATCH_SCHEMA_VERSION \<or> mk_owner marker \<noteq> owner \<or> mk_run_id marker \<noteq> run_id
     then st_lift (Inl (MalformedMarker name))
     else st_bind (validate_run_entries name) (\<lambda>_. st_return marker))))))"

definition classify_stale_sibling ::
    "uuid_text \<Rightarrow> 'o scratch_run_marker serializer \<Rightarrow> 'o \<Rightarrow> string \<Rightarrow> observer \<Rightarrow> string option \<Rightarrow> stale_run_disposition ns_op" where
  "classify_stale_sibling U M owner own_name observe entry =
     (case entry of
        None \<Rightarrow> st_lift (Inl (ScratchUnsafeEntry ''non-UTF-8 scratch run''))
      | Some name \<Rightarrow>
          if name = own_name then st_return OwnRun
          else
            st_bind (st_lift (observe InspectSibling)) (\<lambda>_.
            st_bind (read_sibling U M owner name) (\<lambda>marker.
            if mk_retention marker = Retained then st_return RetainedPreserved
            else
              st_bind (open_regular_read_write_nofollow name SCRATCH_LEASE_FILE) (\<lambda>_.
              st_bind (lock_exclusive_nonblocking name) (\<lambda>locked.
              if \<not> locked then st_return LivePreserved
              else st_bind (remove_stale_run name) (\<lambda>_. st_return Reclaimed))))))"

fun count_stale :: "stale_run_disposition \<Rightarrow> lifecycle_stats \<Rightarrow> lifecycle_stats" where
  "count_stale OwnRun c = c"
| "count_stale Reclaimed c = c\<lparr>lc_stale_runs_reclaimed := lc_stale_runs_reclaimed c + 1\<rparr>"
| "count_stale LivePreserved c = c\<lparr>lc_live_runs_skipped := lc_live_runs_skipped c + 1\<rparr>"
| "count_stale RetainedPreserved c = c\<lparr>lc_retained_runs_preserved := lc_retained_runs_preserved c + 1\<rparr>"
| "count_stale Unclassified c = c\<lparr>lc_unclassified_runs_preserved := lc_unclassified_runs_preserved c + 1\<rparr>"

text \<open>\<open>.unwrap_or(default)\<close>, and the loops over a listing, whose every item may be an error.\<close>

definition unwrap_or :: "'a \<Rightarrow> 'a ns_op \<Rightarrow> namespace \<Rightarrow> 'a \<times> namespace" where
  "unwrap_or fallback m ns = (case m ns of (Inl _, ns') \<Rightarrow> (fallback, ns') | (Inr x, ns') \<Rightarrow> (x, ns'))"

fun reclaim_entries ::
    "uuid_text \<Rightarrow> 'o scratch_run_marker serializer \<Rightarrow> 'o \<Rightarrow> string \<Rightarrow> observer \<Rightarrow> string option list \<Rightarrow> lifecycle_stats \<Rightarrow> namespace \<Rightarrow>
     lifecycle_stats \<times> namespace" where
  "reclaim_entries U M owner own_name observe [] stats ns = (stats, ns)"
| "reclaim_entries U M owner own_name observe (entry # rest) stats ns =
     (let (disposition, ns') =
        unwrap_or Unclassified (st_bind fs_call (\<lambda>_. classify_stale_sibling U M owner own_name observe entry)) ns
      in reclaim_entries U M owner own_name observe rest (count_stale disposition stats) ns')"

definition reclaim_stale_runs ::
    "uuid_text \<Rightarrow> 'o scratch_run_marker serializer \<Rightarrow> 'o \<Rightarrow> string \<Rightarrow> observer \<Rightarrow> lifecycle_stats \<Rightarrow> namespace \<Rightarrow> lifecycle_stats \<times> namespace" where
  "reclaim_stale_runs U M owner own_name observe stats ns =
     (case fs_look (\<lambda>ns. Inr (map fst (ns_entries ns))) ns of
        (Inl _, ns') \<Rightarrow> (count_stale Unclassified stats, ns')
      | (Inr entries, ns') \<Rightarrow> reclaim_entries U M owner own_name observe entries stats ns')"

section \<open>Retained runs\<close>

datatype authenticated_sibling = RetainedSibling uuid | EphemeralSibling

definition authenticate_scratch_sibling ::
    "uuid_text \<Rightarrow> 'o scratch_run_marker serializer \<Rightarrow> 'o \<Rightarrow> string option \<Rightarrow> (string \<times> authenticated_sibling) ns_op" where
  "authenticate_scratch_sibling U M owner entry =
     (case entry of
        None \<Rightarrow> st_lift (Inl (ScratchUnsafeEntry ''non-UTF-8 scratch run''))
      | Some name \<Rightarrow>
          st_bind (read_sibling U M owner name) (\<lambda>marker.
          st_return (name, case mk_retention marker of Retained \<Rightarrow> RetainedSibling (mk_run_id marker) | Ephemeral \<Rightarrow> EphemeralSibling)))"

record retained_run_census =
  cs_retained :: nat
  cs_ephemeral :: nat
  cs_unclassified :: nat

fun census_entries ::
    "uuid_text \<Rightarrow> 'o scratch_run_marker serializer \<Rightarrow> 'o \<Rightarrow> string option list \<Rightarrow> retained_run_census \<Rightarrow> namespace \<Rightarrow>
     retained_run_census \<times> namespace" where
  "census_entries U M owner [] census ns = (census, ns)"
| "census_entries U M owner (entry # rest) census ns =
     (case st_bind fs_call (\<lambda>_. authenticate_scratch_sibling U M owner entry) ns of
        (Inr (_, RetainedSibling _), ns') \<Rightarrow> census_entries U M owner rest (census\<lparr>cs_retained := cs_retained census + 1\<rparr>) ns'
      | (Inr (_, EphemeralSibling), ns') \<Rightarrow> census_entries U M owner rest (census\<lparr>cs_ephemeral := cs_ephemeral census + 1\<rparr>) ns'
      | (Inl _, ns') \<Rightarrow> census_entries U M owner rest (census\<lparr>cs_unclassified := cs_unclassified census + 1\<rparr>) ns')"

text \<open>\<open>open_scratch_namespace\<close>: whether there is a namespace.\<close>

definition open_scratch_namespace :: "bool ns_op" where
  "open_scratch_namespace =
     st_bind (fs_look (\<lambda>ns. Inr (ns_root ns))) (\<lambda>root.
     case root of
       NoRoot \<Rightarrow> st_return False
     | NotRealDirectory \<Rightarrow> st_lift (Inl (ScratchUnsafeEntry ''not a real no-follow directory''))
     | RealDirectory \<Rightarrow> st_bind open_scratch_dir (\<lambda>_. st_return True))"

definition census_retained_runs :: "uuid_text \<Rightarrow> 'o scratch_run_marker serializer \<Rightarrow> 'o \<Rightarrow> retained_run_census ns_op" where
  "census_retained_runs U M owner =
     (let none = \<lparr>cs_retained = 0, cs_ephemeral = 0, cs_unclassified = 0\<rparr> in
      st_bind open_scratch_namespace (\<lambda>present.
      if \<not> present then st_return none
      else
        st_bind (fs_look (\<lambda>ns. Inr (map fst (ns_entries ns)))) (\<lambda>entries ns.
          let (census, ns') = census_entries U M owner entries none ns in (Inr census, ns'))))"

datatype retained_run_disposition = RunReachable | RunReclaimed | RunLivePreserved | RunEphemeralPreserved | RunUnclassified

record retained_run_reclamation =
  rc_retained_reachable :: nat
  rc_retained_reclaimed :: nat
  rc_retained_live_skipped :: nat
  rc_ephemeral_preserved :: nat
  rc_unclassified_preserved :: nat

definition classify_retained_sibling ::
    "uuid_text \<Rightarrow> 'o scratch_run_marker serializer \<Rightarrow> 'o \<Rightarrow> (uuid \<Rightarrow> bool) \<Rightarrow> string option \<Rightarrow> retained_run_disposition ns_op" where
  "classify_retained_sibling U M owner reachable entry =
     st_bind (authenticate_scratch_sibling U M owner entry) (\<lambda>(name, sibling).
     case sibling of
       EphemeralSibling \<Rightarrow> st_return RunEphemeralPreserved
     | RetainedSibling run_id \<Rightarrow>
         if reachable run_id then st_return RunReachable
         else
           st_bind (open_run name) (\<lambda>_.
           st_bind (open_regular_read_write_nofollow name SCRATCH_LEASE_FILE) (\<lambda>_.
           st_bind (lock_exclusive_nonblocking name) (\<lambda>locked.
           if \<not> locked then st_return RunLivePreserved
           else st_bind (remove_stale_run name) (\<lambda>_. st_return RunReclaimed)))))"

fun count_retained :: "retained_run_disposition \<Rightarrow> retained_run_reclamation \<Rightarrow> retained_run_reclamation" where
  "count_retained RunReachable c = c\<lparr>rc_retained_reachable := rc_retained_reachable c + 1\<rparr>"
| "count_retained RunReclaimed c = c\<lparr>rc_retained_reclaimed := rc_retained_reclaimed c + 1\<rparr>"
| "count_retained RunLivePreserved c = c\<lparr>rc_retained_live_skipped := rc_retained_live_skipped c + 1\<rparr>"
| "count_retained RunEphemeralPreserved c = c\<lparr>rc_ephemeral_preserved := rc_ephemeral_preserved c + 1\<rparr>"
| "count_retained RunUnclassified c = c\<lparr>rc_unclassified_preserved := rc_unclassified_preserved c + 1\<rparr>"

fun reclaim_retained_entries ::
    "uuid_text \<Rightarrow> 'o scratch_run_marker serializer \<Rightarrow> 'o \<Rightarrow> (uuid \<Rightarrow> bool) \<Rightarrow> string option list \<Rightarrow> retained_run_reclamation \<Rightarrow> namespace \<Rightarrow>
     retained_run_reclamation \<times> namespace" where
  "reclaim_retained_entries U M owner reachable [] outcome ns = (outcome, ns)"
| "reclaim_retained_entries U M owner reachable (entry # rest) outcome ns =
     (let (disposition, ns') =
        unwrap_or RunUnclassified (st_bind fs_call (\<lambda>_. classify_retained_sibling U M owner reachable entry)) ns
      in reclaim_retained_entries U M owner reachable rest (count_retained disposition outcome) ns')"

definition reclaim_unreachable_retained_runs ::
    "uuid_text \<Rightarrow> 'o scratch_run_marker serializer \<Rightarrow> 'o \<Rightarrow> (uuid \<Rightarrow> bool) \<Rightarrow> retained_run_reclamation ns_op" where
  "reclaim_unreachable_retained_runs U M owner reachable =
     (let none = \<lparr>rc_retained_reachable = 0, rc_retained_reclaimed = 0, rc_retained_live_skipped = 0,
        rc_ephemeral_preserved = 0, rc_unclassified_preserved = 0\<rparr> in
      st_bind open_scratch_namespace (\<lambda>present.
      if \<not> present then st_return none
      else
        st_bind (fs_look (\<lambda>ns. Inr (map fst (ns_entries ns)))) (\<lambda>entries ns.
          let (outcome, ns') = reclaim_retained_entries U M owner reachable entries none ns in (Inr outcome, ns'))))"

section \<open>Creating, adopting, cloning and dropping a run\<close>

text \<open>
  A run that is open in the namespace \<open>ns\<close> holds the lease of its directory; the bytes of its two files are those of
  its open handles (\<open>run_pages\<close>, \<open>run_blobs\<close>) until it is dropped, when they are written back here.
\<close>

definition open_files ::
    "'o scratch_run_marker \<Rightarrow> bytes \<Rightarrow> bytes \<Rightarrow> (string \<times> nat) option list \<times> (string \<times> nat) option list \<Rightarrow> scratch_run_error + 'o scratch_run" where
  "open_files marker pages blobs faults =
     bind_res (new_append_file pages (fst faults)) (\<lambda>p.
     bind_res (new_append_file blobs (snd faults)) (\<lambda>b.
     Inr \<lparr>run_marker = marker, run_pages = p, run_blobs = b\<rparr>))"

definition construct_own_run ::
    "'o scratch_run_marker serializer \<Rightarrow> string \<Rightarrow> 'o scratch_run_marker \<Rightarrow> observer \<Rightarrow>
     (string \<times> nat) option list \<times> (string \<times> nat) option list \<Rightarrow> 'o scratch_run ns_op" where
  "construct_own_run M run marker observe faults =
     st_bind (st_lift (observe AfterRunDirectory)) (\<lambda>_.
     st_bind fs_call (\<lambda>_.
     st_bind (st_lift (observe AfterNamespaceSync)) (\<lambda>_.
     st_bind (open_run run) (\<lambda>_.
     st_bind (st_lift (observe AfterRunOpen)) (\<lambda>_.
     st_bind (st_lift (encode_marker M marker)) (\<lambda>encoded.
     st_bind (write_new_regular run SCRATCH_MARKER_FILE encoded) (\<lambda>_.
     st_bind (st_lift (observe AfterMarkerWrite)) (\<lambda>_.
     st_bind (create_new_regular run SCRATCH_LEASE_FILE) (\<lambda>_.
     st_bind (st_lift (observe AfterLeaseCreate)) (\<lambda>_.
     st_bind (lock_exclusive_nonblocking run) (\<lambda>locked.
     st_bind (if locked then take_lease run else st_lift (Inl (ScratchUnsafeEntry ''new scratch lease was already locked''))) (\<lambda>_.
     st_bind (st_lift (observe AfterLeaseLock)) (\<lambda>_.
     st_bind (create_new_regular run SCRATCH_PAGES_FILE) (\<lambda>_.
     st_bind (st_lift (observe AfterPagesCreate)) (\<lambda>_.
     st_bind (create_new_regular run SCRATCH_BLOBS_FILE) (\<lambda>_.
     st_bind (st_lift (observe AfterBlobsCreate)) (\<lambda>_.
     st_bind fs_call (\<lambda>_.
     st_lift (open_files marker [] [] faults)))))))))))))))))))"

text \<open>\<open>cleanup_own_run\<close>: the buffers are flushed into files that are then removed.\<close>

definition cleanup_own_run :: "string \<Rightarrow> unit ns_op" where
  "cleanup_own_run run =
     st_bind (ignoring (remove_file run SCRATCH_PAGES_FILE)) (\<lambda>_.
     st_bind (ignoring (remove_file run SCRATCH_BLOBS_FILE)) (\<lambda>_.
     st_bind (ignoring (remove_file run SCRATCH_MARKER_FILE)) (\<lambda>_.
     st_bind (release_lease run) (\<lambda>_.
     st_bind (ignoring (remove_file run SCRATCH_LEASE_FILE)) (\<lambda>_.
     ignoring (remove_dir run))))))"

text \<open>
  \<open>create_run\<close>, given the random identifier and nonce in \<open>marker\<close>.  An error drops the lease with the handle that
  holds it.
\<close>

definition create_run ::
    "uuid_text \<Rightarrow> 'o scratch_run_marker serializer \<Rightarrow> 'o scratch_run_marker \<Rightarrow> observer \<Rightarrow>
     (string \<times> nat) option list \<times> (string \<times> nat) option list \<Rightarrow> ('o scratch_run \<times> lifecycle_stats) ns_op" where
  "create_run U M marker observe faults =
     (let run = run_name_of U (mk_run_id marker) in
      st_bind ensure_scratch_dir (\<lambda>_.
      st_bind open_scratch_dir (\<lambda>_.
      st_bind (create_dir run) (\<lambda>_ ns.
        case construct_own_run M run marker observe faults ns of
          (Inl e, ns') \<Rightarrow> (Inl e, snd (st_bind (release_lease run) (\<lambda>_. remove_partial_own_run run) ns'))
        | (Inr r, ns') \<Rightarrow>
            let (stats, ns'') = reclaim_stale_runs U M (mk_owner marker) run observe
                  \<lparr>lc_stale_runs_reclaimed = 0, lc_live_runs_skipped = 0, lc_retained_runs_preserved = 0, lc_unclassified_runs_preserved = 0\<rparr> ns'
            in (case observe AfterReclaim of
                  Inl e \<Rightarrow> (Inl e, snd (cleanup_own_run run ns''))
                | Inr _ \<Rightarrow> (Inr (r, stats), ns''))))))"

definition adopt_leased ::
    "'o scratch_run_marker serializer \<Rightarrow> string \<Rightarrow> 'o \<Rightarrow> uuid \<Rightarrow> (string \<times> nat) option list \<times> (string \<times> nat) option list \<Rightarrow>
     'o scratch_run ns_op" where
  "adopt_leased M run owner run_id faults =
     st_bind (read_regular_nofollow run SCRATCH_MARKER_FILE MAX_MARKER_BYTES) (\<lambda>marker_bytes.
     st_bind (st_lift (decode_marker M marker_bytes)) (\<lambda>marker.
     if mk_schema_version marker \<noteq> SCRATCH_SCHEMA_VERSION \<or> mk_owner marker \<noteq> owner
        \<or> mk_run_id marker \<noteq> run_id \<or> mk_retention marker \<noteq> Retained
     then st_lift (Inl (MalformedMarker run))
     else
       st_bind (validate_run_entries run) (\<lambda>_.
       st_bind (open_regular_read_write_nofollow run SCRATCH_PAGES_FILE) (\<lambda>pages.
       st_bind (open_regular_read_write_nofollow run SCRATCH_BLOBS_FILE) (\<lambda>blobs.
       st_lift (open_files marker pages blobs faults))))))"

definition adopt_retained ::
    "uuid_text \<Rightarrow> 'o scratch_run_marker serializer \<Rightarrow> 'o \<Rightarrow> uuid \<Rightarrow> (string \<times> nat) option list \<times> (string \<times> nat) option list \<Rightarrow>
     'o scratch_run ns_op" where
  "adopt_retained U M owner run_id faults =
     (let run = run_name_of U run_id in
      st_bind open_scratch_dir (\<lambda>_.
      st_bind (st_lift (parse_run_name U run)) (\<lambda>parsed.
      if parsed \<noteq> run_id then st_lift (Inl (MalformedMarker run))
      else
        st_bind (open_run run) (\<lambda>_.
        st_bind (open_regular_read_write_nofollow run SCRATCH_LEASE_FILE) (\<lambda>_.
        st_bind (lock_exclusive_nonblocking run) (\<lambda>locked.
        if \<not> locked then st_lift (Inl (ScratchUnsafeEntry ''retained scratch run is still leased''))
        else
          st_bind (take_lease run) (\<lambda>_ ns.
            case adopt_leased M run owner run_id faults ns of
              (Inl e, ns') \<Rightarrow> (Inl e, snd (release_lease run ns'))
            | (Inr r, ns') \<Rightarrow> (Inr r, ns'))))))))"

text \<open>\<open>Drop\<close>.\<close>

definition write_back :: "string \<Rightarrow> 'o scratch_run \<Rightarrow> unit ns_op" where
  "write_back run r ns =
     (case with_run run (\<lambda>d. Inr (put_file SCRATCH_PAGES_FILE (fl_bytes (run_pages r)) (put_file SCRATCH_BLOBS_FILE (fl_bytes (run_blobs r)) d))) ns of
        Inl e \<Rightarrow> (Inr (), ns)
      | Inr ns' \<Rightarrow> (Inr (), ns'))"

definition drop_run :: "uuid_text \<Rightarrow> 'o scratch_run \<Rightarrow> unit ns_op" where
  "drop_run U r =
     (let run = run_name_of U (mk_run_id (run_marker r)) in
      case mk_retention (run_marker r) of
        Ephemeral \<Rightarrow> cleanup_own_run run
      | Retained \<Rightarrow>
          let r1 = snd (on_pages flush_pending r); r2 = snd (on_blobs flush_pending r1) in
          st_bind (write_back run r2) (\<lambda>_. release_lease run))"

section \<open>Cloning\<close>

text \<open>
  \<open>copy_file\<close> of \<open>copy_exact_from\<close>, on the source and the destination.  \<open>io::copy\<close> is one call on each of the files.
\<close>

type_synonym 'a copy_op = "append_file \<times> append_file \<Rightarrow> (scratch_run_error + 'a) \<times> append_file \<times> append_file"

definition on_source :: "'a file_op \<Rightarrow> 'a copy_op" where
  "on_source m fs = (let (x, s) = m (fst fs) in (x, s, snd fs))"

definition on_dest :: "'a file_op \<Rightarrow> 'a copy_op" where
  "on_dest m fs = (let (x, d) = m (snd fs) in (x, fst fs, d))"

text \<open>A seek or a \<open>metadata\<close> on a file: one call, of which the code uses the length at most.\<close>

definition look_file :: "nat file_op" where
  "look_file = file_call (\<lambda>f. (length (fl_bytes f), f)) (\<lambda>_ f. f)"

definition copy_file :: "unit copy_op" where
  "copy_file =
     st_bind (on_source flush_pending) (\<lambda>_.
     st_bind (on_dest flush_pending) (\<lambda>_.
     st_bind (on_dest look_file) (\<lambda>present.
     if present \<noteq> 0 then st_lift (Inl (ScratchUnsafeEntry ''scratch migration destination is not empty''))
     else
       st_bind (on_source look_file) (\<lambda>_.
       st_bind (on_dest look_file) (\<lambda>_.
       st_bind (on_source look_file) (\<lambda>expected.
       st_bind (on_source (file_call (\<lambda>f. (fl_bytes f, f)) (\<lambda>_ f. f))) (\<lambda>data.
       st_bind (on_dest (write_at_end data)) (\<lambda>_.
       st_bind (on_dest look_file) (\<lambda>copied.
       if length data \<noteq> expected \<or> copied \<noteq> expected
       then st_lift (Inl (ScratchUnsafeEntry ''scratch migration did not copy the exact byte extent''))
       else (\<lambda>(s, d). (Inr (), s\<lparr>fl_committed_len := expected\<rparr>, d\<lparr>fl_committed_len := expected\<rparr>)))))))))))"

text \<open>\<open>copy_exact_from\<close>: the run that receives, then the run that gives.\<close>

definition copy_exact_from ::
    "hash \<Rightarrow> 'o scratch_run_marker serializer \<Rightarrow> 'o scratch_run \<Rightarrow> 'o scratch_run \<Rightarrow> (scratch_run_error + unit) \<times> 'o scratch_run \<times> 'o scratch_run" where
  "copy_exact_from H M dest source =
     (if run_marker dest \<noteq> run_marker source \<or> binding_digest H M dest \<noteq> binding_digest H M source
      then (Inl (ScratchUnsafeEntry ''identity mismatch''), dest, source)
      else
        (case binding_digest H M dest of
           Inl e \<Rightarrow> (Inl e, dest, source)
         | Inr _ \<Rightarrow>
             let (copied, s, d) = copy_file (run_pages source, run_pages dest);
                 dest = dest\<lparr>run_pages := d\<rparr>; source = source\<lparr>run_pages := s\<rparr> in
             (case copied of
                Inl e \<Rightarrow> (Inl e, dest, source)
              | Inr _ \<Rightarrow>
                  let (result, s, d) = copy_file (run_blobs source, run_blobs dest) in
                  (result, dest\<lparr>run_blobs := d\<rparr>, source\<lparr>run_blobs := s\<rparr>))))"

text \<open>The construction of the clone, on the source run and the namespace that receives it.\<close>

definition construct_clone ::
    "hash \<Rightarrow> 'o scratch_run_marker serializer \<Rightarrow> string \<Rightarrow> (string \<times> nat) option list \<times> (string \<times> nat) option list \<Rightarrow> 'o scratch_run \<Rightarrow>
     namespace \<Rightarrow> (scratch_run_error + 'o scratch_run) \<times> 'o scratch_run \<times> namespace" where
  "construct_clone H M run faults source ns =
     (case st_bind fs_call (\<lambda>_.
           st_bind (open_run run) (\<lambda>_.
           st_bind (st_lift (encode_marker M (run_marker source))) (\<lambda>encoded.
           st_bind (write_new_regular run SCRATCH_MARKER_FILE encoded) (\<lambda>_.
           st_bind (create_new_regular run SCRATCH_LEASE_FILE) (\<lambda>_.
           st_bind (lock_exclusive_nonblocking run) (\<lambda>locked.
           st_bind (if locked then take_lease run else st_lift (Inl (ScratchUnsafeEntry ''migrated scratch lease was already locked''))) (\<lambda>_.
           st_bind (create_new_regular run SCRATCH_PAGES_FILE) (\<lambda>_.
           st_bind (create_new_regular run SCRATCH_BLOBS_FILE) (\<lambda>_.
           st_bind fs_call (\<lambda>_.
           st_lift (open_files (run_marker source) [] [] faults))))))))))) ns of
        (Inl e, ns') \<Rightarrow> (Inl e, source, ns')
      | (Inr migrated, ns') \<Rightarrow>
          (case copy_exact_from H M migrated source of
             (Inl e, _, source') \<Rightarrow> (Inl e, source', ns')
           | (Inr _, migrated', source') \<Rightarrow> (Inr migrated', source', ns')))"

definition clone_retained_into ::
    "hash \<Rightarrow> uuid_text \<Rightarrow> 'o scratch_run_marker serializer \<Rightarrow> (string \<times> nat) option list \<times> (string \<times> nat) option list \<Rightarrow> 'o scratch_run \<Rightarrow>
     namespace \<Rightarrow> (scratch_run_error + 'o scratch_run) \<times> 'o scratch_run \<times> namespace" where
  "clone_retained_into H U M faults source ns =
     (let run = run_name_of U (mk_run_id (run_marker source)) in
      if mk_retention (run_marker source) \<noteq> Retained
      then (Inl (ScratchUnsafeEntry ''scratch migration source is not retained''), source, ns)
      else
        case st_bind ensure_scratch_dir (\<lambda>_. st_bind open_scratch_dir (\<lambda>_. create_dir run)) ns of
          (Inl e, ns') \<Rightarrow> (Inl e, source, ns')
        | (Inr _, ns') \<Rightarrow>
            (case construct_clone H M run faults source ns' of
               (Inl e, source', ns'') \<Rightarrow> (Inl e, source', snd (st_bind (release_lease run) (\<lambda>_. remove_partial_own_run run) ns''))
             | (Inr migrated, source', ns'') \<Rightarrow> (Inr migrated, source', ns'')))"

end
