(* ===== verification/Scratch_Lifecycle.thy ===== *)
theory Scratch_Lifecycle
  imports Scratch_Runs
begin

text \<open>
  What the life of a scratch run promises: which entries of the namespace a creation, a census or a reclamation may
  touch, that a creation without failures gives an empty run that holds its lease, and that the contents of a
  retained run survive its handle and are the contents of its clones.
\<close>

section \<open>What a call leaves alone\<close>

definition untouched :: "namespace \<Rightarrow> namespace \<Rightarrow> bool" where
  "untouched ns ns' \<longleftrightarrow> ns_entries ns' = ns_entries ns \<and> ns_root ns' = ns_root ns"

text \<open>Operations that only look, and operations that change at most the entry \<open>run\<close>.\<close>

definition reading :: "'a ns_op \<Rightarrow> bool" where
  "reading m \<longleftrightarrow> (\<forall>ns. untouched ns (snd (m ns)))"

definition confined :: "string \<Rightarrow> 'a ns_op \<Rightarrow> bool" where
  "confined run m \<longleftrightarrow> (\<forall>ns name. name \<noteq> run \<longrightarrow> entry_of (snd (m ns)) name = entry_of ns name)"

named_theorems frames \<open>operations that only look, or that stay within one entry\<close>

lemma untouched_refl [simp]: "untouched ns ns"
  by (simp add: untouched_def)

lemma untouched_trans: "untouched ns ns' \<Longrightarrow> untouched ns' ns'' \<Longrightarrow> untouched ns ns''"
  by (simp add: untouched_def)

lemma untouched_entry: "untouched ns ns' \<Longrightarrow> entry_of ns' name = entry_of ns name"
  by (simp add: untouched_def entry_of_def)

lemma untouched_run: "untouched ns ns' \<Longrightarrow> run_of ns' name = run_of ns name"
  by (simp add: run_of_def untouched_entry)

lemma reading_bind [frames]: "reading m \<Longrightarrow> (\<And>x. reading (f x)) \<Longrightarrow> reading (st_bind m f)"
  unfolding reading_def st_bind_def by (auto split: prod.splits sum.splits) (metis snd_conv untouched_trans)+

lemma reading_simple [frames]: "reading (st_lift x)" "reading (st_return y)" "reading fs_call" "reading (fs_look g)"
  by (auto simp: reading_def st_lift_def st_return_def fs_call_def fs_look_def st_bind_def untouched_def split: prod.splits sum.splits list.splits)

lemma reading_runs:
  assumes "reading m" shows "runs m ns (\<lambda>_. untouched ns) (\<lambda>_. untouched ns)"
proof -
  have "untouched ns (snd (m ns))" using assms by (simp add: reading_def)
  then show ?thesis by (auto simp: runs_def split: prod.splits sum.splits)
qed

lemma confined_bind [frames]: "confined run m \<Longrightarrow> (\<And>x. confined run (f x)) \<Longrightarrow> confined run (st_bind m f)"
  unfolding confined_def st_bind_def by (auto split: prod.splits sum.splits) (metis snd_conv)+

lemma reading_confined: "reading m \<Longrightarrow> confined run m"
  by (simp add: reading_def confined_def untouched_entry)

lemma confined_ignoring [frames]: "confined run m \<Longrightarrow> confined run (ignoring m)"
  by (simp add: confined_def ignoring_def)

lemma map_of_set_entry: "k \<noteq> Some run \<Longrightarrow> map_of (set_entry run e es) k = map_of es k"
  by (induction run e es rule: set_entry.induct) auto

lemma with_run_confined:
  "with_run run f ns = Inr ns' \<Longrightarrow> name \<noteq> run \<Longrightarrow> entry_of ns' name = entry_of ns name"
  by (auto simp: with_run_def bind_res_Inr entry_of_def map_of_set_entry)

lemma confined_change [frames]: "confined run (fs_change (with_run run f))"
  unfolding confined_def fs_change_def st_bind_def fs_call_def
  by (auto simp: with_run_confined entry_of_def split: prod.splits sum.splits list.splits option.splits dest: with_run_confined)

lemma map_of_filter_other: "k \<noteq> j \<Longrightarrow> map_of (filter (\<lambda>(i, _). i \<noteq> j) xs) k = map_of xs k"
  by (induction xs) auto

lemma confined_remove_dir [frames]: "confined run (remove_dir run)"
  unfolding confined_def remove_dir_def fs_change_def st_bind_def fs_call_def
  by (auto simp: entry_of_def map_of_filter_other bind_res_Inr split: prod.splits sum.splits list.splits option.splits if_splits)

lemma confined_create_dir [frames]: "confined run (create_dir run)"
  unfolding confined_def create_dir_def fs_change_def st_bind_def fs_call_def
  by (auto simp: entry_of_def map_add_def split: prod.splits sum.splits list.splits option.splits if_splits)

lemma confined_lease [frames]: "confined run (take_lease run)" "confined run (release_lease run)"
  by (auto simp: confined_def take_lease_def release_lease_def with_run_confined split: sum.splits)

lemma reading_calls [frames]:
  "reading (open_run run)" "reading (open_regular_read_write_nofollow run name)" "reading (read_regular_nofollow run name limit)"
  "reading (lock_exclusive_nonblocking run)" "reading (require_real_directory name)" "reading open_scratch_dir"
  unfolding open_run_def open_regular_read_write_nofollow_def read_regular_nofollow_def lock_exclusive_nonblocking_def
    require_real_directory_def open_scratch_dir_def
  by (intro frames | simp split: scratch_file.split | rule conjI | intro frames allI impI)+

lemma reading_listing [frames]: "reading (validate_listing visited listing)"
proof (induction visited listing rule: validate_listing.induct)
  case (2 visited k f rest)
  then show ?case by (cases k) (auto intro!: frames)
qed (simp add: frames)

lemma reading_validate [frames]: "reading (validate_run_entries run)"
  unfolding validate_run_entries_def by (intro frames) (auto intro!: frames)

lemmas confined_reads [frames] =
  reading_simple [THEN reading_confined] reading_calls [THEN reading_confined] reading_validate [THEN reading_confined]

lemma confined_files [frames]:
  "confined run (create_new_regular run name)" "confined run (write_new_regular run name data)" "confined run (remove_file run name)"
  unfolding create_new_regular_def write_new_regular_def remove_file_def by (intro frames)+

lemma confined_removals [frames]:
  "confined run (remove_stale_run run)" "confined run (remove_partial_own_run run)" "confined run (cleanup_own_run run)"
proof -
  have otherwise: "confined run (\<lambda>ns. case m ns of (Inl _, ns') \<Rightarrow> (Inr (), ns') | (Inr _, ns') \<Rightarrow> n ns')"
    if "reading m" "confined run n" for m :: "run_dir ns_op" and n
    using that unfolding reading_def confined_def
    by (auto split: prod.splits sum.splits) (metis snd_conv untouched_entry)+
  show "confined run (remove_stale_run run)" "confined run (cleanup_own_run run)"
    unfolding remove_stale_run_def cleanup_own_run_def by (intro frames)+
  show "confined run (remove_partial_own_run run)"
    unfolding remove_partial_own_run_def by (intro confined_bind otherwise frames)
qed

section \<open>Authentic siblings\<close>

text \<open>
  The directory \<open>name\<close> is a run of \<open>owner\<close>: its marker file holds the canonical encoding of a marker of this schema,
  of this owner, with the identifier the name spells.
\<close>

definition authentic :: "uuid_text \<Rightarrow> 'o scratch_run_marker serializer \<Rightarrow> 'o \<Rightarrow> namespace \<Rightarrow> string \<Rightarrow> 'o scratch_run_marker \<Rightarrow> bool" where
  "authentic U M owner ns name marker \<longleftrightarrow>
     (\<exists>d data. entry_of ns name = Some (RunDirectory d) \<and> map_of (rd_files d) (Some SCRATCH_MARKER_FILE) = Some (RegularFile data)
        \<and> decode_marker M data = Inr marker)
     \<and> parse_run_name U name = Inr (mk_run_id marker) \<and> mk_schema_version marker = SCRATCH_SCHEMA_VERSION \<and> mk_owner marker = owner"

definition unleased :: "namespace \<Rightarrow> string \<Rightarrow> bool" where
  "unleased ns name \<longleftrightarrow> (\<exists>d. entry_of ns name = Some (RunDirectory d) \<and> \<not> rd_leased d)"

lemma authentic_untouched: "untouched ns ns' \<Longrightarrow> authentic U M owner ns' = authentic U M owner ns"
  by (intro ext) (simp add: authentic_def untouched_entry)

lemma unleased_untouched: "untouched ns ns' \<Longrightarrow> unleased ns' = unleased ns"
  by (intro ext) (simp add: unleased_def untouched_entry)

text \<open>One step that only looks, in front of steps that rely on what it has seen.\<close>

lemma runs_reading:
  assumes "reading m" "untouched ns0 ns" "\<And>x ns'. m ns = (Inr x, ns') \<Longrightarrow> untouched ns0 ns' \<Longrightarrow> runs (f x) ns' Q E" "\<And>e ns'. untouched ns0 ns' \<Longrightarrow> E e ns'"
  shows "runs (st_bind m f) ns Q E"
proof -
  have "untouched ns0 (snd (m ns))" using assms(1,2) untouched_trans by (auto simp: reading_def)
  then show ?thesis using assms(3,4) by (auto simp: runs_def st_bind_def split: prod.splits sum.splits)
qed

lemma st_bind_InrD: "st_bind m f s = (Inr y, s'') \<Longrightarrow> \<exists>x s'. m s = (Inr x, s') \<and> f x s' = (Inr y, s'')"
  by (auto simp: st_bind_def split: prod.splits sum.splits)

lemma look_sees: "fs_look f ns = (Inr x, ns') \<Longrightarrow> untouched ns ns' \<and> f ns' = Inr x"
  by (auto simp: fs_look_def st_bind_def fs_call_def untouched_def split: list.splits option.splits)

lemma open_regular_sees:
  assumes "open_regular_read_write_nofollow run name ns = (Inr data, ns')"
  shows "\<exists>d. entry_of ns run = Some (RunDirectory d) \<and> map_of (rd_files d) (Some name) = Some (RegularFile data)"
proof -
  obtain f ns1 where f: "fs_look (\<lambda>ns. bind_res (run_of ns run) (\<lambda>d. file_of d name)) ns = (Inr f, ns1)"
    "st_bind fs_call (\<lambda>_. case f of OtherFile \<Rightarrow> st_lift (Inl (ScratchUnsafeEntry ''not a regular file'')) | RegularFile data \<Rightarrow> st_return data) ns1
       = (Inr data, ns')"
    using st_bind_InrD [OF assms [unfolded open_regular_read_write_nofollow_def]] by blast
  have "f = RegularFile data"
    using st_bind_InrD [OF f(2)] by (auto simp: st_lift_def st_return_def split: scratch_file.splits)
  then show ?thesis using look_sees [OF f(1)]
    by (auto simp: bind_res_Inr file_of_def ok_or_Inr untouched_run run_of_def [of ns] split: option.splits ns_entry.splits)
qed

lemma read_regular_sees:
  assumes "read_regular_nofollow run name limit ns = (Inr data, ns')"
  shows "\<exists>d. entry_of ns run = Some (RunDirectory d) \<and> map_of (rd_files d) (Some name) = Some (RegularFile data)"
proof -
  obtain x ns1 where x: "open_regular_read_write_nofollow run name ns = (Inr x, ns1)"
    "st_bind fs_call (\<lambda>_. if limit < length x then st_lift (Inl (ScratchUnsafeEntry ''scratch file exceeds its bound''))
       else st_bind fs_call (\<lambda>_. st_return x)) ns1 = (Inr data, ns')"
    using st_bind_InrD [OF assms [unfolded read_regular_nofollow_def]] by blast
  have "x = data"
    using st_bind_InrD [OF x(2)] by (auto simp: st_lift_def st_return_def split: if_splits dest!: st_bind_InrD)
  then show ?thesis using open_regular_sees [OF x(1)] by simp
qed

lemma read_sibling_sees:
  "runs (read_sibling U M owner name) ns (\<lambda>marker ns'. untouched ns ns' \<and> authentic U M owner ns name marker) (\<lambda>_. untouched ns)"
proof (cases "parse_run_name U name")
  case (Inl e)
  then show ?thesis by (simp add: read_sibling_def)
next
  case (Inr run_id)
  show ?thesis
    unfolding read_sibling_def Inr st_bind_Inr
  proof (intro runs_reading [where ?ns0.0 = ns], goal_cases)
    case (9 x1 ns1 x2 ns2 data ns3 marker ns4)
    then obtain d where d: "entry_of ns name = Some (RunDirectory d)" "map_of (rd_files d) (Some SCRATCH_MARKER_FILE) = Some (RegularFile data)"
      using read_regular_sees [OF 9(5)] untouched_entry [OF 9(4)] by auto
    have marker: "decode_marker M data = Inr marker" using 9 by (simp add: st_lift_def)
    show ?case
    proof (cases "mk_schema_version marker \<noteq> SCRATCH_SCHEMA_VERSION \<or> mk_owner marker \<noteq> owner \<or> mk_run_id marker \<noteq> run_id")
      case True
      then show ?thesis using 9 by simp
    next
      case False
      then have auth: "authentic U M owner ns name marker" using d marker Inr by (auto simp: authentic_def)
      have "runs (st_bind (validate_run_entries name) (\<lambda>_. st_return marker)) ns4
          (\<lambda>m ns'. untouched ns ns' \<and> authentic U M owner ns name m) (\<lambda>_. untouched ns)"
        using 9 auth by (intro runs_reading [where ?ns0.0 = ns] frames) auto
      then show ?thesis using False by simp
    qed
  qed (assumption | intro frames untouched_refl)+
qed

text \<open>What may become of a sibling: nothing, unless it is authentic, unleased and of the retention \<open>P\<close> allows.\<close>

definition spares :: "uuid_text \<Rightarrow> 'o scratch_run_marker serializer \<Rightarrow> 'o \<Rightarrow> ('o scratch_run_marker \<Rightarrow> bool) \<Rightarrow> namespace \<Rightarrow> namespace \<Rightarrow> bool" where
  "spares U M owner P ns ns' \<longleftrightarrow>
     (\<forall>name. entry_of ns' name = entry_of ns name
        \<or> (\<exists>marker. authentic U M owner ns name marker \<and> P marker \<and> unleased ns name))"

lemma spares_untouched: "untouched ns ns' \<Longrightarrow> spares U M owner P ns ns'"
  by (simp add: spares_def untouched_entry)

lemma spares_trans:
  assumes "spares U M owner P ns ns'" "spares U M owner P ns' ns''" shows "spares U M owner P ns ns''"
  unfolding spares_def
proof
  fix name
  have "authentic U M owner ns' name = authentic U M owner ns name" "unleased ns' name = unleased ns name"
    if "entry_of ns' name = entry_of ns name"
    using that by (auto simp: authentic_def unleased_def fun_eq_iff)
  then show "entry_of ns'' name = entry_of ns name \<or> (\<exists>marker. authentic U M owner ns name marker \<and> P marker \<and> unleased ns name)"
    using assms unfolding spares_def by metis
qed

lemma removal_spares:
  assumes "untouched ns ns1" "authentic U M owner ns name marker" "P marker" "unleased ns name"
  shows "runs (st_bind (remove_stale_run name) (\<lambda>_. st_return x)) ns1 (\<lambda>_. spares U M owner P ns) (\<lambda>_. spares U M owner P ns)"
proof -
  have "confined name (st_bind (remove_stale_run name) (\<lambda>_. st_return x))" by (intro frames)
  then have "entry_of (snd (st_bind (remove_stale_run name) (\<lambda>_. st_return x) ns1)) k = entry_of ns k" if "k \<noteq> name" for k
    using that assms(1) by (simp add: confined_def untouched_entry)
  then have "spares U M owner P ns (snd (st_bind (remove_stale_run name) (\<lambda>_. st_return x) ns1))"
    using assms(2-4) unfolding spares_def by metis
  then show ?thesis by (auto simp: runs_def split: prod.splits sum.splits)
qed

lemma lock_sees: "lock_exclusive_nonblocking name ns = (Inr locked, ns') \<Longrightarrow> locked \<Longrightarrow> unleased ns name"
  by (auto simp: lock_exclusive_nonblocking_def bind_res_Inr unleased_def run_of_def untouched_entry
      split: option.splits ns_entry.splits dest!: look_sees)

lemma classify_stale_spares:
  "runs (classify_stale_sibling U M owner own_name observe entry) ns
     (\<lambda>_. spares U M owner (\<lambda>m. mk_retention m = Ephemeral \<and> run_name_of U (mk_run_id m) \<noteq> own_name) ns)
     (\<lambda>_. spares U M owner (\<lambda>m. mk_retention m = Ephemeral \<and> run_name_of U (mk_run_id m) \<noteq> own_name) ns)"
  (is "runs ?m ns (\<lambda>_. ?S) (\<lambda>_. ?S)")
proof (cases entry)
  case None
  then show ?thesis by (simp add: classify_stale_sibling_def spares_untouched)
next
  case (Some name)
  show ?thesis
  proof (cases "name = own_name \<or> isl (observe InspectSibling)")
    case True
    then show ?thesis using Some by (auto simp: classify_stale_sibling_def spares_untouched isl_def)
  next
    case False
    then obtain u where u: "observe InspectSibling = Inr u" "name \<noteq> own_name" by (cases "observe InspectSibling") auto
    have "runs (st_bind (read_sibling U M owner name) (\<lambda>marker.
        if mk_retention marker = Retained then st_return RetainedPreserved
        else
          st_bind (open_regular_read_write_nofollow name SCRATCH_LEASE_FILE) (\<lambda>_.
          st_bind (lock_exclusive_nonblocking name) (\<lambda>locked.
          if \<not> locked then st_return LivePreserved
          else st_bind (remove_stale_run name) (\<lambda>_. st_return Reclaimed))))) ns (\<lambda>_. ?S) (\<lambda>_. ?S)"
    proof (rule runs_bind [OF runs_mono [OF read_sibling_sees]], assumption, erule spares_untouched, elim conjE, goal_cases)
      case (1 marker ns1)
      have name: "run_name_of U (mk_run_id marker) = name"
        using 1(2) by (auto simp: authentic_def parse_run_name_def split: if_splits option.splits)
      show ?case
      proof (cases "mk_retention marker")
        case Retained
        then show ?thesis using 1 by (simp add: spares_untouched)
      next
        case Ephemeral
        have "runs (st_bind (open_regular_read_write_nofollow name SCRATCH_LEASE_FILE) (\<lambda>_.
          st_bind (lock_exclusive_nonblocking name) (\<lambda>locked.
          if \<not> locked then st_return LivePreserved
          else st_bind (remove_stale_run name) (\<lambda>_. st_return Reclaimed)))) ns1 (\<lambda>_. ?S) (\<lambda>_. ?S)"
        proof (intro runs_reading [where ?ns0.0 = ns], goal_cases)
          case (5 x2 ns2 locked ns3)
          show ?case
          proof (cases locked)
            case True
            have "unleased ns name" using lock_sees [OF 5(3)] True unleased_untouched [OF 5(2)] by simp
            then have "runs (st_bind (remove_stale_run name) (\<lambda>_. st_return Reclaimed)) ns3 (\<lambda>_. ?S) (\<lambda>_. ?S)"
              using Ephemeral name u(2) by (intro removal_spares [OF 5(4) 1(2)]) auto
            then show ?thesis using True by simp
          qed (use 5(4) in \<open>simp add: spares_untouched\<close>)
        qed (use 1 in \<open>auto intro: frames spares_untouched\<close>)
        then show ?thesis using Ephemeral by simp
      qed
    qed
    then show ?thesis using Some u by (simp add: classify_stale_sibling_def)
  qed
qed

section \<open>Reclamation spares every other run\<close>

lemma unwrap_or_spares:
  assumes "\<And>ns. runs m ns (\<lambda>_. spares U M owner P ns) (\<lambda>_. spares U M owner P ns)"
  shows "spares U M owner P ns (snd (unwrap_or x (st_bind fs_call (\<lambda>_. m)) ns))"
proof -
  have "runs (st_bind fs_call (\<lambda>_. m)) ns (\<lambda>_. spares U M owner P ns) (\<lambda>_. spares U M owner P ns)"
  proof (rule runs_bind [OF runs_mono [OF reading_runs [OF reading_simple(3)]]], assumption, erule spares_untouched)
    fix ns1 assume u: "untouched ns ns1"
    show "runs m ns1 (\<lambda>_. spares U M owner P ns) (\<lambda>_. spares U M owner P ns)"
      by (rule runs_mono [OF assms]) (erule spares_trans [OF spares_untouched [OF u]])+
  qed
  then show ?thesis by (auto simp: unwrap_or_def runs_def split: prod.splits sum.splits)
qed

lemma reclaim_entries_spares:
  "spares U M owner (\<lambda>m. mk_retention m = Ephemeral \<and> run_name_of U (mk_run_id m) \<noteq> own_name) ns
     (snd (reclaim_entries U M owner own_name observe entries stats ns))"
proof (induction entries arbitrary: stats ns)
  case Nil
  then show ?case by (simp add: spares_untouched)
next
  case (Cons entry entries)
  show ?case
    using spares_trans [OF unwrap_or_spares [OF classify_stale_spares, where x = Unclassified] Cons.IH]
    by (simp add: case_prod_beta Let_def)
qed

lemma reclaim_stale_spares:
  "spares U M owner (\<lambda>m. mk_retention m = Ephemeral \<and> run_name_of U (mk_run_id m) \<noteq> own_name) ns
     (snd (reclaim_stale_runs U M owner own_name observe stats ns))"
proof (cases "fs_look (\<lambda>ns. Inr (map fst (ns_entries ns)) :: scratch_run_error + _) ns")
  case (Pair res ns1)
  have u: "untouched ns ns1" using reading_simple(4) Pair by (metis reading_def snd_conv)
  show ?thesis
    using spares_trans [OF spares_untouched [OF u] reclaim_entries_spares] spares_untouched [OF u] Pair
    by (cases res) (simp_all add: reclaim_stale_runs_def)
qed

lemma authenticate_sees:
  "runs (authenticate_scratch_sibling U M owner entry) ns
     (\<lambda>(name, sibling) ns'. untouched ns ns' \<and> entry = Some name \<and> (\<exists>marker. authentic U M owner ns name marker
        \<and> sibling = (case mk_retention marker of Retained \<Rightarrow> RetainedSibling (mk_run_id marker) | Ephemeral \<Rightarrow> EphemeralSibling)))
     (\<lambda>_. untouched ns)"
proof (cases entry)
  case (Some name)
  show ?thesis
    by (auto simp: authenticate_scratch_sibling_def Some intro!: runs_bind [OF read_sibling_sees])
qed (simp add: authenticate_scratch_sibling_def)

lemma classify_retained_spares:
  "runs (classify_retained_sibling U M owner reachable entry) ns
     (\<lambda>_. spares U M owner (\<lambda>m. mk_retention m = Retained \<and> \<not> reachable (mk_run_id m)) ns)
     (\<lambda>_. spares U M owner (\<lambda>m. mk_retention m = Retained \<and> \<not> reachable (mk_run_id m)) ns)"
  (is "runs ?m ns (\<lambda>_. ?S) (\<lambda>_. ?S)")
  unfolding classify_retained_sibling_def
proof (rule runs_bind [OF runs_mono [OF authenticate_sees]], assumption, erule spares_untouched, clarsimp, goal_cases)
  case (1 name ns1 marker)
  show ?case
  proof (cases "mk_retention marker = Retained \<and> \<not> reachable (mk_run_id marker)")
    case False
    then show ?thesis using 1 by (cases "mk_retention marker") (simp_all add: spares_untouched)
  next
    case True
    have "runs (st_bind (open_run name) (\<lambda>_. st_bind (open_regular_read_write_nofollow name SCRATCH_LEASE_FILE) (\<lambda>_.
           st_bind (lock_exclusive_nonblocking name) (\<lambda>locked.
           if \<not> locked then st_return RunLivePreserved
           else st_bind (remove_stale_run name) (\<lambda>_. st_return RunReclaimed))))) ns1 (\<lambda>_. ?S) (\<lambda>_. ?S)"
    proof (intro runs_reading [where ?ns0.0 = ns], goal_cases)
      case (7 x ns2 y ns3 locked ns4)
      show ?case
      proof (cases locked)
        case t: True
        have "unleased ns name" using lock_sees [OF 7(5)] t unleased_untouched [OF 7(4)] by simp
        then have "runs (st_bind (remove_stale_run name) (\<lambda>_. st_return RunReclaimed)) ns4 (\<lambda>_. ?S) (\<lambda>_. ?S)"
          using True by (intro removal_spares [OF 7(6) 1(3)]) auto
        then show ?thesis using t by simp
      qed (use 7(6) in \<open>simp add: spares_untouched\<close>)
    qed (use 1 in \<open>auto intro: frames spares_untouched\<close>)
    then show ?thesis using True by simp
  qed
qed

lemma reclaim_retained_entries_spares:
  "spares U M owner (\<lambda>m. mk_retention m = Retained \<and> \<not> reachable (mk_run_id m)) ns
     (snd (reclaim_retained_entries U M owner reachable entries outcome ns))"
proof (induction entries arbitrary: outcome ns)
  case Nil
  then show ?case by (simp add: spares_untouched)
next
  case (Cons entry entries)
  show ?case
    using spares_trans [OF unwrap_or_spares [OF classify_retained_spares, where x = RunUnclassified] Cons.IH]
    by (simp add: case_prod_beta Let_def)
qed

lemma reading_present [frames]: "reading open_scratch_namespace"
  unfolding open_scratch_namespace_def by (intro frames) (auto split: scratch_root.split intro: frames)

lemma reclaim_unreachable_spares:
  "spares U M owner (\<lambda>m. mk_retention m = Retained \<and> \<not> reachable (mk_run_id m)) ns
     (snd (reclaim_unreachable_retained_runs U M owner reachable ns))"
proof -
  let ?S = "spares U M owner (\<lambda>m. mk_retention m = Retained \<and> \<not> reachable (mk_run_id m)) ns"
  have "runs (reclaim_unreachable_retained_runs U M owner reachable) ns (\<lambda>_. ?S) (\<lambda>_. ?S)"
    unfolding reclaim_unreachable_retained_runs_def Let_def
  proof (intro runs_reading [where ?ns0.0 = ns], goal_cases)
    case (3 present ns1)
    show ?case
    proof (cases present)
      case True
      have "runs (st_bind (fs_look (\<lambda>ns. Inr (map fst (ns_entries ns)))) (\<lambda>entries ns.
          let (outcome, ns') = reclaim_retained_entries U M owner reachable entries outcome0 ns in (Inr outcome, ns'))) ns1 (\<lambda>_. ?S) (\<lambda>_. ?S)" for outcome0
      proof (intro runs_reading [where ?ns0.0 = ns], goal_cases)
        case (3 entries ns2)
        show ?case
          using spares_trans [OF spares_untouched [OF 3(2)] reclaim_retained_entries_spares]
          by (simp add: runs_def case_prod_beta Let_def)
      qed (use 3 in \<open>auto intro: frames spares_untouched\<close>)
      then show ?thesis using True by simp
    qed (use 3 in \<open>simp add: spares_untouched\<close>)
  qed (auto intro: frames spares_untouched)
  then show ?thesis by (auto simp: runs_def split: prod.splits sum.splits)
qed

section \<open>The census\<close>

lemma census_entries_ok:
  "untouched ns (snd (census_entries U M owner entries census ns)) \<and>
   (let c = fst (census_entries U M owner entries census ns) in
    cs_retained c + cs_ephemeral c + cs_unclassified c = cs_retained census + cs_ephemeral census + cs_unclassified census + length entries)"
proof (induction entries arbitrary: census ns)
  case (Cons entry entries)
  have "runs (st_bind fs_call (\<lambda>_. authenticate_scratch_sibling U M owner entry)) ns (\<lambda>_. untouched ns) (\<lambda>_. untouched ns)"
  proof (intro runs_reading [where ?ns0.0 = ns], goal_cases)
    case (3 x ns1)
    show ?case by (rule runs_mono [OF authenticate_sees]) (auto intro: untouched_trans [OF 3(2)])
  qed (auto intro: frames)
  then have u: "untouched ns (snd (st_bind fs_call (\<lambda>_. authenticate_scratch_sibling U M owner entry) ns))"
    by (auto simp: runs_def split: prod.splits sum.splits)
  obtain res ns1 where res: "st_bind fs_call (\<lambda>_. authenticate_scratch_sibling U M owner entry) ns = (res, ns1)" by force
  have u1: "untouched ns ns1" using u res by simp
  let ?next = "\<lambda>c. census_entries U M owner entries c ns1"
  have step: "\<exists>c. census_entries U M owner (entry # entries) census ns = ?next c
      \<and> cs_retained c + cs_ephemeral c + cs_unclassified c = cs_retained census + cs_ephemeral census + cs_unclassified census + 1"
  proof (cases res)
    case (Inl e)
    then show ?thesis using res by (intro exI [of _ "census\<lparr>cs_unclassified := cs_unclassified census + 1\<rparr>"]) simp
  next
    case (Inr x)
    then obtain name sibling where x: "x = (name, sibling)" by force
    show ?thesis
    proof (cases sibling)
      case (RetainedSibling i)
      then show ?thesis using res Inr x by (intro exI [of _ "census\<lparr>cs_retained := cs_retained census + 1\<rparr>"]) simp
    next
      case EphemeralSibling
      then show ?thesis using res Inr x by (intro exI [of _ "census\<lparr>cs_ephemeral := cs_ephemeral census + 1\<rparr>"]) simp
    qed
  qed
  then obtain c where c: "census_entries U M owner (entry # entries) census ns = ?next c"
      "cs_retained c + cs_ephemeral c + cs_unclassified c = cs_retained census + cs_ephemeral census + cs_unclassified census + 1" by blast
  show ?case unfolding c(1) using Cons.IH [of ns1 c] c(2) untouched_trans [OF u1] by (simp add: Let_def)
qed simp

lemma census_ok:
  "untouched ns (snd (census_retained_runs U M owner ns))
   \<and> (\<forall>c ns'. census_retained_runs U M owner ns = (Inr c, ns') \<longrightarrow>
        cs_retained c + cs_ephemeral c + cs_unclassified c = (if ns_root ns = NoRoot then 0 else length (ns_entries ns)))"
proof -
  let ?Q = "\<lambda>c. cs_retained c + cs_ephemeral c + cs_unclassified c = (if ns_root ns = NoRoot then 0 else length (ns_entries ns))"
  have present: "open_scratch_namespace ns = (Inr b, ns1) \<Longrightarrow> b \<longleftrightarrow> ns_root ns \<noteq> NoRoot" for b ns1
    by (auto simp: open_scratch_namespace_def st_lift_def st_return_def untouched_def split: scratch_root.splits
        dest!: st_bind_InrD look_sees)
  have "runs (census_retained_runs U M owner) ns (\<lambda>c ns'. untouched ns ns' \<and> ?Q c) (\<lambda>_. untouched ns)"
    unfolding census_retained_runs_def Let_def
  proof (intro runs_reading [where ?ns0.0 = ns], goal_cases)
    case (3 b ns1)
    note b = present [OF 3(1)]
    show ?case
    proof (cases b)
      case True
      have "runs (st_bind (fs_look (\<lambda>ns. Inr (map fst (ns_entries ns)))) (\<lambda>entries ns.
          let (census, ns') = census_entries U M owner entries \<lparr>cs_retained = 0, cs_ephemeral = 0, cs_unclassified = 0\<rparr> ns in (Inr census, ns'))) ns1
        (\<lambda>c ns'. untouched ns ns' \<and> ?Q c) (\<lambda>_. untouched ns)"
      proof (intro runs_reading [where ?ns0.0 = ns], goal_cases)
        case (3 entries ns2)
        have "length entries = length (ns_entries ns)" using look_sees [OF 3(1)] 3(2) by (auto simp: untouched_def)
        then show ?case
          using census_entries_ok [of ns2 U M owner entries "\<lparr>cs_retained = 0, cs_ephemeral = 0, cs_unclassified = 0\<rparr>"] b True
            untouched_trans [OF 3(2)]
          by (simp add: runs_def case_prod_beta Let_def)
      qed (use 3 in \<open>auto intro: frames\<close>)
      then show ?thesis using True by (simp add: case_prod_beta Let_def)
    qed (use 3 b in simp)
  qed (auto intro: frames)
  then show ?thesis by (auto simp: runs_def split: prod.splits sum.splits)
qed

section \<open>Creation\<close>

definition kept :: "string \<Rightarrow> namespace \<Rightarrow> namespace \<Rightarrow> bool" where
  "kept run ns ns' \<longleftrightarrow> (\<forall>name. name \<noteq> run \<longrightarrow> entry_of ns' name = entry_of ns name)"

lemma confined_kept: "confined run m \<Longrightarrow> kept run ns ns1 \<Longrightarrow> kept run ns (snd (m ns1))"
  by (simp add: confined_def kept_def)

lemma confined_runs:
  assumes "confined run m" "kept run ns ns1" shows "runs m ns1 (\<lambda>_. kept run ns) (\<lambda>_. kept run ns)"
  using confined_kept [OF assms] by (auto simp: runs_def split: prod.splits sum.splits)

lemma confined_construct [frames]: "confined run (construct_own_run M run marker observe faults)"
  unfolding construct_own_run_def by (intro frames) (auto intro: frames)

lemma ensure_kept:
  assumes "ns_root ns = NoRoot \<longrightarrow> ns_entries ns = []"
  shows "runs ensure_scratch_dir ns (\<lambda>_. kept run ns) (\<lambda>_. kept run ns)"
  unfolding ensure_scratch_dir_def
proof (intro runs_reading [where ?ns0.0 = ns], goal_cases)
  case (3 root ns1)
  have root: "root = ns_root ns" "ns_entries ns1 = ns_entries ns" using look_sees [OF 3(1)] 3(2) by (auto simp: untouched_def)
  show ?case
  proof (cases root)
    case NoRoot
    have "kept run ns (snd (st_bind (fs_change (\<lambda>ns. Inr (ns\<lparr>ns_root := RealDirectory, ns_entries := []\<rparr>))) (\<lambda>_. fs_call) ns1))"
      using assms root NoRoot
      by (auto simp: kept_def entry_of_def fs_change_def fs_call_def st_bind_def split: list.splits option.splits)
    then show ?thesis using NoRoot by (auto simp: runs_def split: prod.splits sum.splits)
  qed (use root in \<open>auto simp: kept_def entry_of_def\<close>)
qed (auto intro: frames simp: kept_def untouched_entry)

text \<open>Every sibling of a run in creation is spared, at every outcome, unless it is a stale run of the same owner.\<close>

definition spares_siblings :: "uuid_text \<Rightarrow> 'o scratch_run_marker serializer \<Rightarrow> 'o \<Rightarrow> string \<Rightarrow> namespace \<Rightarrow> namespace \<Rightarrow> bool" where
  "spares_siblings U M owner run ns ns' \<longleftrightarrow>
     (\<forall>name. name \<noteq> run \<longrightarrow> entry_of ns' name = entry_of ns name
        \<or> (\<exists>m. authentic U M owner ns name m \<and> mk_retention m = Ephemeral \<and> unleased ns name))"

lemma kept_siblings: "kept run ns ns' \<Longrightarrow> spares_siblings U M owner run ns ns'"
  by (simp add: kept_def spares_siblings_def)

lemma spares_siblings_step:
  assumes "kept run ns ns1" "spares U M owner (\<lambda>m. mk_retention m = Ephemeral \<and> run_name_of U (mk_run_id m) \<noteq> run) ns1 ns2"
  shows "spares_siblings U M owner run ns ns2"
  unfolding spares_siblings_def
proof (intro allI impI)
  fix name assume "name \<noteq> run"
  then have e: "entry_of ns1 name = entry_of ns name" using assms(1) by (simp add: kept_def)
  then have "authentic U M owner ns1 name = authentic U M owner ns name" "unleased ns1 name = unleased ns name"
    by (auto simp: authentic_def unleased_def fun_eq_iff)
  then show "entry_of ns2 name = entry_of ns name \<or> (\<exists>m. authentic U M owner ns name m \<and> mk_retention m = Ephemeral \<and> unleased ns name)"
    using assms(2) e unfolding spares_def by metis
qed

lemma spares_siblings_confined:
  "spares_siblings U M owner run ns ns1 \<Longrightarrow> confined run m \<Longrightarrow> spares_siblings U M owner run ns (snd (m ns1))"
  by (simp add: spares_siblings_def confined_def)

lemma runs_kept:
  assumes "runs m ns1 (\<lambda>_. kept run ns) (\<lambda>_. kept run ns)"
    "\<And>x ns'. kept run ns ns' \<Longrightarrow> runs (f x) ns' (\<lambda>_. spares_siblings U M owner run ns) (\<lambda>_. spares_siblings U M owner run ns)"
  shows "runs (st_bind m f) ns1 (\<lambda>_. spares_siblings U M owner run ns) (\<lambda>_. spares_siblings U M owner run ns)"
  by (rule runs_bind [OF runs_mono [OF assms(1)] assms(2)]) (auto intro: kept_siblings)

lemma create_run_spares:
  assumes "ns_root ns = NoRoot \<longrightarrow> ns_entries ns = []"
  shows "spares_siblings U M (mk_owner marker) (run_name_of U (mk_run_id marker)) ns (snd (create_run U M marker observe faults ns))"
proof -
  let ?run = "run_name_of U (mk_run_id marker)"
  let ?S = "spares_siblings U M (mk_owner marker) ?run ns"
  have "runs (create_run U M marker observe faults) ns (\<lambda>_. ?S) (\<lambda>_. ?S)"
    unfolding create_run_def Let_def
  proof (intro runs_kept [OF ensure_kept [OF assms]] runs_kept [OF confined_runs] frames confined_create_dir, assumption, assumption, goal_cases)
    case (1 _ ns1 _ ns2 _ ns3)
    obtain res ns4 where c: "construct_own_run M ?run marker observe faults ns3 = (res, ns4)" by force
    have "kept ?run ns ns3" by (rule 1(3))
    from confined_kept [OF confined_construct this, of M marker observe faults] have k: "kept ?run ns ns4" by (simp add: c)
    show ?case
    proof (cases res)
      case (Inl e)
      have "?S (snd (st_bind (release_lease ?run) (\<lambda>_. remove_partial_own_run ?run) ns4))"
        by (rule kept_siblings [OF confined_kept [OF _ k]]) (intro frames)
      then show ?thesis using c Inl by (simp add: runs_def)
    next
      case (Inr r)
      let ?zero = "\<lparr>lc_stale_runs_reclaimed = 0, lc_live_runs_skipped = 0, lc_retained_runs_preserved = 0, lc_unclassified_runs_preserved = 0\<rparr>"
      have s: "?S (snd (reclaim_stale_runs U M (mk_owner marker) ?run observe ?zero ns4))"
        by (rule spares_siblings_step [OF k reclaim_stale_spares])
      show ?thesis
        using c Inr s spares_siblings_confined [OF s confined_removals(3)]
        by (cases "observe AfterReclaim") (simp_all add: runs_def case_prod_beta Let_def)
    qed
  qed
  then show ?thesis by (auto simp: runs_def split: prod.splits sum.splits)
qed

section \<open>A retained run outlives its handle\<close>

lemma call_quiet: "ns_faults ns = [] \<Longrightarrow> fs_call ns = (Inr (), ns)"
  and look_quiet: "ns_faults ns = [] \<Longrightarrow> fs_look f ns = (f ns, ns)"
  by (simp_all add: fs_call_def fs_look_def st_bind_def)

definition run_dir_ok :: "'o scratch_run_marker serializer \<Rightarrow> 'o scratch_run_marker \<Rightarrow> run_dir \<Rightarrow> bool" where
  "run_dir_ok M marker d \<longleftrightarrow>
     distinct (map fst (rd_files d)) \<and> fst ` set (rd_files d) = Some ` set RUN_FILES \<and> (\<forall>(k, f) \<in> set (rd_files d). f \<noteq> OtherFile)
     \<and> (\<exists>data. encode_marker M marker = Inr data \<and> length data \<le> MAX_MARKER_BYTES
          \<and> map_of (rd_files d) (Some SCRATCH_MARKER_FILE) = Some (RegularFile data))"

text \<open>The namespace holds the open run \<open>r\<close>, leased by its handle.\<close>

definition holds_run :: "uuid_text \<Rightarrow> 'o scratch_run_marker serializer \<Rightarrow> namespace \<Rightarrow> 'o scratch_run \<Rightarrow> bool" where
  "holds_run U M ns r \<longleftrightarrow>
     ns_root ns = RealDirectory \<and> ns_faults ns = []
     \<and> mk_schema_version (run_marker r) = SCRATCH_SCHEMA_VERSION
     \<and> parse_run_name U (run_name_of U (mk_run_id (run_marker r))) = Inr (mk_run_id (run_marker r))
     \<and> (\<exists>d. entry_of ns (run_name_of U (mk_run_id (run_marker r))) = Some (RunDirectory d) \<and> rd_leased d \<and> run_dir_ok M (run_marker r) d)"

lemma map_of_put: "map_of (rd_files (put_file name data d)) k =
    (if k = Some name \<and> map_of (rd_files d) k \<noteq> None then Some (RegularFile data) else map_of (rd_files d) k)"
proof -
  have "map_of (map (\<lambda>(k, f). if k = Some name then (k, RegularFile data) else (k, f)) xs) k =
    (if k = Some name \<and> map_of xs k \<noteq> None then Some (RegularFile data) else map_of xs k)" for xs
    by (induction xs) auto
  then show ?thesis by (simp add: put_file_def)
qed

lemma put_file_keys: "map fst (rd_files (put_file name data d)) = map fst (rd_files d)" "rd_leased (put_file name data d) = rd_leased d"
  by (auto simp: put_file_def)

lemma run_dir_ok_put: "run_dir_ok M marker d \<Longrightarrow> name \<noteq> SCRATCH_MARKER_FILE \<Longrightarrow> run_dir_ok M marker (put_file name data d)"
proof -
  assume ok: "run_dir_ok M marker d" "name \<noteq> SCRATCH_MARKER_FILE"
  have "fst ` set (rd_files (put_file name data d)) = fst ` set (rd_files d)"
    using arg_cong [OF put_file_keys(1), of set] by (simp only: set_map)
  moreover have "\<forall>(k, f) \<in> set (rd_files (put_file name data d)). f \<noteq> OtherFile"
    using ok(1) by (auto simp: run_dir_ok_def put_file_def split: if_splits)
  ultimately show ?thesis using ok by (simp add: run_dir_ok_def put_file_keys map_of_put del: map_of_eq_Some_iff)
qed

lemma entry_of_set: "entry_of ns name \<noteq> None \<Longrightarrow> entry_of (ns\<lparr>ns_entries := set_entry name e (ns_entries ns)\<rparr>) name = Some e"
proof -
  have "map_of xs (Some name) \<noteq> None \<Longrightarrow> map_of (set_entry name e xs) (Some name) = Some e" for xs
    by (induction name e xs rule: set_entry.induct) auto
  then show "entry_of ns name \<noteq> None \<Longrightarrow> ?thesis" by (simp add: entry_of_def)
qed

lemma validate_listing_quiet:
  assumes "ns_faults ns = []" "distinct (map fst listing)" "fst ` set listing \<subseteq> Some ` set RUN_FILES" "\<forall>(k, f) \<in> set listing. f \<noteq> OtherFile"
    "\<forall>name \<in> set visited. Some name \<notin> fst ` set listing"
  shows "\<exists>out. validate_listing visited listing ns = (Inr out, ns) \<and> Some ` set out = Some ` set visited \<union> fst ` set listing"
  using assms
proof (induction visited listing rule: validate_listing.induct)
  case (1 visited)
  then show ?case by (simp add: st_return_def)
next
  case (2 visited k f rest)
  obtain name where k: "k = Some name" "name \<in> set RUN_FILES" using 2(4) by auto
  have "f \<noteq> OtherFile" "name \<notin> set visited" using 2(5,6) k by auto
  moreover from this obtain out where "validate_listing (name # visited) rest ns = (Inr out, ns)"
      "Some ` set out = Some ` set (name # visited) \<union> fst ` set rest"
    using 2(1)[OF k(1)] 2(2-) k by (auto simp: image_iff)
  ultimately show ?case using 2(2) k by (simp add: st_bind_def call_quiet)
qed

lemma validate_run_quiet:
  assumes "ns_faults ns = []" "entry_of ns run = Some (RunDirectory d)" "run_dir_ok M marker d"
  shows "validate_run_entries run ns = (Inr (), ns)"
proof -
  obtain out where "validate_listing [] (rd_files d) ns = (Inr out, ns)" "Some ` set out = fst ` set (rd_files d)"
    using validate_listing_quiet [OF assms(1), of "rd_files d" "[]"] assms(3) by (auto simp: run_dir_ok_def)
  moreover from this have "set out = set RUN_FILES" using assms(3) by (auto simp: run_dir_ok_def)
  ultimately show ?thesis using assms(1,2)
    by (simp add: validate_run_entries_def look_quiet st_bind_def run_of_def st_return_def)
qed

lemma open_regular_quiet:
  assumes "ns_faults ns = []" "entry_of ns run = Some (RunDirectory d)" "map_of (rd_files d) (Some name) = Some (RegularFile data)"
  shows "open_regular_read_write_nofollow run name ns = (Inr data, ns)"
  using assms by (simp add: open_regular_read_write_nofollow_def look_quiet call_quiet st_bind_def run_of_def file_of_def st_return_def)

lemma run_dir_ok_file:
  assumes "run_dir_ok M marker d" "name \<in> set RUN_FILES" shows "\<exists>data. map_of (rd_files d) (Some name) = Some (RegularFile data)"
proof -
  have "Some name \<in> fst ` set (rd_files d)" using assms by (auto simp: run_dir_ok_def)
  then obtain f where f: "map_of (rd_files d) (Some name) = Some f" by (metis map_of_eq_None_iff not_None_eq)
  have "f \<noteq> OtherFile" using map_of_SomeD [OF f] assms(1) by (auto simp: run_dir_ok_def)
  then show ?thesis using f by (cases f) auto
qed

lemma decode_marker_encode: "roundtrips M \<Longrightarrow> encode_marker M m = Inr bs \<Longrightarrow> decode_marker M bs = Inr m"
  by (auto simp: decode_marker_def encode_marker_def roundtripsD)

lemma open_files_quiet:
  "open_files marker p b ([], []) =
     Inr \<lparr>run_marker = marker, run_pages = \<lparr>fl_bytes = p, fl_committed_len = length p, fl_pending = [], fl_write_batches = 0, fl_faults = []\<rparr>,
       run_blobs = \<lparr>fl_bytes = b, fl_committed_len = length b, fl_pending = [], fl_write_batches = 0, fl_faults = []\<rparr>\<rparr>"
  by (simp add: open_files_def new_append_file_def seek_end_def file_call_def)

text \<open>Adopting a run directory that nobody holds: the run it opens has the bytes of the two files.\<close>

lemma adopt_quiet:
  assumes "ns_root ns = RealDirectory" "ns_faults ns = []" "roundtrips M"
    "mk_schema_version marker = SCRATCH_SCHEMA_VERSION" "mk_retention marker = Retained"
    "parse_run_name U (run_name_of U (mk_run_id marker)) = Inr (mk_run_id marker)"
    "entry_of ns (run_name_of U (mk_run_id marker)) = Some (RunDirectory d)" "\<not> rd_leased d" "run_dir_ok M marker d"
    "map_of (rd_files d) (Some SCRATCH_PAGES_FILE) = Some (RegularFile p)" "map_of (rd_files d) (Some SCRATCH_BLOBS_FILE) = Some (RegularFile b)"
  shows "\<exists>r ns'. adopt_retained U M (mk_owner marker) (mk_run_id marker) ([], []) ns = (Inr r, ns')
    \<and> run_marker r = marker \<and> page_text r = p \<and> blob_text r = b \<and> healthy r \<and> holds_run U M ns' r"
proof -
  let ?run = "run_name_of U (mk_run_id marker)"
  let ?d = "d\<lparr>rd_leased := True\<rparr>"
  let ?ns = "ns\<lparr>ns_entries := set_entry ?run (RunDirectory ?d) (ns_entries ns)\<rparr>"
  have e: "entry_of ?ns ?run = Some (RunDirectory ?d)" using assms(7) by (intro entry_of_set) simp
  have ok: "run_dir_ok M marker ?d" using assms(9) by (simp add: run_dir_ok_def del: map_of_eq_Some_iff)
  obtain data where data: "encode_marker M marker = Inr data" "length data \<le> MAX_MARKER_BYTES"
      "map_of (rd_files ?d) (Some SCRATCH_MARKER_FILE) = Some (RegularFile data)"
    using ok unfolding run_dir_ok_def by blast
  have f: "ns_faults ?ns = []" using assms(2) by simp
  obtain l where lease: "map_of (rd_files d) (Some SCRATCH_LEASE_FILE) = Some (RegularFile l)"
    using run_dir_ok_file [OF assms(9), of SCRATCH_LEASE_FILE] by (auto simp: RUN_FILES_def)
  have read: "read_regular_nofollow ?run SCRATCH_MARKER_FILE MAX_MARKER_BYTES ?ns = (Inr data, ?ns)"
    using open_regular_quiet [OF f e data(3)] data(2) f
    by (simp add: read_regular_nofollow_def st_bind_def call_quiet st_return_def)
  let ?r = "projr (open_files marker p b ([], []))"
  have leased: "adopt_leased M ?run (mk_owner marker) (mk_run_id marker) ([], []) ?ns = (Inr ?r, ?ns)"
    using read decode_marker_encode [OF assms(3) data(1)] assms(4,5) validate_run_quiet [OF f e ok]
      open_regular_quiet [OF f e, of SCRATCH_PAGES_FILE p] open_regular_quiet [OF f e, of SCRATCH_BLOBS_FILE b] assms(10,11)
    by (simp add: adopt_leased_def st_bind_def st_lift_def open_files_quiet)
  have "adopt_retained U M (mk_owner marker) (mk_run_id marker) ([], []) ns = (Inr ?r, ?ns)"
    using assms(1,2,6-8) open_regular_quiet [OF assms(2,7) lease] leased
    by (simp add: adopt_retained_def open_scratch_dir_def open_run_def lock_exclusive_nonblocking_def take_lease_def with_run_def
        look_quiet st_bind_def st_lift_def run_of_def Let_def)
  moreover have "holds_run U M ?ns ?r"
    using assms(1,2,4,6) e ok by (simp add: holds_run_def open_files_quiet)
  ultimately show ?thesis
    by (simp add: open_files_quiet page_text_def blob_text_def contents_def healthy_def settled_def)
qed

lemma drop_then_adopt:
  assumes "holds_run U M ns r" "healthy r" "mk_retention (run_marker r) = Retained" "roundtrips M"
    "length (page_text r) < 2 ^ 64" "length (blob_text r) < 2 ^ 64"
  shows "\<exists>ns1 r' ns2. drop_run U r ns = (Inr (), ns1)
    \<and> adopt_retained U M (mk_owner (run_marker r)) (mk_run_id (run_marker r)) ([], []) ns1 = (Inr r', ns2)
    \<and> run_marker r' = run_marker r \<and> page_text r' = page_text r \<and> blob_text r' = blob_text r \<and> healthy r' \<and> holds_run U M ns2 r'"
proof -
  let ?run = "run_name_of U (mk_run_id (run_marker r))"
  obtain d where d: "entry_of ns ?run = Some (RunDirectory d)" "run_dir_ok M (run_marker r) d"
    using assms(1) by (auto simp: holds_run_def)
  obtain p where p: "flush_pending (run_pages r) = (Inr (), p)" "contents p = page_text r" "fl_pending p = []"
    using flush_quiet [of "run_pages r"] assms(2,5) by (auto simp: healthy_def page_text_def)
  obtain b where b: "flush_pending (run_blobs r) = (Inr (), b)" "contents b = blob_text r" "fl_pending b = []"
    using flush_quiet [of "run_blobs r"] assms(2,6) by (auto simp: healthy_def blob_text_def)
  have bytes: "fl_bytes p = page_text r" "fl_bytes b = blob_text r" using p b by (simp_all add: contents_def)
  let ?d1 = "put_file SCRATCH_PAGES_FILE (page_text r) (put_file SCRATCH_BLOBS_FILE (blob_text r) d)"
  let ?ns1 = "ns\<lparr>ns_entries := set_entry ?run (RunDirectory ?d1) (ns_entries ns)\<rparr>"
  let ?d2 = "?d1\<lparr>rd_leased := False\<rparr>"
  let ?ns2 = "?ns1\<lparr>ns_entries := set_entry ?run (RunDirectory ?d2) (ns_entries ?ns1)\<rparr>"
  have e1: "entry_of ?ns1 ?run = Some (RunDirectory ?d1)" using d(1) by (intro entry_of_set) simp
  have e2: "entry_of ?ns2 ?run = Some (RunDirectory ?d2)" using e1 by (intro entry_of_set) simp
  have wb: "write_back ?run (r\<lparr>run_pages := p, run_blobs := b\<rparr>) ns = (Inr (), ?ns1)"
    using d(1) by (simp add: write_back_def with_run_def run_of_def bytes)
  have "release_lease ?run ?ns1 = (Inr (), ?ns2)"
    using e1 by (simp add: release_lease_def with_run_def run_of_def)
  then have drop: "drop_run U r ns = (Inr (), ?ns2)"
    using assms(3) p(1) b(1) wb by (simp add: drop_run_def on_pages_def on_blobs_def st_bind_def Let_def)
  have names: "SCRATCH_PAGES_FILE \<noteq> SCRATCH_MARKER_FILE" "SCRATCH_BLOBS_FILE \<noteq> SCRATCH_MARKER_FILE" "SCRATCH_PAGES_FILE \<noteq> SCRATCH_BLOBS_FILE"
    by (simp_all add: SCRATCH_PAGES_FILE_def SCRATCH_MARKER_FILE_def SCRATCH_BLOBS_FILE_def)
  have "run_dir_ok M (run_marker r) ?d1" by (intro run_dir_ok_put d(2) names)
  then have ok: "run_dir_ok M (run_marker r) ?d2" by (simp add: run_dir_ok_def del: map_of_eq_Some_iff)
  have files: "map_of (rd_files ?d2) (Some SCRATCH_PAGES_FILE) = Some (RegularFile (page_text r))"
    "map_of (rd_files ?d2) (Some SCRATCH_BLOBS_FILE) = Some (RegularFile (blob_text r))"
    using run_dir_ok_file [OF d(2), of SCRATCH_PAGES_FILE] run_dir_ok_file [OF d(2), of SCRATCH_BLOBS_FILE] names
    by (auto simp: map_of_put RUN_FILES_def)
  have h: "ns_root ?ns2 = RealDirectory" "ns_faults ?ns2 = []" "mk_schema_version (run_marker r) = SCRATCH_SCHEMA_VERSION"
    "parse_run_name U ?run = Inr (mk_run_id (run_marker r))"
    using assms(1) by (simp_all add: holds_run_def)
  show ?thesis
    using adopt_quiet [OF h(1,2) assms(4) h(3) assms(3) h(4) e2 _ ok files] drop by simp
qed

section \<open>A clone is exact\<close>

text \<open>The namespace with the directory of one run replaced, and the calls that change it when nothing fails.\<close>

definition put_run :: "string \<Rightarrow> run_dir \<Rightarrow> namespace \<Rightarrow> namespace" where
  "put_run run d ns = ns\<lparr>ns_entries := set_entry run (RunDirectory d) (ns_entries ns)\<rparr>"

lemma set_entry_twice [simp]: "set_entry run e (set_entry run e' es) = set_entry run e es"
  by (induction es) auto

lemma put_run_simps [simp]:
  "put_run run d (put_run run d' ns) = put_run run d ns" "ns_faults (put_run run d ns) = ns_faults ns" "ns_root (put_run run d ns) = ns_root ns"
  "entry_of ns run \<noteq> None \<Longrightarrow> entry_of (put_run run d ns) run = Some (RunDirectory d)"
  by (simp_all add: put_run_def entry_of_set)

lemma with_run_put: "entry_of ns run = Some (RunDirectory d) \<Longrightarrow>
    with_run run f ns = bind_res (f d) (\<lambda>d'. Inr (put_run run d' ns))"
  by (simp add: with_run_def run_of_def put_run_def)

lemma change_quiet: "ns_faults ns = [] \<Longrightarrow> fs_change f ns = (case f ns of Inl e \<Rightarrow> (Inl e, ns) | Inr ns' \<Rightarrow> (Inr (), ns'))"
  by (simp add: fs_change_def st_bind_def call_quiet split: sum.split)

text \<open>What a sequence of steps that all succeed returns: one rule for each step of the construction of a run.\<close>

lemma then_steps:
  assumes "ns_faults ns = []" "entry_of ns run = Some (RunDirectory d)"
  shows "st_bind fs_call f ns = f () ns"
    "st_bind (open_run run) g ns = g d ns"
    "map_of (rd_files d) (Some name) = None \<Longrightarrow>
       st_bind (create_new_regular run name) f ns = f () (put_run run (d\<lparr>rd_files := rd_files d @ [(Some name, RegularFile [])]\<rparr>) ns)"
    "map_of (rd_files d) (Some name) = None \<Longrightarrow>
       st_bind (write_new_regular run name data) f ns
         = f () (put_run run (put_file name data (d\<lparr>rd_files := rd_files d @ [(Some name, RegularFile [])]\<rparr>)) ns)"
    "st_bind (lock_exclusive_nonblocking run) h ns = h (\<not> rd_leased d) ns"
    "st_bind (take_lease run) f ns = f () (put_run run (d\<lparr>rd_leased := True\<rparr>) ns)"
  using assms
  by (simp_all add: st_bind_def open_run_def look_quiet call_quiet run_of_def create_new_regular_def write_new_regular_def
      change_quiet with_run_put lock_exclusive_nonblocking_def take_lease_def)

text \<open>The directory of a new run.\<close>

definition new_dir :: "bytes \<Rightarrow> run_dir" where
  "new_dir marker_bytes =
     \<lparr>rd_files = [(Some SCRATCH_MARKER_FILE, RegularFile marker_bytes), (Some SCRATCH_LEASE_FILE, RegularFile []),
        (Some SCRATCH_PAGES_FILE, RegularFile []), (Some SCRATCH_BLOBS_FILE, RegularFile [])], rd_leased = True\<rparr>"

lemma file_names:
  "SCRATCH_MARKER_FILE \<noteq> SCRATCH_LEASE_FILE" "SCRATCH_MARKER_FILE \<noteq> SCRATCH_PAGES_FILE" "SCRATCH_MARKER_FILE \<noteq> SCRATCH_BLOBS_FILE"
  "SCRATCH_LEASE_FILE \<noteq> SCRATCH_PAGES_FILE" "SCRATCH_LEASE_FILE \<noteq> SCRATCH_BLOBS_FILE" "SCRATCH_PAGES_FILE \<noteq> SCRATCH_BLOBS_FILE"
  by (simp_all add: SCRATCH_MARKER_FILE_def SCRATCH_LEASE_FILE_def SCRATCH_PAGES_FILE_def SCRATCH_BLOBS_FILE_def)

lemma new_dir_ok: "encode_marker M marker = Inr bs \<Longrightarrow> length bs \<le> MAX_MARKER_BYTES \<Longrightarrow> run_dir_ok M marker (new_dir bs)"
  using file_names by (auto simp: run_dir_ok_def new_dir_def RUN_FILES_def)

lemma created_dir_quiet:
  assumes "ns_faults ns = []" "ns_root ns \<noteq> NotRealDirectory" "entry_of ns run = None" "ns_root ns = NoRoot \<longrightarrow> ns_entries ns = []"
  shows "\<exists>ns1. st_bind ensure_scratch_dir (\<lambda>_. st_bind open_scratch_dir (\<lambda>_. create_dir run)) ns = (Inr (), ns1)
    \<and> ns_faults ns1 = [] \<and> ns_root ns1 = RealDirectory \<and> entry_of ns1 run = Some (RunDirectory \<lparr>rd_files = [], rd_leased = False\<rparr>)
    \<and> kept run ns ns1 \<and> map fst (ns_entries ns1) = map fst (ns_entries ns) @ [Some run]"
  using assms
  by (cases "ns_root ns")
    (auto simp: st_bind_def ensure_scratch_dir_def open_scratch_dir_def create_dir_def look_quiet change_quiet call_quiet st_return_def
      entry_of_def kept_def map_add_def split: option.split)

lemma put_run_kept: "kept run ns (put_run run d ns)"
proof -
  have "name \<noteq> run \<Longrightarrow> map_of (set_entry run e es) (Some name) = map_of es (Some name)" for name e es
    by (induction es) auto
  then show ?thesis by (simp add: kept_def put_run_def entry_of_def)
qed

lemma copy_file_quiet:
  assumes "settled s" "length (contents s) < 2 ^ 64" "settled d" "contents d = []"
  shows "\<exists>s' d'. copy_file (s, d) = (Inr (), s', d') \<and> settled s' \<and> contents s' = contents s \<and> settled d' \<and> contents d' = contents s"
proof -
  obtain s1 where s1: "flush_pending s = (Inr (), s1)" "settled s1" "contents s1 = contents s" "fl_pending s1 = []"
    using flush_quiet [OF assms(1,2)] by blast
  have d: "fl_bytes d = []" "fl_pending d = []" "flush_pending d = (Inr (), d)"
    using assms(4) by (simp_all add: contents_def flush_pending_def)
  show ?thesis
    using s1 d assms(3)
    by (simp add: copy_file_def st_bind_def on_source_def on_dest_def look_file_def file_call_quiet settled_def write_at_end_def contents_def)
qed

lemma cloned_files:
  assumes "ns_faults ns = []" "entry_of ns run = Some (RunDirectory \<lparr>rd_files = [], rd_leased = False\<rparr>)"
    "encode_marker M (run_marker source) = Inr bs" "healthy source" "length (page_text source) < 2 ^ 64" "length (blob_text source) < 2 ^ 64"
  shows "\<exists>r source'. construct_clone H M run ([], []) source ns = (Inr r, source', put_run run (new_dir bs) ns)
    \<and> run_marker r = run_marker source \<and> page_text r = page_text source \<and> blob_text r = blob_text source \<and> healthy r \<and> unmoved source source'"
proof -
  let ?fresh = "\<lparr>fl_bytes = [], fl_committed_len = 0, fl_pending = [], fl_write_batches = 0, fl_faults = []\<rparr>"
  let ?m = "\<lparr>run_marker = run_marker source, run_pages = ?fresh, run_blobs = ?fresh\<rparr>"
  have fresh: "settled ?fresh" "contents ?fresh = []" by (simp_all add: settled_def contents_def)
  obtain sp dp where p: "copy_file (run_pages source, ?fresh) = (Inr (), sp, dp)" "settled sp" "contents sp = page_text source"
      "settled dp" "contents dp = page_text source"
    using copy_file_quiet [OF _ _ fresh, of "run_pages source"] assms(4,5) by (auto simp: healthy_def page_text_def)
  obtain sb db where b: "copy_file (run_blobs source, ?fresh) = (Inr (), sb, db)" "settled sb" "contents sb = blob_text source"
      "settled db" "contents db = blob_text source"
    using copy_file_quiet [OF _ _ fresh, of "run_blobs source"] assms(4,6) by (auto simp: healthy_def blob_text_def)
  let ?r = "\<lparr>run_marker = run_marker source, run_pages = dp, run_blobs = db\<rparr>"
  let ?s = "source\<lparr>run_pages := sp, run_blobs := sb\<rparr>"
  have copy: "copy_exact_from H M ?m source = (Inr (), ?r, ?s)"
    using p(1) b(1) assms(3) by (simp add: copy_exact_from_def binding_digest_def)
  have "construct_clone H M run ([], []) source ns = (Inr ?r, ?s, put_run run (new_dir bs) ns)"
    using assms(1-3) copy open_files_quiet [of "run_marker source" "[]" "[]"] file_names
    by (simp add: construct_clone_def then_steps put_file_def new_dir_def st_lift_def)
      (simp add: st_bind_def st_lift_def call_quiet)
  moreover have "unmoved source ?s" "healthy ?r"
    using p b assms(4) by (simp_all add: unmoved_def healthy_def page_text_def blob_text_def)
  ultimately show ?thesis using p b by (auto simp: page_text_def blob_text_def)
qed

lemma clone_quiet:
  assumes "holds_run U M home source" "healthy source" "mk_retention (run_marker source) = Retained"
    "length (page_text source) < 2 ^ 64" "length (blob_text source) < 2 ^ 64"
    "ns_faults ns = []" "ns_root ns \<noteq> NotRealDirectory" "ns_root ns = NoRoot \<longrightarrow> ns_entries ns = []"
    "entry_of ns (run_name_of U (mk_run_id (run_marker source))) = None"
  shows "\<exists>r source' ns'. clone_retained_into H U M ([], []) source ns = (Inr r, source', ns')
    \<and> run_marker r = run_marker source \<and> page_text r = page_text source \<and> blob_text r = blob_text source
    \<and> healthy r \<and> holds_run U M ns' r \<and> unmoved source source' \<and> kept (run_name_of U (mk_run_id (run_marker source))) ns ns'"
proof -
  let ?run = "run_name_of U (mk_run_id (run_marker source))"
  obtain bs where bs: "encode_marker M (run_marker source) = Inr bs" "length bs \<le> MAX_MARKER_BYTES"
    using assms(1) by (auto simp: holds_run_def run_dir_ok_def)
  obtain ns1 where ns1: "st_bind ensure_scratch_dir (\<lambda>_. st_bind open_scratch_dir (\<lambda>_. create_dir ?run)) ns = (Inr (), ns1)"
      "ns_faults ns1 = []" "ns_root ns1 = RealDirectory" "entry_of ns1 ?run = Some (RunDirectory \<lparr>rd_files = [], rd_leased = False\<rparr>)"
      "kept ?run ns ns1"
    using created_dir_quiet [OF assms(6,7,9,8)] by blast
  obtain r source' where r: "construct_clone H M ?run ([], []) source ns1 = (Inr r, source', put_run ?run (new_dir bs) ns1)"
      "run_marker r = run_marker source" "page_text r = page_text source" "blob_text r = blob_text source" "healthy r" "unmoved source source'"
    using cloned_files [OF ns1(2,4) bs(1) assms(2,4,5)] by blast
  have "holds_run U M (put_run ?run (new_dir bs) ns1) r"
    using assms(1) ns1(2-4) new_dir_ok [OF bs] by (simp add: holds_run_def r(2) new_dir_def)
  moreover have "kept ?run ns (put_run ?run (new_dir bs) ns1)"
    using put_run_kept [of ?run ns1] ns1(5) by (simp add: kept_def)
  ultimately show ?thesis using assms(3) ns1(1) r by (simp add: clone_retained_into_def Let_def)
qed

section \<open>Creation without failures\<close>

text \<open>Operations that, where no call fails, leave it so and leave the namespace where it is.\<close>

definition steady :: "'a ns_op \<Rightarrow> bool" where
  "steady m \<longleftrightarrow> (\<forall>ns. ns_faults ns = [] \<longrightarrow> ns_faults (snd (m ns)) = [] \<and> ns_root (snd (m ns)) = ns_root ns)"

lemma steady_bind [frames]: "steady m \<Longrightarrow> (\<And>x. steady (f x)) \<Longrightarrow> steady (st_bind m f)"
  by (simp add: steady_def st_bind_def case_prod_beta split: sum.split)

lemma steady_simple [frames]:
  "steady (st_lift x)" "steady (st_return y)" "steady fs_call" "steady (fs_look g)" "steady (fs_change (with_run run f))"
  by (auto simp: steady_def st_lift_def st_return_def call_quiet look_quiet change_quiet with_run_def bind_res_Inr split: sum.split)

lemma steady_ignoring [frames]: "steady m \<Longrightarrow> steady (ignoring m)"
  by (simp add: steady_def ignoring_def)

lemma steady_calls [frames]:
  "steady (open_run run)" "steady (open_regular_read_write_nofollow run name)" "steady (read_regular_nofollow run name limit)"
  "steady (lock_exclusive_nonblocking run)" "steady (require_real_directory name)" "steady (remove_file run name)"
  unfolding open_run_def open_regular_read_write_nofollow_def read_regular_nofollow_def lock_exclusive_nonblocking_def
    require_real_directory_def remove_file_def
  by (intro frames | simp split: scratch_file.split | rule conjI | intro frames allI impI)+

lemma steady_remove_dir [frames]: "steady (remove_dir run)"
  by (auto simp: steady_def remove_dir_def change_quiet bind_res_Inr split: sum.split if_splits)

lemma steady_listing [frames]: "steady (validate_listing visited listing)"
proof (induction visited listing rule: validate_listing.induct)
  case (2 visited k f rest)
  then show ?case by (cases k) (auto intro!: frames)
qed (simp add: frames)

lemma steady_validate [frames]: "steady (validate_run_entries run)"
  unfolding validate_run_entries_def by (intro frames) (auto intro!: frames)

lemma steady_removal [frames]: "steady (remove_stale_run run)"
  unfolding remove_stale_run_def by (intro frames)

lemma steady_sibling [frames]: "steady (read_sibling U M owner name)"
  unfolding read_sibling_def by (intro frames) (auto intro!: frames)

lemma steady_classify [frames]: "steady (classify_stale_sibling U M owner own_name observe entry)"
  unfolding classify_stale_sibling_def by (cases entry) (auto intro!: frames)

lemma reclaim_entries_steady:
  "ns_faults ns = [] \<Longrightarrow>
     ns_faults (snd (reclaim_entries U M owner own_name observe entries stats ns)) = []
     \<and> ns_root (snd (reclaim_entries U M owner own_name observe entries stats ns)) = ns_root ns"
proof (induction entries arbitrary: stats ns)
  case (Cons entry entries)
  have "steady (st_bind fs_call (\<lambda>_. classify_stale_sibling U M owner own_name observe entry))" by (intro frames)
  then have "ns_faults (snd (unwrap_or Unclassified (st_bind fs_call (\<lambda>_. classify_stale_sibling U M owner own_name observe entry)) ns)) = []
    \<and> ns_root (snd (unwrap_or Unclassified (st_bind fs_call (\<lambda>_. classify_stale_sibling U M owner own_name observe entry)) ns)) = ns_root ns"
    using Cons.prems by (auto simp: steady_def unwrap_or_def split: prod.split sum.split)
  then show ?case using Cons.IH by (simp add: case_prod_beta Let_def)
qed simp

text \<open>The dispositions of all entries but the own one are counted.\<close>

definition stats_total :: "lifecycle_stats \<Rightarrow> nat" where
  "stats_total c = lc_stale_runs_reclaimed c + lc_live_runs_skipped c + lc_retained_runs_preserved c + lc_unclassified_runs_preserved c"

lemma classify_own: "classify_stale_sibling U M owner own_name observe (Some own_name) = st_return OwnRun"
  by (simp add: classify_stale_sibling_def)

lemma classify_other:
  "entry \<noteq> Some own_name \<Longrightarrow> fst (classify_stale_sibling U M owner own_name observe entry ns) \<noteq> Inr OwnRun"
  by (auto simp: classify_stale_sibling_def st_lift_def st_return_def st_bind_def split: option.split sum.split prod.split)

lemma reclaim_entries_total:
  "ns_faults ns = [] \<Longrightarrow>
     stats_total (fst (reclaim_entries U M owner own_name observe entries stats ns))
       = stats_total stats + length (filter (\<lambda>entry. entry \<noteq> Some own_name) entries)"
proof (induction entries arbitrary: stats ns)
  case (Cons entry entries)
  obtain x ns' where x: "unwrap_or Unclassified (classify_stale_sibling U M owner own_name observe entry) ns = (x, ns')" by force
  have "ns_faults (snd (classify_stale_sibling U M owner own_name observe entry ns)) = []"
    using steady_classify [of U M owner own_name observe entry] Cons.prems by (auto simp: steady_def)
  then have quiet: "ns_faults ns' = []" using x by (auto simp: unwrap_or_def split: prod.splits sum.splits)
  have "stats_total (count_stale x stats) = stats_total stats + (if entry = Some own_name then 0 else 1)"
  proof (cases "entry = Some own_name")
    case True
    then show ?thesis using x by (simp add: unwrap_or_def classify_own st_return_def)
  next
    case False
    then have "x \<noteq> OwnRun" using x classify_other [OF False, of U M owner observe ns] by (auto simp: unwrap_or_def split: prod.splits sum.splits)
    then show ?thesis using False by (cases x) (simp_all add: stats_total_def)
  qed
  moreover have "st_bind fs_call (\<lambda>_. classify_stale_sibling U M owner own_name observe entry) ns
      = classify_stale_sibling U M owner own_name observe entry ns"
    using Cons.prems by (simp add: st_bind_def call_quiet)
  ultimately show ?case using Cons.IH [OF quiet] x by (simp add: unwrap_or_def)
qed simp

lemma reclaim_quiet:
  assumes "ns_faults ns = []"
  shows "\<exists>stats' ns'. reclaim_stale_runs U M owner own_name observe stats ns = (stats', ns') \<and> ns_faults ns' = [] \<and> ns_root ns' = ns_root ns
    \<and> stats_total stats' = stats_total stats + length (filter (\<lambda>entry. entry \<noteq> Some own_name) (map fst (ns_entries ns)))"
proof -
  obtain stats' ns' where "reclaim_entries U M owner own_name observe (map fst (ns_entries ns)) stats ns = (stats', ns')" by force
  then show ?thesis
    using reclaim_entries_steady [OF assms, of U M owner own_name observe "map fst (ns_entries ns)" stats]
      reclaim_entries_total [OF assms, of U M owner own_name observe "map fst (ns_entries ns)" stats] assms
    by (simp add: reclaim_stale_runs_def look_quiet)
qed

lemma created_files:
  assumes "ns_faults ns = []" "entry_of ns run = Some (RunDirectory \<lparr>rd_files = [], rd_leased = False\<rparr>)" "encode_marker M marker = Inr bs"
    "observe = (\<lambda>_. Inr ())"
  shows "\<exists>r. construct_own_run M run marker observe ([], []) ns = (Inr r, put_run run (new_dir bs) ns)
    \<and> run_marker r = marker \<and> page_text r = [] \<and> blob_text r = [] \<and> healthy r"
proof -
  have lift: "st_bind (st_lift (Inr x)) f = f x" for x :: 'x and f :: "'x \<Rightarrow> 'y ns_op" by (simp add: st_bind_def st_lift_def)
  show ?thesis
    using assms open_files_quiet [of marker "[]" "[]"] file_names
    by (simp add: construct_own_run_def then_steps lift put_file_def new_dir_def)
      (simp add: st_bind_def st_lift_def call_quiet page_text_def blob_text_def contents_def healthy_def settled_def)
qed

lemma set_entry_keys: "map fst (set_entry run e es) = map fst es"
  by (induction run e es rule: set_entry.induct) auto

lemma create_quiet:
  assumes "ns_faults ns = []" "ns_root ns \<noteq> NotRealDirectory" "entry_of ns (run_name_of U (mk_run_id marker)) = None"
    "ns_root ns = NoRoot \<longrightarrow> ns_entries ns = []"
    "mk_schema_version marker = SCRATCH_SCHEMA_VERSION"
    "parse_run_name U (run_name_of U (mk_run_id marker)) = Inr (mk_run_id marker)"
    "encode_marker M marker = Inr bs" "length bs \<le> MAX_MARKER_BYTES"
  shows "\<exists>r stats ns'. create_run U M marker (\<lambda>_. Inr ()) ([], []) ns = (Inr (r, stats), ns')
    \<and> run_marker r = marker \<and> page_text r = [] \<and> blob_text r = [] \<and> healthy r \<and> holds_run U M ns' r
    \<and> stats_total stats = length (ns_entries ns)"
proof -
  let ?run = "run_name_of U (mk_run_id marker)"
  let ?zero = "\<lparr>lc_stale_runs_reclaimed = 0, lc_live_runs_skipped = 0, lc_retained_runs_preserved = 0, lc_unclassified_runs_preserved = 0\<rparr>"
  obtain ns1 where ns1: "st_bind ensure_scratch_dir (\<lambda>_. st_bind open_scratch_dir (\<lambda>_. create_dir ?run)) ns = (Inr (), ns1)"
      "ns_faults ns1 = []" "ns_root ns1 = RealDirectory" "entry_of ns1 ?run = Some (RunDirectory \<lparr>rd_files = [], rd_leased = False\<rparr>)"
      "map fst (ns_entries ns1) = map fst (ns_entries ns) @ [Some ?run]"
    using created_dir_quiet [OF assms(1-4)] by blast
  obtain r where r: "construct_own_run M ?run marker (\<lambda>_. Inr ()) ([], []) ns1 = (Inr r, put_run ?run (new_dir bs) ns1)"
      "run_marker r = marker" "page_text r = []" "blob_text r = []" "healthy r"
    using created_files [OF ns1(2,4) assms(7) refl] by blast
  let ?ns2 = "put_run ?run (new_dir bs) ns1"
  have quiet2: "ns_faults ?ns2 = []" using ns1(2) by simp
  obtain stats ns3 where s: "reclaim_stale_runs U M (mk_owner marker) ?run (\<lambda>_. Inr ()) ?zero ?ns2 = (stats, ns3)"
      "ns_faults ns3 = []" "ns_root ns3 = RealDirectory"
      "stats_total stats = length (filter (\<lambda>entry. entry \<noteq> Some ?run) (map fst (ns_entries ?ns2)))"
    using reclaim_quiet [OF quiet2, of U M "mk_owner marker" ?run "\<lambda>_. Inr ()" ?zero] ns1(3) by (auto simp: stats_total_def)
  have "entry_of ns3 ?run = entry_of ?ns2 ?run"
    using reclaim_stale_spares [of U M "mk_owner marker" ?run ?ns2 "\<lambda>_. Inr ()" ?zero] assms(6) s(1)
    by (auto simp: spares_def authentic_def)
  then have "entry_of ns3 ?run = Some (RunDirectory (new_dir bs))" using ns1(4) by simp
  then have holds: "holds_run U M ns3 r"
    using s(2,3) assms(5,6) new_dir_ok [OF assms(7,8)] by (simp add: holds_run_def r(2) new_dir_def)
  have "\<forall>entry \<in> set (map fst (ns_entries ns)). entry \<noteq> Some ?run"
    using assms(3) unfolding entry_of_def map_of_eq_None_iff set_map by metis
  then have "filter (\<lambda>entry. entry \<noteq> Some ?run) (map fst (ns_entries ns)) = map fst (ns_entries ns)"
    by (simp only: filter_id_conv)
  then have total: "stats_total stats = length (ns_entries ns)"
    using s(4) ns1(5) by (simp add: put_run_def set_entry_keys)
  have split: "st_bind ensure_scratch_dir (\<lambda>_. st_bind open_scratch_dir (\<lambda>_. st_bind (create_dir ?run) f)) ns = f () ns1" for f :: "unit \<Rightarrow> 'y ns_op"
    using ns1(1) by (auto simp: st_bind_def split: prod.splits sum.splits)
  show ?thesis using r s(1) holds total by (simp add: create_run_def Let_def split)
qed

section \<open>The properties\<close>

text \<open>C7.
  Whatever fails on the way, creating a run and reclaiming retained runs change no entry of the namespace they must
  not change: besides its own directory a creation removes only ephemeral runs of the same owner that nobody holds,
  a reclamation only retained runs of the owner that are unreachable and that nobody holds, and a census nothing.
\<close>

theorem reclamation_spares:
  assumes "ns_root ns = NoRoot \<longrightarrow> ns_entries ns = []"
  shows "(entry_of (snd (create_run U M marker observe faults ns)) name = entry_of ns name
      \<or> name = run_name_of U (mk_run_id marker)
      \<or> (\<exists>m. authentic U M (mk_owner marker) ns name m \<and> mk_retention m = Ephemeral \<and> unleased ns name))
    \<and> (entry_of (snd (reclaim_unreachable_retained_runs U M owner reachable ns)) name = entry_of ns name
      \<or> (\<exists>m. authentic U M owner ns name m \<and> mk_retention m = Retained \<and> \<not> reachable (mk_run_id m) \<and> unleased ns name))
    \<and> entry_of (snd (census_retained_runs U M owner ns)) name = entry_of ns name"
proof (intro conjI, goal_cases)
  case 1
  then show ?case using create_run_spares [OF assms, of U M marker observe faults] by (auto simp: spares_siblings_def)
next
  case 2
  then show ?case using reclaim_unreachable_spares [of U M owner reachable ns] by (simp add: spares_def)
next
  case 3
  then show ?case using census_ok [of ns U M owner, THEN conjunct1] by (rule untouched_entry)
qed

text \<open>C24.
  Where no call fails, a creation succeeds whatever the siblings are: the run is empty and ready, its directory is
  complete and leased, and the statistics account for every entry that was there.
\<close>

theorem created_run_is_ready:
  assumes "ns_faults ns = []" "ns_root ns \<noteq> NotRealDirectory" "entry_of ns (run_name_of U (mk_run_id marker)) = None"
    "ns_root ns = NoRoot \<longrightarrow> ns_entries ns = []"
    "mk_schema_version marker = SCRATCH_SCHEMA_VERSION"
    "parse_run_name U (run_name_of U (mk_run_id marker)) = Inr (mk_run_id marker)"
    "encode_marker M marker = Inr bs" "length bs \<le> MAX_MARKER_BYTES"
  shows "\<exists>r stats ns'. create_run U M marker (\<lambda>_. Inr ()) ([], []) ns = (Inr (r, stats), ns')
    \<and> run_marker r = marker \<and> page_text r = [] \<and> blob_text r = [] \<and> healthy r \<and> holds_run U M ns' r
    \<and> lc_stale_runs_reclaimed stats + lc_live_runs_skipped stats + lc_retained_runs_preserved stats
        + lc_unclassified_runs_preserved stats = length (ns_entries ns)"
  using create_quiet [OF assms] by (simp add: stats_total_def)

text \<open>C19.
  The contents of a retained run survive its handle: dropping the run and adopting it gives a run with the same
  marker, pages and blobs, buffered bytes included, and so does cloning it into another namespace, which leaves the
  source as it was.
\<close>

theorem retained_run_survives:
  assumes "holds_run U M ns r" "healthy r" "mk_retention (run_marker r) = Retained" "roundtrips M"
    "length (page_text r) < 2 ^ 64" "length (blob_text r) < 2 ^ 64"
    "ns_faults other = []" "ns_root other \<noteq> NotRealDirectory" "ns_root other = NoRoot \<longrightarrow> ns_entries other = []"
    "entry_of other (run_name_of U (mk_run_id (run_marker r))) = None"
  shows "(\<exists>ns1 r' ns2. drop_run U r ns = (Inr (), ns1)
      \<and> adopt_retained U M (mk_owner (run_marker r)) (mk_run_id (run_marker r)) ([], []) ns1 = (Inr r', ns2)
      \<and> run_marker r' = run_marker r \<and> page_text r' = page_text r \<and> blob_text r' = blob_text r \<and> healthy r' \<and> holds_run U M ns2 r')
    \<and> (\<exists>r' source' other'. clone_retained_into H U M ([], []) r other = (Inr r', source', other')
      \<and> run_marker r' = run_marker r \<and> page_text r' = page_text r \<and> blob_text r' = blob_text r \<and> healthy r' \<and> holds_run U M other' r'
      \<and> unmoved r source')"
  using drop_then_adopt [OF assms(1-6)] clone_quiet [OF assms(1-3,5-10)] by blast

end
