(* ===== verification/Scratch_Instances.thy ===== *)
theory Scratch_Instances
  imports Scratch_Properties Scratch_Lifecycle
begin

text \<open>
  A concrete scratch run where the hypotheses of its properties hold: codecs given by tables, a hash that keeps the
  first bytes of a text, an empty retained run, the run after one insertion, and namespaces that hold them.
\<close>

section \<open>Codecs by tables\<close>

definition table_codec :: "('a \<times> bytes) list \<Rightarrow> 'a serializer" where
  "table_codec table = \<lparr>to_vec = (\<lambda>x. ok_or ''unsupported'' (map_of table x)),
     from_slice = (\<lambda>bs. ok_or ''malformed'' (map_of (map (\<lambda>(x, b). (b, x)) table) bs))\<rparr>"

lemma table_codec_to_vec: "to_vec (table_codec table) x = Inr bs \<longleftrightarrow> map_of table x = Some bs"
  by (auto simp: table_codec_def ok_or_Inr)

lemma table_codec_roundtrips: "distinct (map snd table) \<Longrightarrow> roundtrips (table_codec table)"
proof (unfold roundtrips_def, intro allI impI)
  fix x bs assume d: "distinct (map snd table)" and "to_vec (table_codec table) x = Inr bs"
  then have "(bs, x) \<in> set (map (\<lambda>(x, b). (b, x)) table)" by (force simp: table_codec_to_vec dest: map_of_SomeD)
  moreover have "map fst (map (\<lambda>(x, b). (b, x)) table) = map snd table" by auto
  ultimately show "from_slice (table_codec table) bs = Inr x" using d by (simp only: table_codec_def serializer.simps ok_or_Inr map_of_eq_Some_iff)
qed

section \<open>The run\<close>

definition w_hash_prefix :: hash where "w_hash_prefix bs = mk_array bs"

definition w_run_id :: uuid where "w_run_id = mk_array [1, 2, 3]"

definition w_uuid_text :: uuid_text where
  "w_uuid_text = \<lparr>parse_uuid = (\<lambda>text. if text = ''010203'' then Some w_run_id else None), show_uuid = (\<lambda>u. if u = w_run_id then ''010203'' else ''040506'')\<rparr>"

definition w_run_marker :: "unit scratch_run_marker" where
  "w_run_marker = \<lparr>mk_schema_version = SCRATCH_SCHEMA_VERSION, mk_owner = (), mk_run_id = w_run_id, mk_retention = Retained,
     mk_random_owner_nonce = mk_array [9]\<rparr>"

definition w_marker_codec :: "unit scratch_run_marker serializer" where
  "w_marker_codec = table_codec [(w_run_marker, [77, 1])]"

definition w_append_file :: "bytes \<Rightarrow> bytes \<Rightarrow> append_file" where
  "w_append_file bs pending = \<lparr>fl_bytes = bs, fl_committed_len = length bs, fl_pending = pending, fl_write_batches = 0, fl_faults = []\<rparr>"

definition w_scratch_run :: "bytes \<Rightarrow> bytes \<Rightarrow> unit scratch_run" where
  "w_scratch_run pages blobs = \<lparr>run_marker = w_run_marker, run_pages = w_append_file [] pages, run_blobs = w_append_file [] blobs\<rparr>"

lemma w_scratch_run_simps [simp]:
  "healthy (w_scratch_run pages blobs)" "page_text (w_scratch_run pages blobs) = pages" "blob_text (w_scratch_run pages blobs) = blobs"
  "run_marker (w_scratch_run pages blobs) = w_run_marker"
  by (simp_all add: healthy_def settled_def w_scratch_run_def w_append_file_def page_text_def blob_text_def contents_def)

section \<open>Blobs\<close>

lemma w_append_blob:
  "append_blob w_hash_prefix [1, 2] (w_scratch_run [] []) = (Inr \<lparr>bl_offset = 0, bl_encoded_len = 2, bl_digest = w_hash_prefix [1, 2]\<rparr>, w_scratch_run [] [1, 2])"
  by (simp add: append_blob_def MAX_SCRATCH_BLOB_BYTES_def encoded_length_def st_bind_def st_lift_def st_return_def on_blobs_def w_scratch_run_def
      w_append_file_def append_bytes_def checked_add_def SCRATCH_APPEND_BUFFER_BYTES_def)

theorem blob_reads_back_witness:
  "\<exists>r3. read_blob w_hash_prefix \<lparr>bl_offset = 0, bl_encoded_len = 2, bl_digest = w_hash_prefix [1, 2]\<rparr> (w_scratch_run [] [1, 2, 5]) = (Inr [1, 2], r3)
    \<and> unmoved (w_scratch_run [] [1, 2, 5]) r3"
proof (rule blob_reads_back [OF _ _ w_append_blob])
  show "grown (w_scratch_run [] [1, 2]) (w_scratch_run [] [1, 2, 5])" by (simp add: grown_def)
qed (simp_all add: MAX_SCRATCH_BLOB_BYTES_def)

lemma w_hash_prefix_differs: "w_hash_prefix [1, 1] \<noteq> w_hash_prefix [1, 2]"
proof
  assume "w_hash_prefix [1, 1] = w_hash_prefix [1, 2]"
  then have "array_bytes (w_hash_prefix [1, 1]) = array_bytes (w_hash_prefix [1, 2])" by simp
  then show False by (simp add: w_hash_prefix_def array_bytes_mk_pad)
qed

theorem retried_flush_moves_records_witness:
  "\<exists>r3 r4. read_blob w_hash_prefix \<lparr>bl_offset = 0, bl_encoded_len = 2, bl_digest = w_hash_prefix [1, 2]\<rparr>
        ((w_scratch_run [] [1, 2])\<lparr>run_blobs := (run_blobs (w_scratch_run [] [1, 2]))\<lparr>fl_faults := [None, Some (''disk full'', 1)]\<rparr>\<rparr>)
      = (Inl (ScratchIo ''disk full''), r3)
    \<and> read_blob w_hash_prefix \<lparr>bl_offset = 0, bl_encoded_len = 2, bl_digest = w_hash_prefix [1, 2]\<rparr> r3
      = (Inl (BlobDigestMismatch (w_hash_prefix [1, 2])), r4)
    \<and> blob_text r4 = blob_text (w_scratch_run [] []) @ take 1 [1, 2] @ [1, 2]"
proof (rule retried_flush_moves_records [OF _ _ _ w_append_blob _ _ _ _ refl])
  show "fl_pending (run_blobs (w_scratch_run [] [])) = []" by (simp add: w_scratch_run_def w_append_file_def)
qed (use w_hash_prefix_differs in \<open>simp_all add: MAX_SCRATCH_BLOB_BYTES_def SCRATCH_APPEND_BUFFER_BYTES_def\<close>)

section \<open>The index\<close>

text \<open>One insertion, of two values and a deletion.\<close>

definition w_records :: "(bytes \<times> bytes option) list" where
  "w_records = [([1], Some [5]), ([1, 2], None), ([3], Some [6])]"

definition w_segment :: "byte scratch_segment" where
  "w_segment =
     \<lparr>sg_schema_version = SCRATCH_PAGE_SCHEMA_VERSION, sg_kind = 7, sg_generation = 1,
      sg_entries = [\<lparr>rec_key = [1], rec_value = Some [5]\<rparr>, \<lparr>rec_key = [1, 2], rec_value = None\<rparr>, \<lparr>rec_key = [3], rec_value = Some [6]\<rparr>]\<rparr>"

definition w_envelope :: "byte scratch_page_envelope" where
  "w_envelope =
     \<lparr>ev_schema_version = SCRATCH_PAGE_SCHEMA_VERSION, ev_kind = 7, ev_key_min = [1], ev_key_max = [3], ev_payload = [11, 12, 13]\<rparr>"

definition w_page :: bytes where "w_page = [21, 11, 12, 13]"

definition w_codecs :: "byte scratch_codecs" where
  "w_codecs = \<lparr>cd_envelope = table_codec [(w_envelope, w_page)], cd_segment = table_codec [(w_segment, [11, 12, 13])]\<rparr>"

lemma w_codecs_ok: "codecs_ok w_codecs"
proof -
  have "roundtrips (cd_envelope w_codecs)" "roundtrips (cd_segment w_codecs)"
    by (simp_all add: w_codecs_def table_codec_roundtrips)
  then show ?thesis
    by (auto simp: codecs_ok_def envelope_codec_def segment_codec_def w_codecs_def table_codec_to_vec w_envelope_def w_segment_def w_page_def
        split: if_splits)
qed

definition w_lsm_root :: "byte scratch_lsm_root" where
  "w_lsm_root =
     \<lparr>lr_next_generation = 1,
      lr_levels = Some \<lparr>sf_generation = 1, sf_entry_count = 3,
        sf_page_ref = \<lparr>pg_offset = 0, pg_encoded_len = 4, pg_digest = w_hash_prefix w_page, pg_kind = 7, pg_key_min = [1], pg_key_max = [3]\<rparr>\<rparr>
        # replicate 31 None\<rparr>"

lemma w_records_ok: "ordered w_records" "w_records \<noteq> []"
  by (simp_all add: w_records_def ordered_Cons)

lemma w_empty_holds: "holds_root w_hash_prefix w_codecs 7 default_lsm_root (w_scratch_run [] [])"
  using default_root_ok [of w_hash_prefix w_codecs "[]" 7] by (auto simp: holds_root_def MAX_SCRATCH_PAGE_BYTES_def)

lemma w_insert: "insert_many w_hash_prefix w_codecs default_lsm_root 7 w_records (w_scratch_run [] []) = (Inr w_lsm_root, w_scratch_run w_page [])"
proof -
  have "replicate 32 None = None # replicate 31 (None :: byte scratch_segment_ref option)" by (simp add: numeral_eq_Suc)
  moreover have "to_vec (cd_segment w_codecs) w_segment = Inr [11, 12, 13]" "to_vec (cd_envelope w_codecs) w_envelope = Inr w_page"
    by (simp_all add: w_codecs_def table_codec_to_vec)
  ultimately show ?thesis
    by (simp add: insert_many_def validate_lsm_root_def default_lsm_root_def SCRATCH_LSM_LEVELS_def checked_add64_def st_bind_def st_lift_def
        write_segment_def append_page_def validate_segment_def w_segment_def w_envelope_def encode_page_canonical_def w_records_def w_page_def
        MAX_SCRATCH_PAGE_BYTES_def encoded_length_def on_pages_def append_bytes_def checked_add_def SCRATCH_APPEND_BUFFER_BYTES_def
        w_scratch_run_def w_append_file_def w_lsm_root_def st_return_def SCRATCH_PAGE_SCHEMA_VERSION_def)
qed

lemma w_lsm_root_ok: "lsm_ok w_hash_prefix w_codecs w_page 7 w_lsm_root \<and> lsm_map w_hash_prefix w_codecs w_page 7 w_lsm_root = map_of w_records"
proof -
  have "healthy (w_scratch_run [] [])" "length (page_text (w_scratch_run [] [])) + MAX_SCRATCH_PAGE_BYTES < 2 ^ 63"
    "lsm_ok w_hash_prefix w_codecs (page_text (w_scratch_run [] [])) 7 default_lsm_root"
    using w_empty_holds by (simp_all add: holds_root_def)
  from runs_Inr [OF insert_records_ok [OF this(1,2) w_codecs_ok w_records_ok(1) this(3) w_records_ok(2)] w_insert]
  show ?thesis by (simp add: carried_def lsm_map_def default_lsm_root_def)
qed

lemma w_lsm_holds: "holds_root w_hash_prefix w_codecs 7 w_lsm_root (w_scratch_run w_page [])"
  using w_lsm_root_ok by (simp add: holds_root_def MAX_SCRATCH_PAGE_BYTES_def w_page_def)

theorem insert_many_refines_witness:
  "case insert_many w_hash_prefix w_codecs default_lsm_root 7 w_records (w_scratch_run [] []) of
     (Inr root', r') \<Rightarrow> root' = w_lsm_root \<and> lsm_map w_hash_prefix w_codecs (page_text r') 7 root' = Map.empty ++ map_of w_records
   | (Inl e, r') \<Rightarrow> False"
  using insert_many_refines [OF w_empty_holds w_codecs_ok w_records_ok(1)] default_root_ok [of w_hash_prefix w_codecs "[]" 7]
  by (simp add: w_insert)

theorem lookups_exact_witness:
  "(\<exists>r'. lookup_key w_hash_prefix w_codecs w_lsm_root 7 [1] (w_scratch_run w_page []) = (Inr (Some [5]), r'))
   \<and> (\<exists>r'. lookup_many w_hash_prefix w_codecs w_lsm_root 7 [[3], [1, 2], [4]] (w_scratch_run w_page []) = (Inr [Some [6], None, None], r'))
   \<and> (\<exists>r'. lookup_many_with_known_absent w_hash_prefix w_codecs w_lsm_root 7 [[3], [1, 2], [4]] [False, False, True] (w_scratch_run w_page [])
        = (Inr [Some [6], None, None], r'))"
  using lookups_exact [OF w_lsm_holds, of "[False, False, True]" "[[3], [1, 2], [4]]" "[1]"] w_lsm_root_ok
  by (auto simp: visible_def w_records_def)

theorem scan_prefix_exact_witness:
  "\<exists>out r'. scan_prefix w_hash_prefix w_codecs w_lsm_root 7 [1] (w_scratch_run w_page []) = (Inr out, r') \<and> ordered out
     \<and> map_of out [1] = Some [5] \<and> map_of out [1, 2] = None \<and> map_of out [3] = None"
  using scan_prefix_exact [OF w_lsm_holds, of "[1]"] w_lsm_root_ok
  by (auto simp: visible_def w_records_def restrict_map_def)

lemma occupancy_none: "occupancy (replicate n None) = 0"
  by (induction n) auto

theorem levels_count_insertions_witness:
  "occupancy (lr_levels w_lsm_root) = 1 \<and> lr_next_generation w_lsm_root = 1"
proof -
  have "occupancy (lr_levels default_lsm_root) = unat (lr_next_generation default_lsm_root)"
    by (simp add: default_lsm_root_def occupancy_none)
  from levels_count_insertions [OF w_empty_holds w_codecs_ok w_records_ok this]
  show ?thesis by (simp add: w_insert) (simp add: default_lsm_root_def w_lsm_root_def)
qed

section \<open>A session\<close>

definition w_env :: "(byte, unit) session_env" where
  "w_env = \<lparr>se_hash = w_hash_prefix, se_codecs = w_codecs, se_kind = table_codec [(7, [7])], se_marker = w_marker_codec,
     se_layout = \<lparr>ml_cached_segment = 8, ml_record = 4, ml_entries_capacity = length, ml_bytes_capacity = length\<rparr>\<rparr>"

definition w_session :: "byte session_state" where
  "w_session = projr (lookup_session w_env w_lsm_root 7 100 (w_scratch_run w_page []))"

lemma w_session_opens: "lookup_session w_env w_lsm_root 7 100 (w_scratch_run w_page []) = Inr w_session"
  using validate_lsm_root_ok [of w_hash_prefix w_codecs w_page 7 w_lsm_root] w_lsm_root_ok
  by (simp add: w_session_def lookup_session_def binding_digest_def w_env_def encode_marker_def encode_page_canonical_def w_marker_codec_def
      table_codec_def ok_or_def)

theorem session_equals_plain_witness:
  "\<exists>s' r'. session_calls w_env w_lsm_root 7 [([[3], [1, 2]], [False, False]), ([[1]], [False])] w_session (w_scratch_run w_page [])
     = Some ([fst (lookup_many_with_known_absent w_hash_prefix w_codecs w_lsm_root 7 [[3], [1, 2]] [False, False] (w_scratch_run w_page [])),
              fst (lookup_many_with_known_absent w_hash_prefix w_codecs w_lsm_root 7 [[1]] [False] (w_scratch_run w_page []))], s', r')
     \<and> st_resident_bytes (ls_stats s') \<le> 100"
proof -
  have "holds_root (se_hash w_env) (se_codecs w_env) 7 w_lsm_root (w_scratch_run w_page [])" using w_lsm_holds by (simp add: w_env_def)
  from session_equals_plain [OF this w_session_opens, where calls = "[([[3], [1, 2]], [False, False]), ([[1]], [False])]"
      and other = default_lsm_root and ks = "[]" and policy = "Inr []"]
  have "\<exists>s' r'. session_calls w_env w_lsm_root 7 [([[3], [1, 2]], [False, False]), ([[1]], [False])] w_session (w_scratch_run w_page [])
     = Some ([fst (lookup_many_with_known_absent (se_hash w_env) (se_codecs w_env) w_lsm_root 7 [[3], [1, 2]] [False, False] (w_scratch_run w_page [])),
              fst (lookup_many_with_known_absent (se_hash w_env) (se_codecs w_env) w_lsm_root 7 [[1]] [False] (w_scratch_run w_page []))], s', r')
     \<and> st_resident_bytes (ls_stats s') \<le> 100"
    by (auto simp del: session_calls.simps)
  then show ?thesis by (simp add: w_env_def)
qed

section \<open>The namespace\<close>

definition w_name :: string where "w_name = ''run-010203''"

text \<open>An empty namespace, and one that holds the run, leased, next to an entry that is no directory.\<close>

definition w_nothing :: namespace where "w_nothing = \<lparr>ns_root = NoRoot, ns_entries = [], ns_faults = []\<rparr>"

definition w_home :: namespace where
  "w_home = \<lparr>ns_root = RealDirectory, ns_entries = [(Some ''stray'', OtherEntry), (Some w_name, RunDirectory (new_dir [77, 1]))], ns_faults = []\<rparr>"

definition w_failing :: namespace where "w_failing = w_home\<lparr>ns_faults := [None, None, None, Some ''disk full'']\<rparr>"

lemma w_names: "run_name_of w_uuid_text w_run_id = w_name" "parse_run_name w_uuid_text w_name = Inr w_run_id"
  by (simp_all add: run_name_of_def w_uuid_text_def w_name_def parse_run_name_def)

lemma w_marker: "encode_marker w_marker_codec w_run_marker = Inr [77, 1]" "roundtrips w_marker_codec"
  "mk_schema_version w_run_marker = SCRATCH_SCHEMA_VERSION" "mk_retention w_run_marker = Retained" "mk_run_id w_run_marker = w_run_id"
proof -
  have "to_vec w_marker_codec w_run_marker = Inr [77, 1]" by (simp add: w_marker_codec_def table_codec_to_vec)
  then show "encode_marker w_marker_codec w_run_marker = Inr [77, 1]" by (simp add: encode_marker_def)
qed (simp_all add: w_run_marker_def w_marker_codec_def table_codec_roundtrips)

lemma w_home_holds: "holds_run w_uuid_text w_marker_codec w_home (w_scratch_run w_page [1, 2])"
proof -
  have "entry_of w_home w_name = Some (RunDirectory (new_dir [77, 1]))" "ns_root w_home = RealDirectory" "ns_faults w_home = []"
    by (simp_all add: w_home_def entry_of_def w_name_def)
  then show ?thesis
    using new_dir_ok [OF w_marker(1)] by (simp add: holds_run_def w_marker w_names MAX_MARKER_BYTES_def) (simp add: new_dir_def)
qed

theorem created_run_is_ready_witness:
  "\<exists>r stats ns'. create_run w_uuid_text w_marker_codec w_run_marker (\<lambda>_. Inr ()) ([], []) w_nothing = (Inr (r, stats), ns')
     \<and> run_marker r = w_run_marker \<and> page_text r = [] \<and> holds_run w_uuid_text w_marker_codec ns' r"
  using created_run_is_ready [of w_nothing w_uuid_text w_run_marker, OF _ _ _ _ w_marker(3) _ w_marker(1)]
  by (auto simp: w_nothing_def w_marker w_names MAX_MARKER_BYTES_def entry_of_def)

theorem reclamation_spares_witness:
  "entry_of (snd (create_run w_uuid_text w_marker_codec (w_run_marker\<lparr>mk_run_id := mk_array [4]\<rparr>) (\<lambda>_. Inr ()) ([], []) w_failing)) w_name
      = Some (RunDirectory (new_dir [77, 1]))
   \<and> entry_of (snd (reclaim_unreachable_retained_runs w_uuid_text w_marker_codec () (\<lambda>_. False) w_failing)) w_name
      = Some (RunDirectory (new_dir [77, 1]))"
proof -
  have leased: "entry_of w_failing w_name = Some (RunDirectory (new_dir [77, 1]))" "\<not> unleased w_failing w_name"
    by (simp_all add: w_failing_def w_home_def entry_of_def w_name_def unleased_def new_dir_def)
  have "(mk_array [4] :: uuid) \<noteq> w_run_id"
  proof
    assume "(mk_array [4] :: uuid) = w_run_id"
    then have "array_bytes (mk_array [4] :: uuid) = array_bytes w_run_id" by simp
    then show False by (simp add: w_run_id_def array_bytes_mk_pad)
  qed
  then have "w_name \<noteq> run_name_of w_uuid_text (mk_array [4])"
    by (simp add: w_name_def run_name_of_def w_uuid_text_def)
  then show ?thesis
    using reclamation_spares [of w_failing w_uuid_text w_marker_codec "w_run_marker\<lparr>mk_run_id := mk_array [4]\<rparr>" "\<lambda>_. Inr ()" "([], [])" w_name
        "()" "\<lambda>_. False"] leased
    by (simp add: w_failing_def w_home_def)
qed

theorem retained_run_survives_witness:
  "(\<exists>ns1 r' ns2. drop_run w_uuid_text (w_scratch_run w_page [1, 2]) w_home = (Inr (), ns1)
      \<and> adopt_retained w_uuid_text w_marker_codec () w_run_id ([], []) ns1 = (Inr r', ns2)
      \<and> page_text r' = w_page \<and> blob_text r' = [1, 2])
    \<and> (\<exists>r' source' other'. clone_retained_into w_hash_prefix w_uuid_text w_marker_codec ([], []) (w_scratch_run w_page [1, 2]) w_nothing
        = (Inr r', source', other') \<and> page_text r' = w_page \<and> blob_text r' = [1, 2] \<and> unmoved (w_scratch_run w_page [1, 2]) source')"
proof -
  have "ns_faults w_nothing = []" "ns_root w_nothing \<noteq> NotRealDirectory" "ns_root w_nothing = NoRoot \<longrightarrow> ns_entries w_nothing = []"
    "entry_of w_nothing (run_name_of w_uuid_text (mk_run_id (run_marker (w_scratch_run w_page [1, 2])))) = None"
    "length (page_text (w_scratch_run w_page [1, 2])) < 2 ^ 64" "length (blob_text (w_scratch_run w_page [1, 2])) < 2 ^ 64"
    "mk_retention (run_marker (w_scratch_run w_page [1, 2])) = Retained"
    by (simp_all add: w_nothing_def entry_of_def w_page_def w_marker)
  from retained_run_survives [OF w_home_holds _ this(7) w_marker(2) this(5,6,1-4), of w_hash_prefix]
  show ?thesis by (auto simp: w_marker)
qed

end
