(* ===== verification/Spec2Isabelle.thy ===== *)
theory Spec2Isabelle
  imports Tine_Prelude Content_Digest Digest_Sealed Durable_Batch Filesystem Local_Journal Local_Journal_V2 Journal_Instances Patricia_Instances Frontier_Instances Scratch_Instances
begin

text \<open>
  Verification of the storage crate \<open>tine-storage\<close> (the Rust sources are \<open>src/*.rs\<close> of the repository).

  \<^bold>\<open>The program.\<close>  The crate is the storage layer of a local-first document store.  Every durable object
  has a content identity (\<open>content_digest.rs\<close>) and a canonical encoding (\<open>digest_sealed.rs\<close>,
  \<open>durable_batch.rs\<close>).  Objects reach the disk through exact, no-clobber publications
  (\<open>filesystem.rs\<close>); operations are logged in append-only journals (\<open>local_journal.rs\<close>,
  \<open>local_journal_v2.rs\<close>); and key-value indexes are kept as content-addressed Patricia tries
  (\<open>authenticated_patricia.rs\<close>), whose nodes are such published files.  A SQLite database holds the
  accepted history of a workspace: \<open>sqlite_frontier.rs\<close> appends one accepted batch per transaction and keeps,
  in three node tables, hash-linked search trees for the causal clocks, the accepted batches and the current
  documents; each apply calls the row projection of \<open>sqlite_materialization.rs\<close> inside its transaction.
  The engine keeps its working state in scratch runs (\<open>scratch.rs\<close>): directories with a marker, a lease and two
  append-only files, for blobs and for the pages of log-structured indexes.

  \<^bold>\<open>The theories.\<close>
  \<^item> \<open>Tine_Prelude\<close>: byte arrays, big-endian integers, checked arithmetic, results as sums
    (\<open>bind_res\<close> is the \<open>?\<close> operator), strict order on lists, and the contract of the serializer crates.
  \<^item> \<open>Content_Digest\<close>: the 32-byte identity and its strict text form.  SHA-256 is a parameter everywhere.
  \<^item> \<open>Digest_Sealed\<close>, \<open>Durable_Batch\<close>: the sealed payload, the batch manifest with its validation,
    and the checksummed object envelope.  Locales \<open>strict_text\<close> and \<open>canonical_decoder\<close> hold the contract
    of a strict decoder; each codec interprets it.
  \<^item> \<open>Filesystem\<close>: a directory with volatile and durable file contents, names that a power loss may
    revert, failing calls and process death; on it the exact publication, replacement, retirement and the
    unflushed batch.  Proofs use triples \<open>triple P m Q R\<close> with the post-condition \<open>R\<close> on every error exit.
  \<^item> \<open>Local_Journal\<close>: the frame codec, the buffered segment scan with its bounds, open with torn-tail
    truncation, append with poisoning, replay.  Opens, reads, writes and syncs take their outcomes as
    arguments.
  \<^item> \<open>Local_Journal_V2\<close>, \<open>Journal_Crash\<close>, \<open>Journal_Instances\<close>: the generation selected by a
    frontier file; the refinement of the abstract log by append, crash and reopen; a concrete generation.
  \<^item> \<open>Patricia_Bits\<close>, \<open>Patricia_Tree\<close>, \<open>Ordered_Map\<close>: keys as bit strings, the abstract crit-bit tree
    with insertion, removal and its uniqueness for a given content, and \<open>BTreeMap\<close> as a sorted list.
  \<^item> \<open>Patricia_Index\<close>: nodes, their validation, the authenticated read and the read-only operations.
    \<open>stored E rd t\<close> relates a node source to the abstract tree \<open>t\<close>.
  \<^item> \<open>Patricia_Update\<close>, \<open>Patricia_Bulk\<close>: staging, insertion, reads during a construction, the root of a
    complete record set.
  \<^item> \<open>Patricia_Publish\<close>, \<open>Patricia_Host\<close>: removal and publication over any node directory; locale
    \<open>node_sink\<close> is what removal needs of the place its nodes go to (interpreted by staging and, through a
    sublocale, by publication), locale \<open>node_directory\<close> what publication needs of the directory
    (interpreted by the file system of \<open>Filesystem\<close> with the exact publisher).
  \<^item> \<open>Patricia_Properties\<close>, \<open>Patricia_Instances\<close>: the promises of the index, and a concrete environment
    where their hypotheses hold.
  \<^item> \<open>Result_State\<close>, \<open>Treap\<close>, \<open>Map_Table\<close>: fallible operations on a state; the abstract trees (search order
    on the key, heap order on a hashed priority) with insertion, split, union and the uniqueness of the tree for a
    given content; and what it means that a table holds the nodes of a tree.
    Locale \<open>heap_order\<close> fixes the priority order
    of the trees; locale \<open>map_table\<close> is the interface of a node table, its upsert proved once there and
    interpreted by the clock, the batch and the document table.
  \<^item> \<open>Frontier_Node\<close>, \<open>Frontier_Db\<close>, \<open>Frontier_Records\<close>: errors, links and node digests; the tables as one
    state record with a list of injected statement failures, and the reads and writes of one row; the
    authenticated reads and \<open>batch_descends_from\<close>.
  \<^item> \<open>Frontier_Clock\<close>, \<open>Frontier_Batch\<close>, \<open>Frontier_Documents\<close>: rotations, upserts, split and union on the
    tables, each refined to its operation on trees, and the document map, whose rows are keyed by document and
    overwritten in place.
  \<^item> \<open>Frontier_Accept\<close>, \<open>Frontier_Log\<close>, \<open>Frontier_Causality\<close>: the request and its validation, the event row
    and the derivation of a clock root; the abstract log of accepted batches and the invariants
    that tie the tables to it (\<open>tables_ok\<close>, completed by \<open>frontier_holds\<close> in \<open>Frontier_Refinement\<close>); the causal clocks of a log and the ancestor relation.
  \<^item> \<open>Frontier_Apply\<close>, \<open>Frontier_Atomicity\<close>, \<open>Frontier_Refinement\<close>: preflight and the three applies with
    their transactions; what a failure leaves; the refinement of the abstract log.
  \<^item> \<open>Frontier_Seed\<close>: the terminal seed, which builds the document tree of a whole history in one pass.
  \<^item> \<open>Frontier_Typing\<close>, \<open>Frontier_Properties\<close>, \<open>Frontier_Instances\<close>: column types and constraints of every
    table; the remaining promises; a concrete hash and history where the hypotheses hold.
  \<^item> \<open>Scratch_Store\<close>, \<open>Scratch_Lsm\<close>, \<open>Scratch_Session\<close>: the buffered append file (\<open>BufferedAppendFile\<close>) with
    failing calls and torn writes, blobs and authenticated pages; the index whose insertion is a binary carry over
    32 levels of sorted segments, its lookups and scans, related by \<open>lsm_map\<close> to the map it stands for; the
    session that caches decoded segments.  The page and the marker codec interpret \<open>canonical_decoder\<close>.
  \<^item> \<open>Scratch_Runs\<close>, \<open>Scratch_Lifecycle\<close>: the scratch namespace as a value with failing calls, and on it
    creation, adoption, cloning, drop, census and reclamation; what each may touch (the collection \<open>frames\<close>), and
    the whole life of a run where nothing fails.
  \<^item> \<open>Scratch_Properties\<close>, \<open>Scratch_Instances\<close>: the promises of a run, and a concrete run.

  \<^bold>\<open>What is proved.\<close>  Codecs: exact round trips and strictness (one accepted byte form per value).  File
  system: at every failure point and after power loss a publication leaves the old or the new content and
  touches no other name; acknowledged publications are durable, except over an existing file that was never
  flushed (a finding).  Journals: opening adopts exactly the committed log; a failed or torn append is
  invisible or complete; acknowledged entries survive every history of crashes; a failed replay of the v1
  journal makes the next append overwrite committed frames (a finding).  Patricia index: lookups, visits and
  prefix queries are exact on stored trees, except that a key which is exactly a branch prefix is reported
  as damage (a finding); insertion and removal refine the finite map; the root digest is a function of the
  content alone, and injective, relative to collision freedom on the nodes dealt with; acknowledged updates
  are readable from the directory.  Frontier: an apply either appends exactly its batch and puts exactly its
  documents, or changes nothing; the clock comparison decides the causal order of the log; the clock root is a
  function of the clock alone; the one-pass seed gives the root and rows of repeated upserts, and completes a
  history applied without documents; reading all documents always ends; no outcome leaves an ill-typed row.  Scratch runs: an appended blob or page
  stays readable while the run grows, except after a flush that failed half way and is retried (a finding); an
  insertion overrides exactly its records and leaves every older root as it was; lookups and scans are exact on
  every root in order; a session always returns and answers like the plain lookup within its budget; creation
  and reclamation remove, at every failure, only free runs of their owner that they may remove; a retained run is
  the same after drop and adoption, and so is its clone.

  \<^bold>\<open>Bounds and fuel.\<close>  The traversals of the index take the code's own node budget, \<open>8 * bytes + 1\<close>, as
  their recursion argument; the budget is proved to suffice (\<open>budget_ok\<close>, \<open>budget_start\<close>,
  \<open>budget_child\<close>) because the bit position grows along a path.  An insertion stages at most
  \<open>STAGES_PER_INSERT\<close> = 771 nodes, so up to \<open>2 ^ 34\<close> records cannot overflow the staged byte count.
  The walks over staged nodes end because every visited digest leaves the unvisited ones.  Journal scans
  recurse on the remaining bytes.  The retry loops of the opens run the code's own number of attempts.
  The descents of the frontier take the code's own depth bound of 256 (\<open>ensure_depth\<close>); up to 256 documents
  cannot meet it (\<open>documents_within_depth_bound\<close>), and where a longer history is possible the theorems assume
  room for the trees (\<open>room_ok\<close>, \<open>document_room\<close>; any 128 peers have it, since the two trees of a union share
  the bound).  The traversal of all documents and the seed have no bound of their own: they are
  \<open>partial_function\<close>s, and proved to end on represented tables.

  The occupied levels of a scratch index are the binary digits of the number of its insertions, so the 32 levels
  hold \<open>2 ^ 32 - 1\<close> of them (\<open>levels_count_insertions\<close>).  The eviction loop of a session is a \<open>partial_function\<close> and is
  proved to end.  The theorems on healthy runs assume files below \<open>2 ^ 63\<close> bytes with room for one page.

  \<^bold>\<open>Parameters of the scratch runs.\<close>  SHA-256, \<open>postcard\<close> (round trips, and encodings no shorter than what
  they contain: \<open>codecs_ok\<close>), the text form of UUIDs, and the sizes of decoded values in memory.

  \<^bold>\<open>Parameters of the frontier.\<close>  SHA-256 (\<open>H\<close>), and the projection update \<open>M\<close> that an apply runs on its
  own tables (\<open>apply_change_inner\<close>), of which nothing is assumed but that it keeps to those tables by its type.
  Equal node digests stand for equal nodes among the nodes dealt with (stated as hypotheses of the theorems).
  An apply does not compare \<open>semantic_effect_digest\<close> with the hash of the effect it stores, although every later
  authenticated read of the row does; the refinement therefore assumes that requests are consistent
  (\<open>request_fits\<close>).

  \<^bold>\<open>Not modelled.\<close>  The packed Patricia catalog (\<open>packed_patricia.rs\<close>; the index takes its answers as a
  parameter and the file-system instance has none), and the residency accounting and packed sink of
  constructions.  Of the scratch runs: the operation counters, poisoned locks, and the bytes that a removal which
  fails leaves behind in a file of a partial clone.  Of the SQLite side: creating and validating the schema
  (the model starts from typed tables), the row projection with its queries
  (\<open>sqlite_materialization.rs\<close> beyond the stamp check and the recorded digest), the file set
  (\<open>sqlite_fileset.rs\<close>) and the connection facade (\<open>sqlite_database.rs\<close>), which are SQL texts and connection settings that
  the SQLite library interprets.  The format manifest (\<open>formats.rs\<close>) and the API surface scanner hold no state.
  Statistics counters, display texts of most errors, serde glue, and the Windows and Android variants of the
  file-system calls are not modelled.
\<close>

end
